(* ===== verification/Prelude.thy ===== *)
theory Prelude
  imports Main "HOL-Library.Sublist" "HOL-Library.Code_Target_Nat"
begin

text \<open>
  Shared vocabulary of the development: the error values of the Rust crates, the result type,
  checked machine arithmetic on \<open>usize\<close> / \<open>u64\<close> / \<open>u32\<close> values, and the generic lemmas on lists,
  index arithmetic and results that the component theories use.

  A Rust \<open>Result<T, E>\<close> is a sum \<open>'e + 'a\<close> (\<open>Inl\<close> is \<open>Err\<close>). A method that takes \<open>&mut self\<close>
  returns its result together with the new state, also on the error path, because Rust keeps
  whatever was written before the \<open>return Err\<close>. An error message keeps the constant part of its
  text; the formatted numbers are dropped. \<open>Panicked\<close> stands for a Rust panic (an index out of
  bounds, or an arithmetic underflow under overflow checks); the component theories prove that it is
  not reached.
\<close>

section \<open>Errors and results\<close>

datatype engine_error_code = Route | Layout | Sampling | Generation | Capacity

datatype gpu_error_code = GpuDriver | GpuMemory | GpuArena | GpuGraph | GpuContext | GpuLaunch | GpuModule

datatype gpu_error = GpuContract gpu_error_code string | GpuDriverError string | GpuPanicked

datatype engine_error =
    Contract engine_error_code string
  | Checkpoint string
  | Frontend string
  | Gpu gpu_error
  | Panicked

type_synonym 'a engine_result = "engine_error + 'a"
type_synonym 'a gpu_result = "gpu_error + 'a"

abbreviation route_error :: "string \<Rightarrow> engine_error" where
  "route_error m \<equiv> Contract Route m"

abbreviation layout_error :: "string \<Rightarrow> engine_error" where
  "layout_error m \<equiv> Contract Layout m"

abbreviation sampling_error :: "string \<Rightarrow> engine_error" where
  "sampling_error m \<equiv> Contract Sampling m"

abbreviation generation_error :: "string \<Rightarrow> engine_error" where
  "generation_error m \<equiv> Contract Generation m"

abbreviation capacity_error :: "string \<Rightarrow> engine_error" where
  "capacity_error m \<equiv> Contract Capacity m"

abbreviation arena_error :: "string \<Rightarrow> gpu_error" where
  "arena_error m \<equiv> GpuContract GpuArena m"

fun error_code :: "engine_error \<Rightarrow> engine_error_code option" where
  "error_code (Contract c m) = Some c"
| "error_code e = None"

definition is_ok :: "'e + 'a \<Rightarrow> bool" where
  "is_ok r = (case r of Inl e \<Rightarrow> False | Inr a \<Rightarrow> True)"

definition rbind :: "'e + 'a \<Rightarrow> ('a \<Rightarrow> 'e + 'b) \<Rightarrow> 'e + 'b" where
  "rbind r k = (case r of Inl e \<Rightarrow> Inl e | Inr a \<Rightarrow> k a)"

lemma is_ok_simps [simp]: "is_ok (Inl e) = False" "is_ok (Inr a) = True"
  by (simp_all add: is_ok_def)

lemma is_ok_iff: "is_ok r \<longleftrightarrow> (\<exists>a. r = Inr a)"
  by (cases r) auto

lemma not_is_ok_iff: "\<not> is_ok r \<longleftrightarrow> (\<exists>e. r = Inl e)"
  by (cases r) auto

lemma rbind_simps [simp]: "rbind (Inl e) k = Inl e" "rbind (Inr a) k = k a"
  by (simp_all add: rbind_def)

lemma rbind_Inr_iff: "rbind r k = Inr b \<longleftrightarrow> (\<exists>a. r = Inr a \<and> k a = Inr b)"
  by (cases r) auto

section \<open>Machine arithmetic\<close>

text \<open>
  A \<open>usize\<close> or \<open>u64\<close> value is a \<open>nat\<close> below \<open>2 ^ 64\<close>, a \<open>u32\<close> value a \<open>nat\<close> below \<open>2 ^ 32\<close>; the
  checked operations return \<open>None\<close> exactly where Rust's \<open>checked_*\<close> methods do.
\<close>

definition U64_BOUND :: nat where "U64_BOUND = 2 ^ 64"
definition U32_BOUND :: nat where "U32_BOUND = 2 ^ 32"

definition checked_add :: "nat \<Rightarrow> nat \<Rightarrow> nat option" where
  "checked_add a b = (if a + b < U64_BOUND then Some (a + b) else None)"

definition checked_mul :: "nat \<Rightarrow> nat \<Rightarrow> nat option" where
  "checked_mul a b = (if a * b < U64_BOUND then Some (a * b) else None)"

definition div_ceil :: "nat \<Rightarrow> nat \<Rightarrow> nat" where
  "div_ceil a b = (if a mod b = 0 then a div b else a div b + 1)"

definition ok_or :: "'a option \<Rightarrow> 'e \<Rightarrow> 'e + 'a" where
  "ok_or x e = (case x of None \<Rightarrow> Inl e | Some a \<Rightarrow> Inr a)"

lemma ok_or_simps [simp]: "ok_or None e = Inl e" "ok_or (Some a) e = Inr a"
  by (simp_all add: ok_or_def)

lemma ok_or_Inr_iff: "ok_or x e = Inr a \<longleftrightarrow> x = Some a"
  by (cases x) auto

lemma checked_add_Some_iff: "checked_add a b = Some c \<longleftrightarrow> c = a + b \<and> a + b < U64_BOUND"
  by (auto simp: checked_add_def)

lemma checked_mul_Some_iff: "checked_mul a b = Some c \<longleftrightarrow> c = a * b \<and> a * b < U64_BOUND"
  by (auto simp: checked_mul_def)

lemma div_ceil_le_iff: "0 < b \<Longrightarrow> div_ceil a b \<le> n \<longleftrightarrow> a \<le> n * b"
proof -
  assume b: "0 < b"
  have a: "a = a div b * b + a mod b" by simp
  have m: "a mod b < b" using b by simp
  show ?thesis
  proof (cases "a mod b = 0")
    case True
    then show ?thesis using a b
      by (metis add.right_neutral div_ceil_def mult_le_cancel2)
  next
    case False
    have "a \<le> n * b \<longleftrightarrow> a div b < n"
    proof
      assume "a \<le> n * b"
      then have "a div b * b < n * b" using a False by linarith
      then show "a div b < n" by simp
    next
      assume "a div b < n"
      then have "(a div b + 1) * b \<le> n * b" by (intro mult_le_mono1) simp
      then have "b + a div b * b \<le> n * b" by simp
      then show "a \<le> n * b" using a m by linarith
    qed
    then show ?thesis using False by (auto simp: div_ceil_def)
  qed
qed

lemma div_ceil_mono: "0 < b \<Longrightarrow> a \<le> a' \<Longrightarrow> div_ceil a b \<le> div_ceil a' b"
  by (meson div_ceil_le_iff le_trans order_refl)

lemma le_div_ceil_mult: "0 < b \<Longrightarrow> a \<le> div_ceil a b * b"
  by (meson div_ceil_le_iff order_refl)

lemma div_ceil_zero [simp]: "div_ceil 0 b = 0"
  by (simp add: div_ceil_def)

lemma div_less_div_ceil: "0 < b \<Longrightarrow> p < a \<Longrightarrow> p div b < div_ceil a b"
proof -
  assume b: "0 < b" and p: "p < a"
  have "p < div_ceil a b * b" using p le_div_ceil_mult [OF b, of a] by linarith
  then show ?thesis using b by (simp add: less_mult_imp_div_less)
qed

lemma add_pred_div_eq_div_ceil: "0 < b \<Longrightarrow> (a + (b - 1)) div b = div_ceil a b"
proof -
  assume b: "0 < b"
  have "(a + (b - 1)) div b = (a div b * b + (a mod b + (b - 1))) div b"
    by (simp add: add.assoc [symmetric])
  also have "\<dots> = a div b + (a mod b + (b - 1)) div b"
    using b by (intro div_mult_self3) simp
  finally have "(a + (b - 1)) div b = a div b + (a mod b + (b - 1)) div b" .
  moreover have "(a mod b + (b - 1)) div b = (if a mod b = 0 then 0 else 1)"
  proof (cases "a mod b = 0")
    case True
    then show ?thesis using b by simp
  next
    case False
    have "a mod b < b" using b by simp
    then have "(a mod b + (b - 1)) div b = (b + (a mod b - 1)) div b" using False by (simp add: add.commute)
    also have "\<dots> = 1 + (a mod b - 1) div b" using b by (subst div_add_self1) simp_all
    also have "\<dots> = 1" using \<open>a mod b < b\<close> by simp
    finally show ?thesis using False by simp
  qed
  ultimately show ?thesis by (simp add: div_ceil_def)
qed

section \<open>Row-major index arithmetic\<close>

lemma row_index_bound: "s < (n::nat) \<Longrightarrow> e < k \<Longrightarrow> s * k + e < n * k"
proof -
  assume "s < n" and e: "e < k"
  then have "(s + 1) * k \<le> n * k" by (intro mult_le_mono1) simp
  then show ?thesis using e by simp
qed

lemma row_index_inject: "e < (k::nat) \<Longrightarrow> e' < k \<Longrightarrow> s * k + e = s' * k + e' \<longleftrightarrow> s = s' \<and> e = e'"
proof -
  assume e: "e < k" and e': "e' < k"
  show ?thesis
  proof
    assume eq: "s * k + e = s' * k + e'"
    have "(s * k + e) div k = s" "(s' * k + e') div k = s'" using e e' by simp_all
    then show "s = s' \<and> e = e'" using eq by simp
  qed simp
qed

section \<open>Lists and ranges\<close>

text \<open>The byte \<open>k\<close> is in the half-open range \<open>r\<close>.\<close>

definition in_range :: "nat \<Rightarrow> nat \<times> nat \<Rightarrow> bool" where
  "in_range k r \<longleftrightarrow> fst r \<le> k \<and> k < snd r"

lemma filter_upt_Nil_iff: "filter P [a..<b] = [] \<longleftrightarrow> (\<forall>i. a \<le> i \<longrightarrow> i < b \<longrightarrow> \<not> P i)"
  by (auto simp: filter_empty_conv)

lemma sum_list_le_if_disjoint_rows:
  assumes "distinct (concat xss)" and "set (concat xss) \<subseteq> {..<n}"
  shows "sum_list (map length xss) \<le> n"
proof -
  have "sum_list (map length xss) = card (set (concat xss))"
    using assms(1) by (simp only: distinct_card length_concat)
  also have "\<dots> \<le> card {..<n}" by (rule card_mono) (use assms(2) in auto)
  finally show ?thesis by simp
qed

text \<open>Overwriting a run of consecutive entries of a flat table.\<close>

definition list_write :: "nat \<Rightarrow> 'a list \<Rightarrow> 'a list \<Rightarrow> 'a list" where
  "list_write i xs ys = take i ys @ xs @ drop (i + length xs) ys"

lemma length_list_write [simp]: "i + length xs \<le> length ys \<Longrightarrow> length (list_write i xs ys) = length ys"
  by (simp add: list_write_def)

lemma take_drop_list_write:
  assumes "i + length ys \<le> length xs"
  shows "take (length ys) (drop i (list_write i ys xs)) = ys"
proof -
  have "length (take i xs) = i" using assms by simp
  then show ?thesis by (simp add: list_write_def)
qed

lemma nth_list_write:
  "i + length xs \<le> length ys \<Longrightarrow> k < length ys \<Longrightarrow>
    list_write i xs ys ! k = (if i \<le> k \<and> k < i + length xs then xs ! (k - i) else ys ! k)"
  by (auto simp: list_write_def nth_append)

lemma list_write_Nil [simp]: "i \<le> length ys \<Longrightarrow> list_write i [] ys = ys"
  by (simp add: list_write_def)

lemma list_write_Cons:
  "i + Suc (length xs) \<le> length ys \<Longrightarrow> list_write i (x # xs) ys = list_write (Suc i) xs (ys[i := x])"
  by (rule nth_equalityI) (auto simp: nth_list_write nth_list_update nth_Cons')

lemma list_write_snoc:
  "i + Suc (length xs) \<le> length ys \<Longrightarrow> list_write i (xs @ [x]) ys = list_write i xs (ys[i + length xs := x])"
  by (rule nth_equalityI) (auto simp: nth_list_write nth_list_update nth_append)

end
