(* ===== verification/PagedRows.thy ===== *)
theory PagedRows
  imports Prelude
begin

text \<open>
  The interface that both page allocators of the engine provide to the rest of the program
  (\<open>PagedKvSlotPool\<close> in \<open>paged_kv_slots.rs\<close> and \<open>Qwen38FlashNextSlotPool\<close> in
  \<open>qwen38_flash_next/slot_lifecycle.rs\<close>): eight slot rows draw physical pages of 64 token positions
  from one shared pool. The attention kernels find the cached position \<open>n\<close> of a slot at page
  \<open>row ! (n div 64)\<close>, offset \<open>n mod 64\<close>; the locale derives from the ownership laws that no two
  cached positions share a place and that a place does not move while it is owned.
\<close>

definition MAX_BATCH :: nat where "MAX_BATCH = 8"
definition ATTENTION_PAGE_SIZE :: nat where "ATTENTION_PAGE_SIZE = 64"

lemma ATTENTION_PAGE_SIZE_pos [simp]: "0 < ATTENTION_PAGE_SIZE"
  by (simp add: ATTENTION_PAGE_SIZE_def)

lemma MAX_BATCH_less_iff: "s < MAX_BATCH \<longleftrightarrow> s < 8"
  by (simp add: MAX_BATCH_def)

text \<open>The physical page and in-page offset of one logical position of a row.\<close>

definition page_coordinate :: "nat list \<Rightarrow> nat \<Rightarrow> nat \<times> nat" where
  "page_coordinate row n = (row ! (n div ATTENTION_PAGE_SIZE), n mod ATTENTION_PAGE_SIZE)"

lemma page_coordinate_append:
  "n < length row * ATTENTION_PAGE_SIZE \<Longrightarrow> page_coordinate (row @ new) n = page_coordinate row n"
  by (simp add: page_coordinate_def nth_append less_mult_imp_div_less)

lemma page_coordinate_take:
  "n < k * ATTENTION_PAGE_SIZE \<Longrightarrow> page_coordinate (take k row) n = page_coordinate row n"
  by (simp add: page_coordinate_def less_mult_imp_div_less)

locale paged_rows =
  fixes inv :: "'p \<Rightarrow> bool"
    and rows :: "'p \<Rightarrow> nat \<Rightarrow> nat list"
    and tokens :: "'p \<Rightarrow> nat \<Rightarrow> nat"
    and funded :: "'p \<Rightarrow> nat"
    and free :: "'p \<Rightarrow> nat"
  assumes rows_distinct: "inv p \<Longrightarrow> s < MAX_BATCH \<Longrightarrow> distinct (rows p s)"
    and rows_disjoint: "inv p \<Longrightarrow> s < MAX_BATCH \<Longrightarrow> t < MAX_BATCH \<Longrightarrow> s \<noteq> t \<Longrightarrow>
      set (rows p s) \<inter> set (rows p t) = {}"
    and rows_funded: "inv p \<Longrightarrow> s < MAX_BATCH \<Longrightarrow> set (rows p s) \<subseteq> {..<funded p}"
    and tokens_mapped: "inv p \<Longrightarrow> s < MAX_BATCH \<Longrightarrow> tokens p s \<le> length (rows p s) * ATTENTION_PAGE_SIZE"
    and free_conserved: "inv p \<Longrightarrow> free p + (\<Sum>s<MAX_BATCH. length (rows p s)) = funded p"
begin

lemma coordinate_inject:
  assumes inv: "inv p" and s: "s < MAX_BATCH" and t: "t < MAX_BATCH"
    and i: "i < tokens p s" and j: "j < tokens p t"
    and eq: "page_coordinate (rows p s) i = page_coordinate (rows p t) j"
  shows "s = t \<and> i = j"
proof -
  let ?i = "i div ATTENTION_PAGE_SIZE" and ?j = "j div ATTENTION_PAGE_SIZE"
  have i': "?i < length (rows p s)" and j': "?j < length (rows p t)"
    using i j tokens_mapped [OF inv s] tokens_mapped [OF inv t] by (auto intro: less_mult_imp_div_less)
  have page: "rows p s ! ?i = rows p t ! ?j" and off: "i mod ATTENTION_PAGE_SIZE = j mod ATTENTION_PAGE_SIZE"
    using eq by (auto simp: page_coordinate_def)
  have st: "s = t"
    using rows_disjoint [OF inv s t] nth_mem [OF i'] nth_mem [OF j'] page by force
  then have "?i = ?j"
    using page i' j' rows_distinct [OF inv s] by (simp add: nth_eq_iff_index_eq)
  then show ?thesis using st off by (metis div_mult_mod_eq)
qed

lemma row_length_le_funded: "inv p \<Longrightarrow> s < MAX_BATCH \<Longrightarrow> length (rows p s) \<le> funded p"
proof -
  assume inv: "inv p" and s: "s < MAX_BATCH"
  have "length (rows p s) \<le> (\<Sum>s<MAX_BATCH. length (rows p s))"
    using s by (intro member_le_sum) auto
  then show ?thesis using free_conserved [OF inv] by linarith
qed

lemma total_tokens_le: "inv p \<Longrightarrow> (\<Sum>s<MAX_BATCH. tokens p s) \<le> (funded p - free p) * ATTENTION_PAGE_SIZE"
proof -
  assume inv: "inv p"
  have "(\<Sum>s<MAX_BATCH. tokens p s) \<le> (\<Sum>s<MAX_BATCH. length (rows p s) * ATTENTION_PAGE_SIZE)"
    by (rule sum_mono) (simp add: tokens_mapped [OF inv])
  also have "\<dots> = (\<Sum>s<MAX_BATCH. length (rows p s)) * ATTENTION_PAGE_SIZE"
    by (simp add: sum_distrib_right)
  also have "(\<Sum>s<MAX_BATCH. length (rows p s)) = funded p - free p"
    using free_conserved [OF inv] by linarith
  finally show ?thesis .
qed

end

text \<open>
  The allocating operations: \<open>grow s n p p'\<close> relates a pool to the one a successful reservation of
  \<open>n\<close> tokens leaves, \<open>shrink s n p p'\<close> to the one a successful truncation to \<open>n\<close> tokens leaves.
\<close>

locale paged_allocator = paged_rows inv rows tokens funded free
  for inv :: "'p \<Rightarrow> bool" and rows tokens funded free +
  fixes grow :: "nat \<Rightarrow> nat \<Rightarrow> 'p \<Rightarrow> 'p \<Rightarrow> bool"
    and shrink :: "nat \<Rightarrow> nat \<Rightarrow> 'p \<Rightarrow> 'p \<Rightarrow> bool"
  assumes grow_inv: "inv p \<Longrightarrow> s < MAX_BATCH \<Longrightarrow> grow s n p p' \<Longrightarrow> inv p'"
    and grow_row: "inv p \<Longrightarrow> s < MAX_BATCH \<Longrightarrow> grow s n p p' \<Longrightarrow> \<exists>new. rows p' s = rows p s @ new"
    and grow_covers: "inv p \<Longrightarrow> s < MAX_BATCH \<Longrightarrow> grow s n p p' \<Longrightarrow>
      n \<le> length (rows p' s) * ATTENTION_PAGE_SIZE"
    and grow_frame: "inv p \<Longrightarrow> s < MAX_BATCH \<Longrightarrow> t < MAX_BATCH \<Longrightarrow> s \<noteq> t \<Longrightarrow> grow s n p p' \<Longrightarrow>
      rows p' t = rows p t"
    and shrink_inv: "inv p \<Longrightarrow> s < MAX_BATCH \<Longrightarrow> shrink s n p p' \<Longrightarrow> inv p'"
    and shrink_row: "inv p \<Longrightarrow> s < MAX_BATCH \<Longrightarrow> shrink s n p p' \<Longrightarrow>
      rows p' s = take (div_ceil n ATTENTION_PAGE_SIZE) (rows p s)"
    and shrink_frame: "inv p \<Longrightarrow> s < MAX_BATCH \<Longrightarrow> t < MAX_BATCH \<Longrightarrow> s \<noteq> t \<Longrightarrow> shrink s n p p' \<Longrightarrow>
      rows p' t = rows p t"
begin

lemma grow_keeps_coordinates:
  assumes "inv p" and "s < MAX_BATCH" and "t < MAX_BATCH" and "grow s n p p'" and i: "i < tokens p t"
  shows "page_coordinate (rows p' t) i = page_coordinate (rows p t) i"
proof (cases "s = t")
  case True
  obtain new where "rows p' s = rows p s @ new" using grow_row assms by blast
  moreover have "i < length (rows p s) * ATTENTION_PAGE_SIZE"
    using i tokens_mapped [OF assms(1,3)] True by simp
  ultimately show ?thesis using True by (simp add: page_coordinate_append)
next
  case False
  then show ?thesis using grow_frame assms by metis
qed

lemma shrink_keeps_coordinates:
  assumes "inv p" and "s < MAX_BATCH" and "t < MAX_BATCH" and "shrink s n p p'" and "t = s \<longrightarrow> i < n"
  shows "page_coordinate (rows p' t) i = page_coordinate (rows p t) i"
proof (cases "s = t")
  case True
  have "i < div_ceil n ATTENTION_PAGE_SIZE * ATTENTION_PAGE_SIZE"
    using assms(5) True le_div_ceil_mult [OF ATTENTION_PAGE_SIZE_pos, of n] by linarith
  then show ?thesis using True shrink_row [OF assms(1,2,4)] by (simp add: page_coordinate_take)
next
  case False
  then show ?thesis using shrink_frame assms by metis
qed

lemma grow_then_shrink_restores:
  assumes "inv p" and "s < MAX_BATCH" and g: "grow s n p p'" and h: "shrink s k p' p''"
    and k: "div_ceil k ATTENTION_PAGE_SIZE = length (rows p s)" and t: "t < MAX_BATCH"
  shows "rows p'' t = rows p t"
proof -
  have inv': "inv p'" by (rule grow_inv [OF assms(1-3)])
  show ?thesis
  proof (cases "s = t")
    case True
    obtain new where "rows p' s = rows p s @ new" using grow_row assms(1-3) by blast
    then show ?thesis using True shrink_row [OF inv' assms(2) h] k by simp
  next
    case False
    then show ?thesis using grow_frame [OF assms(1,2) t False g] shrink_frame [OF inv' assms(2) t False h] by simp
  qed
qed

end

end
