(* ===== verification/KvPool.thy ===== *)
theory KvPool
  imports PagedRows
begin

text \<open>
  The allocation-free shared-page owner for eight stable KV slot rows:
  \<open>crates/tuisko-engine/src/paged_kv_slots.rs\<close>. Each method of \<open>PagedKvSlotPool\<close> is one definition
  that takes the pool and returns its result together with the pool it leaves behind, so that the
  state after an \<open>Err\<close> is part of the model.
\<close>

section \<open>State\<close>

definition MAX_CONTEXT_TOKENS :: nat where "MAX_CONTEXT_TOKENS = 220000"
definition LONG_CONTEXT_PHYSICAL_PAGES :: nat where
  "LONG_CONTEXT_PHYSICAL_PAGES = div_ceil MAX_CONTEXT_TOKENS ATTENTION_PAGE_SIZE"

definition FREE_PAGE_OWNER :: nat where "FREE_PAGE_OWNER = 255"
definition UNUSED_PAGE :: nat where "UNUSED_PAGE = 4294967295"

datatype kv_slot_state = Vacant | Active | Retained

record kv_route =
  physical_page :: nat
  page_offset :: nat

record kv_table_update =
  upd_slot :: nat
  first_entry :: nat
  entry_count :: nat

definition kv_update_is_empty :: "kv_table_update \<Rightarrow> bool" where
  "kv_update_is_empty u = (entry_count u = 0)"

record kv_pool =
  physical_pages :: nat
  table_stride :: nat
  max_context_tokens :: nat
  page_tables :: "nat list"
  page_owners :: "nat list"
  states :: "kv_slot_state list"
  token_counts :: "nat list"
  page_counts :: "nat list"
  free_pages :: nat
  next_free_hint :: nat

section \<open>Operations\<close>

definition kv_new_with_limits :: "nat \<Rightarrow> nat \<Rightarrow> nat \<Rightarrow> kv_pool engine_result" where
  "kv_new_with_limits pages stride max_context =
    (if stride = 0 then Inl (layout_error ''paged KV table stride must be nonzero'')
     else rbind (ok_or (checked_mul stride ATTENTION_PAGE_SIZE)
                   (layout_error ''paged KV table capacity overflows'')) (\<lambda>table_capacity.
       if max_context = 0 \<or> max_context > table_capacity
       then Inl (layout_error ''paged KV maximum context is outside the table capacity'')
       else if pages > stride
       then Inl (layout_error ''paged KV pool has more physical pages than its table stride'')
       else rbind (ok_or (checked_mul MAX_BATCH stride)
                     (layout_error ''paged KV page-table entries overflow'')) (\<lambda>table_entries.
         Inr \<lparr>physical_pages = pages, table_stride = stride, max_context_tokens = max_context,
              page_tables = replicate table_entries UNUSED_PAGE,
              page_owners = replicate pages FREE_PAGE_OWNER,
              states = replicate MAX_BATCH Vacant, token_counts = replicate MAX_BATCH 0,
              page_counts = replicate MAX_BATCH 0, free_pages = pages, next_free_hint = 0\<rparr>)))"

definition kv_new :: "nat \<Rightarrow> kv_pool engine_result" where
  "kv_new pages =
    (if pages > LONG_CONTEXT_PHYSICAL_PAGES
     then Inl (layout_error ''paged KV slot pool exceeds the long-context page maximum'')
     else kv_new_with_limits pages LONG_CONTEXT_PHYSICAL_PAGES MAX_CONTEXT_TOKENS)"

definition kv_host_allocation_bytes :: "kv_pool \<Rightarrow> nat" where
  "kv_host_allocation_bytes p = length (page_tables p) * 4 + length (page_owners p) * 1"

definition kv_require_slot :: "nat \<Rightarrow> unit engine_result" where
  "kv_require_slot slot =
    (if slot \<ge> MAX_BATCH then Inl (route_error ''paged KV slot is outside 0..8'') else Inr ())"

definition kv_require_active :: "kv_slot_state \<Rightarrow> unit engine_result" where
  "kv_require_active state =
    (if state \<noteq> Active then Inl (generation_error ''paged KV slot cannot reserve from this state'')
     else Inr ())"

definition kv_table_row_begin :: "kv_pool \<Rightarrow> nat \<Rightarrow> nat engine_result" where
  "kv_table_row_begin p slot =
    ok_or (checked_mul slot (table_stride p)) (layout_error ''paged KV table row offset overflows'')"

definition kv_state :: "kv_pool \<Rightarrow> nat \<Rightarrow> kv_slot_state engine_result" where
  "kv_state p slot = rbind (kv_require_slot slot) (\<lambda>_. Inr (states p ! slot))"

definition kv_token_count :: "kv_pool \<Rightarrow> nat \<Rightarrow> nat engine_result" where
  "kv_token_count p slot = rbind (kv_require_slot slot) (\<lambda>_. Inr (token_counts p ! slot))"

definition kv_page_count :: "kv_pool \<Rightarrow> nat \<Rightarrow> nat engine_result" where
  "kv_page_count p slot = rbind (kv_require_slot slot) (\<lambda>_. Inr (page_counts p ! slot))"

definition kv_activate :: "nat \<Rightarrow> kv_pool \<Rightarrow> unit engine_result \<times> kv_pool" where
  "kv_activate slot p =
    (case kv_require_slot slot of
       Inl e \<Rightarrow> (Inl e, p)
     | Inr _ \<Rightarrow>
        (case states p ! slot of
           Active \<Rightarrow> (Inl (generation_error ''paged KV slot is already active''), p)
         | _ \<Rightarrow> (Inr (), p\<lparr>states := (states p)[slot := Active]\<rparr>)))"

definition kv_retain :: "nat \<Rightarrow> kv_pool \<Rightarrow> unit engine_result \<times> kv_pool" where
  "kv_retain slot p =
    (case kv_require_slot slot of
       Inl e \<Rightarrow> (Inl e, p)
     | Inr _ \<Rightarrow>
        (if states p ! slot \<noteq> Active
         then (Inl (generation_error ''paged KV slot cannot be retained from this state''), p)
         else (Inr (), p\<lparr>states := (states p)[slot := Retained]\<rparr>)))"

text \<open>
  \<open>while search < self.physical_pages && self.page_owners[search] != FREE_PAGE_OWNER\<close>: the inner
  scan of \<open>reserve_tokens\<close>.
\<close>

function kv_scan :: "nat list \<Rightarrow> nat \<Rightarrow> nat \<Rightarrow> nat" where
  "kv_scan owners pages search =
    (if search < pages \<and> owners ! search \<noteq> FREE_PAGE_OWNER then kv_scan owners pages (Suc search)
     else search)"
  by pat_completeness auto
termination
  by (relation "measure (\<lambda>(owners, pages, search). pages - search)") auto

declare kv_scan.simps [simp del]

text \<open>The rollback of an aborted reservation, over the table entries \<open>entries\<close>.\<close>

fun kv_release_partial_pages :: "nat \<Rightarrow> nat list \<Rightarrow> kv_pool \<Rightarrow> kv_pool" where
  "kv_release_partial_pages table_begin [] p = p"
| "kv_release_partial_pages table_begin (entry # entries) p =
    (let table_index = table_begin + entry;
         page = page_tables p ! table_index;
         p1 = (if page < physical_pages p
               then p\<lparr>page_owners := (page_owners p)[page := FREE_PAGE_OWNER]\<rparr> else p)
     in kv_release_partial_pages table_begin entries
          (p1\<lparr>page_tables := (page_tables p1)[table_index := UNUSED_PAGE]\<rparr>))"

text \<open>
  The outer loop \<open>for entry in existing_pages..required_pages\<close>; \<open>entries\<close> are the table columns
  still to be assigned, the result carries the final \<open>search\<close>.
\<close>

fun kv_reserve_loop :: "nat \<Rightarrow> nat \<Rightarrow> nat \<Rightarrow> nat list \<Rightarrow> nat \<Rightarrow> kv_pool \<Rightarrow> nat engine_result \<times> kv_pool" where
  "kv_reserve_loop slot table_begin existing [] search p = (Inr search, p)"
| "kv_reserve_loop slot table_begin existing (entry # entries) search p =
    (let search = kv_scan (page_owners p) (physical_pages p) search in
     if search = physical_pages p
     then (Inl (generation_error ''paged KV free-page accounting disagrees with its owner inventory''),
           kv_release_partial_pages table_begin [existing..<entry] p)
     else if slot > 255 then (Inl (layout_error ''paged KV slot exceeds owner tag width''), p)
     else let p = p\<lparr>page_owners := (page_owners p)[search := slot]\<rparr> in
       if search \<ge> U32_BOUND then (Inl (layout_error ''paged KV page exceeds table entry width''), p)
       else if table_begin + entry \<ge> length (page_tables p) then (Inl Panicked, p)
       else kv_reserve_loop slot table_begin existing entries (Suc search)
              (p\<lparr>page_tables := (page_tables p)[table_begin + entry := search]\<rparr>))"

definition kv_reserve_tokens :: "nat \<Rightarrow> nat \<Rightarrow> kv_pool \<Rightarrow> kv_table_update engine_result \<times> kv_pool" where
  "kv_reserve_tokens slot token_count p =
    (case kv_require_slot slot of Inl e \<Rightarrow> (Inl e, p) | Inr _ \<Rightarrow>
     (case kv_require_active (states p ! slot) of Inl e \<Rightarrow> (Inl e, p) | Inr _ \<Rightarrow>
      if token_count > max_context_tokens p
      then (Inl (generation_error ''paged KV slot requires more tokens than the maximum''), p)
      else if token_count < token_counts p ! slot
      then (Inl (generation_error ''paged KV slot cannot reserve backwards''), p)
      else
        let required_pages = div_ceil token_count ATTENTION_PAGE_SIZE;
            existing_pages = page_counts p ! slot
        in if required_pages < existing_pages then (Inl Panicked, p)
        else let additional_pages = required_pages - existing_pages in
          if additional_pages > free_pages p
          then (Inl (generation_error ''paged KV slot requires more additional pages than are free''), p)
          else
           (case kv_table_row_begin p slot of Inl e \<Rightarrow> (Inl e, p) | Inr table_begin \<Rightarrow>
            (case kv_reserve_loop slot table_begin existing_pages [existing_pages..<required_pages]
                    (next_free_hint p) p of
               (Inl e, p) \<Rightarrow> (Inl e, p)
             | (Inr search, p) \<Rightarrow>
                (Inr \<lparr>upd_slot = slot, first_entry = existing_pages, entry_count = additional_pages\<rparr>,
                 p\<lparr>next_free_hint := search, free_pages := free_pages p - additional_pages,
                   page_counts := (page_counts p)[slot := required_pages],
                   token_counts := (token_counts p)[slot := token_count]\<rparr>)))))"

text \<open>The loop \<open>for entry in retained_pages..existing_pages\<close> of \<open>truncate_tokens\<close>.\<close>

fun kv_truncate_loop :: "nat \<Rightarrow> nat \<Rightarrow> nat list \<Rightarrow> kv_pool \<Rightarrow> unit engine_result \<times> kv_pool" where
  "kv_truncate_loop slot table_begin [] p = (Inr (), p)"
| "kv_truncate_loop slot table_begin (entry # entries) p =
    (let table_index = table_begin + entry in
     if table_index \<ge> length (page_tables p) then (Inl Panicked, p)
     else let page = page_tables p ! table_index in
       if page \<ge> physical_pages p \<or> page_owners p ! page \<noteq> slot mod 256
       then (Inl (generation_error ''paged KV slot table entry has inconsistent ownership''), p)
       else kv_truncate_loop slot table_begin entries
              (p\<lparr>page_owners := (page_owners p)[page := FREE_PAGE_OWNER],
                 page_tables := (page_tables p)[table_index := UNUSED_PAGE],
                 next_free_hint := min (next_free_hint p) page\<rparr>))"

definition kv_truncate_tokens :: "nat \<Rightarrow> nat \<Rightarrow> kv_pool \<Rightarrow> nat engine_result \<times> kv_pool" where
  "kv_truncate_tokens slot token_count p =
    (case kv_require_slot slot of Inl e \<Rightarrow> (Inl e, p) | Inr _ \<Rightarrow>
      if states p ! slot = Vacant then (Inl (generation_error ''paged KV slot is vacant''), p)
      else if token_count > token_counts p ! slot
      then (Inl (generation_error ''paged KV slot cannot truncate forwards''), p)
      else
        let retained_pages = div_ceil token_count ATTENTION_PAGE_SIZE;
            existing_pages = page_counts p ! slot
        in (case kv_table_row_begin p slot of Inl e \<Rightarrow> (Inl e, p) | Inr table_begin \<Rightarrow>
            (case kv_truncate_loop slot table_begin [retained_pages..<existing_pages] p of
               (Inl e, p) \<Rightarrow> (Inl e, p)
             | (Inr _, p) \<Rightarrow>
                if existing_pages < retained_pages then (Inl Panicked, p)
                else
                 let released = existing_pages - retained_pages in
                 (Inr released,
                  p\<lparr>free_pages := free_pages p + released,
                    page_counts := (page_counts p)[slot := retained_pages],
                    token_counts := (token_counts p)[slot := token_count]\<rparr>))))"

definition kv_recycle :: "nat \<Rightarrow> kv_pool \<Rightarrow> nat engine_result \<times> kv_pool" where
  "kv_recycle slot p =
    (case kv_require_slot slot of Inl e \<Rightarrow> (Inl e, p) | Inr _ \<Rightarrow>
      if states p ! slot = Vacant then (Inr 0, p)
      else
       (case kv_truncate_tokens slot 0 p of
          (Inl e, p) \<Rightarrow> (Inl e, p)
        | (Inr released, p) \<Rightarrow> (Inr released, p\<lparr>states := (states p)[slot := Vacant]\<rparr>)))"

definition kv_page_table :: "kv_pool \<Rightarrow> nat \<Rightarrow> nat list engine_result" where
  "kv_page_table p slot =
    rbind (kv_require_slot slot) (\<lambda>_. rbind (kv_table_row_begin p slot) (\<lambda>begin.
      if begin + table_stride p > length (page_tables p) then Inl Panicked
      else Inr (take (table_stride p) (drop begin (page_tables p)))))"

definition kv_route_of :: "kv_pool \<Rightarrow> nat \<Rightarrow> nat \<Rightarrow> kv_route engine_result" where
  "kv_route_of p slot position =
    rbind (kv_require_slot slot) (\<lambda>_.
      if position \<ge> token_counts p ! slot
      then Inl (generation_error ''paged KV slot position is outside its owned tokens'')
      else
        let logical_page = position div ATTENTION_PAGE_SIZE in
        rbind (kv_page_table p slot) (\<lambda>row.
          if logical_page \<ge> length row then Inl Panicked
          else
            let page = row ! logical_page in
            if page = UNUSED_PAGE \<or> page \<ge> physical_pages p
            then Inl (generation_error ''paged KV slot logical page is not assigned'')
            else Inr \<lparr>physical_page = page, page_offset = position mod ATTENTION_PAGE_SIZE\<rparr>))"

section \<open>Ownership of pages\<close>

text \<open>
  \<open>owns\<close> ties the two host arrays together, read as functions \<open>ent s e\<close> (the entry of column \<open>e\<close>
  in row \<open>s\<close>) and \<open>own g\<close> (the owner tag of page \<open>g\<close>): exactly the columns in \<open>live s\<close> name a
  physical page, that page's owner tag is \<open>s\<close>, no page is named twice, and every tagged page is
  named. Both loops move one column at a time, so the sets \<open>live s\<close> are arbitrary here.
\<close>

definition owns ::
  "nat \<Rightarrow> nat \<Rightarrow> (nat \<Rightarrow> nat \<Rightarrow> nat) \<Rightarrow> (nat \<Rightarrow> nat) \<Rightarrow> (nat \<Rightarrow> nat set) \<Rightarrow> bool" where
  "owns stride pages ent own live \<longleftrightarrow>
    (\<forall>s<MAX_BATCH. live s \<subseteq> {..<stride}) \<and>
    (\<forall>s<MAX_BATCH. \<forall>e<stride. e \<notin> live s \<longrightarrow> ent s e = UNUSED_PAGE) \<and>
    (\<forall>s<MAX_BATCH. \<forall>e\<in>live s. ent s e < pages \<and> own (ent s e) = s) \<and>
    (\<forall>s<MAX_BATCH. inj_on (ent s) (live s)) \<and>
    (\<forall>g<pages. own g \<noteq> FREE_PAGE_OWNER \<longrightarrow> own g < MAX_BATCH \<and> g \<in> ent (own g) ` live (own g))"

lemma owner_not_free: "s < MAX_BATCH \<Longrightarrow> s \<noteq> FREE_PAGE_OWNER"
  by (simp add: MAX_BATCH_def FREE_PAGE_OWNER_def)

lemma owns_liveD:
  "owns stride pages ent own live \<Longrightarrow> s < MAX_BATCH \<Longrightarrow> e \<in> live s \<Longrightarrow>
    e < stride \<and> ent s e < pages \<and> own (ent s e) = s"
  by (auto simp: owns_def)

lemma owns_assign:
  assumes o: "owns stride pages ent own live" and s: "s < MAX_BATCH" and e: "e < stride" "e \<notin> live s"
    and g: "g < pages" "own g = FREE_PAGE_OWNER"
  shows "owns stride pages (ent(s := (ent s)(e := g))) (own(g := s)) (live(s := insert e (live s)))"
proof -
  have ne: "ent t x \<noteq> g" if "t < MAX_BATCH" "x \<in> live t" for t x
    using owns_liveD [OF o that] g owner_not_free [OF that(1)] by auto
  have inj: "inj_on ((ent s)(e := g)) (insert e (live s))"
    using o s e ne [OF s] by (auto simp: owns_def inj_on_def)
  show ?thesis
    unfolding owns_def
  proof (intro conjI allI impI)
    fix h assume h: "h < pages" "(own(g := s)) h \<noteq> FREE_PAGE_OWNER"
    then have "own h < MAX_BATCH \<and> h \<in> ent (own h) ` live (own h)" if "h \<noteq> g"
      using o that by (auto simp: owns_def)
    then show "(own(g := s)) h < MAX_BATCH"
      "h \<in> (ent(s := (ent s)(e := g))) ((own(g := s)) h) ` (live(s := insert e (live s))) ((own(g := s)) h)"
      using s e by (cases "h = g"; auto)+
  next
    fix t assume "t < MAX_BATCH"
    then show "inj_on ((ent(s := (ent s)(e := g))) t) ((live(s := insert e (live s))) t)"
      using inj o by (cases "t = s") (auto simp: owns_def)
  next
    fix t assume t: "t < MAX_BATCH"
    show "\<forall>x\<in>(live(s := insert e (live s))) t. (ent(s := (ent s)(e := g))) t x < pages \<and>
        (own(g := s)) ((ent(s := (ent s)(e := g))) t x) = t"
      using owns_liveD [OF o t] ne [OF t] g e by (cases "t = s") auto
  qed (use o e in \<open>auto simp: owns_def\<close>)
qed

lemma owns_release:
  assumes o: "owns stride pages ent own live" and s: "s < MAX_BATCH" and e: "e \<in> live s"
  shows "owns stride pages (ent(s := (ent s)(e := UNUSED_PAGE))) (own(ent s e := FREE_PAGE_OWNER))
    (live(s := live s - {e}))"
proof -
  have ne: "ent t x \<noteq> ent s e" if "t < MAX_BATCH" "x \<in> live t" "t \<noteq> s \<or> x \<noteq> e" for t x
  proof
    assume eq: "ent t x = ent s e"
    then have "t = s" using owns_liveD [OF o that(1,2)] owns_liveD [OF o s e] by simp
    moreover have "inj_on (ent s) (live s)" using o s by (auto simp: owns_def)
    ultimately show False using that e eq by (auto dest: inj_onD)
  qed
  show ?thesis
    unfolding owns_def
  proof (intro conjI allI impI)
    fix h assume h: "h < pages" "(own(ent s e := FREE_PAGE_OWNER)) h \<noteq> FREE_PAGE_OWNER"
    then have hg: "h \<noteq> ent s e" by auto
    then have "own h < MAX_BATCH \<and> h \<in> ent (own h) ` live (own h)"
      using o h by (auto simp: owns_def)
    then show "(own(ent s e := FREE_PAGE_OWNER)) h < MAX_BATCH"
      "h \<in> (ent(s := (ent s)(e := UNUSED_PAGE))) ((own(ent s e := FREE_PAGE_OWNER)) h) `
        (live(s := live s - {e})) ((own(ent s e := FREE_PAGE_OWNER)) h)"
      using hg by (auto intro!: image_eqI)
  next
    fix t assume t: "t < MAX_BATCH"
    have "inj_on (ent t) (live t)" using o t by (auto simp: owns_def)
    then show "inj_on ((ent(s := (ent s)(e := UNUSED_PAGE))) t) ((live(s := live s - {e})) t)"
      by (auto simp: inj_on_def)
  next
    fix t assume t: "t < MAX_BATCH"
    show "\<forall>x\<in>(live(s := live s - {e})) t. (ent(s := (ent s)(e := UNUSED_PAGE))) t x < pages \<and>
        (own(ent s e := FREE_PAGE_OWNER)) ((ent(s := (ent s)(e := UNUSED_PAGE))) t x) = t"
      using owns_liveD [OF o t] ne [OF t] by (cases "t = s") auto
  qed (use o in \<open>auto simp: owns_def\<close>)
qed

lemma owns_cong:
  assumes "\<And>s e. s < MAX_BATCH \<Longrightarrow> e < stride \<Longrightarrow> ent s e = ent' s e" and "\<And>g. g < pages \<Longrightarrow> own g = own' g"
    and o: "owns stride pages ent own live"
  shows "owns stride pages ent' own' live"
proof -
  have lv: "ent s e = ent' s e" if "s < MAX_BATCH" "e \<in> live s" for s e
    using assms(1) owns_liveD [OF o that] that by blast
  have "inj_on (ent' s) (live s)" if "s < MAX_BATCH" for s
    using o that lv [OF that] by (auto simp: owns_def inj_on_def)
  moreover have im: "ent' s ` live s = ent s ` live s" if "s < MAX_BATCH" for s
    using lv that by auto
  moreover have "own' g < MAX_BATCH \<and> g \<in> ent' (own' g) ` live (own' g)"
    if "g < pages" "own' g \<noteq> FREE_PAGE_OWNER" for g
    using o that im assms(2) [OF that(1)] by (auto simp: owns_def)
  moreover have "ent' s e < pages \<and> own' (ent' s e) = s" if "s < MAX_BATCH" "e \<in> live s" for s e
    using owns_liveD [OF o that] lv [OF that] assms(2) [of "ent s e"] by auto
  moreover have "\<forall>s<MAX_BATCH. live s \<subseteq> {..<stride}"
    and "\<forall>s<MAX_BATCH. \<forall>e<stride. e \<notin> live s \<longrightarrow> ent' s e = UNUSED_PAGE"
    using o assms(1) by (simp_all add: owns_def)
  ultimately show ?thesis
    unfolding owns_def by blast
qed

section \<open>The pool invariant\<close>

definition kv_ent :: "kv_pool \<Rightarrow> nat \<Rightarrow> nat \<Rightarrow> nat" where
  "kv_ent p s e = page_tables p ! (s * table_stride p + e)"

definition kv_core :: "kv_pool \<Rightarrow> (nat \<Rightarrow> nat set) \<Rightarrow> bool" where
  "kv_core p live \<longleftrightarrow>
    length (page_tables p) = MAX_BATCH * table_stride p \<and> length (page_owners p) = physical_pages p \<and>
    owns (table_stride p) (physical_pages p) (kv_ent p) ((!) (page_owners p)) live"

text \<open>The free pages from \<open>search\<close> on, in ascending order.\<close>

definition kv_free_from :: "nat \<Rightarrow> kv_pool \<Rightarrow> nat list" where
  "kv_free_from search p = filter (\<lambda>g. page_owners p ! g = FREE_PAGE_OWNER) [search..<physical_pages p]"

text \<open>
  The invariant of the pool between two calls. The hint never skips a free page, so a reservation
  always takes the lowest-numbered free pages.
\<close>

definition kv_inv :: "kv_pool \<Rightarrow> bool" where
  "kv_inv p \<longleftrightarrow>
    physical_pages p \<le> table_stride p \<and> physical_pages p < U32_BOUND \<and>
    MAX_BATCH * table_stride p < U64_BOUND \<and>
    max_context_tokens p \<le> table_stride p * ATTENTION_PAGE_SIZE \<and>
    length (states p) = MAX_BATCH \<and> length (token_counts p) = MAX_BATCH \<and>
    length (page_counts p) = MAX_BATCH \<and>
    (\<forall>s<MAX_BATCH. token_counts p ! s \<le> max_context_tokens p \<and>
      page_counts p ! s = div_ceil (token_counts p ! s) ATTENTION_PAGE_SIZE \<and>
      (states p ! s = Vacant \<longrightarrow> token_counts p ! s = 0)) \<and>
    kv_core p (\<lambda>s. {..<page_counts p ! s}) \<and>
    free_pages p = length (kv_free_from 0 p) \<and>
    next_free_hint p \<le> physical_pages p \<and>
    (\<forall>g<next_free_hint p. page_owners p ! g \<noteq> FREE_PAGE_OWNER)"

text \<open>The pages of one slot in logical order: the owned prefix of its table row.\<close>

definition kv_row :: "kv_pool \<Rightarrow> nat \<Rightarrow> nat list" where
  "kv_row p s = map (kv_ent p s) [0..<page_counts p ! s]"

lemma kv_core_liveD:
  assumes "kv_core p live" and "s < MAX_BATCH" and "e \<in> live s"
  shows "e < table_stride p" "kv_ent p s e < physical_pages p" "page_owners p ! kv_ent p s e = s"
proof -
  have "owns (table_stride p) (physical_pages p) (kv_ent p) ((!) (page_owners p)) live"
    using assms(1) by (simp add: kv_core_def)
  from owns_liveD [OF this assms(2,3)]
  show "e < table_stride p" "kv_ent p s e < physical_pages p" "page_owners p ! kv_ent p s e = s" by simp_all
qed

lemma owns_live_cong:
  assumes "\<And>s. s < MAX_BATCH \<Longrightarrow> live' s = live s" and o: "owns stride pages ent own live"
  shows "owns stride pages ent own live'"
proof -
  have "own g < MAX_BATCH \<and> g \<in> ent (own g) ` live' (own g)" if "g < pages" "own g \<noteq> FREE_PAGE_OWNER" for g
    using o assms(1) [of "own g"] that by (simp add: owns_def)
  then show ?thesis using o assms(1) by (simp add: owns_def)
qed

lemma kv_core_cong:
  assumes c: "kv_core p live" and "page_tables p' = page_tables p" "page_owners p' = page_owners p"
    "table_stride p' = table_stride p" "physical_pages p' = physical_pages p"
    and "\<And>s. s < MAX_BATCH \<Longrightarrow> live' s = live s"
  shows "kv_core p' live'"
proof -
  have "kv_ent p' = kv_ent p" using assms by (simp add: fun_eq_iff kv_ent_def)
  then show ?thesis using assms owns_live_cong [OF assms(6)] by (simp add: kv_core_def)
qed

lemma kv_core_assign:
  assumes c: "kv_core p live" and s: "s < MAX_BATCH" and e: "e < table_stride p" "e \<notin> live s"
    and g: "g < physical_pages p" "page_owners p ! g = FREE_PAGE_OWNER"
  defines "p' \<equiv> p\<lparr>page_owners := (page_owners p)[g := s],
    page_tables := (page_tables p)[s * table_stride p + e := g]\<rparr>"
  shows "kv_core p' (live(s := insert e (live s)))"
    and "t < MAX_BATCH \<Longrightarrow> x < table_stride p \<Longrightarrow> kv_ent p' t x = (if t = s \<and> x = e then g else kv_ent p t x)"
proof -
  have idx: "s * table_stride p + e < length (page_tables p)"
    using c row_index_bound [OF s e(1)] by (simp add: kv_core_def)
  show ent: "kv_ent p' t x = (if t = s \<and> x = e then g else kv_ent p t x)"
    if "t < MAX_BATCH" "x < table_stride p" for t x
    using that idx row_index_inject [OF that(2) e(1), of t s]
    by (auto simp: p'_def kv_ent_def nth_list_update)
  have "owns (table_stride p) (physical_pages p) (kv_ent p') ((!) (page_owners p')) (live(s := insert e (live s)))"
  proof (rule owns_cong)
    show "owns (table_stride p) (physical_pages p) ((kv_ent p)(s := (kv_ent p s)(e := g)))
      (((!) (page_owners p))(g := s)) (live(s := insert e (live s)))"
      using c s e g by (intro owns_assign) (auto simp: kv_core_def)
  qed (use c ent in \<open>auto simp: p'_def kv_core_def nth_list_update\<close>)
  then show "kv_core p' (live(s := insert e (live s)))"
    using c by (simp add: kv_core_def p'_def)
qed

lemma kv_core_release:
  fixes h :: nat
  assumes c: "kv_core p live" and s: "s < MAX_BATCH" and e: "e \<in> live s"
  defines "p' \<equiv> p\<lparr>page_owners := (page_owners p)[kv_ent p s e := FREE_PAGE_OWNER],
    page_tables := (page_tables p)[s * table_stride p + e := UNUSED_PAGE], next_free_hint := h\<rparr>"
  shows "kv_core p' (live(s := live s - {e}))"
    and "t < MAX_BATCH \<Longrightarrow> x < table_stride p \<Longrightarrow>
      kv_ent p' t x = (if t = s \<and> x = e then UNUSED_PAGE else kv_ent p t x)"
proof -
  have e': "e < table_stride p" "kv_ent p s e < physical_pages p"
    using kv_core_liveD [OF c s e] by simp_all
  have idx: "s * table_stride p + e < length (page_tables p)"
    using c row_index_bound [OF s e'(1)] by (simp add: kv_core_def)
  show ent: "kv_ent p' t x = (if t = s \<and> x = e then UNUSED_PAGE else kv_ent p t x)"
    if "t < MAX_BATCH" "x < table_stride p" for t x
    using that idx row_index_inject [OF that(2) e'(1), of t s]
    by (auto simp: p'_def kv_ent_def nth_list_update)
  have "owns (table_stride p) (physical_pages p) (kv_ent p') ((!) (page_owners p')) (live(s := live s - {e}))"
  proof (rule owns_cong)
    show "owns (table_stride p) (physical_pages p) ((kv_ent p)(s := (kv_ent p s)(e := UNUSED_PAGE)))
      (((!) (page_owners p))(kv_ent p s e := FREE_PAGE_OWNER)) (live(s := live s - {e}))"
      using c s e by (intro owns_release) (auto simp: kv_core_def)
  qed (use c ent e' in \<open>auto simp: p'_def kv_core_def nth_list_update\<close>)
  then show "kv_core p' (live(s := live s - {e}))"
    using c by (simp add: kv_core_def p'_def)
qed

section \<open>The scan and the reservation loop\<close>

lemma kv_scan_spec:
  "search \<le> pages \<Longrightarrow>
    search \<le> kv_scan owners pages search \<and> kv_scan owners pages search \<le> pages \<and>
    filter (\<lambda>g. owners ! g = FREE_PAGE_OWNER) [search..<pages] =
      (if kv_scan owners pages search = pages then []
       else kv_scan owners pages search #
         filter (\<lambda>g. owners ! g = FREE_PAGE_OWNER) [Suc (kv_scan owners pages search)..<pages])"
proof (induction owners pages search rule: kv_scan.induct)
  case (1 owners pages search)
  show ?case
  proof (cases "search < pages \<and> owners ! search \<noteq> FREE_PAGE_OWNER")
    case True
    then show ?thesis using "1.IH" by (simp add: kv_scan.simps [of owners pages search] upt_conv_Cons)
  next
    case False
    then show ?thesis using "1.prems"
      by (cases "search = pages") (auto simp: kv_scan.simps [of owners pages search] kv_scan.simps [of owners pages pages] upt_conv_Cons)
  qed
qed

text \<open>The loops write only the two arrays (and, when truncating, the hint).\<close>

definition kv_frame :: "kv_pool \<Rightarrow> kv_pool \<Rightarrow> bool" where
  "kv_frame p p' \<longleftrightarrow>
    physical_pages p' = physical_pages p \<and> table_stride p' = table_stride p \<and>
    max_context_tokens p' = max_context_tokens p \<and> states p' = states p \<and>
    token_counts p' = token_counts p \<and> page_counts p' = page_counts p \<and> free_pages p' = free_pages p"

definition kv_reserve_post ::
  "kv_pool \<Rightarrow> (nat \<Rightarrow> nat set) \<Rightarrow> nat \<Rightarrow> nat \<Rightarrow> nat \<Rightarrow> nat \<Rightarrow> kv_pool \<Rightarrow> nat \<Rightarrow> bool" where
  "kv_reserve_post p live s e n search p' search' \<longleftrightarrow>
    kv_core p' (live(s := live s \<union> {e..<e + n})) \<and> kv_frame p p' \<and> next_free_hint p' = next_free_hint p \<and>
    search \<le> search' \<and> search' \<le> physical_pages p \<and>
    (\<forall>t<MAX_BATCH. \<forall>x<table_stride p. kv_ent p' t x =
      (if t = s \<and> e \<le> x \<and> x < e + n then kv_free_from search p ! (x - e) else kv_ent p t x)) \<and>
    (\<forall>g. page_owners p' ! g = (if g \<in> set (take n (kv_free_from search p)) then s else page_owners p ! g)) \<and>
    (\<forall>g. search \<le> g \<longrightarrow> g < search' \<longrightarrow> page_owners p' ! g \<noteq> FREE_PAGE_OWNER)"

lemma kv_scan_found:
  assumes "Suc n \<le> length (kv_free_from search p)" and "search \<le> physical_pages p"
  defines "g \<equiv> kv_scan (page_owners p) (physical_pages p) search"
  shows "search \<le> g" and "g < physical_pages p" and "page_owners p ! g = FREE_PAGE_OWNER"
    and "kv_free_from search p = g # kv_free_from (Suc g) p"
    and "\<forall>h. search \<le> h \<longrightarrow> h < g \<longrightarrow> page_owners p ! h \<noteq> FREE_PAGE_OWNER"
proof -
  have sc: "search \<le> g" "g \<le> physical_pages p"
    and fr: "kv_free_from search p = (if g = physical_pages p then [] else g # kv_free_from (Suc g) p)"
    using kv_scan_spec [OF assms(2), of "page_owners p"] by (auto simp: kv_free_from_def g_def)
  show g: "search \<le> g" "g < physical_pages p" using assms(1) fr sc by (auto split: if_splits)
  then show fr': "kv_free_from search p = g # kv_free_from (Suc g) p" using fr by simp
  then have "g \<in> set (kv_free_from search p)" by simp
  then show "page_owners p ! g = FREE_PAGE_OWNER" by (simp add: kv_free_from_def)
  show "\<forall>h. search \<le> h \<longrightarrow> h < g \<longrightarrow> page_owners p ! h \<noteq> FREE_PAGE_OWNER"
  proof (intro allI impI notI)
    fix h assume "search \<le> h" "h < g" "page_owners p ! h = FREE_PAGE_OWNER"
    then have "h \<in> set (kv_free_from search p)" using g by (auto simp: kv_free_from_def)
    then have "h \<in> set (g # kv_free_from (Suc g) p)" using fr' by simp
    then show False using \<open>h < g\<close> by (auto simp: kv_free_from_def)
  qed
qed

lemma kv_reserve_post_Suc:
  assumes c: "kv_core p live" and s: "s < MAX_BATCH" and f: "Suc n \<le> length (kv_free_from search p)"
    and e: "e + Suc n \<le> table_stride p" and l: "\<forall>x. e \<le> x \<longrightarrow> x < e + Suc n \<longrightarrow> x \<notin> live s" and b: "search \<le> physical_pages p"
  defines "g \<equiv> kv_scan (page_owners p) (physical_pages p) search"
  defines "p1 \<equiv> p\<lparr>page_owners := (page_owners p)[g := s],
    page_tables := (page_tables p)[s * table_stride p + e := g]\<rparr>"
  shows "kv_core p1 (live(s := insert e (live s)))" and "kv_free_from (Suc g) p1 = kv_free_from (Suc g) p"
    and "kv_reserve_post p1 (live(s := insert e (live s))) s (Suc e) n (Suc g) p' search' \<Longrightarrow>
      kv_reserve_post p live s e (Suc n) search p' search'"
proof -
  note g = kv_scan_found [OF f b, folded g_def]
  have e': "e < table_stride p" "e \<notin> live s" using e l by auto
  note assign = kv_core_assign [OF c s e' g(2,3), folded p1_def]
  show "kv_core p1 (live(s := insert e (live s)))" by (rule assign(1))
  have len: "length (page_owners p) = physical_pages p" using c by (simp add: kv_core_def)
  show rest: "kv_free_from (Suc g) p1 = kv_free_from (Suc g) p"
    by (auto simp: p1_def kv_free_from_def intro!: filter_cong)
  assume post: "kv_reserve_post p1 (live(s := insert e (live s))) s (Suc e) n (Suc g) p' search'"
  have set_eq: "live(s := insert e (live s)) = live(s := live s \<union> {e..<e + 1})" by auto
  have sets: "insert e (live s) \<union> {Suc e..<Suc e + n} = live s \<union> {e..<e + Suc n}" by auto
  have core: "kv_core p' (live(s := live s \<union> {e..<e + Suc n}))"
    using post sets by (simp add: kv_reserve_post_def)
  have frame: "kv_frame p p'" "next_free_hint p' = next_free_hint p"
    using post by (simp_all add: kv_reserve_post_def kv_frame_def p1_def)
  have ent: "\<forall>t<MAX_BATCH. \<forall>x<table_stride p. kv_ent p' t x =
      (if t = s \<and> e \<le> x \<and> x < e + Suc n then kv_free_from search p ! (x - e) else kv_ent p t x)"
  proof (intro allI impI)
    fix t x assume t: "t < MAX_BATCH" and x: "x < table_stride p"
    have "kv_ent p' t x = (if t = s \<and> Suc e \<le> x \<and> x < Suc e + n
        then kv_free_from (Suc g) p ! (x - Suc e) else kv_ent p1 t x)"
      using post t x rest by (simp add: kv_reserve_post_def p1_def)
    then show "kv_ent p' t x =
      (if t = s \<and> e \<le> x \<and> x < e + Suc n then kv_free_from search p ! (x - e) else kv_ent p t x)"
      using assign(2) [OF t x] g(4) by (auto simp: nth_Cons' le_Suc_eq)
  qed
  have own: "\<forall>h. page_owners p' ! h =
      (if h \<in> set (take (Suc n) (kv_free_from search p)) then s else page_owners p ! h)"
    using post rest g(2,4) len by (auto simp: kv_reserve_post_def p1_def nth_list_update)
  have used: "\<forall>h. search \<le> h \<longrightarrow> h < search' \<longrightarrow> page_owners p' ! h \<noteq> FREE_PAGE_OWNER"
  proof (intro allI impI)
    fix h assume h: "search \<le> h" "h < search'"
    have late: "Suc g \<le> h \<Longrightarrow> page_owners p' ! h \<noteq> FREE_PAGE_OWNER"
      using post h unfolding kv_reserve_post_def by blast
    have "page_owners p' ! h = (if h \<in> set (take (Suc n) (kv_free_from search p)) then s else page_owners p ! h)"
      using own by blast
    moreover have "h < g \<Longrightarrow> page_owners p ! h \<noteq> FREE_PAGE_OWNER" using g(5) h by blast
    moreover have "g \<in> set (take (Suc n) (kv_free_from search p))" using g(4) by simp
    ultimately show "page_owners p' ! h \<noteq> FREE_PAGE_OWNER"
      using late owner_not_free [OF s] by (cases h g rule: linorder_cases) (auto split: if_splits)
  qed
  have "search \<le> search'" "search' \<le> physical_pages p"
    using post g(1) by (simp_all add: kv_reserve_post_def p1_def)
  then show "kv_reserve_post p live s e (Suc n) search p' search'"
    unfolding kv_reserve_post_def using core frame ent own used by blast
qed

lemma kv_reserve_loop_ok:
  assumes "kv_core p live" and "s < MAX_BATCH" and "n \<le> length (kv_free_from search p)"
    and "e + n \<le> table_stride p" and "\<forall>x. e \<le> x \<longrightarrow> x < e + n \<longrightarrow> x \<notin> live s"
    and "physical_pages p \<le> U32_BOUND" and "search \<le> physical_pages p"
  shows "\<exists>p' search'. kv_reserve_loop s (s * table_stride p) existing [e..<e + n] search p = (Inr search', p') \<and>
    kv_reserve_post p live s e n search p' search'"
  using assms
proof (induction n arbitrary: p live search e)
  case 0
  then show ?case by (auto simp: kv_reserve_post_def kv_frame_def)
next
  case (Suc n)
  define g where "g = kv_scan (page_owners p) (physical_pages p) search"
  define p1 where "p1 = p\<lparr>page_owners := (page_owners p)[g := s],
    page_tables := (page_tables p)[s * table_stride p + e := g]\<rparr>"
  note g = kv_scan_found [OF Suc.prems(3,7), folded g_def]
  note post = kv_reserve_post_Suc [OF Suc.prems(1-5,7), folded g_def, folded p1_def]
  have p1: "physical_pages p1 = physical_pages p" "table_stride p1 = table_stride p"
    by (simp_all add: p1_def)
  have e: "e < table_stride p" using Suc.prems(4) by simp
  obtain p' search' where
    "kv_reserve_loop s (s * table_stride p) existing [Suc e..<Suc e + n] (Suc g) p1 = (Inr search', p')"
    "kv_reserve_post p1 (live(s := insert e (live s))) s (Suc e) n (Suc g) p' search'"
    using Suc.IH [OF post(1), of "Suc g" "Suc e"] Suc.prems g post(2) p1 by (auto simp: fun_upd_def simp del: upt_Suc)
  moreover have "s * table_stride p + e < length (page_tables p)"
    using Suc.prems(1) row_index_bound [OF Suc.prems(2) e] by (simp add: kv_core_def)
  moreover have "s \<le> 255" "g \<noteq> physical_pages p" "\<not> U32_BOUND \<le> g"
    using Suc.prems(2,6) g(2) by (simp_all add: MAX_BATCH_def)
  moreover have "[e..<e + Suc n] = e # [Suc e..<Suc e + n]" by (simp add: upt_conv_Cons del: upt_Suc)
  ultimately show ?case
    using post(3) by (auto simp: Let_def g_def [symmetric] p1_def simp del: upt_Suc)
qed

section \<open>The truncation loop\<close>

definition kv_truncate_post :: "kv_pool \<Rightarrow> (nat \<Rightarrow> nat set) \<Rightarrow> nat \<Rightarrow> nat \<Rightarrow> nat \<Rightarrow> kv_pool \<Rightarrow> bool" where
  "kv_truncate_post p live s e n p' \<longleftrightarrow>
    kv_core p' (live(s := live s - {e..<e + n})) \<and> kv_frame p p' \<and> next_free_hint p' \<le> next_free_hint p \<and>
    (\<forall>t<MAX_BATCH. \<forall>x<table_stride p. kv_ent p' t x =
      (if t = s \<and> e \<le> x \<and> x < e + n then UNUSED_PAGE else kv_ent p t x)) \<and>
    (\<forall>g. page_owners p' ! g =
      (if g \<in> kv_ent p s ` {e..<e + n} then FREE_PAGE_OWNER else page_owners p ! g)) \<and>
    (\<forall>x\<in>{e..<e + n}. next_free_hint p' \<le> kv_ent p s x)"

lemma kv_truncate_loop_ok:
  assumes "kv_core p live" and "s < MAX_BATCH" and "{e..<e + n} \<subseteq> live s"
  shows "\<exists>p'. kv_truncate_loop s (s * table_stride p) [e..<e + n] p = (Inr (), p') \<and>
    kv_truncate_post p live s e n p'"
  using assms
proof (induction n arbitrary: p live e)
  case 0
  then show ?case by (auto simp: kv_truncate_post_def kv_frame_def)
next
  case (Suc n)
  let ?g = "kv_ent p s e"
  define p1 where "p1 = p\<lparr>page_owners := (page_owners p)[?g := FREE_PAGE_OWNER],
    page_tables := (page_tables p)[s * table_stride p + e := UNUSED_PAGE],
    next_free_hint := min (next_free_hint p) ?g\<rparr>"
  have e: "e \<in> live s" using Suc.prems(3) by auto
  have le: "e < table_stride p" "?g < physical_pages p" "page_owners p ! ?g = s"
    using kv_core_liveD [OF Suc.prems(1,2) e] by simp_all
  have len: "length (page_owners p) = physical_pages p" "s * table_stride p + e < length (page_tables p)"
    using Suc.prems(1) row_index_bound [OF Suc.prems(2) le(1)] by (simp_all add: kv_core_def)
  note rel = kv_core_release [OF Suc.prems(1,2) e, where h = "min (next_free_hint p) ?g", folded p1_def]
  have p1: "table_stride p1 = table_stride p" "physical_pages p1 = physical_pages p"
    "next_free_hint p1 = min (next_free_hint p) ?g" "kv_frame p p1"
    "page_owners p1 = (page_owners p)[?g := FREE_PAGE_OWNER]"
    by (simp_all add: p1_def kv_frame_def)
  have sub: "{Suc e..<Suc e + n} \<subseteq> (live(s := live s - {e})) s" using Suc.prems(3) by auto
  obtain p' where p': "kv_truncate_loop s (s * table_stride p) [Suc e..<Suc e + n] p1 = (Inr (), p')"
    "kv_truncate_post p1 (live(s := live s - {e})) s (Suc e) n p'"
    using Suc.IH [OF rel(1) Suc.prems(2) sub] p1 by (auto simp: fun_upd_def simp del: upt_Suc)
  have ent1: "kv_ent p1 s x = kv_ent p s x" if "x \<in> {Suc e..<Suc e + n}" for x
  proof -
    have "x \<in> live s" "x \<noteq> e" using that Suc.prems(3) by auto
    then have "x < table_stride p" using kv_core_liveD [OF Suc.prems(1,2)] by simp
    then show ?thesis using rel(2) [OF Suc.prems(2)] \<open>x \<noteq> e\<close> by simp
  qed
  then have im: "kv_ent p1 s ` {Suc e..<Suc e + n} = kv_ent p s ` {Suc e..<Suc e + n}" by (rule image_cong [OF refl])
  have range: "{e..<e + Suc n} = insert e {Suc e..<Suc e + n}" by auto
  have "kv_core p' (live(s := live s - {e..<e + Suc n}))"
  proof -
    have "live s - {e} - {Suc e..<Suc e + n} = live s - {e..<e + Suc n}" by auto
    then show ?thesis using p'(2) by (simp add: kv_truncate_post_def)
  qed
  moreover have "kv_frame p p'" "next_free_hint p' \<le> next_free_hint p"
    using p'(2) p1 by (auto simp: kv_truncate_post_def kv_frame_def)
  moreover have "\<forall>t<MAX_BATCH. \<forall>x<table_stride p. kv_ent p' t x =
      (if t = s \<and> e \<le> x \<and> x < e + Suc n then UNUSED_PAGE else kv_ent p t x)"
    using p'(2) rel(2) p1(1) by (auto simp: kv_truncate_post_def le_Suc_eq)
  moreover have "\<forall>g. page_owners p' ! g =
      (if g \<in> kv_ent p s ` {e..<e + Suc n} then FREE_PAGE_OWNER else page_owners p ! g)"
    using p'(2) im p1(5) le(2) len(1) unfolding range
    by (auto simp: kv_truncate_post_def nth_list_update)
  moreover have "\<forall>x\<in>{e..<e + Suc n}. next_free_hint p' \<le> kv_ent p s x"
    using p'(2) ent1 p1(3) unfolding range by (force simp: kv_truncate_post_def)
  ultimately have post: "kv_truncate_post p live s e (Suc n) p'"
    unfolding kv_truncate_post_def by blast
  have "[e..<e + Suc n] = e # [Suc e..<Suc e + n]" by (simp add: upt_conv_Cons del: upt_Suc)
  moreover have "s mod 256 = s" using Suc.prems(2) by (simp add: MAX_BATCH_def)
  moreover have "page_tables p ! (s * table_stride p + e) = ?g" by (simp add: kv_ent_def)
  ultimately show ?case using p'(1) post le len by (simp add: Let_def p1_def [symmetric] del: upt_Suc)
qed

section \<open>Counting free pages\<close>

lemma length_kv_free: "length (kv_free_from 0 p) = card {g. g < physical_pages p \<and> page_owners p ! g = FREE_PAGE_OWNER}"
proof -
  have "length (kv_free_from 0 p) = card (set (kv_free_from 0 p))"
    by (rule distinct_card [symmetric]) (simp add: kv_free_from_def)
  also have "set (kv_free_from 0 p) = {g. g < physical_pages p \<and> page_owners p ! g = FREE_PAGE_OWNER}"
    by (auto simp: kv_free_from_def)
  finally show ?thesis .
qed

lemma kv_free_from_skip:
  assumes "\<forall>g<h. page_owners p ! g \<noteq> FREE_PAGE_OWNER" and "h \<le> physical_pages p"
  shows "kv_free_from 0 p = kv_free_from h p"
proof -
  have "[0..<physical_pages p] = [0..<h] @ [h..<physical_pages p]"
    using upt_add_eq_append [of 0 h "physical_pages p - h"] assms(2) by simp
  moreover have "filter (\<lambda>g. page_owners p ! g = FREE_PAGE_OWNER) [0..<h] = []"
    using assms(1) by (simp add: filter_empty_conv)
  ultimately show ?thesis by (simp add: kv_free_from_def)
qed

lemma kv_free_after_reserve:
  assumes post: "kv_reserve_post p live s e n search p' search'" and s: "s < MAX_BATCH"
    and n: "n \<le> length (kv_free_from 0 p)" and h: "kv_free_from 0 p = kv_free_from search p"
  shows "kv_free_from 0 p' = drop n (kv_free_from 0 p)"
proof -
  let ?F = "kv_free_from 0 p"
  have pages: "physical_pages p' = physical_pages p"
    using post by (simp add: kv_reserve_post_def kv_frame_def)
  define A where "A = set (take n ?F)"
  have own: "page_owners p' ! g = (if g \<in> A then s else page_owners p ! g)" for g
    using post by (simp add: kv_reserve_post_def h A_def)
  have "kv_free_from 0 p' = filter (\<lambda>g. g \<notin> A) ?F"
    using owner_not_free [OF s] own pages
    by (auto simp: kv_free_from_def filter_filter intro!: filter_cong)
  then have "kv_free_from 0 p' = filter (\<lambda>g. g \<notin> set (take n ?F)) ?F" by (simp only: A_def)
  also have "\<dots> = filter (\<lambda>g. g \<notin> set (take n ?F)) (take n ?F @ drop n ?F)"
    by simp
  also have "\<dots> = drop n ?F"
  proof -
    have "distinct (take n ?F @ drop n ?F)" by (simp add: kv_free_from_def)
    then have "\<forall>g\<in>set (drop n ?F). g \<notin> set (take n ?F)" by (metis disjoint_iff distinct_append)
    then show ?thesis unfolding filter_append by (simp add: filter_empty_conv)
  qed
  finally show ?thesis .
qed

end
