(* ===== verification/KvSpec.thy ===== *)
theory KvSpec
  imports KvPool
begin

text \<open>
  The contract of \<open>PagedKvSlotPool\<close> and the proof that the implementation meets it. The abstract
  pool has no owner tags, no flat table, no counters and no search hint: it is a list of eight slots,
  each with its lifecycle state, its token count and the list of its physical pages; the free pages
  are those no slot names. Every operation of the code refines the operation of the same name here,
  with the same result and the same error in every case.
\<close>

section \<open>The abstract pool\<close>

record kv_slot =
  st :: kv_slot_state
  tok :: nat
  pgs :: "nat list"

record kv_spec =
  sp_funded :: nat
  sp_max :: nat
  sp_slots :: "kv_slot list"

definition sp_owned :: "kv_spec \<Rightarrow> nat set" where
  "sp_owned a = (\<Union>sl\<in>set (sp_slots a). set (pgs sl))"

definition sp_free :: "kv_spec \<Rightarrow> nat list" where
  "sp_free a = filter (\<lambda>g. g \<notin> sp_owned a) [0..<sp_funded a]"

definition sp_require_slot :: "nat \<Rightarrow> kv_spec \<Rightarrow> (kv_slot \<Rightarrow> 'a engine_result \<times> kv_slot) \<Rightarrow> 'a engine_result \<times> kv_spec" where
  "sp_require_slot slot a f =
    (if slot \<ge> length (sp_slots a) then (Inl (route_error ''paged KV slot is outside 0..8''), a)
     else case f (sp_slots a ! slot) of (r, sl) \<Rightarrow> (r, a\<lparr>sp_slots := (sp_slots a)[slot := sl]\<rparr>))"

definition sp_activate :: "nat \<Rightarrow> kv_spec \<Rightarrow> unit engine_result \<times> kv_spec" where
  "sp_activate slot a = sp_require_slot slot a (\<lambda>sl.
    if st sl = Active then (Inl (generation_error ''paged KV slot is already active''), sl)
    else (Inr (), sl\<lparr>st := Active\<rparr>))"

definition sp_retain :: "nat \<Rightarrow> kv_spec \<Rightarrow> unit engine_result \<times> kv_spec" where
  "sp_retain slot a = sp_require_slot slot a (\<lambda>sl.
    if st sl \<noteq> Active then (Inl (generation_error ''paged KV slot cannot be retained from this state''), sl)
    else (Inr (), sl\<lparr>st := Retained\<rparr>))"

definition sp_reserve_tokens :: "nat \<Rightarrow> nat \<Rightarrow> kv_spec \<Rightarrow> kv_table_update engine_result \<times> kv_spec" where
  "sp_reserve_tokens slot n a = sp_require_slot slot a (\<lambda>sl.
    let extra = div_ceil n ATTENTION_PAGE_SIZE - length (pgs sl) in
    if st sl \<noteq> Active then (Inl (generation_error ''paged KV slot cannot reserve from this state''), sl)
    else if n > sp_max a
    then (Inl (generation_error ''paged KV slot requires more tokens than the maximum''), sl)
    else if n < tok sl then (Inl (generation_error ''paged KV slot cannot reserve backwards''), sl)
    else if extra > length (sp_free a)
    then (Inl (generation_error ''paged KV slot requires more additional pages than are free''), sl)
    else (Inr \<lparr>upd_slot = slot, first_entry = length (pgs sl), entry_count = extra\<rparr>,
          sl\<lparr>tok := n, pgs := pgs sl @ take extra (sp_free a)\<rparr>))"

definition sp_truncate_tokens :: "nat \<Rightarrow> nat \<Rightarrow> kv_spec \<Rightarrow> nat engine_result \<times> kv_spec" where
  "sp_truncate_tokens slot n a = sp_require_slot slot a (\<lambda>sl.
    let kept = div_ceil n ATTENTION_PAGE_SIZE in
    if st sl = Vacant then (Inl (generation_error ''paged KV slot is vacant''), sl)
    else if n > tok sl then (Inl (generation_error ''paged KV slot cannot truncate forwards''), sl)
    else (Inr (length (pgs sl) - kept), sl\<lparr>tok := n, pgs := take kept (pgs sl)\<rparr>))"

definition sp_recycle :: "nat \<Rightarrow> kv_spec \<Rightarrow> nat engine_result \<times> kv_spec" where
  "sp_recycle slot a = sp_require_slot slot a (\<lambda>sl.
    (Inr (length (pgs sl)), \<lparr>st = Vacant, tok = 0, pgs = []\<rparr>))"

section \<open>Abstraction\<close>

definition kv_slot_abs :: "kv_pool \<Rightarrow> nat \<Rightarrow> kv_slot" where
  "kv_slot_abs p s = \<lparr>st = states p ! s, tok = token_counts p ! s, pgs = kv_row p s\<rparr>"

definition kv_abs :: "kv_pool \<Rightarrow> kv_spec" where
  "kv_abs p = \<lparr>sp_funded = physical_pages p, sp_max = max_context_tokens p,
    sp_slots = map (kv_slot_abs p) [0..<MAX_BATCH]\<rparr>"

lemma kv_slot_abs_simps [simp]:
  "st (kv_slot_abs p s) = states p ! s" "tok (kv_slot_abs p s) = token_counts p ! s"
  "pgs (kv_slot_abs p s) = kv_row p s"
  by (simp_all add: kv_slot_abs_def)

lemma length_kv_row [simp]: "length (kv_row p s) = page_counts p ! s"
  by (simp add: kv_row_def)

lemma kv_abs_slots: "length (sp_slots (kv_abs p)) = MAX_BATCH"
  "s < MAX_BATCH \<Longrightarrow> sp_slots (kv_abs p) ! s = kv_slot_abs p s"
  by (simp_all add: kv_abs_def)

lemma kv_abs_eqI:
  assumes "physical_pages p' = physical_pages p" "max_context_tokens p' = max_context_tokens p"
    and "slot < MAX_BATCH" "kv_slot_abs p' slot = sl"
    and "\<And>t. t < MAX_BATCH \<Longrightarrow> t \<noteq> slot \<Longrightarrow> kv_slot_abs p' t = kv_slot_abs p t"
  shows "kv_abs p' = (kv_abs p)\<lparr>sp_slots := (sp_slots (kv_abs p))[slot := sl]\<rparr>"
proof -
  have "map (kv_slot_abs p') [0..<MAX_BATCH] = (map (kv_slot_abs p) [0..<MAX_BATCH])[slot := sl]"
    using assms(3-5) by (intro nth_equalityI) (auto simp: nth_list_update)
  then show ?thesis using assms(1,2) by (simp add: kv_abs_def)
qed

lemma kv_abs_same_slot:
  "slot < MAX_BATCH \<Longrightarrow> (kv_abs p)\<lparr>sp_slots := (sp_slots (kv_abs p))[slot := kv_slot_abs p slot]\<rparr> = kv_abs p"
  by (rule kv_abs_eqI [symmetric]) auto

lemma sp_funded_kv_abs [simp]: "sp_funded (kv_abs p) = physical_pages p"
  by (simp add: kv_abs_def)

lemma sp_max_kv_abs [simp]: "sp_max (kv_abs p) = max_context_tokens p"
  by (simp add: kv_abs_def)

lemma kv_inv_core: "kv_inv p \<Longrightarrow> kv_core p (\<lambda>s. {..<page_counts p ! s})"
  by (simp add: kv_inv_def)

lemma set_kv_row:
  assumes "kv_inv p" and "s < MAX_BATCH"
  shows "set (kv_row p s) = {g. g < physical_pages p \<and> page_owners p ! g = s}"
proof -
  have c: "kv_core p (\<lambda>s. {..<page_counts p ! s})" by (rule kv_inv_core [OF assms(1)])
  have "g \<in> kv_ent p s ` {..<page_counts p ! s}" if "g < physical_pages p" "page_owners p ! g = s" for g
    using c that owner_not_free [OF assms(2)] by (auto simp: kv_core_def owns_def)
  then show ?thesis
    using kv_core_liveD [OF c assms(2)] by (auto simp: kv_row_def atLeast0LessThan)
qed

lemma distinct_kv_row:
  assumes "kv_inv p" and "s < MAX_BATCH"
  shows "distinct (kv_row p s)"
proof -
  have "inj_on (kv_ent p s) {..<page_counts p ! s}"
    using kv_inv_core [OF assms(1)] assms(2) by (simp add: kv_core_def owns_def)
  then show ?thesis by (simp add: kv_row_def distinct_map atLeast0LessThan)
qed

lemma sp_owned_kv_abs:
  assumes "kv_inv p"
  shows "sp_owned (kv_abs p) = {g. g < physical_pages p \<and> page_owners p ! g \<noteq> FREE_PAGE_OWNER}"
proof -
  have tags: "page_owners p ! g < MAX_BATCH" if "g < physical_pages p" "page_owners p ! g \<noteq> FREE_PAGE_OWNER" for g
    using kv_inv_core [OF assms] that by (simp add: kv_core_def owns_def)
  have "sp_owned (kv_abs p) = (\<Union>s\<in>{..<MAX_BATCH}. set (kv_row p s))"
    by (auto simp: sp_owned_def kv_abs_def kv_slot_abs_def)
  moreover have "(\<Union>s\<in>{..<MAX_BATCH}. set (kv_row p s)) =
      (\<Union>s\<in>{..<MAX_BATCH}. {g. g < physical_pages p \<and> page_owners p ! g = s})"
    by (rule SUP_cong [OF refl]) (simp add: set_kv_row [OF assms])
  ultimately have eq: "sp_owned (kv_abs p) =
      (\<Union>s\<in>{..<MAX_BATCH}. {g. g < physical_pages p \<and> page_owners p ! g = s})" by simp
  show ?thesis
  proof (intro set_eqI iffI)
    fix g assume "g \<in> sp_owned (kv_abs p)"
    then show "g \<in> {g. g < physical_pages p \<and> page_owners p ! g \<noteq> FREE_PAGE_OWNER}"
      unfolding eq using owner_not_free by (metis (mono_tags, lifting) UN_iff lessThan_iff mem_Collect_eq)
  next
    fix g assume "g \<in> {g. g < physical_pages p \<and> page_owners p ! g \<noteq> FREE_PAGE_OWNER}"
    then show "g \<in> sp_owned (kv_abs p)" unfolding eq using tags by simp
  qed
qed

lemma sp_free_kv_abs: "kv_inv p \<Longrightarrow> sp_free (kv_abs p) = kv_free_from 0 p"
  by (auto simp: sp_free_def kv_free_from_def sp_owned_kv_abs intro!: filter_cong)

section \<open>Every operation keeps the invariant and refines its specification\<close>

lemma kv_require_slot_cases:
  "kv_require_slot s = (if s < MAX_BATCH then Inr () else Inl (route_error ''paged KV slot is outside 0..8''))"
  by (simp add: kv_require_slot_def)

lemma sp_require_slot_kv_abs:
  "sp_require_slot s (kv_abs p) f =
    (if s < MAX_BATCH
     then case f (kv_slot_abs p s) of (r, sl) \<Rightarrow> (r, (kv_abs p)\<lparr>sp_slots := (sp_slots (kv_abs p))[s := sl]\<rparr>)
     else (Inl (route_error ''paged KV slot is outside 0..8''), kv_abs p))"
  by (simp add: sp_require_slot_def kv_abs_slots)

lemma kv_row_cong:
  "page_counts p' ! t = page_counts p ! t \<Longrightarrow> (\<And>x. x < page_counts p ! t \<Longrightarrow> kv_ent p' t x = kv_ent p t x) \<Longrightarrow>
    kv_row p' t = kv_row p t"
  by (simp add: kv_row_def)

lemma kv_set_state_refines:
  assumes inv: "kv_inv p" and s: "s < MAX_BATCH"
    and v: "x = Vacant \<longrightarrow> token_counts p ! s = 0"
  defines "p' \<equiv> p\<lparr>states := (states p)[s := x]\<rparr>"
  shows "kv_inv p'" "kv_abs p' = (kv_abs p)\<lparr>sp_slots := (sp_slots (kv_abs p))[s := (kv_slot_abs p s)\<lparr>st := x\<rparr>]\<rparr>"
proof -
  have ent: "kv_ent p' = kv_ent p" by (simp add: fun_eq_iff kv_ent_def p'_def)
  then have core: "kv_core p' live = kv_core p live" for live by (simp add: kv_core_def p'_def)
  have free: "kv_free_from 0 p' = kv_free_from 0 p" by (simp add: kv_free_from_def p'_def)
  show "kv_inv p'"
    using inv s v core free by (simp add: kv_inv_def p'_def nth_list_update)
  show "kv_abs p' = (kv_abs p)\<lparr>sp_slots := (sp_slots (kv_abs p))[s := (kv_slot_abs p s)\<lparr>st := x\<rparr>]\<rparr>"
    using inv s ent
    by (intro kv_abs_eqI) (auto simp: p'_def kv_slot_abs_def kv_row_def kv_inv_def)
qed

lemma kv_activate_refines:
  assumes "kv_inv p" and "kv_activate s p = (r, p')"
  shows "kv_inv p'" and "sp_activate s (kv_abs p) = (r, kv_abs p')"
proof -
  note upd = kv_set_state_refines [OF assms(1), of s Active]
  have "kv_inv p' \<and> sp_activate s (kv_abs p) = (r, kv_abs p')"
    using assms upd
    by (auto simp: kv_activate_def sp_activate_def kv_require_slot_cases sp_require_slot_kv_abs
        kv_abs_same_slot split: if_splits kv_slot_state.splits)
  then show "kv_inv p'" "sp_activate s (kv_abs p) = (r, kv_abs p')" by simp_all
qed

lemma kv_retain_refines:
  assumes "kv_inv p" and "kv_retain s p = (r, p')"
  shows "kv_inv p'" and "sp_retain s (kv_abs p) = (r, kv_abs p')"
proof -
  note upd = kv_set_state_refines [OF assms(1), of s Retained]
  have "kv_inv p' \<and> sp_retain s (kv_abs p) = (r, kv_abs p')"
    using assms upd
    by (auto simp: kv_retain_def sp_retain_def kv_require_slot_cases sp_require_slot_kv_abs
        kv_abs_same_slot split: if_splits)
  then show "kv_inv p'" "sp_retain s (kv_abs p) = (r, kv_abs p')" by simp_all
qed

lemma kv_inv_slotD:
  assumes "kv_inv p" and "s < MAX_BATCH"
  shows "page_counts p ! s = div_ceil (token_counts p ! s) ATTENTION_PAGE_SIZE"
    "token_counts p ! s \<le> max_context_tokens p" "states p ! s = Vacant \<Longrightarrow> token_counts p ! s = 0"
    "max_context_tokens p \<le> table_stride p * ATTENTION_PAGE_SIZE"
    "page_counts p ! s \<le> table_stride p" "s * table_stride p < U64_BOUND"
proof -
  show *: "page_counts p ! s = div_ceil (token_counts p ! s) ATTENTION_PAGE_SIZE"
    "token_counts p ! s \<le> max_context_tokens p" "states p ! s = Vacant \<Longrightarrow> token_counts p ! s = 0"
    "max_context_tokens p \<le> table_stride p * ATTENTION_PAGE_SIZE"
    using assms by (simp_all add: kv_inv_def)
  then show "page_counts p ! s \<le> table_stride p" by (simp add: div_ceil_le_iff)
  have "s * table_stride p \<le> MAX_BATCH * table_stride p" using assms(2) by (intro mult_le_mono1) simp
  then show "s * table_stride p < U64_BOUND" using assms(1) unfolding kv_inv_def by linarith
qed

lemma kv_table_row_begin_ok:
  "kv_inv p \<Longrightarrow> s < MAX_BATCH \<Longrightarrow> kv_table_row_begin p s = Inr (s * table_stride p)"
  by (simp add: kv_table_row_begin_def ok_or_Inr_iff checked_mul_Some_iff kv_inv_slotD)

lemma kv_reserve_success:
  assumes inv: "kv_inv p" and s: "s < MAX_BATCH"
    and n: "token_counts p ! s \<le> n" "n \<le> max_context_tokens p" and act: "states p ! s = Active"
    and k: "k = div_ceil n ATTENTION_PAGE_SIZE - page_counts p ! s" "k \<le> free_pages p"
    and post: "kv_reserve_post p (\<lambda>s. {..<page_counts p ! s}) s (page_counts p ! s) k (next_free_hint p) q search"
  defines "p' \<equiv> q\<lparr>next_free_hint := search, free_pages := free_pages q - k,
     page_counts := (page_counts q)[s := div_ceil n ATTENTION_PAGE_SIZE],
     token_counts := (token_counts q)[s := n]\<rparr>"
  shows "kv_inv p'"
    and "kv_abs p' = (kv_abs p)\<lparr>sp_slots := (sp_slots (kv_abs p))[s :=
      (kv_slot_abs p s)\<lparr>tok := n, pgs := kv_row p s @ take k (kv_free_from 0 p)\<rparr>]\<rparr>"
proof -
  let ?c = "page_counts p ! s" and ?r = "div_ceil n ATTENTION_PAGE_SIZE"
  note slot = kv_inv_slotD [OF inv]
  have cr: "?c \<le> ?r" using slot(1) [OF s] n(1) by (simp add: div_ceil_mono)
  have rs: "?r \<le> table_stride p" using n(2) slot(4) [OF s] by (simp add: div_ceil_le_iff)
  have rk: "?r = ?c + k" using k(1) cr by simp
  have frame: "kv_frame p q" and hint: "next_free_hint q = next_free_hint p"
    using post by (simp_all add: kv_reserve_post_def)
  note fr = frame [unfolded kv_frame_def]
  have hint_ok: "\<forall>g<next_free_hint p. page_owners p ! g \<noteq> FREE_PAGE_OWNER" "next_free_hint p \<le> physical_pages p"
    using inv by (simp_all add: kv_inv_def)
  have skip: "kv_free_from 0 p = kv_free_from (next_free_hint p) p"
    by (rule kv_free_from_skip [OF hint_ok])
  have kl: "k \<le> length (kv_free_from 0 p)" using k(2) inv by (simp add: kv_inv_def)
  have free': "kv_free_from 0 q = drop k (kv_free_from 0 p)"
    by (rule kv_free_after_reserve [OF post s kl skip])
  have p': "kv_ent p' = kv_ent q" "kv_free_from 0 p' = kv_free_from 0 q" "page_owners p' = page_owners q"
    by (simp_all add: p'_def fun_eq_iff kv_ent_def kv_free_from_def)
  have core: "kv_core p' (\<lambda>t. {..<page_counts p' ! t})"
  proof (rule kv_core_cong)
    show "kv_core q ((\<lambda>s. {..<page_counts p ! s})(s := {..<?c} \<union> {?c..<?c + k}))"
      using post by (simp add: kv_reserve_post_def)
  qed (use s fr rk inv in \<open>auto simp: p'_def kv_inv_def nth_list_update\<close>)
  have used: "\<forall>g<search. page_owners q ! g \<noteq> FREE_PAGE_OWNER"
  proof (intro allI impI)
    fix g assume g: "g < search"
    show "page_owners q ! g \<noteq> FREE_PAGE_OWNER"
    proof (cases "g < next_free_hint p")
      case True
      then show ?thesis using hint_ok(1) owner_not_free [OF s] post by (simp add: kv_reserve_post_def)
    next
      case False
      then have "next_free_hint p \<le> g" by simp
      then show ?thesis using g post unfolding kv_reserve_post_def by blast
    qed
  qed
  show "kv_inv p'"
    using inv s core used free' fr n act k post p'(2,3)
    by (simp add: kv_inv_def p'_def nth_list_update kv_reserve_post_def)
  have row: "kv_row p' s = kv_row p s @ take k (kv_free_from 0 p)"
  proof (rule nth_equalityI)
    show "length (kv_row p' s) = length (kv_row p s @ take k (kv_free_from 0 p))"
      using s fr rk kl inv by (simp add: p'_def kv_inv_def)
  next
    fix i assume "i < length (kv_row p' s)"
    then have i: "i < ?c + k" using s fr rk inv by (simp add: p'_def kv_inv_def)
    then have "kv_ent q s i = (if ?c \<le> i then kv_free_from 0 p ! (i - ?c) else kv_ent p s i)"
      using post s rs rk skip by (simp add: kv_reserve_post_def)
    then show "kv_row p' s ! i = (kv_row p s @ take k (kv_free_from 0 p)) ! i"
      using i s fr rk inv p'(1) by (simp add: kv_row_def nth_append p'_def kv_inv_def)
  qed
  have other: "kv_slot_abs p' t = kv_slot_abs p t" if t: "t < MAX_BATCH" "t \<noteq> s" for t
  proof -
    have "kv_row p' t = kv_row p t"
    proof (rule kv_row_cong)
      fix x assume "x < page_counts p ! t"
      then have "x < table_stride p" using slot(5) [OF t(1)] by simp
      then show "kv_ent p' t x = kv_ent p t x" using post t p'(1) by (simp add: kv_reserve_post_def)
    qed (use t fr in \<open>simp add: p'_def\<close>)
    then show ?thesis using t fr by (simp add: kv_slot_abs_def p'_def)
  qed
  show "kv_abs p' = (kv_abs p)\<lparr>sp_slots := (sp_slots (kv_abs p))[s :=
      (kv_slot_abs p s)\<lparr>tok := n, pgs := kv_row p s @ take k (kv_free_from 0 p)\<rparr>]\<rparr>"
    using fr s other row inv by (intro kv_abs_eqI) (simp_all add: p'_def kv_slot_abs_def kv_inv_def)
qed

lemma kv_reserve_tokens_refines:
  assumes inv: "kv_inv p" and run: "kv_reserve_tokens s n p = (r, p')"
  shows "kv_inv p'" and "sp_reserve_tokens s n (kv_abs p) = (r, kv_abs p')"
proof -
  let ?c = "page_counts p ! s" and ?k = "div_ceil n ATTENTION_PAGE_SIZE - page_counts p ! s"
  have "kv_inv p' \<and> sp_reserve_tokens s n (kv_abs p) = (r, kv_abs p')"
  proof (cases "s < MAX_BATCH \<and> states p ! s = Active \<and> n \<le> max_context_tokens p \<and> token_counts p ! s \<le> n")
    case False
    then show ?thesis
      using inv run
      by (auto simp: kv_reserve_tokens_def sp_reserve_tokens_def kv_require_slot_cases kv_require_active_def
          sp_require_slot_kv_abs kv_abs_same_slot Let_def split: if_splits)
  next
    case True
    then have s: "s < MAX_BATCH" and act: "states p ! s = Active"
      and n: "n \<le> max_context_tokens p" "token_counts p ! s \<le> n" by simp_all
    note slot = kv_inv_slotD [OF inv s]
    have c: "?c \<le> div_ceil n ATTENTION_PAGE_SIZE" using slot(1) n(2) by (simp add: div_ceil_mono)
    have fp: "free_pages p = length (kv_free_from 0 p)" using inv by (simp add: kv_inv_def)
    show ?thesis
    proof (cases "?k \<le> free_pages p")
      case False
      then show ?thesis
        using True inv run c fp
        by (simp add: kv_reserve_tokens_def sp_reserve_tokens_def kv_require_slot_cases kv_require_active_def
            sp_require_slot_kv_abs kv_abs_same_slot sp_free_kv_abs Let_def)
    next
      case fits: True
      have skip: "kv_free_from 0 p = kv_free_from (next_free_hint p) p"
        using inv by (intro kv_free_from_skip) (simp_all add: kv_inv_def)
      have upt: "[?c..<div_ceil n ATTENTION_PAGE_SIZE] = [?c..<?c + ?k]" using c by simp
      have rs: "?c + ?k \<le> table_stride p" using c n(1) slot(4) by (simp add: div_ceil_le_iff)
      have "\<exists>q search. kv_reserve_loop s (s * table_stride p) ?c [?c..<?c + ?k] (next_free_hint p) p = (Inr search, q) \<and>
          kv_reserve_post p (\<lambda>s. {..<page_counts p ! s}) s ?c ?k (next_free_hint p) q search"
        using fits fp skip rs inv by (intro kv_reserve_loop_ok [OF kv_inv_core [OF inv] s]) (auto simp: kv_inv_def)
      then obtain q search where loop:
        "kv_reserve_loop s (s * table_stride p) ?c [?c..<div_ceil n ATTENTION_PAGE_SIZE] (next_free_hint p) p = (Inr search, q)"
        and post: "kv_reserve_post p (\<lambda>s. {..<page_counts p ! s}) s ?c ?k (next_free_hint p) q search"
        unfolding upt by blast
      note ok = kv_reserve_success [OF inv s n(2,1) act refl fits post]
      show ?thesis
        using run loop ok True c fits fp
        by (auto simp: kv_reserve_tokens_def sp_reserve_tokens_def kv_require_slot_cases kv_require_active_def
            kv_table_row_begin_ok [OF inv s] sp_require_slot_kv_abs sp_free_kv_abs [OF inv] Let_def
            simp del: upt_Suc)
    qed
  qed
  then show "kv_inv p'" "sp_reserve_tokens s n (kv_abs p) = (r, kv_abs p')" by simp_all
qed

lemma kv_truncate_success:
  assumes inv: "kv_inv p" and s: "s < MAX_BATCH" and n: "n \<le> token_counts p ! s"
    and k: "k = div_ceil n ATTENTION_PAGE_SIZE"
    and post: "kv_truncate_post p (\<lambda>s. {..<page_counts p ! s}) s k (page_counts p ! s - k) q"
  defines "p' \<equiv> q\<lparr>free_pages := free_pages q + (page_counts p ! s - k),
     page_counts := (page_counts q)[s := k], token_counts := (token_counts q)[s := n]\<rparr>"
  shows "kv_inv p'"
    and "kv_abs p' = (kv_abs p)\<lparr>sp_slots := (sp_slots (kv_abs p))[s :=
      (kv_slot_abs p s)\<lparr>tok := n, pgs := take k (kv_row p s)\<rparr>]\<rparr>"
proof -
  let ?c = "page_counts p ! s"
  note slot = kv_inv_slotD [OF inv]
  have kc: "k \<le> ?c" using slot(1) [OF s] n k by (simp add: div_ceil_mono)
  have fr: "kv_frame p q" and hint: "next_free_hint q \<le> next_free_hint p"
    "\<forall>x\<in>{k..<?c}. next_free_hint q \<le> kv_ent p s x"
    and own: "\<forall>g. page_owners q ! g = (if g \<in> kv_ent p s ` {k..<?c} then FREE_PAGE_OWNER else page_owners p ! g)"
    and ent: "\<forall>t<MAX_BATCH. \<forall>x<table_stride p. kv_ent q t x =
      (if t = s \<and> k \<le> x \<and> x < ?c then UNUSED_PAGE else kv_ent p t x)"
    and core_q: "kv_core q ((\<lambda>s. {..<page_counts p ! s})(s := {..<?c} - {k..<?c}))"
    using post kc by (simp_all add: kv_truncate_post_def)
  note fr' = fr [unfolded kv_frame_def]
  have p': "kv_ent p' = kv_ent q" "kv_free_from 0 p' = kv_free_from 0 q" "page_owners p' = page_owners q"
    by (simp_all add: p'_def fun_eq_iff kv_ent_def kv_free_from_def)
  have core: "kv_core p' (\<lambda>t. {..<page_counts p' ! t})"
    by (rule kv_core_cong [OF core_q]) (use s fr' kc inv in \<open>auto simp: p'_def kv_inv_def nth_list_update\<close>)
  have live: "kv_ent p s x < physical_pages p" "page_owners p ! kv_ent p s x = s" if "x < ?c" for x
    using kv_core_liveD [OF kv_inv_core [OF inv] s, of x] that by simp_all
  have free: "{g. g < physical_pages p \<and> page_owners q ! g = FREE_PAGE_OWNER} =
      {g. g < physical_pages p \<and> page_owners p ! g = FREE_PAGE_OWNER} \<union> kv_ent p s ` {k..<?c}"
    using own live owner_not_free [OF s] by auto
  have "card (kv_ent p s ` {k..<?c}) = ?c - k"
  proof -
    have "inj_on (kv_ent p s) {..<?c}" using kv_inv_core [OF inv] s by (simp add: kv_core_def owns_def)
    then have "inj_on (kv_ent p s) {k..<?c}" by (rule inj_on_subset) auto
    then show ?thesis by (simp add: card_image)
  qed
  moreover have "{g. g < physical_pages p \<and> page_owners p ! g = FREE_PAGE_OWNER} \<inter> kv_ent p s ` {k..<?c} = {}"
    using live owner_not_free [OF s] by auto
  ultimately have count: "length (kv_free_from 0 q) = length (kv_free_from 0 p) + (?c - k)"
    unfolding length_kv_free using fr' free by (simp add: card_Un_disjoint)
  have used: "\<forall>g<next_free_hint q. page_owners q ! g \<noteq> FREE_PAGE_OWNER"
  proof (intro allI impI)
    fix g assume g: "g < next_free_hint q"
    then have "g \<notin> kv_ent p s ` {k..<?c}" using hint(2) by force
    then show "page_owners q ! g \<noteq> FREE_PAGE_OWNER" using own g hint(1) inv by (simp add: kv_inv_def)
  qed
  show "kv_inv p'"
    using inv s core used count fr' n k hint(1) p'(2,3)
    by (simp add: kv_inv_def p'_def nth_list_update) (metis le_trans order_refl zero_le le_zero_eq)
  have row: "kv_row p' s = take k (kv_row p s)"
  proof (rule nth_equalityI)
    show "length (kv_row p' s) = length (take k (kv_row p s))"
      using s fr' kc inv by (simp add: p'_def kv_inv_def)
  next
    fix i assume "i < length (kv_row p' s)"
    then have i: "i < k" using s fr' inv by (simp add: p'_def kv_inv_def)
    then have "kv_ent q s i = kv_ent p s i" using ent s kc slot(5) [OF s] by simp
    then show "kv_row p' s ! i = take k (kv_row p s) ! i"
      using i s fr' kc inv p'(1) by (simp add: kv_row_def p'_def kv_inv_def)
  qed
  have other: "kv_slot_abs p' t = kv_slot_abs p t" if t: "t < MAX_BATCH" "t \<noteq> s" for t
  proof -
    have "kv_row p' t = kv_row p t"
    proof (rule kv_row_cong)
      fix x assume "x < page_counts p ! t"
      then have "x < table_stride p" using slot(5) [OF t(1)] by simp
      then show "kv_ent p' t x = kv_ent p t x" using ent t p'(1) by simp
    qed (use t fr' in \<open>simp add: p'_def\<close>)
    then show ?thesis using t fr' by (simp add: kv_slot_abs_def p'_def)
  qed
  show "kv_abs p' = (kv_abs p)\<lparr>sp_slots := (sp_slots (kv_abs p))[s :=
      (kv_slot_abs p s)\<lparr>tok := n, pgs := take k (kv_row p s)\<rparr>]\<rparr>"
    using fr' s other row inv by (intro kv_abs_eqI) (simp_all add: p'_def kv_slot_abs_def kv_inv_def)
qed

lemma kv_truncate_tokens_refines:
  assumes inv: "kv_inv p" and run: "kv_truncate_tokens s n p = (r, p')"
  shows "kv_inv p'" and "sp_truncate_tokens s n (kv_abs p) = (r, kv_abs p')"
proof -
  let ?c = "page_counts p ! s" and ?k = "div_ceil n ATTENTION_PAGE_SIZE"
  have "kv_inv p' \<and> sp_truncate_tokens s n (kv_abs p) = (r, kv_abs p')"
  proof (cases "s < MAX_BATCH \<and> states p ! s \<noteq> Vacant \<and> n \<le> token_counts p ! s")
    case False
    then show ?thesis
      using inv run
      by (auto simp: kv_truncate_tokens_def sp_truncate_tokens_def kv_require_slot_cases
          sp_require_slot_kv_abs kv_abs_same_slot Let_def split: if_splits)
  next
    case True
    then have s: "s < MAX_BATCH" and n: "n \<le> token_counts p ! s" by simp_all
    have kc: "?k \<le> ?c" using kv_inv_slotD(1) [OF inv s] n by (simp add: div_ceil_mono)
    then have upt: "[?k..<?c] = [?k..<?k + (?c - ?k)]" by simp
    have "\<exists>q. kv_truncate_loop s (s * table_stride p) [?k..<?k + (?c - ?k)] p = (Inr (), q) \<and>
        kv_truncate_post p (\<lambda>s. {..<page_counts p ! s}) s ?k (?c - ?k) q"
      using kc by (intro kv_truncate_loop_ok [OF kv_inv_core [OF inv] s]) auto
    then obtain q where loop: "kv_truncate_loop s (s * table_stride p) [?k..<?c] p = (Inr (), q)"
      and post: "kv_truncate_post p (\<lambda>s. {..<page_counts p ! s}) s ?k (?c - ?k) q"
      unfolding upt by blast
    note ok = kv_truncate_success [OF inv s n refl post]
    show ?thesis
      using run loop ok True kc
      by (auto simp: kv_truncate_tokens_def sp_truncate_tokens_def kv_require_slot_cases
          kv_table_row_begin_ok [OF inv s] sp_require_slot_kv_abs Let_def simp del: upt_Suc)
  qed
  then show "kv_inv p'" "sp_truncate_tokens s n (kv_abs p) = (r, kv_abs p')" by simp_all
qed

lemma kv_vacant_slot:
  "kv_inv p \<Longrightarrow> s < MAX_BATCH \<Longrightarrow> states p ! s = Vacant \<Longrightarrow> kv_slot_abs p s = \<lparr>st = Vacant, tok = 0, pgs = []\<rparr>"
  using kv_inv_slotD(1,3) [of p s] by (simp add: kv_slot_abs_def kv_row_def)

lemma kv_recycle_refines:
  assumes inv: "kv_inv p" and run: "kv_recycle s p = (r, p')"
  shows "kv_inv p'" and "sp_recycle s (kv_abs p) = (r, kv_abs p')"
proof -
  have "kv_inv p' \<and> sp_recycle s (kv_abs p) = (r, kv_abs p')"
  proof (cases "s < MAX_BATCH \<and> states p ! s \<noteq> Vacant")
    case False
    then show ?thesis
      using inv run kv_vacant_slot [OF inv, of s] kv_inv_slotD(1) [OF inv, of s] kv_abs_same_slot [of s p]
      by (auto simp: kv_recycle_def sp_recycle_def kv_require_slot_cases sp_require_slot_kv_abs split: if_splits)
  next
    case True
    then have s: "s < MAX_BATCH" by simp
    obtain r1 q where t: "kv_truncate_tokens s 0 p = (r1, q)" by fastforce
    note tr = kv_truncate_tokens_refines [OF inv t]
    have ab: "kv_abs q = (kv_abs p)\<lparr>sp_slots := (sp_slots (kv_abs p))[s :=
        (kv_slot_abs p s)\<lparr>tok := 0, pgs := []\<rparr>]\<rparr>" and r1: "r1 = Inr (page_counts p ! s)"
      using tr(2) True by (auto simp: sp_truncate_tokens_def sp_require_slot_kv_abs Let_def)
    have "kv_slot_abs q s = (kv_slot_abs p s)\<lparr>tok := 0, pgs := []\<rparr>"
      using arg_cong [OF ab, of "\<lambda>a. sp_slots a ! s"] s by (simp add: kv_abs_slots)
    then have z: "token_counts q ! s = 0" by (metis kv_slot.select_convs(2) kv_slot.update_convs(2) kv_slot.update_convs(3) kv_slot_abs_simps(2) kv_slot.surjective)
    note fin = kv_set_state_refines [OF tr(1) s, of Vacant]
    have cleared: "sl\<lparr>tok := 0, pgs := [], st := Vacant\<rparr> = \<lparr>st = Vacant, tok = 0, pgs = []\<rparr>" for sl :: kv_slot
      by (cases sl) simp
    show ?thesis
      using run t True r1 fin z ab \<open>kv_slot_abs q s = _\<close> cleared
      by (auto simp: kv_recycle_def sp_recycle_def kv_require_slot_cases sp_require_slot_kv_abs kv_abs_slots)
  qed
  then show "kv_inv p'" "sp_recycle s (kv_abs p) = (r, kv_abs p')" by simp_all
qed

section \<open>Construction and runs\<close>

definition sp_new :: "nat \<Rightarrow> nat \<Rightarrow> kv_spec" where
  "sp_new pages max_context = \<lparr>sp_funded = pages, sp_max = max_context,
    sp_slots = replicate MAX_BATCH \<lparr>st = Vacant, tok = 0, pgs = []\<rparr>\<rparr>"

lemma kv_new_with_limits_ok:
  assumes "kv_new_with_limits pages stride max_context = Inr p" and "pages < U32_BOUND"
  shows "kv_inv p" and "kv_abs p = sp_new pages max_context"
proof -
  have p: "p = \<lparr>physical_pages = pages, table_stride = stride, max_context_tokens = max_context,
      page_tables = replicate (MAX_BATCH * stride) UNUSED_PAGE, page_owners = replicate pages FREE_PAGE_OWNER,
      states = replicate MAX_BATCH Vacant, token_counts = replicate MAX_BATCH 0,
      page_counts = replicate MAX_BATCH 0, free_pages = pages, next_free_hint = 0\<rparr>"
    and "pages \<le> stride" "max_context \<le> stride * ATTENTION_PAGE_SIZE" "MAX_BATCH * stride < U64_BOUND"
    using assms(1) unfolding kv_new_with_limits_def
    by (auto simp: rbind_Inr_iff ok_or_Inr_iff checked_mul_Some_iff split: if_splits)
  moreover have "kv_ent p s e = UNUSED_PAGE" if "s < MAX_BATCH" "e < stride" for s e
    using row_index_bound [OF that] by (simp add: p kv_ent_def)
  moreover have "kv_free_from 0 p = [0..<pages]" by (simp add: p kv_free_from_def)
  ultimately show "kv_inv p" "kv_abs p = sp_new pages max_context"
    using assms(2)
    by (auto simp: kv_inv_def kv_core_def owns_def kv_abs_def kv_slot_abs_def kv_row_def sp_new_def
        map_replicate_const intro!: nth_equalityI)
qed

datatype kv_op = KvActivate nat | KvRetain nat | KvReserve nat nat | KvTruncate nat nat | KvRecycle nat

fun kv_exec :: "kv_op \<Rightarrow> kv_pool \<Rightarrow> nat engine_result \<times> kv_pool" where
  "kv_exec (KvActivate s) p = apfst (map_sum id (\<lambda>_. 0)) (kv_activate s p)"
| "kv_exec (KvRetain s) p = apfst (map_sum id (\<lambda>_. 0)) (kv_retain s p)"
| "kv_exec (KvReserve s n) p = apfst (map_sum id entry_count) (kv_reserve_tokens s n p)"
| "kv_exec (KvTruncate s n) p = kv_truncate_tokens s n p"
| "kv_exec (KvRecycle s) p = kv_recycle s p"

fun sp_exec :: "kv_op \<Rightarrow> kv_spec \<Rightarrow> nat engine_result \<times> kv_spec" where
  "sp_exec (KvActivate s) a = apfst (map_sum id (\<lambda>_. 0)) (sp_activate s a)"
| "sp_exec (KvRetain s) a = apfst (map_sum id (\<lambda>_. 0)) (sp_retain s a)"
| "sp_exec (KvReserve s n) a = apfst (map_sum id entry_count) (sp_reserve_tokens s n a)"
| "sp_exec (KvTruncate s n) a = sp_truncate_tokens s n a"
| "sp_exec (KvRecycle s) a = sp_recycle s a"

text \<open>Runs collect the result of every call; an \<open>Err\<close> does not stop the run.\<close>

fun kv_run :: "kv_op list \<Rightarrow> kv_pool \<Rightarrow> nat engine_result list \<times> kv_pool" where
  "kv_run [] p = ([], p)"
| "kv_run (op # ops) p = (let (r, p) = kv_exec op p; (rs, p) = kv_run ops p in (r # rs, p))"

fun sp_run :: "kv_op list \<Rightarrow> kv_spec \<Rightarrow> nat engine_result list \<times> kv_spec" where
  "sp_run [] a = ([], a)"
| "sp_run (op # ops) a = (let (r, a) = sp_exec op a; (rs, a) = sp_run ops a in (r # rs, a))"

lemma kv_exec_refines:
  assumes "kv_inv p" and "kv_exec op p = (r, p')"
  shows "kv_inv p'" and "sp_exec op (kv_abs p) = (r, kv_abs p')"
proof -
  note refines = kv_activate_refines [OF assms(1)] kv_retain_refines [OF assms(1)]
    kv_reserve_tokens_refines [OF assms(1)] kv_truncate_tokens_refines [OF assms(1)]
    kv_recycle_refines [OF assms(1)]
  have "kv_inv p' \<and> sp_exec op (kv_abs p) = (r, kv_abs p')"
    using assms(2) by (cases op) (auto simp: apfst_def map_prod_def refines split: prod.splits dest: refines)
  then show "kv_inv p'" "sp_exec op (kv_abs p) = (r, kv_abs p')" by simp_all
qed

lemma kv_run_refines:
  "kv_inv p \<Longrightarrow> kv_inv (snd (kv_run ops p)) \<and>
    sp_run ops (kv_abs p) = (fst (kv_run ops p), kv_abs (snd (kv_run ops p)))"
proof (induction ops arbitrary: p)
  case (Cons op ops)
  obtain r q where "kv_exec op p = (r, q)" by fastforce
  with kv_exec_refines [OF Cons.prems this] Cons.IH [of q] show ?case
    by (auto simp: Let_def split: prod.splits)
qed simp

section \<open>The page-allocator interface\<close>

lemma kv_rows_conserved:
  assumes inv: "kv_inv p"
  shows "free_pages p + (\<Sum>s<MAX_BATCH. length (kv_row p s)) = physical_pages p"
proof -
  let ?F = "{g. g < physical_pages p \<and> page_owners p ! g = FREE_PAGE_OWNER}"
  have "(\<Sum>s<MAX_BATCH. length (kv_row p s)) = (\<Sum>s<MAX_BATCH. card (set (kv_row p s)))"
    by (rule sum.cong) (simp_all add: distinct_card distinct_kv_row [OF inv])
  also have "\<dots> = card (\<Union>s\<in>{..<MAX_BATCH}. set (kv_row p s))"
    using set_kv_row [OF inv] by (intro card_UN_disjoint [symmetric]) auto
  also have "(\<Union>s\<in>{..<MAX_BATCH}. set (kv_row p s)) = sp_owned (kv_abs p)"
    by (auto simp: sp_owned_def kv_abs_def)
  also have "sp_owned (kv_abs p) = {..<physical_pages p} - ?F"
    using sp_owned_kv_abs [OF inv] by auto
  also have "card \<dots> = physical_pages p - card ?F"
    by (subst card_Diff_subset) auto
  finally have "(\<Sum>s<MAX_BATCH. length (kv_row p s)) = physical_pages p - card ?F" .
  moreover have "card ?F \<le> card {..<physical_pages p}" by (rule card_mono) auto
  moreover have "free_pages p = card ?F" using inv by (simp add: kv_inv_def length_kv_free)
  ultimately show ?thesis by simp
qed

definition kv_grow :: "nat \<Rightarrow> nat \<Rightarrow> kv_pool \<Rightarrow> kv_pool \<Rightarrow> bool" where
  "kv_grow s n p p' \<longleftrightarrow> is_ok (fst (kv_reserve_tokens s n p)) \<and> p' = snd (kv_reserve_tokens s n p)"

definition kv_shrink :: "nat \<Rightarrow> nat \<Rightarrow> kv_pool \<Rightarrow> kv_pool \<Rightarrow> bool" where
  "kv_shrink s n p p' \<longleftrightarrow> is_ok (fst (kv_truncate_tokens s n p)) \<and> p' = snd (kv_truncate_tokens s n p)"

lemma kv_abs_updD:
  assumes ab: "kv_abs p' = (kv_abs p)\<lparr>sp_slots := (sp_slots (kv_abs p))[s := sl]\<rparr>" and s: "s < MAX_BATCH"
  shows "kv_row p' s = pgs sl" "token_counts p' ! s = tok sl"
    "t < MAX_BATCH \<Longrightarrow> s \<noteq> t \<Longrightarrow> kv_row p' t = kv_row p t"
    "t < MAX_BATCH \<Longrightarrow> s \<noteq> t \<Longrightarrow> token_counts p' ! t = token_counts p ! t"
proof -
  have slot: "kv_slot_abs p' u = (if s = u then sl else kv_slot_abs p u)" if "u < MAX_BATCH" for u
    using arg_cong [OF ab, of "\<lambda>a. sp_slots a ! u"] that s by (simp add: kv_abs_slots nth_list_update)
  show "kv_row p' s = pgs sl" "token_counts p' ! s = tok sl"
    using arg_cong [OF slot [OF s], of pgs] arg_cong [OF slot [OF s], of tok] by simp_all
  show "kv_row p' t = kv_row p t" "token_counts p' ! t = token_counts p ! t" if "t < MAX_BATCH" "s \<noteq> t"
    using arg_cong [OF slot, of t pgs] arg_cong [OF slot, of t tok] that by simp_all
qed

lemma kv_grow_spec:
  assumes inv: "kv_inv p" and s: "s < MAX_BATCH" and g: "kv_grow s n p p'"
  shows "kv_inv p'" "kv_row p' s = kv_row p s @ take (div_ceil n ATTENTION_PAGE_SIZE - page_counts p ! s) (kv_free_from 0 p)"
    "token_counts p' ! s = n" "t < MAX_BATCH \<Longrightarrow> s \<noteq> t \<Longrightarrow> kv_row p' t = kv_row p t"
    "t < MAX_BATCH \<Longrightarrow> s \<noteq> t \<Longrightarrow> token_counts p' ! t = token_counts p ! t"
proof -
  obtain u where run: "kv_reserve_tokens s n p = (Inr u, p')"
    using g unfolding kv_grow_def is_ok_iff by (cases "kv_reserve_tokens s n p") auto
  note ref = kv_reserve_tokens_refines [OF inv run]
  show "kv_inv p'" by (rule ref(1))
  have "kv_abs p' = (kv_abs p)\<lparr>sp_slots := (sp_slots (kv_abs p))[s := (kv_slot_abs p s)
      \<lparr>tok := n, pgs := kv_row p s @ take (div_ceil n ATTENTION_PAGE_SIZE - page_counts p ! s) (kv_free_from 0 p)\<rparr>]\<rparr>"
    using ref(2) s by (auto simp: sp_reserve_tokens_def sp_require_slot_kv_abs sp_free_kv_abs [OF inv] Let_def split: if_splits)
  then show "kv_row p' s = kv_row p s @ take (div_ceil n ATTENTION_PAGE_SIZE - page_counts p ! s) (kv_free_from 0 p)"
    "token_counts p' ! s = n" "t < MAX_BATCH \<Longrightarrow> s \<noteq> t \<Longrightarrow> kv_row p' t = kv_row p t"
    "t < MAX_BATCH \<Longrightarrow> s \<noteq> t \<Longrightarrow> token_counts p' ! t = token_counts p ! t"
    using kv_abs_updD [OF _ s] by simp_all
qed

lemma kv_shrink_spec:
  assumes inv: "kv_inv p" and s: "s < MAX_BATCH" and g: "kv_shrink s n p p'"
  shows "kv_inv p'" "kv_row p' s = take (div_ceil n ATTENTION_PAGE_SIZE) (kv_row p s)"
    "token_counts p' ! s = n" "t < MAX_BATCH \<Longrightarrow> s \<noteq> t \<Longrightarrow> kv_row p' t = kv_row p t"
    "t < MAX_BATCH \<Longrightarrow> s \<noteq> t \<Longrightarrow> token_counts p' ! t = token_counts p ! t"
proof -
  obtain u where run: "kv_truncate_tokens s n p = (Inr u, p')"
    using g unfolding kv_shrink_def is_ok_iff by (cases "kv_truncate_tokens s n p") auto
  note ref = kv_truncate_tokens_refines [OF inv run]
  show "kv_inv p'" by (rule ref(1))
  have "kv_abs p' = (kv_abs p)\<lparr>sp_slots := (sp_slots (kv_abs p))[s := (kv_slot_abs p s)
      \<lparr>tok := n, pgs := take (div_ceil n ATTENTION_PAGE_SIZE) (kv_row p s)\<rparr>]\<rparr>"
    using ref(2) s by (auto simp: sp_truncate_tokens_def sp_require_slot_kv_abs Let_def split: if_splits)
  then show "kv_row p' s = take (div_ceil n ATTENTION_PAGE_SIZE) (kv_row p s)"
    "token_counts p' ! s = n" "t < MAX_BATCH \<Longrightarrow> s \<noteq> t \<Longrightarrow> kv_row p' t = kv_row p t"
    "t < MAX_BATCH \<Longrightarrow> s \<noteq> t \<Longrightarrow> token_counts p' ! t = token_counts p ! t"
    using kv_abs_updD [OF _ s] by simp_all
qed

interpretation kv_rows: paged_rows kv_inv kv_row "\<lambda>p s. token_counts p ! s" physical_pages free_pages
proof unfold_locales
  fix p s assume "kv_inv p" "s < MAX_BATCH"
  then show "token_counts p ! s \<le> length (kv_row p s) * ATTENTION_PAGE_SIZE"
    by (simp add: kv_inv_slotD le_div_ceil_mult)
qed (auto simp: distinct_kv_row set_kv_row dest: kv_rows_conserved simp del: length_kv_row)

interpretation kv_alloc: paged_allocator kv_inv kv_row "\<lambda>p s. token_counts p ! s" physical_pages free_pages
  kv_grow kv_shrink
proof unfold_locales
  fix p s n p' assume "kv_inv p" "s < MAX_BATCH" "kv_grow s n p p'"
  then have "kv_inv p'" "token_counts p' ! s = n" by (simp_all add: kv_grow_spec)
  then show "n \<le> length (kv_row p' s) * ATTENTION_PAGE_SIZE"
    using kv_rows.tokens_mapped [of p' s] \<open>s < MAX_BATCH\<close> by simp
qed (auto dest: kv_grow_spec kv_shrink_spec)

end
