(* ===== verification/KvProperties.thy ===== *)
theory KvProperties
  imports KvSpec
begin

text \<open>
  What \<open>PagedKvSlotPool\<close> guarantees to the engine in every state it can reach: pages are never
  shared, a cached position always routes to its place, a refused call changes nothing, and no
  internal-consistency error or panic of the code is reachable.
\<close>

section \<open>Reachable pools\<close>

inductive kv_reachable :: "kv_pool \<Rightarrow> bool" where
  kv_start: "kv_new_with_limits pages stride max_context = Inr p \<Longrightarrow> pages < U32_BOUND \<Longrightarrow> kv_reachable p"
| kv_call: "kv_reachable p \<Longrightarrow> kv_exec op p = (r, p') \<Longrightarrow> kv_reachable p'"

lemma kv_reachable_inv: "kv_reachable p \<Longrightarrow> kv_inv p"
  by (induction rule: kv_reachable.induct) (auto intro: kv_new_with_limits_ok kv_exec_refines)

lemma kv_reachable_run: "kv_reachable p \<Longrightarrow> kv_reachable (snd (kv_run ops p))"
proof (induction ops arbitrary: p)
  case (Cons op ops)
  obtain r q where "kv_exec op p = (r, q)" by fastforce
  with Cons.IH [OF kv_call [OF Cons.prems this]] show ?case by (auto simp: Let_def split: prod.splits)
qed simp

lemma kv_reachable_new: "kv_new pages = Inr p \<Longrightarrow> kv_reachable p"
proof -
  assume new: "kv_new pages = Inr p"
  then have "pages \<le> LONG_CONTEXT_PHYSICAL_PAGES" by (auto simp: kv_new_def split: if_splits)
  then have "pages < U32_BOUND"
    by (simp add: LONG_CONTEXT_PHYSICAL_PAGES_def MAX_CONTEXT_TOKENS_def ATTENTION_PAGE_SIZE_def div_ceil_def U32_BOUND_def)
  then show ?thesis using new kv_start by (auto simp: kv_new_def split: if_splits)
qed

text \<open>A small concrete pool for the witnesses: four pages, four columns, two live slots.\<close>

definition kv_small :: "kv_pool" where
  "kv_small = projr (kv_new_with_limits 4 4 256)"

definition kv_busy :: "kv_pool" where
  "kv_busy = snd (kv_run [KvActivate 0, KvActivate 3, KvReserve 0 70, KvReserve 3 5] kv_small)"

lemma kv_small_new: "kv_new_with_limits 4 4 256 = Inr kv_small"
  unfolding kv_small_def by code_simp

lemma kv_small_reachable: "kv_reachable kv_small"
  by (rule kv_start [OF kv_small_new]) (simp add: U32_BOUND_def)

lemma kv_busy_reachable: "kv_reachable kv_busy"
  unfolding kv_busy_def by (rule kv_reachable_run [OF kv_small_reachable])

lemma kv_busy_inv: "kv_inv kv_busy"
  by (rule kv_reachable_inv [OF kv_busy_reachable])

lemma kv_route_of_ok:
  assumes inv: "kv_inv p" and s: "s < MAX_BATCH" and i: "i < token_counts p ! s"
  shows "kv_route_of p s i = Inr \<lparr>physical_page = fst (page_coordinate (kv_row p s) i),
    page_offset = snd (page_coordinate (kv_row p s) i)\<rparr>"
    and "fst (page_coordinate (kv_row p s) i) < physical_pages p"
proof -
  note slot = kv_inv_slotD [OF inv s]
  let ?l = "i div ATTENTION_PAGE_SIZE"
  have l: "?l < page_counts p ! s" using slot(1) i by (simp add: div_less_div_ceil)
  then have ls: "?l < table_stride p" using slot(5) by simp
  have len: "length (page_tables p) = MAX_BATCH * table_stride p"
    using kv_inv_core [OF inv] by (simp add: kv_core_def)
  have "s * table_stride p + table_stride p \<le> length (page_tables p)"
  proof -
    have "(s + 1) * table_stride p \<le> MAX_BATCH * table_stride p" using s by (intro mult_le_mono1) simp
    then show ?thesis using len by simp
  qed
  moreover have page: "kv_row p s ! ?l = page_tables p ! (s * table_stride p + ?l)"
    using l by (simp add: kv_row_def kv_ent_def)
  moreover have bound: "kv_row p s ! ?l < physical_pages p"
    using set_kv_row [OF inv s] nth_mem [of ?l "kv_row p s"] l by simp
  moreover have "kv_row p s ! ?l \<noteq> UNUSED_PAGE"
    using bound inv by (simp add: kv_inv_def U32_BOUND_def UNUSED_PAGE_def)
  ultimately show "kv_route_of p s i = Inr \<lparr>physical_page = fst (page_coordinate (kv_row p s) i),
    page_offset = snd (page_coordinate (kv_row p s) i)\<rparr>"
    using s i ls
    by (simp add: kv_route_of_def kv_page_table_def kv_require_slot_cases kv_table_row_begin_ok [OF inv s]
        Let_def page_coordinate_def)
  show "fst (page_coordinate (kv_row p s) i) < physical_pages p"
    using bound by (simp add: page_coordinate_def)
qed

lemma kv_route_of_Inr:
  "kv_inv p \<Longrightarrow> kv_route_of p s i = Inr x \<Longrightarrow> s < MAX_BATCH \<and> i < token_counts p ! s"
  by (auto simp: kv_route_of_def kv_require_slot_cases rbind_Inr_iff split: if_splits)

section \<open>Errors that only broken bookkeeping could cause\<close>

text \<open>
  The errors of the two loops and the panics. The public guards never return one of them, and the
  abstract pool has no branch for them.
\<close>

definition kv_internal_error :: "engine_error \<Rightarrow> bool" where
  "kv_internal_error e \<longleftrightarrow> e \<in> {Panicked,
     generation_error ''paged KV free-page accounting disagrees with its owner inventory'',
     generation_error ''paged KV slot table entry has inconsistent ownership'',
     generation_error ''paged KV slot logical page is not assigned'',
     layout_error ''paged KV slot exceeds owner tag width'',
     layout_error ''paged KV page exceeds table entry width'',
     layout_error ''paged KV table row offset overflows''}"

lemma kv_reserve_loop_error:
  "kv_reserve_loop s b x es search p = (Inl e, p') \<Longrightarrow> kv_internal_error e"
  by (induction s b x es search p rule: kv_reserve_loop.induct)
    (auto simp: Let_def kv_internal_error_def split: if_splits)

lemma kv_truncate_loop_error:
  "kv_truncate_loop s b es p = (Inl e, p') \<Longrightarrow> kv_internal_error e"
  by (induction s b es p rule: kv_truncate_loop.induct)
    (auto simp: Let_def kv_internal_error_def split: if_splits)

lemma kv_table_row_begin_error: "kv_table_row_begin p s = Inl e \<Longrightarrow> kv_internal_error e"
  by (auto simp: kv_table_row_begin_def ok_or_def kv_internal_error_def split: option.splits)

lemma kv_internal_Panicked: "kv_internal_error Panicked"
  by (simp add: kv_internal_error_def)

lemmas kv_loop_errors = kv_reserve_loop_error kv_truncate_loop_error kv_table_row_begin_error

lemma kv_reserve_error: "kv_reserve_tokens s n p = (Inl e, p') \<Longrightarrow> p' = p \<or> kv_internal_error e"
  by (auto simp: kv_reserve_tokens_def Let_def dest: kv_loop_errors intro: kv_loop_errors kv_internal_Panicked split: sum.splits if_splits prod.splits)

lemma kv_truncate_error: "kv_truncate_tokens s n p = (Inl e, p') \<Longrightarrow> p' = p \<or> kv_internal_error e"
  by (auto simp: kv_truncate_tokens_def Let_def dest: kv_loop_errors intro: kv_loop_errors kv_internal_Panicked split: sum.splits if_splits prod.splits)

lemma map_sum_Inl_iff: "map_sum id f r = Inl e \<longleftrightarrow> r = Inl e"
  by (cases r) auto

lemma kv_exec_error: "kv_exec op p = (Inl e, p') \<Longrightarrow> p' = p \<or> kv_internal_error e"
  by (cases op)
    (auto simp: map_sum_Inl_iff kv_activate_def kv_retain_def kv_recycle_def apfst_def map_prod_def
      dest: kv_reserve_error kv_truncate_error split: sum.splits if_splits prod.splits kv_slot_state.splits)

lemma sp_exec_error: "sp_exec op a = (Inl e, a') \<Longrightarrow> \<not> kv_internal_error e"
  by (cases op)
    (auto simp: sp_activate_def sp_retain_def sp_reserve_tokens_def sp_truncate_tokens_def sp_recycle_def
      sp_require_slot_def Let_def apfst_def map_prod_def kv_internal_error_def split: if_splits prod.splits sum.splits)

lemma kv_exec_atomic:
  assumes "kv_inv p" and "kv_exec op p = (Inl e, p')"
  shows "p' = p" and "\<not> kv_internal_error e"
proof -
  show "\<not> kv_internal_error e" using sp_exec_error kv_exec_refines(2) [OF assms] by blast
  then show "p' = p" using kv_exec_error [OF assms(2)] by blast
qed

section \<open>Properties\<close>

text \<open>C1: Whatever sequence of calls is made on a pool built by \<open>new_with_limits\<close> (physical pages below
  \<open>2 ^ 32\<close>), every call returns exactly what the abstract pool returns, value or error, and the pool it
  leaves represents the abstract pool: reservations take the lowest-numbered free pages, truncation
  keeps exactly the covering prefix.\<close>

theorem kv_pool_refines_spec:
  assumes "kv_new_with_limits pages stride max_context = Inr p" and "pages < U32_BOUND"
  shows "sp_run ops (sp_new pages max_context) = (fst (kv_run ops p), kv_abs (snd (kv_run ops p)))"
  using kv_run_refines [OF kv_new_with_limits_ok(1) [OF assms], of ops] kv_new_with_limits_ok(2) [OF assms] by simp

theorem kv_pool_refines_spec_witness:
  "sp_run [KvActivate 1, KvReserve 1 300] (sp_new 4 256) =
    (fst (kv_run [KvActivate 1, KvReserve 1 300] kv_small), kv_abs (snd (kv_run [KvActivate 1, KvReserve 1 300] kv_small)))"
proof -
  have "(4::nat) < U32_BOUND" by (simp add: U32_BOUND_def)
  from kv_pool_refines_spec [OF kv_small_new this, of "[KvActivate 1, KvReserve 1 300]"] show ?thesis .
qed

text \<open>C2: In every reachable pool two cached positions never share a physical place: if two routes
  are equal then they are the route of the same position of the same slot.\<close>

theorem kv_routes_never_alias:
  assumes "kv_reachable p" and "kv_route_of p s i = Inr x" and "kv_route_of p t j = Inr x"
  shows "s = t \<and> i = j"
proof -
  have inv: "kv_inv p" by (rule kv_reachable_inv [OF assms(1)])
  note own = kv_route_of_Inr [OF inv assms(2)] kv_route_of_Inr [OF inv assms(3)]
  have "page_coordinate (kv_row p s) i = page_coordinate (kv_row p t) j"
    using own kv_route_of_ok(1) [OF inv, of s i] kv_route_of_ok(1) [OF inv, of t j] assms(2,3)
    by (simp add: prod_eq_iff)
  then show ?thesis using own by (intro kv_rows.coordinate_inject [OF inv]) auto
qed

theorem kv_routes_never_alias_witness:
  "{n. kv_route_of kv_busy 0 n = Inr \<lparr>physical_page = 1, page_offset = 5\<rparr>} = {69}"
proof -
  have route: "kv_route_of kv_busy 0 69 = Inr \<lparr>physical_page = 1, page_offset = 5\<rparr>"
    unfolding kv_busy_def kv_small_def by code_simp
  then show ?thesis using kv_routes_never_alias [OF kv_busy_reachable _ route] by blast
qed

text \<open>In every reachable pool \<open>route\<close> is total and exact: a slot outside 0..8 is a route error, a
  position the slot does not cache is a generation error, and every cached position routes to the page
  of its table row, which is one of the physical pages. The panic and the "is not assigned" branch are
  never taken.\<close>

theorem kv_route_of_reachable:
  assumes "kv_reachable p"
  shows "kv_route_of p s i =
    (if s \<ge> MAX_BATCH then Inl (route_error ''paged KV slot is outside 0..8'')
     else if i \<ge> token_counts p ! s
     then Inl (generation_error ''paged KV slot position is outside its owned tokens'')
     else Inr \<lparr>physical_page = kv_row p s ! (i div ATTENTION_PAGE_SIZE), page_offset = i mod ATTENTION_PAGE_SIZE\<rparr>)
    \<and> (s < MAX_BATCH \<and> i < token_counts p ! s \<longrightarrow> kv_row p s ! (i div ATTENTION_PAGE_SIZE) < physical_pages p)"
proof -
  have inv: "kv_inv p" by (rule kv_reachable_inv [OF assms])
  show ?thesis
    using kv_route_of_ok [OF inv, of s i]
    by (auto simp: page_coordinate_def kv_route_of_def kv_require_slot_cases)
qed

theorem kv_route_of_reachable_witness:
  "kv_route_of kv_busy 3 5 = Inl (generation_error ''paged KV slot position is outside its owned tokens'')"
proof -
  have "token_counts kv_busy ! 3 = 5" unfolding kv_busy_def kv_small_def by code_simp
  then show ?thesis using kv_route_of_reachable [OF kv_busy_reachable, of 3 5] by (simp add: MAX_BATCH_def)
qed

text \<open>C3: A call that returns an error on a reachable pool leaves the pool exactly as it was, and the
  error is one of the caller's mistakes: never a panic, never a disagreement between the free-page
  count, the owner inventory and the page tables.\<close>

theorem kv_failed_call_changes_nothing:
  assumes "kv_reachable p" and "kv_exec op p = (Inl e, p')"
  shows "p' = p \<and> \<not> kv_internal_error e"
  using kv_exec_atomic [OF kv_reachable_inv [OF assms(1)] assms(2)] by blast

theorem kv_failed_call_changes_nothing_witness:
  "kv_exec (KvReserve 3 200) kv_busy =
    (Inl (generation_error ''paged KV slot requires more additional pages than are free''), kv_busy)"
proof -
  have "fst (kv_exec (KvReserve 3 200) kv_busy) =
      Inl (generation_error ''paged KV slot requires more additional pages than are free'')"
    unfolding kv_busy_def kv_small_def by code_simp
  then obtain q where q: "kv_exec (KvReserve 3 200) kv_busy =
      (Inl (generation_error ''paged KV slot requires more additional pages than are free''), q)"
    by (metis prod.collapse)
  from kv_failed_call_changes_nothing [OF kv_busy_reachable q] q show ?thesis by simp
qed

text \<open>C4: Pages are conserved: in every reachable pool the free counter and the slots' page counts add
  up to the physical pages, each slot holds exactly the pages its tokens need, and the cached tokens
  fit in the pages that are not free.\<close>

theorem kv_pages_conserved:
  assumes "kv_reachable p"
  shows "free_pages p + (\<Sum>s<MAX_BATCH. page_counts p ! s) = physical_pages p
    \<and> (\<forall>s<MAX_BATCH. page_counts p ! s = div_ceil (token_counts p ! s) ATTENTION_PAGE_SIZE)
    \<and> (\<Sum>s<MAX_BATCH. token_counts p ! s) \<le> (physical_pages p - free_pages p) * ATTENTION_PAGE_SIZE"
proof -
  have inv: "kv_inv p" by (rule kv_reachable_inv [OF assms])
  show ?thesis
    using kv_rows.free_conserved [OF inv] kv_rows.total_tokens_le [OF inv] kv_inv_slotD(1) [OF inv] by simp
qed

theorem kv_pages_conserved_witness: "free_pages kv_busy = 1 \<and> physical_pages kv_busy = 4 \<and> (\<Sum>s<MAX_BATCH. page_counts kv_busy ! s) = 3"
proof -
  have "free_pages kv_busy = 1 \<and> physical_pages kv_busy = 4" unfolding kv_busy_def kv_small_def by code_simp
  then show ?thesis using kv_pages_conserved [OF kv_busy_reachable] by linarith
qed

text \<open>An admission that is rolled back leaves no trace: a successful \<open>reserve_tokens\<close> followed by
  \<open>truncate_tokens\<close> back to the old token count succeeds, returns exactly the pages that were added,
  and restores the abstract pool: same pages in the same order, same free list, same states.\<close>

theorem kv_reserve_rollback:
  assumes "kv_reachable p" and "kv_reserve_tokens s n p = (Inr u, q)"
  shows "fst (kv_truncate_tokens s (token_counts p ! s) q) = Inr (entry_count u)
    \<and> kv_abs (snd (kv_truncate_tokens s (token_counts p ! s) q)) = kv_abs p"
proof -
  have inv: "kv_inv p" by (rule kv_reachable_inv [OF assms(1)])
  obtain r q' where run: "kv_truncate_tokens s (token_counts p ! s) q = (r, q')" by fastforce
  note res = kv_reserve_tokens_refines [OF inv assms(2)]
  note undo = kv_truncate_tokens_refines [OF res(1) run]
  have s: "s < MAX_BATCH" using res(2) by (auto simp: sp_require_slot_kv_abs sp_reserve_tokens_def split: if_splits)
  note slot = kv_inv_slotD [OF inv s]
  have ab: "states p ! s = Active" "token_counts p ! s \<le> n"
    "kv_abs q = (kv_abs p)\<lparr>sp_slots := (sp_slots (kv_abs p))[s := (kv_slot_abs p s)\<lparr>tok := n,
      pgs := kv_row p s @ take (entry_count u) (sp_free (kv_abs p))\<rparr>]\<rparr>"
    "entry_count u \<le> length (sp_free (kv_abs p))"
    using res(2) s by (auto simp: sp_reserve_tokens_def sp_require_slot_kv_abs Let_def split: if_splits)
  have same: "(kv_slot_abs p s)\<lparr>tok := token_counts p ! s, pgs := kv_row p s\<rparr> = kv_slot_abs p s"
    by (simp add: kv_slot_abs_def)
  show ?thesis
    using undo(2) s ab slot run same
    by (simp add: sp_truncate_tokens_def sp_require_slot_def Let_def kv_abs_slots kv_abs_same_slot)
qed

theorem kv_reserve_rollback_witness:
  "kv_abs (snd (kv_truncate_tokens 3 5 (snd (kv_reserve_tokens 3 100 kv_busy)))) = kv_abs kv_busy"
proof -
  have "fst (kv_reserve_tokens 3 100 kv_busy) = Inr \<lparr>upd_slot = 3, first_entry = 1, entry_count = 1\<rparr>"
    and t: "token_counts kv_busy ! 3 = 5"
    unfolding kv_busy_def kv_small_def by code_simp+
  then obtain q where "kv_reserve_tokens 3 100 kv_busy =
      (Inr \<lparr>upd_slot = 3, first_entry = 1, entry_count = 1\<rparr>, q)"
    by (metis prod.collapse)
  from kv_reserve_rollback [OF kv_busy_reachable this] this t show ?thesis by simp
qed

end
