(* ===== verification/FlashPool.thy ===== *)
theory FlashPool
  imports PagedRows "HOL-Library.Multiset"
begin

text \<open>
  The slot pool of the Qwen3.8 Flash-Next engine:
  \<open>crates/tuisko-engine/src/qwen38_flash_next/slot_lifecycle.rs\<close>. Eight block-table rows draw from a
  stack of free pages; each row carries a committed token count, a sequence epoch that dates the
  recurrent snapshots, and the range of table entries the device copy has not received yet.
\<close>

section \<open>State\<close>

definition FLASH_UNMAPPED_PAGE :: nat where "FLASH_UNMAPPED_PAGE = 4294967295"
definition FLASH_ATTENTION_PAGE_SIZE :: nat where "FLASH_ATTENTION_PAGE_SIZE = 64"
definition FLASH_SLOT_PAGE_TOKENS :: nat where "FLASH_SLOT_PAGE_TOKENS = FLASH_ATTENTION_PAGE_SIZE"
definition FLASH_PHYSICAL_PAGES :: nat where "FLASH_PHYSICAL_PAGES = 262144 div FLASH_ATTENTION_PAGE_SIZE"

datatype flash_slot_state = FlashFree | FlashActive | FlashRetained

record flash_slot =
  fl_state :: flash_slot_state
  fl_sequence :: nat
  fl_pages :: "nat list"
  fl_tokens :: nat
  fl_dirty :: "(nat \<times> nat) option"

definition flash_slot_new :: flash_slot where
  "flash_slot_new = \<lparr>fl_state = FlashFree, fl_sequence = 0, fl_pages = [], fl_tokens = 0, fl_dirty = None\<rparr>"

definition flash_mark :: "nat \<Rightarrow> nat \<Rightarrow> flash_slot \<Rightarrow> flash_slot" where
  "flash_mark a b sl =
    (if a \<ge> b then sl
     else sl\<lparr>fl_dirty := Some (case fl_dirty sl of
       Some (c, d) \<Rightarrow> (min c a, max d b) | None \<Rightarrow> (a, b))\<rparr>)"

record flash_change =
  acquired_pages :: nat
  released_pages :: nat
  change_tokens :: nat

record flash_release =
  rel_released_pages :: nat
  rel_retained_tokens :: nat

record flash_pool =
  fl_free :: "nat list"
  fl_slots :: "flash_slot list"
  fl_table :: "nat list"
  fl_funded :: nat

section \<open>Operations\<close>

definition flash_new :: "nat \<Rightarrow> flash_pool engine_result" where
  "flash_new funded =
    (if funded = 0 then Inl (layout_error ''the Flash-Next slot pool needs at least one funded page'')
     else if funded > MAX_BATCH * FLASH_PHYSICAL_PAGES
     then Inl (layout_error ''the Flash-Next slot pool was funded more pages than the block table can address'')
     else Inr \<lparr>fl_free = rev [0..<funded], fl_slots = replicate MAX_BATCH flash_slot_new,
               fl_table = replicate (MAX_BATCH * FLASH_PHYSICAL_PAGES) FLASH_UNMAPPED_PAGE,
               fl_funded = funded\<rparr>)"

definition flash_require_slot :: "nat \<Rightarrow> unit engine_result" where
  "flash_require_slot slot =
    (if slot \<ge> MAX_BATCH then Inl (route_error ''Flash-Next slot is outside 0..8'') else Inr ())"

definition flash_slot_of :: "flash_pool \<Rightarrow> nat \<Rightarrow> flash_slot engine_result" where
  "flash_slot_of p slot =
    (if slot < length (fl_slots p) then Inr (fl_slots p ! slot)
     else Inl (route_error ''Flash-Next slot is outside 0..8''))"

definition flash_free_pages :: "flash_pool \<Rightarrow> nat" where
  "flash_free_pages p = length (fl_free p)"

definition flash_allocated_pages :: "flash_pool \<Rightarrow> nat" where
  "flash_allocated_pages p = fl_funded p - length (fl_free p)"

definition flash_reachable_tokens :: "flash_pool \<Rightarrow> nat \<Rightarrow> nat engine_result" where
  "flash_reachable_tokens p slot = rbind (flash_slot_of p slot) (\<lambda>sl.
    Inr (min FLASH_PHYSICAL_PAGES (length (fl_pages sl) + length (fl_free p)) * FLASH_SLOT_PAGE_TOKENS))"

definition flash_state :: "flash_pool \<Rightarrow> nat \<Rightarrow> flash_slot_state engine_result" where
  "flash_state p slot = rbind (flash_slot_of p slot) (\<lambda>sl. Inr (fl_state sl))"

definition flash_tokens :: "flash_pool \<Rightarrow> nat \<Rightarrow> nat engine_result" where
  "flash_tokens p slot = rbind (flash_slot_of p slot) (\<lambda>sl. Inr (fl_tokens sl))"

definition flash_pages :: "flash_pool \<Rightarrow> nat \<Rightarrow> nat list engine_result" where
  "flash_pages p slot = rbind (flash_slot_of p slot) (\<lambda>sl. Inr (fl_pages sl))"

definition flash_table_row :: "flash_pool \<Rightarrow> nat \<Rightarrow> nat list engine_result" where
  "flash_table_row p slot = rbind (flash_require_slot slot) (\<lambda>_.
    let begin = slot * FLASH_PHYSICAL_PAGES in
    if begin + FLASH_PHYSICAL_PAGES > length (fl_table p) then Inl Panicked
    else Inr (take FLASH_PHYSICAL_PAGES (drop begin (fl_table p))))"

definition flash_dirty_range :: "flash_pool \<Rightarrow> nat \<Rightarrow> (nat \<times> nat) option engine_result" where
  "flash_dirty_range p slot = rbind (flash_require_slot slot) (\<lambda>_. Inr (fl_dirty (fl_slots p ! slot)))"

definition flash_sequence :: "flash_pool \<Rightarrow> nat \<Rightarrow> nat engine_result" where
  "flash_sequence p slot = rbind (flash_slot_of p slot) (\<lambda>sl. Inr (fl_sequence sl))"

definition flash_has_dirty :: "flash_pool \<Rightarrow> bool" where
  "flash_has_dirty p = list_ex (\<lambda>sl. fl_dirty sl \<noteq> None) (fl_slots p)"

definition flash_reusable_prefix :: "nat list \<Rightarrow> nat list \<Rightarrow> nat" where
  "flash_reusable_prefix committed prompt = length (takeWhile (\<lambda>(l, r). l = r) (zip committed prompt))"

definition pages_for :: "nat \<Rightarrow> nat engine_result" where
  "pages_for tokens =
    ok_or (map_option (\<lambda>rounded. rounded div FLASH_SLOT_PAGE_TOKENS)
             (checked_add tokens (FLASH_SLOT_PAGE_TOKENS - 1)))
      (route_error ''a Flash-Next page count overflows its token count'')"

text \<open>\<open>self.slots[slot].field = ...\<close>\<close>

definition fl_upd :: "nat \<Rightarrow> (flash_slot \<Rightarrow> flash_slot) \<Rightarrow> flash_pool \<Rightarrow> flash_pool" where
  "fl_upd slot f p = p\<lparr>fl_slots := (fl_slots p)[slot := f (fl_slots p ! slot)]\<rparr>"

definition flash_advance_sequence :: "nat \<Rightarrow> flash_pool \<Rightarrow> unit engine_result \<times> flash_pool" where
  "flash_advance_sequence slot p =
    (case checked_add (fl_sequence (fl_slots p ! slot)) 1 of
       None \<Rightarrow> (Inl (layout_error ''Flash-Next slot sequence epoch overflowed''), p)
     | Some n \<Rightarrow> (Inr (), fl_upd slot (\<lambda>sl. sl\<lparr>fl_sequence := n\<rparr>) p))"

text \<open>The loop \<open>for logical in owned..needed\<close> of \<open>reserve\<close>; \<open>free.pop()\<close> takes the last element.\<close>

fun flash_acquire_loop :: "nat \<Rightarrow> nat list \<Rightarrow> flash_pool \<Rightarrow> unit engine_result \<times> flash_pool" where
  "flash_acquire_loop slot [] p = (Inr (), p)"
| "flash_acquire_loop slot (logical # ls) p =
    (if fl_free p = [] then (Inl (layout_error ''the Flash-Next page pool underflowed''), p)
     else
       let page = last (fl_free p);
           p = fl_upd slot (\<lambda>sl. sl\<lparr>fl_pages := fl_pages sl @ [page]\<rparr>) (p\<lparr>fl_free := butlast (fl_free p)\<rparr>);
           index = slot * FLASH_PHYSICAL_PAGES + logical
       in if index \<ge> length (fl_table p) then (Inl Panicked, p)
          else flash_acquire_loop slot ls (p\<lparr>fl_table := (fl_table p)[index := page]\<rparr>))"

definition flash_reserve :: "nat \<Rightarrow> nat \<Rightarrow> flash_pool \<Rightarrow> flash_change engine_result \<times> flash_pool" where
  "flash_reserve slot tokens p =
    (case flash_require_slot slot of Inl e \<Rightarrow> (Inl e, p) | Inr _ \<Rightarrow>
      if tokens < fl_tokens (fl_slots p ! slot)
      then (Inl (route_error ''Flash-Next slot cannot reserve below its committed tokens''), p)
      else
       (case pages_for tokens of Inl e \<Rightarrow> (Inl e, p) | Inr needed \<Rightarrow>
         if needed > FLASH_PHYSICAL_PAGES
         then (Inl (route_error ''a Flash-Next slot reservation needs more pages than one block-table row addresses''), p)
         else
          let owned = length (fl_pages (fl_slots p ! slot)) in
          if needed > owned + length (fl_free p)
          then (Inl (capacity_error ''the request is refused rather than served short''), p)
          else
           (case (if fl_state (fl_slots p ! slot) = FlashFree then flash_advance_sequence slot p else (Inr (), p)) of
              (Inl e, p) \<Rightarrow> (Inl e, p)
            | (Inr _, p) \<Rightarrow>
               let acquired = needed - owned in
               (case flash_acquire_loop slot [owned..<needed] p of
                  (Inl e, p) \<Rightarrow> (Inl e, p)
                | (Inr _, p) \<Rightarrow>
                   let p = (if acquired \<noteq> 0 then fl_upd slot (flash_mark owned needed) p else p);
                       p = fl_upd slot (\<lambda>sl. sl\<lparr>fl_state := FlashActive\<rparr>) p
                   in (Inr \<lparr>acquired_pages = acquired, released_pages = 0,
                            change_tokens = fl_tokens (fl_slots p ! slot)\<rparr>, p)))))"

definition flash_commit :: "nat \<Rightarrow> nat \<Rightarrow> flash_pool \<Rightarrow> unit engine_result \<times> flash_pool" where
  "flash_commit slot tokens p =
    (case flash_require_slot slot of Inl e \<Rightarrow> (Inl e, p) | Inr _ \<Rightarrow>
      if fl_state (fl_slots p ! slot) \<noteq> FlashActive
      then (Inl (route_error ''Flash-Next slot cannot commit while not active''), p)
      else if tokens < fl_tokens (fl_slots p ! slot)
      then (Inl (route_error ''Flash-Next slot cannot commit tokens below its existing''), p)
      else if tokens > length (fl_pages (fl_slots p ! slot)) * FLASH_SLOT_PAGE_TOKENS
      then (Inl (route_error ''a round would have attended through an unmapped page''), p)
      else (Inr (), fl_upd slot (\<lambda>sl. sl\<lparr>fl_tokens := tokens, fl_state := FlashActive\<rparr>) p))"

text \<open>The loop \<open>for logical in (a..owned).rev()\<close> of \<open>truncate_mapping\<close> and of \<open>truncate_to_zero\<close>.\<close>

fun flash_release_loop :: "nat \<Rightarrow> nat list \<Rightarrow> flash_pool \<Rightarrow> unit engine_result \<times> flash_pool" where
  "flash_release_loop slot [] p = (Inr (), p)"
| "flash_release_loop slot (logical # ls) p =
    (let pages = fl_pages (fl_slots p ! slot) in
     if pages = [] then (Inl (layout_error ''the Flash-Next page pool underflowed''), p)
     else
       let page = last pages;
           p = fl_upd slot (\<lambda>sl. sl\<lparr>fl_pages := butlast pages\<rparr>) p;
           index = slot * FLASH_PHYSICAL_PAGES + logical
       in if index \<ge> length (fl_table p) then (Inl Panicked, p)
          else flash_release_loop slot ls
                 (p\<lparr>fl_table := (fl_table p)[index := FLASH_UNMAPPED_PAGE], fl_free := fl_free p @ [page]\<rparr>))"

definition flash_truncate_mapping ::
  "nat \<Rightarrow> nat \<Rightarrow> nat \<Rightarrow> nat \<Rightarrow> flash_pool \<Rightarrow> flash_change engine_result \<times> flash_pool" where
  "flash_truncate_mapping slot tokens needed owned p =
    (let released = owned - needed in
     case flash_release_loop slot (rev [needed..<owned]) p of
       (Inl e, p) \<Rightarrow> (Inl e, p)
     | (Inr _, p) \<Rightarrow>
        let p = (if released \<noteq> 0 then fl_upd slot (flash_mark needed owned) p else p)
        in (Inr \<lparr>acquired_pages = 0, released_pages = released, change_tokens = tokens\<rparr>,
            fl_upd slot (\<lambda>sl. sl\<lparr>fl_tokens := tokens\<rparr>) p))"

definition flash_truncate :: "nat \<Rightarrow> nat \<Rightarrow> flash_pool \<Rightarrow> flash_change engine_result \<times> flash_pool" where
  "flash_truncate slot tokens p =
    (case flash_require_slot slot of Inl e \<Rightarrow> (Inl e, p) | Inr _ \<Rightarrow>
      if tokens > fl_tokens (fl_slots p ! slot)
      then (Inl (route_error ''Flash-Next slot cannot truncate, which would extend rather than roll back''), p)
      else
       (case pages_for tokens of Inl e \<Rightarrow> (Inl e, p) | Inr needed \<Rightarrow>
         let owned = length (fl_pages (fl_slots p ! slot)) in
         (case (if tokens < fl_tokens (fl_slots p ! slot) then flash_advance_sequence slot p else (Inr (), p)) of
            (Inl e, p) \<Rightarrow> (Inl e, p)
          | (Inr _, p) \<Rightarrow> flash_truncate_mapping slot tokens needed owned p)))"

definition flash_rollback :: "nat \<Rightarrow> nat \<Rightarrow> flash_pool \<Rightarrow> flash_change engine_result \<times> flash_pool" where
  "flash_rollback slot tokens p =
    (case flash_require_slot slot of Inl e \<Rightarrow> (Inl e, p) | Inr _ \<Rightarrow>
      if tokens > fl_tokens (fl_slots p ! slot)
      then (Inl (route_error ''Flash-Next slot cannot roll back''), p)
      else
       (case pages_for tokens of Inl e \<Rightarrow> (Inl e, p) | Inr needed \<Rightarrow>
         flash_truncate_mapping slot tokens needed (length (fl_pages (fl_slots p ! slot))) p))"

definition flash_retain :: "nat \<Rightarrow> flash_pool \<Rightarrow> nat engine_result \<times> flash_pool" where
  "flash_retain slot p =
    (case flash_require_slot slot of Inl e \<Rightarrow> (Inl e, p) | Inr _ \<Rightarrow>
      if fl_tokens (fl_slots p ! slot) = 0
      then (Inl (route_error ''Flash-Next slot has no committed tokens to retain''), p)
      else (Inr (fl_tokens (fl_slots p ! slot)), fl_upd slot (\<lambda>sl. sl\<lparr>fl_state := FlashRetained\<rparr>) p))"

definition flash_restart :: "nat \<Rightarrow> flash_pool \<Rightarrow> nat engine_result \<times> flash_pool" where
  "flash_restart slot p =
    (case flash_require_slot slot of Inl e \<Rightarrow> (Inl e, p) | Inr _ \<Rightarrow>
      let tokens = fl_tokens (fl_slots p ! slot) in
      (case (if fl_state (fl_slots p ! slot) \<noteq> FlashFree
             then (case flash_advance_sequence slot p of
                     (Inl e, p) \<Rightarrow> (Inl e, p)
                   | (Inr _, p) \<Rightarrow> (Inr (), fl_upd slot (\<lambda>sl. sl\<lparr>fl_state := FlashActive\<rparr>) p))
             else (Inr (), p)) of
         (Inl e, p) \<Rightarrow> (Inl e, p)
       | (Inr _, p) \<Rightarrow> (Inr tokens, fl_upd slot (\<lambda>sl. sl\<lparr>fl_tokens := 0\<rparr>) p)))"

definition flash_truncate_to_zero :: "nat \<Rightarrow> flash_pool \<Rightarrow> nat engine_result \<times> flash_pool" where
  "flash_truncate_to_zero slot p =
    (let p = fl_upd slot (\<lambda>sl. sl\<lparr>fl_tokens := 0\<rparr>) p;
         owned = length (fl_pages (fl_slots p ! slot))
     in case flash_release_loop slot (rev [0..<owned]) p of
          (Inl e, p) \<Rightarrow> (Inl e, p)
        | (Inr _, p) \<Rightarrow> (Inr owned, if owned \<noteq> 0 then fl_upd slot (flash_mark 0 owned) p else p))"

definition flash_recycle :: "nat \<Rightarrow> flash_pool \<Rightarrow> flash_release engine_result \<times> flash_pool" where
  "flash_recycle slot p =
    (case flash_require_slot slot of Inl e \<Rightarrow> (Inl e, p) | Inr _ \<Rightarrow>
      let retained = (case fl_state (fl_slots p ! slot) of
                        FlashRetained \<Rightarrow> fl_tokens (fl_slots p ! slot) | FlashActive \<Rightarrow> 0 | FlashFree \<Rightarrow> 0)
      in (case (if fl_state (fl_slots p ! slot) \<noteq> FlashFree then flash_advance_sequence slot p else (Inr (), p)) of
            (Inl e, p) \<Rightarrow> (Inl e, p)
          | (Inr _, p) \<Rightarrow>
             let owned = length (fl_pages (fl_slots p ! slot)) in
             (case flash_truncate_to_zero slot p of
                (Inl e, p) \<Rightarrow> (Inl e, p)
              | (Inr released, p) \<Rightarrow>
                 if released \<noteq> owned then (Inl Panicked, p)
                 else (Inr \<lparr>rel_released_pages = released, rel_retained_tokens = retained\<rparr>,
                       fl_upd slot (\<lambda>sl. sl\<lparr>fl_state := FlashFree\<rparr>) p))))"

definition flash_clear_dirty :: "nat \<Rightarrow> flash_pool \<Rightarrow> unit engine_result \<times> flash_pool" where
  "flash_clear_dirty slot p =
    (case flash_require_slot slot of Inl e \<Rightarrow> (Inl e, p) | Inr _ \<Rightarrow>
      (Inr (), fl_upd slot (\<lambda>sl. sl\<lparr>fl_dirty := None\<rparr>) p))"

text \<open>The loop \<open>for slot in 0..MAX_BATCH\<close> of \<open>reset\<close>.\<close>

fun flash_reset_loop :: "nat list \<Rightarrow> flash_pool \<Rightarrow> unit engine_result \<times> flash_pool" where
  "flash_reset_loop [] p = (Inr (), p)"
| "flash_reset_loop (slot # ss) p =
    (let p = (if fl_state (fl_slots p ! slot) \<noteq> FlashFree
              then fl_upd slot (\<lambda>sl. sl\<lparr>fl_sequence := fl_sequence sl + 1\<rparr>) p else p)
     in case flash_truncate_to_zero slot p of
          (Inl e, p) \<Rightarrow> (Inl e, p)
        | (Inr _, p) \<Rightarrow> flash_reset_loop ss (fl_upd slot (\<lambda>sl. sl\<lparr>fl_state := FlashFree\<rparr>) p))"

definition flash_reset :: "flash_pool \<Rightarrow> unit engine_result \<times> flash_pool" where
  "flash_reset p =
    (if list_ex (\<lambda>sl. fl_state sl \<noteq> FlashFree \<and> fl_sequence sl = U64_BOUND - 1) (fl_slots p)
     then (Inl (layout_error ''a Flash-Next slot sequence epoch overflowed''), p)
     else
      (case flash_reset_loop [0..<MAX_BATCH] p of
         (Inl e, p) \<Rightarrow> (Inl e, p)
       | (Inr _, p) \<Rightarrow>
          (Inr (), p\<lparr>fl_free := rev [0..<fl_funded p],
                     fl_table := replicate (length (fl_table p)) FLASH_UNMAPPED_PAGE,
                     fl_slots := map (\<lambda>sl. sl\<lparr>fl_dirty := Some (0, FLASH_PHYSICAL_PAGES)\<rparr>) (fl_slots p)\<rparr>)))"

section \<open>Uploading the block table\<close>

text \<open>
  \<open>flush_block_tables\<close> of \<open>qwen38_flash_next/resident_model.rs\<close>: the dirty range of every row is
  copied to the device table \<open>dev\<close>. The copy is queued by the CUDA driver; \<open>copy\<close> is the driver's
  answer for one slot: \<open>None\<close> accepts the copy, \<open>Some e\<close> refuses it and writes nothing.
\<close>

fun flash_flush_loop ::
  "(nat \<Rightarrow> gpu_error option) \<Rightarrow> nat list \<Rightarrow> flash_pool \<Rightarrow> nat list \<Rightarrow> unit engine_result \<times> flash_pool \<times> nat list" where
  "flash_flush_loop copy [] p dev = (Inr (), p, dev)"
| "flash_flush_loop copy (slot # ss) p dev =
    (case flash_dirty_range p slot of
       Inl e \<Rightarrow> (Inl e, p, dev)
     | Inr None \<Rightarrow> flash_flush_loop copy ss p dev
     | Inr (Some (a, b)) \<Rightarrow>
        (case flash_table_row p slot of
           Inl e \<Rightarrow> (Inl e, p, dev)
         | Inr row \<Rightarrow>
            if a > b \<or> b > length row
            then (Inl (layout_error ''a Flash-Next block-table flush named entries outside its row''), p, dev)
            else
             (case copy slot of
                Some e \<Rightarrow> (Inl (Gpu e), p, dev)
              | None \<Rightarrow>
                 let dev = list_write (slot * FLASH_PHYSICAL_PAGES + a) (drop a (take b row)) dev in
                 (case flash_clear_dirty slot p of
                    (Inl e, p) \<Rightarrow> (Inl e, p, dev)
                  | (Inr _, p) \<Rightarrow> flash_flush_loop copy ss p dev))))"

definition flash_flush_block_tables ::
  "(nat \<Rightarrow> gpu_error option) \<Rightarrow> flash_pool \<Rightarrow> nat list \<Rightarrow> unit engine_result \<times> flash_pool \<times> nat list" where
  "flash_flush_block_tables copy p dev =
    (if \<not> flash_has_dirty p then (Inr (), p, dev)
     else flash_flush_loop copy [0..<MAX_BATCH] p dev)"

end
