(* ===== verification/FlashSpec.thy ===== *)
theory FlashSpec
  imports FlashPool
begin

text \<open>
  The contract of \<open>Qwen38FlashNextSlotPool\<close>. The abstract operations work on the free stack and one
  slot at a time, without loops and without the block table; under the invariant every operation of
  the code equals its abstract counterpart, the block table being the rows of the slots' page lists.
\<close>

section \<open>Abstract operations\<close>

definition fs_bump :: "flash_slot \<Rightarrow> flash_slot engine_result" where
  "fs_bump sl =
    (if fl_sequence sl + 1 < U64_BOUND then Inr (sl\<lparr>fl_sequence := fl_sequence sl + 1\<rparr>)
     else Inl (layout_error ''Flash-Next slot sequence epoch overflowed''))"

text \<open>Moving pages between the free stack and a slot: the top of the stack is its last element.\<close>

definition fs_take :: "nat \<Rightarrow> nat list \<Rightarrow> flash_slot \<Rightarrow> nat list \<times> flash_slot" where
  "fs_take k f sl =
    (take (length f - k) f,
     (if k = 0 then sl else flash_mark (length (fl_pages sl)) (length (fl_pages sl) + k) sl)
       \<lparr>fl_pages := fl_pages sl @ take k (rev f)\<rparr>)"

definition fs_keep :: "nat \<Rightarrow> nat list \<Rightarrow> flash_slot \<Rightarrow> nat list \<times> flash_slot" where
  "fs_keep k f sl =
    (f @ rev (drop k (fl_pages sl)),
     (if length (fl_pages sl) \<le> k then sl else flash_mark k (length (fl_pages sl)) sl)
       \<lparr>fl_pages := take k (fl_pages sl)\<rparr>)"

type_synonym 'a fs_result = "'a engine_result \<times> nat list \<times> flash_slot"

definition fs_pages_needed :: "nat \<Rightarrow> nat engine_result" where
  "fs_pages_needed n =
    (if n + 63 < U64_BOUND then Inr (div_ceil n ATTENTION_PAGE_SIZE)
     else Inl (route_error ''a Flash-Next page count overflows its token count''))"

definition fs_reserve :: "nat \<Rightarrow> nat list \<Rightarrow> flash_slot \<Rightarrow> flash_change fs_result" where
  "fs_reserve n f sl =
    (if n < fl_tokens sl
     then (Inl (route_error ''Flash-Next slot cannot reserve below its committed tokens''), f, sl)
     else case fs_pages_needed n of Inl e \<Rightarrow> (Inl e, f, sl) | Inr needed \<Rightarrow>
      if needed > FLASH_PHYSICAL_PAGES
      then (Inl (route_error ''a Flash-Next slot reservation needs more pages than one block-table row addresses''), f, sl)
      else if needed > length (fl_pages sl) + length f
      then (Inl (capacity_error ''the request is refused rather than served short''), f, sl)
      else case (if fl_state sl = FlashFree then fs_bump sl else Inr sl) of
        Inl e \<Rightarrow> (Inl e, f, sl)
      | Inr sl1 \<Rightarrow>
        let k = needed - length (fl_pages sl); (f', sl') = fs_take k f sl1
        in (Inr \<lparr>acquired_pages = k, released_pages = 0, change_tokens = fl_tokens sl\<rparr>,
            f', sl'\<lparr>fl_state := FlashActive\<rparr>))"

definition fs_commit :: "nat \<Rightarrow> nat list \<Rightarrow> flash_slot \<Rightarrow> unit fs_result" where
  "fs_commit n f sl =
    (if fl_state sl \<noteq> FlashActive
     then (Inl (route_error ''Flash-Next slot cannot commit while not active''), f, sl)
     else if n < fl_tokens sl
     then (Inl (route_error ''Flash-Next slot cannot commit tokens below its existing''), f, sl)
     else if n > length (fl_pages sl) * ATTENTION_PAGE_SIZE
     then (Inl (route_error ''a round would have attended through an unmapped page''), f, sl)
     else (Inr (), f, sl\<lparr>fl_tokens := n, fl_state := FlashActive\<rparr>))"

definition fs_cut :: "nat \<Rightarrow> nat list \<Rightarrow> flash_slot \<Rightarrow> flash_change fs_result" where
  "fs_cut n f sl =
    (let needed = div_ceil n ATTENTION_PAGE_SIZE; (f', sl') = fs_keep needed f sl
     in (Inr \<lparr>acquired_pages = 0, released_pages = length (fl_pages sl) - needed, change_tokens = n\<rparr>,
         f', sl'\<lparr>fl_tokens := n\<rparr>))"

definition fs_truncate :: "nat \<Rightarrow> nat list \<Rightarrow> flash_slot \<Rightarrow> flash_change fs_result" where
  "fs_truncate n f sl =
    (if n > fl_tokens sl
     then (Inl (route_error ''Flash-Next slot cannot truncate, which would extend rather than roll back''), f, sl)
     else case (if n < fl_tokens sl then fs_bump sl else Inr sl) of
       Inl e \<Rightarrow> (Inl e, f, sl) | Inr sl1 \<Rightarrow> fs_cut n f sl1)"

definition fs_rollback :: "nat \<Rightarrow> nat list \<Rightarrow> flash_slot \<Rightarrow> flash_change fs_result" where
  "fs_rollback n f sl =
    (if n > fl_tokens sl then (Inl (route_error ''Flash-Next slot cannot roll back''), f, sl)
     else fs_cut n f sl)"

definition fs_retain :: "nat list \<Rightarrow> flash_slot \<Rightarrow> nat fs_result" where
  "fs_retain f sl =
    (if fl_tokens sl = 0
     then (Inl (route_error ''Flash-Next slot has no committed tokens to retain''), f, sl)
     else (Inr (fl_tokens sl), f, sl\<lparr>fl_state := FlashRetained\<rparr>))"

definition fs_restart :: "nat list \<Rightarrow> flash_slot \<Rightarrow> nat fs_result" where
  "fs_restart f sl =
    (if fl_state sl = FlashFree then (Inr 0, f, sl)
     else case fs_bump sl of Inl e \<Rightarrow> (Inl e, f, sl)
       | Inr sl1 \<Rightarrow> (Inr (fl_tokens sl), f, sl1\<lparr>fl_state := FlashActive, fl_tokens := 0\<rparr>))"

definition fs_recycle :: "nat list \<Rightarrow> flash_slot \<Rightarrow> flash_release fs_result" where
  "fs_recycle f sl =
    (if fl_state sl = FlashFree then (Inr \<lparr>rel_released_pages = 0, rel_retained_tokens = 0\<rparr>, f, sl)
     else case fs_bump sl of Inl e \<Rightarrow> (Inl e, f, sl)
       | Inr sl1 \<Rightarrow>
          let (f', sl') = fs_keep 0 f sl1
          in (Inr \<lparr>rel_released_pages = length (fl_pages sl),
                   rel_retained_tokens = (if fl_state sl = FlashRetained then fl_tokens sl else 0)\<rparr>,
              f', sl'\<lparr>fl_tokens := 0, fl_state := FlashFree\<rparr>))"

definition fs_clear_dirty :: "nat list \<Rightarrow> flash_slot \<Rightarrow> unit fs_result" where
  "fs_clear_dirty f sl = (Inr (), f, sl\<lparr>fl_dirty := None\<rparr>)"

section \<open>Abstraction and invariant\<close>

definition fl_row_of :: "flash_slot \<Rightarrow> nat list" where
  "fl_row_of sl = fl_pages sl @ replicate (FLASH_PHYSICAL_PAGES - length (fl_pages sl)) FLASH_UNMAPPED_PAGE"

definition fl_put :: "nat \<Rightarrow> nat list \<Rightarrow> flash_slot \<Rightarrow> flash_pool \<Rightarrow> flash_pool" where
  "fl_put s f sl p = p\<lparr>fl_free := f, fl_slots := (fl_slots p)[s := sl],
    fl_table := list_write (s * FLASH_PHYSICAL_PAGES) (fl_row_of sl) (fl_table p)\<rparr>"

definition fs_lift ::
  "nat \<Rightarrow> (nat list \<Rightarrow> flash_slot \<Rightarrow> 'a fs_result) \<Rightarrow> flash_pool \<Rightarrow> 'a engine_result \<times> flash_pool" where
  "fs_lift s f p =
    (if s \<ge> MAX_BATCH then (Inl (route_error ''Flash-Next slot is outside 0..8''), p)
     else case f (fl_free p) (fl_slots p ! s) of (r, g, sl) \<Rightarrow> (r, fl_put s g sl p))"

definition fl_slot_ok :: "flash_slot \<Rightarrow> bool" where
  "fl_slot_ok sl \<longleftrightarrow>
    length (fl_pages sl) \<le> FLASH_PHYSICAL_PAGES \<and>
    fl_tokens sl \<le> length (fl_pages sl) * ATTENTION_PAGE_SIZE \<and>
    (fl_state sl = FlashFree \<longrightarrow> fl_pages sl = []) \<and>
    fl_sequence sl < U64_BOUND \<and>
    (\<forall>a b. fl_dirty sl = Some (a, b) \<longrightarrow> a < b \<and> b \<le> FLASH_PHYSICAL_PAGES)"

definition flash_inv :: "flash_pool \<Rightarrow> bool" where
  "flash_inv p \<longleftrightarrow>
    length (fl_slots p) = MAX_BATCH \<and> length (fl_table p) = MAX_BATCH * FLASH_PHYSICAL_PAGES \<and>
    fl_funded p \<le> MAX_BATCH * FLASH_PHYSICAL_PAGES \<and>
    mset (fl_free p) + (\<Sum>s<MAX_BATCH. mset (fl_pages (fl_slots p ! s))) = mset [0..<fl_funded p] \<and>
    (\<forall>s<MAX_BATCH. fl_slot_ok (fl_slots p ! s)) \<and>
    (\<forall>s<MAX_BATCH. \<forall>e<FLASH_PHYSICAL_PAGES.
      fl_table p ! (s * FLASH_PHYSICAL_PAGES + e) = fl_row_of (fl_slots p ! s) ! e)"

lemma fl_slot_ok_len: "fl_slot_ok sl \<Longrightarrow> length (fl_pages sl) \<le> FLASH_PHYSICAL_PAGES"
  by (simp add: fl_slot_ok_def)

lemma length_fl_row_of: "fl_slot_ok sl \<Longrightarrow> length (fl_row_of sl) = FLASH_PHYSICAL_PAGES"
  by (simp add: fl_row_of_def fl_slot_ok_def)

lemma flash_invD:
  assumes "flash_inv p"
  shows "length (fl_slots p) = MAX_BATCH" "length (fl_table p) = MAX_BATCH * FLASH_PHYSICAL_PAGES"
    "s < MAX_BATCH \<Longrightarrow> fl_slot_ok (fl_slots p ! s)"
    "s < MAX_BATCH \<Longrightarrow> e < FLASH_PHYSICAL_PAGES \<Longrightarrow>
      fl_table p ! (s * FLASH_PHYSICAL_PAGES + e) = fl_row_of (fl_slots p ! s) ! e"
  using assms by (simp_all add: flash_inv_def)

lemma fl_row_end: "s < MAX_BATCH \<Longrightarrow> s * FLASH_PHYSICAL_PAGES + FLASH_PHYSICAL_PAGES \<le> MAX_BATCH * FLASH_PHYSICAL_PAGES"
proof -
  assume "s < MAX_BATCH"
  then have "(s + 1) * FLASH_PHYSICAL_PAGES \<le> MAX_BATCH * FLASH_PHYSICAL_PAGES" by (intro mult_le_mono1) simp
  then show ?thesis by simp
qed

lemma fl_put_table:
  assumes len: "length (fl_table p) = MAX_BATCH * FLASH_PHYSICAL_PAGES" and s: "s < MAX_BATCH" and ok: "fl_slot_ok sl"
    and t: "t < MAX_BATCH" and e: "e < FLASH_PHYSICAL_PAGES"
  shows "fl_table (fl_put s f sl p) ! (t * FLASH_PHYSICAL_PAGES + e) =
    (if t = s then fl_row_of sl ! e else fl_table p ! (t * FLASH_PHYSICAL_PAGES + e))"
proof -
  let ?k = FLASH_PHYSICAL_PAGES
  have row: "length (fl_row_of sl) = ?k" by (rule length_fl_row_of [OF ok])
  have "s * ?k \<le> t * ?k + e \<and> t * ?k + e < s * ?k + ?k \<longleftrightarrow> t = s"
  proof
    assume b: "s * ?k \<le> t * ?k + e \<and> t * ?k + e < s * ?k + ?k"
    then obtain d where d: "t * ?k + e = s * ?k + d" "d < ?k" by (metis le_Suc_ex add_less_cancel_left)
    then show "t = s" using row_index_inject [OF e d(2), of t s] by simp
  qed (use e in auto)
  then show ?thesis
    using len row fl_row_end [OF s] row_index_bound [OF t e]
    by (auto simp: fl_put_def nth_list_write)
qed

lemma flash_inv_put:
  assumes inv: "flash_inv p" and s: "s < MAX_BATCH" and ok: "fl_slot_ok sl"
    and m: "mset f + mset (fl_pages sl) = mset (fl_free p) + mset (fl_pages (fl_slots p ! s))"
  shows "flash_inv (fl_put s f sl p)"
proof -
  note i = flash_invD [OF inv]
  have slots: "fl_slots (fl_put s f sl p) ! t = (if t = s then sl else fl_slots p ! t)" if "t < MAX_BATCH" for t
    using that i(1) by (simp add: fl_put_def nth_list_update)
  let ?rest = "\<Sum>t\<in>{..<MAX_BATCH} - {s}. mset (fl_pages (fl_slots p ! t))"
  have "(\<Sum>t<MAX_BATCH. mset (fl_pages (fl_slots (fl_put s f sl p) ! t))) =
      mset (fl_pages (fl_slots (fl_put s f sl p) ! s)) + (\<Sum>t\<in>{..<MAX_BATCH} - {s}. mset (fl_pages (fl_slots (fl_put s f sl p) ! t)))"
    using s by (intro sum.remove) auto
  also have "\<dots> = mset (fl_pages sl) + ?rest" using s by (simp add: slots)
  finally have new: "(\<Sum>t<MAX_BATCH. mset (fl_pages (fl_slots (fl_put s f sl p) ! t))) = mset (fl_pages sl) + ?rest" .
  have old: "(\<Sum>t<MAX_BATCH. mset (fl_pages (fl_slots p ! t))) = mset (fl_pages (fl_slots p ! s)) + ?rest"
    using s by (intro sum.remove) auto
  have "mset f + (mset (fl_pages sl) + ?rest) = mset (fl_free p) + (mset (fl_pages (fl_slots p ! s)) + ?rest)"
    using m by (metis add.assoc)
  then have count: "mset (fl_free (fl_put s f sl p)) + (\<Sum>t<MAX_BATCH. mset (fl_pages (fl_slots (fl_put s f sl p) ! t))) =
      mset [0..<fl_funded p]"
    using inv unfolding flash_inv_def new old by (simp add: fl_put_def)
  have "length (fl_table (fl_put s f sl p)) = MAX_BATCH * FLASH_PHYSICAL_PAGES"
    using i(2) length_fl_row_of [OF ok] fl_row_end [OF s] by (simp add: fl_put_def)
  moreover have "length (fl_slots (fl_put s f sl p)) = MAX_BATCH" "fl_funded (fl_put s f sl p) = fl_funded p"
    using i(1) by (simp_all add: fl_put_def)
  ultimately show ?thesis
    using count inv ok i(4) fl_put_table [OF i(2) s ok] unfolding flash_inv_def by (simp add: slots)
qed

lemma fl_put_same:
  assumes inv: "flash_inv p" and s: "s < MAX_BATCH"
  shows "fl_put s (fl_free p) (fl_slots p ! s) p = p"
proof -
  note i = flash_invD [OF inv]
  have "list_write (s * FLASH_PHYSICAL_PAGES) (fl_row_of (fl_slots p ! s)) (fl_table p) = fl_table p"
  proof (rule nth_equalityI)
    show "length (list_write (s * FLASH_PHYSICAL_PAGES) (fl_row_of (fl_slots p ! s)) (fl_table p)) = length (fl_table p)"
      using i(2) length_fl_row_of [OF i(3) [OF s]] fl_row_end [OF s] by simp
  next
    fix k assume "k < length (list_write (s * FLASH_PHYSICAL_PAGES) (fl_row_of (fl_slots p ! s)) (fl_table p))"
    then have k: "k < length (fl_table p)"
      using i(2) length_fl_row_of [OF i(3) [OF s]] fl_row_end [OF s] by simp
    then show "list_write (s * FLASH_PHYSICAL_PAGES) (fl_row_of (fl_slots p ! s)) (fl_table p) ! k = fl_table p ! k"
      using i(2) length_fl_row_of [OF i(3) [OF s]] fl_row_end [OF s] i(4) [OF s, of "k - s * FLASH_PHYSICAL_PAGES"]
      by (subst nth_list_write) auto
  qed
  then show ?thesis by (simp add: fl_put_def)
qed

lemma fl_put_put:
  assumes "length (fl_row_of sl) = FLASH_PHYSICAL_PAGES" "length (fl_row_of sl') = FLASH_PHYSICAL_PAGES"
    and "length (fl_table p) = MAX_BATCH * FLASH_PHYSICAL_PAGES" and "s < MAX_BATCH"
  shows "fl_put s g sl' (fl_put s f sl p) = fl_put s g sl' p"
  using assms fl_row_end [OF assms(4)] by (simp add: fl_put_def) (simp add: list_write_def)

section \<open>The page loops\<close>

lemma flash_acquire_loop_eq:
  assumes "s < length (fl_slots p)" and "s * FLASH_PHYSICAL_PAGES + (a + n) \<le> length (fl_table p)"
    and "n \<le> length (fl_free p)"
  shows "flash_acquire_loop s [a..<a + n] p =
    (Inr (), p\<lparr>fl_free := take (length (fl_free p) - n) (fl_free p),
       fl_slots := (fl_slots p)[s := (fl_slots p ! s)\<lparr>fl_pages := fl_pages (fl_slots p ! s) @ take n (rev (fl_free p))\<rparr>],
       fl_table := list_write (s * FLASH_PHYSICAL_PAGES + a) (take n (rev (fl_free p))) (fl_table p)\<rparr>)"
  using assms
proof (induction n arbitrary: p a)
  case 0
  then show ?case by simp
next
  case (Suc n)
  from Suc.prems(3) obtain f g where f: "fl_free p = f @ [g]" by (cases "fl_free p" rule: rev_cases) auto
  let ?i = "s * FLASH_PHYSICAL_PAGES + a"
  define q where "q = p\<lparr>fl_free := f,
    fl_slots := (fl_slots p)[s := (fl_slots p ! s)\<lparr>fl_pages := fl_pages (fl_slots p ! s) @ [g]\<rparr>],
    fl_table := (fl_table p)[?i := g]\<rparr>"
  have upt: "[a..<a + Suc n] = a # [Suc a..<Suc a + n]" by (simp add: upt_conv_Cons del: upt_Suc)
  have step: "flash_acquire_loop s [a..<a + Suc n] p = flash_acquire_loop s [Suc a..<Suc a + n] q"
    unfolding upt using Suc.prems by (simp add: f q_def fl_upd_def del: upt_Suc)
  have ih: "flash_acquire_loop s [Suc a..<Suc a + n] q =
    (Inr (), q\<lparr>fl_free := take (length (fl_free q) - n) (fl_free q),
       fl_slots := (fl_slots q)[s := (fl_slots q ! s)\<lparr>fl_pages := fl_pages (fl_slots q ! s) @ take n (rev (fl_free q))\<rparr>],
       fl_table := list_write (s * FLASH_PHYSICAL_PAGES + Suc a) (take n (rev (fl_free q))) (fl_table q)\<rparr>)"
    using Suc.prems by (intro Suc.IH) (simp_all add: q_def f)
  have "list_write ?i (g # take n (rev f)) (fl_table p) = list_write (Suc ?i) (take n (rev f)) ((fl_table p)[?i := g])"
    using Suc.prems f by (intro list_write_Cons) (simp add: min_def)
  then show ?case unfolding step ih using Suc.prems f by (simp add: q_def)
qed

lemma flash_release_loop_eq:
  assumes "s < length (fl_slots p)" and "s * FLASH_PHYSICAL_PAGES + (a + n) \<le> length (fl_table p)"
    and "length (fl_pages (fl_slots p ! s)) = a + n"
  shows "flash_release_loop s (rev [a..<a + n]) p =
    (Inr (), p\<lparr>fl_free := fl_free p @ rev (drop a (fl_pages (fl_slots p ! s))),
       fl_slots := (fl_slots p)[s := (fl_slots p ! s)\<lparr>fl_pages := take a (fl_pages (fl_slots p ! s))\<rparr>],
       fl_table := list_write (s * FLASH_PHYSICAL_PAGES + a) (replicate n FLASH_UNMAPPED_PAGE) (fl_table p)\<rparr>)"
  using assms
proof (induction n arbitrary: p)
  case 0
  then show ?case by simp
next
  case (Suc n)
  from Suc.prems(3) obtain ps g where ps: "fl_pages (fl_slots p ! s) = ps @ [g]"
    by (cases "fl_pages (fl_slots p ! s)" rule: rev_cases) auto
  let ?i = "s * FLASH_PHYSICAL_PAGES + (a + n)"
  define q where "q = p\<lparr>fl_slots := (fl_slots p)[s := (fl_slots p ! s)\<lparr>fl_pages := ps\<rparr>],
    fl_table := (fl_table p)[?i := FLASH_UNMAPPED_PAGE], fl_free := fl_free p @ [g]\<rparr>"
  have upt: "rev [a..<a + Suc n] = (a + n) # rev [a..<a + n]" by simp
  have step: "flash_release_loop s (rev [a..<a + Suc n]) p = flash_release_loop s (rev [a..<a + n]) q"
    unfolding upt using Suc.prems by (simp add: ps q_def fl_upd_def add.assoc)
  have ih: "flash_release_loop s (rev [a..<a + n]) q =
    (Inr (), q\<lparr>fl_free := fl_free q @ rev (drop a (fl_pages (fl_slots q ! s))),
       fl_slots := (fl_slots q)[s := (fl_slots q ! s)\<lparr>fl_pages := take a (fl_pages (fl_slots q ! s))\<rparr>],
       fl_table := list_write (s * FLASH_PHYSICAL_PAGES + a) (replicate n FLASH_UNMAPPED_PAGE) (fl_table q)\<rparr>)"
    using Suc.prems ps by (intro Suc.IH) (simp_all add: q_def)
  have "list_write (s * FLASH_PHYSICAL_PAGES + a) (replicate (Suc n) FLASH_UNMAPPED_PAGE) (fl_table p) =
      list_write (s * FLASH_PHYSICAL_PAGES + a) (replicate n FLASH_UNMAPPED_PAGE) ((fl_table p)[?i := FLASH_UNMAPPED_PAGE])"
    using list_write_snoc [of "s * FLASH_PHYSICAL_PAGES + a" "replicate n FLASH_UNMAPPED_PAGE" "fl_table p" FLASH_UNMAPPED_PAGE] Suc.prems
    by (simp add: replicate_append_same add.assoc)
  then show ?case unfolding step ih using Suc.prems ps by (simp add: q_def)
qed

section \<open>Writing one row\<close>

lemma fl_row_write:
  assumes inv: "flash_inv p" and s: "s < MAX_BATCH" and a: "a + length xs \<le> FLASH_PHYSICAL_PAGES"
    and row: "fl_row_of sl = list_write a xs (fl_row_of (fl_slots p ! s))"
  shows "list_write (s * FLASH_PHYSICAL_PAGES + a) xs (fl_table p) = list_write (s * FLASH_PHYSICAL_PAGES) (fl_row_of sl) (fl_table p)"
proof -
  note i = flash_invD [OF inv]
  let ?k = FLASH_PHYSICAL_PAGES
  have old: "length (fl_row_of (fl_slots p ! s)) = ?k" by (rule length_fl_row_of [OF i(3) [OF s]])
  then have new: "length (fl_row_of sl) = ?k" using row a by simp
  have fits: "s * ?k + ?k \<le> length (fl_table p)" using fl_row_end [OF s] i(2) by simp
  show ?thesis
  proof (rule nth_equalityI)
    show "length (list_write (s * ?k + a) xs (fl_table p)) = length (list_write (s * ?k) (fl_row_of sl) (fl_table p))"
      using a fits new by simp
  next
    fix j assume "j < length (list_write (s * ?k + a) xs (fl_table p))"
    then have j: "j < length (fl_table p)" using a fits by simp
    show "list_write (s * ?k + a) xs (fl_table p) ! j = list_write (s * ?k) (fl_row_of sl) (fl_table p) ! j"
    proof (cases "s * ?k \<le> j \<and> j < s * ?k + ?k")
      case True
      then obtain d where d: "j = s * ?k + d" "d < ?k" by (metis le_Suc_ex add_less_cancel_left)
      have "fl_table p ! (s * ?k + d) = fl_row_of (fl_slots p ! s) ! d" by (rule i(4) [OF s d(2)])
      then show ?thesis using d a fits new old j by (simp add: nth_list_write row) 
    next
      case False
      then show ?thesis using a fits new j by (auto simp: nth_list_write)
    qed
  qed
qed

lemma fl_row_extend:
  "length (fl_pages sl) + length xs \<le> FLASH_PHYSICAL_PAGES \<Longrightarrow>
    fl_row_of (sl\<lparr>fl_pages := fl_pages sl @ xs\<rparr>) = list_write (length (fl_pages sl)) xs (fl_row_of sl)"
  by (simp add: fl_row_of_def list_write_def)

lemma fl_row_shorten:
  assumes "length (fl_pages sl) \<le> FLASH_PHYSICAL_PAGES" and "k \<le> length (fl_pages sl)"
  shows "fl_row_of (sl\<lparr>fl_pages := take k (fl_pages sl)\<rparr>) =
    list_write k (replicate (length (fl_pages sl) - k) FLASH_UNMAPPED_PAGE) (fl_row_of sl)"
proof -
  let ?free = "replicate (FLASH_PHYSICAL_PAGES - length (fl_pages sl)) FLASH_UNMAPPED_PAGE"
  have "FLASH_PHYSICAL_PAGES - k = (length (fl_pages sl) - k) + (FLASH_PHYSICAL_PAGES - length (fl_pages sl))"
    using assms by simp
  moreover have "fl_pages (sl\<lparr>fl_pages := take k (fl_pages sl)\<rparr>) = take k (fl_pages sl)" by simp
  ultimately have "fl_row_of (sl\<lparr>fl_pages := take k (fl_pages sl)\<rparr>) =
      take k (fl_pages sl) @ replicate (length (fl_pages sl) - k) FLASH_UNMAPPED_PAGE @ ?free"
    using assms(2) by (simp only: fl_row_of_def replicate_add length_take min.absorb2)
  moreover have "take k (fl_pages sl @ ?free) = take k (fl_pages sl)" "drop (length (fl_pages sl)) (fl_pages sl @ ?free) = ?free"
    using assms(2) by simp_all
  ultimately show ?thesis using assms(2) by (simp only: fl_row_of_def list_write_def length_replicate le_add_diff_inverse)
qed

section \<open>Every operation of the code is its abstract counterpart\<close>

lemma pages_for_eq: "pages_for n = fs_pages_needed n"
proof -
  have "(n + 63) div 64 = div_ceil n 64" using add_pred_div_eq_div_ceil [of 64 n] by simp
  then show ?thesis
    by (simp add: pages_for_def fs_pages_needed_def checked_add_def FLASH_SLOT_PAGE_TOKENS_def
        FLASH_ATTENTION_PAGE_SIZE_def ATTENTION_PAGE_SIZE_def)
qed

lemma FLASH_SLOT_PAGE_TOKENS_eq: "FLASH_SLOT_PAGE_TOKENS = ATTENTION_PAGE_SIZE"
  by (simp add: FLASH_SLOT_PAGE_TOKENS_def FLASH_ATTENTION_PAGE_SIZE_def ATTENTION_PAGE_SIZE_def)

lemma flash_mark_simps [simp]:
  "fl_state (flash_mark a b sl) = fl_state sl" "fl_sequence (flash_mark a b sl) = fl_sequence sl"
  "fl_pages (flash_mark a b sl) = fl_pages sl" "fl_tokens (flash_mark a b sl) = fl_tokens sl"
  by (simp_all add: flash_mark_def)

lemma flash_mark_commute:
  "flash_mark a b (sl\<lparr>fl_pages := ps\<rparr>) = (flash_mark a b sl)\<lparr>fl_pages := ps\<rparr>"
  "flash_mark a b (sl\<lparr>fl_tokens := n\<rparr>) = (flash_mark a b sl)\<lparr>fl_tokens := n\<rparr>"
  "flash_mark a b (sl\<lparr>fl_state := x\<rparr>) = (flash_mark a b sl)\<lparr>fl_state := x\<rparr>"
  "flash_mark a b (sl\<lparr>fl_sequence := m\<rparr>) = (flash_mark a b sl)\<lparr>fl_sequence := m\<rparr>"
  by (simp_all add: flash_mark_def)

text \<open>A slot update that keeps the page list does not touch the table.\<close>

lemma fl_upd_put:
  assumes "flash_inv p" and "s < MAX_BATCH" and "fl_pages (f (fl_slots p ! s)) = fl_pages (fl_slots p ! s)"
  shows "fl_upd s f p = fl_put s (fl_free p) (f (fl_slots p ! s)) p"
proof -
  have "fl_row_of (f (fl_slots p ! s)) = fl_row_of (fl_slots p ! s)" by (simp add: fl_row_of_def assms(3))
  then have "fl_table (fl_put s (fl_free p) (f (fl_slots p ! s)) p) = fl_table p"
    using arg_cong [OF fl_put_same [OF assms(1,2)], of fl_table] by (simp add: fl_put_def)
  then show ?thesis by (simp add: fl_upd_def fl_put_def)
qed

lemma fl_upd_fl_put:
  assumes "s < length (fl_slots p)" and "fl_pages (f sl) = fl_pages sl"
  shows "fl_upd s f (fl_put s g sl p) = fl_put s g (f sl) p"
  using assms by (simp add: fl_upd_def fl_put_def fl_row_of_def)

lemma fl_slots_fl_put [simp]: "s < length (fl_slots p) \<Longrightarrow> fl_slots (fl_put s f sl p) ! s = sl"
  by (simp add: fl_put_def)

lemma fl_free_fl_put [simp]: "fl_free (fl_put s f sl p) = f"
  by (simp add: fl_put_def)

lemma flash_acquire_put:
  assumes inv: "flash_inv p" and s: "s < MAX_BATCH" and sl: "sl = fl_slots p ! s"
    and a: "a = length (fl_pages sl)" "a + n \<le> FLASH_PHYSICAL_PAGES" and n: "n \<le> length (fl_free p)"
  shows "flash_acquire_loop s [a..<a + n] p =
    (Inr (), fl_put s (take (length (fl_free p) - n) (fl_free p))
      (sl\<lparr>fl_pages := fl_pages sl @ take n (rev (fl_free p))\<rparr>) p)"
proof -
  note i = flash_invD [OF inv]
  let ?new = "take n (rev (fl_free p))"
  have bound: "s * FLASH_PHYSICAL_PAGES + (a + n) \<le> length (fl_table p)"
    using fl_row_end [OF s] i(2) a(2) by simp
  have loop: "flash_acquire_loop s [a..<a + n] p =
    (Inr (), p\<lparr>fl_free := take (length (fl_free p) - n) (fl_free p),
       fl_slots := (fl_slots p)[s := sl\<lparr>fl_pages := fl_pages sl @ ?new\<rparr>],
       fl_table := list_write (s * FLASH_PHYSICAL_PAGES + a) ?new (fl_table p)\<rparr>)"
    unfolding sl by (rule flash_acquire_loop_eq [OF _ bound n]) (simp add: i(1) s)
  have "list_write (s * FLASH_PHYSICAL_PAGES + a) ?new (fl_table p) =
      list_write (s * FLASH_PHYSICAL_PAGES) (fl_row_of (sl\<lparr>fl_pages := fl_pages sl @ ?new\<rparr>)) (fl_table p)"
    using a n sl by (intro fl_row_write [OF inv s]) (simp_all add: fl_row_extend)
  then show ?thesis unfolding loop fl_put_def by simp
qed

lemma flash_release_put:
  assumes inv: "flash_inv p" and s: "s < MAX_BATCH" and sl: "sl = fl_slots p ! s"
    and b: "b = length (fl_pages sl)"
  shows "flash_release_loop s (rev [k..<b]) p =
    (Inr (), fl_put s (fl_free p @ rev (drop k (fl_pages sl))) (sl\<lparr>fl_pages := take k (fl_pages sl)\<rparr>) p)"
proof (cases "k \<le> b")
  case False
  then show ?thesis using fl_put_same [OF inv s] sl b by simp
next
  case True
  note i = flash_invD [OF inv]
  have ok: "b \<le> FLASH_PHYSICAL_PAGES" using i(3) [OF s] sl b by (simp add: fl_slot_ok_def)
  have bound: "s * FLASH_PHYSICAL_PAGES + (k + (b - k)) \<le> length (fl_table p)"
    using fl_row_end [OF s] i(2) ok True by simp
  have loop: "flash_release_loop s (rev [k..<k + (b - k)]) p =
    (Inr (), p\<lparr>fl_free := fl_free p @ rev (drop k (fl_pages sl)),
       fl_slots := (fl_slots p)[s := sl\<lparr>fl_pages := take k (fl_pages sl)\<rparr>],
       fl_table := list_write (s * FLASH_PHYSICAL_PAGES + k) (replicate (b - k) FLASH_UNMAPPED_PAGE) (fl_table p)\<rparr>)"
    unfolding sl by (rule flash_release_loop_eq [OF _ bound]) (use i(1) s b sl True in simp_all)
  have "list_write (s * FLASH_PHYSICAL_PAGES + k) (replicate (b - k) FLASH_UNMAPPED_PAGE) (fl_table p) =
      list_write (s * FLASH_PHYSICAL_PAGES) (fl_row_of (sl\<lparr>fl_pages := take k (fl_pages sl)\<rparr>)) (fl_table p)"
    using ok True sl b by (intro fl_row_write [OF inv s]) (simp_all add: fl_row_shorten)
  then show ?thesis using loop True unfolding fl_put_def by simp
qed

lemma fl_slot_ok_upd:
  "fl_slot_ok sl \<Longrightarrow> m < U64_BOUND \<Longrightarrow> fl_slot_ok (sl\<lparr>fl_sequence := m\<rparr>)"
  "fl_slot_ok sl \<Longrightarrow> fl_slot_ok (sl\<lparr>fl_tokens := 0\<rparr>)"
  by (simp_all add: fl_slot_ok_def)

lemma flash_advance_eq:
  assumes "flash_inv p" and "s < MAX_BATCH"
  shows "flash_advance_sequence s p =
    (case fs_bump (fl_slots p ! s) of Inl e \<Rightarrow> (Inl e, p) | Inr sl \<Rightarrow> (Inr (), fl_put s (fl_free p) sl p))"
  using fl_upd_put [OF assms, of "\<lambda>sl. sl\<lparr>fl_sequence := fl_sequence (fl_slots p ! s) + 1\<rparr>"]
  by (simp add: flash_advance_sequence_def fs_bump_def checked_add_def)

lemma fs_bump_Inr:
  "fs_bump sl = Inr sl' \<Longrightarrow> sl' = sl\<lparr>fl_sequence := fl_sequence sl + 1\<rparr> \<and> (fl_slot_ok sl \<longrightarrow> fl_slot_ok sl')"
  by (auto simp: fs_bump_def fl_slot_ok_def split: if_splits)

lemma flash_inv_bump:
  assumes "flash_inv p" and "s < MAX_BATCH" and "fs_bump (fl_slots p ! s) = Inr sl"
  shows "flash_inv (fl_put s (fl_free p) sl p)"
  using assms fs_bump_Inr [OF assms(3)] flash_invD(3) [OF assms(1,2)] by (intro flash_inv_put) auto

lemma flash_commit_eq: "flash_inv p \<Longrightarrow> flash_commit s n p = fs_lift s (fs_commit n) p"
  using fl_put_same [of p s] fl_upd_put [of p s "\<lambda>sl. sl\<lparr>fl_tokens := n, fl_state := FlashActive\<rparr>"]
  by (auto simp: flash_commit_def fs_lift_def fs_commit_def flash_require_slot_def FLASH_SLOT_PAGE_TOKENS_eq)

lemma flash_retain_eq: "flash_inv p \<Longrightarrow> flash_retain s p = fs_lift s fs_retain p"
  using fl_put_same [of p s] fl_upd_put [of p s "\<lambda>sl. sl\<lparr>fl_state := FlashRetained\<rparr>"]
  by (auto simp: flash_retain_def fs_lift_def fs_retain_def flash_require_slot_def)

lemma flash_clear_dirty_eq: "flash_inv p \<Longrightarrow> flash_clear_dirty s p = fs_lift s fs_clear_dirty p"
  using fl_put_same [of p s] fl_upd_put [of p s "\<lambda>sl. sl\<lparr>fl_dirty := None\<rparr>"]
  by (auto simp: flash_clear_dirty_def fs_lift_def fs_clear_dirty_def flash_require_slot_def)

lemma length_fl_row_take: "fl_slot_ok sl \<Longrightarrow> length (fl_row_of (sl\<lparr>fl_pages := take k (fl_pages sl)\<rparr>)) = FLASH_PHYSICAL_PAGES"
  by (simp add: fl_row_of_def fl_slot_ok_def min_def)

lemma flash_truncate_mapping_eq:
  assumes inv: "flash_inv p" and s: "s < MAX_BATCH" and needed: "needed = div_ceil n ATTENTION_PAGE_SIZE"
    and sl: "sl = fl_slots p ! s"
  shows "flash_truncate_mapping s n needed (length (fl_pages sl)) p =
    (case fs_cut n (fl_free p) sl of (r, f', sl') \<Rightarrow> (r, fl_put s f' sl' p))"
  using flash_invD(1) [OF inv] s
  by (simp add: flash_truncate_mapping_def flash_release_put [OF inv s sl refl] fs_cut_def fs_keep_def Let_def
      fl_upd_fl_put flash_mark_commute needed)

lemma fs_pages_needed_le:
  assumes "fl_slot_ok sl" and "n \<le> fl_tokens sl"
  shows "fs_pages_needed n = Inr (div_ceil n ATTENTION_PAGE_SIZE)"
proof -
  have "n \<le> FLASH_PHYSICAL_PAGES * ATTENTION_PAGE_SIZE"
    using assms unfolding fl_slot_ok_def by (meson le_trans mult_le_mono1)
  then show ?thesis
    by (simp add: fs_pages_needed_def FLASH_PHYSICAL_PAGES_def FLASH_ATTENTION_PAGE_SIZE_def ATTENTION_PAGE_SIZE_def U64_BOUND_def)
qed

lemma fs_bump_pages: "fs_bump sl = Inr sl' \<Longrightarrow> fl_pages sl' = fl_pages sl \<and> fl_state sl' = fl_state sl \<and> fl_tokens sl' = fl_tokens sl"
  by (auto simp: fs_bump_def split: if_splits)

lemma fl_put_bump_put:
  assumes inv: "flash_inv p" and s: "s < MAX_BATCH" and b: "fs_bump (fl_slots p ! s) = Inr sl1"
    and row: "length (fl_row_of sl') = FLASH_PHYSICAL_PAGES"
  shows "fl_put s g sl' (fl_put s f sl1 p) = fl_put s g sl' p"
proof (rule fl_put_put [OF _ row _ s])
  have "fl_slot_ok sl1" using fs_bump_Inr [OF b] flash_invD(3) [OF inv s] by blast
  then show "length (fl_row_of sl1) = FLASH_PHYSICAL_PAGES" by (rule length_fl_row_of)
qed (rule flash_invD(2) [OF inv])

lemma flash_rollback_eq: "flash_inv p \<Longrightarrow> flash_rollback s n p = fs_lift s (fs_rollback n) p"
proof (cases "s < MAX_BATCH")
  case True
  assume inv: "flash_inv p"
  show ?thesis
    using True fl_put_same [OF inv True] flash_truncate_mapping_eq [OF inv True refl refl, of n]
      fs_pages_needed_le [OF flash_invD(3) [OF inv True], of n]
    by (auto simp: flash_rollback_def fs_lift_def fs_rollback_def flash_require_slot_def pages_for_eq)
qed (simp add: flash_rollback_def fs_lift_def flash_require_slot_def)

lemma fl_row_fs_keep:
  "fl_slot_ok sl \<Longrightarrow> fs_keep k f sl = (f', sl') \<Longrightarrow> length (fl_row_of sl') = FLASH_PHYSICAL_PAGES"
  by (auto simp: fs_keep_def fl_row_of_def fl_slot_ok_def min_def)

lemma flash_truncate_eq: "flash_inv p \<Longrightarrow> flash_truncate s n p = fs_lift s (fs_truncate n) p"
proof (cases "s < MAX_BATCH")
  case True
  assume inv: "flash_inv p"
  note ok = flash_invD(3) [OF inv True]
  show ?thesis
  proof (cases "n < fl_tokens (fl_slots p ! s)")
    case cut: True
    note base = flash_advance_eq [OF inv True] cut fl_put_same [OF inv True]
      fs_pages_needed_le [OF ok, of n]
    show ?thesis
    proof (cases "fs_bump (fl_slots p ! s)")
      case (Inl e)
      then show ?thesis
        using True base by (simp add: flash_truncate_def fs_lift_def fs_truncate_def flash_require_slot_def pages_for_eq)
    next
      case (Inr sl1)
      let ?q = "fl_put s (fl_free p) sl1 p"
      have q: "flash_inv ?q" by (rule flash_inv_bump [OF inv True Inr])
      have sl1: "sl1 = fl_slots ?q ! s" using flash_invD(1) [OF inv] True by simp
      note map = flash_truncate_mapping_eq [OF q True refl sl1, of n]
      have len: "length (fl_pages sl1) = length (fl_pages (fl_slots p ! s))" using fs_bump_pages [OF Inr] by simp
      obtain r f' sl' where c: "fs_cut n (fl_free p) sl1 = (r, f', sl')" by (metis prod_cases3)
      have "fl_slot_ok sl1" using fs_bump_Inr [OF Inr] ok by blast
      then have "length (fl_row_of sl') = FLASH_PHYSICAL_PAGES"
        using c by (auto simp: fs_cut_def Let_def fl_row_of_def split: prod.splits dest: fl_row_fs_keep)
      then have "fl_put s f' sl' ?q = fl_put s f' sl' p" by (rule fl_put_bump_put [OF inv True Inr])
      then show ?thesis
        using True base Inr map len c
        by (simp add: flash_truncate_def fs_lift_def fs_truncate_def flash_require_slot_def pages_for_eq)
    qed
  next
    case False
    then show ?thesis
      using True fl_put_same [OF inv True] flash_truncate_mapping_eq [OF inv True refl refl, of n] fs_pages_needed_le [OF ok, of n]
      by (auto simp: flash_truncate_def fs_lift_def fs_truncate_def flash_require_slot_def pages_for_eq)
  qed
qed (simp add: flash_truncate_def fs_lift_def flash_require_slot_def)

lemma fl_same:
  "fl_tokens sl = n \<Longrightarrow> sl\<lparr>fl_tokens := n\<rparr> = sl" "fl_pages sl = ps \<Longrightarrow> sl\<lparr>fl_pages := ps\<rparr> = sl"
  "fl_state sl = x \<Longrightarrow> sl\<lparr>fl_state := x\<rparr> = sl"
  by (cases sl; simp)+

lemma fl_tokens_pages_commute: "sl\<lparr>fl_tokens := n, fl_pages := ps\<rparr> = sl\<lparr>fl_pages := ps, fl_tokens := n\<rparr>"
  by simp

lemma fl_slot_ok_free: "fl_slot_ok sl \<Longrightarrow> fl_state sl = FlashFree \<Longrightarrow> fl_pages sl = [] \<and> fl_tokens sl = 0"
  by (auto simp: fl_slot_ok_def)

lemma flash_restart_eq: "flash_inv p \<Longrightarrow> flash_restart s p = fs_lift s fs_restart p"
proof (cases "s < MAX_BATCH")
  case True
  assume inv: "flash_inv p"
  note ok = flash_invD(3) [OF inv True]
  have len: "s < length (fl_slots p)" using flash_invD(1) [OF inv] True by simp
  have zero: "fl_state (fl_slots p ! s) = FlashFree \<Longrightarrow> fl_tokens (fl_slots p ! s) = 0"
    using fl_slot_ok_free [OF ok] by simp
  have noop: "fl_state (fl_slots p ! s) = FlashFree \<Longrightarrow> fl_upd s (\<lambda>sl. sl\<lparr>fl_tokens := 0\<rparr>) p = p"
    using zero fl_put_same [OF inv True] fl_upd_put [OF inv True, of "\<lambda>sl. sl\<lparr>fl_tokens := 0\<rparr>"]
    by (simp add: fl_same)
  show ?thesis
    using True noop zero fl_put_same [OF inv True] flash_advance_eq [OF inv True] len
    by (auto simp: flash_restart_def fs_lift_def fs_restart_def flash_require_slot_def fl_upd_fl_put split: sum.splits)
qed (simp add: flash_restart_def fs_lift_def flash_require_slot_def)

lemma flash_truncate_to_zero_eq:
  assumes inv: "flash_inv p" and s: "s < MAX_BATCH" and sl: "sl = fl_slots p ! s"
  shows "flash_truncate_to_zero s p =
    (case fs_keep 0 (fl_free p) sl of (f', sl') \<Rightarrow>
      (Inr (length (fl_pages sl)), fl_put s f' (sl'\<lparr>fl_tokens := 0\<rparr>) p))"
proof -
  note i = flash_invD [OF inv]
  let ?q = "fl_put s (fl_free p) (sl\<lparr>fl_tokens := 0\<rparr>) p"
  have ok: "fl_slot_ok (sl\<lparr>fl_tokens := 0\<rparr>)" using i(3) [OF s] sl by (simp add: fl_slot_ok_upd)
  have q: "flash_inv ?q" using ok sl by (intro flash_inv_put [OF inv s]) simp_all
  have upd: "fl_upd s (\<lambda>sl. sl\<lparr>fl_tokens := 0\<rparr>) p = ?q" unfolding sl by (rule fl_upd_put [OF inv s]) simp
  have len: "s < length (fl_slots p)" using i(1) s by simp
  note loop = flash_release_put [OF q s refl refl, of 0]
  have put: "fl_put s f' (sl'\<lparr>fl_pages := [], fl_tokens := 0\<rparr>) ?q = fl_put s f' (sl'\<lparr>fl_pages := [], fl_tokens := 0\<rparr>) p" for f' sl'
    by (rule fl_put_put) (use length_fl_row_of [OF ok] i(2) s in \<open>simp_all add: fl_row_of_def\<close>)
  show ?thesis
    using loop len
    by (simp add: flash_truncate_to_zero_def upd Let_def fs_keep_def fl_upd_fl_put put flash_mark_commute fl_tokens_pages_commute)
qed

lemma flash_recycle_eq: "flash_inv p \<Longrightarrow> flash_recycle s p = fs_lift s fs_recycle p"
proof (cases "s < MAX_BATCH")
  case True
  assume inv: "flash_inv p"
  note ok = flash_invD(3) [OF inv True]
  have len: "s < length (fl_slots p)" using flash_invD(1) [OF inv] True by simp
  show ?thesis
  proof (cases "fl_state (fl_slots p ! s) = FlashFree")
    case free: True
    note z = fl_slot_ok_free [OF ok free]
    show ?thesis
      using True free z len flash_truncate_to_zero_eq [OF inv True refl] fl_put_same [OF inv True]
        fl_upd_put [OF inv True, of "\<lambda>sl. sl\<lparr>fl_state := FlashFree\<rparr>"]
      by (simp add: flash_recycle_def fs_lift_def fs_recycle_def flash_require_slot_def fs_keep_def
          fl_upd_fl_put fl_same)
  next
    case busy: False
    show ?thesis
    proof (cases "fs_bump (fl_slots p ! s)")
      case (Inl e)
      then show ?thesis
        using True busy flash_advance_eq [OF inv True] fl_put_same [OF inv True]
        by (simp add: flash_recycle_def fs_lift_def fs_recycle_def flash_require_slot_def)
    next
      case (Inr sl1)
      let ?q = "fl_put s (fl_free p) sl1 p"
      have q: "flash_inv ?q" by (rule flash_inv_bump [OF inv True Inr])
      have sl1: "sl1 = fl_slots ?q ! s" using len by simp
      obtain f' sl' where k: "fs_keep 0 (fl_free p) sl1 = (f', sl')" by fastforce
      have ok1: "fl_slot_ok sl1" using fs_bump_Inr [OF Inr] ok by blast
      have row: "length (fl_row_of (sl'\<lparr>fl_tokens := 0, fl_state := FlashFree\<rparr>)) = FLASH_PHYSICAL_PAGES"
        using fl_row_fs_keep [OF ok1 k] by (simp add: fl_row_of_def)
      have tz: "flash_truncate_to_zero s ?q = (Inr (length (fl_pages sl1)), fl_put s f' (sl'\<lparr>fl_tokens := 0\<rparr>) ?q)"
        using flash_truncate_to_zero_eq [OF q True sl1] k by simp
      have upd: "fl_upd s (\<lambda>sl. sl\<lparr>fl_state := FlashFree\<rparr>) (fl_put s f' (sl'\<lparr>fl_tokens := 0\<rparr>) ?q) =
          fl_put s f' (sl'\<lparr>fl_tokens := 0, fl_state := FlashFree\<rparr>) p"
      proof -
        have "s < length (fl_slots ?q)" using len by (simp add: fl_put_def)
        then have "fl_upd s (\<lambda>sl. sl\<lparr>fl_state := FlashFree\<rparr>) (fl_put s f' (sl'\<lparr>fl_tokens := 0\<rparr>) ?q) =
            fl_put s f' (sl'\<lparr>fl_tokens := 0, fl_state := FlashFree\<rparr>) ?q"
          by (simp add: fl_upd_fl_put)
        also have "\<dots> = fl_put s f' (sl'\<lparr>fl_tokens := 0, fl_state := FlashFree\<rparr>) p"
          by (rule fl_put_bump_put [OF inv True Inr row])
        finally show ?thesis .
      qed
      show ?thesis
        using True busy Inr flash_advance_eq [OF inv True] tz upd sl1 fs_bump_pages [OF Inr] k
        by (simp add: flash_recycle_def fs_lift_def fs_recycle_def flash_require_slot_def Let_def split: flash_slot_state.splits)
    qed
  qed
qed (simp add: flash_recycle_def fs_lift_def flash_require_slot_def)

lemma fl_row_fs_take:
  "length (fl_pages sl) + k \<le> FLASH_PHYSICAL_PAGES \<Longrightarrow> fs_take k f sl = (f', sl') \<Longrightarrow>
    length (fl_row_of sl') = FLASH_PHYSICAL_PAGES"
  by (auto simp: fs_take_def fl_row_of_def min_def)

text \<open>The page loop, the dirty mark and the state change of \<open>reserve\<close> in one step.\<close>

lemma flash_reserve_tail:
  assumes inv: "flash_inv p" and s: "s < MAX_BATCH" and sl: "sl = fl_slots p ! s"
    and a: "a = length (fl_pages sl)" and k: "k = needed - a" and n: "needed \<le> FLASH_PHYSICAL_PAGES"
    "needed \<le> a + length (fl_free p)" and t: "fs_take k (fl_free p) sl = (f', sl')"
  shows "flash_acquire_loop s [a..<needed] p = (Inr (), fl_put s f' (sl\<lparr>fl_pages := fl_pages sl'\<rparr>) p)"
    and "fl_upd s (\<lambda>sl. sl\<lparr>fl_state := FlashActive\<rparr>)
      (if k \<noteq> 0 then fl_upd s (flash_mark a needed) (fl_put s f' (sl\<lparr>fl_pages := fl_pages sl'\<rparr>) p)
       else fl_put s f' (sl\<lparr>fl_pages := fl_pages sl'\<rparr>) p) =
      fl_put s f' (sl'\<lparr>fl_state := FlashActive\<rparr>) p"
proof -
  have len: "s < length (fl_slots p)" using flash_invD(1) [OF inv] s by simp
  have upt: "[a..<needed] = [a..<a + k]" using k by (cases "a \<le> needed") auto
  have f': "f' = take (length (fl_free p) - k) (fl_free p)"
    and pages: "fl_pages sl' = fl_pages sl @ take k (rev (fl_free p))" using t by (auto simp: fs_take_def)
  have ak: "a + k \<le> FLASH_PHYSICAL_PAGES"
    using fl_slot_ok_len [OF flash_invD(3) [OF inv s]] k n(1) a sl by simp
  show "flash_acquire_loop s [a..<needed] p = (Inr (), fl_put s f' (sl\<lparr>fl_pages := fl_pages sl'\<rparr>) p)"
    unfolding upt f' pages using n(2) k by (intro flash_acquire_put [OF inv s sl a ak]) simp
  have "k \<noteq> 0 \<Longrightarrow> needed = a + k" using k by simp
  then show "fl_upd s (\<lambda>sl. sl\<lparr>fl_state := FlashActive\<rparr>)
      (if k \<noteq> 0 then fl_upd s (flash_mark a needed) (fl_put s f' (sl\<lparr>fl_pages := fl_pages sl'\<rparr>) p)
       else fl_put s f' (sl\<lparr>fl_pages := fl_pages sl'\<rparr>) p) =
      fl_put s f' (sl'\<lparr>fl_state := FlashActive\<rparr>) p"
    using len t a by (auto simp: fl_upd_fl_put fs_take_def flash_mark_commute)
qed

lemma flash_reserve_eq: "flash_inv p \<Longrightarrow> flash_reserve s n p = fs_lift s (fs_reserve n) p"
proof (cases "s < MAX_BATCH")
  case s: True
  assume inv: "flash_inv p"
  let ?sl = "fl_slots p ! s"
  note ok = flash_invD(3) [OF inv s]
  have len: "s < length (fl_slots p)" using flash_invD(1) [OF inv] s by simp
  note same = fl_put_same [OF inv s]
  show ?thesis
  proof (cases "n < fl_tokens ?sl \<or> (\<exists>e. fs_pages_needed n = Inl e)")
    case True
    then show ?thesis
      using s same by (auto simp: flash_reserve_def fs_lift_def fs_reserve_def flash_require_slot_def pages_for_eq)
  next
    case False
    then obtain needed where nd: "fs_pages_needed n = Inr needed" "\<not> n < fl_tokens ?sl" by (metis sum.exhaust)
    let ?a = "length (fl_pages ?sl)"
    show ?thesis
    proof (cases "needed > FLASH_PHYSICAL_PAGES \<or> needed > ?a + length (fl_free p)")
      case True
      then show ?thesis
        using s same nd by (auto simp: flash_reserve_def fs_lift_def fs_reserve_def flash_require_slot_def pages_for_eq)
    next
      case room: False
      then have n: "needed \<le> FLASH_PHYSICAL_PAGES" "needed \<le> ?a + length (fl_free p)" by simp_all
      show ?thesis
      proof (cases "fl_state ?sl = FlashFree")
        case False
        obtain f' sl' where t: "fs_take (needed - ?a) (fl_free p) ?sl = (f', sl')" by fastforce
        have tok: "fl_tokens sl' = fl_tokens ?sl" using t by (auto simp: fs_take_def)
        show ?thesis
          using flash_reserve_tail [OF inv s refl refl refl n t] s nd n False t len tok
          by (simp add: flash_reserve_def fs_lift_def fs_reserve_def flash_require_slot_def pages_for_eq Let_def)
      next
        case free: True
        show ?thesis
        proof (cases "fs_bump ?sl")
          case (Inl e)
          then show ?thesis
            using s same nd n free flash_advance_eq [OF inv s]
            by (simp add: flash_reserve_def fs_lift_def fs_reserve_def flash_require_slot_def pages_for_eq)
        next
          case (Inr sl1)
          let ?q = "fl_put s (fl_free p) sl1 p"
          have q: "flash_inv ?q" by (rule flash_inv_bump [OF inv s Inr])
          have sl1: "sl1 = fl_slots ?q ! s" using len by simp
          have a: "?a = length (fl_pages sl1)" using fs_bump_pages [OF Inr] by simp
          obtain f' sl' where t: "fs_take (needed - ?a) (fl_free ?q) sl1 = (f', sl')" by fastforce
          have tok: "fl_tokens sl' = fl_tokens ?sl" using t fs_bump_pages [OF Inr] by (auto simp: fs_take_def)
          have "?a + (needed - ?a) \<le> FLASH_PHYSICAL_PAGES" using fl_slot_ok_len [OF ok] n(1) by simp
          then have row: "length (fl_row_of sl') = FLASH_PHYSICAL_PAGES" using fl_row_fs_take [OF _ t] a by simp
          have n': "needed \<le> ?a + length (fl_free ?q)" using n by simp
          have put: "fl_put s f' (sl'\<lparr>fl_state := FlashActive\<rparr>) ?q = fl_put s f' (sl'\<lparr>fl_state := FlashActive\<rparr>) p"
            by (rule fl_put_bump_put [OF inv s Inr]) (use row in \<open>simp add: fl_row_of_def\<close>)
          show ?thesis
            using flash_reserve_tail [OF q s sl1 a refl n(1) n' t] s nd n free t len tok Inr flash_advance_eq [OF inv s] put
            by (simp add: flash_reserve_def fs_lift_def fs_reserve_def flash_require_slot_def pages_for_eq Let_def)
        qed
      qed
    qed
  qed
qed (simp add: flash_reserve_def fs_lift_def flash_require_slot_def)

section \<open>What one abstract operation does to its slot\<close>

datatype flash_op =
    FlReserve nat nat | FlCommit nat nat | FlTruncate nat nat | FlRollback nat nat
  | FlRetain nat | FlRestart nat | FlRecycle nat | FlClearDirty nat

fun flash_op_slot :: "flash_op \<Rightarrow> nat" where
  "flash_op_slot (FlReserve s n) = s"
| "flash_op_slot (FlCommit s n) = s"
| "flash_op_slot (FlTruncate s n) = s"
| "flash_op_slot (FlRollback s n) = s"
| "flash_op_slot (FlRetain s) = s"
| "flash_op_slot (FlRestart s) = s"
| "flash_op_slot (FlRecycle s) = s"
| "flash_op_slot (FlClearDirty s) = s"

definition drop_value :: "'a engine_result \<times> 'p \<Rightarrow> unit engine_result \<times> 'p" where
  "drop_value x = apfst (map_sum id (\<lambda>_. ())) x"

fun flash_exec :: "flash_op \<Rightarrow> flash_pool \<Rightarrow> unit engine_result \<times> flash_pool" where
  "flash_exec (FlReserve s n) p = drop_value (flash_reserve s n p)"
| "flash_exec (FlCommit s n) p = drop_value (flash_commit s n p)"
| "flash_exec (FlTruncate s n) p = drop_value (flash_truncate s n p)"
| "flash_exec (FlRollback s n) p = drop_value (flash_rollback s n p)"
| "flash_exec (FlRetain s) p = drop_value (flash_retain s p)"
| "flash_exec (FlRestart s) p = drop_value (flash_restart s p)"
| "flash_exec (FlRecycle s) p = drop_value (flash_recycle s p)"
| "flash_exec (FlClearDirty s) p = drop_value (flash_clear_dirty s p)"

fun fs_exec :: "flash_op \<Rightarrow> nat list \<Rightarrow> flash_slot \<Rightarrow> unit fs_result" where
  "fs_exec (FlReserve s n) f sl = drop_value (fs_reserve n f sl)"
| "fs_exec (FlCommit s n) f sl = drop_value (fs_commit n f sl)"
| "fs_exec (FlTruncate s n) f sl = drop_value (fs_truncate n f sl)"
| "fs_exec (FlRollback s n) f sl = drop_value (fs_rollback n f sl)"
| "fs_exec (FlRetain s) f sl = drop_value (fs_retain f sl)"
| "fs_exec (FlRestart s) f sl = drop_value (fs_restart f sl)"
| "fs_exec (FlRecycle s) f sl = drop_value (fs_recycle f sl)"
| "fs_exec (FlClearDirty s) f sl = drop_value (fs_clear_dirty f sl)"

lemma drop_value_lift:
  "drop_value (fs_lift s f p) = fs_lift s (\<lambda>g sl. drop_value (f g sl)) p"
  by (simp add: drop_value_def fs_lift_def apfst_def map_prod_def split: prod.splits)

lemma flash_exec_eq:
  "flash_inv p \<Longrightarrow> flash_exec op p = fs_lift (flash_op_slot op) (fs_exec op) p"
  by (cases op)
    (simp_all add: flash_reserve_eq flash_commit_eq flash_truncate_eq flash_rollback_eq flash_retain_eq
      flash_restart_eq flash_recycle_eq flash_clear_dirty_eq drop_value_lift, simp_all add: fs_lift_def)

text \<open>
  The table entries whose device copy may be stale, and the two relations every operation keeps:
  a changed table entry is marked, and while the sequence epoch stands still the committed positions
  that remain are where they were.
\<close>

definition fl_dirty_set :: "flash_slot \<Rightarrow> nat set" where
  "fl_dirty_set sl = (case fl_dirty sl of None \<Rightarrow> {} | Some (a, b) \<Rightarrow> {a..<b})"

definition fs_marks :: "flash_slot \<Rightarrow> flash_slot \<Rightarrow> bool" where
  "fs_marks sl sl' \<longleftrightarrow> fl_dirty_set sl \<subseteq> fl_dirty_set sl' \<and>
    (\<forall>e<FLASH_PHYSICAL_PAGES. e \<notin> fl_dirty_set sl' \<longrightarrow> fl_row_of sl' ! e = fl_row_of sl ! e)"

definition fs_epoch :: "flash_slot \<Rightarrow> flash_slot \<Rightarrow> bool" where
  "fs_epoch sl sl' \<longleftrightarrow> fl_sequence sl \<le> fl_sequence sl' \<and>
    (fl_sequence sl' = fl_sequence sl \<longrightarrow>
      (\<forall>i. i < fl_tokens sl \<longrightarrow> i < fl_tokens sl' \<longrightarrow> page_coordinate (fl_pages sl') i = page_coordinate (fl_pages sl) i))"

definition fs_good :: "nat list \<Rightarrow> flash_slot \<Rightarrow> 'a fs_result \<Rightarrow> bool" where
  "fs_good f sl x \<longleftrightarrow> (case x of (r, f', sl') \<Rightarrow>
    fl_slot_ok sl' \<and> mset f' + mset (fl_pages sl') = mset f + mset (fl_pages sl) \<and>
    (\<not> is_ok r \<longrightarrow> f' = f \<and> sl' = sl) \<and> fs_epoch sl sl')"

lemma fl_dirty_set_mark: "a < b \<Longrightarrow> fl_dirty_set sl \<union> {a..<b} \<subseteq> fl_dirty_set (flash_mark a b sl)"
  by (auto simp: fl_dirty_set_def flash_mark_def split: option.splits)

lemma fl_dirty_set_upd [simp]:
  "fl_dirty_set (sl\<lparr>fl_pages := ps\<rparr>) = fl_dirty_set sl" "fl_dirty_set (sl\<lparr>fl_tokens := n\<rparr>) = fl_dirty_set sl"
  "fl_dirty_set (sl\<lparr>fl_state := x\<rparr>) = fl_dirty_set sl" "fl_dirty_set (sl\<lparr>fl_sequence := m\<rparr>) = fl_dirty_set sl"
  by (simp_all add: fl_dirty_set_def)

lemma fl_row_of_upd [simp]:
  "fl_row_of (sl\<lparr>fl_tokens := n\<rparr>) = fl_row_of sl" "fl_row_of (sl\<lparr>fl_state := x\<rparr>) = fl_row_of sl"
  "fl_row_of (sl\<lparr>fl_sequence := m\<rparr>) = fl_row_of sl" "fl_row_of (flash_mark a b sl) = fl_row_of sl"
  by (simp_all add: fl_row_of_def)

lemma fs_marks_refl [simp]: "fs_marks sl sl"
  by (simp add: fs_marks_def)

lemma fs_marks_upd [simp]:
  "fs_marks sl (sl'\<lparr>fl_tokens := n\<rparr>) = fs_marks sl sl'" "fs_marks sl (sl'\<lparr>fl_state := x\<rparr>) = fs_marks sl sl'"
  "fs_marks sl (sl'\<lparr>fl_sequence := m\<rparr>) = fs_marks sl sl'" "fs_marks (sl\<lparr>fl_sequence := m\<rparr>) sl' = fs_marks sl sl'"
  by (simp_all add: fs_marks_def)

lemma fl_row_of_nth:
  "e < FLASH_PHYSICAL_PAGES \<Longrightarrow> length (fl_pages sl) \<le> FLASH_PHYSICAL_PAGES \<Longrightarrow>
    fl_row_of sl ! e = (if e < length (fl_pages sl) then fl_pages sl ! e else FLASH_UNMAPPED_PAGE)"
  by (simp add: fl_row_of_def nth_append)

lemma fs_take_marks:
  assumes "length (fl_pages sl) + k \<le> FLASH_PHYSICAL_PAGES" and "fs_take k f sl = (f', sl')"
  shows "fs_marks sl sl'"
proof (cases "k = 0")
  case True
  then show ?thesis using assms(2) by (auto simp: fs_take_def fl_same)
next
  case False
  let ?a = "length (fl_pages sl)"
  have sl': "sl' = (flash_mark ?a (?a + k) sl)\<lparr>fl_pages := fl_pages sl @ take k (rev f)\<rparr>"
    using False assms(2) by (auto simp: fs_take_def)
  have "fl_dirty_set sl \<union> {?a..<?a + k} \<subseteq> fl_dirty_set sl'"
    using False fl_dirty_set_mark [of ?a "?a + k" sl] by (simp add: sl')
  moreover have "fl_row_of sl' ! e = fl_row_of sl ! e" if "e < FLASH_PHYSICAL_PAGES" "e \<notin> {?a..<?a + k}" for e
    using that assms(1) by (auto simp: sl' fl_row_of_nth nth_append)
  ultimately show ?thesis unfolding fs_marks_def by blast
qed

lemma fs_keep_marks:
  assumes "fl_slot_ok sl" and "fs_keep k f sl = (f', sl')"
  shows "fs_marks sl sl'"
proof (cases "length (fl_pages sl) \<le> k")
  case True
  then show ?thesis using assms(2) by (auto simp: fs_keep_def fl_same)
next
  case False
  let ?b = "length (fl_pages sl)"
  have sl': "sl' = (flash_mark k ?b sl)\<lparr>fl_pages := take k (fl_pages sl)\<rparr>"
    using False assms(2) by (auto simp: fs_keep_def)
  have "fl_dirty_set sl \<union> {k..<?b} \<subseteq> fl_dirty_set sl'"
    using False fl_dirty_set_mark [of k ?b sl] by (simp add: sl')
  moreover have "fl_row_of sl' ! e = fl_row_of sl ! e" if "e < FLASH_PHYSICAL_PAGES" "e \<notin> {k..<?b}" for e
    using that fl_slot_ok_len [OF assms(1)] by (auto simp: sl' fl_row_of_nth)
  ultimately show ?thesis unfolding fs_marks_def by blast
qed

lemma fl_slot_ok_mark:
  "fl_slot_ok sl \<Longrightarrow> b \<le> FLASH_PHYSICAL_PAGES \<Longrightarrow> fl_slot_ok (flash_mark a b sl)"
  unfolding fl_slot_ok_def flash_mark_def by (cases "fl_dirty sl") auto

lemma fl_slot_ok_pages:
  "fl_slot_ok sl \<Longrightarrow> length ps \<le> FLASH_PHYSICAL_PAGES \<Longrightarrow> fl_tokens sl \<le> length ps * ATTENTION_PAGE_SIZE \<Longrightarrow>
    fl_slot_ok (sl\<lparr>fl_pages := ps, fl_state := FlashActive\<rparr>)"
  by (simp add: fl_slot_ok_def)

lemma fs_take_ok:
  assumes ok: "fl_slot_ok sl" and k: "length (fl_pages sl) + k \<le> FLASH_PHYSICAL_PAGES" "k \<le> length f"
    and t: "fs_take k f sl = (f', sl')"
  shows "fl_slot_ok (sl'\<lparr>fl_state := FlashActive\<rparr>)" "mset f' + mset (fl_pages sl') = mset f + mset (fl_pages sl)"
    "fl_tokens sl' = fl_tokens sl" "fl_sequence sl' = fl_sequence sl" "\<exists>new. fl_pages sl' = fl_pages sl @ new"
    "length (fl_pages sl') = length (fl_pages sl) + k"
proof -
  let ?m = "if k = 0 then sl else flash_mark (length (fl_pages sl)) (length (fl_pages sl) + k) sl"
  have sl': "sl' = ?m\<lparr>fl_pages := fl_pages sl @ take k (rev f)\<rparr>" and f': "f' = take (length f - k) f"
    using t by (auto simp: fs_take_def)
  have m: "fl_slot_ok ?m" using ok k(1) by (simp add: fl_slot_ok_mark)
  have m': "fl_pages ?m = fl_pages sl" "fl_tokens ?m = fl_tokens sl" "fl_sequence ?m = fl_sequence sl" by simp_all
  show "fl_tokens sl' = fl_tokens sl" "fl_sequence sl' = fl_sequence sl" "\<exists>new. fl_pages sl' = fl_pages sl @ new"
    using m' by (simp_all add: sl')
  show len: "length (fl_pages sl') = length (fl_pages sl) + k" using k by (simp add: sl')
  have "mset (take k (rev f)) = mset (drop (length f - k) f)" by (simp only: take_rev mset_rev)
  then have "mset f' + mset (take k (rev f)) = mset f"
    unfolding f' by (metis append_take_drop_id mset_append)
  then show "mset f' + mset (fl_pages sl') = mset f + mset (fl_pages sl)"
    by (simp add: sl' ac_simps)
  have "length (fl_pages sl) * ATTENTION_PAGE_SIZE \<le> length (fl_pages sl') * ATTENTION_PAGE_SIZE"
    using len by (intro mult_le_mono1) simp
  moreover have "fl_tokens sl \<le> length (fl_pages sl) * ATTENTION_PAGE_SIZE" using ok by (simp add: fl_slot_ok_def)
  ultimately have tok: "fl_tokens ?m \<le> length (fl_pages sl') * ATTENTION_PAGE_SIZE" using m'(2) by linarith
  have "fl_slot_ok (?m\<lparr>fl_pages := fl_pages sl', fl_state := FlashActive\<rparr>)"
    by (rule fl_slot_ok_pages [OF m _ tok]) (simp add: len k(1))
  then show "fl_slot_ok (sl'\<lparr>fl_state := FlashActive\<rparr>)" by (simp add: sl')
qed

lemma fs_keep_ok:
  assumes ok: "fl_slot_ok sl" and t: "fs_keep k f sl = (f', sl')"
    and n: "n \<le> k * ATTENTION_PAGE_SIZE" "n \<le> fl_tokens sl"
  shows "fl_slot_ok (sl'\<lparr>fl_tokens := n\<rparr>)" "mset f' + mset (fl_pages sl') = mset f + mset (fl_pages sl)"
    "fl_tokens sl' = fl_tokens sl" "fl_sequence sl' = fl_sequence sl" "fl_pages sl' = take k (fl_pages sl)"
proof -
  let ?m = "if length (fl_pages sl) \<le> k then sl else flash_mark k (length (fl_pages sl)) sl"
  have sl': "sl' = ?m\<lparr>fl_pages := take k (fl_pages sl)\<rparr>" and f': "f' = f @ rev (drop k (fl_pages sl))"
    using t by (auto simp: fs_keep_def)
  have m: "fl_slot_ok ?m" using ok by (simp add: fl_slot_ok_mark fl_slot_ok_len)
  show "fl_tokens sl' = fl_tokens sl" "fl_sequence sl' = fl_sequence sl" "fl_pages sl' = take k (fl_pages sl)"
    by (simp_all add: sl')
  have "mset (take k (fl_pages sl)) + mset (drop k (fl_pages sl)) = mset (fl_pages sl)"
    by (metis append_take_drop_id mset_append)
  then show "mset f' + mset (fl_pages sl') = mset f + mset (fl_pages sl)"
    by (simp add: sl' f' ac_simps)
  have "n \<le> length (fl_pages sl) * ATTENTION_PAGE_SIZE" using ok n(2) by (simp add: fl_slot_ok_def)
  then have "n \<le> length (take k (fl_pages sl)) * ATTENTION_PAGE_SIZE" using n(1) by (simp add: min_def)
  then show "fl_slot_ok (sl'\<lparr>fl_tokens := n\<rparr>)"
    using m by (auto simp: fl_slot_ok_def sl')
qed

lemma fs_bump_ok:
  assumes "fl_slot_ok sl" and "fs_bump sl = Inr sl1"
  shows "fl_slot_ok sl1" "fl_sequence sl < fl_sequence sl1" "fl_pages sl1 = fl_pages sl" "fl_tokens sl1 = fl_tokens sl"
    "fl_state sl1 = fl_state sl" "fl_dirty sl1 = fl_dirty sl"
  using fs_bump_Inr [OF assms(2)] assms(1) by auto

lemma fs_epoch_refl [simp]: "fs_epoch sl sl"
  by (simp add: fs_epoch_def)

lemma fs_epoch_bump: "fl_sequence sl < fl_sequence sl' \<Longrightarrow> fs_epoch sl sl'"
  by (simp add: fs_epoch_def)

lemma fs_epoch_prefix:
  "fl_slot_ok sl \<Longrightarrow> fl_sequence sl' = fl_sequence sl \<Longrightarrow> fl_pages sl' = fl_pages sl @ new \<Longrightarrow> fs_epoch sl sl'"
  by (simp add: fs_epoch_def fl_slot_ok_def page_coordinate_append)

lemma fs_epoch_cut:
  "fl_sequence sl' = fl_sequence sl \<Longrightarrow> fl_pages sl' = take k (fl_pages sl) \<Longrightarrow>
    fl_tokens sl' \<le> k * ATTENTION_PAGE_SIZE \<Longrightarrow> fs_epoch sl sl'"
  by (simp add: fs_epoch_def page_coordinate_take)

lemma fs_reserve_good: "fl_slot_ok sl \<Longrightarrow> fs_good f sl (fs_reserve n f sl)"
proof -
  assume ok: "fl_slot_ok sl"
  let ?a = "length (fl_pages sl)"
  show ?thesis
  proof (cases "n < fl_tokens sl \<or> (\<exists>e. fs_pages_needed n = Inl e)")
    case True
    then show ?thesis using ok by (auto simp: fs_reserve_def fs_good_def)
  next
    case False
    then obtain needed where nd: "fs_pages_needed n = Inr needed" "\<not> n < fl_tokens sl" by (metis sum.exhaust)
    let ?k = "needed - ?a"
    have run: "fs_good f sl (Inr c, f', sl'\<lparr>fl_state := FlashActive\<rparr>)"
      if "fl_slot_ok sl1" "fl_pages sl1 = fl_pages sl" "fl_tokens sl1 = fl_tokens sl" "fl_sequence sl \<le> fl_sequence sl1"
        "needed \<le> FLASH_PHYSICAL_PAGES" "needed \<le> ?a + length f" "fs_take ?k f sl1 = (f', sl')" for sl1 c f' sl'
    proof -
      have ak: "length (fl_pages sl1) + ?k \<le> FLASH_PHYSICAL_PAGES" "?k \<le> length f"
        using fl_slot_ok_len [OF ok] that(2,5,6) by simp_all
      note hyps = that
      note t = fs_take_ok [OF that(1) ak that(7)]
      obtain new where "fl_pages sl' = fl_pages sl @ new" using t(5) hyps(2) by auto
      then have "fs_epoch sl (sl'\<lparr>fl_state := FlashActive\<rparr>)"
        using hyps(4) t(4) ok fs_epoch_bump [of sl "sl'\<lparr>fl_state := FlashActive\<rparr>"]
          fs_epoch_prefix [of sl "sl'\<lparr>fl_state := FlashActive\<rparr>" new]
        by (cases "fl_sequence sl = fl_sequence sl1") auto
      then show ?thesis using t hyps(2) by (simp add: fs_good_def)
    qed
    have stop: "fs_good f sl (Inl e, f, sl)" for e using ok by (simp add: fs_good_def)
    show ?thesis
    proof (cases "needed > FLASH_PHYSICAL_PAGES \<or> needed > ?a + length f")
      case True
      then show ?thesis using stop nd by (auto simp: fs_reserve_def)
    next
      case room: False
      show ?thesis
      proof (cases "if fl_state sl = FlashFree then fs_bump sl else Inr sl")
        case (Inl e)
        then show ?thesis using stop nd room by (simp add: fs_reserve_def)
      next
        case (Inr sl1)
        then have sl1: "fl_slot_ok sl1" "fl_pages sl1 = fl_pages sl" "fl_tokens sl1 = fl_tokens sl"
          "fl_sequence sl \<le> fl_sequence sl1"
          using ok fs_bump_ok [OF ok, of sl1] by (auto split: if_splits)
        obtain f' sl' where t: "fs_take ?k f sl1 = (f', sl')" by fastforce
        show ?thesis
          using run [OF sl1 _ _ t] nd room Inr t sl1(2) by (simp add: fs_reserve_def Let_def)
      qed
    qed
  qed
qed

lemma fs_cut_good:
  assumes "fl_slot_ok sl" and "n \<le> fl_tokens sl"
  shows "fs_good f sl (fs_cut n f sl)"
proof -
  obtain f' sl' where k: "fs_keep (div_ceil n ATTENTION_PAGE_SIZE) f sl = (f', sl')" by fastforce
  have n: "n \<le> div_ceil n ATTENTION_PAGE_SIZE * ATTENTION_PAGE_SIZE" by (rule le_div_ceil_mult) simp
  note t = fs_keep_ok [OF assms(1) k n assms(2)]
  have "fs_epoch sl (sl'\<lparr>fl_tokens := n\<rparr>)" using t n by (intro fs_epoch_cut) simp_all
  then show ?thesis using k t by (simp add: fs_cut_def fs_good_def)
qed

lemma fs_good_bump:
  assumes "fl_slot_ok sl" and "fs_bump sl = Inr sl1" and "fs_good f sl1 (Inr x, f', sl')"
  shows "fs_good f sl (Inr x, f', sl')"
  using assms(3) fs_bump_ok [OF assms(1,2)] by (auto simp: fs_good_def fs_epoch_def)

lemma fs_truncate_good: "fl_slot_ok sl \<Longrightarrow> fs_good f sl (fs_truncate n f sl)"
proof -
  assume ok: "fl_slot_ok sl"
  have err: "fs_good f sl (Inl e, f, sl)" for e :: engine_error using ok by (simp add: fs_good_def)
  show ?thesis
  proof (cases "if n < fl_tokens sl then fs_bump sl else Inr sl")
    case (Inl e)
    then show ?thesis using ok by (auto simp: fs_truncate_def fs_good_def split: if_splits)
  next
    case (Inr sl1)
    obtain c f' sl' where cut: "fs_cut n f sl1 = (Inr c, f', sl')"
      by (cases "fs_keep (div_ceil n ATTENTION_PAGE_SIZE) f sl1") (auto simp: fs_cut_def Let_def)
    have "fs_good f sl (fs_cut n f sl1)" if "n \<le> fl_tokens sl"
    proof (cases "n < fl_tokens sl")
      case True
      then have b: "fs_bump sl = Inr sl1" using Inr by simp
      have "fs_good f sl1 (fs_cut n f sl1)" using that fs_bump_ok [OF ok b] by (intro fs_cut_good) simp_all
      then show ?thesis unfolding cut by (rule fs_good_bump [OF ok b])
    next
      case False
      then show ?thesis using Inr fs_cut_good [OF ok that] by simp
    qed
    then show ?thesis using Inr ok by (auto simp: fs_truncate_def fs_good_def)
  qed
qed

lemma fs_commit_good: "fl_slot_ok sl \<Longrightarrow> fs_good f sl (fs_commit n f sl)"
  by (auto simp: fs_commit_def fs_good_def fl_slot_ok_def fs_epoch_def)

lemma fs_retain_good: "fl_slot_ok sl \<Longrightarrow> fs_good f sl (fs_retain f sl)"
  by (auto simp: fs_retain_def fs_good_def fl_slot_ok_def fs_epoch_def)

lemma fs_clear_dirty_good: "fl_slot_ok sl \<Longrightarrow> fs_good f sl (fs_clear_dirty f sl)"
  by (auto simp: fs_clear_dirty_def fs_good_def fl_slot_ok_def fs_epoch_def)

lemma fs_rollback_good: "fl_slot_ok sl \<Longrightarrow> fs_good f sl (fs_rollback n f sl)"
  using fs_cut_good [of sl n f] by (auto simp: fs_rollback_def fs_good_def)

lemma fs_restart_good: "fl_slot_ok sl \<Longrightarrow> fs_good f sl (fs_restart f sl)"
proof -
  assume ok: "fl_slot_ok sl"
  show ?thesis
  proof (cases "fs_bump sl")
    case (Inl e)
    then show ?thesis using ok by (simp add: fs_restart_def fs_good_def)
  next
    case (Inr sl1)
    note b = fs_bump_ok [OF ok Inr]
    have "fl_slot_ok (sl1\<lparr>fl_state := FlashActive, fl_tokens := 0\<rparr>)" using b(1) by (simp add: fl_slot_ok_def)
    then show ?thesis using ok Inr b by (simp add: fs_restart_def fs_good_def fs_epoch_def)
  qed
qed

lemma fs_recycle_good: "fl_slot_ok sl \<Longrightarrow> fs_good f sl (fs_recycle f sl)"
proof -
  assume ok: "fl_slot_ok sl"
  show ?thesis
  proof (cases "fs_bump sl")
    case (Inl e)
    then show ?thesis using ok by (simp add: fs_recycle_def fs_good_def)
  next
    case (Inr sl1)
    note b = fs_bump_ok [OF ok Inr]
    obtain f' sl' where k: "fs_keep 0 f sl1 = (f', sl')" by fastforce
    note t = fs_keep_ok [OF b(1) k, of 0]
    have "fl_slot_ok (sl'\<lparr>fl_tokens := 0, fl_state := FlashFree\<rparr>)" using t by (simp add: fl_slot_ok_def)
    then show ?thesis using ok Inr b t k by (simp add: fs_recycle_def fs_good_def fs_epoch_def)
  qed
qed

lemma fs_good_drop: "fs_good f sl (drop_value x) = fs_good f sl x"
proof -
  obtain r f' sl' where "x = (r, f', sl')" by (cases x) auto
  then show ?thesis by (cases r) (simp_all add: fs_good_def drop_value_def)
qed

lemma fs_exec_good: "fl_slot_ok sl \<Longrightarrow> fs_good f sl (fs_exec op f sl)"
  by (cases op)
    (simp_all add: fs_good_drop fs_reserve_good fs_commit_good fs_truncate_good fs_rollback_good fs_retain_good
      fs_restart_good fs_recycle_good fs_clear_dirty_good)

lemma fs_bump_marks: "fs_bump sl = Inr sl1 \<Longrightarrow> fs_marks sl1 sl' = fs_marks sl sl'"
  by (auto dest!: fs_bump_Inr)

lemma fs_cut_marks: "fl_slot_ok sl \<Longrightarrow> fs_cut n f sl = (r, f', sl') \<Longrightarrow> fs_marks sl sl'"
  by (auto simp: fs_cut_def Let_def dest: fs_keep_marks split: prod.splits)

lemma fs_take_marks_needed:
  "fs_take (needed - length ps) f sl = (f', sl') \<Longrightarrow> ps = fl_pages sl \<and> length ps \<le> FLASH_PHYSICAL_PAGES \<and>
    needed \<le> FLASH_PHYSICAL_PAGES \<longrightarrow> fs_marks sl sl'"
  by (auto intro: fs_take_marks [rotated])

lemma fs_exec_marks:
  assumes ok: "fl_slot_ok sl" and op: "\<And>s. op \<noteq> FlClearDirty s" and run: "fs_exec op f sl = (r, f', sl')"
  shows "fs_marks sl sl'"
proof (cases op)
  case (FlReserve s n)
  then show ?thesis
    using run fl_slot_ok_len [OF ok] fs_bump_ok(3) [OF ok]
    by (auto simp: drop_value_def fs_reserve_def Let_def fs_bump_marks [symmetric] dest!: fs_take_marks_needed
        split: if_splits sum.splits prod.splits)
next
  case (FlTruncate s n)
  then show ?thesis
    using run ok fs_bump_ok(1) [OF ok] fs_cut_marks
    by (auto simp: drop_value_def fs_truncate_def split: if_splits sum.splits) (metis apfst_conv fs_bump_marks surj_pair fst_conv snd_conv)+
next
  case (FlRecycle s)
  then show ?thesis
    using run fs_bump_ok(1) [OF ok]
    by (auto simp: drop_value_def fs_recycle_def fs_bump_marks [symmetric] dest: fs_keep_marks split: if_splits sum.splits prod.splits)
next
  case (FlRollback s n)
  then show ?thesis
    using run fs_cut_marks [OF ok, of n f]
    by (auto simp: drop_value_def fs_rollback_def split: if_splits) (metis apfst_conv surj_pair snd_conv)
qed (use run op in \<open>auto simp: drop_value_def fs_commit_def fs_retain_def fs_restart_def fs_bump_def split: if_splits sum.splits\<close>)

section \<open>The invariant of the pool\<close>

lemma flash_new_inv: "flash_new n = Inr p \<Longrightarrow> flash_inv p"
proof -
  assume new: "flash_new n = Inr p"
  have p: "fl_free p = rev [0..<n]" "fl_slots p = replicate MAX_BATCH flash_slot_new"
    "fl_table p = replicate (MAX_BATCH * FLASH_PHYSICAL_PAGES) FLASH_UNMAPPED_PAGE" "fl_funded p = n"
    "n \<le> MAX_BATCH * FLASH_PHYSICAL_PAGES"
    using new by (auto simp: flash_new_def split: if_splits)
  have "fl_slot_ok flash_slot_new" by (simp add: fl_slot_ok_def flash_slot_new_def U64_BOUND_def)
  moreover have "(\<Sum>s<MAX_BATCH. mset (fl_pages (fl_slots p ! s))) = {#}"
    by (rule sum.neutral) (simp add: p flash_slot_new_def)
  moreover have "fl_row_of flash_slot_new = replicate FLASH_PHYSICAL_PAGES FLASH_UNMAPPED_PAGE"
    by (simp add: fl_row_of_def flash_slot_new_def)
  ultimately show ?thesis
    unfolding flash_inv_def using p row_index_bound [of _ MAX_BATCH _ FLASH_PHYSICAL_PAGES] by simp
qed

lemma flash_exec_step:
  assumes inv: "flash_inv p" and run: "flash_exec op p = (r, p')" and s: "flash_op_slot op < MAX_BATCH"
  shows "\<exists>f' sl'. fs_exec op (fl_free p) (fl_slots p ! flash_op_slot op) = (r, f', sl') \<and>
    p' = fl_put (flash_op_slot op) f' sl' p \<and>
    fs_good (fl_free p) (fl_slots p ! flash_op_slot op) (r, f', sl')"
proof -
  obtain r' f' sl' where x: "fs_exec op (fl_free p) (fl_slots p ! flash_op_slot op) = (r', f', sl')"
    by (metis prod_cases3)
  have "fs_good (fl_free p) (fl_slots p ! flash_op_slot op) (r', f', sl')"
    using fs_exec_good [OF flash_invD(3) [OF inv s], of "fl_free p" op] x by simp
  then show ?thesis
    using run s x flash_exec_eq [OF inv, of op] by (simp add: fs_lift_def)
qed

lemma flash_exec_out: "flash_inv p \<Longrightarrow> \<not> flash_op_slot op < MAX_BATCH \<Longrightarrow>
    flash_exec op p = (Inl (route_error ''Flash-Next slot is outside 0..8''), p)"
  by (simp add: flash_exec_eq fs_lift_def)

lemma flash_exec_inv: "flash_inv p \<Longrightarrow> flash_exec op p = (r, p') \<Longrightarrow> flash_inv p'"
proof (cases "flash_op_slot op < MAX_BATCH")
  case True
  assume inv: "flash_inv p" and run: "flash_exec op p = (r, p')"
  then show ?thesis
    using flash_exec_step [OF inv run True] by (auto simp: fs_good_def intro: flash_inv_put [OF inv True])
qed (auto simp: flash_exec_out)

end
