(* ===== verification/FlashProperties.thy ===== *)
theory FlashProperties
  imports FlashSpec
begin

text \<open>
  What \<open>Qwen38FlashNextSlotPool\<close> guarantees in every state it can reach: the reset loop, the page
  interface it shares with the paged KV pool, and the device copy of the block table that
  \<open>flush_block_tables\<close> keeps.
\<close>

section \<open>Reset\<close>

definition fs_reset_slot :: "flash_slot \<Rightarrow> flash_slot" where
  "fs_reset_slot sl = \<lparr>fl_state = FlashFree,
    fl_sequence = (if fl_state sl = FlashFree then fl_sequence sl else fl_sequence sl + 1),
    fl_pages = [], fl_tokens = 0, fl_dirty = Some (0, FLASH_PHYSICAL_PAGES)\<rparr>"

definition fs_epoch_full :: "flash_slot \<Rightarrow> bool" where
  "fs_epoch_full sl \<longleftrightarrow> fl_state sl \<noteq> FlashFree \<and> fl_sequence sl = U64_BOUND - 1"

lemma flash_reset_step:
  assumes inv: "flash_inv p" and s: "s < MAX_BATCH" and room: "\<not> fs_epoch_full (fl_slots p ! s)"
  shows "\<exists>f' sl'. flash_reset_loop (s # ss) p = flash_reset_loop ss (fl_put s f' sl' p) \<and>
    flash_inv (fl_put s f' sl' p) \<and> sl'\<lparr>fl_dirty := Some (0, FLASH_PHYSICAL_PAGES)\<rparr> = fs_reset_slot (fl_slots p ! s)"
proof -
  let ?sl = "fl_slots p ! s"
  note i = flash_invD [OF inv]
  note ok = i(3) [OF s]
  let ?sl1 = "if fl_state ?sl \<noteq> FlashFree then ?sl\<lparr>fl_sequence := fl_sequence ?sl + 1\<rparr> else ?sl"
  let ?q = "fl_put s (fl_free p) ?sl1 p"
  have len: "s < length (fl_slots p)" using i(1) s by simp
  have "fl_state ?sl \<noteq> FlashFree \<Longrightarrow> fl_sequence ?sl + 1 < U64_BOUND"
    using room ok by (auto simp: fs_epoch_full_def fl_slot_ok_def)
  then have ok1: "fl_slot_ok ?sl1" using ok by (simp add: fl_slot_ok_upd)
  have q: "flash_inv ?q" by (intro flash_inv_put [OF inv s ok1]) simp
  have upd: "(if fl_state ?sl \<noteq> FlashFree then fl_upd s (\<lambda>sl. sl\<lparr>fl_sequence := fl_sequence sl + 1\<rparr>) p else p) = ?q"
    using fl_put_same [OF inv s] fl_upd_put [OF inv s, of "\<lambda>sl. sl\<lparr>fl_sequence := fl_sequence sl + 1\<rparr>"] by simp
  have sl1: "?sl1 = fl_slots ?q ! s" using len by simp
  obtain f' sl' where k: "fs_keep 0 (fl_free ?q) ?sl1 = (f', sl')" by fastforce
  note t = fs_keep_ok [OF ok1 k, of 0]
  let ?new = "sl'\<lparr>fl_tokens := 0, fl_state := FlashFree\<rparr>"
  have ok2: "fl_slot_ok ?new" using t by (simp add: fl_slot_ok_def)
  have put: "fl_put s f' ?new ?q = fl_put s f' ?new p"
    by (rule fl_put_put) (use length_fl_row_of [OF ok1] length_fl_row_of [OF ok2] i(2) s in simp_all)
  have "s < length (fl_slots ?q)" using len by (simp add: fl_put_def)
  then have "flash_reset_loop (s # ss) p = flash_reset_loop ss (fl_put s f' ?new ?q)"
    using flash_truncate_to_zero_eq [OF q s sl1] k upd by (simp add: fl_upd_fl_put Let_def)
  moreover have "flash_inv (fl_put s f' ?new p)"
    by (rule flash_inv_put [OF inv s ok2]) (use t(2) in simp)
  moreover have "?new\<lparr>fl_dirty := Some (0, FLASH_PHYSICAL_PAGES)\<rparr> = fs_reset_slot ?sl"
    using k by (auto simp: fs_keep_def fs_reset_slot_def flash_mark_def split: option.splits if_splits)
  ultimately show ?thesis using put by auto
qed

lemma flash_reset_loop_ok:
  assumes "flash_inv p" and "set ss \<subseteq> {..<MAX_BATCH}" and "distinct ss"
    and "\<forall>s\<in>set ss. \<not> fs_epoch_full (fl_slots p ! s)"
  shows "\<exists>q. flash_reset_loop ss p = (Inr (), q) \<and> flash_inv q \<and> fl_funded q = fl_funded p \<and>
    (\<forall>s\<in>set ss. (fl_slots q ! s)\<lparr>fl_dirty := Some (0, FLASH_PHYSICAL_PAGES)\<rparr> = fs_reset_slot (fl_slots p ! s)) \<and>
    (\<forall>s. s \<notin> set ss \<longrightarrow> fl_slots q ! s = fl_slots p ! s)"
  using assms
proof (induction ss arbitrary: p)
  case (Cons s ss)
  have s: "s < MAX_BATCH" using Cons.prems(2) by simp
  obtain f' sl' where st: "flash_reset_loop (s # ss) p = flash_reset_loop ss (fl_put s f' sl' p)"
    "flash_inv (fl_put s f' sl' p)" "sl'\<lparr>fl_dirty := Some (0, FLASH_PHYSICAL_PAGES)\<rparr> = fs_reset_slot (fl_slots p ! s)"
    using flash_reset_step [OF Cons.prems(1) s, of ss] Cons.prems(4) by auto
  let ?p = "fl_put s f' sl' p"
  have slots: "fl_slots ?p ! t = (if t = s then sl' else fl_slots p ! t)" for t
    using flash_invD(1) [OF Cons.prems(1)] s by (simp add: fl_put_def nth_list_update)
  have "\<forall>t\<in>set ss. \<not> fs_epoch_full (fl_slots ?p ! t)" using Cons.prems(3,4) slots by auto
  then obtain q where q: "flash_reset_loop ss ?p = (Inr (), q)" "flash_inv q" "fl_funded q = fl_funded ?p"
    "\<forall>t\<in>set ss. (fl_slots q ! t)\<lparr>fl_dirty := Some (0, FLASH_PHYSICAL_PAGES)\<rparr> = fs_reset_slot (fl_slots ?p ! t)"
    "\<forall>t. t \<notin> set ss \<longrightarrow> fl_slots q ! t = fl_slots ?p ! t"
    using Cons.IH [OF st(2)] Cons.prems by auto
  have "s \<notin> set ss" using Cons.prems(3) by simp
  moreover have "fl_funded ?p = fl_funded p" by (simp add: fl_put_def)
  ultimately have "\<forall>t\<in>set (s # ss). (fl_slots q ! t)\<lparr>fl_dirty := Some (0, FLASH_PHYSICAL_PAGES)\<rparr> = fs_reset_slot (fl_slots p ! t)"
    using q(4,5) slots st(3) by auto
  moreover have "\<forall>t. t \<notin> set (s # ss) \<longrightarrow> fl_slots q ! t = fl_slots p ! t" using q(5) slots by simp
  ultimately show ?case using st(1) q(1-3) \<open>fl_funded ?p = fl_funded p\<close> by auto
qed auto

lemma flash_reset_eq:
  assumes inv: "flash_inv p"
  shows "flash_reset p =
    (if list_ex fs_epoch_full (fl_slots p)
     then (Inl (layout_error ''a Flash-Next slot sequence epoch overflowed''), p)
     else (Inr (), p\<lparr>fl_free := rev [0..<fl_funded p], fl_slots := map fs_reset_slot (fl_slots p),
             fl_table := replicate (MAX_BATCH * FLASH_PHYSICAL_PAGES) FLASH_UNMAPPED_PAGE\<rparr>))"
proof (cases "list_ex fs_epoch_full (fl_slots p)")
  case True
  then show ?thesis by (simp add: flash_reset_def fs_epoch_full_def [abs_def])
next
  case False
  note i = flash_invD [OF inv]
  have "\<forall>s\<in>set [0..<MAX_BATCH]. \<not> fs_epoch_full (fl_slots p ! s)"
    using False i(1) by (auto simp: list_ex_iff)
  then obtain q where q: "flash_reset_loop [0..<MAX_BATCH] p = (Inr (), q)" "flash_inv q" "fl_funded q = fl_funded p"
    "\<forall>s\<in>set [0..<MAX_BATCH]. (fl_slots q ! s)\<lparr>fl_dirty := Some (0, FLASH_PHYSICAL_PAGES)\<rparr> = fs_reset_slot (fl_slots p ! s)"
    using flash_reset_loop_ok [OF inv, of "[0..<MAX_BATCH]"] by (auto simp: atLeast0LessThan)
  have "map (\<lambda>sl. sl\<lparr>fl_dirty := Some (0, FLASH_PHYSICAL_PAGES)\<rparr>) (fl_slots q) = map fs_reset_slot (fl_slots p)"
    using q(4) i(1) flash_invD(1) [OF q(2)] by (intro nth_equalityI) simp_all
  moreover have "q\<lparr>fl_free := a, fl_table := b, fl_slots := c\<rparr> = p\<lparr>fl_free := a, fl_slots := c, fl_table := b\<rparr>" for a b c
    using q(3) by simp
  ultimately show ?thesis
    using False q(1,3) flash_invD(2) [OF q(2)] by (simp add: flash_reset_def fs_epoch_full_def [abs_def])
qed

lemma flash_reset_inv: "flash_inv p \<Longrightarrow> flash_reset p = (r, p') \<Longrightarrow> flash_inv p'"
proof -
  assume inv: "flash_inv p" and run: "flash_reset p = (r, p')"
  note i = flash_invD [OF inv]
  let ?q = "p\<lparr>fl_free := rev [0..<fl_funded p], fl_slots := map fs_reset_slot (fl_slots p),
    fl_table := replicate (MAX_BATCH * FLASH_PHYSICAL_PAGES) FLASH_UNMAPPED_PAGE\<rparr>"
  have "flash_inv ?q" if room: "\<not> list_ex fs_epoch_full (fl_slots p)"
  proof -
    have ok: "fl_slot_ok (fs_reset_slot (fl_slots p ! s))" if "s < MAX_BATCH" for s
    proof -
      have "\<not> fs_epoch_full (fl_slots p ! s)" using room that i(1) by (auto simp: list_ex_iff)
      then show ?thesis
        using i(3) [OF that] by (auto simp: fl_slot_ok_def fs_reset_slot_def fs_epoch_full_def FLASH_PHYSICAL_PAGES_def FLASH_ATTENTION_PAGE_SIZE_def)
    qed
    have slots: "fl_slots ?q ! s = fs_reset_slot (fl_slots p ! s)" if "s < MAX_BATCH" for s using that i(1) by simp
    have "(\<Sum>s<MAX_BATCH. mset (fl_pages (fl_slots ?q ! s))) = {#}"
      by (rule sum.neutral) (use slots in \<open>simp add: fs_reset_slot_def\<close>)
    moreover have "fl_row_of (fs_reset_slot sl) = replicate FLASH_PHYSICAL_PAGES FLASH_UNMAPPED_PAGE" for sl
      by (simp add: fl_row_of_def fs_reset_slot_def)
    ultimately show ?thesis
      using inv ok slots row_index_bound [of _ MAX_BATCH _ FLASH_PHYSICAL_PAGES] by (simp add: flash_inv_def)
  qed
  then show ?thesis using run inv flash_reset_eq [OF inv] by (auto split: if_splits)
qed

section \<open>Reachable pools\<close>

inductive flash_reachable :: "flash_pool \<Rightarrow> bool" where
  flash_start: "flash_new funded = Inr p \<Longrightarrow> flash_reachable p"
| flash_call: "flash_reachable p \<Longrightarrow> flash_exec op p = (r, p') \<Longrightarrow> flash_reachable p'"
| flash_clear: "flash_reachable p \<Longrightarrow> flash_reset p = (r, p') \<Longrightarrow> flash_reachable p'"

lemma flash_reachable_inv: "flash_reachable p \<Longrightarrow> flash_inv p"
  by (induction rule: flash_reachable.induct) (auto intro: flash_new_inv flash_exec_inv flash_reset_inv)

fun flash_run :: "flash_op list \<Rightarrow> flash_pool \<Rightarrow> flash_pool" where
  "flash_run [] p = p"
| "flash_run (op # ops) p = flash_run ops (snd (flash_exec op p))"

lemma flash_reachable_run: "flash_reachable p \<Longrightarrow> flash_reachable (flash_run ops p)"
  by (induction ops arbitrary: p) (auto intro: flash_call prod.collapse [symmetric])

text \<open>A small concrete pool for the witnesses: six funded pages.\<close>

definition flash_small :: flash_pool where
  "flash_small = \<lparr>fl_free = [5, 4, 3, 2, 1, 0], fl_slots = replicate MAX_BATCH flash_slot_new,
     fl_table = replicate (MAX_BATCH * FLASH_PHYSICAL_PAGES) FLASH_UNMAPPED_PAGE, fl_funded = 6\<rparr>"

lemma flash_small_reachable: "flash_reachable flash_small"
proof (rule flash_start)
  have "rev [0..<6] = [5, 4, 3, 2, 1, 0 :: nat]" by code_simp
  then show "flash_new 6 = Inr flash_small"
    by (simp add: flash_new_def flash_small_def MAX_BATCH_def FLASH_PHYSICAL_PAGES_def FLASH_ATTENTION_PAGE_SIZE_def)
qed

section \<open>The page interface\<close>

lemma flash_owned_mset:
  assumes inv: "flash_inv p"
  shows "mset (fl_free p) + (\<Sum>s<MAX_BATCH. mset (fl_pages (fl_slots p ! s))) = mset [0..<fl_funded p]"
  using inv by (simp add: flash_inv_def)

lemma flash_pair_mset:
  assumes inv: "flash_inv p" and s: "s < MAX_BATCH" and t: "t < MAX_BATCH" "s \<noteq> t"
  shows "mset (fl_pages (fl_slots p ! s)) + mset (fl_pages (fl_slots p ! t)) \<subseteq># mset [0..<fl_funded p]"
proof -
  let ?m = "\<lambda>s. mset (fl_pages (fl_slots p ! s))"
  have "(\<Sum>u<MAX_BATCH. ?m u) = ?m s + (\<Sum>u\<in>{..<MAX_BATCH} - {s}. ?m u)" using s by (intro sum.remove) auto
  also have "(\<Sum>u\<in>{..<MAX_BATCH} - {s}. ?m u) = ?m t + (\<Sum>u\<in>{..<MAX_BATCH} - {s} - {t}. ?m u)"
    using t by (intro sum.remove) auto
  finally have "mset [0..<fl_funded p] = ?m s + ?m t + (mset (fl_free p) + (\<Sum>u\<in>{..<MAX_BATCH} - {s} - {t}. ?m u))"
    using flash_owned_mset [OF inv] by (simp add: ac_simps)
  then show ?thesis by (metis mset_subset_eq_add_left)
qed

lemma distinct_mset_le:
  assumes "mset xs + mset ys \<subseteq># mset zs" and "distinct zs"
  shows "distinct xs \<and> distinct ys \<and> set xs \<inter> set ys = {} \<and> set xs \<subseteq> set zs"
proof -
  have sub: "mset (xs @ ys) \<subseteq># mset zs" using assms(1) by simp
  have "count (mset (xs @ ys)) a \<le> count (mset zs) a" for a using sub by (rule mset_subset_eq_count)
  moreover have "count (mset zs) a \<le> 1" for a using assms(2) by (simp add: distinct_count_atmost_1)
  ultimately have le: "count (mset (xs @ ys)) a \<le> 1" for a by (meson le_trans)
  have "distinct (xs @ ys)"
    unfolding distinct_count_atmost_1
  proof
    fix a show "count (mset (xs @ ys)) a = (if a \<in> set (xs @ ys) then 1 else 0)"
    proof (cases "a \<in> set (xs @ ys)")
      case True
      then have "0 < count (mset (xs @ ys)) a" by (simp only: count_greater_zero_iff set_mset_mset)
      then have "count (mset (xs @ ys)) a = 1" using le [of a] by linarith
      then show ?thesis using True by simp
    next
      case False
      then have "count (mset (xs @ ys)) a = 0" by (simp only: count_eq_zero_iff set_mset_mset not_False_eq_True)
      then show ?thesis using False by simp
    qed
  qed
  moreover have "set (xs @ ys) \<subseteq> set zs" using set_mset_mono [OF sub] by simp
  ultimately show ?thesis by auto
qed

lemma flash_rows_own:
  assumes inv: "flash_inv p" and s: "s < MAX_BATCH" and t: "t < MAX_BATCH" "s \<noteq> t"
  shows "distinct (fl_pages (fl_slots p ! s)) \<and> set (fl_pages (fl_slots p ! s)) \<inter> set (fl_pages (fl_slots p ! t)) = {} \<and>
    set (fl_pages (fl_slots p ! s)) \<subseteq> {..<fl_funded p}"
  using distinct_mset_le [OF flash_pair_mset [OF inv s t]] by (simp add: atLeast0LessThan)

lemma flash_rows_conserved:
  assumes inv: "flash_inv p"
  shows "length (fl_free p) + (\<Sum>s<MAX_BATCH. length (fl_pages (fl_slots p ! s))) = fl_funded p"
proof -
  have "size (\<Sum>s<MAX_BATCH. mset (fl_pages (fl_slots p ! s))) = (\<Sum>s<MAX_BATCH. length (fl_pages (fl_slots p ! s)))"
    by (simp add: size_multiset_sum)
  then show ?thesis using arg_cong [OF flash_owned_mset [OF inv], of size] by simp
qed

definition flash_row :: "flash_pool \<Rightarrow> nat \<Rightarrow> nat list" where
  "flash_row p s = fl_pages (fl_slots p ! s)"

definition flash_grow :: "nat \<Rightarrow> nat \<Rightarrow> flash_pool \<Rightarrow> flash_pool \<Rightarrow> bool" where
  "flash_grow s n p p' \<longleftrightarrow> is_ok (fst (flash_reserve s n p)) \<and> p' = snd (flash_reserve s n p)"

definition flash_shrink :: "nat \<Rightarrow> nat \<Rightarrow> flash_pool \<Rightarrow> flash_pool \<Rightarrow> bool" where
  "flash_shrink s n p p' \<longleftrightarrow> is_ok (fst (flash_truncate s n p)) \<and> p' = snd (flash_truncate s n p)"

lemma fs_pages_needed_Inr: "fs_pages_needed n = Inr k \<Longrightarrow> k = div_ceil n ATTENTION_PAGE_SIZE"
  by (auto simp: fs_pages_needed_def split: if_splits)

lemma fs_reserve_Inr:
  assumes "fs_reserve n f sl = (Inr c, f', sl')"
  shows "f' = take (length f - (div_ceil n ATTENTION_PAGE_SIZE - length (fl_pages sl))) f"
    "fl_pages sl' = fl_pages sl @ take (div_ceil n ATTENTION_PAGE_SIZE - length (fl_pages sl)) (rev f)"
    "div_ceil n ATTENTION_PAGE_SIZE \<le> length (fl_pages sl) + length f"
    "acquired_pages c = div_ceil n ATTENTION_PAGE_SIZE - length (fl_pages sl)"
    "fl_tokens sl' = fl_tokens sl" "fl_tokens sl \<le> n" "fl_state sl' = FlashActive"
  using assms
  by (auto simp: fs_reserve_def fs_take_def fs_bump_def Let_def dest!: fs_pages_needed_Inr
      split: if_splits sum.splits)

lemma fs_truncate_Inr:
  assumes "fs_truncate n f sl = (Inr c, f', sl')"
  shows "f' = f @ rev (drop (div_ceil n ATTENTION_PAGE_SIZE) (fl_pages sl))"
    "fl_pages sl' = take (div_ceil n ATTENTION_PAGE_SIZE) (fl_pages sl)"
    "fl_tokens sl' = n" "released_pages c = length (fl_pages sl) - div_ceil n ATTENTION_PAGE_SIZE" "n \<le> fl_tokens sl"
  using assms
  by (auto simp: fs_truncate_def fs_cut_def fs_keep_def fs_bump_def Let_def split: if_splits sum.splits)

lemma flash_lift_ok:
  assumes "flash_inv p" and "is_ok (fst (fs_lift s f p))"
  obtains x g sl where "s < MAX_BATCH" "f (fl_free p) (fl_slots p ! s) = (Inr x, g, sl)"
    "fs_lift s f p = (Inr x, fl_put s g sl p)"
proof -
  obtain r g sl where run: "f (fl_free p) (fl_slots p ! s) = (r, g, sl)" by (metis prod_cases3)
  have s: "s < MAX_BATCH" using assms(2) by (auto simp: fs_lift_def split: if_splits)
  then have "is_ok r" using assms(2) run by (simp add: fs_lift_def)
  then obtain x where "r = Inr x" by (auto simp: is_ok_iff)
  then show ?thesis using that [of x g sl] s run by (simp add: fs_lift_def)
qed

lemma flash_row_put: "flash_inv p \<Longrightarrow> s < MAX_BATCH \<Longrightarrow> flash_row (fl_put s g sl p) t = (if t = s then fl_pages sl else flash_row p t)"
  by (simp add: flash_row_def fl_put_def nth_list_update flash_invD(1))

lemma flash_grow_spec:
  assumes inv: "flash_inv p" and g: "flash_grow s n p p'"
  shows "flash_inv p'" "s < MAX_BATCH"
    "flash_row p' s = flash_row p s @ take (div_ceil n ATTENTION_PAGE_SIZE - length (flash_row p s)) (rev (fl_free p))"
    "n \<le> length (flash_row p' s) * ATTENTION_PAGE_SIZE" "s \<noteq> t \<Longrightarrow> flash_row p' t = flash_row p t"
proof -
  have "is_ok (fst (fs_lift s (fs_reserve n) p))" using g by (simp add: flash_grow_def flash_reserve_eq [OF inv])
  then obtain c f' sl' where run: "s < MAX_BATCH" "fs_reserve n (fl_free p) (fl_slots p ! s) = (Inr c, f', sl')"
    "fs_lift s (fs_reserve n) p = (Inr c, fl_put s f' sl' p)"
    using flash_lift_ok [OF inv] by blast
  have p': "p' = fl_put s f' sl' p" using g run(3) by (simp add: flash_grow_def flash_reserve_eq [OF inv])
  show "s < MAX_BATCH" by (rule run(1))
  note good = fs_reserve_good [OF flash_invD(3) [OF inv run(1)], of "fl_free p" n, unfolded run(2)]
  show "flash_inv p'" unfolding p' using good by (intro flash_inv_put [OF inv run(1)]) (simp_all add: fs_good_def)
  note r = fs_reserve_Inr [OF run(2)]
  show row: "flash_row p' s = flash_row p s @ take (div_ceil n ATTENTION_PAGE_SIZE - length (flash_row p s)) (rev (fl_free p))"
    using r(2) flash_row_put [OF inv run(1)] by (simp add: p' flash_row_def)
  show "s \<noteq> t \<Longrightarrow> flash_row p' t = flash_row p t" using flash_row_put [OF inv run(1)] by (simp add: p')
  have "div_ceil n ATTENTION_PAGE_SIZE \<le> length (flash_row p' s)"
    unfolding row using r(3) by (simp add: flash_row_def)
  then show "n \<le> length (flash_row p' s) * ATTENTION_PAGE_SIZE" by (simp add: div_ceil_le_iff)
qed

lemma flash_shrink_spec:
  assumes inv: "flash_inv p" and g: "flash_shrink s n p p'"
  shows "flash_inv p'" "s < MAX_BATCH" "flash_row p' s = take (div_ceil n ATTENTION_PAGE_SIZE) (flash_row p s)"
    "s \<noteq> t \<Longrightarrow> flash_row p' t = flash_row p t"
proof -
  have "is_ok (fst (fs_lift s (fs_truncate n) p))" using g by (simp add: flash_shrink_def flash_truncate_eq [OF inv])
  then obtain c f' sl' where run: "s < MAX_BATCH" "fs_truncate n (fl_free p) (fl_slots p ! s) = (Inr c, f', sl')"
    "fs_lift s (fs_truncate n) p = (Inr c, fl_put s f' sl' p)"
    using flash_lift_ok [OF inv] by blast
  have p': "p' = fl_put s f' sl' p" using g run(3) by (simp add: flash_shrink_def flash_truncate_eq [OF inv])
  show "s < MAX_BATCH" by (rule run(1))
  note good = fs_truncate_good [OF flash_invD(3) [OF inv run(1)], of "fl_free p" n, unfolded run(2)]
  show "flash_inv p'" unfolding p' using good by (intro flash_inv_put [OF inv run(1)]) (simp_all add: fs_good_def)
  show "flash_row p' s = take (div_ceil n ATTENTION_PAGE_SIZE) (flash_row p s)"
    using fs_truncate_Inr(2) [OF run(2)] flash_row_put [OF inv run(1)] by (simp add: p' flash_row_def)
  show "s \<noteq> t \<Longrightarrow> flash_row p' t = flash_row p t" using flash_row_put [OF inv run(1)] by (simp add: p')
qed

lemma other_slot: "s < MAX_BATCH \<Longrightarrow> \<exists>t<MAX_BATCH. s \<noteq> t"
  by (intro exI [of _ "if s = 0 then 1 else 0"]) (simp add: MAX_BATCH_def)

lemma flash_row_owned:
  assumes "flash_inv p" and "s < MAX_BATCH"
  shows "distinct (flash_row p s)" "set (flash_row p s) \<subseteq> {..<fl_funded p}"
    "fl_tokens (fl_slots p ! s) \<le> length (flash_row p s) * ATTENTION_PAGE_SIZE"
proof -
  obtain t where "t < MAX_BATCH" "s \<noteq> t" using other_slot [OF assms(2)] by blast
  then show "distinct (flash_row p s)" "set (flash_row p s) \<subseteq> {..<fl_funded p}"
    using flash_rows_own [OF assms] by (simp_all add: flash_row_def)
  show "fl_tokens (fl_slots p ! s) \<le> length (flash_row p s) * ATTENTION_PAGE_SIZE"
    using flash_invD(3) [OF assms] by (simp add: flash_row_def fl_slot_ok_def)
qed

lemma flash_row_disjoint:
  "flash_inv p \<Longrightarrow> s < MAX_BATCH \<Longrightarrow> t < MAX_BATCH \<Longrightarrow> s \<noteq> t \<Longrightarrow> set (flash_row p s) \<inter> set (flash_row p t) = {}"
  using flash_rows_own by (simp add: flash_row_def)

lemma flash_row_conserved:
  "flash_inv p \<Longrightarrow> length (fl_free p) + (\<Sum>s<MAX_BATCH. length (flash_row p s)) = fl_funded p"
  by (simp add: flash_row_def flash_rows_conserved)

interpretation flash_rows: paged_rows flash_inv flash_row "\<lambda>p s. fl_tokens (fl_slots p ! s)" fl_funded
  "\<lambda>p. length (fl_free p)"
  by unfold_locales (fact flash_row_owned flash_row_disjoint flash_row_conserved)+

interpretation flash_alloc: paged_allocator flash_inv flash_row "\<lambda>p s. fl_tokens (fl_slots p ! s)" fl_funded
  "\<lambda>p. length (fl_free p)" flash_grow flash_shrink
proof unfold_locales
  fix p s n p' assume "flash_inv p" "flash_grow s n p p'"
  note g = flash_grow_spec [OF this]
  show "flash_inv p'" "\<exists>new. flash_row p' s = flash_row p s @ new"
    "n \<le> length (flash_row p' s) * ATTENTION_PAGE_SIZE" using g(1,3,4) by simp_all
  fix t assume "s \<noteq> t" then show "flash_row p' t = flash_row p t" by (rule g(5))
next
  fix p s n p' assume "flash_inv p" "flash_shrink s n p p'"
  note g = flash_shrink_spec [OF this]
  show "flash_inv p'" "flash_row p' s = take (div_ceil n ATTENTION_PAGE_SIZE) (flash_row p s)" using g(1,3) by simp_all
  fix t assume "s \<noteq> t" then show "flash_row p' t = flash_row p t" by (rule g(4))
qed

section \<open>The device copy of the block table\<close>

definition flash_synced :: "flash_pool \<Rightarrow> nat list \<Rightarrow> bool" where
  "flash_synced p dev \<longleftrightarrow> length dev = length (fl_table p) \<and>
    (\<forall>s<MAX_BATCH. \<forall>e<FLASH_PHYSICAL_PAGES. e \<notin> fl_dirty_set (fl_slots p ! s) \<longrightarrow>
      dev ! (s * FLASH_PHYSICAL_PAGES + e) = fl_table p ! (s * FLASH_PHYSICAL_PAGES + e))"

lemma flash_synced_put:
  assumes inv: "flash_inv p" and s: "s < MAX_BATCH" and ok: "fl_slot_ok sl'" and m: "fs_marks (fl_slots p ! s) sl'"
    and sync: "flash_synced p dev"
  shows "flash_synced (fl_put s f' sl' p) dev"
proof -
  note i = flash_invD [OF inv]
  have len: "length (fl_table (fl_put s f' sl' p)) = length (fl_table p)"
    using i(2) length_fl_row_of [OF ok] fl_row_end [OF s] by (simp add: fl_put_def)
  have slots: "fl_slots (fl_put s f' sl' p) ! t = (if t = s then sl' else fl_slots p ! t)" for t
    using i(1) s by (simp add: fl_put_def nth_list_update)
  show ?thesis
    unfolding flash_synced_def
  proof (intro conjI allI impI)
    show "length dev = length (fl_table (fl_put s f' sl' p))" using sync len by (simp add: flash_synced_def)
    fix t e assume t: "t < MAX_BATCH" and e: "e < FLASH_PHYSICAL_PAGES"
      and clean: "e \<notin> fl_dirty_set (fl_slots (fl_put s f' sl' p) ! t)"
    have "e \<notin> fl_dirty_set (fl_slots p ! t)"
      using clean m slots by (cases "t = s") (auto simp: fs_marks_def)
    then have dev: "dev ! (t * FLASH_PHYSICAL_PAGES + e) = fl_table p ! (t * FLASH_PHYSICAL_PAGES + e)"
      using sync t e by (simp add: flash_synced_def)
    show "dev ! (t * FLASH_PHYSICAL_PAGES + e) = fl_table (fl_put s f' sl' p) ! (t * FLASH_PHYSICAL_PAGES + e)"
    proof (cases "t = s")
      case True
      then have "fl_row_of sl' ! e = fl_row_of (fl_slots p ! s) ! e"
        using m clean slots e by (simp add: fs_marks_def)
      then show ?thesis
        using True dev fl_put_table [OF i(2) s ok t e] i(4) [OF s e] by simp
    next
      case False
      then show ?thesis using dev fl_put_table [OF i(2) s ok t e] by simp
    qed
  qed
qed

lemma flash_table_row_eq:
  assumes inv: "flash_inv p" and s: "s < MAX_BATCH"
  shows "flash_table_row p s = Inr (fl_row_of (fl_slots p ! s))"
proof -
  note i = flash_invD [OF inv]
  have row: "length (fl_row_of (fl_slots p ! s)) = FLASH_PHYSICAL_PAGES" by (rule length_fl_row_of [OF i(3) [OF s]])
  have "take FLASH_PHYSICAL_PAGES (drop (s * FLASH_PHYSICAL_PAGES) (fl_table p)) = fl_row_of (fl_slots p ! s)"
    using fl_row_end [OF s] i(2,4) s row by (intro nth_equalityI) simp_all
  then show ?thesis
    using s fl_row_end [OF s] i(2) by (simp add: flash_table_row_def flash_require_slot_def Let_def)
qed

lemma flash_flush_step:
  assumes inv: "flash_inv p" and s: "s < MAX_BATCH" and sync: "flash_synced p dev"
    and d: "fl_dirty (fl_slots p ! s) = Some (a, b)"
  defines "q \<equiv> fl_upd s (\<lambda>sl. sl\<lparr>fl_dirty := None\<rparr>) p"
    and "dev' \<equiv> list_write (s * FLASH_PHYSICAL_PAGES + a) (drop a (take b (fl_row_of (fl_slots p ! s)))) dev"
  shows "flash_inv q" "flash_synced q dev'" "a \<le> b" "b \<le> length (fl_row_of (fl_slots p ! s))"
proof -
  note i = flash_invD [OF inv]
  let ?row = "fl_row_of (fl_slots p ! s)" and ?k = FLASH_PHYSICAL_PAGES
  have ab: "a < b" "b \<le> ?k" using i(3) [OF s] d by (simp_all add: fl_slot_ok_def)
  have row: "length ?row = ?k" by (rule length_fl_row_of [OF i(3) [OF s]])
  show "a \<le> b" "b \<le> length ?row" using ab row by simp_all
  have q: "q = fl_put s (fl_free p) ((fl_slots p ! s)\<lparr>fl_dirty := None\<rparr>) p"
    unfolding q_def by (rule fl_upd_put [OF inv s]) simp
  have "fl_slot_ok ((fl_slots p ! s)\<lparr>fl_dirty := None\<rparr>)" using i(3) [OF s] by (simp add: fl_slot_ok_def)
  then show "flash_inv q" unfolding q by (intro flash_inv_put [OF inv s]) simp_all
  have tab: "fl_table q = fl_table p" by (simp add: q_def fl_upd_def)
  have slots: "fl_slots q ! t = (if t = s then (fl_slots p ! s)\<lparr>fl_dirty := None\<rparr> else fl_slots p ! t)" for t
    using i(1) s by (simp add: q_def fl_upd_def nth_list_update)
  have ldev: "length dev = MAX_BATCH * ?k" using sync i(2) by (simp add: flash_synced_def)
  have seg: "length (drop a (take b ?row)) = b - a" using ab row by simp
  have fits: "s * ?k + a + length (drop a (take b ?row)) \<le> length dev"
    using fl_row_end [OF s] ab seg ldev by simp
  show "flash_synced q dev'"
    unfolding flash_synced_def
  proof (intro conjI allI impI)
    show "length dev' = length (fl_table q)" using fits ldev i(2) tab by (simp add: dev'_def)
    fix t e assume t: "t < MAX_BATCH" and e: "e < ?k" and clean: "e \<notin> fl_dirty_set (fl_slots q ! t)"
    have idx: "t * ?k + e < length dev" using row_index_bound [OF t e] ldev by simp
    show "dev' ! (t * ?k + e) = fl_table q ! (t * ?k + e)"
    proof (cases "t = s \<and> a \<le> e \<and> e < b")
      case True
      then show ?thesis
        using nth_list_write [OF fits idx] seg i(4) [OF s e] ab row tab by (simp add: dev'_def)
    next
      case False
      have "\<not> (s * ?k + a \<le> t * ?k + e \<and> t * ?k + e < s * ?k + a + (b - a))"
      proof
        assume in_run: "s * ?k + a \<le> t * ?k + e \<and> t * ?k + e < s * ?k + a + (b - a)"
        define c where "c = t * ?k + e - s * ?k"
        have c: "t * ?k + e = s * ?k + c" "a \<le> c" "c < b" using in_run ab unfolding c_def by linarith+
        then have "t = s \<and> e = c" using row_index_inject [OF e, of c t s] ab by simp
        then show False using False c by simp
      qed
      then have "dev' ! (t * ?k + e) = dev ! (t * ?k + e)"
        using nth_list_write [OF fits idx] seg by (auto simp: dev'_def)
      moreover have "e \<notin> fl_dirty_set (fl_slots p ! t)"
        using False clean slots d by (auto simp: fl_dirty_set_def split: if_splits)
      ultimately show ?thesis using sync t e tab by (simp add: flash_synced_def)
    qed
  qed
qed

definition flash_same_mapping :: "flash_pool \<Rightarrow> flash_pool \<Rightarrow> bool" where
  "flash_same_mapping p q \<longleftrightarrow> fl_free q = fl_free p \<and> fl_table q = fl_table p \<and> fl_funded q = fl_funded p \<and>
    map (\<lambda>sl. sl\<lparr>fl_dirty := None\<rparr>) (fl_slots q) = map (\<lambda>sl. sl\<lparr>fl_dirty := None\<rparr>) (fl_slots p)"

lemma flash_flush_loop_ok:
  assumes "flash_inv p" and "flash_synced p dev" and "set ss \<subseteq> {..<MAX_BATCH}"
    and "flash_flush_loop copy ss p dev = (r, q, dev')"
  shows "flash_inv q \<and> flash_synced q dev' \<and> flash_same_mapping p q \<and>
    (\<forall>s<MAX_BATCH. fl_dirty (fl_slots p ! s) = None \<or> (is_ok r \<and> s \<in> set ss) \<longrightarrow> fl_dirty (fl_slots q ! s) = None) \<and>
    (\<forall>e. r = Inl e \<longrightarrow> (\<exists>s\<in>set ss. \<exists>g. copy s = Some g \<and> e = Gpu g))"
  using assms
proof (induction ss arbitrary: p dev)
  case Nil
  then show ?case by (auto simp: flash_same_mapping_def)
next
  case (Cons s ss)
  have s: "s < MAX_BATCH" using Cons.prems(3) by simp
  have range: "flash_dirty_range p s = Inr (fl_dirty (fl_slots p ! s))"
    using s by (simp add: flash_dirty_range_def flash_require_slot_def)
  show ?case
  proof (cases "fl_dirty (fl_slots p ! s)")
    case None
    then have "flash_flush_loop copy ss p dev = (r, q, dev')" using Cons.prems(4) range by simp
    from Cons.IH [OF Cons.prems(1,2) _ this] show ?thesis using Cons.prems(3) None by auto
  next
    case (Some ab)
    obtain a b where d: "fl_dirty (fl_slots p ! s) = Some (a, b)" using Some by (cases ab) auto
    note st = flash_flush_step [OF Cons.prems(1) s Cons.prems(2) d]
    let ?p = "fl_upd s (\<lambda>sl. sl\<lparr>fl_dirty := None\<rparr>) p"
    let ?dev = "list_write (s * FLASH_PHYSICAL_PAGES + a) (drop a (take b (fl_row_of (fl_slots p ! s)))) dev"
    have slots: "fl_slots ?p ! t = (if t = s then (fl_slots p ! s)\<lparr>fl_dirty := None\<rparr> else fl_slots p ! t)" for t
      using flash_invD(1) [OF Cons.prems(1)] s by (simp add: fl_upd_def nth_list_update)
    have same: "flash_same_mapping p ?p"
      using flash_invD(1) [OF Cons.prems(1)] s
      by (auto simp: flash_same_mapping_def fl_upd_def nth_list_update intro!: nth_equalityI)
    show ?thesis
    proof (cases "copy s")
      case refuse: (Some g)
      have "r = Inl (Gpu g) \<and> q = p \<and> dev' = dev"
        using Cons.prems(4) range d st(3,4) flash_table_row_eq [OF Cons.prems(1) s] refuse by simp
      then show ?thesis using Cons.prems(1,2) refuse by (auto simp: flash_same_mapping_def)
    next
      case None
      have "flash_flush_loop copy ss ?p ?dev = (r, q, dev')"
        using Cons.prems(4) range d st(3,4) flash_table_row_eq [OF Cons.prems(1) s] None s
        by (simp add: flash_clear_dirty_def flash_require_slot_def Let_def)
      from Cons.IH [OF st(1,2) _ this] have ih: "flash_inv q \<and> flash_synced q dev' \<and> flash_same_mapping ?p q \<and>
          (\<forall>t<MAX_BATCH. fl_dirty (fl_slots ?p ! t) = None \<or> (is_ok r \<and> t \<in> set ss) \<longrightarrow> fl_dirty (fl_slots q ! t) = None) \<and>
          (\<forall>e. r = Inl e \<longrightarrow> (\<exists>s\<in>set ss. \<exists>g. copy s = Some g \<and> e = Gpu g))"
        using Cons.prems(3) by simp
      have "flash_same_mapping p q" using same ih by (simp add: flash_same_mapping_def)
      then show ?thesis using ih slots by auto
    qed
  qed
qed

section \<open>Errors and epochs\<close>

definition flash_internal_error :: "engine_error \<Rightarrow> bool" where
  "flash_internal_error e \<longleftrightarrow> e = Panicked \<or> e = layout_error ''the Flash-Next page pool underflowed''"

lemma fs_exec_error: "fs_exec op f sl = (Inl e, x) \<Longrightarrow> \<not> flash_internal_error e"
proof (cases op)
  case (FlReserve s n)
  then show "fs_exec op f sl = (Inl e, x) \<Longrightarrow> \<not> flash_internal_error e"
    by (auto simp: drop_value_def fs_reserve_def fs_pages_needed_def fs_bump_def Let_def flash_internal_error_def
        split: if_splits sum.splits prod.splits)
qed (auto simp: drop_value_def fs_commit_def fs_truncate_def fs_rollback_def fs_cut_def fs_retain_def fs_restart_def
    fs_recycle_def fs_clear_dirty_def fs_bump_def Let_def flash_internal_error_def
    split: if_splits sum.splits prod.splits)

lemma fl_put_other: "t \<noteq> s \<Longrightarrow> fl_slots (fl_put s f sl p) ! t = fl_slots p ! t"
  by (simp add: fl_put_def)

lemma fs_exec_keeps_tokens:
  assumes "fl_slot_ok sl" and "\<And>s n. op \<noteq> FlRollback s n" and "fs_exec op f sl = (r, f', sl')"
    and "fl_sequence sl' = fl_sequence sl"
  shows "fl_tokens sl \<le> fl_tokens sl'"
proof (cases op)
  case (FlReserve s n)
  then show ?thesis
    using assms(3) by (auto simp: drop_value_def fs_reserve_def fs_take_def fs_bump_def Let_def
        split: if_splits sum.splits)
next
  case (FlTruncate s n)
  then show ?thesis
    using assms(3,4) by (auto simp: drop_value_def fs_truncate_def fs_cut_def fs_keep_def fs_bump_def Let_def
        split: if_splits sum.splits)
next
  case (FlRecycle s)
  then show ?thesis
    using assms(1,3,4) fl_slot_ok_free [OF assms(1)]
    by (auto simp: drop_value_def fs_recycle_def fs_keep_def fs_bump_def split: if_splits sum.splits)
next
  case (FlRestart s)
  then show ?thesis
    using assms(3,4) by (auto simp: drop_value_def fs_restart_def fs_bump_def split: if_splits sum.splits)
qed (use assms in \<open>auto simp: drop_value_def fs_commit_def fs_retain_def fs_clear_dirty_def split: if_splits\<close>)

text \<open>A prefix of a sequence survives when the epoch, the covered length and the places are kept.\<close>

definition fs_prefix_kept :: "flash_slot \<Rightarrow> flash_slot \<Rightarrow> bool" where
  "fs_prefix_kept sl sl' \<longleftrightarrow> fl_tokens sl \<le> fl_tokens sl' \<and>
    (\<forall>i<fl_tokens sl. page_coordinate (fl_pages sl') i = page_coordinate (fl_pages sl) i)"

lemma flash_exec_epoch:
  assumes inv: "flash_inv p" and t: "t < MAX_BATCH"
  shows "fl_sequence (fl_slots p ! t) \<le> fl_sequence (fl_slots (snd (flash_exec op p)) ! t) \<and>
    ((\<forall>s n. op \<noteq> FlRollback s n) \<longrightarrow> fl_sequence (fl_slots (snd (flash_exec op p)) ! t) = fl_sequence (fl_slots p ! t) \<longrightarrow>
      fs_prefix_kept (fl_slots p ! t) (fl_slots (snd (flash_exec op p)) ! t))"
proof (cases "flash_op_slot op = t")
  case False
  then have "fl_slots (snd (flash_exec op p)) ! t = fl_slots p ! t"
    using flash_exec_eq [OF inv, of op] by (auto simp: fs_lift_def fl_put_other split: prod.splits)
  then show ?thesis by (simp add: fs_prefix_kept_def)
next
  case True
  obtain r f' sl' where x: "fs_exec op (fl_free p) (fl_slots p ! t) = (r, f', sl')" by (metis prod_cases3)
  have len: "t < length (fl_slots p)" using flash_invD(1) [OF inv] t by simp
  then have new: "fl_slots (snd (flash_exec op p)) ! t = sl'"
    using flash_exec_eq [OF inv, of op] True t x by (simp add: fs_lift_def)
  note ok = flash_invD(3) [OF inv t]
  have ep: "fs_epoch (fl_slots p ! t) sl'" using fs_exec_good [OF ok, of "fl_free p" op] x by (simp add: fs_good_def)
  have "fs_prefix_kept (fl_slots p ! t) sl'"
    if op: "\<forall>s n. op \<noteq> FlRollback s n" and eq: "fl_sequence sl' = fl_sequence (fl_slots p ! t)"
  proof -
    have "fl_tokens (fl_slots p ! t) \<le> fl_tokens sl'" using op by (intro fs_exec_keeps_tokens [OF ok _ x eq]) simp
    then show ?thesis using ep eq by (simp add: fs_prefix_kept_def fs_epoch_def)
  qed
  then show ?thesis using ep new by (simp add: fs_epoch_def)
qed

lemma flash_inv_run: "flash_inv p \<Longrightarrow> flash_inv (flash_run ops p)"
  by (induction ops arbitrary: p) (auto intro: flash_exec_inv prod.collapse [symmetric])

lemma fs_prefix_kept_trans: "fs_prefix_kept a b \<Longrightarrow> fs_prefix_kept b c \<Longrightarrow> fs_prefix_kept a c"
  by (simp add: fs_prefix_kept_def)

lemma flash_run_epoch:
  assumes "flash_inv p" and t: "t < MAX_BATCH"
  shows "fl_sequence (fl_slots p ! t) \<le> fl_sequence (fl_slots (flash_run ops p) ! t) \<and>
    ((\<forall>s n. FlRollback s n \<notin> set ops) \<longrightarrow> fl_sequence (fl_slots (flash_run ops p) ! t) = fl_sequence (fl_slots p ! t) \<longrightarrow>
      fs_prefix_kept (fl_slots p ! t) (fl_slots (flash_run ops p) ! t))"
  using assms(1)
proof (induction ops arbitrary: p)
  case Nil
  then show ?case by (simp add: fs_prefix_kept_def)
next
  case (Cons op ops)
  let ?q = "snd (flash_exec op p)"
  have inv: "flash_inv ?q" by (rule flash_exec_inv [OF Cons.prems]) (rule prod.collapse [symmetric])
  note step = flash_exec_epoch [OF Cons.prems t, of op] and rest = Cons.IH [OF inv]
  have "fs_prefix_kept (fl_slots p ! t) (fl_slots (flash_run ops ?q) ! t)"
    if no: "\<forall>s n. FlRollback s n \<notin> set (op # ops)"
      and eq: "fl_sequence (fl_slots (flash_run ops ?q) ! t) = fl_sequence (fl_slots p ! t)"
  proof -
    have mid: "fl_sequence (fl_slots ?q ! t) = fl_sequence (fl_slots p ! t)" using step rest eq by linarith
    have a: "fs_prefix_kept (fl_slots p ! t) (fl_slots ?q ! t)" using step mid no by (metis list.set_intros(1))
    have b: "fs_prefix_kept (fl_slots ?q ! t) (fl_slots (flash_run ops ?q) ! t)" using rest mid eq no by simp
    show ?thesis by (rule fs_prefix_kept_trans [OF a b])
  qed
  then show ?case using step rest by simp
qed

section \<open>Evaluating runs without the block table\<close>

fun fs_run :: "flash_op list \<Rightarrow> nat list \<times> flash_slot list \<Rightarrow> nat list \<times> flash_slot list" where
  "fs_run [] c = c"
| "fs_run (op # ops) (f, ss) =
    (let s = flash_op_slot op in
     if s \<ge> MAX_BATCH then fs_run ops (f, ss)
     else case fs_exec op f (ss ! s) of (r, f', sl) \<Rightarrow> fs_run ops (f', ss[s := sl]))"

lemma flash_run_core:
  "flash_inv p \<Longrightarrow> (fl_free (flash_run ops p), fl_slots (flash_run ops p)) = fs_run ops (fl_free p, fl_slots p)"
proof (induction ops arbitrary: p)
  case (Cons op ops)
  obtain r q where q: "flash_exec op p = (r, q)" by fastforce
  have "flash_inv q" by (rule flash_exec_inv [OF Cons.prems q])
  from Cons.IH [OF this] show ?case
    using q flash_exec_eq [OF Cons.prems, of op]
    by (auto simp: fs_lift_def fl_put_def Let_def split: if_splits prod.splits)
qed simp

definition flash_busy :: flash_pool where
  "flash_busy = flash_run [FlReserve 2 150, FlCommit 2 130, FlReserve 5 64, FlCommit 5 10] flash_small"

lemma flash_busy_reachable: "flash_reachable flash_busy"
  unfolding flash_busy_def by (rule flash_reachable_run [OF flash_small_reachable])

lemma flash_busy_core:
  "fl_free flash_busy = [5, 4]"
  "fl_slots flash_busy = (replicate MAX_BATCH flash_slot_new)
    [2 := \<lparr>fl_state = FlashActive, fl_sequence = 1, fl_pages = [0, 1, 2], fl_tokens = 130, fl_dirty = Some (0, 3)\<rparr>,
     5 := \<lparr>fl_state = FlashActive, fl_sequence = 1, fl_pages = [3], fl_tokens = 10, fl_dirty = Some (0, 1)\<rparr>]"
proof -
  have "(fl_free flash_busy, fl_slots flash_busy) =
      fs_run [FlReserve 2 150, FlCommit 2 130, FlReserve 5 64, FlCommit 5 10] ([5, 4, 3, 2, 1, 0], replicate MAX_BATCH flash_slot_new)"
    unfolding flash_busy_def flash_run_core [OF flash_reachable_inv [OF flash_small_reachable]]
    by (simp add: flash_small_def)
  also have "\<dots> = ([5, 4], (replicate MAX_BATCH flash_slot_new)
    [2 := \<lparr>fl_state = FlashActive, fl_sequence = 1, fl_pages = [0, 1, 2], fl_tokens = 130, fl_dirty = Some (0, 3)\<rparr>,
     5 := \<lparr>fl_state = FlashActive, fl_sequence = 1, fl_pages = [3], fl_tokens = 10, fl_dirty = Some (0, 1)\<rparr>])"
    by code_simp
  finally show "fl_free flash_busy = [5, 4]"
    "fl_slots flash_busy = (replicate MAX_BATCH flash_slot_new)
    [2 := \<lparr>fl_state = FlashActive, fl_sequence = 1, fl_pages = [0, 1, 2], fl_tokens = 130, fl_dirty = Some (0, 3)\<rparr>,
     5 := \<lparr>fl_state = FlashActive, fl_sequence = 1, fl_pages = [3], fl_tokens = 10, fl_dirty = Some (0, 1)\<rparr>]"
    by simp_all
qed

section \<open>Properties\<close>

text \<open>C29: In every reachable pool each operation of the slot pool is the loop-free operation on the free
  stack and the slot, on every branch: same result or error, same free stack, same slot, and the
  block table is exactly the rows of the page lists. \<open>reserve\<close> takes the pages from the top of the
  free stack, truncation and recycling push them back so that the lowest one is on top.\<close>

theorem flash_pool_refines_spec:
  assumes "flash_reachable p"
  shows "flash_reserve s n p = fs_lift s (fs_reserve n) p \<and> flash_commit s n p = fs_lift s (fs_commit n) p
    \<and> flash_truncate s n p = fs_lift s (fs_truncate n) p \<and> flash_rollback s n p = fs_lift s (fs_rollback n) p
    \<and> flash_retain s p = fs_lift s fs_retain p \<and> flash_restart s p = fs_lift s fs_restart p
    \<and> flash_recycle s p = fs_lift s fs_recycle p"
  using flash_reachable_inv [OF assms]
  by (simp add: flash_reserve_eq flash_commit_eq flash_truncate_eq flash_rollback_eq flash_retain_eq flash_restart_eq flash_recycle_eq)

theorem flash_pool_refines_spec_witness:
  "flash_reserve 9 5 flash_busy = (Inl (route_error ''Flash-Next slot is outside 0..8''), flash_busy)
    \<and> fst (flash_truncate 2 64 flash_busy) = Inr \<lparr>acquired_pages = 0, released_pages = 2, change_tokens = 64\<rparr>"
proof
  show "flash_reserve 9 5 flash_busy = (Inl (route_error ''Flash-Next slot is outside 0..8''), flash_busy)"
    using flash_pool_refines_spec [OF flash_busy_reachable, of 9 5] by (simp add: fs_lift_def MAX_BATCH_def)
  have "flash_truncate 2 64 flash_busy = fs_lift 2 (fs_truncate 64) flash_busy"
    using flash_pool_refines_spec [OF flash_busy_reachable, of 2 64] by simp
  then show "fst (flash_truncate 2 64 flash_busy) = Inr \<lparr>acquired_pages = 0, released_pages = 2, change_tokens = 64\<rparr>"
    by (simp add: fs_lift_def flash_busy_core MAX_BATCH_def fs_truncate_def fs_bump_def U64_BOUND_def fs_cut_def
        fs_keep_def div_ceil_def ATTENTION_PAGE_SIZE_def)
qed

text \<open>C30: In every reachable pool no two committed positions share a place in the cache, every page of a
  slot is funded, pages are conserved, and the block-table row the attention kernels read is the
  slot's page list followed by unmapped entries.\<close>

theorem flash_pages_safe:
  assumes "flash_reachable p" and "s < MAX_BATCH" and "t < MAX_BATCH"
  shows "(i < fl_tokens (fl_slots p ! s) \<and> j < fl_tokens (fl_slots p ! t) \<and>
      page_coordinate (fl_pages (fl_slots p ! s)) i = page_coordinate (fl_pages (fl_slots p ! t)) j \<longrightarrow> s = t \<and> i = j)
    \<and> set (fl_pages (fl_slots p ! s)) \<subseteq> {..<fl_funded p}
    \<and> flash_free_pages p + (\<Sum>u<MAX_BATCH. length (fl_pages (fl_slots p ! u))) = fl_funded p
    \<and> flash_table_row p s = Inr (fl_pages (fl_slots p ! s) @
        replicate (FLASH_PHYSICAL_PAGES - length (fl_pages (fl_slots p ! s))) FLASH_UNMAPPED_PAGE)"
proof -
  note inv = flash_reachable_inv [OF assms(1)]
  show ?thesis
    using flash_rows.coordinate_inject [OF inv assms(2,3), of i j] flash_rows.rows_funded [OF inv assms(2)]
      flash_rows.free_conserved [OF inv] flash_table_row_eq [OF inv assms(2)]
    by (simp add: flash_row_def flash_free_pages_def fl_row_of_def)
qed

theorem flash_pages_safe_witness:
  "flash_table_row flash_busy 5 = Inr (3 # replicate (FLASH_PHYSICAL_PAGES - 1) FLASH_UNMAPPED_PAGE)"
proof -
  have "(5::nat) < MAX_BATCH" by (simp add: MAX_BATCH_def)
  from flash_pages_safe [OF flash_busy_reachable this this] show ?thesis by (simp add: flash_busy_core MAX_BATCH_def)
qed

text \<open>C31: A slot-pool call that returns an error on a reachable pool leaves the pool exactly as it was,
  and the error is never a panic or the underflow of the page stack. This includes a \<open>reset\<close> refused
  because a sequence epoch is exhausted.\<close>

theorem flash_failed_call_changes_nothing:
  assumes "flash_reachable p" and "flash_exec op p = (Inl e, p') \<or> flash_reset p = (Inl e, p')"
  shows "p' = p \<and> \<not> flash_internal_error e"
proof -
  note inv = flash_reachable_inv [OF assms(1)]
  consider (out) "flash_exec op p = (Inl e, p')" "\<not> flash_op_slot op < MAX_BATCH"
    | (call) "flash_exec op p = (Inl e, p')" "flash_op_slot op < MAX_BATCH" | (reset) "flash_reset p = (Inl e, p')"
    using assms(2) by blast
  then show ?thesis
  proof cases
    case out
    then show ?thesis using flash_exec_out [OF inv] by (auto simp: flash_internal_error_def)
  next
    case call
    then show ?thesis
      using flash_exec_step [OF inv call] fs_exec_error fl_put_same [OF inv call(2)] by (auto simp: fs_good_def)
  next
    case reset
    then show ?thesis using flash_reset_eq [OF inv] by (auto simp: flash_internal_error_def split: if_splits)
  qed
qed

theorem flash_failed_call_changes_nothing_witness:
  "flash_exec (FlReserve 7 200) flash_busy = (Inl (capacity_error ''the request is refused rather than served short''), flash_busy)"
proof -
  have "fst (flash_exec (FlReserve 7 200) flash_busy) = Inl (capacity_error ''the request is refused rather than served short'')"
    unfolding flash_exec_eq [OF flash_reachable_inv [OF flash_busy_reachable]]
    by (simp add: fs_lift_def flash_busy_core MAX_BATCH_def drop_value_def fs_reserve_def fs_pages_needed_def
        flash_slot_new_def U64_BOUND_def div_ceil_def ATTENTION_PAGE_SIZE_def FLASH_PHYSICAL_PAGES_def FLASH_ATTENTION_PAGE_SIZE_def)
  then obtain q where q: "flash_exec (FlReserve 7 200) flash_busy =
      (Inl (capacity_error ''the request is refused rather than served short''), q)" by (metis prod.collapse)
  from flash_failed_call_changes_nothing [OF flash_busy_reachable disjI1 [OF q]] q show ?thesis by simp
qed

text \<open>C32: Sequence epochs date the recurrent snapshots soundly: over any run of calls an epoch never
  decreases, and if a slot's epoch is unchanged by a run without \<open>rollback\<close> then every token that was
  committed is still committed and still lies where it was in the cache.\<close>

theorem flash_epoch_protects_prefix:
  assumes "flash_reachable p" and "s < MAX_BATCH"
  shows "fl_sequence (fl_slots p ! s) \<le> fl_sequence (fl_slots (flash_run ops p) ! s) \<and>
    ((\<forall>t n. FlRollback t n \<notin> set ops) \<and>
      fl_sequence (fl_slots (flash_run ops p) ! s) = fl_sequence (fl_slots p ! s) \<longrightarrow>
      fl_tokens (fl_slots p ! s) \<le> fl_tokens (fl_slots (flash_run ops p) ! s) \<and>
      (\<forall>i<fl_tokens (fl_slots p ! s). page_coordinate (fl_pages (fl_slots (flash_run ops p) ! s)) i =
        page_coordinate (fl_pages (fl_slots p ! s)) i))"
  using flash_run_epoch [OF flash_reachable_inv [OF assms(1)] assms(2), of ops] by (auto simp: fs_prefix_kept_def)

theorem flash_epoch_protects_prefix_witness:
  "map (page_coordinate (fl_pages (fl_slots (flash_run [FlReserve 2 200, FlCommit 2 190] flash_busy) ! 2))) [0..<130] =
    map (page_coordinate [0, 1, 2]) [0..<130]"
proof -
  have s: "(2::nat) < MAX_BATCH" by (simp add: MAX_BATCH_def)
  have "(fl_free (flash_run [FlReserve 2 200, FlCommit 2 190] flash_busy), fl_slots (flash_run [FlReserve 2 200, FlCommit 2 190] flash_busy)) =
      fs_run [FlReserve 2 200, FlCommit 2 190] ([5, 4], fl_slots flash_busy)"
    unfolding flash_run_core [OF flash_reachable_inv [OF flash_busy_reachable]] by (simp add: flash_busy_core)
  moreover have "fl_sequence (snd (fs_run [FlReserve 2 200, FlCommit 2 190] ([5, 4], fl_slots flash_busy)) ! 2) = 1"
    unfolding flash_busy_core by code_simp
  ultimately have "fl_sequence (fl_slots (flash_run [FlReserve 2 200, FlCommit 2 190] flash_busy) ! 2) = 1"
    by (metis snd_conv)
  then show ?thesis
    using flash_epoch_protects_prefix [OF flash_busy_reachable s, of "[FlReserve 2 200, FlCommit 2 190]"]
    by (simp add: flash_busy_core MAX_BATCH_def)
qed

text \<open>Reuse is last-in first-out: after slot \<open>s\<close> is recycled, the next reservation of a slot that owns
  no page receives the recycled pages in their logical order before any page that was already free.\<close>

theorem flash_recycled_pages_reused_first:
  assumes "flash_reachable p" and "flash_recycle s p = (Inr c, q)" and "flash_reserve t n q = (Inr d, q')"
    and "fl_pages (fl_slots q ! t) = []"
  shows "fl_pages (fl_slots q' ! t) =
    take (div_ceil n ATTENTION_PAGE_SIZE) (fl_pages (fl_slots p ! s) @ rev (fl_free p))"
proof -
  note inv = flash_reachable_inv [OF assms(1)]
  have "is_ok (fst (fs_lift s fs_recycle p))" using assms(2) flash_recycle_eq [OF inv] by simp
  then obtain x g sl where rec: "s < MAX_BATCH" "fs_recycle (fl_free p) (fl_slots p ! s) = (Inr x, g, sl)"
    "fs_lift s fs_recycle p = (Inr x, fl_put s g sl p)" using flash_lift_ok [OF inv] by blast
  have q: "q = fl_put s g sl p" using rec(3) assms(2) flash_recycle_eq [OF inv] by simp
  have g: "g = fl_free p @ rev (fl_pages (fl_slots p ! s))"
    using rec(2) fl_slot_ok_free [OF flash_invD(3) [OF inv rec(1)]]
    by (auto simp: fs_recycle_def fs_keep_def fs_bump_def split: if_splits)
  have "flash_inv q"
    unfolding q using fs_recycle_good [OF flash_invD(3) [OF inv rec(1)], of "fl_free p"] rec(2)
    by (intro flash_inv_put [OF inv rec(1)]) (simp_all add: fs_good_def)
  moreover have "flash_grow t n q q'" using assms(3) by (simp add: flash_grow_def)
  ultimately show ?thesis
    using flash_grow_spec(3) [of q t n q'] assms(4) by (simp add: flash_row_def q g)
qed

theorem flash_recycled_pages_reused_first_witness:
  "fl_pages (fl_slots (snd (flash_reserve 7 100 (snd (flash_recycle 2 flash_busy)))) ! 7) = [0, 1]"
proof -
  note inv = flash_reachable_inv [OF flash_busy_reachable]
  have s: "(2::nat) < MAX_BATCH" "(7::nat) < MAX_BATCH" by (simp_all add: MAX_BATCH_def)
  obtain c q where rec: "flash_recycle 2 flash_busy = (Inr c, q)" and q: "fl_slots q ! 7 = fl_slots flash_busy ! 7"
    "fl_free q = [5, 4, 2, 1, 0]"
    using flash_recycle_eq [OF inv, of 2] s
    by (simp add: fs_lift_def flash_busy_core MAX_BATCH_def fs_recycle_def fs_bump_def U64_BOUND_def fs_keep_def fl_put_def)
  have free: "fl_slots q ! 7 = flash_slot_new" using q by (simp add: flash_busy_core MAX_BATCH_def)
  have "flash_exec (FlRecycle 2) flash_busy = (Inr (), q)" using rec by (simp add: drop_value_def)
  then have qi: "flash_inv q" by (rule flash_exec_inv [OF inv])
  obtain d q' where res: "flash_reserve 7 100 q = (Inr d, q')"
    using flash_reserve_eq [OF qi, of 7 100] s free q(2)
    by (simp add: fs_lift_def fs_reserve_def fs_pages_needed_def fs_bump_def fs_take_def flash_slot_new_def U64_BOUND_def
        div_ceil_def ATTENTION_PAGE_SIZE_def FLASH_PHYSICAL_PAGES_def FLASH_ATTENTION_PAGE_SIZE_def)
  from flash_recycled_pages_reused_first [OF flash_busy_reachable rec res] free rec res show ?thesis
    by (simp add: flash_busy_core MAX_BATCH_def flash_slot_new_def div_ceil_def ATTENTION_PAGE_SIZE_def)
qed

lemma flash_synced_exec:
  assumes inv: "flash_inv p" and sync: "flash_synced p dev" and run: "flash_exec op p = (r, p')"
    and op: "\<And>s. op \<noteq> FlClearDirty s"
  shows "flash_synced p' dev"
proof (cases "flash_op_slot op < MAX_BATCH")
  case True
  then obtain f' sl' where x: "fs_exec op (fl_free p) (fl_slots p ! flash_op_slot op) = (r, f', sl')"
    "p' = fl_put (flash_op_slot op) f' sl' p" "fl_slot_ok sl'"
    using flash_exec_step [OF inv run] by (auto simp: fs_good_def)
  have "fs_marks (fl_slots p ! flash_op_slot op) sl'"
    by (rule fs_exec_marks [OF flash_invD(3) [OF inv True] op x(1)])
  then show ?thesis unfolding x(2) by (rule flash_synced_put [OF inv True x(3) _ sync])
qed (use run sync flash_exec_out [OF inv] in auto)

lemma flash_synced_reset:
  assumes inv: "flash_inv p" and sync: "flash_synced p dev" and run: "flash_reset p = (r, p')"
  shows "flash_synced p' dev"
proof -
  note i = flash_invD [OF inv]
  have "fl_dirty_set (map fs_reset_slot (fl_slots p) ! s) = {0..<FLASH_PHYSICAL_PAGES}" if "s < MAX_BATCH" for s
    using that i(1) by (simp add: fl_dirty_set_def fs_reset_slot_def)
  then show ?thesis
    using run sync i(2) flash_reset_eq [OF inv] by (auto simp: flash_synced_def split: if_splits)
qed

text \<open>C33: A table entry that differs from its device copy is always inside the dirty range of its row:
  if the device copy agrees with the host table outside the dirty ranges, it still does after any
  call (other than the \<open>clear_dirty\<close> of an upload) and after \<open>reset\<close>.\<close>

theorem flash_dirty_ranges_complete:
  assumes "flash_reachable p" and "flash_synced p dev"
    and "(flash_exec op p = (r, p') \<and> (\<forall>s. op \<noteq> FlClearDirty s)) \<or> flash_reset p = (r, p')"
  shows "flash_synced p' dev"
  using assms(3) flash_synced_exec [OF flash_reachable_inv [OF assms(1)] assms(2)]
    flash_synced_reset [OF flash_reachable_inv [OF assms(1)] assms(2)] by blast

theorem flash_dirty_ranges_complete_witness:
  "flash_synced (snd (flash_exec (FlReserve 2 150) flash_small)) (fl_table flash_small)"
proof -
  have "flash_synced flash_small (fl_table flash_small)" by (simp add: flash_synced_def)
  from flash_dirty_ranges_complete [OF flash_small_reachable this disjI1, of "FlReserve 2 150"]
  show ?thesis by (metis flash_op.distinct(13) prod.collapse)
qed

text \<open>\<open>flush_block_tables\<close> brings the device copy up to date: whatever copies the driver refuses, the
  mapping itself is unchanged and no stale entry loses its mark; when it returns \<open>Ok\<close> the device holds
  the whole host table and nothing is dirty; and its only errors are the driver's own refusals.\<close>

theorem flash_flush_uploads_table:
  assumes "flash_reachable p" and "flash_synced p dev" and "flash_flush_block_tables copy p dev = (r, q, dev')"
  shows "flash_synced q dev' \<and> flash_same_mapping p q \<and> (is_ok r \<longrightarrow> dev' = fl_table p \<and> \<not> flash_has_dirty q)
    \<and> (\<forall>e. r = Inl e \<longrightarrow> (\<exists>s<MAX_BATCH. \<exists>g. copy s = Some g \<and> e = Gpu g))"
proof -
  note inv = flash_reachable_inv [OF assms(1)]
  have clean: "dev' = fl_table q \<and> \<not> flash_has_dirty q"
    if q: "flash_inv q" "flash_synced q dev'" "\<forall>s<MAX_BATCH. fl_dirty (fl_slots q ! s) = None"
  proof -
    have "dev' ! k = fl_table q ! k" if k: "k < MAX_BATCH * FLASH_PHYSICAL_PAGES" for k
    proof -
      have pos: "0 < FLASH_PHYSICAL_PAGES" by (simp add: FLASH_PHYSICAL_PAGES_def FLASH_ATTENTION_PAGE_SIZE_def)
      let ?s = "k div FLASH_PHYSICAL_PAGES" and ?e = "k mod FLASH_PHYSICAL_PAGES"
      have "?s < MAX_BATCH" "?e < FLASH_PHYSICAL_PAGES" using k pos by (simp_all add: less_mult_imp_div_less)
      moreover have "\<forall>s<MAX_BATCH. \<forall>e<FLASH_PHYSICAL_PAGES.
          dev' ! (s * FLASH_PHYSICAL_PAGES + e) = fl_table q ! (s * FLASH_PHYSICAL_PAGES + e)"
        using q(2,3) by (simp add: flash_synced_def fl_dirty_set_def)
      ultimately have "dev' ! (?s * FLASH_PHYSICAL_PAGES + ?e) = fl_table q ! (?s * FLASH_PHYSICAL_PAGES + ?e)" by blast
      then show ?thesis by (simp only: div_mult_mod_eq)
    qed
    then have "dev' = fl_table q"
      using q(2) flash_invD(2) [OF q(1)] by (intro nth_equalityI) (simp_all add: flash_synced_def)
    moreover have "\<not> flash_has_dirty q"
      using q(3) flash_invD(1) [OF q(1)] by (auto simp: flash_has_dirty_def list_ex_iff in_set_conv_nth)
    ultimately show ?thesis by simp
  qed
  show ?thesis
  proof (cases "flash_has_dirty p")
    case False
    have "\<forall>s<MAX_BATCH. fl_dirty (fl_slots p ! s) = None"
      using False flash_invD(1) [OF inv] unfolding flash_has_dirty_def list_ex_iff by (metis nth_mem)
    then show ?thesis
      using False assms(2,3) clean inv by (auto simp: flash_flush_block_tables_def flash_same_mapping_def)
  next
    case True
    then have run: "flash_flush_loop copy [0..<MAX_BATCH] p dev = (r, q, dev')"
      using assms(3) by (simp add: flash_flush_block_tables_def)
    have sub: "set [0..<MAX_BATCH] \<subseteq> {..<MAX_BATCH}" by auto
    note ok = flash_flush_loop_ok [OF inv assms(2) sub run]
    have "dev' = fl_table q \<and> \<not> flash_has_dirty q" if "is_ok r" using that ok by (intro clean) auto
    moreover have "fl_table q = fl_table p" using ok by (simp add: flash_same_mapping_def)
    moreover have "\<forall>e. r = Inl e \<longrightarrow> (\<exists>s<MAX_BATCH. \<exists>g. copy s = Some g \<and> e = Gpu g)" using ok by (simp add: Bex_def)
    ultimately show ?thesis using ok by simp
  qed
qed

theorem flash_flush_uploads_table_witness:
  "snd (snd (flash_flush_block_tables (\<lambda>_. None) (snd (flash_exec (FlReserve 2 150) flash_small)) (fl_table flash_small))) =
    fl_table (snd (flash_exec (FlReserve 2 150) flash_small))"
proof -
  let ?p = "snd (flash_exec (FlReserve 2 150) flash_small)"
  have reach: "flash_reachable ?p" by (rule flash_call [OF flash_small_reachable prod.collapse [symmetric]])
  have sync: "flash_synced ?p (fl_table flash_small)"
    by (rule flash_synced_exec [OF flash_reachable_inv [OF flash_small_reachable] _ prod.collapse [symmetric]])
      (simp_all add: flash_synced_def)
  obtain r q dev' where run: "flash_flush_block_tables (\<lambda>_. None) ?p (fl_table flash_small) = (r, q, dev')"
    by (metis prod_cases3)
  from flash_flush_uploads_table [OF reach sync run] have "is_ok r" "is_ok r \<longrightarrow> dev' = fl_table ?p"
    by (auto simp: is_ok_def split: sum.splits)
  then show ?thesis using run by simp
qed

text \<open>\<open>reusable_prefix\<close> is the length of the longest common prefix of the two token lists.\<close>

lemma flash_reusable_prefix_eq: "flash_reusable_prefix committed prompt = length (longest_common_prefix committed prompt)"
proof (induction committed arbitrary: prompt)
  case Nil
  then show ?case by (simp add: flash_reusable_prefix_def)
next
  case (Cons a as)
  then show ?case by (cases prompt) (auto simp: flash_reusable_prefix_def)
qed

end
