(* ===== verification/StreamCache.thy ===== *)
theory StreamCache
  imports Prelude
begin

text \<open>
  The global LRU slot cache of the streaming-resident weight tier: \<open>StreamingSlotCache\<close> in
  \<open>crates/tuisko-engine/src/common/streaming.rs\<close>. Recency is a doubly linked list threaded through
  the index arrays \<open>older\<close> and \<open>newer\<close>; a round is first planned against unchanged residency and then
  committed by replaying the planned steps.
\<close>

section \<open>State\<close>

definition STREAMING_ABSENT_SLOT :: nat where "STREAMING_ABSENT_SLOT = 4294967295"
definition STREAMING_ABSENT_ITEM :: nat where "STREAMING_ABSENT_ITEM = 4294967295"

record slot_assignment =
  as_item :: nat
  as_slot :: nat
  as_evicted :: nat

record stream_round =
  round_hits :: nat
  round_misses :: nat
  round_uploaded_bytes :: nat
  round_reclaim_generation :: nat
  round_stalled :: bool

definition stream_round_default :: stream_round where
  "stream_round_default = \<lparr>round_hits = 0, round_misses = 0, round_uploaded_bytes = 0,
    round_reclaim_generation = 0, round_stalled = False\<rparr>"

record planned_step =
  ps_item :: nat
  ps_slot :: nat
  ps_evicted :: nat
  ps_admitted :: bool

text \<open>\<open>sc_plan\<close> is the used prefix \<open>plan[..plan_len]\<close> of the scratch array of \<open>slot_count\<close> steps.\<close>

record slot_cache =
  item_slot :: "nat list"
  slot_item :: "nat list"
  older :: "nat list"
  newer :: "nat list"
  pinned_round :: "nat list"
  least_recent :: nat
  most_recent :: nat
  sc_round :: nat
  sc_hits :: nat
  sc_misses :: nat
  sc_plan :: "planned_step list"
  plan_hits :: nat
  plan_misses :: nat
  planned :: bool

section \<open>Operations\<close>

definition cache_new :: "nat \<Rightarrow> nat \<Rightarrow> slot_cache engine_result" where
  "cache_new item_count slot_count =
    (if item_count = 0 \<or> slot_count = 0 \<or> slot_count > item_count
     then Inl (layout_error ''streaming slot cache is outside 1..=item_count'')
     else if item_count \<ge> U32_BOUND \<or> item_count = STREAMING_ABSENT_ITEM
     then Inl (layout_error ''streaming item inventory collides with the absent sentinel'')
     else Inr \<lparr>item_slot = replicate item_count STREAMING_ABSENT_SLOT,
       slot_item = replicate slot_count STREAMING_ABSENT_ITEM,
       older = replicate slot_count STREAMING_ABSENT_SLOT, newer = replicate slot_count STREAMING_ABSENT_SLOT,
       pinned_round = replicate slot_count 0, least_recent = STREAMING_ABSENT_SLOT,
       most_recent = STREAMING_ABSENT_SLOT, sc_round = 0, sc_hits = 0, sc_misses = 0,
       sc_plan = [], plan_hits = 0, plan_misses = 0, planned = False\<rparr>)"

definition cache_slot_of :: "slot_cache \<Rightarrow> nat \<Rightarrow> nat option engine_result" where
  "cache_slot_of c item =
    (if item \<ge> length (item_slot c) then Inl (route_error ''streaming item is outside 0..item_count'')
     else let slot = item_slot c ! item in
       Inr (if slot \<noteq> STREAMING_ABSENT_SLOT then Some slot else None))"

definition cache_item_of :: "slot_cache \<Rightarrow> nat \<Rightarrow> nat option engine_result" where
  "cache_item_of c slot =
    (if slot \<ge> length (slot_item c) then Inl (route_error ''streaming slot is outside 0..slot_count'')
     else let item = slot_item c ! slot in
       Inr (if item \<noteq> STREAMING_ABSENT_ITEM then Some item else None))"

definition cache_slot_reader_round :: "slot_cache \<Rightarrow> nat \<Rightarrow> nat engine_result" where
  "cache_slot_reader_round c slot =
    (if slot \<ge> length (pinned_round c) then Inl (route_error ''streaming slot is outside 0..slot_count'')
     else Inr (pinned_round c ! slot))"

definition cache_unlink :: "nat \<Rightarrow> slot_cache \<Rightarrow> slot_cache" where
  "cache_unlink slot c =
    (let old = older c ! slot; new = newer c ! slot;
         c = (if old \<noteq> STREAMING_ABSENT_SLOT then c\<lparr>newer := (newer c)[old := new]\<rparr>
              else if least_recent c = slot then c\<lparr>least_recent := new\<rparr> else c);
         c = (if new \<noteq> STREAMING_ABSENT_SLOT then c\<lparr>older := (older c)[new := old]\<rparr>
              else if most_recent c = slot then c\<lparr>most_recent := old\<rparr> else c)
     in c\<lparr>older := (older c)[slot := STREAMING_ABSENT_SLOT], newer := (newer c)[slot := STREAMING_ABSENT_SLOT]\<rparr>)"

definition cache_touch :: "nat \<Rightarrow> slot_cache \<Rightarrow> slot_cache" where
  "cache_touch slot c =
    (if most_recent c = slot then c
     else
       let c = cache_unlink slot c;
           c = c\<lparr>older := (older c)[slot := most_recent c]\<rparr>;
           c = c\<lparr>newer := (newer c)[slot := STREAMING_ABSENT_SLOT]\<rparr>;
           c = (if most_recent c \<noteq> STREAMING_ABSENT_SLOT then c\<lparr>newer := (newer c)[most_recent c := slot]\<rparr> else c);
           c = c\<lparr>most_recent := slot\<rparr>
       in if least_recent c = STREAMING_ABSENT_SLOT then c\<lparr>least_recent := slot\<rparr> else c)"

definition cache_abandon_planned_round :: "slot_cache \<Rightarrow> slot_cache" where
  "cache_abandon_planned_round c = c\<lparr>sc_plan := [], plan_hits := 0, plan_misses := 0, planned := False\<rparr>"

text \<open>\<open>self.plan[self.plan_len] = step\<close> panics when the scratch array is full.\<close>

definition cache_push_plan :: "planned_step \<Rightarrow> slot_cache \<Rightarrow> unit engine_result \<times> slot_cache" where
  "cache_push_plan step c =
    (if length (sc_plan c) \<ge> length (slot_item c) then (Inl Panicked, c)
     else (Inr (), c\<lparr>sc_plan := sc_plan c @ [step]\<rparr>))"

definition cache_planned_slot_of :: "slot_cache \<Rightarrow> nat \<Rightarrow> nat option" where
  "cache_planned_slot_of c item =
    (case find (\<lambda>step. ps_admitted step \<and> ps_item step = item) (sc_plan c) of
       Some step \<Rightarrow> Some (ps_slot step)
     | None \<Rightarrow>
        if list_ex (\<lambda>step. ps_admitted step \<and> ps_evicted step = item) (sc_plan c) then None
        else if item_slot c ! item \<noteq> STREAMING_ABSENT_SLOT then Some (item_slot c ! item) else None)"

definition cache_is_planned :: "slot_cache \<Rightarrow> nat \<Rightarrow> bool" where
  "cache_is_planned c slot = list_ex (\<lambda>step. ps_slot step = slot) (sc_plan c)"

text \<open>
  \<open>while candidate != STREAMING_ABSENT_SLOT\<close>. The list visits each slot at most once, so
  \<open>slot_count + 1\<close> steps reach its end; \<open>None\<close> is a walk that is still going after them (the code
  would loop), \<open>Some None\<close> an exhausted list.
\<close>

fun cache_walk :: "slot_cache \<Rightarrow> nat \<Rightarrow> nat \<Rightarrow> nat option option" where
  "cache_walk c 0 candidate = None"
| "cache_walk c (Suc fuel) candidate =
    (if candidate = STREAMING_ABSENT_SLOT then Some None
     else if \<not> cache_is_planned c candidate then Some (Some candidate)
     else cache_walk c fuel (newer c ! candidate))"

definition cache_plan_claim_slot :: "slot_cache \<Rightarrow> nat engine_result" where
  "cache_plan_claim_slot c =
    (case find (\<lambda>slot. slot_item c ! slot = STREAMING_ABSENT_ITEM \<and> \<not> cache_is_planned c slot) [0..<length (slot_item c)] of
       Some slot \<Rightarrow> Inr slot
     | None \<Rightarrow>
        (case cache_walk c (Suc (length (slot_item c))) (least_recent c) of
           Some (Some slot) \<Rightarrow> Inr slot
         | Some None \<Rightarrow> Inl (layout_error ''streaming recency list holds fewer than the owned slots'')
         | None \<Rightarrow> Inl Panicked))"

text \<open>The loop of \<open>require_admissible\<close>; \<open>seen\<close> is \<open>items[..position]\<close>.\<close>

fun cache_count_distinct :: "slot_cache \<Rightarrow> nat list \<Rightarrow> nat list \<Rightarrow> nat \<Rightarrow> nat engine_result" where
  "cache_count_distinct c seen [] distinct_items = Inr distinct_items"
| "cache_count_distinct c seen (item # items) distinct_items =
    (if item \<ge> length (item_slot c) then Inl (route_error ''streaming item is outside 0..item_count'')
     else cache_count_distinct c (seen @ [item]) items
            (if item \<in> set seen then distinct_items else distinct_items + 1))"

definition cache_require_admissible :: "slot_cache \<Rightarrow> nat list \<Rightarrow> unit engine_result" where
  "cache_require_admissible c items =
    rbind (cache_count_distinct c [] items 0) (\<lambda>n.
      if n > length (slot_item c)
      then Inl (route_error ''one streaming round requested more distinct items than slots'')
      else Inr ())"

text \<open>The loop \<open>for &item in items\<close> of \<open>plan_round\<close>.\<close>

fun cache_plan_loop ::
  "nat list \<Rightarrow> slot_cache \<Rightarrow> slot_assignment list \<Rightarrow> stream_round \<Rightarrow>
   stream_round engine_result \<times> slot_cache \<times> slot_assignment list" where
  "cache_plan_loop [] c assignments r = (Inr r, c, assignments)"
| "cache_plan_loop (item # items) c assignments r =
    (case cache_planned_slot_of c item of
       Some slot \<Rightarrow>
        (case (if \<not> cache_is_planned c slot
               then cache_push_plan \<lparr>ps_item = item, ps_slot = slot, ps_evicted = STREAMING_ABSENT_ITEM, ps_admitted = False\<rparr> c
               else (Inr (), c)) of
           (Inl e, c) \<Rightarrow> (Inl e, c, assignments)
         | (Inr _, c) \<Rightarrow> cache_plan_loop items c assignments (r\<lparr>round_hits := round_hits r + 1\<rparr>))
     | None \<Rightarrow>
        (case cache_plan_claim_slot c of
           Inl e \<Rightarrow> (Inl e, c, assignments)
         | Inr slot \<Rightarrow>
            let r = r\<lparr>round_reclaim_generation := max (round_reclaim_generation r) (pinned_round c ! slot)\<rparr>;
                evicted = slot_item c ! slot
            in (case cache_push_plan \<lparr>ps_item = item, ps_slot = slot, ps_evicted = evicted, ps_admitted = True\<rparr> c of
                  (Inl e, c) \<Rightarrow> (Inl e, c, assignments)
                | (Inr _, c) \<Rightarrow>
                   cache_plan_loop items c (assignments @ [\<lparr>as_item = item, as_slot = slot, as_evicted = evicted\<rparr>])
                     (r\<lparr>round_misses := round_misses r + 1\<rparr>))))"

definition cache_plan_round ::
  "nat list \<Rightarrow> slot_cache \<Rightarrow> slot_assignment list \<Rightarrow> stream_round engine_result \<times> slot_cache \<times> slot_assignment list" where
  "cache_plan_round items c assignments =
    (if sc_round c = U64_BOUND - 1
     then (Inl (layout_error ''streaming round generation is exhausted''), c, assignments)
     else case cache_require_admissible c items of
       Inl e \<Rightarrow> (Inl e, c, assignments)
     | Inr _ \<Rightarrow>
        (case cache_plan_loop items (c\<lparr>sc_plan := [], planned := True\<rparr>) [] stream_round_default of
           (Inl e, c, assignments) \<Rightarrow> (Inl e, c, assignments)
         | (Inr r, c, assignments) \<Rightarrow>
            if checked_add (sc_hits c) (round_hits r) = None \<or> checked_add (sc_misses c) (round_misses r) = None
            then (Inl (layout_error ''streaming cache request counters overflow''), cache_abandon_planned_round c, [])
            else (Inr r, c\<lparr>plan_hits := round_hits r, plan_misses := round_misses r\<rparr>, assignments)))"

text \<open>The loop \<open>for index in 0..self.plan_len\<close> of \<open>commit_planned_round\<close>.\<close>

definition cache_commit_step :: "planned_step \<Rightarrow> slot_cache \<Rightarrow> slot_cache" where
  "cache_commit_step step c =
    (let c = (if ps_admitted step
              then
                let c = (if ps_evicted step \<noteq> STREAMING_ABSENT_ITEM
                         then c\<lparr>item_slot := (item_slot c)[ps_evicted step := STREAMING_ABSENT_SLOT]\<rparr> else c);
                    c = c\<lparr>slot_item := (slot_item c)[ps_slot step := ps_item step]\<rparr>
                in c\<lparr>item_slot := (item_slot c)[ps_item step := ps_slot step]\<rparr>
              else c);
         c = cache_touch (ps_slot step) c
     in c\<lparr>pinned_round := (pinned_round c)[ps_slot step := sc_round c]\<rparr>)"

definition cache_commit_planned_round :: "slot_cache \<Rightarrow> slot_cache" where
  "cache_commit_planned_round c =
    (if \<not> planned c then c
     else
       let c = fold cache_commit_step (sc_plan c) (c\<lparr>sc_round := sc_round c + 1\<rparr>);
           c = c\<lparr>sc_hits := sc_hits c + plan_hits c, sc_misses := sc_misses c + plan_misses c\<rparr>
       in cache_abandon_planned_round c)"

definition cache_admit_round ::
  "nat list \<Rightarrow> slot_cache \<Rightarrow> slot_assignment list \<Rightarrow> stream_round engine_result \<times> slot_cache \<times> slot_assignment list" where
  "cache_admit_round items c assignments =
    (case cache_plan_round items c assignments of
       (Inl e, c, assignments) \<Rightarrow> (Inl e, c, assignments)
     | (Inr r, c, assignments) \<Rightarrow> (Inr r, cache_commit_planned_round c, assignments))"

definition cache_clear :: "slot_cache \<Rightarrow> slot_cache" where
  "cache_clear c = cache_abandon_planned_round
    (c\<lparr>item_slot := replicate (length (item_slot c)) STREAMING_ABSENT_SLOT,
       slot_item := replicate (length (slot_item c)) STREAMING_ABSENT_ITEM,
       older := replicate (length (older c)) STREAMING_ABSENT_SLOT,
       newer := replicate (length (newer c)) STREAMING_ABSENT_SLOT,
       pinned_round := replicate (length (pinned_round c)) 0,
       least_recent := STREAMING_ABSENT_SLOT, most_recent := STREAMING_ABSENT_SLOT,
       sc_hits := 0, sc_misses := 0\<rparr>)"

definition cache_host_allocation_bytes :: "slot_cache \<Rightarrow> nat" where
  "cache_host_allocation_bytes c = length (item_slot c) * 4 + length (slot_item c) * 4 + length (older c) * 4
    + length (newer c) * 4 + length (pinned_round c) * 8 + length (slot_item c) * 16"

end
