(* ===== verification/StreamLinks.thy ===== *)
theory StreamLinks
  imports StreamCache
begin

text \<open>
  The recency list of the slot cache: what the index arrays \<open>older\<close> and \<open>newer\<close> hold for a list of
  slots (least recent first), and that \<open>unlink\<close>, \<open>touch\<close> and the eviction walk do on the arrays what
  they should do on the list.
\<close>

abbreviation NIL :: nat where "NIL \<equiv> STREAMING_ABSENT_SLOT"

section \<open>Neighbours in a list\<close>

fun link_prev :: "nat \<Rightarrow> nat list \<Rightarrow> nat \<Rightarrow> nat" where
  "link_prev p [] s = NIL"
| "link_prev p (x # xs) s = (if s = x then p else link_prev x xs s)"

fun link_next :: "nat list \<Rightarrow> nat \<Rightarrow> nat" where
  "link_next [] s = NIL"
| "link_next (x # xs) s = (if s = x then hd (xs @ [NIL]) else link_next xs s)"

lemma link_prev_out: "s \<notin> set xs \<Longrightarrow> link_prev p xs s = NIL"
  by (induction xs arbitrary: p) auto

lemma link_next_out: "s \<notin> set xs \<Longrightarrow> link_next xs s = NIL"
  by (induction xs) auto

lemma link_prev_append:
  "distinct (xs @ ys) \<Longrightarrow> link_prev p (xs @ ys) s = (if s \<in> set xs then link_prev p xs s else link_prev (last (p # xs)) ys s)"
  by (induction xs arbitrary: p) auto

lemma link_next_append:
  "distinct (xs @ ys) \<Longrightarrow> link_next (xs @ ys) s =
    (if s \<in> set xs then (if s = last xs then hd (ys @ [NIL]) else link_next xs s) else link_next ys s)"
  by (induction xs) (auto split: list.splits)

lemma link_prev_first: "s \<in> set xs \<Longrightarrow> distinct xs \<Longrightarrow> link_prev p xs s = (if s = hd xs then p else link_prev q xs s)"
  by (cases xs) auto

lemma link_prev_remove:
  assumes "distinct (xs @ s # ys)"
  shows "link_prev p (xs @ ys) t =
    (if t = s then NIL else if ys \<noteq> [] \<and> t = hd ys then last (p # xs) else link_prev p (xs @ s # ys) t)"
  using assms by (cases ys) (auto simp: link_prev_append link_prev_out)

lemma link_next_remove:
  assumes "distinct (xs @ s # ys)"
  shows "link_next (xs @ ys) t =
    (if t = s then NIL else if xs \<noteq> [] \<and> t = last xs then hd (ys @ [NIL]) else link_next (xs @ s # ys) t)"
  using assms by (auto simp: link_next_append link_next_out)

lemma link_prev_snoc: "distinct (xs @ [s]) \<Longrightarrow> link_prev p (xs @ [s]) t = (if t = s then last (p # xs) else link_prev p xs t)"
  by (auto simp: link_prev_append link_prev_out)

lemma link_next_snoc:
  "distinct (xs @ [s]) \<Longrightarrow> link_next (xs @ [s]) t =
    (if t = s then NIL else if xs \<noteq> [] \<and> t = last xs then s else link_next xs t)"
  by (auto simp: link_next_append link_next_out)

section \<open>The arrays hold a list\<close>

definition cache_links :: "slot_cache \<Rightarrow> nat list \<Rightarrow> bool" where
  "cache_links c xs \<longleftrightarrow>
    distinct xs \<and> set xs \<subseteq> {..<length (slot_item c)} \<and> length (slot_item c) \<le> NIL \<and>
    length (older c) = length (slot_item c) \<and> length (newer c) = length (slot_item c) \<and>
    (\<forall>s<length (slot_item c). older c ! s = link_prev NIL xs s \<and> newer c ! s = link_next xs s) \<and>
    least_recent c = hd (xs @ [NIL]) \<and> most_recent c = last (NIL # xs)"

text \<open>What the link operations leave alone.\<close>

definition cache_link_frame :: "slot_cache \<Rightarrow> slot_cache \<Rightarrow> bool" where
  "cache_link_frame c c' \<longleftrightarrow>
    item_slot c' = item_slot c \<and> slot_item c' = slot_item c \<and> pinned_round c' = pinned_round c \<and>
    sc_round c' = sc_round c \<and> sc_hits c' = sc_hits c \<and> sc_misses c' = sc_misses c \<and>
    sc_plan c' = sc_plan c \<and> plan_hits c' = plan_hits c \<and> plan_misses c' = plan_misses c \<and> planned c' = planned c"

lemma cache_unlink_frame: "cache_link_frame c (cache_unlink s c)"
  by (simp add: cache_link_frame_def cache_unlink_def Let_def)

lemma cache_touch_frame: "cache_link_frame c (cache_touch s c)"
  using cache_unlink_frame [of c s] by (simp add: cache_link_frame_def cache_touch_def Let_def)

lemma cache_linksD:
  assumes "cache_links c xs"
  shows "distinct xs" "s \<in> set xs \<Longrightarrow> s < length (slot_item c)" "s < length (slot_item c) \<Longrightarrow> s \<noteq> NIL"
    "s \<in> set xs \<Longrightarrow> s \<noteq> NIL"
    "s < length (slot_item c) \<Longrightarrow> older c ! s = link_prev NIL xs s" "s < length (slot_item c) \<Longrightarrow> newer c ! s = link_next xs s"
    "length (older c) = length (slot_item c)" "length (newer c) = length (slot_item c)"
    "least_recent c = hd (xs @ [NIL])" "most_recent c = last (NIL # xs)"
  using assms by (auto simp: cache_links_def)

lemma cache_unlink_out:
  assumes l: "cache_links c xs" and s: "s < length (slot_item c)" and out: "s \<notin> set xs"
  shows "cache_unlink s c = c"
proof -
  note d = cache_linksD [OF l]
  have "older c ! s = NIL" "newer c ! s = NIL" using d(5,6) [OF s] out by (simp_all add: link_prev_out link_next_out)
  moreover have "least_recent c \<noteq> s" "most_recent c \<noteq> s"
    using d(9,10) d(3) [OF s] out by (auto simp: hd_append split: list.splits if_splits)
  ultimately have "cache_unlink s c = c\<lparr>older := (older c)[s := older c ! s], newer := (newer c)[s := newer c ! s]\<rparr>"
    by (simp add: cache_unlink_def)
  then show ?thesis by simp
qed

lemma cache_unlink_links:
  assumes l: "cache_links c (xs @ s # ys)"
  shows "cache_links (cache_unlink s c) (xs @ ys)"
proof -
  note d = cache_linksD [OF l]
  let ?n = "length (slot_item c)"
  have s: "s < ?n" "s \<noteq> NIL" using d(2,4) by simp_all
  have dist: "distinct (xs @ s # ys)" by (rule d(1))
  have os: "older c ! s = last (NIL # xs)" and ns: "newer c ! s = hd (ys @ [NIL])"
    using d(5,6) [OF s(1)] dist by (simp_all add: link_prev_append link_next_append)
  have xs: "xs \<noteq> [] \<Longrightarrow> last xs < ?n \<and> last xs \<noteq> NIL \<and> last xs \<noteq> s"
    using d(2,4) [of "last xs"] dist by auto
  have ys: "ys \<noteq> [] \<Longrightarrow> hd ys < ?n \<and> hd ys \<noteq> NIL \<and> hd ys \<noteq> s"
    using d(2,4) [of "hd ys"] dist by (cases ys) auto
  have n': "newer (cache_unlink s c) = (if xs \<noteq> [] then (newer c)[last xs := hd (ys @ [NIL])] else newer c)[s := NIL]"
    and o': "older (cache_unlink s c) = (if ys \<noteq> [] then (older c)[hd ys := last (NIL # xs)] else older c)[s := NIL]"
    using os ns xs ys by (auto simp: cache_unlink_def Let_def hd_append)
  have least: "least_recent (cache_unlink s c) = hd ((xs @ ys) @ [NIL])"
    using os ns xs d(9) by (cases xs) (auto simp: cache_unlink_def Let_def)
  have most: "most_recent (cache_unlink s c) = last (NIL # xs @ ys)"
    using os ns ys d(10) by (cases ys) (auto simp: cache_unlink_def Let_def)
  have items: "slot_item (cache_unlink s c) = slot_item c" using cache_unlink_frame [of c s] by (simp add: cache_link_frame_def)
  have entries: "older (cache_unlink s c) ! t = link_prev NIL (xs @ ys) t \<and> newer (cache_unlink s c) ! t = link_next (xs @ ys) t"
    if t: "t < ?n" for t
  proof
    show "older (cache_unlink s c) ! t = link_prev NIL (xs @ ys) t"
      using t ys d(5) [OF t] d(7) unfolding o' link_prev_remove [OF dist] by (auto simp: nth_list_update)
    show "newer (cache_unlink s c) ! t = link_next (xs @ ys) t"
      using t xs d(6) [OF t] d(8) unfolding n' link_next_remove [OF dist] by (auto simp: nth_list_update)
  qed
  show ?thesis
    using l entries least most items dist by (auto simp: cache_links_def o' n')
qed

lemma cache_append_links:
  assumes l: "cache_links c xs" and s: "s < length (slot_item c)" "s \<notin> set xs"
  defines "c1 \<equiv> c\<lparr>older := (older c)[s := most_recent c]\<rparr>"
  defines "c2 \<equiv> c1\<lparr>newer := (newer c1)[s := NIL]\<rparr>"
  defines "c3 \<equiv> (if most_recent c2 \<noteq> NIL then c2\<lparr>newer := (newer c2)[most_recent c2 := s]\<rparr> else c2)"
  defines "c4 \<equiv> c3\<lparr>most_recent := s\<rparr>"
  shows "cache_links (if least_recent c4 = NIL then c4\<lparr>least_recent := s\<rparr> else c4) (xs @ [s])"
proof -
  note d = cache_linksD [OF l]
  let ?c = "if least_recent c4 = NIL then c4\<lparr>least_recent := s\<rparr> else c4"
  have dist: "distinct (xs @ [s])" using d(1) s(2) by simp
  have most: "most_recent c = last (NIL # xs)" by (rule d(10))
  have ne: "xs \<noteq> [] \<Longrightarrow> last xs < length (slot_item c) \<and> last xs \<noteq> NIL \<and> last xs \<noteq> s"
    using d(2,4) [of "last xs"] s(2) by auto
  have mn: "most_recent c \<noteq> NIL \<longleftrightarrow> xs \<noteq> []" using most ne by (cases "xs = []") auto
  have ln: "least_recent c = NIL \<longleftrightarrow> xs = []" using d(9) d(4) [of "hd xs"] by (cases xs) auto
  have older': "older ?c = (older c)[s := last (NIL # xs)]" by (simp add: c4_def c3_def c2_def c1_def most)
  have newer': "newer ?c = (if xs \<noteq> [] then (newer c)[s := NIL, last xs := s] else (newer c)[s := NIL])"
    using mn most by (auto simp: c4_def c3_def c2_def c1_def)
  have ends: "least_recent ?c = hd ((xs @ [s]) @ [NIL])" "most_recent ?c = s"
    using ln d(9) by (cases xs; simp add: c4_def c3_def c2_def c1_def)+
  have items: "slot_item ?c = slot_item c" by (simp add: c4_def c3_def c2_def c1_def)
  have entries: "older ?c ! t = link_prev NIL (xs @ [s]) t \<and> newer ?c ! t = link_next (xs @ [s]) t"
    if t: "t < length (slot_item c)" for t
    using t ne d(5-8) unfolding older' newer' link_prev_snoc [OF dist] link_next_snoc [OF dist]
    by (auto simp: nth_list_update)
  show ?thesis
    unfolding cache_links_def items
    using l dist entries ends s d(7,8) by (auto simp: cache_links_def older' newer')
qed

lemma cache_touch_links:
  assumes l: "cache_links c xs" and s: "s < length (slot_item c)"
  shows "cache_links (cache_touch s c) (remove1 s xs @ [s])"
proof (cases "most_recent c = s")
  case True
  note d = cache_linksD [OF l]
  have "xs \<noteq> []" using True d(10) d(3) [OF s] by auto
  then obtain ys where xs: "xs = ys @ [s]" using True d(10) by (cases xs rule: rev_cases) auto
  have "s \<notin> set ys" using d(1) xs by simp
  then have "remove1 s xs @ [s] = xs" by (simp add: xs remove1_append remove1_idem)
  then show ?thesis using l True by (simp add: cache_touch_def)
next
  case False
  have "cache_links (cache_unlink s c) (remove1 s xs)"
  proof (cases "s \<in> set xs")
    case True
    then obtain ys zs where xs: "xs = ys @ s # zs" "s \<notin> set ys" by (meson split_list_first)
    then show ?thesis using cache_unlink_links [of c ys s zs] l by (simp add: remove1_append)
  next
    case out: False
    then show ?thesis using cache_unlink_out [OF l s out] l by (simp add: remove1_idem)
  qed
  moreover have "s \<notin> set (remove1 s xs)" using cache_linksD(1) [OF l] by simp
  moreover have "s < length (slot_item (cache_unlink s c))" using s cache_unlink_frame [of c s] by (simp add: cache_link_frame_def)
  ultimately show ?thesis using cache_append_links [of "cache_unlink s c"] False by (simp add: cache_touch_def Let_def)
qed

end
