(* ===== verification/StreamLru.thy ===== *)
theory StreamLru
  imports StreamLinks
begin

text \<open>
  The contract of the slot cache: plain LRU. The abstract cache maps slots to items and keeps the
  occupied slots in a list, least recently used first; a round serves its distinct requests one after the
  other, evicting the front of that list when no slot is free. The plan-then-commit code with its index
  arrays implements it.
\<close>

section \<open>The abstract cache\<close>

record lru =
  lru_items :: "nat option list"
  lru_order :: "nat list"
  lru_reader :: "nat list"

definition lru_find :: "nat \<Rightarrow> lru \<Rightarrow> nat option" where
  "lru_find item A = find (\<lambda>s. lru_items A ! s = Some item) [0..<length (lru_items A)]"

definition lru_free :: "lru \<Rightarrow> nat option" where
  "lru_free A = find (\<lambda>s. lru_items A ! s = None) [0..<length (lru_items A)]"

definition lru_claim :: "lru \<Rightarrow> nat" where
  "lru_claim A = (case lru_free A of Some s \<Rightarrow> s | None \<Rightarrow> hd (lru_order A))"

definition lru_use :: "nat \<Rightarrow> nat \<Rightarrow> lru \<Rightarrow> lru" where
  "lru_use g s A = A\<lparr>lru_order := remove1 s (lru_order A) @ [s], lru_reader := (lru_reader A)[s := g]\<rparr>"

definition lru_place :: "nat \<Rightarrow> nat \<Rightarrow> lru \<Rightarrow> lru" where
  "lru_place item s A = A\<lparr>lru_items := (lru_items A)[s := Some item]\<rparr>"

definition enc_item :: "nat option \<Rightarrow> nat" where
  "enc_item x = (case x of None \<Rightarrow> STREAMING_ABSENT_ITEM | Some i \<Rightarrow> i)"

text \<open>
  Plain LRU, at generation \<open>g\<close>: a resident item is a hit and becomes the most recent; a missing item takes
  the lowest free slot, or else the slot at the front of the order. The reclaim generation is the newest
  reader of an overwritten slot.
\<close>

fun lru_requests ::
  "nat \<Rightarrow> nat list \<Rightarrow> lru \<Rightarrow> slot_assignment list \<Rightarrow> stream_round \<Rightarrow> lru \<times> slot_assignment list \<times> stream_round" where
  "lru_requests g [] A as r = (A, as, r)"
| "lru_requests g (item # items) A as r =
    (case lru_find item A of
       Some s \<Rightarrow> lru_requests g items (lru_use g s A) as (r\<lparr>round_hits := round_hits r + 1\<rparr>)
     | None \<Rightarrow>
        let s = lru_claim A in
        lru_requests g items (lru_use g s (lru_place item s A))
          (as @ [\<lparr>as_item = item, as_slot = s, as_evicted = enc_item (lru_items A ! s)\<rparr>])
          (r\<lparr>round_reclaim_generation := max (round_reclaim_generation r) (lru_reader A ! s),
             round_misses := round_misses r + 1\<rparr>))"

text \<open>The requests of a round with the repetitions left out: each item at its first request.\<close>

fun first_requests :: "nat list \<Rightarrow> nat list" where
  "first_requests [] = []"
| "first_requests (item # items) = item # first_requests (filter (\<lambda>i. i \<noteq> item) items)"

text \<open>A round serves the first requests; a repeated request counts as a hit and changes nothing else.\<close>

definition lru_distinct ::
  "nat \<Rightarrow> nat list \<Rightarrow> lru \<Rightarrow> slot_assignment list \<Rightarrow> stream_round \<Rightarrow> lru \<times> slot_assignment list \<times> stream_round" where
  "lru_distinct g items A as r =
    (case lru_requests g (first_requests items) A as r of
       (B, bs, q) \<Rightarrow> (B, bs, q\<lparr>round_hits := round_hits q + (length items - length (first_requests items))\<rparr>))"

text \<open>The same round request by request, with the items already served.\<close>

fun lru_round ::
  "nat \<Rightarrow> nat set \<Rightarrow> nat list \<Rightarrow> lru \<Rightarrow> slot_assignment list \<Rightarrow> stream_round \<Rightarrow> lru \<times> slot_assignment list \<times> stream_round" where
  "lru_round g seen [] A as r = (A, as, r)"
| "lru_round g seen (item # items) A as r =
    (if item \<in> seen then lru_round g seen items A as (r\<lparr>round_hits := round_hits r + 1\<rparr>)
     else case lru_find item A of
       Some s \<Rightarrow> lru_round g (insert item seen) items (lru_use g s A) as (r\<lparr>round_hits := round_hits r + 1\<rparr>)
     | None \<Rightarrow>
        let s = lru_claim A in
        lru_round g (insert item seen) items (lru_use g s (lru_place item s A))
          (as @ [\<lparr>as_item = item, as_slot = s, as_evicted = enc_item (lru_items A ! s)\<rparr>])
          (r\<lparr>round_reclaim_generation := max (round_reclaim_generation r) (lru_reader A ! s),
             round_misses := round_misses r + 1\<rparr>))"

lemma first_requests_length: "length (first_requests items) \<le> length items"
proof (induction items rule: first_requests.induct)
  case (2 item items)
  then show ?case using length_filter_le [of "\<lambda>i. i \<noteq> item" items] by (simp only: first_requests.simps list.size)
qed simp

lemma first_requests_distinct: "distinct items \<Longrightarrow> first_requests items = items"
proof (induction items)
  case (Cons item items)
  then have "filter (\<lambda>i. i \<noteq> item) items = items" by (auto simp: filter_id_conv)
  then show ?case using Cons by simp
qed simp

lemma lru_requests_hit:
  "lru_requests g items A as (r\<lparr>round_hits := Suc (round_hits r)\<rparr>) =
    (case lru_requests g items A as r of (B, bs, q) \<Rightarrow> (B, bs, q\<lparr>round_hits := Suc (round_hits q)\<rparr>))"
proof (induction g items A as r rule: lru_requests.induct)
  case (2 g item items A as r)
  show ?case
  proof (cases "lru_find item A")
    case None
    then show ?thesis using 2(1) [OF None refl] by (cases r) (simp add: Let_def)
  next
    case (Some s)
    then show ?thesis using 2(2) [OF Some] by simp
  qed
qed simp

lemma lru_round_distinct:
  "lru_round g seen items A as r =
    (case lru_requests g (first_requests (filter (\<lambda>i. i \<notin> seen) items)) A as r of
       (B, bs, q) \<Rightarrow> (B, bs, q\<lparr>round_hits := round_hits q + (length items - length (first_requests (filter (\<lambda>i. i \<notin> seen) items)))\<rparr>))"
proof (induction items arbitrary: seen A as r)
  case (Cons item items)
  let ?F = "filter (\<lambda>i. i \<notin> seen) items"
  show ?case
  proof (cases "item \<in> seen")
    case True
    have "length (first_requests ?F) \<le> length items"
      using first_requests_length [of ?F] length_filter_le [of "\<lambda>i. i \<notin> seen" items] by linarith
    then show ?thesis using True Cons [of seen A as "r\<lparr>round_hits := Suc (round_hits r)\<rparr>"]
      by (simp add: lru_requests_hit Suc_diff_le split: prod.splits)
  next
    case False
    have "filter (\<lambda>i. i \<notin> insert item seen) items = filter (\<lambda>i. i \<noteq> item) ?F" by (simp add: conj_commute)
    note ih = Cons [of "insert item seen", unfolded this]
    show ?thesis using False ih by (cases "lru_find item A") (simp_all add: Let_def)
  qed
qed simp

lemma lru_round_plain: "lru_round g {} items A as r = lru_distinct g items A as r"
  by (simp add: lru_round_distinct lru_distinct_def)

section \<open>The eviction walk\<close>

lemma cache_walk_eq:
  assumes "cache_links c (xs @ ys)" and "length ys < fuel"
  shows "cache_walk c fuel (hd (ys @ [NIL])) = Some (find (\<lambda>s. \<not> cache_is_planned c s) ys)"
  using assms
proof (induction ys arbitrary: xs fuel)
  case Nil
  then show ?case by (cases fuel) simp_all
next
  case (Cons y ys)
  obtain k where k: "fuel = Suc k" "length ys < k" using Cons.prems(2) by (cases fuel) auto
  note d = cache_linksD [OF Cons.prems(1)]
  have y: "y < length (slot_item c)" "y \<noteq> NIL" using d(2,4) by simp_all
  have "newer c ! y = hd (ys @ [NIL])" using d(6) [OF y(1)] d(1) by (simp add: link_next_append)
  moreover have "cache_links c ((xs @ [y]) @ ys)" using Cons.prems(1) by simp
  ultimately show ?case using Cons.IH [OF _ k(2), of "xs @ [y]"] y k(1) by simp
qed

section \<open>Representation\<close>

definition lru_ok :: "nat \<Rightarrow> nat \<Rightarrow> lru \<Rightarrow> bool" where
  "lru_ok n m A \<longleftrightarrow>
    length (lru_items A) = n \<and> length (lru_reader A) = n \<and> distinct (lru_order A) \<and>
    set (lru_order A) = {s. s < n \<and> lru_items A ! s \<noteq> None} \<and>
    (\<forall>s<n. \<forall>i. lru_items A ! s = Some i \<longrightarrow> i < m) \<and>
    (\<forall>s<n. \<forall>t<n. lru_items A ! s = lru_items A ! t \<longrightarrow> lru_items A ! s \<noteq> None \<longrightarrow> s = t)"

definition cache_rep :: "slot_cache \<Rightarrow> lru \<Rightarrow> bool" where
  "cache_rep c A \<longleftrightarrow>
    lru_ok (length (slot_item c)) (length (item_slot c)) A \<and> cache_links c (lru_order A) \<and>
    0 < length (slot_item c) \<and> length (slot_item c) \<le> length (item_slot c) \<and> length (item_slot c) < NIL \<and>
    pinned_round c = lru_reader A \<and>
    (\<forall>s<length (slot_item c). slot_item c ! s = enc_item (lru_items A ! s)) \<and>
    (\<forall>i<length (item_slot c). item_slot c ! i = (case lru_find i A of None \<Rightarrow> NIL | Some s \<Rightarrow> s))"

lemma find_upt_Some_iff: "find P [0..<n] = Some s \<Longrightarrow> s < n \<and> P s"
  by (auto simp: find_Some_iff)

lemma find_upt_None_iff: "find P [0..<n] = None \<longleftrightarrow> (\<forall>s<n. \<not> P s)"
  by (auto simp: find_None_iff)

lemma find_upt_unique: "s < n \<Longrightarrow> P s \<Longrightarrow> (\<And>t. t < n \<Longrightarrow> P t \<Longrightarrow> t = s) \<Longrightarrow> find P [0..<n] = Some s"
  using find_upt_None_iff [of P n] find_upt_Some_iff [of P n] by (cases "find P [0..<n]") blast+

lemma lru_find_Some:
  assumes ok: "lru_ok n m A"
  shows "lru_find i A = Some s \<longleftrightarrow> s < n \<and> lru_items A ! s = Some i"
proof
  assume "lru_find i A = Some s"
  then show "s < n \<and> lru_items A ! s = Some i" using find_upt_Some_iff ok by (auto simp: lru_find_def lru_ok_def)
next
  assume s: "s < n \<and> lru_items A ! s = Some i"
  show "lru_find i A = Some s"
    unfolding lru_find_def
  proof (rule find_upt_unique)
    fix t assume "t < length (lru_items A)" "lru_items A ! t = Some i"
    then show "t = s" using s ok unfolding lru_ok_def by (metis option.distinct(1))
  qed (use s ok in \<open>auto simp: lru_ok_def\<close>)
qed

lemma lru_find_None: "lru_ok n m A \<Longrightarrow> lru_find i A = None \<longleftrightarrow> (\<forall>s<n. lru_items A ! s \<noteq> Some i)"
  by (simp add: lru_find_def find_upt_None_iff lru_ok_def)

lemma lru_okD:
  assumes "lru_ok n m A"
  shows "length (lru_items A) = n" "length (lru_reader A) = n" "distinct (lru_order A)"
    "s \<in> set (lru_order A) \<longleftrightarrow> s < n \<and> lru_items A ! s \<noteq> None"
    "s < n \<Longrightarrow> lru_items A ! s = Some i \<Longrightarrow> i < m"
    "s < n \<Longrightarrow> t < n \<Longrightarrow> lru_items A ! s = lru_items A ! t \<Longrightarrow> lru_items A ! s \<noteq> None \<Longrightarrow> s = t"
  using assms unfolding lru_ok_def by auto

section \<open>One planned step\<close>

definition step_ok :: "nat \<Rightarrow> nat \<Rightarrow> lru \<Rightarrow> planned_step \<Rightarrow> bool" where
  "step_ok n m A st \<longleftrightarrow> ps_slot st < n \<and> ps_item st < m \<and>
    (if ps_admitted st
     then (\<forall>s<n. lru_items A ! s \<noteq> Some (ps_item st)) \<and> ps_evicted st = enc_item (lru_items A ! ps_slot st)
     else lru_items A ! ps_slot st = Some (ps_item st))"

definition plan_apply :: "nat \<Rightarrow> planned_step \<Rightarrow> lru \<Rightarrow> lru" where
  "plan_apply g st A =
    lru_use g (ps_slot st) (if ps_admitted st then lru_place (ps_item st) (ps_slot st) A else A)"

lemma plan_apply_simps:
  "lru_items (plan_apply g st A) = (if ps_admitted st then (lru_items A)[ps_slot st := Some (ps_item st)] else lru_items A)"
  "lru_order (plan_apply g st A) = remove1 (ps_slot st) (lru_order A) @ [ps_slot st]"
  "lru_reader (plan_apply g st A) = (lru_reader A)[ps_slot st := g]"
  by (simp_all add: plan_apply_def lru_use_def lru_place_def)

lemma plan_apply_nth:
  "step_ok n m A st \<Longrightarrow> lru_ok n m A \<Longrightarrow> s < n \<Longrightarrow>
    lru_items (plan_apply g st A) ! s = (if s = ps_slot st then Some (ps_item st) else lru_items A ! s)"
  by (auto simp: plan_apply_simps step_ok_def lru_ok_def nth_list_update split: if_splits)

lemma plan_apply_ok:
  assumes ok: "lru_ok n m A" and st: "step_ok n m A st"
  shows "lru_ok n m (plan_apply g st A)"
proof -
  note d = lru_okD [OF ok] and nth = plan_apply_nth [OF st ok, of _ g]
  have s: "ps_slot st < n" "ps_item st < m" using st by (simp_all add: step_ok_def)
  have other: "lru_items A ! t \<noteq> Some (ps_item st)" if "t < n" "t \<noteq> ps_slot st" for t
    using st that d(6) [of t "ps_slot st"] s(1) by (auto simp: step_ok_def split: if_splits)
  have len: "length (lru_items (plan_apply g st A)) = n" "length (lru_reader (plan_apply g st A)) = n"
    using d(1,2) by (simp_all add: plan_apply_simps)
  have order: "distinct (lru_order (plan_apply g st A))"
    "set (lru_order (plan_apply g st A)) = {s. s < n \<and> lru_items (plan_apply g st A) ! s \<noteq> None}"
    using d(3,4) s nth by (auto simp: plan_apply_simps(2) split: if_splits)
  show ?thesis
    unfolding lru_ok_def
  proof (intro conjI allI impI)
    fix t u assume t: "t < n" and u: "u < n" and eq: "lru_items (plan_apply g st A) ! t = lru_items (plan_apply g st A) ! u"
      and ne: "lru_items (plan_apply g st A) ! t \<noteq> None"
    show "t = u"
    proof (rule ccontr)
      assume tu: "t \<noteq> u"
      show False using eq ne nth [OF t] nth [OF u] other [OF t] other [OF u] d(6) [OF t u] tu by (auto split: if_splits)
    qed
  qed (use len order s nth d(5) in \<open>auto split: if_splits\<close>)
qed

lemma cache_commit_step_rep:
  assumes rep: "cache_rep c A" and st: "step_ok (length (slot_item c)) (length (item_slot c)) A st"
  shows "cache_rep (cache_commit_step st c) (plan_apply (sc_round c) st A)"
proof -
  let ?n = "length (slot_item c)" and ?m = "length (item_slot c)" and ?s = "ps_slot st" and ?i = "ps_item st"
  have ok: "lru_ok ?n ?m A" and links: "cache_links c (lru_order A)" and lens: "0 < ?n" "?n \<le> ?m" "?m < NIL"
    and pin: "pinned_round c = lru_reader A" and slots: "\<And>s. s < ?n \<Longrightarrow> slot_item c ! s = enc_item (lru_items A ! s)"
    and items: "\<And>i. i < ?m \<Longrightarrow> item_slot c ! i = (case lru_find i A of None \<Rightarrow> NIL | Some s \<Rightarrow> s)"
    using rep by (simp_all add: cache_rep_def)
  have s: "?s < ?n" "?i < ?m" using st by (simp_all add: step_ok_def)
  note d = lru_okD [OF ok]
  define c1 where "c1 = (if ps_admitted st
      then c\<lparr>slot_item := (slot_item c)[?s := ?i],
             item_slot := (if ps_evicted st \<noteq> STREAMING_ABSENT_ITEM then (item_slot c)[ps_evicted st := NIL] else item_slot c)[?i := ?s]\<rparr> else c)"
  have commit: "cache_commit_step st c =
      (cache_touch ?s c1)\<lparr>pinned_round := (pinned_round (cache_touch ?s c1))[?s := sc_round (cache_touch ?s c1)]\<rparr>"
    by (simp add: cache_commit_step_def c1_def Let_def)
  have c1: "length (slot_item c1) = ?n" "length (item_slot c1) = ?m" "pinned_round c1 = pinned_round c" "sc_round c1 = sc_round c"
    by (simp_all add: c1_def)
  have fr: "cache_link_frame c1 (cache_touch ?s c1)" by (rule cache_touch_frame)
  have links1: "cache_links c1 (lru_order A)" using links by (auto simp: cache_links_def c1_def)
  have "cache_links (cache_touch ?s c1) (remove1 ?s (lru_order A) @ [?s])"
    by (rule cache_touch_links [OF links1]) (simp add: c1 s)
  then have links': "cache_links (cache_commit_step st c) (lru_order (plan_apply (sc_round c) st A))"
    unfolding commit by (simp add: cache_links_def plan_apply_simps)
  have ok': "lru_ok ?n ?m (plan_apply (sc_round c) st A)" by (rule plan_apply_ok [OF ok st])
  note nth = plan_apply_nth [OF st ok, of _ "sc_round c"]
  have slots': "slot_item c1 ! t = enc_item (lru_items (plan_apply (sc_round c) st A) ! t)" if t: "t < ?n" for t
    using slots [OF t] nth [OF t] st s t
    by (auto simp: c1_def step_ok_def enc_item_def nth_list_update split: if_splits option.splits)
  have items': "item_slot c1 ! i = (case lru_find i (plan_apply (sc_round c) st A) of None \<Rightarrow> NIL | Some s \<Rightarrow> s)"
    if i: "i < ?m" for i
  proof (cases "ps_admitted st")
    case False
    then have "lru_find i (plan_apply (sc_round c) st A) = lru_find i A" by (simp add: lru_find_def plan_apply_simps)
    then show ?thesis using items [OF i] False by (simp add: c1_def)
  next
    case True
    have fresh: "\<forall>s<?n. lru_items A ! s \<noteq> Some ?i" and ev: "ps_evicted st = enc_item (lru_items A ! ?s)"
      using st True by (simp_all add: step_ok_def)
    show ?thesis
    proof (cases "i = ?i")
      case eq: True
      have "lru_find i (plan_apply (sc_round c) st A) = Some ?s"
        using nth [OF s(1)] s eq by (simp add: lru_find_Some [OF ok'])
      then show ?thesis using True eq s by (simp add: c1_def)
    next
      case ne: False
      have evicted: "ps_evicted st = i \<longleftrightarrow> lru_items A ! ?s = Some i"
        using ev i lens by (auto simp: enc_item_def STREAMING_ABSENT_ITEM_def STREAMING_ABSENT_SLOT_def split: option.splits)
      show ?thesis
      proof (cases "lru_items A ! ?s = Some i")
        case out: True
        have "lru_find i (plan_apply (sc_round c) st A) = None"
          unfolding lru_find_None [OF ok']
        proof (intro allI impI)
          fix t assume t: "t < ?n"
          show "lru_items (plan_apply (sc_round c) st A) ! t \<noteq> Some i"
            using nth [OF t] ne out d(6) [OF t s(1)] by auto
        qed
        moreover have "ps_evicted st \<noteq> STREAMING_ABSENT_ITEM"
          using evicted out i lens by (auto simp: STREAMING_ABSENT_ITEM_def STREAMING_ABSENT_SLOT_def)
        ultimately show ?thesis using True ne out evicted i by (auto simp: c1_def)
      next
        case stay: False
        have "lru_find i (plan_apply (sc_round c) st A) = lru_find i A"
        proof (cases "lru_find i A")
          case None
          then have "\<forall>t<?n. lru_items (plan_apply (sc_round c) st A) ! t \<noteq> Some i"
            using nth ne by (simp add: lru_find_None [OF ok])
          then show ?thesis using None by (simp only: lru_find_None [OF ok', symmetric])
        next
          case (Some t)
          then have "t < ?n \<and> lru_items A ! t = Some i" by (simp add: lru_find_Some [OF ok])
          then show ?thesis using Some nth [of t] stay by (auto simp: lru_find_Some [OF ok'])
        qed
        then show ?thesis using items [OF i] True ne stay evicted by (auto simp: c1_def)
      qed
    qed
  qed
  show ?thesis
    unfolding cache_rep_def
    using ok' links' lens pin slots' items' fr c1
    by (simp add: commit cache_link_frame_def plan_apply_simps(3))
qed

end
