(* ===== verification/StreamRound.thy ===== *)
theory StreamRound
  imports StreamLru
begin

text \<open>
  Planning a round against unchanged residency computes the round that serving the requests one by one
  would: the plan's steps, applied to the committed cache, are the abstract cache the next request
  sees.
\<close>

section \<open>The abstract cache after a plan\<close>

fun plan_valid :: "nat \<Rightarrow> nat \<Rightarrow> nat \<Rightarrow> lru \<Rightarrow> planned_step list \<Rightarrow> bool" where
  "plan_valid n m g A [] = True"
| "plan_valid n m g A (st # P) = (step_ok n m A st \<and> plan_valid n m g (plan_apply g st A) P)"

abbreviation plan_state :: "nat \<Rightarrow> planned_step list \<Rightarrow> lru \<Rightarrow> lru" where
  "plan_state g P A \<equiv> fold (plan_apply g) P A"

lemma plan_valid_snoc:
  "plan_valid n m g A (P @ [st]) \<longleftrightarrow> plan_valid n m g A P \<and> step_ok n m (plan_state g P A) st"
  by (induction P arbitrary: A) auto

lemma plan_state_ok: "lru_ok n m A \<Longrightarrow> plan_valid n m g A P \<Longrightarrow> lru_ok n m (plan_state g P A)"
  by (induction P arbitrary: A) (auto intro: plan_apply_ok)

definition plan_item_at :: "planned_step list \<Rightarrow> nat \<Rightarrow> nat option" where
  "plan_item_at P s = map_option ps_item (find (\<lambda>st. ps_slot st = s) P)"

lemma plan_item_at_snoc:
  "plan_item_at (P @ [st]) s = (case plan_item_at P s of Some i \<Rightarrow> Some i | None \<Rightarrow> if ps_slot st = s then Some (ps_item st) else None)"
  by (induction P) (auto simp: plan_item_at_def)

lemma plan_item_at_None: "plan_item_at P s = None \<longleftrightarrow> s \<notin> ps_slot ` set P"
  by (auto simp: plan_item_at_def find_None_iff)

lemma plan_item_at_Some: "plan_item_at P s = Some i \<Longrightarrow> \<exists>st\<in>set P. ps_slot st = s \<and> ps_item st = i"
  by (auto simp: plan_item_at_def find_Some_iff)

definition plan_shape :: "nat \<Rightarrow> nat \<Rightarrow> lru \<Rightarrow> planned_step list \<Rightarrow> bool" where
  "plan_shape n m A P \<longleftrightarrow> distinct (map ps_slot P) \<and> distinct (map ps_item P) \<and>
    (\<forall>st\<in>set P. ps_slot st < n \<and> ps_item st < m \<and>
      (if ps_admitted st then ps_evicted st = enc_item (lru_items A ! ps_slot st)
       else lru_items A ! ps_slot st = Some (ps_item st)))"

lemma plan_state_eq:
  assumes "lru_ok n m A" and "plan_valid n m g A P" and "distinct (map ps_slot P)" and "distinct (map ps_item P)"
  shows "(\<forall>s<n. lru_items (plan_state g P A) ! s = (case plan_item_at P s of Some i \<Rightarrow> Some i | None \<Rightarrow> lru_items A ! s)) \<and>
    lru_order (plan_state g P A) = filter (\<lambda>s. s \<notin> ps_slot ` set P) (lru_order A) @ map ps_slot P \<and>
    (\<forall>s<n. lru_reader (plan_state g P A) ! s = (if s \<in> ps_slot ` set P then g else lru_reader A ! s)) \<and>
    plan_shape n m A P"
  using assms(2-4)
proof (induction P rule: rev_induct)
  case Nil
  then show ?case by (simp add: plan_item_at_def plan_shape_def)
next
  case (snoc st P)
  let ?A = "plan_state g P A" and ?s = "ps_slot st"
  have v: "plan_valid n m g A P" and st: "step_ok n m ?A st" using snoc.prems(1) by (simp_all add: plan_valid_snoc)
  have ih: "\<And>s. s < n \<Longrightarrow> lru_items ?A ! s = (case plan_item_at P s of Some i \<Rightarrow> Some i | None \<Rightarrow> lru_items A ! s)"
    "lru_order ?A = filter (\<lambda>s. s \<notin> ps_slot ` set P) (lru_order A) @ map ps_slot P"
    "\<And>s. s < n \<Longrightarrow> lru_reader ?A ! s = (if s \<in> ps_slot ` set P then g else lru_reader A ! s)"
    "plan_shape n m A P"
    using snoc.IH [OF v] snoc.prems(2,3) by auto
  have ok: "lru_ok n m ?A" by (rule plan_state_ok [OF assms(1) v])
  have new: "?s \<notin> ps_slot ` set P" "ps_item st \<notin> ps_item ` set P" using snoc.prems(2,3) by auto
  then have at: "plan_item_at P ?s = None" by (simp add: plan_item_at_None)
  have s: "?s < n" using st by (simp add: step_ok_def)
  have old: "lru_items ?A ! ?s = lru_items A ! ?s" using ih(1) [OF s] at by simp
  have dist: "distinct (lru_order A)" using assms(1) by (simp add: lru_ok_def)
  have items: "\<forall>s<n. lru_items (plan_state g (P @ [st]) A) ! s =
      (case plan_item_at (P @ [st]) s of Some i \<Rightarrow> Some i | None \<Rightarrow> lru_items A ! s)"
    using plan_apply_nth [OF st ok] ih(1) at by (auto simp: plan_item_at_snoc split: option.splits)
  have "remove1 ?s (lru_order ?A) = filter (\<lambda>s. s \<notin> ps_slot ` set (P @ [st])) (lru_order A) @ map ps_slot P"
  proof -
    have "remove1 ?s (lru_order ?A) = remove1 ?s (filter (\<lambda>s. s \<notin> ps_slot ` set P) (lru_order A)) @ map ps_slot P"
      unfolding ih(2) remove1_append using new by (auto simp: remove1_idem)
    also have "remove1 ?s (filter (\<lambda>s. s \<notin> ps_slot ` set P) (lru_order A)) =
        filter (\<lambda>s. s \<noteq> ?s) (filter (\<lambda>s. s \<notin> ps_slot ` set P) (lru_order A))"
      using dist by (simp add: distinct_remove1_removeAll removeAll_filter_not_eq) (metis (mono_tags))
    also have "\<dots> = filter (\<lambda>s. s \<notin> ps_slot ` set (P @ [st])) (lru_order A)" by (auto intro: filter_cong)
    finally show ?thesis .
  qed
  then have order: "lru_order (plan_state g (P @ [st]) A) =
      filter (\<lambda>s. s \<notin> ps_slot ` set (P @ [st])) (lru_order A) @ map ps_slot (P @ [st])"
    by (simp add: plan_apply_simps)
  have reader: "\<forall>s<n. lru_reader (plan_state g (P @ [st]) A) ! s =
      (if s \<in> ps_slot ` set (P @ [st]) then g else lru_reader A ! s)"
  proof (intro allI impI)
    fix t assume t: "t < n"
    then show "lru_reader (plan_state g (P @ [st]) A) ! t = (if t \<in> ps_slot ` set (P @ [st]) then g else lru_reader A ! t)"
      using ih(3) [OF t] lru_okD(2) [OF ok] by (cases "t = ?s") (simp_all add: plan_apply_simps)
  qed
  have "plan_shape n m A (P @ [st])"
    using ih(4) snoc.prems(2,3) st old by (auto simp: plan_shape_def step_ok_def)
  then show ?case using items order reader by blast
qed

section \<open>Planned lookups\<close>

lemma plan_lookup_seen:
  assumes rep: "cache_rep c A" and shape: "plan_shape (length (slot_item c)) (length (item_slot c)) A (sc_plan c)"
    and seen: "item \<in> ps_item ` set (sc_plan c)"
  shows "\<exists>s. cache_planned_slot_of c item = Some s \<and> cache_is_planned c s"
proof -
  from seen obtain st where st: "st \<in> set (sc_plan c)" "ps_item st = item" by auto
  show ?thesis
  proof (cases "find (\<lambda>step. ps_admitted step \<and> ps_item step = item) (sc_plan c)")
    case (Some st')
    then have "st' \<in> set (sc_plan c)" by (auto simp: find_Some_iff)
    then show ?thesis using Some by (auto simp: cache_planned_slot_of_def cache_is_planned_def list_ex_iff)
  next
    case None
    then have hit: "\<not> ps_admitted st" using st by (auto simp: find_None_iff)
    then have at: "ps_slot st < length (slot_item c)" "lru_items A ! ps_slot st = Some item" "item < length (item_slot c)"
      using shape st by (auto simp: plan_shape_def)
    have ok: "lru_ok (length (slot_item c)) (length (item_slot c)) A" using rep by (simp add: cache_rep_def)
    have small: "length (item_slot c) < NIL" "length (slot_item c) \<le> length (item_slot c)" using rep by (simp_all add: cache_rep_def)
    have "lru_find item A = Some (ps_slot st)" using at by (simp add: lru_find_Some [OF ok])
    then have res: "item_slot c ! item = ps_slot st" using rep at(3) by (simp add: cache_rep_def)
    have "\<not> (ps_admitted u \<and> ps_evicted u = item)" if u: "u \<in> set (sc_plan c)" for u
    proof
      assume ev: "ps_admitted u \<and> ps_evicted u = item"
      then have "enc_item (lru_items A ! ps_slot u) = item" "ps_slot u < length (slot_item c)"
        using shape u by (auto simp: plan_shape_def)
      then have "lru_items A ! ps_slot u = Some item" "ps_slot u < length (slot_item c)"
        using at(3) small by (auto simp: enc_item_def STREAMING_ABSENT_ITEM_def STREAMING_ABSENT_SLOT_def split: option.splits)
      then have "ps_slot u = ps_slot st" using lru_okD(6) [OF ok _ at(1)] at(2) by simp
      then have "u = st" using shape u st(1) by (auto simp: plan_shape_def distinct_map inj_on_def)
      then show False using hit ev by simp
    qed
    then have "cache_planned_slot_of c item = Some (ps_slot st)"
      using None res at small by (auto simp: cache_planned_slot_of_def list_ex_iff)
    then show ?thesis using st by (auto simp: cache_is_planned_def list_ex_iff)
  qed
qed

lemma plan_lookup_new:
  assumes rep: "cache_rep c A" and valid: "plan_valid (length (slot_item c)) (length (item_slot c)) g A (sc_plan c)"
    and dist: "distinct (map ps_slot (sc_plan c))" "distinct (map ps_item (sc_plan c))"
    and new: "item \<notin> ps_item ` set (sc_plan c)" and item: "item < length (item_slot c)"
  shows "cache_planned_slot_of c item = lru_find item (plan_state g (sc_plan c) A)"
    and "cache_planned_slot_of c item = Some s \<Longrightarrow> \<not> cache_is_planned c s \<and> lru_items A ! s = Some item \<and> s < length (slot_item c)"
proof -
  let ?P = "sc_plan c" and ?n = "length (slot_item c)" and ?m = "length (item_slot c)"
  have ok: "lru_ok ?n ?m A" using rep by (simp add: cache_rep_def)
  have small: "?m < NIL" "?n \<le> ?m" using rep by (simp_all add: cache_rep_def)
  have ok': "lru_ok ?n ?m (plan_state g ?P A)" by (rule plan_state_ok [OF ok valid])
  have items: "\<And>s. s < ?n \<Longrightarrow> lru_items (plan_state g ?P A) ! s = (case plan_item_at ?P s of Some i \<Rightarrow> Some i | None \<Rightarrow> lru_items A ! s)"
    and shape: "plan_shape ?n ?m A ?P"
    using plan_state_eq [OF ok valid dist] by auto
  have none: "find (\<lambda>step. ps_admitted step \<and> ps_item step = item) ?P = None" using new by (auto simp: find_None_iff)
  have res: "item_slot c ! item = (case lru_find item A of None \<Rightarrow> NIL | Some s \<Rightarrow> s)" using rep item by (simp add: cache_rep_def)
  have at_new: "plan_item_at ?P s \<noteq> Some item" for s using new plan_item_at_Some by fastforce
  have ev: "(\<exists>u\<in>set ?P. ps_admitted u \<and> ps_evicted u = item) \<longleftrightarrow>
      (\<exists>s. lru_find item A = Some s \<and> s \<in> ps_slot ` set ?P)"
  proof
    assume "\<exists>u\<in>set ?P. ps_admitted u \<and> ps_evicted u = item"
    then obtain u where u: "u \<in> set ?P" "ps_admitted u" "ps_evicted u = item" by blast
    then have "enc_item (lru_items A ! ps_slot u) = item" "ps_slot u < ?n" using shape by (auto simp: plan_shape_def)
    then have "lru_items A ! ps_slot u = Some item" "ps_slot u < ?n"
      using item small by (auto simp: enc_item_def STREAMING_ABSENT_ITEM_def STREAMING_ABSENT_SLOT_def split: option.splits)
    then show "\<exists>s. lru_find item A = Some s \<and> s \<in> ps_slot ` set ?P" using u(1) by (auto simp: lru_find_Some [OF ok])
  next
    assume "\<exists>s. lru_find item A = Some s \<and> s \<in> ps_slot ` set ?P"
    then obtain u where u: "lru_items A ! ps_slot u = Some item" "u \<in> set ?P" by (auto simp: lru_find_Some [OF ok])
    have "ps_admitted u"
    proof (rule ccontr)
      assume "\<not> ps_admitted u"
      then have "ps_item u = item" using shape u by (auto simp: plan_shape_def)
      then show False using new u(2) by auto
    qed
    then show "\<exists>u\<in>set ?P. ps_admitted u \<and> ps_evicted u = item" using u shape by (auto simp: plan_shape_def enc_item_def)
  qed
  have main: "cache_planned_slot_of c item =
      (case lru_find item A of None \<Rightarrow> None | Some s \<Rightarrow> if s \<in> ps_slot ` set ?P then None else Some s)"
  proof (cases "lru_find item A")
    case None
    then show ?thesis using none ev res by (auto simp: cache_planned_slot_of_def list_ex_iff)
  next
    case (Some s)
    then have "s < ?n" by (simp add: lru_find_Some [OF ok])
    then have "s \<noteq> NIL" using small by simp
    then show ?thesis using Some none ev res by (auto simp: cache_planned_slot_of_def list_ex_iff)
  qed
  show "cache_planned_slot_of c item = lru_find item (plan_state g ?P A)"
  proof (cases "\<exists>s. lru_find item A = Some s \<and> s \<notin> ps_slot ` set ?P")
    case True
    then obtain s where s: "lru_find item A = Some s" "s \<notin> ps_slot ` set ?P" by blast
    then have "s < ?n \<and> lru_items (plan_state g ?P A) ! s = Some item"
      using items [of s] by (simp add: lru_find_Some [OF ok] plan_item_at_None [symmetric])
    then show ?thesis using main s by (simp add: lru_find_Some [OF ok', symmetric])
  next
    case False
    have "lru_items (plan_state g ?P A) ! t \<noteq> Some item" if t: "t < ?n" for t
      using items [OF t] at_new [of t] False t plan_item_at_None [of ?P t]
      by (auto simp: lru_find_Some [OF ok] split: option.splits)
    then have "lru_find item (plan_state g ?P A) = None" by (simp add: lru_find_None [OF ok'])
    then show ?thesis using main False by (auto split: option.splits)
  qed
  show "cache_planned_slot_of c item = Some s \<Longrightarrow> \<not> cache_is_planned c s \<and> lru_items A ! s = Some item \<and> s < ?n"
    using main by (auto simp: cache_is_planned_def list_ex_iff lru_find_Some [OF ok] split: option.splits if_splits)
qed

section \<open>Planned claims\<close>

lemma find_eq_hd_filter: "filter Q xs \<noteq> [] \<Longrightarrow> find Q xs = Some (hd (filter Q xs))"
  by (induction xs) auto

lemma plan_claim:
  assumes rep: "cache_rep c A" and valid: "plan_valid (length (slot_item c)) (length (item_slot c)) g A (sc_plan c)"
    and dist: "distinct (map ps_slot (sc_plan c))" "distinct (map ps_item (sc_plan c))"
    and room: "length (sc_plan c) < length (slot_item c)"
  defines "B \<equiv> plan_state g (sc_plan c) A"
  shows "cache_plan_claim_slot c = Inr (lru_claim B)" and "lru_claim B < length (slot_item c)"
    and "\<not> cache_is_planned c (lru_claim B)" and "slot_item c ! lru_claim B = enc_item (lru_items B ! lru_claim B)"
    and "pinned_round c ! lru_claim B = lru_reader B ! lru_claim B"
proof -
  let ?P = "sc_plan c" and ?n = "length (slot_item c)" and ?m = "length (item_slot c)"
  have ok: "lru_ok ?n ?m A" and links: "cache_links c (lru_order A)" and small: "?m < NIL"
    and slots: "\<And>s. s < ?n \<Longrightarrow> slot_item c ! s = enc_item (lru_items A ! s)" and pin: "pinned_round c = lru_reader A"
    using rep by (simp_all add: cache_rep_def)
  have okB: "lru_ok ?n ?m B" unfolding B_def by (rule plan_state_ok [OF ok valid])
  have st: "\<And>s. s < ?n \<Longrightarrow> lru_items B ! s = (case plan_item_at ?P s of Some i \<Rightarrow> Some i | None \<Rightarrow> lru_items A ! s)"
    "lru_order B = filter (\<lambda>s. s \<notin> ps_slot ` set ?P) (lru_order A) @ map ps_slot ?P"
    "\<And>s. s < ?n \<Longrightarrow> lru_reader B ! s = (if s \<in> ps_slot ` set ?P then g else lru_reader A ! s)"
    "plan_shape ?n ?m A ?P"
    using plan_state_eq [OF ok valid dist] unfolding B_def by auto
  have planned_iff: "cache_is_planned c s \<longleftrightarrow> s \<in> ps_slot ` set ?P" for s by (auto simp: cache_is_planned_def list_ex_iff)
  have absent: "slot_item c ! s = STREAMING_ABSENT_ITEM \<longleftrightarrow> lru_items A ! s = None" if "s < ?n" for s
  proof -
    have "lru_items A ! s = Some i \<longrightarrow> i < STREAMING_ABSENT_ITEM" for i
      using lru_okD(5) [OF ok that, of i] small by (auto simp: STREAMING_ABSENT_ITEM_def STREAMING_ABSENT_SLOT_def)
    then show ?thesis unfolding slots [OF that] by (cases "lru_items A ! s") (auto simp: enc_item_def)
  qed
  have free_iff: "slot_item c ! s = STREAMING_ABSENT_ITEM \<and> \<not> cache_is_planned c s \<longleftrightarrow> lru_items B ! s = None" if "s < ?n" for s
    using absent [OF that] st(1) [OF that] plan_item_at_None [of ?P s] planned_iff by (auto split: option.splits)
  have free: "find (\<lambda>s. slot_item c ! s = STREAMING_ABSENT_ITEM \<and> \<not> cache_is_planned c s) [0..<?n] = lru_free B"
    unfolding lru_free_def lru_okD(1) [OF okB] by (rule find_cong [OF refl], rule free_iff) simp
  have props: "s < ?n \<Longrightarrow> \<not> cache_is_planned c s \<Longrightarrow> slot_item c ! s = enc_item (lru_items B ! s) \<and> pinned_round c ! s = lru_reader B ! s" for s
    using slots st(1,3) plan_item_at_None [of ?P s] planned_iff pin by simp
  have goal: "cache_plan_claim_slot c = Inr (lru_claim B) \<and> lru_claim B < ?n \<and> \<not> cache_is_planned c (lru_claim B)"
  proof (cases "lru_free B")
    case (Some s)
    then have "s < ?n \<and> slot_item c ! s = STREAMING_ABSENT_ITEM \<and> \<not> cache_is_planned c s"
      using find_upt_Some_iff [OF trans [OF free Some]] by simp
    then show ?thesis using Some free by (simp add: cache_plan_claim_slot_def lru_claim_def)
  next
    case None
    then have full: "\<forall>s<?n. lru_items B ! s \<noteq> None" using lru_okD(1) [OF okB] by (simp add: lru_free_def find_upt_None_iff)
    have "card (ps_slot ` set ?P) < card {..<?n}"
      using room card_image_le [of "set ?P" ps_slot] card_length [of ?P] by simp
    then obtain s where s: "s < ?n" "s \<notin> ps_slot ` set ?P"
      by (metis card_mono finite_imageI finite_set lessThan_iff not_less subsetI)
    have "plan_item_at ?P s = None" using s(2) by (simp add: plan_item_at_None)
    then have "lru_items B ! s = lru_items A ! s" using st(1) [OF s(1)] by simp
    moreover have "lru_items B ! s \<noteq> None" using full s(1) by blast
    ultimately have "lru_items A ! s \<noteq> None" by (rule subst)
    then have "s \<in> set (lru_order A)" using lru_okD(4) [OF ok] s(1) by simp
    then have ne: "filter (\<lambda>s. s \<notin> ps_slot ` set ?P) (lru_order A) \<noteq> []" using s(2) by (auto simp: filter_empty_conv)
    have claim: "lru_claim B = hd (filter (\<lambda>s. s \<notin> ps_slot ` set ?P) (lru_order A))"
      using None ne by (simp add: lru_claim_def st(2) hd_append)
    have "length (lru_order A) \<le> ?n"
      using links card_mono [of "{..<?n}" "set (lru_order A)"] distinct_card [of "lru_order A"] by (auto simp: cache_links_def)
    then have "cache_walk c (Suc ?n) (hd (lru_order A @ [NIL])) = Some (find (\<lambda>s. \<not> cache_is_planned c s) (lru_order A))"
      using cache_walk_eq [of c "[]" "lru_order A" "Suc ?n"] links by simp
    moreover have "least_recent c = hd (lru_order A @ [NIL])" using links by (simp add: cache_links_def)
    moreover have "find (\<lambda>s. \<not> cache_is_planned c s) (lru_order A) = Some (lru_claim B)"
      using find_eq_hd_filter [OF ne] claim by (simp add: planned_iff)
    moreover have "lru_claim B \<in> set (lru_order A)" "lru_claim B \<notin> ps_slot ` set ?P"
      using hd_in_set [OF ne] unfolding claim by simp_all
    ultimately show ?thesis
      using None free lru_okD(4) [OF ok] planned_iff by (simp add: cache_plan_claim_slot_def)
  qed
  then show "cache_plan_claim_slot c = Inr (lru_claim B)" "lru_claim B < ?n" "\<not> cache_is_planned c (lru_claim B)"
    "slot_item c ! lru_claim B = enc_item (lru_items B ! lru_claim B)"
    "pinned_round c ! lru_claim B = lru_reader B ! lru_claim B"
    using props by blast+
qed

section \<open>The planning loop\<close>

lemma cache_rep_plan_simp [simp]: "cache_rep (c\<lparr>sc_plan := P\<rparr>) A = cache_rep c A"
  by (simp add: cache_rep_def cache_links_def)

lemma cache_push_plan_ok:
  "length (sc_plan c) < length (slot_item c) \<Longrightarrow> cache_push_plan st c = (Inr (), c\<lparr>sc_plan := sc_plan c @ [st]\<rparr>)"
  by (simp add: cache_push_plan_def)

text \<open>What the steps \<open>Q\<close> a planning loop adds amount to.\<close>

definition step_assignment :: "planned_step \<Rightarrow> slot_assignment" where
  "step_assignment st = \<lparr>as_item = ps_item st, as_slot = ps_slot st, as_evicted = ps_evicted st\<rparr>"

definition plan_round_of :: "slot_cache \<Rightarrow> planned_step list \<Rightarrow> nat \<Rightarrow> stream_round \<Rightarrow> stream_round \<Rightarrow> bool" where
  "plan_round_of c Q k r r' \<longleftrightarrow>
    round_misses r' = round_misses r + length (filter ps_admitted Q) \<and>
    round_hits r' + length (filter ps_admitted Q) = round_hits r + k \<and>
    round_reclaim_generation r' =
      fold (\<lambda>st. max (pinned_round c ! ps_slot st)) (filter ps_admitted Q) (round_reclaim_generation r)"

definition plan_complete :: "slot_cache \<Rightarrow> lru \<Rightarrow> nat \<Rightarrow> nat set \<Rightarrow> planned_step list \<Rightarrow> bool" where
  "plan_complete c A g requested P \<longleftrightarrow>
    plan_valid (length (slot_item c)) (length (item_slot c)) g A P \<and> distinct (map ps_slot P) \<and>
    distinct (map ps_item P) \<and> ps_item ` set P = requested"

lemma plan_round_of_hit:
  "plan_round_of c Q k (r\<lparr>round_hits := round_hits r + 1\<rparr>) r' \<Longrightarrow> plan_round_of c Q (Suc k) r r'"
  by (simp add: plan_round_of_def)

lemma cache_plan_loop_eq:
  assumes "cache_rep c A" and "plan_complete c A g seen (sc_plan c)"
    and "set items \<subseteq> {..<length (item_slot c)}" and "card (seen \<union> set items) \<le> length (slot_item c)"
    and "lru_round g seen items (plan_state g (sc_plan c) A) as r = (B, as', r')"
  shows "\<exists>Q. cache_plan_loop items c as r = (Inr r', c\<lparr>sc_plan := sc_plan c @ Q\<rparr>, as') \<and> B = plan_state g (sc_plan c @ Q) A \<and>
    plan_complete c A g (seen \<union> set items) (sc_plan c @ Q) \<and>
    as' = as @ map step_assignment (filter ps_admitted Q) \<and> plan_round_of c Q (length items) r r'"
  using assms
proof (induction items arbitrary: c as r seen)
  case Nil
  then show ?case by (intro exI [of _ "[]"]) (auto simp: plan_round_of_def)
next
  case (Cons item items)
  let ?P = "sc_plan c" and ?n = "length (slot_item c)" and ?m = "length (item_slot c)"
  have plan: "plan_valid ?n ?m g A ?P" "distinct (map ps_slot ?P)" "distinct (map ps_item ?P)" "ps_item ` set ?P = seen"
    using Cons.prems(2) by (simp_all add: plan_complete_def)
  have ok: "lru_ok ?n ?m A" using Cons.prems(1) by (simp add: cache_rep_def)
  have item: "item < ?m" using Cons.prems(3) by simp
  have okB: "lru_ok ?n ?m (plan_state g ?P A)" by (rule plan_state_ok [OF ok plan(1)])
  show ?case
  proof (cases "item \<in> seen")
    case True
    have shape: "plan_shape ?n ?m A ?P" using plan_state_eq [OF ok plan(1-3)] by blast
    obtain s where s: "cache_planned_slot_of c item = Some s" "cache_is_planned c s"
      using plan_lookup_seen [OF Cons.prems(1) shape] True plan(4) by blast
    let ?r = "r\<lparr>round_hits := round_hits r + 1\<rparr>"
    have "lru_round g seen items (plan_state g ?P A) as ?r = (B, as', r')" using Cons.prems(5) True by simp
    then obtain Q where Q: "cache_plan_loop items c as ?r = (Inr r', c\<lparr>sc_plan := ?P @ Q\<rparr>, as')"
      "B = plan_state g (?P @ Q) A" "plan_complete c A g (seen \<union> set items) (?P @ Q)"
      "as' = as @ map step_assignment (filter ps_admitted Q)" "plan_round_of c Q (length items) ?r r'"
      using Cons.IH [of c seen as ?r] Cons.prems True by (auto simp: insert_absorb)
    then show ?thesis using s True plan_round_of_hit [OF Q(5)] by (intro exI [of _ Q]) (simp add: insert_absorb)
  next
    case new: False
    then have new': "item \<notin> ps_item ` set ?P" using plan(4) by simp
    have "length ?P = card seen" using distinct_card [OF plan(3)] plan(4) by simp
    also have "\<dots> < card (insert item seen)" using new plan(4) finite_imageI [of "set ?P" ps_item] by auto
    also have "\<dots> \<le> card (seen \<union> set (item # items))"
      using plan(4) finite_imageI [of "set ?P" ps_item] by (intro card_mono) auto
    finally have room: "length ?P < ?n" using Cons.prems(4) by linarith
    have step: "\<exists>Q. cache_plan_loop items (c\<lparr>sc_plan := ?P @ [st]\<rparr>) bs q = (Inr r', c\<lparr>sc_plan := ?P @ st # Q\<rparr>, as') \<and>
        B = plan_state g (?P @ st # Q) A \<and> plan_complete c A g (seen \<union> set (item # items)) (?P @ st # Q) \<and>
        as' = bs @ map step_assignment (filter ps_admitted Q) \<and> plan_round_of c Q (length items) q r'"
      if st: "step_ok ?n ?m (plan_state g ?P A) st" "ps_item st = item" "\<not> cache_is_planned c (ps_slot st)"
        and run: "lru_round g (insert item seen) items (plan_apply g st (plan_state g ?P A)) bs q = (B, as', r')" for st bs q
    proof -
      let ?c = "c\<lparr>sc_plan := ?P @ [st]\<rparr>"
      have "plan_complete ?c A g (insert item seen) (sc_plan ?c)"
        using plan st new by (auto simp: plan_complete_def plan_valid_snoc cache_is_planned_def list_ex_iff)
      moreover have "card (insert item seen \<union> set items) \<le> ?n" using Cons.prems(4) by (simp add: insert_commute)
      moreover have "lru_round g (insert item seen) items (plan_state g (sc_plan ?c) A) bs q = (B, as', r')" using run by simp
      ultimately obtain Q where Q: "cache_plan_loop items ?c bs q = (Inr r', ?c\<lparr>sc_plan := sc_plan ?c @ Q\<rparr>, as')"
        "B = plan_state g (sc_plan ?c @ Q) A" "plan_complete ?c A g (insert item seen \<union> set items) (sc_plan ?c @ Q)"
        "as' = bs @ map step_assignment (filter ps_admitted Q)" "plan_round_of ?c Q (length items) q r'"
        using Cons.IH [of ?c "insert item seen" bs q] Cons.prems(1,3) by auto
      then show ?thesis by (intro exI [of _ Q]) (simp add: plan_complete_def plan_round_of_def insert_commute)
    qed
    note look = plan_lookup_new [OF Cons.prems(1) plan(1-3) new' item]
    show ?thesis
    proof (cases "lru_find item (plan_state g ?P A)")
      case (Some s)
      let ?st = "\<lparr>ps_item = item, ps_slot = s, ps_evicted = STREAMING_ABSENT_ITEM, ps_admitted = False\<rparr>"
      let ?r = "r\<lparr>round_hits := round_hits r + 1\<rparr>"
      have s: "cache_planned_slot_of c item = Some s" "\<not> cache_is_planned c s" using look Some by simp_all
      have st: "step_ok ?n ?m (plan_state g ?P A) ?st" using Some item by (simp add: step_ok_def lru_find_Some [OF okB])
      have "plan_apply g ?st (plan_state g ?P A) = lru_use g s (plan_state g ?P A)" by (simp add: plan_apply_def)
      then obtain Q where Q: "cache_plan_loop items (c\<lparr>sc_plan := ?P @ [?st]\<rparr>) as ?r = (Inr r', c\<lparr>sc_plan := ?P @ ?st # Q\<rparr>, as')"
        "B = plan_state g (?P @ ?st # Q) A" "plan_complete c A g (seen \<union> set (item # items)) (?P @ ?st # Q)"
        "as' = as @ map step_assignment (filter ps_admitted Q)" "plan_round_of c Q (length items) ?r r'"
        using step [of ?st as ?r] Cons.prems(5) new Some s(2) st by auto
      then show ?thesis
        using s cache_push_plan_ok [OF room] plan_round_of_hit [OF Q(5)]
        by (intro exI [of _ "?st # Q"]) (simp add: plan_round_of_def)
    next
      case None
      let ?B = "plan_state g ?P A"
      let ?s = "lru_claim ?B"
      note cl = plan_claim [OF Cons.prems(1) plan(1-3) room]
      let ?st = "\<lparr>ps_item = item, ps_slot = ?s, ps_evicted = slot_item c ! ?s, ps_admitted = True\<rparr>"
      let ?as = "as @ [\<lparr>as_item = item, as_slot = ?s, as_evicted = enc_item (lru_items ?B ! ?s)\<rparr>]"
      let ?r = "r\<lparr>round_reclaim_generation := max (round_reclaim_generation r) (lru_reader ?B ! ?s), round_misses := round_misses r + 1\<rparr>"
      have st: "step_ok ?n ?m ?B ?st" using None item cl by (simp add: step_ok_def lru_find_None [OF okB])
      have "plan_apply g ?st ?B = lru_use g ?s (lru_place item ?s ?B)" by (simp add: plan_apply_def)
      then obtain Q where Q: "cache_plan_loop items (c\<lparr>sc_plan := ?P @ [?st]\<rparr>) ?as ?r = (Inr r', c\<lparr>sc_plan := ?P @ ?st # Q\<rparr>, as')"
        "B = plan_state g (?P @ ?st # Q) A" "plan_complete c A g (seen \<union> set (item # items)) (?P @ ?st # Q)"
        "as' = ?as @ map step_assignment (filter ps_admitted Q)" "plan_round_of c Q (length items) ?r r'"
        using step [of ?st ?as ?r] Cons.prems(5) new None cl(3) st by (auto simp: Let_def)
      have "cache_planned_slot_of c item = None" using look(1) None by simp
      then show ?thesis
        using Q cl cache_push_plan_ok [OF room]
        by (intro exI [of _ "?st # Q"]) (simp add: plan_round_of_def step_assignment_def max.commute Let_def)
    qed
  qed
qed

end
