(* ===== verification/StreamAdmit.thy ===== *)
theory StreamAdmit
  imports StreamRound
begin

text \<open>
  The abstraction of a slot cache, its invariant, and what \<open>plan_round\<close>, \<open>commit_planned_round\<close> and
  \<open>admit_round\<close> are on abstract caches, error branches included.
\<close>

section \<open>Abstraction\<close>

definition dec_item :: "nat \<Rightarrow> nat option" where
  "dec_item i = (if i = STREAMING_ABSENT_ITEM then None else Some i)"

text \<open>The slots reached from \<open>s\<close> by following \<open>newer\<close>, at most \<open>k\<close> of them.\<close>

fun cache_chain :: "slot_cache \<Rightarrow> nat \<Rightarrow> nat \<Rightarrow> nat list" where
  "cache_chain c 0 s = []"
| "cache_chain c (Suc k) s = (if s = NIL then [] else s # cache_chain c k (newer c ! s))"

definition lru_of :: "slot_cache \<Rightarrow> lru" where
  "lru_of c = \<lparr>lru_items = map dec_item (slot_item c),
    lru_order = cache_chain c (length (slot_item c)) (least_recent c), lru_reader = pinned_round c\<rparr>"

lemma cache_chain_eq:
  "cache_links c (xs @ ys) \<Longrightarrow> length ys \<le> k \<Longrightarrow> cache_chain c k (hd (ys @ [NIL])) = ys"
proof (induction ys arbitrary: xs k)
  case Nil
  then show ?case by (cases k) simp_all
next
  case (Cons y ys)
  obtain j where k: "k = Suc j" "length ys \<le> j" using Cons.prems(2) by (cases k) auto
  note d = cache_linksD [OF Cons.prems(1)]
  have y: "y < length (slot_item c)" "y \<noteq> NIL" using d(2,4) by simp_all
  have "newer c ! y = hd (ys @ [NIL])" using d(6) [OF y(1)] d(1) by (simp add: link_next_append)
  moreover have "cache_links c ((xs @ [y]) @ ys)" using Cons.prems(1) by simp
  ultimately show ?case using Cons.IH [OF _ k(2), of "xs @ [y]"] y k(1) by simp
qed

lemma cache_links_length: "cache_links c xs \<Longrightarrow> length xs \<le> length (slot_item c)"
  using card_mono [of "{..<length (slot_item c)}" "set xs"] by (auto simp: cache_links_def distinct_card)

lemma lru_of_rep:
  assumes rep: "cache_rep c A"
  shows "lru_of c = A"
proof -
  let ?n = "length (slot_item c)"
  have ok: "lru_ok ?n (length (item_slot c)) A" and links: "cache_links c (lru_order A)"
    and slots: "\<And>s. s < ?n \<Longrightarrow> slot_item c ! s = enc_item (lru_items A ! s)" and pin: "pinned_round c = lru_reader A"
    and small: "length (item_slot c) < NIL"
    using rep by (simp_all add: cache_rep_def)
  note d = lru_okD [OF ok]
  have "cache_chain c ?n (hd (lru_order A @ [NIL])) = lru_order A"
    using cache_chain_eq [of c "[]"] links cache_links_length [OF links] by simp
  moreover have "least_recent c = hd (lru_order A @ [NIL])" using links by (simp add: cache_links_def)
  moreover have "map dec_item (slot_item c) = lru_items A"
  proof (rule nth_equalityI)
    fix s assume "s < length (map dec_item (slot_item c))"
    then have s: "s < ?n" by simp
    then show "map dec_item (slot_item c) ! s = lru_items A ! s"
      using slots [OF s] d(5) [OF s] small
      by (force simp: dec_item_def enc_item_def STREAMING_ABSENT_ITEM_def STREAMING_ABSENT_SLOT_def split: option.splits)
  qed (simp add: d(1))
  ultimately show ?thesis by (simp add: lru_of_def pin)
qed

section \<open>Recency follows the reader generations\<close>

definition lru_sorted :: "nat \<Rightarrow> lru \<Rightarrow> bool" where
  "lru_sorted g A \<longleftrightarrow> sorted (map (\<lambda>s. lru_reader A ! s) (lru_order A)) \<and> (\<forall>r\<in>set (lru_reader A). r \<le> g)"

lemma plan_apply_sorted:
  assumes ok: "lru_ok n m A" and st: "step_ok n m A st" and srt: "lru_sorted g A"
  shows "lru_sorted g (plan_apply g st A)"
proof -
  let ?s = "ps_slot st"
  note d = lru_okD [OF ok]
  have s: "?s < length (lru_reader A)" using st d(2) by (simp add: step_ok_def)
  have eq: "map (\<lambda>s. (lru_reader A)[?s := g] ! s) (remove1 ?s (lru_order A)) = map (\<lambda>s. lru_reader A ! s) (remove1 ?s (lru_order A))"
    using d(3) by (auto intro: map_cong)
  have "sorted (map (\<lambda>s. (lru_reader A)[?s := g] ! s) (remove1 ?s (lru_order A)))"
    unfolding eq using srt d(3) by (simp add: lru_sorted_def distinct_remove1_removeAll removeAll_filter_not_eq sorted_filter)
  moreover have "\<forall>t\<in>set (remove1 ?s (lru_order A)). (lru_reader A)[?s := g] ! t \<le> g"
    using srt d(2,3,4) by (auto simp: lru_sorted_def)
  ultimately show ?thesis
    using srt s by (auto simp: lru_sorted_def plan_apply_simps sorted_append dest: set_update_subset_insert [THEN subsetD])
qed

lemma plan_state_sorted:
  "lru_ok n m A \<Longrightarrow> plan_valid n m g A P \<Longrightarrow> lru_sorted g A \<Longrightarrow> lru_sorted g (plan_state g P A)"
  by (induction P arbitrary: A) (auto intro: plan_apply_ok plan_apply_sorted)

section \<open>Commit\<close>

text \<open>What a commit step leaves alone.\<close>

definition cache_step_frame :: "slot_cache \<Rightarrow> slot_cache \<Rightarrow> bool" where
  "cache_step_frame c c' \<longleftrightarrow> length (slot_item c') = length (slot_item c) \<and> length (item_slot c') = length (item_slot c) \<and>
    sc_round c' = sc_round c \<and> sc_hits c' = sc_hits c \<and> sc_misses c' = sc_misses c \<and>
    sc_plan c' = sc_plan c \<and> plan_hits c' = plan_hits c \<and> plan_misses c' = plan_misses c \<and> planned c' = planned c"

lemma cache_commit_step_frame: "cache_step_frame c (cache_commit_step st c)"
proof -
  define c1 where "c1 = (let c = (if ps_admitted st
              then
                let c = (if ps_evicted st \<noteq> STREAMING_ABSENT_ITEM
                         then c\<lparr>item_slot := (item_slot c)[ps_evicted st := STREAMING_ABSENT_SLOT]\<rparr> else c);
                    c = c\<lparr>slot_item := (slot_item c)[ps_slot st := ps_item st]\<rparr>
                in c\<lparr>item_slot := (item_slot c)[ps_item st := ps_slot st]\<rparr>
              else c) in c)"
  have 1: "cache_step_frame c c1" by (simp add: cache_step_frame_def c1_def Let_def)
  have "cache_commit_step st c = (cache_touch (ps_slot st) c1)\<lparr>pinned_round := (pinned_round (cache_touch (ps_slot st) c1))[ps_slot st := sc_round (cache_touch (ps_slot st) c1)]\<rparr>"
    by (simp add: cache_commit_step_def c1_def Let_def)
  then show ?thesis using 1 cache_touch_frame [of c1 "ps_slot st"]
    by (simp add: cache_step_frame_def cache_link_frame_def)
qed

lemma cache_commit_fold:
  assumes "cache_rep c A" and "plan_valid (length (slot_item c)) (length (item_slot c)) (sc_round c) A P"
  shows "cache_rep (fold cache_commit_step P c) (plan_state (sc_round c) P A) \<and> cache_step_frame c (fold cache_commit_step P c)"
  using assms
proof (induction P arbitrary: c A)
  case Nil
  then show ?case by (simp add: cache_step_frame_def)
next
  case (Cons st P)
  have f: "cache_step_frame c (cache_commit_step st c)" by (rule cache_commit_step_frame)
  have "cache_rep (cache_commit_step st c) (plan_apply (sc_round c) st A)"
    by (rule cache_commit_step_rep) (use Cons.prems in simp_all)
  then show ?case using Cons.IH [of "cache_commit_step st c" "plan_apply (sc_round c) st A"] Cons.prems(2) f
    by (simp add: cache_step_frame_def)
qed

section \<open>Invariant\<close>

definition plan_ready :: "slot_cache \<Rightarrow> bool" where
  "plan_ready c \<longleftrightarrow> sc_round c + 1 < U64_BOUND \<and> sc_hits c + plan_hits c < U64_BOUND \<and>
    sc_misses c + plan_misses c < U64_BOUND \<and>
    plan_complete c (lru_of c) (sc_round c + 1) (ps_item ` set (sc_plan c)) (sc_plan c)"

definition cache_inv :: "slot_cache \<Rightarrow> bool" where
  "cache_inv c \<longleftrightarrow> cache_rep c (lru_of c) \<and> lru_sorted (sc_round c) (lru_of c) \<and>
    sc_round c < U64_BOUND \<and> sc_hits c < U64_BOUND \<and> sc_misses c < U64_BOUND \<and> (planned c \<longrightarrow> plan_ready c)"

lemma cache_rep_cong:
  "slot_item c' = slot_item c \<Longrightarrow> item_slot c' = item_slot c \<Longrightarrow> older c' = older c \<Longrightarrow> newer c' = newer c \<Longrightarrow>
    pinned_round c' = pinned_round c \<Longrightarrow> least_recent c' = least_recent c \<Longrightarrow> most_recent c' = most_recent c \<Longrightarrow>
    cache_rep c' A = cache_rep c A"
  by (simp add: cache_rep_def cache_links_def)

lemma lru_ok_empty: "lru_ok n m \<lparr>lru_items = replicate n None, lru_order = [], lru_reader = replicate n 0\<rparr>"
  by (auto simp: lru_ok_def)

lemma cache_rep_empty:
  assumes "0 < n" "n \<le> m" "m < NIL" "slot_item c = replicate n STREAMING_ABSENT_ITEM" "item_slot c = replicate m NIL"
    "older c = replicate n NIL" "newer c = replicate n NIL" "pinned_round c = replicate n 0"
    "least_recent c = NIL" "most_recent c = NIL"
  shows "cache_rep c \<lparr>lru_items = replicate n None, lru_order = [], lru_reader = replicate n 0\<rparr>"
  using assms lru_ok_empty [of n m]
  by (simp add: cache_rep_def cache_links_def enc_item_def lru_find_None [OF lru_ok_empty [of n m], THEN iffD2])

lemma cache_inv_empty:
  assumes "cache_rep c \<lparr>lru_items = replicate n None, lru_order = [], lru_reader = replicate n 0\<rparr>" "sc_round c < U64_BOUND"
    "sc_hits c = 0" "sc_misses c = 0" "\<not> planned c"
  shows "cache_inv c"
  using assms lru_of_rep [OF assms(1)] by (simp add: cache_inv_def lru_sorted_def U64_BOUND_def)

lemma cache_new_inv: "cache_new m n = Inr c \<Longrightarrow> cache_inv c"
proof (rule cache_inv_empty [of c n])
  assume new: "cache_new m n = Inr c"
  then have b: "0 < n" "n \<le> m" "m < NIL"
    by (auto simp: cache_new_def STREAMING_ABSENT_SLOT_def STREAMING_ABSENT_ITEM_def U32_BOUND_def split: if_splits)
  show "cache_rep c \<lparr>lru_items = replicate n None, lru_order = [], lru_reader = replicate n 0\<rparr>"
    by (rule cache_rep_empty [OF b]) (use new in \<open>auto simp: cache_new_def split: if_splits\<close>)
qed (auto simp: cache_new_def U64_BOUND_def split: if_splits)

lemma cache_clear_inv: "cache_inv c \<Longrightarrow> cache_inv (cache_clear c)"
proof (rule cache_inv_empty [of _ "length (slot_item c)"])
  assume inv: "cache_inv c"
  then have rep: "cache_rep c (lru_of c)" by (simp add: cache_inv_def)
  then have "cache_links c (lru_order (lru_of c))" "pinned_round c = lru_reader (lru_of c)" "length (lru_reader (lru_of c)) = length (slot_item c)"
    by (simp_all add: cache_rep_def lru_ok_def)
  then have "length (older c) = length (slot_item c)" "length (newer c) = length (slot_item c)" "length (pinned_round c) = length (slot_item c)"
    by (simp_all add: cache_links_def)
  then show "cache_rep (cache_clear c) \<lparr>lru_items = replicate (length (slot_item c)) None, lru_order = [],
      lru_reader = replicate (length (slot_item c)) 0\<rparr>"
    using rep by (intro cache_rep_empty [of _ "length (item_slot c)"]) (simp_all add: cache_clear_def cache_abandon_planned_round_def cache_rep_def)
qed (simp_all add: cache_clear_def cache_abandon_planned_round_def cache_inv_def)

lemma lru_of_cong:
  "slot_item c' = slot_item c \<Longrightarrow> newer c' = newer c \<Longrightarrow> least_recent c' = least_recent c \<Longrightarrow> pinned_round c' = pinned_round c \<Longrightarrow>
    lru_of c' = lru_of c"
proof -
  assume eq: "slot_item c' = slot_item c" "newer c' = newer c" "least_recent c' = least_recent c" "pinned_round c' = pinned_round c"
  have "cache_chain c' k s = cache_chain c k s" for k s by (induction k arbitrary: s) (simp_all add: eq)
  then show ?thesis by (simp add: lru_of_def eq)
qed

lemma cache_abandon_inv: "cache_inv c \<Longrightarrow> cache_inv (cache_abandon_planned_round c)"
  using lru_of_cong [of "cache_abandon_planned_round c" c] cache_rep_cong [of "cache_abandon_planned_round c" c]
  by (simp add: cache_inv_def cache_abandon_planned_round_def)

section \<open>Admissibility\<close>

lemma cache_count_distinct_eq:
  "cache_count_distinct c seen items k =
    (if \<exists>item\<in>set items. length (item_slot c) \<le> item then Inl (route_error ''streaming item is outside 0..item_count'')
     else Inr (k + card (set items - set seen)))"
proof (induction items arbitrary: seen k)
  case (Cons item items)
  have "card (set (item # items) - set seen) = card (set items - set (seen @ [item])) + (if item \<in> set seen then 0 else 1)"
  proof (cases "item \<in> set seen")
    case True
    then have "set (item # items) - set seen = set items - set (seen @ [item])" by auto
    then show ?thesis using True by (simp only: if_True add_0_right)
  next
    case False
    then have "set (item # items) - set seen = insert item (set items - set (seen @ [item]))" by auto
    moreover have "card (insert item (set items - set (seen @ [item]))) = Suc (card (set items - set (seen @ [item])))"
      by (intro card_insert_disjoint) simp_all
    ultimately show ?thesis using False by (simp only: if_False Suc_eq_plus1)
  qed
  then show ?case by (simp add: Cons.IH)
qed simp

lemma cache_require_admissible_eq:
  "cache_require_admissible c items =
    (if \<exists>item\<in>set items. length (item_slot c) \<le> item then Inl (route_error ''streaming item is outside 0..item_count'')
     else if card (set items) > length (slot_item c)
     then Inl (route_error ''one streaming round requested more distinct items than slots'') else Inr ())"
  by (simp add: cache_require_admissible_def cache_count_distinct_eq)

section \<open>One round, abstractly\<close>

record lru_cache =
  lc_lru :: lru
  lc_items :: nat
  lc_round :: nat
  lc_hits :: nat
  lc_misses :: nat

definition cache_abs :: "slot_cache \<Rightarrow> lru_cache" where
  "cache_abs c = \<lparr>lc_lru = lru_of c, lc_items = length (item_slot c), lc_round = sc_round c,
    lc_hits = sc_hits c, lc_misses = sc_misses c\<rparr>"

definition lru_refusal :: "nat list \<Rightarrow> lru_cache \<Rightarrow> engine_error option" where
  "lru_refusal items L =
    (if lc_round L + 1 = U64_BOUND then Some (layout_error ''streaming round generation is exhausted'')
     else if list_ex (\<lambda>item. lc_items L \<le> item) items then Some (route_error ''streaming item is outside 0..item_count'')
     else if length (lru_items (lc_lru L)) < card (set items)
     then Some (route_error ''one streaming round requested more distinct items than slots'') else None)"

definition lru_serve :: "nat list \<Rightarrow> lru_cache \<Rightarrow> lru \<times> slot_assignment list \<times> stream_round" where
  "lru_serve items L = lru_distinct (lc_round L + 1) items (lc_lru L) [] stream_round_default"

lemma lru_serve_round: "lru_serve items L = lru_round (lc_round L + 1) {} items (lc_lru L) [] stream_round_default"
  by (simp add: lru_serve_def lru_round_plain)

definition lru_admit ::
  "nat list \<Rightarrow> lru_cache \<Rightarrow> (stream_round \<times> slot_assignment list) engine_result \<times> lru_cache" where
  "lru_admit items L =
    (case lru_refusal items L of
       Some e \<Rightarrow> (Inl e, L)
     | None \<Rightarrow>
        (case lru_serve items L of (A, as, r) \<Rightarrow>
           if lc_hits L + round_hits r \<ge> U64_BOUND \<or> lc_misses L + round_misses r \<ge> U64_BOUND
           then (Inl (layout_error ''streaming cache request counters overflow''), L)
           else (Inr (r, as), \<lparr>lc_lru = A, lc_items = lc_items L, lc_round = lc_round L + 1,
                   lc_hits = lc_hits L + round_hits r, lc_misses = lc_misses L + round_misses r\<rparr>)))"

lemma cache_plan_refused:
  assumes inv: "cache_inv c" and ref: "lru_refusal items (cache_abs c) = Some e"
  shows "cache_plan_round items c as = (Inl e, c, as)"
proof -
  have "cache_rep c (lru_of c)" using inv by (simp add: cache_inv_def)
  then have n: "length (lru_items (lru_of c)) = length (slot_item c)" by (simp add: cache_rep_def lru_ok_def)
  show ?thesis
  proof (cases "sc_round c + 1 = U64_BOUND")
    case True
    then have "sc_round c = U64_BOUND - 1" by linarith
    then show ?thesis using ref by (simp add: lru_refusal_def cache_abs_def cache_plan_round_def U64_BOUND_def)
  next
    case False
    then have "sc_round c \<noteq> U64_BOUND - 1" by (simp add: U64_BOUND_def)
    moreover have "cache_require_admissible c items = Inl e"
      using ref False n unfolding lru_refusal_def cache_abs_def cache_require_admissible_eq
      by (auto simp: list_ex_iff split: if_splits)
    ultimately show ?thesis by (simp add: cache_plan_round_def)
  qed
qed

lemma cache_plan_served:
  assumes inv: "cache_inv c" and ref: "lru_refusal items (cache_abs c) = None"
    and serve: "lru_serve items (cache_abs c) = (B, as', r)"
  shows "\<exists>Q. cache_plan_round items c as =
      (if sc_hits c + round_hits r \<ge> U64_BOUND \<or> sc_misses c + round_misses r \<ge> U64_BOUND
       then (Inl (layout_error ''streaming cache request counters overflow''), cache_abandon_planned_round c, [])
       else (Inr r, c\<lparr>sc_plan := Q, plan_hits := round_hits r, plan_misses := round_misses r, planned := True\<rparr>, as')) \<and>
    B = plan_state (sc_round c + 1) Q (lru_of c) \<and> plan_complete c (lru_of c) (sc_round c + 1) (set items) Q \<and>
    as' = map step_assignment (filter ps_admitted Q) \<and> plan_round_of c Q (length items) stream_round_default r"
proof -
  let ?c = "c\<lparr>sc_plan := [], planned := True\<rparr>" and ?A = "lru_of c" and ?g = "sc_round c + 1"
  have rep: "cache_rep c ?A" using inv by (simp add: cache_inv_def)
  then have rep': "cache_rep ?c ?A" using cache_rep_cong [of ?c c] by simp
  have n: "length (lru_items ?A) = length (slot_item c)" using rep by (simp add: cache_rep_def lru_ok_def)
  have adm: "sc_round c \<noteq> U64_BOUND - 1" "cache_require_admissible c items = Inr ()"
    "set items \<subseteq> {..<length (item_slot c)}" "card (set items) \<le> length (slot_item c)"
    using ref n unfolding lru_refusal_def cache_abs_def cache_require_admissible_eq
    by (auto simp: list_ex_iff not_le not_less U64_BOUND_def split: if_splits)
  have "plan_complete ?c ?A ?g {} (sc_plan ?c)" by (simp add: plan_complete_def)
  moreover have "lru_round ?g {} items (plan_state ?g (sc_plan ?c) ?A) [] stream_round_default = (B, as', r)"
    using serve by (simp add: lru_serve_round cache_abs_def)
  ultimately obtain Q where Q: "cache_plan_loop items ?c [] stream_round_default = (Inr r, ?c\<lparr>sc_plan := [] @ Q\<rparr>, as')"
    "B = plan_state ?g Q ?A" "plan_complete ?c ?A ?g (set items) Q"
    "as' = map step_assignment (filter ps_admitted Q)" "plan_round_of ?c Q (length items) stream_round_default r"
    using cache_plan_loop_eq [OF rep', of ?g "{}" items "[]" stream_round_default B as' r] adm(3,4) by auto
  have "checked_add a b = None \<longleftrightarrow> a + b \<ge> U64_BOUND" for a b by (simp add: checked_add_def)
  then have "cache_plan_round items c as =
      (if sc_hits c + round_hits r \<ge> U64_BOUND \<or> sc_misses c + round_misses r \<ge> U64_BOUND
       then (Inl (layout_error ''streaming cache request counters overflow''), cache_abandon_planned_round c, [])
       else (Inr r, c\<lparr>sc_plan := Q, plan_hits := round_hits r, plan_misses := round_misses r, planned := True\<rparr>, as'))"
    using Q(1) adm(1,2) by (auto simp: cache_plan_round_def cache_abandon_planned_round_def)
  then show ?thesis using Q(2-5) by (intro exI [of _ Q]) (simp add: plan_complete_def plan_round_of_def)
qed

lemma cache_plan_inv:
  assumes inv: "cache_inv c" and run: "cache_plan_round items c as = (res, c', as')"
  shows "cache_inv c'"
proof (cases "lru_refusal items (cache_abs c)")
  case (Some e)
  then show ?thesis using cache_plan_refused [OF inv Some] run inv by simp
next
  case None
  obtain B bs r where serve: "lru_serve items (cache_abs c) = (B, bs, r)" by (cases "lru_serve items (cache_abs c)") auto
  obtain Q where Q: "cache_plan_round items c as =
      (if sc_hits c + round_hits r \<ge> U64_BOUND \<or> sc_misses c + round_misses r \<ge> U64_BOUND
       then (Inl (layout_error ''streaming cache request counters overflow''), cache_abandon_planned_round c, [])
       else (Inr r, c\<lparr>sc_plan := Q, plan_hits := round_hits r, plan_misses := round_misses r, planned := True\<rparr>, bs))"
    "plan_complete c (lru_of c) (sc_round c + 1) (set items) Q"
    using cache_plan_served [OF inv None serve] by blast
  have g: "sc_round c + 1 < U64_BOUND" using None inv by (auto simp: lru_refusal_def cache_abs_def cache_inv_def split: if_splits)
  show ?thesis
  proof (cases "sc_hits c + round_hits r \<ge> U64_BOUND \<or> sc_misses c + round_misses r \<ge> U64_BOUND")
    case True
    then show ?thesis using Q(1) run cache_abandon_inv [OF inv] by simp
  next
    case False
    then have c': "c' = c\<lparr>sc_plan := Q, plan_hits := round_hits r, plan_misses := round_misses r, planned := True\<rparr>"
      using Q(1) run by auto
    moreover have "lru_of c' = lru_of c" unfolding c' by (rule lru_of_cong) simp_all
    moreover have "cache_rep c' A = cache_rep c A" for A unfolding c' by (rule cache_rep_cong) simp_all
    ultimately show ?thesis using inv Q(2) g False by (simp add: cache_inv_def plan_ready_def plan_complete_def not_le)
  qed
qed

lemma cache_commit_eq:
  assumes inv: "cache_inv c" and planned: "planned c"
  shows "cache_inv (cache_commit_planned_round c)"
    and "cache_abs (cache_commit_planned_round c) = \<lparr>lc_lru = plan_state (sc_round c + 1) (sc_plan c) (lru_of c),
      lc_items = length (item_slot c), lc_round = sc_round c + 1,
      lc_hits = sc_hits c + plan_hits c, lc_misses = sc_misses c + plan_misses c\<rparr>"
    and "cache_rep (cache_commit_planned_round c) (plan_state (sc_round c + 1) (sc_plan c) (lru_of c))"
    and "length (slot_item (cache_commit_planned_round c)) = length (slot_item c)"
    and "\<not> planned (cache_commit_planned_round c)"
proof -
  let ?g = "sc_round c + 1" and ?A = "lru_of c"
  let ?c0 = "c\<lparr>sc_round := ?g\<rparr>"
  let ?c1 = "fold cache_commit_step (sc_plan c) ?c0"
  let ?c2 = "cache_commit_planned_round c"
  let ?B = "plan_state ?g (sc_plan c) ?A"
  have rep: "cache_rep c ?A" and srt: "lru_sorted (sc_round c) ?A" and ready: "plan_ready c"
    using inv planned by (simp_all add: cache_inv_def)
  have valid: "plan_valid (length (slot_item c)) (length (item_slot c)) ?g ?A (sc_plan c)"
    using ready by (simp add: plan_ready_def plan_complete_def)
  have ok: "lru_ok (length (slot_item c)) (length (item_slot c)) ?A" using rep by (simp add: cache_rep_def)
  have "cache_rep ?c0 ?A" using rep cache_rep_cong [of ?c0 c] by simp
  then have rep1: "cache_rep ?c1 ?B" and fr: "cache_step_frame ?c0 ?c1"
    using cache_commit_fold [of ?c0 ?A "sc_plan c"] valid by simp_all
  have c2: "?c2 = cache_abandon_planned_round (?c1\<lparr>sc_hits := sc_hits ?c1 + plan_hits ?c1, sc_misses := sc_misses ?c1 + plan_misses ?c1\<rparr>)"
    using planned by (simp add: cache_commit_planned_round_def Let_def)
  show rep2: "cache_rep ?c2 ?B"
    using rep1 cache_rep_cong [of ?c2 ?c1] by (simp add: c2 cache_abandon_planned_round_def)
  show "length (slot_item ?c2) = length (slot_item c)" "\<not> planned ?c2"
    using fr by (simp_all add: c2 cache_abandon_planned_round_def cache_step_frame_def)
  have sel: "sc_round ?c2 = ?g" "sc_hits ?c2 = sc_hits c + plan_hits c" "sc_misses ?c2 = sc_misses c + plan_misses c"
    "length (item_slot ?c2) = length (item_slot c)"
    using fr by (simp_all add: c2 cache_abandon_planned_round_def cache_step_frame_def)
  show "cache_abs ?c2 = \<lparr>lc_lru = ?B, lc_items = length (item_slot c), lc_round = ?g,
      lc_hits = sc_hits c + plan_hits c, lc_misses = sc_misses c + plan_misses c\<rparr>"
    by (simp add: cache_abs_def lru_of_rep [OF rep2] sel)
  have "lru_sorted ?g ?A" using srt by (auto simp: lru_sorted_def)
  then have "lru_sorted ?g ?B" by (rule plan_state_sorted [OF ok valid])
  then show "cache_inv ?c2"
    using rep2 ready sel \<open>\<not> planned ?c2\<close> by (simp add: cache_inv_def lru_of_rep [OF rep2] plan_ready_def)
qed

lemma cache_commit_inv: "cache_inv c \<Longrightarrow> cache_inv (cache_commit_planned_round c)"
  using cache_commit_eq(1) [of c] by (cases "planned c") (simp_all add: cache_commit_planned_round_def)

end
