(* ===== verification/StreamProperties.thy ===== *)
theory StreamProperties
  imports StreamAdmit
begin

text \<open>
  What \<open>StreamingSlotCache\<close> guarantees in every state its operations can reach: its rounds are LRU
  rounds, a served round is resident, what is evicted was not in use and was not more recently read
  than anything kept, and planning alone is invisible.
\<close>

section \<open>Reachable caches\<close>

inductive cache_reachable :: "slot_cache \<Rightarrow> bool" where
  cache_start: "cache_new items slots = Inr c \<Longrightarrow> cache_reachable c"
| cache_plan_call: "cache_reachable c \<Longrightarrow> cache_plan_round items c as = (res, c', as') \<Longrightarrow> cache_reachable c'"
| cache_commit_call: "cache_reachable c \<Longrightarrow> cache_reachable (cache_commit_planned_round c)"
| cache_abandon_call: "cache_reachable c \<Longrightarrow> cache_reachable (cache_abandon_planned_round c)"
| cache_clear_call: "cache_reachable c \<Longrightarrow> cache_reachable (cache_clear c)"

lemma cache_reachable_inv: "cache_reachable c \<Longrightarrow> cache_inv c"
  by (induction rule: cache_reachable.induct)
    (auto intro: cache_new_inv cache_plan_inv cache_commit_inv cache_abandon_inv cache_clear_inv)

lemma cache_reachable_admit:
  assumes "cache_reachable c" and "cache_admit_round items c as = (res, c', as')"
  shows "cache_reachable c'"
proof -
  obtain r d bs where p: "cache_plan_round items c as = (r, d, bs)" by (cases "cache_plan_round items c as") auto
  then have "cache_reachable d" using assms(1) cache_plan_call by blast
  then show ?thesis using assms(2) p cache_commit_call by (auto simp: cache_admit_round_def split: sum.splits)
qed

section \<open>A round of the code is a round of the plain LRU cache\<close>

lemma cache_abs_abandon: "cache_abs (cache_abandon_planned_round c) = cache_abs c"
  using lru_of_cong [of "cache_abandon_planned_round c" c] by (simp add: cache_abs_def cache_abandon_planned_round_def)

definition pair_result :: "'a engine_result \<Rightarrow> 'b \<Rightarrow> ('a \<times> 'b) engine_result" where
  "pair_result res b = rbind res (\<lambda>a. Inr (a, b))"

lemma pair_result_simps [simp]: "pair_result (Inl e) b = Inl e" "pair_result (Inr a) b = Inr (a, b)"
  by (simp_all add: pair_result_def)

lemma cache_admit_eq:
  assumes inv: "cache_inv c" and run: "cache_admit_round items c as = (res, c', as')"
  shows "lru_admit items (cache_abs c) = (pair_result res as', cache_abs c')"
proof (cases "lru_refusal items (cache_abs c)")
  case (Some e)
  then show ?thesis using cache_plan_refused [OF inv Some] run by (auto simp: cache_admit_round_def lru_admit_def)
next
  case None
  obtain B bs r where serve: "lru_serve items (cache_abs c) = (B, bs, r)" by (cases "lru_serve items (cache_abs c)") auto
  obtain Q where Q: "cache_plan_round items c as =
      (if sc_hits c + round_hits r \<ge> U64_BOUND \<or> sc_misses c + round_misses r \<ge> U64_BOUND
       then (Inl (layout_error ''streaming cache request counters overflow''), cache_abandon_planned_round c, [])
       else (Inr r, c\<lparr>sc_plan := Q, plan_hits := round_hits r, plan_misses := round_misses r, planned := True\<rparr>, bs))"
    "B = plan_state (sc_round c + 1) Q (lru_of c)"
    using cache_plan_served [OF inv None serve] by blast
  have ab: "lc_hits (cache_abs c) = sc_hits c" "lc_misses (cache_abs c) = sc_misses c" "lc_round (cache_abs c) = sc_round c"
    "lc_items (cache_abs c) = length (item_slot c)" by (simp_all add: cache_abs_def)
  show ?thesis
  proof (cases "sc_hits c + round_hits r \<ge> U64_BOUND \<or> sc_misses c + round_misses r \<ge> U64_BOUND")
    case True
    then show ?thesis using run Q(1) None serve by (auto simp: cache_admit_round_def lru_admit_def ab cache_abs_abandon)
  next
    case False
    let ?d = "c\<lparr>sc_plan := Q, plan_hits := round_hits r, plan_misses := round_misses r, planned := True\<rparr>"
    have plan: "cache_plan_round items c as = (Inr r, ?d, bs)" using Q(1) False by simp
    have "cache_inv ?d" by (rule cache_plan_inv [OF inv plan])
    then have "cache_abs (cache_commit_planned_round ?d) = \<lparr>lc_lru = B, lc_items = length (item_slot c),
        lc_round = sc_round c + 1, lc_hits = sc_hits c + round_hits r, lc_misses = sc_misses c + round_misses r\<rparr>"
      using cache_commit_eq(2) [of ?d] lru_of_cong [of ?d c] Q(2) by simp
    then show ?thesis using run plan False None serve by (auto simp: cache_admit_round_def lru_admit_def ab)
  qed
qed

text \<open>C34: \<open>admit_round\<close>, which plans against unchanged residency and replays the plan over index
  arrays, is one round of a plain LRU cache over the round's distinct items: on every reachable cache it
  returns the same assignments and reclaim generation or the same error as a plain LRU that serves each item
  once, in the order of the first requests, and leaves the cache that does. A repeated request counts as a
  hit and touches nothing, so an item that is requested again keeps the recency of its first request; a
  round without repetitions is the plain LRU on its requests. In particular the recency list never loses a
  slot, the eviction walk ends and no plan outgrows its scratch array (none of those errors is an error of
  the LRU round).\<close>

theorem stream_round_is_lru:
  assumes "cache_reachable c" and "cache_admit_round items c as = (res, c', as')"
  shows "lru_admit items (cache_abs c) = (pair_result res as', cache_abs c') \<and>
    lru_serve items (cache_abs c) =
      (case lru_requests (sc_round c + 1) (first_requests items) (lru_of c) [] stream_round_default of
         (B, bs, q) \<Rightarrow> (B, bs, q\<lparr>round_hits := round_hits q + (length items - length (first_requests items))\<rparr>)) \<and>
    (distinct items \<longrightarrow> lru_serve items (cache_abs c) = lru_requests (sc_round c + 1) items (lru_of c) [] stream_round_default)"
  using cache_admit_eq [OF cache_reachable_inv [OF assms(1)] assms(2)]
  by (simp add: lru_serve_def lru_distinct_def cache_abs_def first_requests_distinct split: prod.split)

text \<open>A cache of three slots over six items after the rounds \<open>[3, 1]\<close> and \<open>[1, 2]\<close>: the slots hold items
  3, 1, 2, last read by rounds 1, 2, 2.\<close>

definition demo_cache :: slot_cache where
  "demo_cache = (case cache_new 6 3 of
     Inr c \<Rightarrow> fst (snd (cache_admit_round [1, 2] (fst (snd (cache_admit_round [3, 1] c []))) []))
   | Inl e \<Rightarrow> undefined)"

definition demo_after :: "nat list \<Rightarrow> slot_cache" where
  "demo_after items = fst (snd (cache_admit_round items demo_cache []))"

lemma cache_reachable_admit_fst: "cache_reachable c \<Longrightarrow> cache_reachable (fst (snd (cache_admit_round items c as)))"
  using cache_reachable_admit [of c items as] by (cases "cache_admit_round items c as") auto

lemma demo_cache_reachable: "cache_reachable demo_cache"
proof -
  obtain c where c: "cache_new 6 3 = Inr c" by (simp add: cache_new_def U32_BOUND_def STREAMING_ABSENT_ITEM_def)
  then have "cache_reachable c" by (rule cache_start)
  then show ?thesis unfolding demo_cache_def c sum.case by (intro cache_reachable_admit_fst)
qed

lemma demo_run_ok:
  "is_ok (fst (cache_admit_round items demo_cache [])) \<Longrightarrow>
    cache_admit_round items demo_cache [] = (Inr (projr (fst (cache_admit_round items demo_cache []))), demo_after items,
      snd (snd (cache_admit_round items demo_cache [])))"
  by (cases "cache_admit_round items demo_cache []") (auto simp: is_ok_iff demo_after_def)

lemma stream_round_is_lru_witness:
  "lru_admit [1, 4, 1] (cache_abs demo_cache) =
    (pair_result (fst (cache_admit_round [1, 4, 1] demo_cache [])) (snd (snd (cache_admit_round [1, 4, 1] demo_cache []))),
     cache_abs (demo_after [1, 4, 1])) \<and>
   fst (cache_admit_round [1, 4, 1] demo_cache []) =
     Inr \<lparr>round_hits = 2, round_misses = 1, round_uploaded_bytes = 0, round_reclaim_generation = 1, round_stalled = False\<rparr>"
proof
  show "fst (cache_admit_round [1, 4, 1] demo_cache []) =
     Inr \<lparr>round_hits = 2, round_misses = 1, round_uploaded_bytes = 0, round_reclaim_generation = 1, round_stalled = False\<rparr>"
    by code_simp
qed (rule stream_round_is_lru [THEN conjunct1, OF demo_cache_reachable], simp add: demo_after_def)

section \<open>A served round is resident\<close>

lemma cache_admit_ok:
  assumes inv: "cache_inv c" and run: "cache_admit_round items c as = (Inr r, c', as')"
  shows "\<exists>Q. lru_serve items (cache_abs c) = (plan_state (sc_round c + 1) Q (lru_of c), as', r) \<and>
    plan_complete c (lru_of c) (sc_round c + 1) (set items) Q \<and> as' = map step_assignment (filter ps_admitted Q) \<and>
    plan_round_of c Q (length items) stream_round_default r \<and> cache_inv c' \<and>
    cache_rep c' (plan_state (sc_round c + 1) Q (lru_of c)) \<and> sc_round c' = sc_round c + 1 \<and>
    length (slot_item c') = length (slot_item c) \<and> length (item_slot c') = length (item_slot c)"
proof -
  have ref: "lru_refusal items (cache_abs c) = None"
  proof (cases "lru_refusal items (cache_abs c)")
    case (Some e)
    then show ?thesis using cache_plan_refused [OF inv Some] run by (auto simp: cache_admit_round_def)
  qed
  obtain B bs q where serve: "lru_serve items (cache_abs c) = (B, bs, q)" by (cases "lru_serve items (cache_abs c)") auto
  obtain Q where Q: "cache_plan_round items c as =
      (if sc_hits c + round_hits q \<ge> U64_BOUND \<or> sc_misses c + round_misses q \<ge> U64_BOUND
       then (Inl (layout_error ''streaming cache request counters overflow''), cache_abandon_planned_round c, [])
       else (Inr q, c\<lparr>sc_plan := Q, plan_hits := round_hits q, plan_misses := round_misses q, planned := True\<rparr>, bs))"
    "B = plan_state (sc_round c + 1) Q (lru_of c)" "plan_complete c (lru_of c) (sc_round c + 1) (set items) Q"
    "bs = map step_assignment (filter ps_admitted Q)" "plan_round_of c Q (length items) stream_round_default q"
    using cache_plan_served [OF inv ref serve] by blast
  let ?d = "c\<lparr>sc_plan := Q, plan_hits := round_hits q, plan_misses := round_misses q, planned := True\<rparr>"
  have plan: "cache_plan_round items c as = (Inr q, ?d, bs)" and eq: "q = r" "bs = as'" "c' = cache_commit_planned_round ?d"
    using Q(1) run by (auto simp: cache_admit_round_def split: if_splits)
  have d: "cache_inv ?d" "lru_of ?d = lru_of c" using cache_plan_inv [OF inv plan] lru_of_cong [of ?d c] by simp_all
  have "cache_inv c'" "cache_abs c' = \<lparr>lc_lru = B, lc_items = length (item_slot c), lc_round = sc_round c + 1,
      lc_hits = sc_hits c + round_hits q, lc_misses = sc_misses c + round_misses q\<rparr>"
    "cache_rep c' B" "length (slot_item c') = length (slot_item c)"
    using cache_commit_eq(1-4) [of ?d] d Q(2) eq(3) by simp_all
  moreover then have "sc_round c' = sc_round c + 1" "length (item_slot c') = length (item_slot c)"
    by (simp_all add: cache_abs_def)
  ultimately show ?thesis using serve Q(2-5) eq(1,2) by (intro exI [of _ Q]) simp
qed

lemma plan_item_at_step:
  "st \<in> set P \<Longrightarrow> distinct (map ps_slot P) \<Longrightarrow> plan_item_at P (ps_slot st) = Some (ps_item st)"
  by (induction P) (auto simp: plan_item_at_def)

lemma cache_rep_queries:
  assumes rep: "cache_rep c A" and s: "s < length (slot_item c)" and at: "lru_items A ! s = Some i"
  shows "cache_slot_of c i = Inr (Some s)" and "cache_item_of c s = Inr (Some i)"
    and "cache_slot_reader_round c s = Inr (lru_reader A ! s)"
proof -
  have ok: "lru_ok (length (slot_item c)) (length (item_slot c)) A" using rep by (simp add: cache_rep_def)
  note d = lru_okD [OF ok]
  have i: "i < length (item_slot c)" by (rule d(5) [OF s at])
  have f: "lru_find i A = Some s" using s at by (simp add: lru_find_Some [OF ok])
  have small: "length (slot_item c) \<le> length (item_slot c)" "length (item_slot c) < NIL" using rep by (simp_all add: cache_rep_def)
  have "item_slot c ! i = s" "slot_item c ! s = i" using rep i f s at by (simp_all add: cache_rep_def enc_item_def)
  then show "cache_slot_of c i = Inr (Some s)" "cache_item_of c s = Inr (Some i)"
    using i s small by (auto simp: cache_slot_of_def cache_item_of_def STREAMING_ABSENT_ITEM_def STREAMING_ABSENT_SLOT_def)
  show "cache_slot_reader_round c s = Inr (lru_reader A ! s)"
    using rep s d(2) by (simp add: cache_slot_reader_round_def cache_rep_def)
qed

lemma cache_admit_resident:
  assumes inv: "cache_inv c" and run: "cache_admit_round items c as = (Inr r, c', as')" and item: "item \<in> set items"
  shows "\<exists>slot. cache_slot_of c' item = Inr (Some slot) \<and> cache_item_of c' slot = Inr (Some item) \<and>
    cache_slot_reader_round c' slot = Inr (sc_round c')"
proof -
  let ?g = "sc_round c + 1"
  obtain Q where Q: "plan_complete c (lru_of c) ?g (set items) Q" "cache_rep c' (plan_state ?g Q (lru_of c))"
    "sc_round c' = ?g" "length (slot_item c') = length (slot_item c)"
    using cache_admit_ok [OF inv run] by blast
  have ok: "lru_ok (length (slot_item c)) (length (item_slot c)) (lru_of c)" using inv by (simp add: cache_inv_def cache_rep_def)
  have q: "plan_valid (length (slot_item c)) (length (item_slot c)) ?g (lru_of c) Q" "distinct (map ps_slot Q)"
    "distinct (map ps_item Q)" "ps_item ` set Q = set items"
    using Q(1) by (simp_all add: plan_complete_def)
  obtain st where st: "st \<in> set Q" "ps_item st = item" using q(4) item by (metis imageE)
  note e = plan_state_eq [OF ok q(1-3)]
  have "ps_slot st < length (slot_item c)" using e st(1) by (auto simp: plan_shape_def)
  moreover have "lru_items (plan_state ?g Q (lru_of c)) ! ps_slot st = Some item"
    "lru_reader (plan_state ?g Q (lru_of c)) ! ps_slot st = ?g"
    using e calculation plan_item_at_step [OF st(1) q(2)] st by auto
  ultimately show ?thesis using cache_rep_queries [OF Q(2), of "ps_slot st" item] Q(3,4) by auto
qed

text \<open>After a round succeeds every requested item is resident, in a slot whose own entry names that
  item and whose reader generation is the generation of this round; so no later request of a round
  evicts what an earlier request of it was given, and two requested items never share a slot.\<close>

theorem stream_requested_resident:
  assumes "cache_reachable c" and "cache_admit_round items c as = (Inr r, c', as')" and "item \<in> set items"
  shows "\<exists>slot. cache_slot_of c' item = Inr (Some slot) \<and> cache_item_of c' slot = Inr (Some item) \<and>
    cache_slot_reader_round c' slot = Inr (sc_round c')"
  using cache_admit_resident [OF cache_reachable_inv [OF assms(1)] assms(2,3)] .

lemma stream_requested_resident_witness:
  "\<exists>slot. cache_slot_of (demo_after [1, 4]) 4 = Inr (Some slot) \<and> cache_item_of (demo_after [1, 4]) slot = Inr (Some 4) \<and>
    cache_slot_reader_round (demo_after [1, 4]) slot = Inr (sc_round (demo_after [1, 4]))"
  by (rule stream_requested_resident [OF demo_cache_reachable demo_run_ok]) (code_simp, simp)

section \<open>What a round evicts\<close>

lemma lru_claim_step:
  assumes ok: "lru_ok n m A" and n: "0 < n" and i: "item < m" and new: "lru_find item A = None"
  shows "step_ok n m A \<lparr>ps_item = item, ps_slot = lru_claim A, ps_evicted = enc_item (lru_items A ! lru_claim A), ps_admitted = True\<rparr>"
proof -
  note d = lru_okD [OF ok]
  have "lru_claim A < n"
  proof (cases "lru_free A")
    case (Some s)
    then show ?thesis using find_upt_Some_iff d(1) by (auto simp: lru_claim_def lru_free_def)
  next
    case None
    then have "\<forall>s<n. lru_items A ! s \<noteq> None" using d(1) by (simp add: lru_free_def find_upt_None_iff)
    then have "0 \<in> set (lru_order A)" using d(4) n by simp
    then have "hd (lru_order A) \<in> set (lru_order A)" by (cases "lru_order A") simp_all
    then show ?thesis using None d(4) by (simp add: lru_claim_def)
  qed
  then show ?thesis using i new by (simp add: step_ok_def lru_find_None [OF ok])
qed

lemma lru_claim_oldest:
  assumes ok: "lru_ok n m A" and srt: "lru_sorted g A" and full: "lru_items A ! lru_claim A \<noteq> None" and n: "0 < n" and t: "t < n"
  shows "lru_reader A ! lru_claim A \<le> lru_reader A ! t"
proof -
  note d = lru_okD [OF ok]
  have none: "lru_free A = None"
  proof (cases "lru_free A")
    case (Some s)
    then have "lru_items A ! s = None" using find_upt_Some_iff by (auto simp: lru_free_def)
    then show ?thesis using full Some by (simp add: lru_claim_def)
  qed
  then have "\<forall>s<n. lru_items A ! s \<noteq> None" using d(1) by (simp add: lru_free_def find_upt_None_iff)
  then have t: "t \<in> set (lru_order A)" using d(4) t by simp
  then obtain x xs where "lru_order A = x # xs" by (cases "lru_order A") simp_all
  then show ?thesis using srt t none by (auto simp: lru_sorted_def lru_claim_def)
qed

lemma lru_round_oldest:
  assumes "lru_ok n m A" and "lru_sorted g A" and "0 < n" and "set items \<subseteq> {..<m}" and "m < NIL"
    and "lru_round g seen items A as r = (B, as', r')"
    and "\<forall>t<n. lru_reader A ! t = R ! t \<or> lru_reader A ! t = g" and "\<forall>t<n. R ! t < g"
  shows "\<exists>bs. as' = as @ bs \<and> (\<forall>t<n. lru_reader B ! t = lru_reader A ! t \<or> lru_reader B ! t = g) \<and>
    (\<forall>a\<in>set bs. as_evicted a \<noteq> STREAMING_ABSENT_ITEM \<longrightarrow> (\<forall>t<n. lru_reader B ! t < g \<longrightarrow> R ! as_slot a \<le> lru_reader B ! t))"
  using assms(1,2,4,6,7)
proof (induction items arbitrary: A seen as r)
  case Nil
  then show ?case by simp
next
  case (Cons item items)
  have ok: "lru_ok n m A" and srt: "lru_sorted g A" and it: "item < m" "set items \<subseteq> {..<m}"
    and rd: "\<forall>t<n. lru_reader A ! t = R ! t \<or> lru_reader A ! t = g" using Cons.prems by auto
  have after: "lru_ok n m (plan_apply g st A)" "lru_sorted g (plan_apply g st A)"
    "\<forall>t<n. lru_reader (plan_apply g st A) ! t = lru_reader A ! t \<or> lru_reader (plan_apply g st A) ! t = g"
    if "step_ok n m A st" for st
  proof -
    have "ps_slot st < length (lru_reader A)" using that lru_okD(2) [OF ok] by (simp add: step_ok_def)
    then show "\<forall>t<n. lru_reader (plan_apply g st A) ! t = lru_reader A ! t \<or> lru_reader (plan_apply g st A) ! t = g"
      by (auto simp: plan_apply_simps(3) nth_list_update)
  qed (rule plan_apply_ok [OF ok that], rule plan_apply_sorted [OF ok that srt])
  show ?case
  proof (cases "item \<in> seen")
    case True
    then show ?thesis using Cons.IH [OF ok srt it(2) _ rd] Cons.prems(4) by simp
  next
    case new: False
    show ?thesis
    proof (cases "lru_find item A")
      case (Some s)
      let ?st = "\<lparr>ps_item = item, ps_slot = s, ps_evicted = STREAMING_ABSENT_ITEM, ps_admitted = False\<rparr>"
      have "step_ok n m A ?st" using Some it by (simp add: step_ok_def lru_find_Some [OF ok])
      note a = after [OF this]
      have eq: "plan_apply g ?st A = lru_use g s A" by (simp add: plan_apply_def)
      have "\<forall>t<n. lru_reader (plan_apply g ?st A) ! t = R ! t \<or> lru_reader (plan_apply g ?st A) ! t = g"
        using a(3) rd by metis
      note ih = Cons.IH [OF a(1,2) it(2) _ this]
      have "lru_round g (insert item seen) items (plan_apply g ?st A) as (r\<lparr>round_hits := round_hits r + 1\<rparr>) = (B, as', r')"
        using Cons.prems(4) new Some by (simp add: eq)
      from ih [OF this] show ?thesis using a(3) by metis
    next
      case None
      let ?s = "lru_claim A"
      let ?st = "\<lparr>ps_item = item, ps_slot = ?s, ps_evicted = enc_item (lru_items A ! ?s), ps_admitted = True\<rparr>"
      let ?a = "\<lparr>as_item = item, as_slot = ?s, as_evicted = enc_item (lru_items A ! ?s)\<rparr>"
      have st: "step_ok n m A ?st" by (rule lru_claim_step [OF ok assms(3) it(1) None])
      note a = after [OF st]
      have eq: "plan_apply g ?st A = lru_use g ?s (lru_place item ?s A)" by (simp add: plan_apply_def)
      have rd': "\<forall>t<n. lru_reader (plan_apply g ?st A) ! t = R ! t \<or> lru_reader (plan_apply g ?st A) ! t = g"
        using a(3) rd by metis
      have "lru_round g (insert item seen) items (plan_apply g ?st A) (as @ [?a])
          (r\<lparr>round_reclaim_generation := max (round_reclaim_generation r) (lru_reader A ! ?s), round_misses := round_misses r + 1\<rparr>)
        = (B, as', r')"
        using Cons.prems(4) new None by (simp add: eq Let_def)
      from Cons.IH [OF a(1,2) it(2) this rd'] obtain bs where bs: "as' = (as @ [?a]) @ bs"
        "\<forall>t<n. lru_reader B ! t = lru_reader (plan_apply g ?st A) ! t \<or> lru_reader B ! t = g"
        "\<forall>a\<in>set bs. as_evicted a \<noteq> STREAMING_ABSENT_ITEM \<longrightarrow> (\<forall>t<n. lru_reader B ! t < g \<longrightarrow> R ! as_slot a \<le> lru_reader B ! t)"
        by blast
      have "R ! ?s \<le> lru_reader B ! t" if ev: "as_evicted ?a \<noteq> STREAMING_ABSENT_ITEM" and t: "t < n" "lru_reader B ! t < g" for t
      proof -
        have s: "?s < n" using st by (simp add: step_ok_def)
        have "lru_reader B ! t = lru_reader A ! t" using bs(2) a(3) t by (metis less_irrefl)
        moreover have "lru_reader A ! ?s \<le> lru_reader A ! t"
          using lru_claim_oldest [OF ok srt _ assms(3) t(1)] ev by (cases "lru_items A ! ?s") (auto simp: enc_item_def)
        moreover have "lru_reader A ! ?s = R ! ?s \<or> lru_reader A ! ?s = g" using rd s by blast
        ultimately show ?thesis using t(2) by auto
      qed
      moreover have "\<forall>t<n. lru_reader B ! t = lru_reader A ! t \<or> lru_reader B ! t = g" using bs(2) a(3) by metis
      ultimately show ?thesis using bs(1,3) by (intro exI [of _ "?a # bs"]) auto
    qed
  qed
qed

text \<open>Eviction is least recently used and never takes a slot the same round uses: a slot a
  successful round overwrites was last read no later than any slot the round leaves unused.\<close>

theorem stream_evicts_least_recent:
  assumes "cache_reachable c" and "cache_admit_round items c as = (Inr r, c', as')"
    and "a \<in> set as'" and "as_evicted a \<noteq> STREAMING_ABSENT_ITEM"
    and "cache_slot_reader_round c (as_slot a) = Inr g" and "cache_slot_reader_round c' kept = Inr g'"
    and "g' \<noteq> sc_round c'"
  shows "g \<le> g'"
proof -
  have inv: "cache_inv c" by (rule cache_reachable_inv [OF assms(1)])
  let ?g = "sc_round c + 1" and ?n = "length (slot_item c)" and ?m = "length (item_slot c)"
  obtain Q where Q: "lru_serve items (cache_abs c) = (plan_state ?g Q (lru_of c), as', r)" "cache_rep c' (plan_state ?g Q (lru_of c))"
    "sc_round c' = ?g" "length (slot_item c') = ?n" "cache_inv c'" "plan_complete c (lru_of c) ?g (set items) Q"
    using cache_admit_ok [OF inv assms(2)] by blast
  let ?B = "plan_state ?g Q (lru_of c)"
  have rep: "cache_rep c (lru_of c)" and srt: "lru_sorted (sc_round c) (lru_of c)" using inv by (simp_all add: cache_inv_def)
  have ok: "lru_ok ?n ?m (lru_of c)" and sz: "0 < ?n" "?m < NIL" and pin: "pinned_round c = lru_reader (lru_of c)"
    using rep by (simp_all add: cache_rep_def)
  have q: "plan_valid ?n ?m ?g (lru_of c) Q" "distinct (map ps_slot Q)" "distinct (map ps_item Q)" "ps_item ` set Q = set items"
    using Q(6) by (simp_all add: plan_complete_def)
  have "ps_item ` set Q \<subseteq> {..<?m}" using plan_state_eq [OF ok q(1-3)] by (auto simp: plan_shape_def)
  then have "set items \<subseteq> {..<?m}" using q(4) by simp
  moreover have "lru_sorted ?g (lru_of c)" using srt by (auto simp: lru_sorted_def)
  moreover have "\<forall>t<?n. lru_reader (lru_of c) ! t < ?g"
    using srt lru_okD(2) [OF ok] by (auto simp: lru_sorted_def less_Suc_eq_le)
  ultimately have old: "\<forall>a\<in>set as'. as_evicted a \<noteq> STREAMING_ABSENT_ITEM \<longrightarrow>
      (\<forall>t<?n. lru_reader ?B ! t < ?g \<longrightarrow> lru_reader (lru_of c) ! as_slot a \<le> lru_reader ?B ! t)"
    using lru_round_oldest [OF ok _ sz(1) _ sz(2), of ?g items "{}" "[]" stream_round_default ?B as' r "lru_reader (lru_of c)"] Q(1)
    by (auto simp: lru_serve_round cache_abs_def)
  have pin': "pinned_round c' = lru_reader ?B" and len: "length (lru_reader ?B) = ?n"
    using Q(2,4) by (simp_all add: cache_rep_def lru_ok_def)
  have "lru_sorted ?g ?B" using Q(2,3,5) lru_of_rep [OF Q(2)] by (simp add: cache_inv_def)
  then have "kept < ?n \<Longrightarrow> lru_reader ?B ! kept \<le> ?g" using len by (simp add: lru_sorted_def)
  then have "kept < ?n" "lru_reader ?B ! kept < ?g" "lru_reader ?B ! kept = g'" "lru_reader (lru_of c) ! as_slot a = g"
    using assms(5-7) pin pin' len Q(3) by (auto simp: cache_slot_reader_round_def split: if_splits)
  then show ?thesis using old assms(3,4) by auto
qed

lemma stream_evicts_least_recent_witness:
  "projr (cache_slot_reader_round demo_cache 0) \<le> projr (cache_slot_reader_round (demo_after [4]) 1)"
proof (rule stream_evicts_least_recent [OF demo_cache_reachable demo_run_ok,
    where kept = 1 and a = "\<lparr>as_item = 4, as_slot = 0, as_evicted = 3\<rparr>"])
  show "is_ok (fst (cache_admit_round [4] demo_cache []))" by code_simp
  show "\<lparr>as_item = 4, as_slot = 0, as_evicted = 3\<rparr> \<in> set (snd (snd (cache_admit_round [4] demo_cache [])))" by code_simp
  show "as_evicted \<lparr>as_item = 4, as_slot = 0, as_evicted = 3\<rparr> \<noteq> STREAMING_ABSENT_ITEM" by code_simp
  show "cache_slot_reader_round demo_cache (as_slot \<lparr>as_item = 4, as_slot = 0, as_evicted = 3\<rparr>) =
      Inr (projr (cache_slot_reader_round demo_cache 0))" by code_simp
  show "cache_slot_reader_round (demo_after [4]) 1 = Inr (projr (cache_slot_reader_round (demo_after [4]) 1))" by code_simp
  show "projr (cache_slot_reader_round (demo_after [4]) 1) \<noteq> sc_round (demo_after [4])" by code_simp
qed

lemma fold_max_Max: "fold (\<lambda>x. max (f x)) xs (k::nat) = Max (insert k (f ` set xs))"
proof (induction xs arbitrary: k)
  case (Cons x xs)
  have "Max (insert (max (f x) k) (f ` set xs)) = Max (insert k (insert (f x) (f ` set xs)))"
    by (cases "f ` set xs = {}") (simp_all add: max.commute max.left_commute)
  then show ?case using Cons.IH by simp
qed simp

text \<open>C35: The reclaim generation a successful round reports, the one the caller waits for before it
  overwrites anything, is the newest reader generation of the slots it overwrites (0 if it overwrites
  none): every replay that can still read an overwritten slot is covered, and no wait is longer than
  needed.\<close>

theorem stream_reclaim_covers_readers:
  assumes "cache_reachable c" and "cache_admit_round items c as = (Inr r, c', as')"
  shows "round_reclaim_generation r = Max (insert 0 ((\<lambda>a. pinned_round c ! as_slot a) ` set as')) \<and>
    round_misses r = length as' \<and> round_hits r + round_misses r = length items"
proof -
  obtain Q where "as' = map step_assignment (filter ps_admitted Q)" "plan_round_of c Q (length items) stream_round_default r"
    using cache_admit_ok [OF cache_reachable_inv [OF assms(1)] assms(2)] by blast
  moreover have "fold (\<lambda>st. max (pinned_round c ! ps_slot st)) P 0 = Max (insert 0 ((\<lambda>a. pinned_round c ! as_slot a) ` step_assignment ` set P))" for P
    unfolding fold_max_Max image_image by (simp add: step_assignment_def)
  ultimately show ?thesis by (simp add: plan_round_of_def stream_round_default_def)
qed

lemma stream_reclaim_covers_readers_witness:
  "round_reclaim_generation (projr (fst (cache_admit_round [4, 5] demo_cache []))) =
      Max (insert 0 ((\<lambda>a. pinned_round demo_cache ! as_slot a) ` set (snd (snd (cache_admit_round [4, 5] demo_cache []))))) \<and>
    round_misses (projr (fst (cache_admit_round [4, 5] demo_cache []))) = length (snd (snd (cache_admit_round [4, 5] demo_cache []))) \<and>
    round_hits (projr (fst (cache_admit_round [4, 5] demo_cache []))) +
      round_misses (projr (fst (cache_admit_round [4, 5] demo_cache []))) = length [4, 5 :: nat]"
  by (rule stream_reclaim_covers_readers [OF demo_cache_reachable demo_run_ok]) code_simp

lemma cache_admit_slots:
  assumes inv: "cache_inv c" and run: "cache_admit_round items c as = (Inr r, c', as')"
  shows "distinct (map as_slot as')"
    and "a \<in> set as' \<Longrightarrow> slot_item c ! as_slot a = as_evicted a \<and> slot_item c' ! as_slot a = as_item a \<and>
      as_slot a < length (slot_item c) \<and> as_item a < length (item_slot c) \<and> as_item a \<in> set items \<and>
      pinned_round c ! as_slot a \<le> round_reclaim_generation r"
    and "s < length (slot_item c) \<Longrightarrow> s \<notin> as_slot ` set as' \<Longrightarrow> slot_item c' ! s = slot_item c ! s"
    and "length (slot_item c') = length (slot_item c)" and "length (item_slot c') = length (item_slot c)"
proof -
  let ?g = "sc_round c + 1" and ?n = "length (slot_item c)" and ?m = "length (item_slot c)"
  obtain Q where Q: "plan_complete c (lru_of c) ?g (set items) Q" "cache_rep c' (plan_state ?g Q (lru_of c))"
    "length (slot_item c') = ?n" "as' = map step_assignment (filter ps_admitted Q)"
    "plan_round_of c Q (length items) stream_round_default r" "length (item_slot c') = ?m"
    using cache_admit_ok [OF inv run] by blast
  have rep: "cache_rep c (lru_of c)" using inv by (simp add: cache_inv_def)
  then have ok: "lru_ok ?n ?m (lru_of c)" by (simp add: cache_rep_def)
  have q: "plan_valid ?n ?m ?g (lru_of c) Q" "distinct (map ps_slot Q)" "distinct (map ps_item Q)"
    using Q(1) by (simp_all add: plan_complete_def)
  let ?B = "plan_state ?g Q (lru_of c)"
  have items: "\<And>s. s < ?n \<Longrightarrow> lru_items ?B ! s = (case plan_item_at Q s of Some i \<Rightarrow> Some i | None \<Rightarrow> lru_items (lru_of c) ! s)"
    and shape: "plan_shape ?n ?m (lru_of c) Q"
    using plan_state_eq [OF ok q] by auto
  have old: "\<And>s. s < ?n \<Longrightarrow> slot_item c ! s = enc_item (lru_items (lru_of c) ! s)"
    and new: "\<And>s. s < ?n \<Longrightarrow> slot_item c' ! s = enc_item (lru_items ?B ! s)"
    using rep Q(2,3) by (simp_all add: cache_rep_def)
  show "distinct (map as_slot as')"
    using q(2) by (simp add: Q(4) step_assignment_def comp_def distinct_map_filter)
  have reader: "round_reclaim_generation r = Max (insert 0 ((\<lambda>st. pinned_round c ! ps_slot st) ` set (filter ps_admitted Q)))"
    using Q(5) by (simp add: plan_round_of_def stream_round_default_def fold_max_Max)
  show "slot_item c ! as_slot a = as_evicted a \<and> slot_item c' ! as_slot a = as_item a \<and>
      as_slot a < ?n \<and> as_item a < ?m \<and> as_item a \<in> set items \<and> pinned_round c ! as_slot a \<le> round_reclaim_generation r"
    if a: "a \<in> set as'" for a
  proof -
    obtain st where st: "st \<in> set Q" "ps_admitted st" "a = step_assignment st" using a by (auto simp: Q(4))
    then have at: "ps_slot st < ?n" "ps_item st < ?m" "ps_evicted st = enc_item (lru_items (lru_of c) ! ps_slot st)"
      using shape by (auto simp: plan_shape_def)
    have "ps_item st \<in> set items" using Q(1) st(1) by (auto simp: plan_complete_def)
    moreover have "pinned_round c ! ps_slot st \<le> round_reclaim_generation r"
      unfolding reader by (rule Max_ge) (use st in auto)
    ultimately show ?thesis
      using at old new items plan_item_at_step [OF st(1) q(2)] by (simp add: st(3) step_assignment_def enc_item_def)
  qed
  show "slot_item c' ! s = slot_item c ! s" if s: "s < ?n" "s \<notin> as_slot ` set as'" for s
  proof (cases "plan_item_at Q s")
    case None
    then show ?thesis using old new items s(1) by simp
  next
    case (Some i)
    then obtain st where st: "st \<in> set Q" "ps_slot st = s" "ps_item st = i" using plan_item_at_Some by blast
    then have "\<not> ps_admitted st" using s(2) by (force simp: Q(4) step_assignment_def)
    then have "lru_items (lru_of c) ! s = Some i" using shape st by (auto simp: plan_shape_def)
    then show ?thesis using old new items s(1) Some by simp
  qed
  show "length (slot_item c') = ?n" "length (item_slot c') = ?m" by (simp_all add: Q)
qed

text \<open>What a successful round changes in the slots is exactly its assignments: an assigned slot was
  free or held the item reported as evicted and now holds the assigned item, the assigned slots are
  distinct, and every other slot keeps its item.\<close>

theorem stream_assignments_complete:
  assumes "cache_reachable c" and "cache_admit_round items c as = (Inr r, c', as')"
  shows "distinct (map as_slot as') \<and> (\<forall>a\<in>set as'. slot_item c ! as_slot a = as_evicted a \<and> slot_item c' ! as_slot a = as_item a) \<and>
    (\<forall>s<length (slot_item c). s \<notin> as_slot ` set as' \<longrightarrow> slot_item c' ! s = slot_item c ! s)"
  using cache_admit_slots [OF cache_reachable_inv [OF assms(1)] assms(2)] by blast

lemma stream_assignments_complete_witness:
  "distinct (map as_slot (snd (snd (cache_admit_round [4, 5] demo_cache [])))) \<and>
    list_all (\<lambda>a. slot_item demo_cache ! as_slot a = as_evicted a \<and> slot_item (demo_after [4, 5]) ! as_slot a = as_item a)
      (snd (snd (cache_admit_round [4, 5] demo_cache []))) \<and>
    slot_item (demo_after [4, 5]) ! 2 = slot_item demo_cache ! 2"
proof -
  have ok: "is_ok (fst (cache_admit_round [4, 5] demo_cache []))" by code_simp
  have s: "2 < length (slot_item demo_cache)" by code_simp
  have "2 \<notin> as_slot ` set (snd (snd (cache_admit_round [4, 5] demo_cache [])))" by code_simp
  then show ?thesis
    using stream_assignments_complete [OF demo_cache_reachable demo_run_ok [OF ok]] s by (simp add: list_all_iff)
qed

lemma cache_plan_frame:
  assumes inv: "cache_inv c" and run: "cache_plan_round items c as = (res, c', as')"
  shows "cache_abandon_planned_round c' = cache_abandon_planned_round c" and "is_ok res \<Longrightarrow> planned c'"
proof -
  have "cache_abandon_planned_round c' = cache_abandon_planned_round c \<and> (is_ok res \<longrightarrow> planned c')"
  proof (cases "lru_refusal items (cache_abs c)")
    case (Some e)
    then show ?thesis using cache_plan_refused [OF inv Some] run by auto
  next
    case None
    obtain B bs r where serve: "lru_serve items (cache_abs c) = (B, bs, r)" by (cases "lru_serve items (cache_abs c)") auto
    then show ?thesis
      using cache_plan_served [OF inv None serve, of as] run by (auto simp: cache_abandon_planned_round_def split: if_splits)
  qed
  then show "cache_abandon_planned_round c' = cache_abandon_planned_round c" and "is_ok res \<Longrightarrow> planned c'" by blast+
qed

text \<open>Planning is invisible. Whether \<open>plan_round\<close> succeeds or fails, residency, recency, reader
  generations and counters are what they were; abandoning the plan gives back the cache with no plan,
  and a refused round (\<open>admit_round\<close> returning an error) changes none of them either.\<close>

theorem stream_plan_invisible:
  assumes "cache_reachable c" and "cache_plan_round items c as = (res, c', as')"
  shows "cache_abandon_planned_round c' = cache_abandon_planned_round c \<and>
    (\<not> is_ok res \<longrightarrow> fst (snd (cache_admit_round items c as)) = c')"
  using cache_plan_frame(1) [OF cache_reachable_inv [OF assms(1)] assms(2)] assms(2)
  by (auto simp: cache_admit_round_def split: sum.splits)

lemma stream_plan_invisible_witness:
  "cache_abandon_planned_round (fst (snd (cache_plan_round [4, 9] demo_cache []))) = cache_abandon_planned_round demo_cache \<and>
    fst (snd (cache_admit_round [4, 9] demo_cache [])) = fst (snd (cache_plan_round [4, 9] demo_cache []))"
proof -
  have "\<not> is_ok (fst (cache_plan_round [4, 9] demo_cache []))" by code_simp
  then show ?thesis
    using stream_plan_invisible [OF demo_cache_reachable, of "[4, 9]" "[]" "fst (cache_plan_round [4, 9] demo_cache [])"
        "fst (snd (cache_plan_round [4, 9] demo_cache []))" "snd (snd (cache_plan_round [4, 9] demo_cache []))"] by simp
qed

text \<open>The header comment of \<open>admit_round\<close> says a resident item is touched to most recent, in the given
  order; a repeat inside one round is not: after the round \<open>[4, 5, 4]\<close> the most recent item is 5.\<close>

lemma stream_repeat_not_touched: "cache_item_of (demo_after [4, 5, 4]) (most_recent (demo_after [4, 5, 4])) = Inr (Some 5)"
  by code_simp

end
