(* ===== verification/Arena.thy ===== *)
theory Arena
  imports Prelude "HOL-Library.Word"
begin

text \<open>
  The arena layer of \<open>crates/tuisko-gpu/src/arena.rs\<close>: the layout builder that packs typed regions into
  one device allocation, the checked addresses of a sealed arena, and the loading arena whose
  \<open>InitializationCoverage\<close> admits each byte once and seals only a completely initialised allocation. The
  identity nonce that debug builds stamp into regions is not modelled. A driver call is answered by
  the parameter \<open>fails\<close>, which says for the operation's name whether the driver refuses it.
\<close>

unbundle bit_operations_syntax

section \<open>Layout\<close>

definition DRIVER_BASE_ALIGNMENT :: nat where "DRIVER_BASE_ALIGNMENT = 256"

text \<open>\<open>usize::is_power_of_two\<close>\<close>

definition is_power_of_two :: "nat \<Rightarrow> bool" where
  "is_power_of_two n = list_ex (\<lambda>k. n = 2 ^ k) [0..<64]"

record arena_region =
  ar_offset :: nat
  ar_len :: nat
  ar_bytes :: nat
  ar_alignment :: nat

record arena_layout =
  al_cursor :: nat
  al_max_alignment :: nat

definition layout_new :: arena_layout where
  "layout_new = \<lparr>al_cursor = 0, al_max_alignment = 1\<rparr>"

text \<open>\<open>self.cursor.checked_add(mask).map(|value| value & !mask)\<close> on 64-bit words.\<close>

definition align_masked :: "nat \<Rightarrow> nat \<Rightarrow> nat option" where
  "align_masked cursor alignment =
    (let mask = alignment - 1 in
     map_option (\<lambda>value. unat ((of_nat value :: 64 word) AND NOT (of_nat mask))) (checked_add cursor mask))"

text \<open>\<open>elem_size\<close> and \<open>elem_align\<close> are \<open>size_of\<close> and \<open>align_of\<close> of the element type.\<close>

definition layout_reserve ::
  "nat \<Rightarrow> nat \<Rightarrow> nat \<Rightarrow> nat \<Rightarrow> arena_layout \<Rightarrow> arena_region gpu_result \<times> arena_layout" where
  "layout_reserve elem_size elem_align len alignment al =
    (if elem_size = 0 then (Inl (arena_error ''arena regions cannot contain zero-sized element types''), al)
     else if \<not> is_power_of_two alignment then (Inl (arena_error ''arena region alignment is not a power of two''), al)
     else if alignment < elem_align
     then (Inl (arena_error ''arena region alignment is smaller than the element alignment''), al)
     else case checked_mul len elem_size of
       None \<Rightarrow> (Inl (arena_error ''arena byte count overflows''), al)
     | Some bytes \<Rightarrow>
        (case align_masked (al_cursor al) alignment of
           None \<Rightarrow> (Inl (arena_error ''arena alignment overflows''), al)
         | Some offset \<Rightarrow>
            (case checked_add offset bytes of
               None \<Rightarrow> (Inl (arena_error ''arena size overflows''), al)
             | Some cursor \<Rightarrow>
                (Inr \<lparr>ar_offset = offset, ar_len = len, ar_bytes = bytes, ar_alignment = alignment\<rparr>,
                 \<lparr>al_cursor = cursor, al_max_alignment = max (al_max_alignment al) alignment\<rparr>))))"

definition layout_require_base_alignment :: "nat \<Rightarrow> arena_layout \<Rightarrow> unit gpu_result" where
  "layout_require_base_alignment base al =
    (if al_max_alignment al \<le> DRIVER_BASE_ALIGNMENT then Inr ()
     else if base mod al_max_alignment al \<noteq> 0
     then Inl (arena_error ''arena base address does not satisfy the maximum alignment of the layout'')
     else Inr ())"

section \<open>Checked addresses of a sealed arena\<close>

record device_arena =
  da_base :: nat
  da_bytes :: nat

definition arena_address :: "device_arena \<Rightarrow> nat \<Rightarrow> arena_region \<Rightarrow> nat gpu_result" where
  "arena_address da elem_align r =
    (case checked_add (ar_offset r) (ar_bytes r) of
       None \<Rightarrow> Inl (arena_error ''arena region end overflows'')
     | Some end_offset \<Rightarrow>
        if end_offset > da_bytes da then Inl (arena_error ''arena region exceeds the allocation'')
        else case checked_add (da_base da) (ar_offset r) of
          None \<Rightarrow> Inl (arena_error ''arena device address overflows'')
        | Some address \<Rightarrow>
           if address mod elem_align \<noteq> 0 \<or> address mod ar_alignment r \<noteq> 0
           then Inl (arena_error ''arena address does not satisfy region alignment'')
           else Inr address)"

definition arena_subrange_address ::
  "device_arena \<Rightarrow> nat \<Rightarrow> nat \<Rightarrow> arena_region \<Rightarrow> nat \<Rightarrow> nat \<Rightarrow> (nat \<times> nat) gpu_result" where
  "arena_subrange_address da elem_size elem_align r start len =
    (case checked_add start len of
       None \<Rightarrow> Inl (arena_error ''subrange overflows'')
     | Some end_index \<Rightarrow>
        if end_index > ar_len r then Inl (arena_error ''subrange exceeds a region'')
        else case checked_mul start elem_size of
          None \<Rightarrow> Inl (arena_error ''byte offset overflows'')
        | Some byte_start \<Rightarrow>
           (case checked_mul len elem_size of
              None \<Rightarrow> Inl (arena_error ''byte count overflows'')
            | Some bytes \<Rightarrow>
               rbind (arena_address da elem_align r) (\<lambda>base.
                 case checked_add base byte_start of
                   None \<Rightarrow> Inl (arena_error ''device address overflows'')
                 | Some address \<Rightarrow> Inr (address, bytes))))"

section \<open>Initialisation coverage\<close>

text \<open>
  The \<open>BTreeMap<usize, usize>\<close> from range starts to range ends is an association list in ascending
  key order, the order its iterators have.
\<close>

record coverage =
  cov_bytes :: nat
  cov_ranges :: "(nat \<times> nat) list"

definition coverage_new :: "nat \<Rightarrow> coverage" where
  "coverage_new bytes = \<lparr>cov_bytes = bytes, cov_ranges = []\<rparr>"

text \<open>\<open>range(..=key).next_back()\<close> and \<open>range(key..).next()\<close>\<close>

definition btree_last_le :: "nat \<Rightarrow> (nat \<times> nat) list \<Rightarrow> (nat \<times> nat) option" where
  "btree_last_le key rs = (case filter (\<lambda>(s, e). s \<le> key) rs of [] \<Rightarrow> None | x # xs \<Rightarrow> Some (last (x # xs)))"

definition btree_first_ge :: "nat \<Rightarrow> (nat \<times> nat) list \<Rightarrow> (nat \<times> nat) option" where
  "btree_first_ge key rs = find (\<lambda>(s, e). key \<le> s) rs"

fun btree_insert :: "nat \<Rightarrow> nat \<Rightarrow> (nat \<times> nat) list \<Rightarrow> (nat \<times> nat) list" where
  "btree_insert a b [] = [(a, b)]"
| "btree_insert a b ((s, e) # rs) =
    (if a < s then (a, b) # (s, e) # rs else if a = s then (a, b) # rs else (s, e) # btree_insert a b rs)"

definition overlap_error :: gpu_error where
  "overlap_error = arena_error ''loading-arena initialization overlaps''"

definition coverage_require_available :: "coverage \<Rightarrow> nat \<Rightarrow> nat \<Rightarrow> unit gpu_result" where
  "coverage_require_available c a b =
    (if a > b \<or> b > cov_bytes c then Inl (arena_error ''loading-arena initialization range exceeds the allocation'')
     else if a \<ge> b then Inr ()
     else if (case btree_last_le a (cov_ranges c) of Some (s, e) \<Rightarrow> e > a | None \<Rightarrow> False) then Inl overlap_error
     else if (case btree_first_ge a (cov_ranges c) of Some (s, e) \<Rightarrow> s < b | None \<Rightarrow> False) then Inl overlap_error
     else Inr ())"

definition coverage_record :: "nat \<Rightarrow> nat \<Rightarrow> coverage \<Rightarrow> coverage" where
  "coverage_record a b c = (if a < b then c\<lparr>cov_ranges := btree_insert a b (cov_ranges c)\<rparr> else c)"

text \<open>The loop of \<open>require_complete\<close>.\<close>

fun coverage_cursor :: "nat \<Rightarrow> (nat \<times> nat) list \<Rightarrow> nat gpu_result" where
  "coverage_cursor cursor [] = Inr cursor"
| "coverage_cursor cursor ((s, e) # rs) =
    (if s \<noteq> cursor then Inl (arena_error ''loading arena is uninitialized'') else coverage_cursor e rs)"

definition coverage_require_complete :: "coverage \<Rightarrow> unit gpu_result" where
  "coverage_require_complete c =
    rbind (coverage_cursor 0 (cov_ranges c)) (\<lambda>cursor.
      if cursor \<noteq> cov_bytes c then Inl (arena_error ''loading arena is uninitialized'') else Inr ())"

section \<open>The loading arena\<close>

record loading_arena =
  la_base :: nat
  la_bytes :: nat
  la_initialized :: coverage

definition driver_call :: "(string \<Rightarrow> bool) \<Rightarrow> string \<Rightarrow> unit gpu_result" where
  "driver_call fails operation = (if fails operation then Inl (GpuDriverError operation) else Inr ())"

definition loading_address :: "loading_arena \<Rightarrow> nat \<Rightarrow> nat gpu_result" where
  "loading_address la offset = ok_or (checked_add (la_base la) offset) (arena_error ''loading-arena device address overflows'')"

text \<open>The common tail of the three writes: bind the context, enqueue the operation, record the range.\<close>

definition loading_enqueue ::
  "(string \<Rightarrow> bool) \<Rightarrow> string \<Rightarrow> nat \<Rightarrow> nat \<Rightarrow> loading_arena \<Rightarrow> unit gpu_result \<times> loading_arena" where
  "loading_enqueue fails operation a b la =
    (case rbind (loading_address la a) (\<lambda>_. rbind (driver_call fails ''binding the loading-arena CUDA context'')
            (\<lambda>_. driver_call fails operation)) of
       Inl e \<Rightarrow> (Inl e, la)
     | Inr _ \<Rightarrow> (Inr (), la\<lparr>la_initialized := coverage_record a b (la_initialized la)\<rparr>))"

definition loading_fill_async ::
  "(string \<Rightarrow> bool) \<Rightarrow> nat \<Rightarrow> nat \<Rightarrow> loading_arena \<Rightarrow> unit gpu_result \<times> loading_arena" where
  "loading_fill_async fails a b la =
    (case coverage_require_available (la_initialized la) a b of
       Inl e \<Rightarrow> (Inl e, la)
     | Inr _ \<Rightarrow> if b - a = 0 then (Inr (), la) else loading_enqueue fails ''filling a loading-arena range'' a b la)"

definition loading_copy_from_pinned ::
  "(string \<Rightarrow> bool) \<Rightarrow> bool \<Rightarrow> nat \<Rightarrow> nat \<Rightarrow> nat \<Rightarrow> nat \<Rightarrow> loading_arena \<Rightarrow> unit gpu_result \<times> loading_arena" where
  "loading_copy_from_pinned fails same_context a b source_len source_offset la =
    (if \<not> same_context
     then (Inl (GpuContract GpuContext ''pinned host source and loading arena must share one CUDA context''), la)
     else case coverage_require_available (la_initialized la) a b of
       Inl e \<Rightarrow> (Inl e, la)
     | Inr _ \<Rightarrow>
        (case checked_add source_offset (b - a) of
           None \<Rightarrow> (Inl (arena_error ''loading-arena source range overflows''), la)
         | Some source_end \<Rightarrow>
            if source_end > source_len then (Inl (arena_error ''pinned source range exceeds the source''), la)
            else if b - a = 0 then (Inr (), la)
            else loading_enqueue fails ''copying a pinned loading-arena range'' a b la))"

definition loading_copy_from_host ::
  "(string \<Rightarrow> bool) \<Rightarrow> nat \<Rightarrow> nat \<Rightarrow> nat \<Rightarrow> loading_arena \<Rightarrow> unit gpu_result \<times> loading_arena" where
  "loading_copy_from_host fails a b source_bytes la =
    (case coverage_require_available (la_initialized la) a b of
       Inl e \<Rightarrow> (Inl e, la)
     | Inr _ \<Rightarrow>
        if b - a \<noteq> source_bytes then (Inl (arena_error ''host source has the wrong size for the loading-arena destination''), la)
        else if b - a = 0 then (Inr (), la)
        else loading_enqueue fails ''copying a host slice into a loading arena'' a b la)"

definition loading_seal :: "(string \<Rightarrow> bool) \<Rightarrow> loading_arena \<Rightarrow> device_arena gpu_result" where
  "loading_seal fails la =
    rbind (coverage_require_complete (la_initialized la)) (\<lambda>_.
      rbind (driver_call fails ''synchronizing loading-arena initialization'') (\<lambda>_.
        Inr \<lparr>da_base = la_base la, da_bytes = la_bytes la\<rparr>))"

text \<open>\<open>LoadingDeviceArena::allocate\<close> over an allocation at \<open>base\<close> the driver returned.\<close>

definition loading_allocate ::
  "(string \<Rightarrow> bool) \<Rightarrow> nat \<Rightarrow> arena_layout \<Rightarrow> loading_arena gpu_result" where
  "loading_allocate fails base al =
    rbind (driver_call fails ''binding the loading-arena CUDA context'') (\<lambda>_.
      rbind (driver_call fails ''allocating an uninitialized device arena'') (\<lambda>_.
        rbind (layout_require_base_alignment base al) (\<lambda>_.
          Inr \<lparr>la_base = base, la_bytes = al_cursor al, la_initialized = coverage_new (al_cursor al)\<rparr>)))"

end
