(* ===== verification/ArenaProperties.thy ===== *)
theory ArenaProperties
  imports Arena
begin

text \<open>
  What the arena layer guarantees: the regions of one layout are aligned, in bounds and pairwise
  disjoint, their checked addresses exist, and a loading arena is sealed exactly when its accepted
  writes initialised every byte, each once.
\<close>

section \<open>Power-of-two rounding\<close>

lemma is_power_of_two_iff: "is_power_of_two n \<longleftrightarrow> (\<exists>k<64. n = 2 ^ k)"
  by (auto simp: is_power_of_two_def list_ex_iff)

lemma is_power_of_two_pos: "is_power_of_two n \<Longrightarrow> 0 < n"
  by (auto simp: is_power_of_two_iff)

lemma word_and_not_mask: "(w :: 'a::len word) AND NOT (mask n) = push_bit n (drop_bit n w)"
  by (rule bit_word_eqI) (auto simp: bit_simps)

lemma unat_and_not_mask:
  assumes "v < 2 ^ 64"
  shows "unat ((of_nat v :: 64 word) AND NOT (of_nat (2 ^ n - 1))) = v div 2 ^ n * 2 ^ n"
proof -
  have m: "(of_nat (2 ^ n - 1) :: 64 word) = mask n" by (simp add: mask_eq_exp_minus_1 of_nat_diff)
  have v: "unat (of_nat v :: 64 word) = v" using assms by (simp add: unat_of_nat take_bit_eq_mod)
  have "v div 2 ^ n * 2 ^ n \<le> v" by (simp add: div_times_less_eq_dividend)
  then have "v div 2 ^ n * 2 ^ n < 2 ^ 64" using assms by linarith
  moreover have "unat (push_bit n (drop_bit n (of_nat v :: 64 word))) = take_bit 64 (push_bit n (drop_bit n (take_bit 64 v)))"
    by (simp only: unsigned_push_bit_eq unsigned_drop_bit_eq v len_of_numeral_defs) simp
  ultimately show ?thesis
    unfolding m word_and_not_mask using assms by (simp add: take_bit_eq_mod push_bit_eq_mult drop_bit_eq_div)
qed

lemma align_masked_eq:
  assumes "is_power_of_two a"
  shows "align_masked c a = (if c + (a - 1) < U64_BOUND then Some (div_ceil c a * a) else None)"
proof -
  obtain n where n: "a = 2 ^ n" using assms by (auto simp: is_power_of_two_iff)
  show ?thesis
    using unat_and_not_mask [of "c + (a - 1)" n] add_pred_div_eq_div_ceil [of a c] is_power_of_two_pos [OF assms]
    by (auto simp: align_masked_def checked_add_def U64_BOUND_def n)
qed

section \<open>Packing\<close>

definition layout_ok :: "arena_layout \<Rightarrow> bool" where
  "layout_ok al \<longleftrightarrow> al_cursor al < U64_BOUND \<and> is_power_of_two (al_max_alignment al)"

definition region_ok :: "arena_layout \<Rightarrow> arena_region \<Rightarrow> bool" where
  "region_ok al r \<longleftrightarrow> is_power_of_two (ar_alignment r) \<and> ar_alignment r dvd ar_offset r \<and>
    ar_alignment r \<le> al_max_alignment al \<and> ar_offset r + ar_bytes r \<le> al_cursor al"

lemma layout_new_ok: "layout_ok layout_new"
  by (auto simp: layout_ok_def layout_new_def U64_BOUND_def is_power_of_two_iff intro: exI [of _ 0])

lemma layout_reserve_ok:
  assumes ok: "layout_ok al" and run: "layout_reserve sz ea len a al = (Inr r, al')"
  shows "layout_ok al'" and "region_ok al' r" and "al_cursor al \<le> ar_offset r" and "ar_offset r < al_cursor al + a"
    and "ar_bytes r = len * sz" and "ar_alignment r = a" and "ar_len r = len" and "al_cursor al' = ar_offset r + ar_bytes r"
    and "al_max_alignment al' = max (al_max_alignment al) a" and "ea \<le> a"
proof -
  have a: "is_power_of_two a" using run by (auto simp: layout_reserve_def split: if_splits)
  have r: "ar_offset r = div_ceil (al_cursor al) a * a" "ar_bytes r = len * sz" "ar_alignment r = a" "ar_len r = len" "ea \<le> a"
    and al': "al' = \<lparr>al_cursor = ar_offset r + ar_bytes r, al_max_alignment = max (al_max_alignment al) a\<rparr>"
    and c: "ar_offset r + ar_bytes r < U64_BOUND"
    using run by (auto simp: layout_reserve_def align_masked_eq [OF a] checked_mul_Some_iff checked_add_Some_iff
        split: if_splits option.splits)
  have pos: "0 < a" by (rule is_power_of_two_pos [OF a])
  have max2: "is_power_of_two (max (al_max_alignment al) a)" using ok a by (simp add: layout_ok_def max_def)
  show "layout_ok al'" using max2 c by (simp add: layout_ok_def al')
  show "region_ok al' r" using a by (simp add: region_ok_def al' r(1,3))
  show "al_cursor al \<le> ar_offset r" unfolding r(1) by (rule le_div_ceil_mult [OF pos])
  have "div_ceil (al_cursor al) a * a = (al_cursor al + (a - 1)) div a * a" by (simp only: add_pred_div_eq_div_ceil [OF pos])
  also have "\<dots> \<le> al_cursor al + (a - 1)" by (simp add: div_times_less_eq_dividend)
  finally show "ar_offset r < al_cursor al + a" unfolding r(1) using pos by linarith
qed (use run in \<open>auto simp: layout_reserve_def checked_mul_Some_iff checked_add_Some_iff split: if_splits option.splits\<close>)

lemma layout_reserve_error: "layout_reserve sz ea len a al = (Inl e, al') \<Longrightarrow> al' = al"
  by (auto simp: layout_reserve_def split: if_splits option.splits)

text \<open>A sequence of reservations \<open>(size, align, len, alignment)\<close>, the first two of the element type; it returns
  the granted ones with their regions.\<close>

type_synonym reservation = "nat \<times> nat \<times> nat \<times> nat"

fun layout_run :: "reservation list \<Rightarrow> arena_layout \<Rightarrow> (reservation \<times> arena_region) list \<times> arena_layout" where
  "layout_run [] al = ([], al)"
| "layout_run ((sz, ea, len, a) # reqs) al =
    (case layout_reserve sz ea len a al of
       (Inl e, al') \<Rightarrow> layout_run reqs al'
     | (Inr r, al') \<Rightarrow> (case layout_run reqs al' of (rs, al'') \<Rightarrow> (((sz, ea, len, a), r) # rs, al'')))"

text \<open>A region is what its reservation asked for.\<close>

fun region_of_request :: "reservation \<Rightarrow> arena_region \<Rightarrow> bool" where
  "region_of_request (sz, ea, len, a) r \<longleftrightarrow> ar_len r = len \<and> ar_bytes r = len * sz \<and> ar_alignment r = a \<and> ea \<le> a"

fun element_alignment :: "reservation \<Rightarrow> nat" where
  "element_alignment (sz, ea, len, a) = ea"

lemma layout_run_ok:
  assumes "layout_ok al" and "layout_run reqs al = (rs, al')"
  shows "layout_ok al' \<and> al_cursor al \<le> al_cursor al' \<and> al_max_alignment al \<le> al_max_alignment al' \<and>
    (\<forall>(q, r)\<in>set rs. q \<in> set reqs \<and> region_of_request q r \<and> region_ok al' r \<and> al_cursor al \<le> ar_offset r) \<and>
    sorted_wrt (\<lambda>(_, r) (_, r'). ar_offset r + ar_bytes r \<le> ar_offset r') rs"
  using assms
proof (induction reqs arbitrary: al rs)
  case (Cons q reqs)
  obtain sz ea len a where q: "q = (sz, ea, len, a)" by (cases q) auto
  obtain res al1 where run: "layout_reserve sz ea len a al = (res, al1)" by fastforce
  show ?case
  proof (cases res)
    case (Inl e)
    then have "layout_run reqs al = (rs, al')" using Cons.prems(2) run layout_reserve_error [of sz ea len a al e al1] by (simp add: q)
    then show ?thesis using Cons.IH [OF Cons.prems(1)] by fastforce
  next
    case (Inr r)
    note ok = layout_reserve_ok [OF Cons.prems(1) run [unfolded Inr]]
    obtain rs' where rs': "layout_run reqs al1 = (rs', al')" "rs = (q, r) # rs'"
      using Cons.prems(2) run Inr by (auto simp: q split: prod.splits)
    note ih = Cons.IH [OF ok(1) rs'(1)]
    have "region_ok al' r" using ih ok(2) by (auto simp: region_ok_def)
    moreover have "region_of_request q r" using ok(5-7,10) by (simp add: q)
    ultimately show ?thesis using ih ok(3,8,9) rs'(2) by (auto simp: region_ok_def)
  qed
qed simp

lemma power_of_two_dvd: "is_power_of_two a \<Longrightarrow> is_power_of_two b \<Longrightarrow> a \<le> b \<Longrightarrow> a dvd b"
  by (auto simp: is_power_of_two_iff intro: le_imp_power_dvd)

lemma region_base_aligned:
  assumes "layout_ok al" and "region_ok al r" and "layout_require_base_alignment base al = Inr ()" and "DRIVER_BASE_ALIGNMENT dvd base"
  shows "ar_alignment r dvd base + ar_offset r"
proof -
  have ok: "is_power_of_two (ar_alignment r)" "ar_alignment r dvd ar_offset r" "ar_alignment r \<le> al_max_alignment al"
    using assms(2) by (simp_all add: region_ok_def)
  have "ar_alignment r dvd base"
  proof (cases "al_max_alignment al \<le> DRIVER_BASE_ALIGNMENT")
    case True
    have "is_power_of_two DRIVER_BASE_ALIGNMENT" by (auto simp: is_power_of_two_iff DRIVER_BASE_ALIGNMENT_def intro: exI [of _ 8])
    then have "ar_alignment r dvd DRIVER_BASE_ALIGNMENT" by (rule power_of_two_dvd [OF ok(1)]) (use True ok(3) in simp)
    then show ?thesis using assms(4) by (rule dvd_trans)
  next
    case False
    then have b: "al_max_alignment al dvd base"
      using assms(3) by (auto simp: layout_require_base_alignment_def dvd_eq_mod_eq_0 split: if_splits)
    have "is_power_of_two (al_max_alignment al)" using assms(1) by (simp add: layout_ok_def)
    then have "ar_alignment r dvd al_max_alignment al" by (rule power_of_two_dvd [OF ok(1)]) (rule ok(3))
    then show ?thesis using b by (rule dvd_trans)
  qed
  then show ?thesis using ok(2) by simp
qed

text \<open>C36: The regions one layout hands out never overlap and always resolve for their own element type:
  whatever reservations are made, in any order and with refused ones in between, each granted region has the
  length, bytes and alignment it was asked for, the regions are pairwise disjoint and inside the layout's
  byte length, and in an arena of that length whose base satisfies the layout's alignment (checked by
  \<open>require_base_alignment\<close>; the driver aligns every allocation to 256 bytes) and that ends in the 64-bit
  address space, the checked address of each region, at the alignment of the element type it was reserved
  for, is its offset from the base, aligned as requested. Element alignments are powers of two, as
  \<open>align_of\<close> is.\<close>

theorem arena_regions_disjoint_and_addressable:
  assumes "layout_run reqs layout_new = (grants, al)" and "\<forall>q\<in>set reqs. is_power_of_two (element_alignment q)"
    and "layout_require_base_alignment base al = Inr ()" and "DRIVER_BASE_ALIGNMENT dvd base"
    and "base + al_cursor al < U64_BOUND"
  shows "sorted_wrt (\<lambda>(_, r) (_, r'). ar_offset r + ar_bytes r \<le> ar_offset r') grants \<and>
    (\<forall>(q, r)\<in>set grants. region_of_request q r \<and> ar_offset r + ar_bytes r \<le> al_cursor al \<and> ar_alignment r dvd base + ar_offset r \<and>
      arena_address \<lparr>da_base = base, da_bytes = al_cursor al\<rparr> (element_alignment q) r = Inr (base + ar_offset r))"
proof -
  note run = layout_run_ok [OF layout_new_ok assms(1)]
  have "arena_address \<lparr>da_base = base, da_bytes = al_cursor al\<rparr> (element_alignment q) r = Inr (base + ar_offset r) \<and>
      ar_alignment r dvd base + ar_offset r" if r: "(q, r) \<in> set grants" for q r
  proof -
    have ok: "region_ok al r" "region_of_request q r" "q \<in> set reqs" using run r by auto
    have al: "ar_alignment r dvd base + ar_offset r" using region_base_aligned [OF _ ok(1) assms(3,4)] run by blast
    have "element_alignment q \<le> ar_alignment r" using ok(2) by (cases q) auto
    moreover have "is_power_of_two (element_alignment q)" using assms(2) ok(3) by blast
    moreover have "is_power_of_two (ar_alignment r)" using ok(1) by (simp add: region_ok_def)
    ultimately have "element_alignment q dvd ar_alignment r" using power_of_two_dvd by blast
    then have el: "element_alignment q dvd base + ar_offset r" using al by (rule dvd_trans)
    have in_bounds: "ar_offset r + ar_bytes r \<le> al_cursor al" using ok(1) by (simp add: region_ok_def)
    then have "ar_offset r + ar_bytes r < U64_BOUND" "base + ar_offset r < U64_BOUND" using assms(5) by linarith+
    then show ?thesis using al el in_bounds by (auto simp: arena_address_def checked_add_def dvd_eq_mod_eq_0)
  qed
  then show ?thesis using run by (fastforce simp: region_ok_def)
qed

definition demo_requests :: "reservation list" where
  "demo_requests = [(1, 1, 300, 256), (4, 4, 5, 6), (4, 4, 5, 2), (4, 4, 5, 1024), (2, 2, 3, 2)]"

lemma demo_alignments: "is_power_of_two 256" "is_power_of_two 1024" "is_power_of_two 4" "is_power_of_two 2" "is_power_of_two (Suc 0)" "\<not> is_power_of_two 6"
  by (simp_all add: is_power_of_two_def upt_rec)

lemma demo_layout_run:
  "layout_run demo_requests layout_new =
    ([((1, 1, 300, 256), \<lparr>ar_offset = 0, ar_len = 300, ar_bytes = 300, ar_alignment = 256\<rparr>),
      ((4, 4, 5, 1024), \<lparr>ar_offset = 1024, ar_len = 5, ar_bytes = 20, ar_alignment = 1024\<rparr>),
      ((2, 2, 3, 2), \<lparr>ar_offset = 1044, ar_len = 3, ar_bytes = 6, ar_alignment = 2\<rparr>)], \<lparr>al_cursor = 1050, al_max_alignment = 1024\<rparr>)"
  by (simp add: demo_requests_def layout_reserve_def layout_new_def demo_alignments align_masked_eq
      checked_mul_def checked_add_def U64_BOUND_def div_ceil_def)

lemma arena_regions_disjoint_and_addressable_witness:
  "sorted_wrt (\<lambda>(_, r) (_, r'). ar_offset r + ar_bytes r \<le> ar_offset r') (fst (layout_run demo_requests layout_new)) \<and>
    list_all (\<lambda>(q, r). arena_address \<lparr>da_base = 4096, da_bytes = al_cursor (snd (layout_run demo_requests layout_new))\<rparr> (element_alignment q) r =
      Inr (4096 + ar_offset r)) (fst (layout_run demo_requests layout_new))"
proof -
  have "layout_require_base_alignment 4096 (snd (layout_run demo_requests layout_new)) = Inr ()"
    by (simp add: demo_layout_run layout_require_base_alignment_def DRIVER_BASE_ALIGNMENT_def)
  moreover have "DRIVER_BASE_ALIGNMENT dvd 4096" by (simp add: DRIVER_BASE_ALIGNMENT_def)
  moreover have "4096 + al_cursor (snd (layout_run demo_requests layout_new)) < U64_BOUND"
    by (simp add: demo_layout_run U64_BOUND_def)
  moreover have "\<forall>q\<in>set demo_requests. is_power_of_two (element_alignment q)"
    by (simp add: demo_requests_def demo_alignments)
  ultimately show ?thesis
    using arena_regions_disjoint_and_addressable
        [where reqs = demo_requests and base = 4096, OF prod.collapse [symmetric]]
    by (auto simp: list_all_iff)
qed

end
