(* ===== verification/ArenaLoading.thy ===== *)
theory ArenaLoading
  imports Arena
begin

text \<open>
  The loading arena: the recorded ranges stay sorted and disjoint, a write is admitted exactly when no
  byte of it was written before, and the seal succeeds exactly when every byte was.
\<close>

section \<open>Sorted disjoint ranges\<close>

fun ranges_from :: "nat \<Rightarrow> (nat \<times> nat) list \<Rightarrow> bool" where
  "ranges_from lo [] = True"
| "ranges_from lo ((s, e) # rs) = (lo \<le> s \<and> s < e \<and> ranges_from e rs)"

lemma ranges_from_mono: "ranges_from lo rs \<Longrightarrow> lo' \<le> lo \<Longrightarrow> ranges_from lo' rs"
  by (cases rs) auto

lemma ranges_from_mem: "ranges_from lo rs \<Longrightarrow> (s, e) \<in> set rs \<Longrightarrow> lo \<le> s \<and> s < e"
proof (induction rs arbitrary: lo)
  case (Cons r rs)
  then show ?case by (cases r) fastforce
qed simp

lemma btree_last_le_Cons:
  assumes "ranges_from lo ((s, e) # rs)"
  shows "btree_last_le a ((s, e) # rs) = (case btree_last_le a rs of Some x \<Rightarrow> Some x | None \<Rightarrow> if s \<le> a then Some (s, e) else None)"
proof (cases "s \<le> a")
  case True
  then show ?thesis by (auto simp: btree_last_le_def split: list.splits)
next
  case False
  have "filter (\<lambda>(s, e). s \<le> a) rs = []"
  proof (rule filter_False, safe)
    fix s' e' assume "(s', e') \<in> set rs" "s' \<le> a"
    then show False using ranges_from_mem [of e rs s' e'] assms False by simp
  qed
  then show ?thesis using False by (simp add: btree_last_le_def)
qed

lemma btree_last_le_mem: "btree_last_le a rs = Some (s, e) \<Longrightarrow> (s, e) \<in> set rs \<and> s \<le> a"
proof -
  assume "btree_last_le a rs = Some (s, e)"
  then have ne: "filter (\<lambda>(s, e). s \<le> a) rs \<noteq> []" and l: "last (filter (\<lambda>(s, e). s \<le> a) rs) = (s, e)"
    by (auto simp: btree_last_le_def split: list.splits)
  show ?thesis using last_in_set [OF ne] unfolding l by auto
qed

lemma ranges_available:
  assumes "ranges_from lo rs" and "a < b"
  shows "(case btree_last_le a rs of Some (s, e) \<Rightarrow> e > a | None \<Rightarrow> False) \<or>
      (case btree_first_ge a rs of Some (s, e) \<Rightarrow> s < b | None \<Rightarrow> False) \<longleftrightarrow>
    (\<exists>(s, e)\<in>set rs. s < b \<and> a < e)"
  using assms
proof (induction rs arbitrary: lo)
  case Nil
  then show ?case by (simp add: btree_last_le_def btree_first_ge_def)
next
  case (Cons r rs)
  obtain s e where r: "r = (s, e)" by (cases r)
  have rs: "ranges_from e rs" and se: "s < e" using Cons.prems(1) by (simp_all add: r)
  note ih = Cons.IH [OF rs Cons.prems(2)]
  have first: "btree_first_ge a (r # rs) = (if a \<le> s then Some (s, e) else btree_first_ge a rs)"
    by (simp add: btree_first_ge_def r)
  note last = btree_last_le_Cons [OF Cons.prems(1) [unfolded r], of a]
  show ?case
  proof (cases "btree_last_le a rs")
    case (Some x)
    obtain s' e' where x: "x = (s', e')" by (cases x)
    have "(s', e') \<in> set rs" "s' \<le> a" using btree_last_le_mem Some x by auto
    then have "e \<le> a" using ranges_from_mem [OF rs] by fastforce
    then have "\<not> a \<le> s" "\<not> a < e" using se by simp_all
    then show ?thesis using ih last first Some by (auto simp: r)
  next
    case None
    have after: "\<not> (s' < b \<and> a < e') \<or> a \<le> s'" if "(s', e') \<in> set rs" for s' e'
    proof (rule ccontr)
      assume "\<not> (\<not> (s' < b \<and> a < e') \<or> a \<le> s')"
      then have "(s', e') \<in> set (filter (\<lambda>(s, e). s \<le> a) rs)" using that by simp
      moreover have "filter (\<lambda>(s, e). s \<le> a) rs = []" using None by (auto simp: btree_last_le_def split: list.splits)
      ultimately show False by simp
    qed
    show ?thesis
    proof (cases "a \<le> s")
      case True
      then have "btree_first_ge a (r # rs) = Some (s, e)" using first by simp
      moreover have "(\<exists>(s', e')\<in>set (r # rs). s' < b \<and> a < e') \<longleftrightarrow> s < b"
      proof
        assume "\<exists>(s', e')\<in>set (r # rs). s' < b \<and> a < e'"
        then obtain s' e' where "(s', e') \<in> set (r # rs)" "s' < b" by blast
        then show "s < b" using ranges_from_mem [OF rs, of s' e'] se r by auto
      next
        assume "s < b"
        then show "\<exists>(s', e')\<in>set (r # rs). s' < b \<and> a < e'" using True se r by auto
      qed
      moreover have "s = a \<Longrightarrow> s < b" using Cons.prems(2) by simp
      ultimately show ?thesis using last None True se by (auto simp: r)
    next
      case False
      then show ?thesis using ih last first None Cons.prems(2) by (auto simp: r)
    qed
  qed
qed

lemma btree_insert_set:
  "ranges_from lo rs \<Longrightarrow> \<not> (\<exists>(s, e)\<in>set rs. s < b \<and> a < e) \<Longrightarrow> a < b \<Longrightarrow> set (btree_insert a b rs) = insert (a, b) (set rs)"
proof (induction rs arbitrary: lo)
  case (Cons r rs)
  obtain s e where r: "r = (s, e)" by (cases r)
  have ne: "a \<noteq> s" using Cons.prems by (auto simp: r)
  then show ?case using Cons by (auto simp: r)
qed simp

lemma btree_insert_ranges:
  "ranges_from lo rs \<Longrightarrow> \<not> (\<exists>(s, e)\<in>set rs. s < b \<and> a < e) \<Longrightarrow> a < b \<Longrightarrow> lo \<le> a \<Longrightarrow> ranges_from lo (btree_insert a b rs)"
proof (induction rs arbitrary: lo)
  case (Cons r rs)
  obtain s e where r: "r = (s, e)" by (cases r)
  have rs: "ranges_from e rs" and d: "b \<le> s \<or> e \<le> a" using Cons.prems by (auto simp: r)
  show ?case
  proof (cases "a < s")
    case True
    then show ?thesis using Cons.prems d rs by (auto simp: r)
  next
    case False
    then have "e \<le> a" "a \<noteq> s" using d Cons.prems by (auto simp: r)
    then show ?thesis using False Cons.IH [OF rs] Cons.prems by (auto simp: r)
  qed
qed simp

lemma coverage_cursor_ok:
  assumes "ranges_from lo rs" and "\<forall>(s, e)\<in>set rs. e \<le> n" and "lo \<le> n"
  shows "coverage_cursor lo rs = Inr n \<longleftrightarrow> (\<forall>k. lo \<le> k \<longrightarrow> k < n \<longrightarrow> (\<exists>r\<in>set rs. in_range k r))"
  using assms
proof (induction rs arbitrary: lo)
  case Nil
  then show ?case by (auto simp: le_less)
next
  case (Cons r rs)
  obtain s e where r: "r = (s, e)" by (cases r)
  have se: "lo \<le> s" "s < e" "ranges_from e rs" "e \<le> n" using Cons.prems by (auto simp: r)
  have ih: "coverage_cursor e rs = Inr n \<longleftrightarrow> (\<forall>k. e \<le> k \<longrightarrow> k < n \<longrightarrow> (\<exists>r\<in>set rs. in_range k r))"
    using Cons.IH [OF se(3)] Cons.prems(2) se(4) by simp
  show ?case
  proof (cases "s = lo")
    case True
    have "(\<forall>k. lo \<le> k \<longrightarrow> k < n \<longrightarrow> (\<exists>q\<in>set (r # rs). in_range k q)) \<longleftrightarrow>
        (\<forall>k. e \<le> k \<longrightarrow> k < n \<longrightarrow> (\<exists>q\<in>set rs. in_range k q))"
    proof
      assume all: "\<forall>k. lo \<le> k \<longrightarrow> k < n \<longrightarrow> (\<exists>q\<in>set (r # rs). in_range k q)"
      show "\<forall>k. e \<le> k \<longrightarrow> k < n \<longrightarrow> (\<exists>q\<in>set rs. in_range k q)"
      proof (intro allI impI)
        fix k assume k: "e \<le> k" "k < n"
        then have "lo \<le> k" using se by simp
        then obtain q where "q \<in> set (r # rs)" "in_range k q" using all k(2) by blast
        then show "\<exists>q\<in>set rs. in_range k q" using k(1) by (auto simp: r in_range_def)
      qed
    next
      assume all: "\<forall>k. e \<le> k \<longrightarrow> k < n \<longrightarrow> (\<exists>q\<in>set rs. in_range k q)"
      show "\<forall>k. lo \<le> k \<longrightarrow> k < n \<longrightarrow> (\<exists>q\<in>set (r # rs). in_range k q)"
      proof (intro allI impI)
        fix k assume k: "lo \<le> k" "k < n"
        show "\<exists>q\<in>set (r # rs). in_range k q"
        proof (cases "k < e")
          case True
          then show ?thesis using k \<open>s = lo\<close> by (auto simp: r in_range_def)
        next
          case False
          then show ?thesis using all k by auto
        qed
      qed
    qed
    then show ?thesis using ih True by (simp add: r)
  next
    case False
    have "\<not> in_range lo q" if "q \<in> set (r # rs)" for q
      using that False se ranges_from_mem [OF se(3), of "fst q" "snd q"] by (auto simp: in_range_def r)
    then show ?thesis using False se by (auto simp: r intro!: exI [of _ lo])
  qed
qed

section \<open>Invariant\<close>

definition coverage_ok :: "coverage \<Rightarrow> bool" where
  "coverage_ok c \<longleftrightarrow> ranges_from 0 (cov_ranges c) \<and> (\<forall>(s, e)\<in>set (cov_ranges c). e \<le> cov_bytes c)"

lemma coverage_available_iff:
  assumes "coverage_ok c"
  shows "is_ok (coverage_require_available c a b) \<longleftrightarrow>
    a \<le> b \<and> b \<le> cov_bytes c \<and> (\<forall>k. in_range k (a, b) \<longrightarrow> \<not> (\<exists>r\<in>set (cov_ranges c). in_range k r))"
proof -
  have rs: "ranges_from 0 (cov_ranges c)" using assms by (simp add: coverage_ok_def)
  show ?thesis
  proof (cases "a < b")
    case True
    have "(\<exists>(s, e)\<in>set (cov_ranges c). s < b \<and> a < e) \<longleftrightarrow> (\<exists>k r. in_range k (a, b) \<and> r \<in> set (cov_ranges c) \<and> in_range k r)"
    proof
      assume "\<exists>(s, e)\<in>set (cov_ranges c). s < b \<and> a < e"
      then obtain s e where se: "(s, e) \<in> set (cov_ranges c)" "s < b" "a < e" by blast
      have "s < e" using ranges_from_mem [OF rs se(1)] by simp
      then have "in_range (max a s) (a, b)" "in_range (max a s) (s, e)" using True se by (auto simp: in_range_def)
      then show "\<exists>k r. in_range k (a, b) \<and> r \<in> set (cov_ranges c) \<and> in_range k r" using se(1) by blast
    next
      assume "\<exists>k r. in_range k (a, b) \<and> r \<in> set (cov_ranges c) \<and> in_range k r"
      then obtain k s e where "(s, e) \<in> set (cov_ranges c)" "a \<le> k" "k < b" "s \<le> k" "k < e" by (auto simp: in_range_def)
      then show "\<exists>(s, e)\<in>set (cov_ranges c). s < b \<and> a < e" by (intro bexI [of _ "(s, e)"]) auto
    qed
    then show ?thesis
      using ranges_available [OF rs True] True by (auto simp: coverage_require_available_def)
  next
    case False
    then show ?thesis by (auto simp: coverage_require_available_def in_range_def)
  qed
qed

lemma coverage_record_ok:
  assumes ok: "coverage_ok c" and av: "is_ok (coverage_require_available c a b)"
  shows "coverage_ok (coverage_record a b c)"
    and "(\<exists>r\<in>set (cov_ranges (coverage_record a b c)). in_range k r) \<longleftrightarrow> in_range k (a, b) \<or> (\<exists>r\<in>set (cov_ranges c). in_range k r)"
proof -
  have rs: "ranges_from 0 (cov_ranges c)" using ok by (simp add: coverage_ok_def)
  have b: "b \<le> cov_bytes c" using av by (simp add: coverage_available_iff [OF ok])
  have free: "\<not> (\<exists>(s, e)\<in>set (cov_ranges c). s < b \<and> a < e)" if "a < b"
    using av that ranges_available [OF rs that] by (auto simp: coverage_require_available_def split: if_splits)
  show "coverage_ok (coverage_record a b c)"
    using ok b btree_insert_ranges [OF rs free] btree_insert_set [OF rs free]
    by (auto simp: coverage_record_def coverage_ok_def)
  show "(\<exists>r\<in>set (cov_ranges (coverage_record a b c)). in_range k r) \<longleftrightarrow> in_range k (a, b) \<or> (\<exists>r\<in>set (cov_ranges c). in_range k r)"
    using btree_insert_set [OF rs free] by (auto simp: coverage_record_def in_range_def)
qed

lemma coverage_complete_iff:
  assumes "coverage_ok c"
  shows "coverage_require_complete c = Inr () \<longleftrightarrow> (\<forall>k<cov_bytes c. \<exists>r\<in>set (cov_ranges c). in_range k r)"
  using coverage_cursor_ok [of 0 "cov_ranges c" "cov_bytes c"] assms
  by (cases "coverage_cursor 0 (cov_ranges c)") (auto simp: coverage_require_complete_def coverage_ok_def)

section \<open>Runs of writes\<close>

datatype loading_op =
    LoadFill nat nat
  | LoadPinned bool nat nat nat nat
  | LoadHost nat nat nat

fun loading_exec :: "(string \<Rightarrow> bool) \<Rightarrow> loading_op \<Rightarrow> loading_arena \<Rightarrow> unit gpu_result \<times> loading_arena" where
  "loading_exec fails (LoadFill a b) la = loading_fill_async fails a b la"
| "loading_exec fails (LoadPinned same a b n off) la = loading_copy_from_pinned fails same a b n off la"
| "loading_exec fails (LoadHost a b n) la = loading_copy_from_host fails a b n la"

fun loading_range :: "loading_op \<Rightarrow> nat \<times> nat" where
  "loading_range (LoadFill a b) = (a, b)"
| "loading_range (LoadPinned same a b n off) = (a, b)"
| "loading_range (LoadHost a b n) = (a, b)"

text \<open>The ranges of the accepted writes, and the arena they leave.\<close>

fun loading_run :: "((string \<Rightarrow> bool) \<times> loading_op) list \<Rightarrow> loading_arena \<Rightarrow> (nat \<times> nat) list \<times> loading_arena" where
  "loading_run [] la = ([], la)"
| "loading_run ((fails, op) # ops) la =
    (case loading_exec fails op la of
       (r, la') \<Rightarrow> (case loading_run ops la' of
          (acc, la'') \<Rightarrow> (if is_ok r then loading_range op # acc else acc, la'')))"

lemma loading_exec_cases:
  assumes "loading_exec fails op la = (r, la')" and "loading_range op = (a, b)"
  shows "(la' = la \<and> (is_ok r \<longrightarrow> a = b)) \<or>
    (is_ok r \<and> is_ok (coverage_require_available (la_initialized la) a b) \<and>
     la' = la\<lparr>la_initialized := coverage_record a b (la_initialized la)\<rparr>)"
proof -
  have av: "a \<le> b" if "coverage_require_available (la_initialized la) a b = Inr ()"
    using that by (auto simp: coverage_require_available_def split: if_splits)
  have en: "loading_enqueue fails operation a b la = (r, la') \<Longrightarrow> (la' = la \<and> \<not> is_ok r) \<or>
      (is_ok r \<and> la' = la\<lparr>la_initialized := coverage_record a b (la_initialized la)\<rparr>)" for operation
    by (auto simp: loading_enqueue_def is_ok_def split: sum.splits)
  show ?thesis
  proof (cases "coverage_require_available (la_initialized la) a b")
    case (Inl e)
    show ?thesis using assms
      by (cases op) (auto simp: Inl loading_fill_async_def loading_copy_from_pinned_def loading_copy_from_host_def split: if_splits)
  next
    case (Inr u)
    then show ?thesis using assms av en
      by (cases op)
        (auto simp: loading_fill_async_def loading_copy_from_pinned_def loading_copy_from_host_def split: if_splits option.splits)
  qed
qed

lemma loading_run_ok:
  assumes "coverage_ok (la_initialized la)" and "loading_run ops la = (acc, la')"
  shows "coverage_ok (la_initialized la') \<and> cov_bytes (la_initialized la') = cov_bytes (la_initialized la) \<and>
    la_bytes la' = la_bytes la \<and>
    (\<forall>k. length (filter (in_range k) acc) \<le> 1) \<and>
    (\<forall>k. (\<exists>r\<in>set (cov_ranges (la_initialized la)). in_range k r) \<longrightarrow> filter (in_range k) acc = []) \<and>
    (\<forall>k. (\<exists>r\<in>set (cov_ranges (la_initialized la')). in_range k r) \<longleftrightarrow>
      (\<exists>r\<in>set (cov_ranges (la_initialized la)). in_range k r) \<or> filter (in_range k) acc \<noteq> [])"
  using assms
proof (induction ops arbitrary: la acc)
  case Nil
  then show ?case by simp
next
  case (Cons q ops)
  obtain fails op where q: "q = (fails, op)" by (cases q)
  obtain a b where ab: "loading_range op = (a, b)" by fastforce
  obtain r la1 where run: "loading_exec fails op la = (r, la1)" by fastforce
  obtain acc1 where rest: "loading_run ops la1 = (acc1, la')" and acc: "acc = (if is_ok r then (a, b) # acc1 else acc1)"
    using Cons.prems(2) run ab by (auto simp: q split: prod.splits)
  from loading_exec_cases [OF run ab] show ?case
  proof (elim disjE conjE)
    assume "la1 = la" and empty: "is_ok r \<longrightarrow> a = b"
    then have "filter (in_range k) acc = filter (in_range k) acc1" for k by (auto simp: acc in_range_def)
    then show ?thesis using Cons.IH [of la1 acc1] Cons.prems(1) rest \<open>la1 = la\<close> by simp
  next
    assume r: "is_ok r" and av: "is_ok (coverage_require_available (la_initialized la) a b)"
      and la1: "la1 = la\<lparr>la_initialized := coverage_record a b (la_initialized la)\<rparr>"
    note rec = coverage_record_ok [OF Cons.prems(1) av]
    have bytes: "cov_bytes (coverage_record a b (la_initialized la)) = cov_bytes (la_initialized la)" by (simp add: coverage_record_def)
    have free: "in_range k (a, b) \<Longrightarrow> \<not> (\<exists>r\<in>set (cov_ranges (la_initialized la)). in_range k r)" for k
      using av coverage_available_iff [OF Cons.prems(1)] by blast
    note ih = Cons.IH [of la1 acc1, unfolded la1, simplified, OF rec(1) rest [unfolded la1]]
    have acc1: "(\<exists>r\<in>set (cov_ranges (la_initialized la)). in_range k r) \<or> in_range k (a, b) \<Longrightarrow> filter (in_range k) acc1 = []" for k
      using ih rec(2) by blast
    have f: "filter (in_range k) acc = (if in_range k (a, b) then [(a, b)] else filter (in_range k) acc1)" for k
      using acc1 r by (auto simp: acc)
    show ?thesis
      using ih rec(2) bytes free acc1 unfolding f by auto
  qed
qed

text \<open>C37: A loading arena is sealed exactly when it is completely initialised, and no byte is ever initialised
  twice: after any sequence of fills and copies (accepted, refused by a check or refused by the
  driver), every byte lies in at most one accepted write, and the seal succeeds if and only if every
  byte of the allocation lies in exactly one and the final synchronisation succeeds.\<close>

theorem loading_sealed_exactly_once:
  assumes "loading_allocate fails0 base al = Inr la" and "loading_run ops la = (acc, la')"
  shows "(\<forall>k. length (filter (in_range k) acc) \<le> 1) \<and>
    (is_ok (loading_seal fails la') \<longleftrightarrow>
      \<not> fails ''synchronizing loading-arena initialization'' \<and> (\<forall>k<al_cursor al. length (filter (in_range k) acc) = 1))"
proof -
  have la: "la_initialized la = coverage_new (al_cursor al)"
    using assms(1) by (auto simp: loading_allocate_def rbind_Inr_iff)
  then have ok: "coverage_ok (la_initialized la)" "cov_ranges (la_initialized la) = []" "cov_bytes (la_initialized la) = al_cursor al"
    by (simp_all add: coverage_ok_def coverage_new_def)
  note run = loading_run_ok [OF ok(1) assms(2)]
  have one: "length (filter (in_range k) acc) = 1 \<longleftrightarrow> filter (in_range k) acc \<noteq> []" for k
    using run by (metis One_nat_def le_antisym length_0_conv less_one not_less)
  have "is_ok (loading_seal fails la') \<longleftrightarrow>
      coverage_require_complete (la_initialized la') = Inr () \<and> \<not> fails ''synchronizing loading-arena initialization''"
    by (cases "coverage_require_complete (la_initialized la')") (simp_all add: loading_seal_def driver_call_def)
  then show ?thesis
    using run coverage_complete_iff [of "la_initialized la'"] ok one by auto
qed

definition demo_loading_ops :: "((string \<Rightarrow> bool) \<times> loading_op) list" where
  "demo_loading_ops = [(\<lambda>_. False, LoadFill 4 6), (\<lambda>_. True, LoadFill 0 2), (\<lambda>_. False, LoadHost 0 4 4),
    (\<lambda>_. False, LoadPinned True 3 5 9 1), (\<lambda>_. False, LoadPinned True 6 8 9 1)]"

definition demo_loading :: loading_arena where
  "demo_loading = \<lparr>la_base = 256, la_bytes = 8, la_initialized = coverage_new 8\<rparr>"

lemma loading_sealed_exactly_once_witness:
  "map (\<lambda>k. length (filter (in_range k) (fst (loading_run demo_loading_ops demo_loading)))) [0..<8] = replicate 8 1"
proof -
  have al: "loading_allocate (\<lambda>_. False) 256 \<lparr>al_cursor = 8, al_max_alignment = 1\<rparr> = Inr demo_loading"
    by (simp add: loading_allocate_def driver_call_def layout_require_base_alignment_def DRIVER_BASE_ALIGNMENT_def demo_loading_def)
  have "is_ok (loading_seal (\<lambda>_. False) (snd (loading_run demo_loading_ops demo_loading)))" by code_simp
  then have "\<forall>k<8. length (filter (in_range k) (fst (loading_run demo_loading_ops demo_loading))) = 1"
    using loading_sealed_exactly_once [OF al prod.collapse [symmetric], of demo_loading_ops "\<lambda>_. False"] by simp
  then show ?thesis by (auto simp: map_replicate_const list_eq_iff_nth_eq)
qed

end
