(* ===== verification/Vmm.thy ===== *)
theory Vmm
  imports ArenaProperties
begin

text \<open>
  Virtual-memory-backed arenas: the granule classification of
  \<open>crates/tuisko-gpu/src/vmm_manifest.rs\<close> and the parking and resuming of the physical segments in
  \<open>arena.rs\<close> (\<open>VmmArenaStorage\<close>). The CUDA driver's answers are the parameter \<open>vmm_driver\<close>.
\<close>

section \<open>Manifest\<close>

datatype vmm_class = VmmResident | VmmParkable

record vmm_segment =
  vs_offset :: nat
  vs_bytes :: nat
  vs_class :: vmm_class

record vmm_manifest =
  vm_arena_bytes :: nat
  vm_reservation_bytes :: nat
  vm_granularity :: nat
  vm_segments :: "vmm_segment list"

text \<open>The loop of \<open>covers(ranges, cursor..end)\<close>.\<close>

fun covers :: "(nat \<times> nat) list \<Rightarrow> nat \<Rightarrow> nat \<Rightarrow> bool" where
  "covers [] cursor required_end = (cursor \<ge> required_end)"
| "covers ((s, e) # ranges) cursor required_end =
    (if e \<le> cursor then covers ranges cursor required_end
     else if s > cursor then False
     else let cursor = max cursor e in
       if cursor \<ge> required_end then True else covers ranges cursor required_end)"

definition vmm_push :: "nat \<Rightarrow> nat \<Rightarrow> vmm_class \<Rightarrow> vmm_segment list \<Rightarrow> vmm_segment list" where
  "vmm_push granularity offset cls segments =
    (if segments \<noteq> [] \<and> vs_class (last segments) = cls \<and> vs_offset (last segments) + vs_bytes (last segments) = offset
     then butlast segments @ [(last segments)\<lparr>vs_bytes := vs_bytes (last segments) + granularity\<rparr>]
     else segments @ [\<lparr>vs_offset = offset, vs_bytes = granularity, vs_class = cls\<rparr>])"

text \<open>The loop \<open>for offset in (0..reservation_bytes).step_by(granularity)\<close> of \<open>build\<close>.\<close>

fun vmm_granules ::
  "nat \<Rightarrow> nat \<Rightarrow> (nat \<times> nat) list \<Rightarrow> (nat \<times> nat) list \<Rightarrow> (nat \<times> nat) list \<Rightarrow> nat list \<Rightarrow> vmm_segment list \<Rightarrow>
   vmm_segment list gpu_result" where
  "vmm_granules arena g resident parkable declared [] segments = Inr segments"
| "vmm_granules arena g resident parkable declared (offset # offsets) segments =
    (let end_offset = offset + g in
     if offset < arena \<and> \<not> covers declared offset (min end_offset arena)
     then Inl (arena_error ''VMM granule contains undeclared arena bytes'')
     else if list_ex (\<lambda>(s, e). s < end_offset \<and> offset < e) resident
     then vmm_granules arena g resident parkable declared offsets (vmm_push g offset VmmResident segments)
     else if offset \<ge> arena \<or> covers parkable offset (min end_offset arena)
     then vmm_granules arena g resident parkable declared offsets (vmm_push g offset VmmParkable segments)
     else Inl (arena_error ''VMM granule is neither resident nor wholly parkable''))"

definition vmm_build :: "nat \<Rightarrow> nat \<Rightarrow> (nat \<times> nat) list \<Rightarrow> (nat \<times> nat) list \<Rightarrow> vmm_manifest gpu_result" where
  "vmm_build arena g resident parkable =
    (if arena = 0 then Inl (arena_error ''a VMM arena cannot be empty'')
     else if \<not> is_power_of_two g then Inl (arena_error ''VMM granularity is not a power of two'')
     else if list_ex (\<lambda>(s, e). s \<ge> e \<or> e > arena) (resident @ parkable)
     then Inl (arena_error ''resident VMM range is empty or exceeds arena bytes'')
     else if list_ex (\<lambda>(s, e). list_ex (\<lambda>(s', e'). s < e' \<and> s' < e) parkable) resident
     then Inl (arena_error ''resident and parkable VMM byte ranges overlap'')
     else
       let parkable = sort_key fst parkable;
           declared = sort_key fst (resident @ parkable)
       in case align_masked arena g of
            None \<Rightarrow> Inl (arena_error ''VMM reservation size overflows'')
          | Some reservation \<Rightarrow>
              rbind (vmm_granules arena g resident parkable declared (map (\<lambda>k. k * g) [0..<reservation div g]) [])
                (\<lambda>segments. Inr \<lparr>vm_arena_bytes = arena, vm_reservation_bytes = reservation,
                   vm_granularity = g, vm_segments = segments\<rparr>))"

definition vmm_uniform :: "nat \<Rightarrow> nat \<Rightarrow> vmm_class \<Rightarrow> vmm_manifest gpu_result" where
  "vmm_uniform arena g cls =
    (case cls of VmmResident \<Rightarrow> vmm_build arena g [(0, arena)] [] | VmmParkable \<Rightarrow> vmm_build arena g [] [(0, arena)])"

definition manifest_parkable_bytes :: "vmm_manifest \<Rightarrow> nat" where
  "manifest_parkable_bytes m = sum_list (map vs_bytes (filter (\<lambda>s. vs_class s = VmmParkable) (vm_segments m)))"

section \<open>Backing\<close>

record vmm_backing =
  vb_mapping :: bool
  vb_allocation :: bool
  vb_offset :: nat
  vb_bytes :: nat
  vb_class :: vmm_class

record vmm_storage =
  vst_segments :: "vmm_backing list"
  vst_base :: nat
  vst_granularity :: nat
  vst_parkable_bytes :: nat

text \<open>
  \<open>vd_fails operation i\<close>: the driver refuses the operation (on the \<open>i\<close>-th segment); \<open>vd_oom i\<close>: the
  refusal of the \<open>i\<close>-th allocation is an out-of-memory error; \<open>vd_memory\<close>: the free and total bytes the
  driver reports, if it answers; \<open>vd_granularity\<close> and \<open>vd_base\<close>: its allocation granularity and the
  base of the reservation it makes.
\<close>

record vmm_driver =
  vd_fails :: "string \<Rightarrow> nat \<Rightarrow> bool"
  vd_oom :: "nat \<Rightarrow> bool"
  vd_memory :: "(nat \<times> nat) option"
  vd_granularity :: nat
  vd_base :: nat

definition vd_call :: "vmm_driver \<Rightarrow> string \<Rightarrow> nat \<Rightarrow> unit gpu_result" where
  "vd_call d operation i = (if vd_fails d operation i then Inl (GpuDriverError operation) else Inr ())"

definition memory_error :: "string \<Rightarrow> gpu_error" where
  "memory_error operation = GpuContract GpuMemory operation"

definition require_free_device_memory :: "vmm_driver \<Rightarrow> string \<Rightarrow> nat \<Rightarrow> unit gpu_result" where
  "require_free_device_memory d operation required =
    (case vd_memory d of
       None \<Rightarrow> Inl (GpuDriverError ''querying device memory'')
     | Some (free_bytes, total_bytes) \<Rightarrow> if free_bytes < required then Inl (memory_error operation) else Inr ())"

definition allocate_vmm_backing :: "vmm_driver \<Rightarrow> string \<Rightarrow> nat \<Rightarrow> unit gpu_result" where
  "allocate_vmm_backing d operation i =
    (if \<not> vd_fails d operation i then Inr ()
     else if vd_oom d i \<and> vd_memory d \<noteq> None then Inl (memory_error operation)
     else Inl (GpuDriverError operation))"

text \<open>The segment loop of \<open>allocate\<close>.\<close>

fun vmm_back_segments :: "vmm_driver \<Rightarrow> nat \<Rightarrow> vmm_segment list \<Rightarrow> vmm_backing list \<Rightarrow> vmm_backing list gpu_result" where
  "vmm_back_segments d i [] segments = Inr segments"
| "vmm_back_segments d i (s # ss) segments =
    rbind (allocate_vmm_backing d ''allocating VMM arena backing'' i) (\<lambda>_.
      rbind (ok_or (checked_add (vd_base d) (vs_offset s)) (arena_error ''VMM segment address overflows'')) (\<lambda>va.
        rbind (vd_call d ''mapping VMM arena backing'' i) (\<lambda>_.
          rbind (vd_call d ''granting VMM arena access'' i) (\<lambda>_.
            vmm_back_segments d (i + 1) ss
              (segments @ [\<lparr>vb_mapping = True, vb_allocation = True, vb_offset = vs_offset s,
                 vb_bytes = vs_bytes s, vb_class = vs_class s\<rparr>])))))"

definition vmm_allocate :: "vmm_driver \<Rightarrow> vmm_manifest \<Rightarrow> vmm_storage gpu_result" where
  "vmm_allocate d m =
    rbind (vd_call d ''binding the VMM arena CUDA context'' 0) (\<lambda>_.
      rbind (vd_call d ''querying VMM allocation granularity'' 0) (\<lambda>_.
        if vd_granularity d \<noteq> vm_granularity m
        then Inl (arena_error ''VMM manifest granularity does not match device granularity'')
        else rbind (vd_call d ''reserving VMM arena addresses'' 0) (\<lambda>_.
          rbind (require_free_device_memory d ''allocating VMM arena backing'' (vm_reservation_bytes m)) (\<lambda>_.
            rbind (vmm_back_segments d 0 (vm_segments m) []) (\<lambda>segments.
              Inr \<lparr>vst_segments = segments, vst_base = vd_base d, vst_granularity = vd_granularity d,
                vst_parkable_bytes = manifest_parkable_bytes m\<rparr>)))))"

definition vmm_partial :: "vmm_backing \<Rightarrow> bool" where
  "vmm_partial b \<longleftrightarrow> vb_class b = VmmParkable \<and> vb_mapping b \<noteq> vb_allocation b"

text \<open>The release loop of \<open>park\<close>; \<open>done_segments\<close> are the segments already visited.\<close>

fun vmm_park_loop :: "vmm_backing list \<Rightarrow> vmm_backing list \<Rightarrow> nat \<Rightarrow> nat gpu_result \<times> vmm_backing list" where
  "vmm_park_loop done_segments [] released = (Inr released, done_segments)"
| "vmm_park_loop done_segments (b # bs) released =
    (if vb_class b = VmmParkable \<and> vb_mapping b
     then let b = b\<lparr>vb_mapping := False, vb_allocation := False\<rparr> in
       (case checked_add released (vb_bytes b) of
          None \<Rightarrow> (Inl (arena_error ''parked VMM byte count overflows''), done_segments @ b # bs)
        | Some released \<Rightarrow> vmm_park_loop (done_segments @ [b]) bs released)
     else vmm_park_loop (done_segments @ [b]) bs released)"

definition vmm_park :: "vmm_driver \<Rightarrow> vmm_storage \<Rightarrow> nat gpu_result \<times> vmm_storage" where
  "vmm_park d st =
    (case vd_call d ''synchronizing before VMM arena park'' 0 of
       Inl e \<Rightarrow> (Inl e, st)
     | Inr _ \<Rightarrow>
        if list_ex vmm_partial (vst_segments st)
        then (Inl (arena_error ''parkable VMM segment retained partial physical ownership''), st)
        else (case vmm_park_loop [] (vst_segments st) 0 of
          (r, segments) \<Rightarrow> (r, st\<lparr>vst_segments := segments\<rparr>)))"

text \<open>The planning loop of \<open>resume\<close>: the indices to restore and their bytes.\<close>

fun vmm_resume_plan ::
  "vmm_driver \<Rightarrow> nat \<Rightarrow> nat \<Rightarrow> vmm_backing list \<Rightarrow> nat list \<Rightarrow> nat \<Rightarrow> (nat list \<times> nat) gpu_result" where
  "vmm_resume_plan d base i [] replacements resumed = Inr (replacements, resumed)"
| "vmm_resume_plan d base i (b # bs) replacements resumed =
    (if vb_class b \<noteq> VmmParkable then vmm_resume_plan d base (i + 1) bs replacements resumed
     else if vb_mapping b \<and> vb_allocation b then vmm_resume_plan d base (i + 1) bs replacements resumed
     else if vb_mapping b \<or> vb_allocation b
     then Inl (arena_error ''parkable VMM segment retained partial physical ownership'')
     else
       rbind (vd_call d ''allocating resumed VMM backing'' i) (\<lambda>_.
         rbind (ok_or (checked_add base (vb_offset b)) (arena_error ''resumed VMM segment address overflows'')) (\<lambda>va.
           rbind (vd_call d ''mapping resumed VMM backing'' i) (\<lambda>_.
             rbind (vd_call d ''granting resumed VMM access'' i) (\<lambda>_.
               rbind (ok_or (checked_add resumed (vb_bytes b)) (arena_error ''resumed VMM byte count overflows''))
                 (\<lambda>resumed. vmm_resume_plan d base (i + 1) bs (replacements @ [i]) resumed))))))"

definition vmm_install :: "nat \<Rightarrow> vmm_backing list \<Rightarrow> vmm_backing list" where
  "vmm_install i bs = bs[i := (bs ! i)\<lparr>vb_mapping := True, vb_allocation := True\<rparr>]"

definition vmm_resume :: "vmm_driver \<Rightarrow> vmm_storage \<Rightarrow> nat gpu_result \<times> vmm_storage" where
  "vmm_resume d st =
    (case vd_call d ''binding the VMM arena resume context'' 0 of
       Inl e \<Rightarrow> (Inl e, st)
     | Inr _ \<Rightarrow>
        (case vmm_resume_plan d (vst_base st) 0 (vst_segments st) [] 0 of
           Inl e \<Rightarrow> (Inl e, st)
         | Inr (replacements, resumed) \<Rightarrow>
            (Inr resumed, st\<lparr>vst_segments := fold vmm_install replacements (vst_segments st)\<rparr>)))"

definition vmm_mapped_physical_bytes :: "vmm_storage \<Rightarrow> nat" where
  "vmm_mapped_physical_bytes st = sum_list (map vb_bytes (filter vb_allocation (vst_segments st)))"

section \<open>The arena around it\<close>

datatype arena_storage = LegacyStorage nat | VmmStorage vmm_storage

text \<open>\<open>DeviceArena::park\<close>, \<open>resume\<close>, \<open>mapped_physical_bytes\<close> and \<open>parkable_bytes\<close>; the legacy storage carries
  its byte length, \<open>same_context\<close> is the answer of \<open>require_stream_context\<close>.\<close>

definition arena_park :: "vmm_driver \<Rightarrow> bool \<Rightarrow> arena_storage \<Rightarrow> nat gpu_result \<times> arena_storage" where
  "arena_park d same_context storage =
    (if \<not> same_context then (Inl (GpuContract GpuContext ''parking a VMM device arena''), storage)
     else case storage of
       VmmStorage st \<Rightarrow> (case vmm_park d st of (r, st') \<Rightarrow> (r, VmmStorage st'))
     | LegacyStorage n \<Rightarrow> (Inl (arena_error ''legacy device arena cannot preserve addresses while parked''), storage))"

definition arena_resume :: "vmm_driver \<Rightarrow> bool \<Rightarrow> arena_storage \<Rightarrow> nat gpu_result \<times> arena_storage" where
  "arena_resume d same_context storage =
    (if \<not> same_context then (Inl (GpuContract GpuContext ''resuming a VMM device arena''), storage)
     else case storage of
       VmmStorage st \<Rightarrow> (case vmm_resume d st of (r, st') \<Rightarrow> (r, VmmStorage st'))
     | LegacyStorage n \<Rightarrow> (Inl (arena_error ''legacy device arena cannot resume retained addresses''), storage))"

definition arena_mapped_physical_bytes :: "arena_storage \<Rightarrow> nat" where
  "arena_mapped_physical_bytes storage =
    (case storage of LegacyStorage n \<Rightarrow> n | VmmStorage st \<Rightarrow> vmm_mapped_physical_bytes st)"

definition arena_parkable_bytes :: "arena_storage \<Rightarrow> nat" where
  "arena_parkable_bytes storage = (case storage of LegacyStorage n \<Rightarrow> 0 | VmmStorage st \<Rightarrow> vst_parkable_bytes st)"

end
