(* ===== verification/VmmProperties.thy ===== *)
theory VmmProperties
  imports Vmm
begin

text \<open>
  The manifest classifies every granule as its declared ranges require, and parking and resuming
  follow it: data declared resident keeps its backing in every reachable state of a storage.
\<close>

section \<open>Coverage by ranges\<close>

lemma covers_sound: "covers rs c e \<Longrightarrow> c \<le> k \<Longrightarrow> k < e \<Longrightarrow> \<exists>r\<in>set rs. in_range k r"
proof (induction rs c e rule: covers.induct)
  case (2 s t ranges c e)
  show ?case
  proof (cases "t \<le> c")
    case True
    then show ?thesis using 2 by auto
  next
    case False
    then have s: "s \<le> c" using 2(3) by (auto split: if_splits)
    show ?thesis
    proof (cases "k < t")
      case True
      then show ?thesis using s 2(4) by (auto simp: in_range_def)
    next
      case k: False
      then have "\<not> max c t \<ge> e" using 2(4,5) by simp
      then have "covers ranges (max c t) e" using 2(3) False s by (simp add: Let_def)
      moreover have "max c t \<le> k" using k 2(4) by simp
      ultimately show ?thesis using 2(2) [OF False _ refl] s \<open>\<not> max c t \<ge> e\<close> 2(5) by auto
    qed
  qed
qed simp

lemma covers_complete:
  "sorted (map fst rs) \<Longrightarrow> c < e \<Longrightarrow> (\<And>k. c \<le> k \<Longrightarrow> k < e \<Longrightarrow> \<exists>r\<in>set rs. in_range k r) \<Longrightarrow> covers rs c e"
proof (induction rs arbitrary: c)
  case Nil
  then show ?case by force
next
  case (Cons r rs)
  obtain s t where r: "r = (s, t)" by (cases r)
  have srt: "sorted (map fst rs)" and le: "\<And>q. q \<in> set rs \<Longrightarrow> s \<le> fst q" using Cons.prems(1) by (auto simp: r)
  show ?case
  proof (cases "t \<le> c")
    case True
    have "\<exists>q\<in>set rs. in_range k q" if "c \<le> k" "k < e" for k
      using Cons.prems(3) [OF that] True that by (auto simp: r in_range_def)
    then show ?thesis using Cons.IH [OF srt Cons.prems(2)] True by (simp add: r)
  next
    case False
    obtain q where q: "q \<in> set (r # rs)" "in_range c q" using Cons.prems(2,3) by blast
    then have "s \<le> c" using le by (fastforce simp: r in_range_def)
    moreover have "covers rs (max c t) e" if m: "max c t < e"
    proof (rule Cons.IH [OF srt m])
      fix k assume "max c t \<le> k" "k < e"
      then show "\<exists>q\<in>set rs. in_range k q" using Cons.prems(3) [of k] by (auto simp: r in_range_def)
    qed
    ultimately show ?thesis using False by (simp add: r Let_def not_le)
  qed
qed

section \<open>Segments\<close>

fun segments_tile :: "nat \<Rightarrow> vmm_segment list \<Rightarrow> nat \<Rightarrow> bool" where
  "segments_tile lo [] hi = (lo = hi)"
| "segments_tile lo (s # ss) hi = (vs_offset s = lo \<and> 0 < vs_bytes s \<and> segments_tile (lo + vs_bytes s) ss hi)"

definition in_segment :: "nat \<Rightarrow> vmm_segment \<Rightarrow> bool" where
  "in_segment k s \<longleftrightarrow> vs_offset s \<le> k \<and> k < vs_offset s + vs_bytes s"

lemma segments_tile_append:
  "segments_tile lo (ss @ [s]) hi \<longleftrightarrow> segments_tile lo ss (vs_offset s) \<and> 0 < vs_bytes s \<and> vs_offset s + vs_bytes s = hi"
  by (induction ss arbitrary: lo) auto

lemma segments_tile_le: "segments_tile lo ss hi \<Longrightarrow> lo \<le> hi"
  by (induction ss arbitrary: lo) fastforce+

lemma segments_tile_bounds: "segments_tile lo ss hi \<Longrightarrow> s \<in> set ss \<Longrightarrow> lo \<le> vs_offset s \<and> vs_offset s + vs_bytes s \<le> hi"
proof (induction ss arbitrary: lo)
  case (Cons q ss)
  then show ?case using segments_tile_le [of "lo + vs_bytes q" ss hi] by fastforce
qed simp

lemma segments_tile_cover: "segments_tile lo ss hi \<Longrightarrow> lo \<le> k \<Longrightarrow> k < hi \<Longrightarrow> \<exists>s\<in>set ss. in_segment k s"
proof (induction ss arbitrary: lo)
  case (Cons q ss)
  then show ?case by (cases "k < lo + vs_bytes q") (auto simp: in_segment_def)
qed simp

lemma segments_tile_sum: "segments_tile lo ss hi \<Longrightarrow> lo + sum_list (map vs_bytes ss) = hi"
proof (induction ss arbitrary: lo)
  case (Cons s ss)
  have "lo + vs_bytes s + sum_list (map vs_bytes ss) = hi" by (rule Cons.IH) (use Cons.prems in simp)
  then show ?case by simp
qed simp

definition granule_class :: "nat \<Rightarrow> (nat \<times> nat) list \<Rightarrow> nat \<Rightarrow> vmm_class" where
  "granule_class g resident offset =
    (if list_ex (\<lambda>(s, e). s < offset + g \<and> offset < e) resident then VmmResident else VmmParkable)"

lemma granule_bounds: "0 < g \<Longrightarrow> (k::nat) div g * g \<le> k \<and> k < k div g * g + g"
  using dividend_less_div_times [of g k] by (simp only: div_times_less_eq_dividend add.commute simp_thms)

lemma granule_resident:
  assumes "0 < g" and "r \<in> set resident" and "in_range k r"
  shows "granule_class g resident (k div g * g) = VmmResident"
proof -
  have "fst r < k div g * g + g" "k div g * g < snd r"
    using granule_bounds [OF assms(1), of k] assms(3) unfolding in_range_def by linarith+
  then show ?thesis using assms(2) by (auto simp: granule_class_def list_ex_iff case_prod_unfold)
qed

text \<open>The segments of the first \<open>n\<close> granules: they tile, carry the granules' classes and are coalesced.\<close>

definition segments_of :: "nat \<Rightarrow> (nat \<times> nat) list \<Rightarrow> nat \<Rightarrow> vmm_segment list \<Rightarrow> bool" where
  "segments_of g resident n ss \<longleftrightarrow> segments_tile 0 ss (n * g) \<and>
    (\<forall>s\<in>set ss. \<forall>k. in_segment k s \<longrightarrow> vs_class s = granule_class g resident (k div g * g)) \<and>
    (\<forall>i. Suc i < length ss \<longrightarrow> vs_class (ss ! i) \<noteq> vs_class (ss ! Suc i))"

lemma vmm_push_ok:
  assumes ok: "segments_of g resident n ss" and g: "0 < g"
  shows "segments_of g resident (Suc n) (vmm_push g (n * g) (granule_class g resident (n * g)) ss)"
proof -
  let ?o = "n * g" and ?c = "granule_class g resident (n * g)"
  have tile: "segments_tile 0 ss ?o"
    and cls: "\<And>s k. s \<in> set ss \<Longrightarrow> in_segment k s \<Longrightarrow> vs_class s = granule_class g resident (k div g * g)"
    and alt: "\<And>i. Suc i < length ss \<Longrightarrow> vs_class (ss ! i) \<noteq> vs_class (ss ! Suc i)"
    using ok by (auto simp: segments_of_def)
  have new: "granule_class g resident (k div g * g) = ?c" if "?o \<le> k" "k < ?o + g" for k
  proof -
    have "k div g = n" using that g by (intro div_nat_eqI) (simp_all add: mult.commute)
    then show ?thesis by simp
  qed
  show ?thesis
  proof (cases ss rule: rev_cases)
    case Nil
    then have "n = 0" using tile g by simp
    then show ?thesis using new g Nil by (auto simp: segments_of_def vmm_push_def in_segment_def)
  next
    case (snoc ts s)
    have t: "segments_tile 0 ts (vs_offset s)" "0 < vs_bytes s" "vs_offset s + vs_bytes s = ?o"
      using tile by (simp_all add: snoc segments_tile_append)
    show ?thesis
    proof (cases "vs_class s = ?c")
      case True
      let ?s = "s\<lparr>vs_bytes := vs_bytes s + g\<rparr>"
      have push: "vmm_push g ?o ?c ss = ts @ [?s]" using True t(3) by (simp add: vmm_push_def snoc)
      have "segments_tile 0 (ts @ [?s]) (Suc n * g)" using t g by (simp add: segments_tile_append)
      moreover have "vs_class q = granule_class g resident (k div g * g)" if q: "q \<in> set (ts @ [?s])" "in_segment k q" for q k
      proof (cases "q \<in> set ts")
        case True
        then show ?thesis using cls q(2) by (simp add: snoc)
      next
        case False
        then have q': "q = ?s" using q(1) by simp
        show ?thesis
        proof (cases "k < ?o")
          case True
          then have "in_segment k s" using q(2) q' t(3) by (simp add: in_segment_def)
          then show ?thesis using cls [of s k] q' by (simp add: snoc)
        next
          case k: False
          then have "k < ?o + g" using q(2) q' t(3) by (simp add: in_segment_def)
          then show ?thesis using new [of k] k True q' \<open>vs_class s = ?c\<close> by simp
        qed
      qed
      moreover have "vs_class ((ts @ [?s]) ! i) \<noteq> vs_class ((ts @ [?s]) ! Suc i)" if "Suc i < length (ts @ [?s])" for i
        using alt [of i] that by (auto simp: snoc nth_append split: if_splits)
      ultimately show ?thesis unfolding push segments_of_def by blast
    next
      case False
      let ?s = "\<lparr>vs_offset = ?o, vs_bytes = g, vs_class = ?c\<rparr>"
      have push: "vmm_push g ?o ?c ss = ss @ [?s]" using False by (auto simp: vmm_push_def snoc)
      have "segments_tile 0 (ss @ [?s]) (Suc n * g)" using tile g by (simp add: segments_tile_append)
      moreover have "vs_class q = granule_class g resident (k div g * g)" if q: "q \<in> set (ss @ [?s])" "in_segment k q" for q k
      proof (cases "q = ?s")
        case True
        then show ?thesis using q(2) new [of k] by (simp add: in_segment_def)
      next
        case False
        then show ?thesis using cls q by auto
      qed
      moreover have "vs_class ((ss @ [?s]) ! i) \<noteq> vs_class ((ss @ [?s]) ! Suc i)" if i: "Suc i < length (ss @ [?s])" for i
      proof (cases "Suc i < length ss")
        case True
        then show ?thesis using alt [of i] by (simp add: nth_append)
      next
        case F: False
        then have "i = length ts" using i by (simp add: snoc)
        then show ?thesis using False by (simp add: nth_append snoc)
      qed
      ultimately show ?thesis unfolding push segments_of_def by blast
    qed
  qed
qed

lemma vmm_granules_ok:
  assumes "segments_of g resident m ss" and "0 < g"
    and "\<forall>i. m \<le> i \<and> i < n \<longrightarrow> i * g < arena \<longrightarrow> covers declared (i * g) (min (i * g + g) arena)"
    and "\<forall>i. m \<le> i \<and> i < n \<longrightarrow> granule_class g resident (i * g) = VmmParkable \<longrightarrow>
      i * g \<ge> arena \<or> covers parkable (i * g) (min (i * g + g) arena)"
    and "m \<le> n"
  shows "\<exists>segs. vmm_granules arena g resident parkable declared (map (\<lambda>k. k * g) [m..<n]) ss = Inr segs \<and>
    segments_of g resident n segs"
  using assms
proof (induction "n - m" arbitrary: m ss)
  case 0
  then show ?case by simp
next
  case (Suc d)
  then have m: "m < n" by simp
  let ?ss = "vmm_push g (m * g) (granule_class g resident (m * g)) ss"
  have "segments_of g resident (Suc m) ?ss" using vmm_push_ok Suc.prems(1,2) by simp
  moreover have "d = n - Suc m" using Suc.hyps(2) by simp
  ultimately obtain segs where segs: "vmm_granules arena g resident parkable declared (map (\<lambda>k. k * g) [Suc m..<n]) ?ss = Inr segs"
    "segments_of g resident n segs" using Suc.hyps(1) [of "Suc m" ?ss] Suc.prems m by (metis Suc_leD Suc_leI)
  have "vmm_granules arena g resident parkable declared (map (\<lambda>k. k * g) [m..<n]) ss = Inr segs"
    using segs(1) Suc.prems(3,4) m
    by (auto simp: upt_conv_Cons [OF m] Let_def granule_class_def split: if_splits)
  then show ?case using segs(2) by blast
qed

lemma vmm_granules_covered:
  "vmm_granules arena g resident parkable declared offsets ss = Inr segs \<Longrightarrow> off \<in> set offsets \<Longrightarrow> off < arena \<Longrightarrow>
    covers declared off (min (off + g) arena)"
  by (induction offsets arbitrary: ss) (auto simp: Let_def split: if_splits)

section \<open>The manifest\<close>

definition ranges_valid :: "nat \<Rightarrow> (nat \<times> nat) list \<Rightarrow> bool" where
  "ranges_valid arena rs \<longleftrightarrow> (\<forall>(s, e)\<in>set rs. s < e \<and> e \<le> arena)"

definition ranges_disjoint :: "(nat \<times> nat) list \<Rightarrow> (nat \<times> nat) list \<Rightarrow> bool" where
  "ranges_disjoint rs ps \<longleftrightarrow> (\<forall>k. \<not> ((\<exists>r\<in>set rs. in_range k r) \<and> (\<exists>p\<in>set ps. in_range k p)))"

lemma ranges_valid_iff: "list_ex (\<lambda>(s, e). s \<ge> e \<or> e > arena) rs \<longleftrightarrow> \<not> ranges_valid arena rs"
  unfolding ranges_valid_def by (induction rs) (auto simp: not_less not_le)

lemma overlap_iff:
  assumes "ranges_valid arena rs" and "ranges_valid arena ps"
  shows "list_ex (\<lambda>(s, e). list_ex (\<lambda>(s', e'). s < e' \<and> s' < e) ps) rs \<longleftrightarrow> \<not> ranges_disjoint rs ps"
proof
  assume "list_ex (\<lambda>(s, e). list_ex (\<lambda>(s', e'). s < e' \<and> s' < e) ps) rs"
  then obtain s e s' e' where q: "(s, e) \<in> set rs" "(s', e') \<in> set ps" "s < e'" "s' < e" by (auto simp: list_ex_iff)
  moreover have "s < e" "s' < e'" using q assms by (auto simp: ranges_valid_def)
  ultimately have "in_range (max s s') (s, e)" "in_range (max s s') (s', e')" by (auto simp: in_range_def)
  then show "\<not> ranges_disjoint rs ps" using q(1,2) unfolding ranges_disjoint_def by blast
next
  assume "\<not> ranges_disjoint rs ps"
  then obtain k s e s' e' where q: "(s, e) \<in> set rs" "(s', e') \<in> set ps" "in_range k (s, e)" "in_range k (s', e')"
    unfolding ranges_disjoint_def by (metis surj_pair)
  then have "s < e'" "s' < e" by (simp_all add: in_range_def)
  then show "list_ex (\<lambda>(s, e). list_ex (\<lambda>(s', e'). s < e' \<and> s' < e) ps) rs"
    using q(1,2) unfolding list_ex_iff by blast
qed

lemma vmm_build_ok:
  assumes ranges: "ranges_valid arena (resident @ parkable)" and disj: "ranges_disjoint resident parkable"
    and arena: "arena \<noteq> 0" and g: "is_power_of_two g" and room: "arena + (g - 1) < U64_BOUND"
    and all: "\<forall>k<arena. \<exists>r\<in>set (resident @ parkable). in_range k r"
  shows "\<exists>segs. vmm_build arena g resident parkable = Inr \<lparr>vm_arena_bytes = arena,
      vm_reservation_bytes = div_ceil arena g * g, vm_granularity = g, vm_segments = segs\<rparr> \<and>
    segments_of g resident (div_ceil arena g) segs"
proof -
  let ?parkable = "sort_key fst parkable" and ?declared = "sort_key fst (resident @ sort_key fst parkable)"
  have pos: "0 < g" by (rule is_power_of_two_pos [OF g])
  have val: "ranges_valid arena resident" "ranges_valid arena parkable" using ranges by (auto simp: ranges_valid_def)
  have decl: "covers ?declared (i * g) (min (i * g + g) arena)" if "i * g < arena" for i
  proof (rule covers_complete)
    show "i * g < min (i * g + g) arena" using that pos by simp
    fix k assume "i * g \<le> k" "k < min (i * g + g) arena"
    then show "\<exists>r\<in>set ?declared. in_range k r" using all by simp
  qed simp
  have park: "i * g \<ge> arena \<or> covers ?parkable (i * g) (min (i * g + g) arena)"
    if c: "granule_class g resident (i * g) = VmmParkable" for i
  proof (cases "i * g \<ge> arena")
    case False
    have "covers ?parkable (i * g) (min (i * g + g) arena)"
    proof (rule covers_complete)
      show "i * g < min (i * g + g) arena" using False pos by simp
      fix k assume k: "i * g \<le> k" "k < min (i * g + g) arena"
      then have "k < arena" by simp
      then obtain r where r: "r \<in> set (resident @ parkable)" "in_range k r" using all by blast
      have "r \<notin> set resident" using c r(2) k by (auto simp: granule_class_def list_ex_iff in_range_def split: if_splits)
      then show "\<exists>r\<in>set ?parkable. in_range k r" using r by auto
    qed simp
    then show ?thesis by simp
  qed simp
  have start: "segments_of g resident 0 []" by (simp add: segments_of_def)
  obtain segs where segs: "vmm_granules arena g resident ?parkable ?declared (map (\<lambda>k. k * g) [0..<div_ceil arena g]) [] = Inr segs"
    "segments_of g resident (div_ceil arena g) segs"
    using vmm_granules_ok [OF start pos, of "div_ceil arena g" arena ?declared ?parkable] decl park by blast
  have "\<not> list_ex (\<lambda>(s, e). s \<ge> e \<or> e > arena) (resident @ parkable)"
    using ranges by (simp only: ranges_valid_iff) simp
  then have "vmm_build arena g resident parkable = Inr \<lparr>vm_arena_bytes = arena,
      vm_reservation_bytes = div_ceil arena g * g, vm_granularity = g, vm_segments = segs\<rparr>"
    using arena g disj overlap_iff [OF val] segs(1) pos room
    by (simp add: vmm_build_def align_masked_eq Let_def del: list_ex_append)
  then show ?thesis using segs(2) by blast
qed

lemma vmm_build_only:
  assumes "vmm_build arena g resident parkable = Inr m"
  shows "ranges_valid arena (resident @ parkable) \<and> ranges_disjoint resident parkable \<and> arena \<noteq> 0 \<and> is_power_of_two g \<and>
    arena + (g - 1) < U64_BOUND \<and> (\<forall>k<arena. \<exists>r\<in>set (resident @ parkable). in_range k r)"
proof -
  have c: "arena \<noteq> 0" "is_power_of_two g" "\<not> list_ex (\<lambda>(s, e). s \<ge> e \<or> e > arena) (resident @ parkable)"
    "\<not> list_ex (\<lambda>(s, e). list_ex (\<lambda>(s', e'). s < e' \<and> s' < e) parkable) resident"
    using assms by (auto simp: vmm_build_def simp del: list_ex_append split: if_splits)
  have val: "ranges_valid arena (resident @ parkable)" using c(3) by (simp only: ranges_valid_iff) simp
  then have "ranges_disjoint resident parkable"
    using c(4) overlap_iff [of arena resident parkable] by (auto simp: ranges_valid_def)
  moreover have room: "arena + (g - 1) < U64_BOUND"
    using assms c(1) by (simp add: vmm_build_def c(2-4) align_masked_eq [OF c(2)] Let_def del: list_ex_append split: if_splits)
  moreover have run: "\<exists>segs. vmm_granules arena g resident (sort_key fst parkable) (sort_key fst (resident @ sort_key fst parkable))
      (map (\<lambda>k. k * g) [0..<div_ceil arena g]) [] = Inr segs"
    using assms c(1) room is_power_of_two_pos [OF c(2)]
    by (simp add: vmm_build_def c(2-4) align_masked_eq [OF c(2)] Let_def rbind_Inr_iff del: list_ex_append) blast
  moreover have "\<exists>r\<in>set (resident @ parkable). in_range k r" if k: "k < arena" for k
  proof -
    have pos: "0 < g" by (rule is_power_of_two_pos [OF c(2)])
    have kg: "k div g * g \<le> k" "k < k div g * g + g" using granule_bounds [OF pos, of k] by blast+
    obtain segs where "vmm_granules arena g resident (sort_key fst parkable) (sort_key fst (resident @ sort_key fst parkable))
      (map (\<lambda>k. k * g) [0..<div_ceil arena g]) [] = Inr segs" using run by blast
    moreover have "k div g * g \<in> set (map (\<lambda>k. k * g) [0..<div_ceil arena g])"
      using div_less_div_ceil [OF pos k] by auto
    moreover have "k div g * g < arena" using kg k by linarith
    ultimately have "covers (sort_key fst (resident @ sort_key fst parkable)) (k div g * g) (min (k div g * g + g) arena)"
      by (rule vmm_granules_covered)
    then show ?thesis using covers_sound [of _ "k div g * g" "min (k div g * g + g) arena" k] kg k by fastforce
  qed
  ultimately show ?thesis using val c by blast
qed

text \<open>C38: A manifest exists exactly for the declarations that make sense, and it says what they say. The
  build succeeds if and only if the arena is not empty, the granularity is a power of two, the ranges
  are non-empty and inside the arena, no byte is declared resident and parkable, every byte is
  declared, and the rounded size does not overflow.\<close>

theorem vmm_build_succeeds_iff:
  "is_ok (vmm_build arena g resident parkable) \<longleftrightarrow>
    arena \<noteq> 0 \<and> is_power_of_two g \<and> ranges_valid arena (resident @ parkable) \<and> ranges_disjoint resident parkable \<and>
    arena + (g - 1) < U64_BOUND \<and> list_all (\<lambda>k. list_ex (in_range k) (resident @ parkable)) [0..<arena]"
proof
  assume "is_ok (vmm_build arena g resident parkable)"
  then obtain m where m: "vmm_build arena g resident parkable = Inr m" by (auto simp: is_ok_iff)
  show "arena \<noteq> 0 \<and> is_power_of_two g \<and> ranges_valid arena (resident @ parkable) \<and> ranges_disjoint resident parkable \<and>
    arena + (g - 1) < U64_BOUND \<and> list_all (\<lambda>k. list_ex (in_range k) (resident @ parkable)) [0..<arena]"
    using vmm_build_only [OF m] by (auto simp: list_all_iff list_ex_iff)
next
  assume "arena \<noteq> 0 \<and> is_power_of_two g \<and> ranges_valid arena (resident @ parkable) \<and> ranges_disjoint resident parkable \<and>
    arena + (g - 1) < U64_BOUND \<and> list_all (\<lambda>k. list_ex (in_range k) (resident @ parkable)) [0..<arena]"
  then have "\<exists>segs. vmm_build arena g resident parkable = Inr \<lparr>vm_arena_bytes = arena,
      vm_reservation_bytes = div_ceil arena g * g, vm_granularity = g, vm_segments = segs\<rparr> \<and>
    segments_of g resident (div_ceil arena g) segs"
    by (intro vmm_build_ok) (auto simp: list_all_iff list_ex_iff)
  then show "is_ok (vmm_build arena g resident parkable)" by (auto simp: is_ok_iff)
qed

end
