(* ===== verification/VmmParking.thy ===== *)
theory VmmParking
  imports VmmProperties
begin

text \<open>
  Reachable VMM storages: the physical state of a storage is that of its manifest with the parkable
  segments either all backed or all released.
\<close>

section \<open>What the manifest promises per byte\<close>

text \<open>C39: A built manifest is exact per byte: its segments tile the rounded arena without gap or overlap and
  neighbours differ in class; every byte of a range declared resident lies in a resident segment, and
  every arena byte in a parkable segment was declared parkable, so parking never touches a byte that
  was not offered.\<close>

theorem vmm_manifest_exact:
  assumes "vmm_build arena g resident parkable = Inr m"
  shows "segments_tile 0 (vm_segments m) (vm_reservation_bytes m) \<and> vm_reservation_bytes m = div_ceil arena g * g \<and>
    (\<forall>i. Suc i < length (vm_segments m) \<longrightarrow> vs_class (vm_segments m ! i) \<noteq> vs_class (vm_segments m ! Suc i)) \<and>
    (\<forall>k s. s \<in> set (vm_segments m) \<and> in_segment k s \<longrightarrow>
      ((\<exists>r\<in>set resident. in_range k r) \<longrightarrow> vs_class s = VmmResident) \<and>
      (vs_class s = VmmParkable \<and> k < arena \<longrightarrow> (\<exists>r\<in>set parkable. in_range k r)))"
proof -
  note only = vmm_build_only [OF assms]
  obtain segs where "vmm_build arena g resident parkable = Inr \<lparr>vm_arena_bytes = arena,
      vm_reservation_bytes = div_ceil arena g * g, vm_granularity = g, vm_segments = segs\<rparr>"
    and segs: "segments_of g resident (div_ceil arena g) segs"
    using vmm_build_ok [of arena resident parkable g] only by blast
  then have m: "m = \<lparr>vm_arena_bytes = arena, vm_reservation_bytes = div_ceil arena g * g, vm_granularity = g, vm_segments = segs\<rparr>"
    using assms by simp
  have pos: "0 < g" using only is_power_of_two_pos by blast
  have resident: "vs_class s = VmmResident"
    if s: "s \<in> set segs" "in_segment k s" and r: "r \<in> set resident" "in_range k r" for s k r
    using granule_resident [OF pos r] segs s by (auto simp: segments_of_def)
  have parkable: "\<exists>r\<in>set parkable. in_range k r"
    if s: "s \<in> set segs" "in_segment k s" "vs_class s = VmmParkable" and k: "k < arena" for s k
  proof -
    obtain r where r: "r \<in> set (resident @ parkable)" "in_range k r" using only k by blast
    then have "r \<notin> set resident" using resident [OF s(1,2), of r] s(3) by auto
    then show ?thesis using r by auto
  qed
  have bytes: "\<forall>k s. s \<in> set segs \<and> in_segment k s \<longrightarrow>
      ((\<exists>r\<in>set resident. in_range k r) \<longrightarrow> vs_class s = VmmResident) \<and>
      (vs_class s = VmmParkable \<and> k < arena \<longrightarrow> (\<exists>r\<in>set parkable. in_range k r))"
    by (intro allI impI conjI; elim conjE bexE) (rule resident parkable; assumption)+
  show ?thesis
    unfolding m vmm_manifest.select_convs using segs bytes unfolding segments_of_def by (elim conjE) (intro conjI; assumption?; simp?)
qed

definition demo_manifest :: vmm_manifest where
  "demo_manifest = \<lparr>vm_arena_bytes = 10, vm_reservation_bytes = 12, vm_granularity = 4,
    vm_segments = [\<lparr>vs_offset = 0, vs_bytes = 8, vs_class = VmmResident\<rparr>, \<lparr>vs_offset = 8, vs_bytes = 4, vs_class = VmmParkable\<rparr>]\<rparr>"

lemma demo_manifest_built: "vmm_build 10 4 [(0, 5)] [(5, 10)] = Inr demo_manifest"
  by code_simp

lemma vmm_manifest_exact_witness:
  "segments_tile 0 (vm_segments demo_manifest) 12 \<and>
    vs_class (vm_segments demo_manifest ! 0) \<noteq> vs_class (vm_segments demo_manifest ! Suc 0)"
  using vmm_manifest_exact [OF demo_manifest_built] by (simp add: demo_manifest_def)

section \<open>Physical state\<close>

definition vmm_back :: "bool \<Rightarrow> vmm_segment \<Rightarrow> vmm_backing" where
  "vmm_back up s = \<lparr>vb_mapping = vs_class s = VmmResident \<or> up, vb_allocation = vs_class s = VmmResident \<or> up,
    vb_offset = vs_offset s, vb_bytes = vs_bytes s, vb_class = vs_class s\<rparr>"

lemma vmm_back_sel [simp]:
  "vb_class (vmm_back up s) = vs_class s" "vb_mapping (vmm_back up s) = (vs_class s = VmmResident \<or> up)"
  "vb_allocation (vmm_back up s) = (vs_class s = VmmResident \<or> up)" "vb_bytes (vmm_back up s) = vs_bytes s"
  "vb_offset (vmm_back up s) = vs_offset s"
  by (simp_all add: vmm_back_def)

definition segs_parkable :: "vmm_segment list \<Rightarrow> nat" where
  "segs_parkable ss = sum_list (map vs_bytes (filter (\<lambda>s. vs_class s = VmmParkable) ss))"

lemma segs_parkable_simps [simp]:
  "segs_parkable [] = 0"
  "segs_parkable (s # ss) = (if vs_class s = VmmParkable then vs_bytes s else 0) + segs_parkable ss"
  by (simp_all add: segs_parkable_def)

lemma vmm_class_not: "vs_class s \<noteq> VmmResident \<longleftrightarrow> vs_class s = VmmParkable"
  by (cases "vs_class s") simp_all

lemma vmm_back_segments_ok: "vmm_back_segments d i ss acc = Inr segs \<Longrightarrow> segs = acc @ map (vmm_back True) ss"
proof (induction ss arbitrary: i acc)
  case (Cons s ss)
  have b: "\<lparr>vb_mapping = True, vb_allocation = True, vb_offset = vs_offset s, vb_bytes = vs_bytes s, vb_class = vs_class s\<rparr> = vmm_back True s"
    by (simp add: vmm_back_def)
  have "vmm_back_segments d (i + 1) ss (acc @ [vmm_back True s]) = Inr segs" using Cons.prems by (auto simp: rbind_Inr_iff b)
  then show ?case using Cons.IH by fastforce
qed simp

lemma vmm_park_loop_ok:
  "released + segs_parkable ss < U64_BOUND \<Longrightarrow>
    vmm_park_loop acc (map (vmm_back up) ss) released =
      (Inr (released + (if up then segs_parkable ss else 0)), acc @ map (vmm_back False) ss)"
proof (induction ss arbitrary: acc released)
  case (Cons s ss)
  show ?case
  proof (cases "vs_class s = VmmParkable \<and> up")
    case True
    have off: "(vmm_back True s)\<lparr>vb_mapping := False, vb_allocation := False\<rparr> = vmm_back False s" using True by (simp add: vmm_back_def)
    have "checked_add released (vs_bytes s) = Some (released + vs_bytes s)" using Cons.prems True by (simp add: checked_add_def)
    then have "vmm_park_loop acc (map (vmm_back up) (s # ss)) released =
        vmm_park_loop (acc @ [vmm_back False s]) (map (vmm_back up) ss) (released + vs_bytes s)"
      using True by (simp add: off)
    then show ?thesis using Cons.IH [of "released + vs_bytes s" "acc @ [vmm_back False s]"] Cons.prems True by simp
  next
    case False
    then have "vs_class s = VmmResident \<or> \<not> up" using vmm_class_not by blast
    then have same: "vmm_back up s = vmm_back False s" and skip: "\<not> (vs_class s = VmmParkable \<and> (vs_class s = VmmResident \<or> up))"
      by (auto simp: vmm_back_def)
    have "vmm_park_loop acc (map (vmm_back up) (s # ss)) released = vmm_park_loop (acc @ [vmm_back up s]) (map (vmm_back up) ss) released"
      by (simp only: list.map vmm_park_loop.simps vmm_back_sel skip if_False)
    also have "\<dots> = (Inr (released + (if up then segs_parkable ss else 0)), (acc @ [vmm_back up s]) @ map (vmm_back False) ss)"
      using Cons.prems by (intro Cons.IH) (simp split: if_splits)
    finally show ?thesis using False by (simp add: same)
  qed
qed simp

fun parkable_indices :: "nat \<Rightarrow> vmm_segment list \<Rightarrow> nat list" where
  "parkable_indices i [] = []"
| "parkable_indices i (s # ss) = (if vs_class s = VmmParkable then [i] else []) @ parkable_indices (Suc i) ss"

lemma vmm_resume_plan_ok:
  "vmm_resume_plan d base i (map (vmm_back up) ss) rs n = Inr (rs', n') \<Longrightarrow>
    rs' = rs @ (if up then [] else parkable_indices i ss) \<and> n' = n + (if up then 0 else segs_parkable ss)"
proof (induction ss arbitrary: i rs n)
  case (Cons s ss)
  show ?case
  proof (cases "vs_class s = VmmParkable \<and> \<not> up")
    case True
    then have "vmm_resume_plan d base (i + 1) (map (vmm_back up) ss) (rs @ [i]) (n + vs_bytes s) = Inr (rs', n')"
      using Cons.prems by (auto simp: rbind_Inr_iff ok_or_Inr_iff checked_add_Some_iff)
    then show ?thesis using Cons.IH True by fastforce
  next
    case False
    then have "vs_class s \<noteq> VmmParkable \<or> up" by blast
    then have "vmm_resume_plan d base (i + 1) (map (vmm_back up) ss) rs n = Inr (rs', n')"
      using Cons.prems by (auto simp: vmm_class_not split: if_splits)
    then show ?thesis using Cons.IH [of "i + 1" rs n] False by (auto simp: vmm_class_not)
  qed
qed simp

lemma vmm_install_all:
  "fold vmm_install (parkable_indices (length acc) ss) (acc @ map (vmm_back False) ss) = acc @ map (vmm_back True) ss"
proof (induction ss arbitrary: acc)
  case (Cons s ss)
  have ih: "fold vmm_install (parkable_indices (Suc (length acc)) ss) (acc @ vmm_back True s # map (vmm_back False) ss) =
      acc @ vmm_back True s # map (vmm_back True) ss" using Cons.IH [of "acc @ [vmm_back True s]"] by simp
  show ?case
  proof (cases "vs_class s = VmmParkable")
    case True
    then have "vmm_install (length acc) (acc @ vmm_back False s # map (vmm_back False) ss) =
        acc @ vmm_back True s # map (vmm_back False) ss"
      by (simp add: vmm_install_def vmm_back_def)
    then show ?thesis using ih True by simp
  next
    case False
    then have "vs_class s = VmmResident" using vmm_class_not by blast
    then have "vmm_back False s = vmm_back True s" by (simp add: vmm_back_def)
    then show ?thesis using ih False by simp
  qed
qed simp

section \<open>Reachable storages\<close>

inductive vmm_reachable :: "vmm_manifest \<Rightarrow> vmm_storage \<Rightarrow> bool" for m where
  vmm_start: "vmm_allocate d m = Inr st \<Longrightarrow> vmm_reachable m st"
| vmm_park_call: "vmm_reachable m st \<Longrightarrow> vmm_park d st = (r, st') \<Longrightarrow> vmm_reachable m st'"
| vmm_resume_call: "vmm_reachable m st \<Longrightarrow> vmm_resume d st = (r, st') \<Longrightarrow> vmm_reachable m st'"

definition vmm_state :: "vmm_manifest \<Rightarrow> bool \<Rightarrow> vmm_storage \<Rightarrow> bool" where
  "vmm_state m up st \<longleftrightarrow> vst_segments st = map (vmm_back up) (vm_segments m) \<and>
    vst_parkable_bytes st = manifest_parkable_bytes m"

lemma vmm_no_partial: "vmm_state m up st \<Longrightarrow> \<not> list_ex vmm_partial (vst_segments st)"
  by (auto simp: vmm_state_def list_ex_iff vmm_partial_def vmm_back_def)

lemma vmm_park_state:
  assumes st: "vmm_state m up st" and run: "vmm_park d st = (r, st')" and fits: "manifest_parkable_bytes m < U64_BOUND"
  shows "case r of Inl e \<Rightarrow> st' = st | Inr n \<Rightarrow> vmm_state m False st' \<and> n = (if up then manifest_parkable_bytes m else 0)"
proof -
  have "segs_parkable (vm_segments m) = manifest_parkable_bytes m" by (simp add: segs_parkable_def manifest_parkable_bytes_def)
  then have "vmm_park_loop [] (vst_segments st) 0 =
      (Inr (if up then manifest_parkable_bytes m else 0), map (vmm_back False) (vm_segments m))"
    using vmm_park_loop_ok [of 0 "vm_segments m" "[]" up] st fits by (simp add: vmm_state_def)
  then show ?thesis
    using run vmm_no_partial [OF st] st by (auto simp: vmm_park_def vmm_state_def split: sum.splits)
qed

lemma vmm_resume_state:
  assumes st: "vmm_state m up st" and run: "vmm_resume d st = (r, st')"
  shows "case r of Inl e \<Rightarrow> st' = st | Inr n \<Rightarrow> vmm_state m True st' \<and> n = (if up then 0 else manifest_parkable_bytes m)"
proof (cases r)
  case (Inl e)
  then show ?thesis using run by (auto simp: vmm_resume_def split: sum.splits prod.splits)
next
  case (Inr n)
  obtain rs where plan: "vmm_resume_plan d (vst_base st) 0 (vst_segments st) [] 0 = Inr (rs, n)"
    and st': "st' = st\<lparr>vst_segments := fold vmm_install rs (vst_segments st)\<rparr>"
    using run Inr by (auto simp: vmm_resume_def split: sum.splits prod.splits)
  have segs: "vst_segments st = map (vmm_back up) (vm_segments m)" using st by (simp add: vmm_state_def)
  have "rs = (if up then [] else parkable_indices 0 (vm_segments m))" "n = (if up then 0 else segs_parkable (vm_segments m))"
    using vmm_resume_plan_ok [OF plan [unfolded segs]] by simp_all
  then show ?thesis
    using Inr st vmm_install_all [of "[]" "vm_segments m"]
    by (auto simp: st' vmm_state_def segs segs_parkable_def manifest_parkable_bytes_def)
qed

lemma vmm_reachable_state:
  assumes "vmm_reachable m st" and "manifest_parkable_bytes m < U64_BOUND"
  shows "\<exists>up. vmm_state m up st"
  using assms
proof induction
  case (vmm_start d st)
  then have "vmm_state m True st"
    by (auto simp: vmm_allocate_def vmm_state_def rbind_Inr_iff dest!: vmm_back_segments_ok split: if_splits)
  then show ?case ..
next
  case (vmm_park_call st d r st')
  then show ?case using vmm_park_state [of m _ st d r st'] by (fastforce split: sum.splits)
next
  case (vmm_resume_call st d r st')
  then show ?case using vmm_resume_state [of m _ st d r st'] by (fastforce split: sum.splits)
qed

lemma vmm_state_mapped:
  assumes "vmm_state m up st"
  shows "vmm_mapped_physical_bytes st + (if up then 0 else manifest_parkable_bytes m) = sum_list (map vs_bytes (vm_segments m))"
proof -
  have "sum_list (map vb_bytes (filter vb_allocation (map (vmm_back up) ss))) + (if up then 0 else segs_parkable ss) =
      sum_list (map vs_bytes ss)" for ss
    by (induction ss) (auto simp: vmm_class_not)
  moreover have "manifest_parkable_bytes m = segs_parkable (vm_segments m)" by (simp add: manifest_parkable_bytes_def segs_parkable_def)
  moreover have "vst_segments st = map (vmm_back up) (vm_segments m)" using assms by (simp add: vmm_state_def)
  ultimately show ?thesis by (simp only: vmm_mapped_physical_bytes_def)
qed

lemma vmm_built_bounds:
  assumes "vmm_build arena g resident parkable = Inr m"
  shows "sum_list (map vs_bytes (vm_segments m)) = vm_reservation_bytes m" and "manifest_parkable_bytes m \<le> vm_reservation_bytes m"
    and "vm_reservation_bytes m < U64_BOUND"
proof -
  note only = vmm_build_only [OF assms]
  obtain segs where "vmm_build arena g resident parkable = Inr \<lparr>vm_arena_bytes = arena,
      vm_reservation_bytes = div_ceil arena g * g, vm_granularity = g, vm_segments = segs\<rparr>"
    and segs: "segments_of g resident (div_ceil arena g) segs"
    using vmm_build_ok [of arena resident parkable g] only by blast
  then have m: "m = \<lparr>vm_arena_bytes = arena, vm_reservation_bytes = div_ceil arena g * g, vm_granularity = g, vm_segments = segs\<rparr>"
    using assms by simp
  show s: "sum_list (map vs_bytes (vm_segments m)) = vm_reservation_bytes m"
    using segments_tile_sum [of 0 segs] segs by (simp add: m segments_of_def)
  have "sum_list (map vs_bytes (filter Q ss)) \<le> sum_list (map vs_bytes ss)" for Q and ss :: "vmm_segment list"
    by (induction ss) auto
  then show "manifest_parkable_bytes m \<le> vm_reservation_bytes m" unfolding s [symmetric] by (simp add: manifest_parkable_bytes_def)
  have pos: "0 < g" using only is_power_of_two_pos by blast
  have "div_ceil arena g * g = (arena + (g - 1)) div g * g" by (simp only: add_pred_div_eq_div_ceil [OF pos])
  also have "\<dots> \<le> arena + (g - 1)" by (rule div_times_less_eq_dividend)
  finally show "vm_reservation_bytes m < U64_BOUND" using only by (simp add: m)
qed

text \<open>C40: Resident data is never unmapped: in every state that allocation, parking and resuming can reach,
  under any driver answers and failures, every byte of a range declared resident lies in a segment
  that is mapped and backed, at the offset the manifest gave it; and the bytes physically mapped are
  either the whole reservation or the whole reservation less the parkable bytes.\<close>

theorem vmm_resident_stays_mapped:
  assumes "vmm_build arena g resident parkable = Inr m" and "vmm_reachable m st"
  shows "(\<forall>k. (\<exists>r\<in>set resident. in_range k r) \<longrightarrow>
      (\<exists>b\<in>set (vst_segments st). vb_offset b \<le> k \<and> k < vb_offset b + vb_bytes b \<and> vb_mapping b \<and> vb_allocation b)) \<and>
    (vmm_mapped_physical_bytes st = vm_reservation_bytes m \<or>
     vmm_mapped_physical_bytes st = vm_reservation_bytes m - manifest_parkable_bytes m)"
proof -
  note b = vmm_built_bounds [OF assms(1)]
  note only = vmm_build_only [OF assms(1)]
  obtain up where up: "vmm_state m up st" using vmm_reachable_state [OF assms(2)] b by (meson le_less_trans)
  obtain segs where "vmm_build arena g resident parkable = Inr \<lparr>vm_arena_bytes = arena,
      vm_reservation_bytes = div_ceil arena g * g, vm_granularity = g, vm_segments = segs\<rparr>"
    and segs: "segments_of g resident (div_ceil arena g) segs"
    using vmm_build_ok [of arena resident parkable g] only by blast
  then have m: "m = \<lparr>vm_arena_bytes = arena, vm_reservation_bytes = div_ceil arena g * g, vm_granularity = g, vm_segments = segs\<rparr>"
    using assms(1) by simp
  have pos: "0 < g" using only is_power_of_two_pos by blast
  have "\<exists>b\<in>set (vst_segments st). vb_offset b \<le> k \<and> k < vb_offset b + vb_bytes b \<and> vb_mapping b \<and> vb_allocation b"
    if r: "r \<in> set resident" "in_range k r" for k r
  proof -
    have "snd r \<le> arena" using only r(1) by (cases r) (auto simp: ranges_valid_def)
    then have "k < arena" using r(2) by (simp add: in_range_def)
    then have "k < div_ceil arena g * g" using le_div_ceil_mult [OF pos, of arena] by linarith
    then obtain s where s: "s \<in> set segs" "in_segment k s"
      using segs segments_tile_cover [of 0 segs "div_ceil arena g * g" k] unfolding segments_of_def by blast
    have "vs_class s = VmmResident" using granule_resident [OF pos r] segs s by (auto simp: segments_of_def)
    then show ?thesis
      using s up by (intro bexI [of _ "vmm_back up s"]) (auto simp: vmm_state_def m vmm_back_def in_segment_def)
  qed
  moreover have "vmm_mapped_physical_bytes st = vm_reservation_bytes m \<or>
      vmm_mapped_physical_bytes st = vm_reservation_bytes m - manifest_parkable_bytes m"
    using vmm_state_mapped [OF up] b by (cases up) auto
  ultimately show ?thesis by blast
qed

text \<open>Parking and resuming account for every byte and are all or nothing. A refused call leaves the
  storage as it was; a successful park returns exactly the bytes it releases and leaves only the
  resident bytes mapped; a successful resume returns exactly the bytes it maps and leaves the whole
  reservation mapped.\<close>

theorem vmm_park_resume_exact:
  assumes "vmm_build arena g resident parkable = Inr m" and "vmm_reachable m st"
    and "vmm_park d st = (r, st1)" and "vmm_resume d' st = (r', st2)"
  shows "(case r of Inl e \<Rightarrow> st1 = st | Inr n \<Rightarrow> vmm_mapped_physical_bytes st1 + n = vmm_mapped_physical_bytes st \<and>
      vmm_mapped_physical_bytes st1 = vm_reservation_bytes m - vst_parkable_bytes st) \<and>
    (case r' of Inl e \<Rightarrow> st2 = st | Inr n \<Rightarrow> vmm_mapped_physical_bytes st2 = vmm_mapped_physical_bytes st + n \<and>
      vmm_mapped_physical_bytes st2 = vm_reservation_bytes m)"
proof -
  note b = vmm_built_bounds [OF assms(1)]
  have fits: "manifest_parkable_bytes m < U64_BOUND" using b by simp
  obtain up where up: "vmm_state m up st" using vmm_reachable_state [OF assms(2) fits] by blast
  have pk: "vst_parkable_bytes st = manifest_parkable_bytes m" using up by (simp add: vmm_state_def)
  have park: "case r of Inl e \<Rightarrow> st1 = st | Inr n \<Rightarrow> vmm_mapped_physical_bytes st1 + n = vmm_mapped_physical_bytes st \<and>
      vmm_mapped_physical_bytes st1 = vm_reservation_bytes m - vst_parkable_bytes st"
  proof (cases r)
    case (Inl e)
    then show ?thesis using vmm_park_state [OF up assms(3) fits] by simp
  next
    case (Inr n)
    then have "vmm_state m False st1" "n = (if up then manifest_parkable_bytes m else 0)"
      using vmm_park_state [OF up assms(3) fits] by simp_all
    then show ?thesis using Inr vmm_state_mapped [of m False st1] vmm_state_mapped [OF up] b pk by auto
  qed
  have "case r' of Inl e \<Rightarrow> st2 = st | Inr n \<Rightarrow> vmm_mapped_physical_bytes st2 = vmm_mapped_physical_bytes st + n \<and>
      vmm_mapped_physical_bytes st2 = vm_reservation_bytes m"
  proof (cases r')
    case (Inl e)
    then show ?thesis using vmm_resume_state [OF up assms(4)] by simp
  next
    case (Inr n)
    then have "vmm_state m True st2" "n = (if up then 0 else manifest_parkable_bytes m)"
      using vmm_resume_state [OF up assms(4)] by simp_all
    then show ?thesis using Inr vmm_state_mapped [of m True st2] vmm_state_mapped [OF up] b by auto
  qed
  then show ?thesis using park by blast
qed

definition demo_driver :: vmm_driver where
  "demo_driver = \<lparr>vd_fails = \<lambda>_ _. False, vd_oom = \<lambda>_. False, vd_memory = Some (100, 100), vd_granularity = 4, vd_base = 256\<rparr>"

definition demo_storage :: vmm_storage where
  "demo_storage = projr (vmm_allocate demo_driver demo_manifest)"

lemma demo_storage_reachable: "vmm_reachable demo_manifest demo_storage"
proof -
  have "is_ok (vmm_allocate demo_driver demo_manifest)" by code_simp
  then obtain st where st: "vmm_allocate demo_driver demo_manifest = Inr st" by (auto simp: is_ok_iff)
  then show ?thesis using vmm_start [OF st] by (simp add: demo_storage_def)
qed

lemma vmm_resident_stays_mapped_witness:
  "\<exists>b\<in>set (vst_segments (snd (vmm_park demo_driver demo_storage))). vb_offset b \<le> 3 \<and> 3 < vb_offset b + vb_bytes b \<and>
    vb_mapping b \<and> vb_allocation b"
proof -
  have "vmm_reachable demo_manifest (snd (vmm_park demo_driver demo_storage))"
    by (rule vmm_park_call [OF demo_storage_reachable prod.collapse [symmetric]])
  then show ?thesis using vmm_resident_stays_mapped [OF demo_manifest_built] by (auto simp: in_range_def)
qed

lemma vmm_park_resume_exact_witness:
  "vmm_mapped_physical_bytes (snd (vmm_park demo_driver demo_storage)) = 8 \<and>
    vmm_mapped_physical_bytes (snd (vmm_resume demo_driver (snd (vmm_park demo_driver demo_storage)))) = 12"
proof -
  have r: "vmm_reachable demo_manifest (snd (vmm_park demo_driver demo_storage))"
    by (rule vmm_park_call [OF demo_storage_reachable prod.collapse [symmetric]])
  have p: "vmm_park demo_driver demo_storage = (Inr 4, snd (vmm_park demo_driver demo_storage))" by code_simp
  have q: "vmm_resume demo_driver (snd (vmm_park demo_driver demo_storage)) =
      (Inr 4, snd (vmm_resume demo_driver (snd (vmm_park demo_driver demo_storage))))" by code_simp
  have "vst_parkable_bytes demo_storage = 4" by code_simp
  then have "vmm_mapped_physical_bytes (snd (vmm_park demo_driver demo_storage)) = 8"
    using vmm_park_resume_exact [where d' = demo_driver, OF demo_manifest_built demo_storage_reachable p prod.collapse [symmetric]]
    by (simp add: demo_manifest_def)
  moreover have "vmm_mapped_physical_bytes (snd (vmm_resume demo_driver (snd (vmm_park demo_driver demo_storage)))) = 12"
    using vmm_park_resume_exact [where d = demo_driver, OF demo_manifest_built r prod.collapse [symmetric] q] by (simp add: demo_manifest_def)
  ultimately show ?thesis ..
qed

end
