(* ===== verification/TransferStream.thy ===== *)
theory TransferStream
  imports ArenaProperties
begin

text \<open>
  The streaming primitives of \<open>crates/tuisko-gpu/src/streaming.rs\<close>: the pinned host pool, the transfer
  stream with its publication fence and its ring of reclaim fences, the pinned bounce ring, and the
  device slot pool with its indirection table.

  What the code does to the CUDA driver is kept as a trace: every driver call it issues and every
  write of page-locked memory is appended to \<open>dl_events\<close> in program order. The parameter \<open>fails\<close>
  decides which driver call (counted from the first) is refused; a refused call leaves no event.
  Contexts are compared by identity, as \<open>Arc\<close> contents; an allocation's base address is a parameter.
\<close>

section \<open>The driver trace\<close>

datatype fence = PublicationFence | ReclaimFence nat | BounceFence nat | TableFence nat

text \<open>Page-locked memory a copy reads: the pinned item pool, one bounce slot, one table generation.\<close>

datatype host_region = PinnedItems | BounceSlot nat | TableStaging nat

text \<open>A copy carries the bytes (or table words) its source range holds when it is enqueued.\<close>

datatype stream_event =
    BindContext
  | CopyBytes nat host_region "nat list"
  | CopyTable nat nat "nat list"
  | RecordFence fence
  | StreamWaits fence
  | ConsumerWaits fence
  | ReleaseRecorded nat nat
  | HostSyncs fence
  | HostWrites host_region
  | DrainStream

record driver_log =
  dl_calls :: nat
  dl_events :: "stream_event list"

definition issue :: "(nat \<Rightarrow> bool) \<Rightarrow> string \<Rightarrow> stream_event \<Rightarrow> driver_log \<Rightarrow> unit gpu_result \<times> driver_log" where
  "issue fails operation ev d =
    (if fails (dl_calls d) then (Inl (GpuDriverError operation), d\<lparr>dl_calls := dl_calls d + 1\<rparr>)
     else (Inr (), \<lparr>dl_calls = dl_calls d + 1, dl_events = dl_events d @ [ev]\<rparr>))"

text \<open>The driver calls of the constructors: creating streams and events, allocating, filling, binding and
  synchronizing the setup. They are counted and may be refused like any other call; they come before every
  transfer and leave no event.\<close>

type_synonym 'a driver_setup = "driver_log \<Rightarrow> 'a gpu_result \<times> driver_log"

definition setup_return :: "'a \<Rightarrow> 'a driver_setup" where
  "setup_return a = (\<lambda>d. (Inr a, d))"

definition setup_lift :: "'a gpu_result \<Rightarrow> 'a driver_setup" where
  "setup_lift r = (\<lambda>d. (r, d))"

definition setup_bind :: "'a driver_setup \<Rightarrow> ('a \<Rightarrow> 'b driver_setup) \<Rightarrow> 'b driver_setup" where
  "setup_bind m k = (\<lambda>d. case m d of (Inl e, d) \<Rightarrow> (Inl e, d) | (Inr a, d) \<Rightarrow> k a d)"

definition setup_call :: "(nat \<Rightarrow> bool) \<Rightarrow> string \<Rightarrow> unit driver_setup" where
  "setup_call fails operation = (\<lambda>d.
    (if fails (dl_calls d) then Inl (GpuDriverError operation) else Inr (), d\<lparr>dl_calls := dl_calls d + 1\<rparr>))"

text \<open>\<open>(0..n).map(..).collect::<GpuResult<Vec<_>>>()\<close>: it stops at the first refused call.\<close>

fun setup_calls :: "(nat \<Rightarrow> bool) \<Rightarrow> string list \<Rightarrow> unit driver_setup" where
  "setup_calls fails [] = setup_return ()"
| "setup_calls fails (operation # operations) = setup_bind (setup_call fails operation) (\<lambda>_. setup_calls fails operations)"

definition note_event :: "stream_event \<Rightarrow> driver_log \<Rightarrow> driver_log" where
  "note_event ev d = d\<lparr>dl_events := dl_events d @ [ev]\<rparr>"

abbreviation context_error :: "string \<Rightarrow> gpu_error" where
  "context_error m \<equiv> GpuContract GpuContext m"

definition STREAM_ALIGNMENT :: nat where "STREAM_ALIGNMENT = 256"
definition ABSENT_SLOT :: nat where "ABSENT_SLOT = 4294967295"
definition TABLE_GENERATIONS :: nat where "TABLE_GENERATIONS = 4"
definition RECLAIM_FENCE_GENERATIONS :: nat where "RECLAIM_FENCE_GENERATIONS = 4"

text \<open>\<open>usize::wrapping_add(1)\<close>\<close>

definition wrapping_inc :: "nat \<Rightarrow> nat" where
  "wrapping_inc n = (n + 1) mod U64_BOUND"

section \<open>Pinned host pool\<close>

record pinned_pool =
  pp_storage :: "nat list"
  pp_bytes :: nat
  pp_context :: nat

definition pinned_allocate :: "(nat \<Rightarrow> bool) \<Rightarrow> nat \<Rightarrow> nat \<Rightarrow> pinned_pool driver_setup" where
  "pinned_allocate fails context bytes =
    setup_bind (setup_call fails ''binding the pinned-pool CUDA context'') (\<lambda>_.
    setup_bind (setup_call fails ''allocating a pinned host pool'') (\<lambda>_.
    setup_return \<lparr>pp_storage = replicate bytes 0, pp_bytes = bytes, pp_context = context\<rparr>))"

definition pinned_write :: "nat \<Rightarrow> nat list \<Rightarrow> pinned_pool \<Rightarrow> unit gpu_result \<times> pinned_pool" where
  "pinned_write offset source p =
    (case checked_add offset (length source) of
       None \<Rightarrow> (Inl (arena_error ''pinned host pool write range overflows''), p)
     | Some end_offset \<Rightarrow>
        if end_offset > pp_bytes p then (Inl (arena_error ''pinned host pool write exceeds the pool''), p)
        else (Inr (), p\<lparr>pp_storage := list_write offset source (pp_storage p)\<rparr>))"

definition pinned_slice :: "nat \<Rightarrow> nat \<Rightarrow> pinned_pool \<Rightarrow> nat list gpu_result" where
  "pinned_slice start end_offset p =
    (if start > end_offset \<or> end_offset > pp_bytes p then Inl (arena_error ''pinned host pool range exceeds the pool'')
     else Inr (take (end_offset - start) (drop start (pp_storage p))))"

text \<open>The bytes behind the pointer that \<open>source_pointer(offset, bytes)\<close> returns.\<close>

definition pinned_source :: "nat \<Rightarrow> nat \<Rightarrow> pinned_pool \<Rightarrow> nat list gpu_result" where
  "pinned_source offset bytes p =
    (case checked_add offset bytes of
       None \<Rightarrow> Inl (arena_error ''pinned host pool upload range overflows'')
     | Some end_offset \<Rightarrow>
        if end_offset > pp_bytes p then Inl (arena_error ''pinned host pool upload exceeds the pool'')
        else Inr (take bytes (drop offset (pp_storage p))))"

section \<open>Transfer stream\<close>

record transfer_stream =
  ts_context :: nat
  ts_released :: "nat list"
  ts_recorded :: nat
  ts_published :: bool

definition transfer_new :: "(nat \<Rightarrow> bool) \<Rightarrow> nat \<Rightarrow> transfer_stream driver_setup" where
  "transfer_new fails context =
    setup_bind (setup_call fails ''creating the slot transfer stream'') (\<lambda>_.
    setup_bind (setup_call fails ''creating the publication fence event'') (\<lambda>_.
    setup_bind (setup_calls fails (replicate RECLAIM_FENCE_GENERATIONS ''creating a reclaim fence event'')) (\<lambda>_.
    setup_return \<lparr>ts_context = context, ts_released = replicate RECLAIM_FENCE_GENERATIONS 0,
      ts_recorded = 0, ts_published = False\<rparr>)))"

definition live_reclaims :: "transfer_stream \<Rightarrow> nat" where
  "live_reclaims ts = min (ts_recorded ts) RECLAIM_FENCE_GENERATIONS"

definition reclaim_index :: "transfer_stream \<Rightarrow> nat \<Rightarrow> nat" where
  "reclaim_index ts age = (ts_recorded ts - live_reclaims ts + age) mod RECLAIM_FENCE_GENERATIONS"

definition newest_released :: "transfer_stream \<Rightarrow> nat option" where
  "newest_released ts =
    (if live_reclaims ts > 0 then Some (ts_released ts ! reclaim_index ts (live_reclaims ts - 1)) else None)"

definition record_publication ::
  "(nat \<Rightarrow> bool) \<Rightarrow> transfer_stream \<Rightarrow> driver_log \<Rightarrow> unit gpu_result \<times> transfer_stream \<times> driver_log" where
  "record_publication fails ts d =
    (case issue fails ''recording the publication fence'' (RecordFence PublicationFence) d of
       (Inl e, d) \<Rightarrow> (Inl e, ts, d)
     | (Inr _, d) \<Rightarrow> (Inr (), ts\<lparr>ts_published := True\<rparr>, d))"

definition wait_publication ::
  "(nat \<Rightarrow> bool) \<Rightarrow> nat \<Rightarrow> transfer_stream \<Rightarrow> driver_log \<Rightarrow> unit gpu_result \<times> driver_log" where
  "wait_publication fails consumer_context ts d =
    (if \<not> ts_published ts then (Inr (), d)
     else if consumer_context \<noteq> ts_context ts
     then (Inl (context_error ''transfer stream and consumer stream belong to different contexts''), d)
     else issue fails ''waiting on the publication fence'' (ConsumerWaits PublicationFence) d)"

definition stall_for_publication ::
  "(nat \<Rightarrow> bool) \<Rightarrow> transfer_stream \<Rightarrow> driver_log \<Rightarrow> unit gpu_result \<times> driver_log" where
  "stall_for_publication fails ts d =
    (if \<not> ts_published ts then (Inr (), d)
     else issue fails ''stalling on the publication fence'' (HostSyncs PublicationFence) d)"

definition record_reclaim ::
  "(nat \<Rightarrow> bool) \<Rightarrow> nat \<Rightarrow> nat \<Rightarrow> transfer_stream \<Rightarrow> driver_log \<Rightarrow> unit gpu_result \<times> transfer_stream \<times> driver_log" where
  "record_reclaim fails consumer_context generation ts d =
    (if consumer_context \<noteq> ts_context ts
     then (Inl (context_error ''transfer stream and consumer stream belong to different contexts''), ts, d)
     else if (case newest_released ts of Some newest \<Rightarrow> generation < newest | None \<Rightarrow> False)
     then (Inl (arena_error ''reclaim fence follows a later release''), ts, d)
     else
       let index = ts_recorded ts mod RECLAIM_FENCE_GENERATIONS in
       (case issue fails ''recording a reclaim fence'' (ReleaseRecorded index generation) d of
          (Inl e, d) \<Rightarrow> (Inl e, ts, d)
        | (Inr _, d) \<Rightarrow>
           (Inr (), ts\<lparr>ts_released := (ts_released ts)[index := generation],
              ts_recorded := wrapping_inc (ts_recorded ts)\<rparr>, d)))"

definition wait_reclaim ::
  "(nat \<Rightarrow> bool) \<Rightarrow> nat \<Rightarrow> transfer_stream \<Rightarrow> driver_log \<Rightarrow> unit gpu_result \<times> driver_log" where
  "wait_reclaim fails generation ts d =
    (if generation = 0 then (Inr (), d)
     else
       let live = live_reclaims ts in
       if live = 0 then (Inl (arena_error ''reclaim generation has no recorded release''), d)
       else if generation > ts_released ts ! reclaim_index ts (live - 1)
       then (Inl (arena_error ''reclaim generation exceeds latest release''), d)
       else (case find (\<lambda>index. ts_released ts ! index \<ge> generation) (map (reclaim_index ts) [0..<live]) of
         None \<Rightarrow> (Inl GpuPanicked, d)
       | Some index \<Rightarrow> issue fails ''waiting on a reclaim fence'' (StreamWaits (ReclaimFence index)) d))"

definition wait_all_reclaims ::
  "(nat \<Rightarrow> bool) \<Rightarrow> transfer_stream \<Rightarrow> driver_log \<Rightarrow> unit gpu_result \<times> driver_log" where
  "wait_all_reclaims fails ts d =
    (let live = live_reclaims ts in
     if live = 0 then (Inr (), d)
     else issue fails ''waiting on every reclaim fence'' (StreamWaits (ReclaimFence (reclaim_index ts (live - 1)))) d)"

definition transfer_synchronize :: "(nat \<Rightarrow> bool) \<Rightarrow> driver_log \<Rightarrow> unit gpu_result \<times> driver_log" where
  "transfer_synchronize fails d = issue fails ''synchronizing the slot transfer stream'' DrainStream d"

text \<open>\<open>copy\<close> is the copy event of \<open>bytes\<close> bytes.\<close>

definition enqueue_upload ::
  "(nat \<Rightarrow> bool) \<Rightarrow> stream_event \<Rightarrow> nat \<Rightarrow> driver_log \<Rightarrow> unit gpu_result \<times> driver_log" where
  "enqueue_upload fails copy bytes d =
    (if bytes = 0 then (Inr (), d)
     else case issue fails ''binding the transfer CUDA context'' BindContext d of
       (Inl e, d) \<Rightarrow> (Inl e, d)
     | (Inr _, d) \<Rightarrow> issue fails ''enqueueing a slot upload'' copy d)"

section \<open>Pinned bounce ring\<close>

record bounce_ring =
  br_storage :: pinned_pool
  br_fenced :: "bool list"
  br_slot_count :: nat
  br_slot_bytes :: nat
  br_cursor :: nat
  br_waits :: nat

definition bounce_allocate :: "(nat \<Rightarrow> bool) \<Rightarrow> nat \<Rightarrow> nat \<Rightarrow> nat \<Rightarrow> bounce_ring driver_setup" where
  "bounce_allocate fails context slot_count slot_bytes =
    (if slot_count = 0 \<or> slot_bytes = 0
     then setup_lift (Inl (arena_error ''a pinned bounce ring needs a nonzero slot count and slot size''))
     else if slot_bytes mod STREAM_ALIGNMENT \<noteq> 0 then setup_lift (Inl (arena_error ''bounce slot extent is not aligned''))
     else case checked_mul slot_count slot_bytes of
       None \<Rightarrow> setup_lift (Inl (arena_error ''pinned bounce ring byte count overflows''))
     | Some bytes \<Rightarrow>
        setup_bind (pinned_allocate fails context bytes) (\<lambda>storage.
        setup_bind (setup_calls fails (replicate slot_count ''creating a bounce-ring upload fence'')) (\<lambda>_.
        setup_return \<lparr>br_storage = storage, br_fenced = replicate slot_count False,
          br_slot_count = slot_count, br_slot_bytes = slot_bytes, br_cursor = 0, br_waits = 0\<rparr>)))"

definition bounce_byte_len :: "bounce_ring \<Rightarrow> nat" where
  "bounce_byte_len br = br_slot_count br * br_slot_bytes br"

text \<open>The wraparound wait of \<open>upload\<close>.\<close>

definition bounce_wait ::
  "(nat \<Rightarrow> bool) \<Rightarrow> nat \<Rightarrow> bounce_ring \<Rightarrow> driver_log \<Rightarrow> unit gpu_result \<times> bounce_ring \<times> driver_log" where
  "bounce_wait fails slot br d =
    (if br_fenced br ! slot
     then (case issue fails ''waiting on a bounce-ring upload fence'' (HostSyncs (BounceFence slot)) d of
        (Inl e, d) \<Rightarrow> (Inl e, br, d)
      | (Inr _, d) \<Rightarrow> (Inr (), br\<lparr>br_waits := wrapping_inc (br_waits br)\<rparr>, d))
     else (Inr (), br, d))"

definition bounce_upload ::
  "(nat \<Rightarrow> bool) \<Rightarrow> transfer_stream \<Rightarrow> nat \<Rightarrow> nat list \<Rightarrow> bounce_ring \<Rightarrow> driver_log \<Rightarrow>
   unit gpu_result \<times> bounce_ring \<times> driver_log" where
  "bounce_upload fails ts destination source br d =
    (if source = [] \<or> length source > br_slot_bytes br
     then (Inl (arena_error ''bounce ring staged a source of the wrong size''), br, d)
     else if pp_context (br_storage br) \<noteq> ts_context ts
     then (Inl (context_error ''bounce ring and transfer stream belong to different contexts''), br, d)
     else
       let slot = br_cursor br mod br_slot_count br in
       (case bounce_wait fails slot br d of
          (Inl e, br, d) \<Rightarrow> (Inl e, br, d)
        | (Inr _, br, d) \<Rightarrow>
           let offset = slot * br_slot_bytes br in
           (case pinned_write offset source (br_storage br) of
              (Inl e, storage) \<Rightarrow> (Inl e, br\<lparr>br_storage := storage\<rparr>, d)
            | (Inr _, storage) \<Rightarrow>
               let br = br\<lparr>br_storage := storage\<rparr>; d = note_event (HostWrites (BounceSlot slot)) d in
               (case pinned_source offset (length source) storage of
                  Inl e \<Rightarrow> (Inl e, br, d)
                | Inr bytes \<Rightarrow>
                   (case enqueue_upload fails (CopyBytes destination (BounceSlot slot) bytes) (length source) d of
                      (Inl e, d) \<Rightarrow> (Inl e, br, d)
                    | (Inr _, d) \<Rightarrow>
                       (case issue fails ''recording a bounce-ring upload fence'' (RecordFence (BounceFence slot)) d of
                          (Inl e, d) \<Rightarrow> (Inl e, br, d)
                        | (Inr _, d) \<Rightarrow>
                           (Inr (), br\<lparr>br_fenced := (br_fenced br)[slot := True],
                              br_cursor := wrapping_inc (br_cursor br)\<rparr>, d)))))))"

section \<open>Device slot pool\<close>

record slot_pool =
  dp_arena :: device_arena
  dp_staging :: "nat list"
  dp_staged :: "bool list"
  dp_generation :: nat
  dp_slots :: arena_region
  dp_table :: arena_region
  dp_item_count :: nat
  dp_slot_count :: nat
  dp_slot_bytes :: nat
  dp_context :: nat

text \<open>\<open>DeviceArena::zeroed\<close> and \<open>DeviceArena::fill\<close>. \<open>base\<close> is the address of the zeroed device allocation; the
  streams belong to the context of the arena.\<close>

definition arena_zeroed :: "(nat \<Rightarrow> bool) \<Rightarrow> nat \<Rightarrow> arena_layout \<Rightarrow> device_arena driver_setup" where
  "arena_zeroed fails base al =
    setup_bind (setup_call fails ''binding the arena CUDA context'') (\<lambda>_.
    setup_bind (setup_call fails ''allocating a zeroed device arena'') (\<lambda>_.
    setup_bind (setup_lift (layout_require_base_alignment base al)) (\<lambda>_.
    setup_bind (setup_call fails ''synchronizing device arena zeroing'') (\<lambda>_.
    setup_return \<lparr>da_base = base, da_bytes = al_cursor al\<rparr>))))"

definition arena_fill :: "(nat \<Rightarrow> bool) \<Rightarrow> nat \<Rightarrow> arena_region \<Rightarrow> device_arena \<Rightarrow> unit driver_setup" where
  "arena_fill fails elem_align region da =
    setup_bind (setup_lift (arena_address da elem_align region)) (\<lambda>_.
      if ar_bytes region = 0 then setup_return ()
      else
        setup_bind (setup_call fails ''binding the arena CUDA context'') (\<lambda>_.
        setup_call fails ''filling a device arena region''))"

text \<open>The checks and the layout of \<open>DeviceSlotPool::new\<close>: the layout, its two regions and the staging entries.\<close>

definition slot_pool_plan ::
  "nat \<Rightarrow> nat \<Rightarrow> nat \<Rightarrow> (arena_layout \<times> arena_region \<times> arena_region \<times> nat) gpu_result" where
  "slot_pool_plan item_count slot_count slot_bytes =
    (if item_count = 0 \<or> slot_count = 0 \<or> slot_bytes = 0
     then Inl (arena_error ''a device slot pool needs a nonzero item count, slot count, and slot size'')
     else if slot_count > item_count then Inl (arena_error ''device slot pool has more slots than items'')
     else if slot_count \<ge> U32_BOUND \<or> slot_count = ABSENT_SLOT
     then Inl (arena_error ''device slot pool collides with the absent sentinel'')
     else if slot_bytes mod STREAM_ALIGNMENT \<noteq> 0 then Inl (arena_error ''slot extent is not aligned'')
     else case checked_mul slot_count slot_bytes of
       None \<Rightarrow> Inl (arena_error ''device slot region byte count overflows'')
     | Some slot_region_bytes \<Rightarrow>
        (case checked_mul item_count TABLE_GENERATIONS of
           None \<Rightarrow> Inl (arena_error ''indirection-table staging count overflows'')
         | Some staging_entries \<Rightarrow>
            (case layout_reserve 1 1 slot_region_bytes STREAM_ALIGNMENT layout_new of
               (Inl e, al) \<Rightarrow> Inl e
             | (Inr slots, al) \<Rightarrow>
                (case layout_reserve 4 4 item_count STREAM_ALIGNMENT al of
                   (Inl e, al) \<Rightarrow> Inl e
                 | (Inr table, al) \<Rightarrow> Inr (al, slots, table, staging_entries)))))"

definition slot_pool_new :: "(nat \<Rightarrow> bool) \<Rightarrow> nat \<Rightarrow> nat \<Rightarrow> nat \<Rightarrow> nat \<Rightarrow> nat \<Rightarrow> slot_pool driver_setup" where
  "slot_pool_new fails context base item_count slot_count slot_bytes =
    setup_bind (setup_lift (slot_pool_plan item_count slot_count slot_bytes)) (\<lambda>(al, slots, table, staging_entries).
    setup_bind (setup_call fails ''creating the slot-pool setup stream'') (\<lambda>_.
    setup_bind (arena_zeroed fails base al) (\<lambda>arena.
    setup_bind (arena_fill fails 4 table arena) (\<lambda>_.
    setup_bind (setup_call fails ''allocating the indirection-table staging ring'') (\<lambda>_.
    setup_bind (setup_calls fails (replicate TABLE_GENERATIONS ''creating an indirection-table generation fence'')) (\<lambda>_.
    setup_bind (setup_call fails ''synchronizing slot-pool initialization'') (\<lambda>_.
    setup_return \<lparr>dp_arena = arena, dp_staging = replicate staging_entries 0,
      dp_staged = replicate TABLE_GENERATIONS False, dp_generation = 0, dp_slots = slots, dp_table = table,
      dp_item_count = item_count, dp_slot_count = slot_count, dp_slot_bytes = slot_bytes, dp_context = context\<rparr>)))))))"

definition dp_device_bytes :: "slot_pool \<Rightarrow> nat" where
  "dp_device_bytes dp = da_bytes (dp_arena dp)"

definition dp_staging_bytes :: "slot_pool \<Rightarrow> nat" where
  "dp_staging_bytes dp = length (dp_staging dp) * 4"

definition dp_table_address :: "slot_pool \<Rightarrow> nat gpu_result" where
  "dp_table_address dp = arena_address (dp_arena dp) 4 (dp_table dp)"

definition dp_require_slot :: "slot_pool \<Rightarrow> nat \<Rightarrow> unit gpu_result" where
  "dp_require_slot dp slot = (if slot \<ge> dp_slot_count dp then Inl (arena_error ''slot is outside the pool'') else Inr ())"

definition dp_require_context :: "slot_pool \<Rightarrow> nat \<Rightarrow> unit gpu_result" where
  "dp_require_context dp other =
    (if other \<noteq> dp_context dp then Inl (context_error ''the operation requires one shared CUDA context'') else Inr ())"

definition dp_slot_address :: "slot_pool \<Rightarrow> nat \<Rightarrow> nat gpu_result" where
  "dp_slot_address dp slot =
    rbind (dp_require_slot dp slot) (\<lambda>_.
      case checked_mul slot (dp_slot_bytes dp) of
        None \<Rightarrow> Inl (arena_error ''slot device offset overflows'')
      | Some offset \<Rightarrow>
         rbind (arena_address (dp_arena dp) 1 (dp_slots dp)) (\<lambda>base.
           ok_or (checked_add base offset) (arena_error ''slot device address overflows'')))"

definition enqueue_slot_extent_upload ::
  "(nat \<Rightarrow> bool) \<Rightarrow> transfer_stream \<Rightarrow> nat \<Rightarrow> nat \<Rightarrow> pinned_pool \<Rightarrow> nat \<Rightarrow> nat \<Rightarrow> slot_pool \<Rightarrow> driver_log \<Rightarrow>
   unit gpu_result \<times> driver_log" where
  "enqueue_slot_extent_upload fails ts slot slot_offset source source_offset bytes dp d =
    (case rbind (dp_require_slot dp slot) (\<lambda>_.
          rbind (dp_require_context dp (pp_context source)) (\<lambda>_.
          rbind (dp_require_context dp (ts_context ts)) (\<lambda>_.
            case checked_add slot_offset bytes of
              None \<Rightarrow> Inl (arena_error ''slot upload range overflows'')
            | Some end_offset \<Rightarrow>
               if end_offset > dp_slot_bytes dp then Inl (arena_error ''slot upload exceeds a slot extent'')
               else rbind (dp_slot_address dp slot) (\<lambda>address.
                 rbind (ok_or (checked_add address slot_offset) (arena_error ''slot device address overflows'')) (\<lambda>destination.
                   rbind (pinned_source source_offset bytes source) (\<lambda>data. Inr (destination, data))))))) of
       Inl e \<Rightarrow> (Inl e, d)
     | Inr (destination, data) \<Rightarrow> enqueue_upload fails (CopyBytes destination PinnedItems data) bytes d)"

definition enqueue_slot_upload ::
  "(nat \<Rightarrow> bool) \<Rightarrow> transfer_stream \<Rightarrow> nat \<Rightarrow> pinned_pool \<Rightarrow> nat \<Rightarrow> slot_pool \<Rightarrow> driver_log \<Rightarrow>
   unit gpu_result \<times> driver_log" where
  "enqueue_slot_upload fails ts slot source source_offset dp d =
    enqueue_slot_extent_upload fails ts slot 0 source source_offset (dp_slot_bytes dp) dp d"

definition publish_table ::
  "(nat \<Rightarrow> bool) \<Rightarrow> transfer_stream \<Rightarrow> nat list \<Rightarrow> slot_pool \<Rightarrow> driver_log \<Rightarrow>
   unit gpu_result \<times> slot_pool \<times> driver_log" where
  "publish_table fails ts table dp d =
    (if length table \<noteq> dp_item_count dp then (Inl (arena_error ''indirection table has the wrong number of entries''), dp, d)
     else case dp_require_context dp (ts_context ts) of
       Inl e \<Rightarrow> (Inl e, dp, d)
     | Inr _ \<Rightarrow>
        if list_ex (\<lambda>slot. slot \<noteq> ABSENT_SLOT \<and> slot \<ge> dp_slot_count dp) table
        then (Inl (arena_error ''indirection table names a slot outside the pool''), dp, d)
        else
          let generation = dp_generation dp mod TABLE_GENERATIONS in
          (case (if dp_staged dp ! generation
                 then issue fails ''waiting on an indirection-table generation fence'' (HostSyncs (TableFence generation)) d
                 else (Inr (), d)) of
             (Inl e, d) \<Rightarrow> (Inl e, dp, d)
           | (Inr _, d) \<Rightarrow>
              let dp = dp\<lparr>dp_staging := list_write (generation * dp_item_count dp) table (dp_staging dp)\<rparr>;
                  d = note_event (HostWrites (TableStaging generation)) d
              in (case dp_table_address dp of
                    Inl e \<Rightarrow> (Inl e, dp, d)
                  | Inr destination \<Rightarrow>
                     (case enqueue_upload fails (CopyTable destination generation table) (ar_bytes (dp_table dp)) d of
                        (Inl e, d) \<Rightarrow> (Inl e, dp, d)
                      | (Inr _, d) \<Rightarrow>
                         (case issue fails ''recording an indirection-table generation fence''
                                 (RecordFence (TableFence generation)) d of
                            (Inl e, d) \<Rightarrow> (Inl e, dp, d)
                          | (Inr _, d) \<Rightarrow>
                             (Inr (), dp\<lparr>dp_staged := (dp_staged dp)[generation := True],
                                dp_generation := wrapping_inc (dp_generation dp)\<rparr>, d))))))"

end
