(* ===== verification/EngineMath.thy ===== *)
theory EngineMath
  imports Prelude
begin

text \<open>
  The checked layout arithmetic every memory plan of the engine uses
  (\<open>crates/tuisko-engine/src/common/math.rs\<close>): an overflow is a layout error that names the quantity.
\<close>

definition overflows :: "string \<Rightarrow> engine_error" where
  "overflows name = layout_error (name @ '' overflows'')"

definition product :: "string \<Rightarrow> nat \<Rightarrow> nat \<Rightarrow> nat engine_result" where
  "product name left right = ok_or (checked_mul left right) (overflows name)"

definition checked_product :: "string \<Rightarrow> nat \<Rightarrow> nat \<Rightarrow> nat engine_result" where
  "checked_product name left right = ok_or (checked_mul left right) (overflows name)"

definition checked_sum :: "string \<Rightarrow> nat \<Rightarrow> nat \<Rightarrow> nat engine_result" where
  "checked_sum name left right = ok_or (checked_add left right) (overflows name)"

text \<open>\<open>Iterator::try_fold\<close> from a running total\<close>

fun sum_from :: "string \<Rightarrow> nat \<Rightarrow> nat list \<Rightarrow> nat engine_result" where
  "sum_from name total_value [] = Inr total_value"
| "sum_from name total_value (value # values) =
    rbind (ok_or (checked_add total_value value) (overflows name)) (\<lambda>t. sum_from name t values)"

definition layout_sum :: "string \<Rightarrow> nat list \<Rightarrow> nat engine_result" where
  "layout_sum name values = sum_from name 0 values"

fun sum_products_from :: "string \<Rightarrow> nat \<Rightarrow> (nat \<times> nat) list \<Rightarrow> nat engine_result" where
  "sum_products_from name total_value [] = Inr total_value"
| "sum_products_from name total_value ((count, bytes) # terms) =
    rbind (product name count bytes) (\<lambda>p. rbind (checked_sum name total_value p) (\<lambda>t. sum_products_from name t terms))"

definition sum_products :: "string \<Rightarrow> (nat \<times> nat) list \<Rightarrow> nat engine_result" where
  "sum_products name terms = sum_products_from name 0 terms"

fun le_words :: "nat list \<Rightarrow> nat list" where
  "le_words (a # b # bytes) = (a + 256 * b) # le_words bytes"
| "le_words bytes = []"

definition little_endian_words :: "nat list \<Rightarrow> nat list engine_result" where
  "little_endian_words bytes =
    (if length bytes mod 2 \<noteq> 0 then Inl (layout_error ''BF16 source plane has an odd byte length'')
     else Inr (le_words bytes))"

text \<open>\<open>usize::checked_next_multiple_of\<close>\<close>

definition checked_next_multiple_of :: "nat \<Rightarrow> nat \<Rightarrow> nat option" where
  "checked_next_multiple_of a b =
    (if b = 0 then None else if a mod b = 0 then Some a else checked_add a (b - a mod b))"

lemma product_Inr_iff: "product name a b = Inr c \<longleftrightarrow> c = a * b \<and> a * b < U64_BOUND"
  by (simp add: product_def ok_or_Inr_iff checked_mul_Some_iff)

lemma checked_sum_Inr_iff: "checked_sum name a b = Inr c \<longleftrightarrow> c = a + b \<and> a + b < U64_BOUND"
  by (simp add: checked_sum_def ok_or_Inr_iff checked_add_Some_iff)

lemma checked_next_multiple_of_Some:
  "checked_next_multiple_of a b = Some c \<Longrightarrow> 0 < b \<and> b dvd c \<and> a \<le> c \<and> c < a + b \<and> (a < U64_BOUND \<longrightarrow> c < U64_BOUND) \<and> c = div_ceil a b * b"
proof -
  assume run: "checked_next_multiple_of a b = Some c"
  then have b: "0 < b" by (auto simp: checked_next_multiple_of_def split: if_splits)
  show ?thesis
  proof (cases "a mod b = 0")
    case True
    then have "c = a" using run b by (simp add: checked_next_multiple_of_def)
    then show ?thesis using True b by (auto simp: div_ceil_def dvd_eq_mod_eq_0)
  next
    case False
    then have c: "c = a + (b - a mod b)" "c < U64_BOUND"
      using run b by (auto simp: checked_next_multiple_of_def checked_add_Some_iff)
    have m: "a mod b < b" using b by simp
    have "a = a div b * b + a mod b" by simp
    then have "c = a div b * b + b" using c(1) m by linarith
    then have eq: "c = (a div b + 1) * b" by simp
    have d: "div_ceil a b = a div b + 1" using False by (simp add: div_ceil_def)
    have "0 < a mod b" using False by simp
    then have "a \<le> c" "c < a + b" using c(1) m by linarith+
    then show ?thesis using b c(2) eq d by simp
  qed
qed

lemma sum_from_Inr_iff: "total_value < U64_BOUND \<Longrightarrow> sum_from name total_value xs = Inr c \<longleftrightarrow> c = total_value + sum_list xs \<and> c < U64_BOUND"
  by (induction xs arbitrary: total_value) (auto simp: rbind_Inr_iff ok_or_Inr_iff checked_add_Some_iff)

lemma layout_sum_Inr_iff: "layout_sum name xs = Inr c \<longleftrightarrow> c = sum_list xs \<and> c < U64_BOUND"
  by (simp add: layout_sum_def sum_from_Inr_iff U64_BOUND_def)

lemma sum_products_from_Inr_iff:
  "total_value < U64_BOUND \<Longrightarrow> sum_products_from name total_value xs = Inr c \<longleftrightarrow>
    c = total_value + sum_list (map (\<lambda>(n, b). n * b) xs) \<and> c < U64_BOUND"
proof (induction xs arbitrary: total_value)
  case (Cons x xs)
  then show ?case by (cases x) (auto simp: rbind_Inr_iff product_Inr_iff checked_sum_Inr_iff)
qed auto

lemma sum_products_Inr_iff: "sum_products name xs = Inr c \<longleftrightarrow> c = sum_list (map (\<lambda>(n, b). n * b) xs) \<and> c < U64_BOUND"
  by (simp add: sum_products_def sum_products_from_Inr_iff U64_BOUND_def)

end
