(* ===== verification/StreamPool.thy ===== *)
theory StreamPool
  imports StreamProperties TransferStream EngineMath
begin

text \<open>
  The streaming-resident weight pool of \<open>crates/tuisko-engine/src/common/streaming.rs\<close>: its byte plan
  (\<open>StreamingWeightLayout\<close>) and the owner that composes the slot cache, the pinned host pool, the
  bounce ring, the device slots and the transfer stream (\<open>StreamingWeightPool\<close>). The borrowed mapping
  is the function \<open>sp_mapped\<close> from items to their primary extents.
\<close>

section \<open>Byte plan\<close>

datatype primary_source = PinnedPrimary | MappedPrimary

record stream_layout =
  sl_item_count :: nat
  sl_primary_extent_bytes :: nat
  sl_secondary_extent_bytes :: nat
  sl_stride_bytes :: nat
  sl_slot_count :: nat
  sl_slot_region_bytes :: nat
  sl_table_bytes :: nat
  sl_table_staging_bytes :: nat
  sl_device_bytes :: nat
  sl_host_pool_bytes :: nat
  sl_host_stride_bytes :: nat
  sl_primary_source :: primary_source
  sl_bounce_slot_count :: nat
  sl_bounce_slot_bytes :: nat
  sl_bounce_ring_bytes :: nat
  sl_host_pinned_bytes :: nat
  sl_host_mapped_bytes :: nat

definition layout_plan ::
  "nat \<Rightarrow> nat \<Rightarrow> nat option \<Rightarrow> nat \<Rightarrow> primary_source \<Rightarrow> nat \<Rightarrow> stream_layout engine_result" where
  "layout_plan item_count primary secondary_option slot_count source bounce_slot_count =
    (if item_count = 0 then Inl (layout_error ''a streaming weight pool needs at least one item'')
     else if primary = 0 then Inl (layout_error ''a streaming weight item needs a nonzero primary extent'')
     else if slot_count = 0 \<or> slot_count > item_count
     then Inl (layout_error ''streaming slot budget is outside 1..=item_count'')
     else
       let secondary = (case secondary_option of None \<Rightarrow> 0 | Some n \<Rightarrow> n) in
       rbind (checked_sum ''streaming item extent'' primary secondary) (\<lambda>extent.
       rbind (ok_or (checked_next_multiple_of extent STREAM_ALIGNMENT) (layout_error ''streaming item stride overflows'')) (\<lambda>stride.
       rbind (product ''streaming slot region'' slot_count stride) (\<lambda>slot_region.
       rbind (product ''streaming indirection table'' item_count 4) (\<lambda>table.
       rbind (product ''streaming table staging'' table TABLE_GENERATIONS) (\<lambda>staging.
       rbind (checked_sum ''streaming device bytes'' slot_region table) (\<lambda>device.
       rbind (if source = PinnedPrimary then Inr stride
              else ok_or (checked_next_multiple_of secondary STREAM_ALIGNMENT)
                     (layout_error ''streaming pinned item stride overflows'')) (\<lambda>host_stride.
       rbind (product ''streaming host pool'' item_count host_stride) (\<lambda>host_pool.
       rbind (if source = PinnedPrimary then Inr (0, 0, 0)
              else rbind (ok_or (checked_next_multiple_of primary STREAM_ALIGNMENT)
                            (layout_error ''streaming bounce slot overflows'')) (\<lambda>slot.
                   rbind (product ''streaming bounce ring'' bounce_slot_count slot) (\<lambda>ring.
                   rbind (product ''streaming mapped pool'' item_count primary) (\<lambda>mapped.
                     Inr (slot, ring, mapped))))) (\<lambda>(bounce_slot, bounce_ring, host_mapped).
       rbind (checked_sum ''streaming pooled and table bytes'' host_pool staging) (\<lambda>pooled.
       rbind (checked_sum ''streaming pinned host bytes'' pooled bounce_ring) (\<lambda>host_pinned.
         Inr \<lparr>sl_item_count = item_count, sl_primary_extent_bytes = primary, sl_secondary_extent_bytes = secondary,
           sl_stride_bytes = stride, sl_slot_count = slot_count, sl_slot_region_bytes = slot_region,
           sl_table_bytes = table, sl_table_staging_bytes = staging, sl_device_bytes = device,
           sl_host_pool_bytes = host_pool, sl_host_stride_bytes = host_stride, sl_primary_source = source,
           sl_bounce_slot_count = bounce_slot_count, sl_bounce_slot_bytes = bounce_slot,
           sl_bounce_ring_bytes = bounce_ring, sl_host_pinned_bytes = host_pinned,
           sl_host_mapped_bytes = host_mapped\<rparr>))))))))))))"

definition layout_build :: "nat \<Rightarrow> nat \<Rightarrow> nat option \<Rightarrow> nat \<Rightarrow> stream_layout engine_result" where
  "layout_build item_count primary secondary slot_count = layout_plan item_count primary secondary slot_count PinnedPrimary 0"

definition layout_build_mapped_primary ::
  "nat \<Rightarrow> nat \<Rightarrow> nat option \<Rightarrow> nat \<Rightarrow> nat \<Rightarrow> stream_layout engine_result" where
  "layout_build_mapped_primary item_count primary secondary slot_count bounce_slot_count =
    (if bounce_slot_count = 0 then Inl (layout_error ''a mapped-primary streaming pool needs at least one bounce slot'')
     else layout_plan item_count primary secondary slot_count MappedPrimary bounce_slot_count)"

definition sl_extent_bytes :: "stream_layout \<Rightarrow> nat" where
  "sl_extent_bytes l = sl_primary_extent_bytes l + sl_secondary_extent_bytes l"

definition sl_host_extent_bytes :: "stream_layout \<Rightarrow> nat" where
  "sl_host_extent_bytes l = (if sl_primary_source l = PinnedPrimary then sl_extent_bytes l else sl_secondary_extent_bytes l)"

definition require_measured_allocations :: "stream_layout \<Rightarrow> nat \<Rightarrow> nat \<Rightarrow> nat \<Rightarrow> unit engine_result" where
  "require_measured_allocations l device staging bounce =
    (if device \<noteq> sl_device_bytes l \<or> staging \<noteq> sl_table_staging_bytes l \<or> bounce \<noteq> sl_bounce_ring_bytes l
     then Inl (layout_error ''streaming pool allocated other bytes than its plan'') else Inr ())"

definition sl_item_offset :: "stream_layout \<Rightarrow> nat \<Rightarrow> nat engine_result" where
  "sl_item_offset l item =
    (if item \<ge> sl_item_count l then Inl (route_error ''streaming item is outside 0..item_count'')
     else product ''streaming item offset'' item (sl_host_stride_bytes l))"

section \<open>The pool\<close>

record stream_pool =
  sp_transfer :: transfer_stream
  sp_bounce :: "bounce_ring option"
  sp_slots :: slot_pool
  sp_host :: pinned_pool
  sp_mapped :: "(nat \<Rightarrow> nat list engine_result) option"
  sp_cache :: slot_cache
  sp_assignments :: "slot_assignment list"
  sp_layout :: stream_layout
  sp_staged :: "bool list"
  sp_uploaded_bytes :: nat
  sp_poisoned :: "string option"
  sp_log :: driver_log

text \<open>\<open>?\<close> on a \<open>GpuResult\<close>\<close>

definition lift_gpu :: "'a gpu_result \<Rightarrow> 'a engine_result" where
  "lift_gpu r = (case r of Inl e \<Rightarrow> Inl (Gpu e) | Inr a \<Rightarrow> Inr a)"

text \<open>The four parts that \<open>allocate\<close> takes from the driver, in its order.\<close>

definition pool_setup ::
  "(nat \<Rightarrow> bool) \<Rightarrow> nat \<Rightarrow> nat \<Rightarrow> stream_layout \<Rightarrow> (transfer_stream \<times> bounce_ring option \<times> slot_pool \<times> pinned_pool) driver_setup" where
  "pool_setup fails context base l =
    setup_bind (transfer_new fails context) (\<lambda>transfer.
    setup_bind (if sl_primary_source l = PinnedPrimary then setup_return None
                else setup_bind (bounce_allocate fails context (sl_bounce_slot_count l) (sl_bounce_slot_bytes l)) (\<lambda>b.
                  setup_return (Some b))) (\<lambda>bounce.
    setup_bind (slot_pool_new fails context base (sl_item_count l) (sl_slot_count l) (sl_stride_bytes l)) (\<lambda>slots.
    setup_bind (pinned_allocate fails context (sl_host_pool_bytes l)) (\<lambda>host.
    setup_return (transfer, bounce, slots, host)))))"

text \<open>\<open>fails\<close> counts the driver calls from the first call of the construction.\<close>

definition pool_allocate ::
  "(nat \<Rightarrow> bool) \<Rightarrow> nat \<Rightarrow> nat \<Rightarrow> stream_layout \<Rightarrow> (nat \<Rightarrow> nat list engine_result) option \<Rightarrow> stream_pool engine_result" where
  "pool_allocate fails context base l mapped =
    (case pool_setup fails context base l \<lparr>dl_calls = 0, dl_events = []\<rparr> of
       (Inl e, d) \<Rightarrow> Inl (Gpu e)
     | (Inr (transfer, bounce, slots, host), d) \<Rightarrow>
        rbind (cache_new (sl_item_count l) (sl_slot_count l)) (\<lambda>cache.
        rbind (require_measured_allocations l (dp_device_bytes slots) (dp_staging_bytes slots)
                 (case bounce of None \<Rightarrow> 0 | Some b \<Rightarrow> bounce_byte_len b)) (\<lambda>_.
          Inr \<lparr>sp_transfer = transfer, sp_bounce = bounce, sp_slots = slots,
            sp_host = host, sp_mapped = mapped, sp_cache = cache,
            sp_assignments = [], sp_layout = l, sp_staged = replicate (sl_item_count l) False,
            sp_uploaded_bytes = 0, sp_poisoned = None, sp_log = d\<rparr>)))"

definition pool_new :: "(nat \<Rightarrow> bool) \<Rightarrow> nat \<Rightarrow> nat \<Rightarrow> stream_layout \<Rightarrow> stream_pool engine_result" where
  "pool_new fails context base l =
    (if sl_primary_source l \<noteq> PinnedPrimary
     then Inl (layout_error ''a mapped-primary streaming layout needs `new_with_mapped_primary` and its mapping'')
     else pool_allocate fails context base l None)"

definition pool_new_with_mapped_primary ::
  "(nat \<Rightarrow> bool) \<Rightarrow> nat \<Rightarrow> nat \<Rightarrow> stream_layout \<Rightarrow> (nat \<Rightarrow> nat list engine_result) \<Rightarrow> stream_pool engine_result" where
  "pool_new_with_mapped_primary fails context base l mapped =
    (if sl_primary_source l = PinnedPrimary
     then Inl (layout_error ''a fully-pinned streaming layout takes no mapped primary source'')
     else pool_allocate fails context base l (Some mapped))"

definition pool_require_live :: "stream_pool \<Rightarrow> unit engine_result" where
  "pool_require_live sp =
    (case sp_poisoned sp of Some reason \<Rightarrow> Inl (layout_error ''streaming pool refuses every round'') | None \<Rightarrow> Inr ())"

definition pool_poison :: "string \<Rightarrow> stream_pool \<Rightarrow> stream_pool" where
  "pool_poison operation sp =
    (let sp = sp\<lparr>sp_cache := cache_abandon_planned_round (sp_cache sp)\<rparr>
     in if sp_poisoned sp = None then sp\<lparr>sp_poisoned := Some operation\<rparr> else sp)"

definition pool_stage_item ::
  "(nat \<Rightarrow> bool) \<Rightarrow> nat \<Rightarrow> nat list \<Rightarrow> nat list \<Rightarrow> stream_pool \<Rightarrow> unit engine_result \<times> stream_pool" where
  "pool_stage_item fails item primary secondary sp =
    (case rbind (pool_require_live sp) (\<lambda>_. sl_item_offset (sp_layout sp) item) of
       Inl e \<Rightarrow> (Inl e, sp)
     | Inr offset \<Rightarrow>
        if item \<ge> length (sp_staged sp) then (Inl Panicked, sp)
        else if sp_staged sp ! item then (Inl (layout_error ''streaming item was already staged''), sp)
        else
          let admitted_primary = (if sl_primary_source (sp_layout sp) = PinnedPrimary
                then sl_primary_extent_bytes (sp_layout sp) else 0) in
          if length primary \<noteq> admitted_primary \<or> length secondary \<noteq> sl_secondary_extent_bytes (sp_layout sp)
          then (Inl (layout_error ''streaming item staged the wrong number of bytes''), sp)
          else
           (case transfer_synchronize fails (sp_log sp) of
              (Inl e, d) \<Rightarrow> (Inl (Gpu e), sp\<lparr>sp_log := d\<rparr>)
            | (Inr _, d) \<Rightarrow>
               let sp = sp\<lparr>sp_log := d\<rparr> in
               (case pinned_write offset primary (sp_host sp) of
                  (Inl e, host) \<Rightarrow> (Inl (Gpu e), sp\<lparr>sp_host := host\<rparr>)
                | (Inr _, host) \<Rightarrow>
                   (case pinned_write (offset + admitted_primary) secondary host of
                      (Inl e, host) \<Rightarrow> (Inl (Gpu e), sp\<lparr>sp_host := host, sp_log := note_event (HostWrites PinnedItems) (sp_log sp)\<rparr>)
                    | (Inr _, host) \<Rightarrow>
                       (Inr (), sp\<lparr>sp_host := host, sp_staged := (sp_staged sp)[item := True],
                          sp_log := note_event (HostWrites PinnedItems) (sp_log sp)\<rparr>)))))"

definition pool_is_fully_staged :: "stream_pool \<Rightarrow> bool" where
  "pool_is_fully_staged sp = list_all id (sp_staged sp)"

definition pool_staged_item :: "nat \<Rightarrow> stream_pool \<Rightarrow> nat list engine_result" where
  "pool_staged_item item sp =
    rbind (sl_item_offset (sp_layout sp) item) (\<lambda>offset.
      lift_gpu (pinned_slice offset (offset + sl_host_extent_bytes (sp_layout sp)) (sp_host sp)))"

definition pool_fence_replay :: "(nat \<Rightarrow> bool) \<Rightarrow> nat \<Rightarrow> stream_pool \<Rightarrow> unit engine_result \<times> stream_pool" where
  "pool_fence_replay fails consumer_context sp =
    (case wait_publication fails consumer_context (sp_transfer sp) (sp_log sp) of
       (r, d) \<Rightarrow> (lift_gpu r, sp\<lparr>sp_log := d\<rparr>))"

definition pool_record_replay_release :: "(nat \<Rightarrow> bool) \<Rightarrow> nat \<Rightarrow> stream_pool \<Rightarrow> unit engine_result \<times> stream_pool" where
  "pool_record_replay_release fails consumer_context sp =
    (case record_reclaim fails consumer_context (sc_round (sp_cache sp)) (sp_transfer sp) (sp_log sp) of
       (r, ts, d) \<Rightarrow> (lift_gpu r, sp\<lparr>sp_transfer := ts, sp_log := d\<rparr>))"

definition pool_synchronize :: "(nat \<Rightarrow> bool) \<Rightarrow> stream_pool \<Rightarrow> unit engine_result \<times> stream_pool" where
  "pool_synchronize fails sp =
    (case transfer_synchronize fails (sp_log sp) of (r, d) \<Rightarrow> (lift_gpu r, sp\<lparr>sp_log := d\<rparr>))"

text \<open>\<open>slots.publish_table(..).and_then(|()| transfer.record_publication())\<close>\<close>

definition pool_publish :: "(nat \<Rightarrow> bool) \<Rightarrow> stream_pool \<Rightarrow> unit gpu_result \<times> stream_pool" where
  "pool_publish fails sp =
    (case publish_table fails (sp_transfer sp) (item_slot (sp_cache sp)) (sp_slots sp) (sp_log sp) of
       (Inl e, slots, d) \<Rightarrow> (Inl e, sp\<lparr>sp_slots := slots, sp_log := d\<rparr>)
     | (Inr _, slots, d) \<Rightarrow>
        (case record_publication fails (sp_transfer sp) d of
           (r, ts, d) \<Rightarrow> (r, sp\<lparr>sp_slots := slots, sp_transfer := ts, sp_log := d\<rparr>)))"

definition pool_reset :: "(nat \<Rightarrow> bool) \<Rightarrow> stream_pool \<Rightarrow> unit engine_result \<times> stream_pool" where
  "pool_reset fails sp =
    (case pool_require_live sp of Inl e \<Rightarrow> (Inl e, sp) | Inr _ \<Rightarrow>
      let reclaim_generation = fold max (pinned_round (sp_cache sp)) 0 in
      (case wait_reclaim fails reclaim_generation (sp_transfer sp) (sp_log sp) of
         (Inl e, d) \<Rightarrow> (Inl (Gpu e), sp\<lparr>sp_log := d\<rparr>)
       | (Inr _, d) \<Rightarrow>
          (case pool_publish fails (sp\<lparr>sp_cache := cache_clear (sp_cache sp), sp_log := d\<rparr>) of
             (Inl e, sp) \<Rightarrow> (Inl (Gpu e), pool_poison ''publishing a reset table'' sp)
           | (Inr _, sp) \<Rightarrow>
              (case stall_for_publication fails (sp_transfer sp) (sp_log sp) of
                 (Inl e, d) \<Rightarrow> (Inl (Gpu e), pool_poison ''stalling for a reset table'' (sp\<lparr>sp_log := d\<rparr>))
               | (Inr _, d) \<Rightarrow> (Inr (), sp\<lparr>sp_log := d\<rparr>)))))"

text \<open>The source check \<open>for assignment in &self.assignments\<close> of \<open>require_planned_sources\<close>.\<close>

fun require_sources :: "nat \<Rightarrow> (nat \<Rightarrow> nat list engine_result) \<Rightarrow> slot_assignment list \<Rightarrow> unit engine_result" where
  "require_sources bytes mapped [] = Inr ()"
| "require_sources bytes mapped (a # as) =
    rbind (mapped (as_item a)) (\<lambda>primary.
      if length primary \<noteq> bytes then Inl (layout_error ''streaming item borrowed the wrong number of bytes'')
      else require_sources bytes mapped as)"

definition pool_require_planned_sources :: "stream_pool \<Rightarrow> unit engine_result" where
  "pool_require_planned_sources sp =
    (if sl_primary_source (sp_layout sp) = PinnedPrimary then Inr ()
     else case sp_mapped sp of
       None \<Rightarrow> Inl (layout_error ''a mapped-primary streaming pool lost its mapping'')
     | Some mapped \<Rightarrow>
        if sp_bounce sp = None then Inl (layout_error ''a mapped-primary streaming pool lost its bounce ring'')
        else require_sources (sl_primary_extent_bytes (sp_layout sp)) mapped (sp_assignments sp))"

definition pool_enqueue_assignment ::
  "(nat \<Rightarrow> bool) \<Rightarrow> slot_assignment \<Rightarrow> stream_pool \<Rightarrow> unit engine_result \<times> stream_pool" where
  "pool_enqueue_assignment fails a sp =
    (let l = sp_layout sp; slot = as_slot a in
     case sl_item_offset l (as_item a) of
       Inl e \<Rightarrow> (Inl e, sp)
     | Inr offset \<Rightarrow>
        if sl_primary_source l = PinnedPrimary
        then (case enqueue_slot_upload fails (sp_transfer sp) slot (sp_host sp) offset (sp_slots sp) (sp_log sp) of
                (r, d) \<Rightarrow> (lift_gpu r, sp\<lparr>sp_log := d\<rparr>))
        else case sp_mapped sp of
          None \<Rightarrow> (Inl (layout_error ''a mapped-primary streaming pool lost its mapping''), sp)
        | Some mapped \<Rightarrow>
           (case sp_bounce sp of
              None \<Rightarrow> (Inl (layout_error ''a mapped-primary streaming pool lost its bounce ring''), sp)
            | Some bounce \<Rightarrow>
               (case mapped (as_item a) of
                  Inl e \<Rightarrow> (Inl e, sp)
                | Inr primary \<Rightarrow>
                   if length primary \<noteq> sl_primary_extent_bytes l
                   then (Inl (layout_error ''streaming item borrowed the wrong number of bytes''), sp)
                   else case dp_slot_address (sp_slots sp) slot of
                     Inl e \<Rightarrow> (Inl (Gpu e), sp)
                   | Inr destination \<Rightarrow>
                      (case bounce_upload fails (sp_transfer sp) destination primary bounce (sp_log sp) of
                         (Inl e, bounce, d) \<Rightarrow> (Inl (Gpu e), sp\<lparr>sp_bounce := Some bounce, sp_log := d\<rparr>)
                       | (Inr _, bounce, d) \<Rightarrow>
                          let sp = sp\<lparr>sp_bounce := Some bounce, sp_log := d\<rparr> in
                          if sl_secondary_extent_bytes l \<noteq> 0
                          then (case enqueue_slot_extent_upload fails (sp_transfer sp) slot (sl_primary_extent_bytes l)
                                       (sp_host sp) offset (sl_secondary_extent_bytes l) (sp_slots sp) (sp_log sp) of
                                  (r, d) \<Rightarrow> (lift_gpu r, sp\<lparr>sp_log := d\<rparr>))
                          else (Inr (), sp)))))"

text \<open>The loop of \<open>enqueue_planned_round\<close>.\<close>

fun pool_enqueue_all ::
  "(nat \<Rightarrow> bool) \<Rightarrow> slot_assignment list \<Rightarrow> stream_pool \<Rightarrow> unit engine_result \<times> stream_pool" where
  "pool_enqueue_all fails [] sp = (Inr (), sp)"
| "pool_enqueue_all fails (a # as) sp =
    (case pool_enqueue_assignment fails a sp of
       (Inl e, sp) \<Rightarrow> (Inl e, pool_poison ''enqueueing a round's slot uploads'' sp)
     | (Inr _, sp) \<Rightarrow> pool_enqueue_all fails as sp)"

definition pool_publish_committed_round :: "(nat \<Rightarrow> bool) \<Rightarrow> stream_pool \<Rightarrow> unit engine_result \<times> stream_pool" where
  "pool_publish_committed_round fails sp =
    (case pool_publish fails sp of
       (Inl e, sp) \<Rightarrow> (Inl (Gpu e), pool_poison ''publishing a round's indirection table'' sp)
     | (Inr _, sp) \<Rightarrow> (Inr (), sp))"

text \<open>The staged check \<open>for &item in items\<close> of \<open>round\<close>.\<close>

fun require_staged :: "bool list \<Rightarrow> nat list \<Rightarrow> unit engine_result" where
  "require_staged staged [] = Inr ()"
| "require_staged staged (item # items) =
    (if item \<ge> length staged then Inl (route_error ''streaming item is outside 0..item_count'')
     else if \<not> staged ! item then Inl (layout_error ''streaming item was requested before it was staged'')
     else require_staged staged items)"

definition pool_abandon :: "stream_pool \<Rightarrow> stream_pool" where
  "pool_abandon sp = sp\<lparr>sp_cache := cache_abandon_planned_round (sp_cache sp)\<rparr>"

definition pool_commit :: "stream_pool \<Rightarrow> stream_pool" where
  "pool_commit sp = sp\<lparr>sp_cache := cache_commit_planned_round (sp_cache sp)\<rparr>"

text \<open>The second half of \<open>round\<close>, once the sources of the plan are known to be good.\<close>

definition pool_serve_planned ::
  "(nat \<Rightarrow> bool) \<Rightarrow> nat \<Rightarrow> nat \<Rightarrow> stream_pool \<Rightarrow> unit engine_result \<times> stream_pool" where
  "pool_serve_planned fails reclaim_generation next_uploaded_bytes sp =
    (if sp_assignments sp = [] then (Inr (), pool_commit sp)
     else case wait_reclaim fails reclaim_generation (sp_transfer sp) (sp_log sp) of
       (Inl e, d) \<Rightarrow> (Inl (Gpu e), pool_abandon (sp\<lparr>sp_log := d\<rparr>))
     | (Inr _, d) \<Rightarrow>
        (case pool_enqueue_all fails (sp_assignments sp) (sp\<lparr>sp_log := d\<rparr>) of
           (Inl e, sp) \<Rightarrow> (Inl e, sp)
         | (Inr _, sp) \<Rightarrow>
            (case pool_publish_committed_round fails (pool_commit sp) of
               (Inl e, sp) \<Rightarrow> (Inl e, sp)
             | (Inr _, sp) \<Rightarrow> (Inr (), sp\<lparr>sp_uploaded_bytes := next_uploaded_bytes\<rparr>))))"

definition pool_round ::
  "(nat \<Rightarrow> bool) \<Rightarrow> nat list \<Rightarrow> bool \<Rightarrow> stream_pool \<Rightarrow> stream_round engine_result \<times> stream_pool" where
  "pool_round fails items stall sp =
    (case rbind (pool_require_live sp) (\<lambda>_. require_staged (sp_staged sp) items) of
       Inl e \<Rightarrow> (Inl e, sp)
     | Inr _ \<Rightarrow>
        (case cache_plan_round items (sp_cache sp) (sp_assignments sp) of
           (Inl e, cache, assignments) \<Rightarrow> (Inl e, sp\<lparr>sp_cache := cache, sp_assignments := assignments\<rparr>)
         | (Inr r, cache, assignments) \<Rightarrow>
            let sp = sp\<lparr>sp_cache := cache, sp_assignments := assignments\<rparr> in
            (case checked_mul (length assignments) (sl_stride_bytes (sp_layout sp)) of
               None \<Rightarrow> (Inl (layout_error ''streamed byte counter overflows''), pool_abandon sp)
             | Some uploaded \<Rightarrow>
                let r = r\<lparr>round_uploaded_bytes := uploaded\<rparr> in
                (case checked_add (sp_uploaded_bytes sp) uploaded of
                   None \<Rightarrow> (Inl (layout_error ''streamed byte counter overflows''), pool_abandon sp)
                 | Some next_uploaded_bytes \<Rightarrow>
                    (case pool_require_planned_sources sp of
                       Inl e \<Rightarrow> (Inl e, pool_abandon sp)
                     | Inr _ \<Rightarrow>
                        (case pool_serve_planned fails (round_reclaim_generation r) next_uploaded_bytes sp of
                           (Inl e, sp) \<Rightarrow> (Inl e, sp)
                         | (Inr _, sp) \<Rightarrow>
                            if stall
                            then (case stall_for_publication fails (sp_transfer sp) (sp_log sp) of
                                    (Inl e, d) \<Rightarrow> (Inl (Gpu e), sp\<lparr>sp_log := d\<rparr>)
                                  | (Inr _, d) \<Rightarrow> (Inr (r\<lparr>round_stalled := True\<rparr>), sp\<lparr>sp_log := d\<rparr>))
                            else (Inr r, sp)))))))"

definition pool_prefetch :: "(nat \<Rightarrow> bool) \<Rightarrow> nat list \<Rightarrow> stream_pool \<Rightarrow> stream_round engine_result \<times> stream_pool" where
  "pool_prefetch fails items sp = pool_round fails items False sp"

definition pool_require :: "(nat \<Rightarrow> bool) \<Rightarrow> nat list \<Rightarrow> stream_pool \<Rightarrow> stream_round engine_result \<times> stream_pool" where
  "pool_require fails items sp = pool_round fails items True sp"

end
