(* ===== verification/TransferTrace.thy ===== *)
theory TransferTrace
  imports TransferStream
begin

text \<open>
  What a trace of the streaming primitives means: the device bytes and the device table an in-order
  stream leaves, the last release recorded on each reclaim fence, and whether the host ever rewrites
  page-locked memory that an enqueued copy may still read.
\<close>

section \<open>Meanings of a trace\<close>

fun device_byte_step :: "stream_event \<Rightarrow> (nat \<Rightarrow> nat) \<Rightarrow> nat \<Rightarrow> nat" where
  "device_byte_step (CopyBytes dest rg bytes) mem =
    (\<lambda>a. if dest \<le> a \<and> a < dest + length bytes then bytes ! (a - dest) else mem a)"
| "device_byte_step ev mem = mem"

definition device_bytes :: "stream_event list \<Rightarrow> nat \<Rightarrow> nat" where
  "device_bytes evs = fold device_byte_step evs (\<lambda>_. 0)"

fun device_table_step :: "stream_event \<Rightarrow> nat list \<Rightarrow> nat list" where
  "device_table_step (CopyTable dest g words) t = words"
| "device_table_step ev t = t"

definition device_table :: "nat \<Rightarrow> stream_event list \<Rightarrow> nat list" where
  "device_table items evs = fold device_table_step evs (replicate items ABSENT_SLOT)"

fun last_release_step :: "stream_event \<Rightarrow> (nat \<Rightarrow> nat option) \<Rightarrow> nat \<Rightarrow> nat option" where
  "last_release_step (ReleaseRecorded k g) m = m(k := Some g)"
| "last_release_step ev m = m"

definition last_release :: "stream_event list \<Rightarrow> nat \<Rightarrow> nat option" where
  "last_release evs = fold last_release_step evs (\<lambda>_. None)"

text \<open>
  A region is \<open>InFlight\<close> from a copy that reads it until its fence is recorded behind that copy, then
  \<open>Fenced\<close> until the host waits for that fence; only then may the host write it again.
\<close>

datatype region_state = Idle | InFlight | Fenced

fun memory_step :: "stream_event \<Rightarrow> (host_region \<Rightarrow> region_state) \<times> bool \<Rightarrow> (host_region \<Rightarrow> region_state) \<times> bool" where
  "memory_step (CopyBytes dest rg bytes) (f, ok) = (f(rg := InFlight), ok)"
| "memory_step (CopyTable dest g words) (f, ok) = (f(TableStaging g := InFlight), ok)"
| "memory_step (RecordFence (BounceFence k)) (f, ok) =
    (if f (BounceSlot k) = InFlight then (f(BounceSlot k := Fenced), ok) else (f, ok))"
| "memory_step (RecordFence (TableFence g)) (f, ok) =
    (if f (TableStaging g) = InFlight then (f(TableStaging g := Fenced), ok) else (f, ok))"
| "memory_step (HostSyncs (BounceFence k)) (f, ok) =
    (if f (BounceSlot k) = Fenced then (f(BounceSlot k := Idle), ok) else (f, ok))"
| "memory_step (HostSyncs (TableFence g)) (f, ok) =
    (if f (TableStaging g) = Fenced then (f(TableStaging g := Idle), ok) else (f, ok))"
| "memory_step DrainStream (f, ok) = ((\<lambda>_. Idle), ok)"
| "memory_step (HostWrites rg) (f, ok) = (f, ok \<and> f rg = Idle)"
| "memory_step ev s = s"

definition memory_run :: "stream_event list \<Rightarrow> (host_region \<Rightarrow> region_state) \<times> bool" where
  "memory_run evs = fold memory_step evs ((\<lambda>_. Idle), True)"

definition region_of :: "stream_event list \<Rightarrow> host_region \<Rightarrow> region_state" where
  "region_of evs = fst (memory_run evs)"

definition host_memory_safe :: "stream_event list \<Rightarrow> bool" where
  "host_memory_safe evs = snd (memory_run evs)"

lemma memory_run_snoc: "memory_run (evs @ [ev]) = memory_step ev (memory_run evs)"
  by (simp add: memory_run_def)

lemma memory_run_pair: "memory_run evs = (region_of evs, host_memory_safe evs)"
  by (simp add: region_of_def host_memory_safe_def)

lemma region_of_Nil [simp]: "region_of [] = (\<lambda>_. Idle)" and host_memory_safe_Nil [simp]: "host_memory_safe []"
  by (simp_all add: region_of_def host_memory_safe_def memory_run_def)

lemma region_of_snoc:
  "region_of (evs @ [ev]) = fst (memory_step ev (region_of evs, host_memory_safe evs))"
  "host_memory_safe (evs @ [ev]) = snd (memory_step ev (region_of evs, host_memory_safe evs))"
  by (simp_all only: region_of_def host_memory_safe_def memory_run_snoc prod.collapse)

lemma memory_step_mono: "snd (memory_step ev s) \<Longrightarrow> snd s"
proof (cases s)
  case (Pair f ok)
  assume "snd (memory_step ev s)"
  then show ?thesis
  proof (cases ev)
    case (RecordFence x)
    then show ?thesis using Pair \<open>snd (memory_step ev s)\<close> by (cases x) (simp_all split: if_splits)
  next
    case (HostSyncs x)
    then show ?thesis using Pair \<open>snd (memory_step ev s)\<close> by (cases x) (simp_all split: if_splits)
  qed (simp_all add: Pair)
qed

lemma host_memory_safe_prefix: "host_memory_safe (xs @ ys) \<Longrightarrow> host_memory_safe xs"
proof (induction ys rule: rev_induct)
  case (snoc y ys)
  then have "snd (memory_step y (memory_run (xs @ ys)))" by (simp add: host_memory_safe_def memory_run_def)
  then show ?case using snoc.IH memory_step_mono by (auto simp: host_memory_safe_def)
qed simp

lemma device_bytes_snoc: "device_bytes (evs @ [ev]) = device_byte_step ev (device_bytes evs)"
  by (simp add: device_bytes_def)

lemma device_bytes_append: "device_bytes (evs @ new) = fold device_byte_step new (device_bytes evs)"
  by (simp add: device_bytes_def)

lemma device_table_append: "device_table n (evs @ new) = fold device_table_step new (device_table n evs)"
  by (simp add: device_table_def)

lemma last_release_append: "last_release (evs @ new) = fold last_release_step new (last_release evs)"
  by (simp add: last_release_def)

lemmas trace_snoc = region_of_snoc device_bytes_snoc

section \<open>Quiet events\<close>

fun is_copy :: "stream_event \<Rightarrow> bool" where
  "is_copy (CopyBytes dest rg bytes) = True"
| "is_copy (CopyTable dest g words) = True"
| "is_copy ev = False"

fun is_release :: "stream_event \<Rightarrow> bool" where
  "is_release (ReleaseRecorded k g) = True"
| "is_release ev = False"

lemma device_bytes_quiet: "\<forall>ev\<in>set new. \<not> is_copy ev \<Longrightarrow> device_bytes (evs @ new) = device_bytes evs"
proof (induction new arbitrary: evs)
  case (Cons ev new)
  have "device_bytes (evs @ [ev]) = device_bytes evs" using Cons.prems by (cases ev) (auto simp: device_bytes_snoc)
  then show ?case using Cons.IH [of "evs @ [ev]"] Cons.prems by simp
qed simp

lemma device_table_quiet:
  "\<forall>ev\<in>set new. \<not> (\<exists>dest g words. ev = CopyTable dest g words) \<Longrightarrow> device_table n (evs @ new) = device_table n evs"
proof (induction new arbitrary: evs)
  case (Cons ev new)
  have "device_table n (evs @ [ev]) = device_table n evs" using Cons.prems by (cases ev) (auto simp: device_table_def)
  then show ?case using Cons.IH [of "evs @ [ev]"] Cons.prems by simp
qed simp

lemma last_release_quiet: "\<forall>ev\<in>set new. \<not> is_release ev \<Longrightarrow> last_release (evs @ new) = last_release evs"
proof (induction new arbitrary: evs)
  case (Cons ev new)
  have "last_release (evs @ [ev]) = last_release evs" using Cons.prems by (cases ev) (auto simp: last_release_def)
  then show ?case using Cons.IH [of "evs @ [ev]"] Cons.prems by simp
qed simp

section \<open>Driver calls\<close>

lemma issue_cases:
  "issue fails op ev d = (r, d') \<Longrightarrow>
    (r = Inr () \<and> dl_events d' = dl_events d @ [ev]) \<or> (\<exists>e. r = Inl e \<and> dl_events d' = dl_events d)"
  by (auto simp: issue_def split: if_splits)

lemma note_event_events [simp]: "dl_events (note_event ev d) = dl_events d @ [ev]"
  by (simp add: note_event_def)

text \<open>Every primitive appends a prefix of its full event sequence, and all of it when it succeeds.\<close>

definition appends :: "driver_log \<Rightarrow> driver_log \<Rightarrow> bool \<Rightarrow> stream_event list \<Rightarrow> bool" where
  "appends d d' ok evs \<longleftrightarrow> (\<exists>pre. dl_events d' = dl_events d @ pre \<and> prefix pre evs \<and> (ok \<longrightarrow> pre = evs))"

lemma appends_issue: "issue fails op ev d = (r, d') \<Longrightarrow> appends d d' (is_ok r) [ev]"
  using issue_cases [of fails op ev d r d'] by (auto simp: appends_def)

lemma appends_refl: "\<not> ok \<Longrightarrow> appends d d ok evs"
  by (auto simp: appends_def)

lemma appends_Nil [simp]: "appends d d ok []"
  by (simp add: appends_def)

lemma appends_trans: "appends d d1 True xs \<Longrightarrow> appends d1 d2 ok ys \<Longrightarrow> appends d d2 ok (xs @ ys)"
  by (auto simp: appends_def)

lemma appends_stop: "appends d d1 False xs \<Longrightarrow> appends d d1 False (xs @ ys)"
  by (auto simp: appends_def prefix_append)

lemma appends_note: "appends (note_event ev d) d' ok ys \<Longrightarrow> appends d d' ok (ev # ys)"
  by (auto simp: appends_def)

lemma appends_events: "appends d d' True evs \<Longrightarrow> dl_events d' = dl_events d @ evs"
  by (auto simp: appends_def)

lemma appends_set: "appends d d' ok evs \<Longrightarrow> \<exists>new. dl_events d' = dl_events d @ new \<and> set new \<subseteq> set evs"
  by (auto simp: appends_def dest: set_mono_prefix)

lemma enqueue_upload_appends:
  assumes "enqueue_upload fails copy bytes d = (r, d')"
  shows "appends d d' (is_ok r) (if bytes = 0 then [] else [BindContext, copy])"
proof (cases "bytes = 0")
  case True
  then show ?thesis using assms by (simp add: enqueue_upload_def)
next
  case False
  obtain r1 d1 where b: "issue fails ''binding the transfer CUDA context'' BindContext d = (r1, d1)" by fastforce
  note ab = appends_issue [OF b]
  show ?thesis
  proof (cases r1)
    case (Inl e)
    then show ?thesis using assms False b ab appends_stop [of d d1 "[BindContext]" "[copy]"]
      by (auto simp: enqueue_upload_def)
  next
    case (Inr u)
    then have "issue fails ''enqueueing a slot upload'' copy d1 = (r, d')" using assms False b by (simp add: enqueue_upload_def)
    from appends_issue [OF this] show ?thesis using False Inr ab appends_trans [of d d1 "[BindContext]" d' "is_ok r" "[copy]"] by simp
  qed
qed

section \<open>The bounce ring\<close>

definition ring_ok :: "bounce_ring \<Rightarrow> stream_event list \<Rightarrow> bool" where
  "ring_ok br evs \<longleftrightarrow> length (br_fenced br) = br_slot_count br \<and> 0 < br_slot_count br \<and>
    pp_bytes (br_storage br) = br_slot_count br * br_slot_bytes br \<and>
    length (pp_storage (br_storage br)) = pp_bytes (br_storage br) \<and>
    (\<forall>k<br_slot_count br. region_of evs (BounceSlot k) \<noteq> InFlight \<and> (\<not> br_fenced br ! k \<longrightarrow> region_of evs (BounceSlot k) = Idle))"

definition bounce_events :: "bounce_ring \<Rightarrow> nat \<Rightarrow> nat list \<Rightarrow> stream_event list" where
  "bounce_events br dest source =
    (let slot = br_cursor br mod br_slot_count br in
     (if br_fenced br ! slot then [HostSyncs (BounceFence slot)] else []) @
     [HostWrites (BounceSlot slot), BindContext, CopyBytes dest (BounceSlot slot) source, RecordFence (BounceFence slot)])"

definition bounce_after :: "nat list \<Rightarrow> bounce_ring \<Rightarrow> bounce_ring" where
  "bounce_after source br =
    (let slot = br_cursor br mod br_slot_count br in
     br\<lparr>br_storage := (br_storage br)\<lparr>pp_storage := list_write (slot * br_slot_bytes br) source (pp_storage (br_storage br))\<rparr>,
       br_fenced := (br_fenced br)[slot := True], br_cursor := wrapping_inc (br_cursor br),
       br_waits := (if br_fenced br ! slot then wrapping_inc (br_waits br) else br_waits br)\<rparr>)"

lemma bounce_upload_appends:
  assumes run: "bounce_upload fails ts dest source br d = (r, br', d')" and ok: "ring_ok br evs"
  shows "appends d d' (is_ok r) (bounce_events br dest source) \<and> (is_ok r \<longrightarrow> br' = bounce_after source br)"
proof (cases "source = [] \<or> length source > br_slot_bytes br \<or> pp_context (br_storage br) \<noteq> ts_context ts")
  case True
  then have "\<not> is_ok r \<and> d' = d" using run by (auto simp: bounce_upload_def split: if_splits)
  then show ?thesis by (auto intro: appends_refl)
next
  case False
  let ?slot = "br_cursor br mod br_slot_count br"
  let ?off = "?slot * br_slot_bytes br"
  let ?sync = "if br_fenced br ! ?slot then [HostSyncs (BounceFence ?slot)] else []"
  obtain r1 br1 d1 where w: "bounce_wait fails ?slot br d = (r1, br1, d1)" by (cases "bounce_wait fails ?slot br d") auto
  have aw: "appends d d1 (is_ok r1) ?sync"
    using w appends_issue [of fails "''waiting on a bounce-ring upload fence''" "HostSyncs (BounceFence ?slot)" d]
    by (auto simp: bounce_wait_def split: if_splits prod.splits sum.splits)
  show ?thesis
  proof (cases r1)
    case (Inl e)
    then have "\<not> is_ok r \<and> d' = d1" using run False w by (auto simp: bounce_upload_def)
    then show ?thesis using aw Inl appends_stop [of d d1 ?sync] by (auto simp: bounce_events_def Let_def)
  next
    case (Inr u)
    have br1: "br1 = br\<lparr>br_waits := (if br_fenced br ! ?slot then wrapping_inc (br_waits br) else br_waits br)\<rparr>"
      using w Inr by (auto simp: bounce_wait_def split: if_splits prod.splits sum.splits)
    have lt: "?slot < br_slot_count br" using ok by (simp add: ring_ok_def)
    have fits: "?off + length source \<le> br_slot_count br * br_slot_bytes br"
    proof -
      have "(?slot + 1) * br_slot_bytes br \<le> br_slot_count br * br_slot_bytes br" using lt by (intro mult_le_mono1) simp
      moreover have "length source \<le> br_slot_bytes br" using False by simp
      ultimately show ?thesis by simp
    qed
    show ?thesis
    proof (cases "?off + length source < U64_BOUND")
      case over: False
      then have "\<not> is_ok r \<and> d' = d1" using run False w Inr br1
        by (auto simp: bounce_upload_def pinned_write_def checked_add_def Let_def)
      then show ?thesis using aw Inr by (auto simp: appends_def bounce_events_def Let_def)
    next
      case fit: True
      let ?st = "(br_storage br)\<lparr>pp_storage := list_write ?off source (pp_storage (br_storage br))\<rparr>"
      have pw: "pinned_write ?off source (br_storage br) = (Inr (), ?st)"
        using fits fit ok by (simp add: pinned_write_def checked_add_def ring_ok_def)
      have len: "length (pp_storage (br_storage br)) = br_slot_count br * br_slot_bytes br" using ok by (simp add: ring_ok_def)
      have "take (length source) (drop ?off (list_write ?off source (pp_storage (br_storage br)))) = source"
        by (rule take_drop_list_write) (use fits len in simp)
      then have src: "pinned_source ?off (length source) ?st = Inr source"
        using fits fit ok by (simp add: pinned_source_def checked_add_def ring_ok_def)
      let ?d2 = "note_event (HostWrites (BounceSlot ?slot)) d1"
      obtain r3 d3 where e: "enqueue_upload fails (CopyBytes dest (BounceSlot ?slot) source) (length source) ?d2 = (r3, d3)" by fastforce
      have ae: "appends d1 d3 (is_ok r3) [HostWrites (BounceSlot ?slot), BindContext, CopyBytes dest (BounceSlot ?slot) source]"
        using enqueue_upload_appends [OF e] False by (auto intro: appends_note)
      show ?thesis
      proof (cases r3)
        case (Inl x)
        then have "\<not> is_ok r \<and> d' = d3" using run False w Inr br1 pw src e by (auto simp: bounce_upload_def Let_def)
        moreover have "appends d d3 False (?sync @ [HostWrites (BounceSlot ?slot), BindContext,
            CopyBytes dest (BounceSlot ?slot) source] @ [RecordFence (BounceFence ?slot)])"
          by (rule appends_trans [OF aw [unfolded Inr is_ok_simps] appends_stop [OF ae [unfolded Inl is_ok_simps]]])
        ultimately show ?thesis by (simp add: bounce_events_def Let_def)
      next
        case inr: (Inr v)
        obtain r4 d4 where f: "issue fails ''recording a bounce-ring upload fence'' (RecordFence (BounceFence ?slot)) d3 = (r4, d4)" by fastforce
        have af: "appends d3 d4 (is_ok r4) [RecordFence (BounceFence ?slot)]" by (rule appends_issue [OF f])
        have all: "appends d d4 (is_ok r4) (bounce_events br dest source)"
          using appends_trans [OF aw [unfolded Inr, simplified] appends_trans [OF ae [unfolded inr, simplified] af]]
          by (simp add: bounce_events_def Let_def)
        have "d' = d4 \<and> (is_ok r \<longleftrightarrow> is_ok r4) \<and> (is_ok r \<longrightarrow> br' = bounce_after source br)"
          using run False w Inr br1 pw src e inr f
          by (cases r4) (auto simp: bounce_upload_def bounce_after_def Let_def)
        then show ?thesis using all by auto
      qed
    qed
  qed
qed

lemma memory_fold:
  "region_of (evs @ new) = fst (fold memory_step new (region_of evs, host_memory_safe evs))"
  "host_memory_safe (evs @ new) = snd (fold memory_step new (region_of evs, host_memory_safe evs))"
  by (simp_all only: region_of_def host_memory_safe_def memory_run_def fold_append comp_apply prod.collapse)

lemma bounce_events_memory:
  assumes ok: "ring_ok br evs" and safe: "host_memory_safe evs"
  shows "host_memory_safe (evs @ bounce_events br dest source)"
    and "region_of (evs @ bounce_events br dest source) = (region_of evs)(BounceSlot (br_cursor br mod br_slot_count br) := Fenced)"
proof -
  let ?slot = "br_cursor br mod br_slot_count br"
  have "?slot < br_slot_count br" using ok by (simp add: ring_ok_def)
  then have r: "region_of evs (BounceSlot ?slot) \<noteq> InFlight" "\<not> br_fenced br ! ?slot \<Longrightarrow> region_of evs (BounceSlot ?slot) = Idle"
    using ok by (simp_all add: ring_ok_def)
  show "host_memory_safe (evs @ bounce_events br dest source)"
    "region_of (evs @ bounce_events br dest source) = (region_of evs)(BounceSlot ?slot := Fenced)"
    using r safe by (cases "br_fenced br ! ?slot"; cases "region_of evs (BounceSlot ?slot)"; simp add: memory_fold bounce_events_def Let_def)+
qed

lemma ring_ok_after:
  assumes ok: "ring_ok br evs" and safe: "host_memory_safe evs" and fits: "length source \<le> br_slot_bytes br"
  shows "ring_ok (bounce_after source br) (evs @ bounce_events br dest source)"
proof -
  let ?slot = "br_cursor br mod br_slot_count br"
  have lt: "?slot < br_slot_count br" using ok by (simp add: ring_ok_def)
  then have "(?slot + 1) * br_slot_bytes br \<le> br_slot_count br * br_slot_bytes br" by (intro mult_le_mono1) simp
  then have "?slot * br_slot_bytes br + length source \<le> length (pp_storage (br_storage br))"
    using fits ok by (simp add: ring_ok_def)
  then have len: "length (list_write (?slot * br_slot_bytes br) source (pp_storage (br_storage br))) = length (pp_storage (br_storage br))"
    by (rule length_list_write)
  show ?thesis
    using ok lt by (auto simp: ring_ok_def bounce_events_memory(2) [OF ok safe] bounce_after_def Let_def len nth_list_update)
qed

lemma ring_ok_frame:
  "ring_ok br evs \<Longrightarrow> (\<And>k. region_of evs' (BounceSlot k) = region_of evs (BounceSlot k) \<or> region_of evs' (BounceSlot k) = Idle) \<Longrightarrow>
    ring_ok br evs'"
  unfolding ring_ok_def by (metis region_state.distinct(1))

section \<open>The device slot pool\<close>

lemma slot_extent_upload_appends:
  assumes "enqueue_slot_extent_upload fails ts slot slot_offset source source_offset bytes dp d = (r, d')" and "bytes \<noteq> 0"
  shows "d' = d \<and> \<not> is_ok r \<or>
    (\<exists>address data. dp_slot_address dp slot = Inr address \<and> slot_offset + bytes \<le> dp_slot_bytes dp \<and>
      pinned_source source_offset bytes source = Inr data \<and>
      appends d d' (is_ok r) [BindContext, CopyBytes (address + slot_offset) PinnedItems data])"
proof -
  let ?plan = "rbind (dp_require_slot dp slot) (\<lambda>_.
          rbind (dp_require_context dp (pp_context source)) (\<lambda>_.
          rbind (dp_require_context dp (ts_context ts)) (\<lambda>_.
            case checked_add slot_offset bytes of
              None \<Rightarrow> Inl (arena_error ''slot upload range overflows'')
            | Some end_offset \<Rightarrow>
               if end_offset > dp_slot_bytes dp then Inl (arena_error ''slot upload exceeds a slot extent'')
               else rbind (dp_slot_address dp slot) (\<lambda>address.
                 rbind (ok_or (checked_add address slot_offset) (arena_error ''slot device address overflows'')) (\<lambda>destination.
                   rbind (pinned_source source_offset bytes source) (\<lambda>data. Inr (destination, data)))))))"
  show ?thesis
  proof (cases ?plan)
    case (Inl e)
    then have "d' = d \<and> \<not> is_ok r" using assms(1) by (auto simp: enqueue_slot_extent_upload_def)
    then show ?thesis ..
  next
    case (Inr x)
    obtain address data where x: "x = (address + slot_offset, data)" "dp_slot_address dp slot = Inr address"
      "slot_offset + bytes \<le> dp_slot_bytes dp" "pinned_source source_offset bytes source = Inr data"
      using Inr by (auto simp: rbind_Inr_iff ok_or_def checked_add_def split: option.splits if_splits)
    have "enqueue_upload fails (CopyBytes (address + slot_offset) PinnedItems data) bytes d = (r, d')"
      using assms(1) Inr x(1) by (simp add: enqueue_slot_extent_upload_def)
    from enqueue_upload_appends [OF this] show ?thesis using x assms(2) by auto
  qed
qed

definition table_ok :: "slot_pool \<Rightarrow> stream_event list \<Rightarrow> bool" where
  "table_ok dp evs \<longleftrightarrow> length (dp_staged dp) = TABLE_GENERATIONS \<and> ar_bytes (dp_table dp) \<noteq> 0 \<and>
    (\<forall>g<TABLE_GENERATIONS. region_of evs (TableStaging g) \<noteq> InFlight \<and> (\<not> dp_staged dp ! g \<longrightarrow> region_of evs (TableStaging g) = Idle))"

definition table_events :: "slot_pool \<Rightarrow> nat \<Rightarrow> nat list \<Rightarrow> stream_event list" where
  "table_events dp dest table =
    (let g = dp_generation dp mod TABLE_GENERATIONS in
     (if dp_staged dp ! g then [HostSyncs (TableFence g)] else []) @
     [HostWrites (TableStaging g), BindContext, CopyTable dest g table, RecordFence (TableFence g)])"

definition table_after :: "nat list \<Rightarrow> slot_pool \<Rightarrow> slot_pool" where
  "table_after table dp =
    (let g = dp_generation dp mod TABLE_GENERATIONS in
     dp\<lparr>dp_staging := list_write (g * dp_item_count dp) table (dp_staging dp),
       dp_staged := (dp_staged dp)[g := True], dp_generation := wrapping_inc (dp_generation dp)\<rparr>)"

lemma table_events_memory:
  assumes ok: "table_ok dp evs" and safe: "host_memory_safe evs"
  shows "host_memory_safe (evs @ table_events dp dest table)"
    and "region_of (evs @ table_events dp dest table) = (region_of evs)(TableStaging (dp_generation dp mod TABLE_GENERATIONS) := Fenced)"
proof -
  let ?g = "dp_generation dp mod TABLE_GENERATIONS"
  have "?g < TABLE_GENERATIONS" by (simp add: TABLE_GENERATIONS_def)
  then have r: "region_of evs (TableStaging ?g) \<noteq> InFlight" "\<not> dp_staged dp ! ?g \<Longrightarrow> region_of evs (TableStaging ?g) = Idle"
    using ok by (simp_all add: table_ok_def)
  show "host_memory_safe (evs @ table_events dp dest table)"
    "region_of (evs @ table_events dp dest table) = (region_of evs)(TableStaging ?g := Fenced)"
    using r safe by (cases "dp_staged dp ! ?g"; cases "region_of evs (TableStaging ?g)"; simp add: memory_fold table_events_def Let_def)+
qed

lemma table_ok_after: "table_ok dp evs \<Longrightarrow> host_memory_safe evs \<Longrightarrow> table_ok (table_after table dp) (evs @ table_events dp dest table)"
  by (auto simp: table_ok_def table_events_memory(2) table_after_def Let_def nth_list_update)

lemma table_ok_frame:
  "table_ok dp evs \<Longrightarrow> (\<And>g. region_of evs' (TableStaging g) = region_of evs (TableStaging g) \<or> region_of evs' (TableStaging g) = Idle) \<Longrightarrow>
    table_ok dp evs'"
  unfolding table_ok_def by (metis region_state.distinct(1))

lemma publish_table_appends:
  assumes run: "publish_table fails ts table dp d = (r, dp', d')" and ok: "table_ok dp evs"
  shows "\<exists>dest. appends d d' (is_ok r) (table_events dp dest table) \<and> (is_ok r \<longrightarrow> dp' = table_after table dp)"
proof (cases "length table \<noteq> dp_item_count dp \<or> \<not> is_ok (dp_require_context dp (ts_context ts)) \<or>
    list_ex (\<lambda>slot. slot \<noteq> ABSENT_SLOT \<and> slot \<ge> dp_slot_count dp) table")
  case True
  then have "\<not> is_ok r \<and> d' = d"
    using run by (cases "dp_require_context dp (ts_context ts)"; cases r) (auto simp: publish_table_def split: if_splits)
  then show ?thesis by (auto intro: appends_refl)
next
  case False
  let ?g = "dp_generation dp mod TABLE_GENERATIONS"
  let ?sync = "if dp_staged dp ! ?g then [HostSyncs (TableFence ?g)] else []"
  let ?wait = "if dp_staged dp ! ?g
                 then issue fails ''waiting on an indirection-table generation fence'' (HostSyncs (TableFence ?g)) d
                 else (Inr (), d)"
  obtain u where u: "dp_require_context dp (ts_context ts) = Inr u" using False by (auto simp: is_ok_iff)
  obtain r1 d1 where w: "?wait = (r1, d1)" by (cases ?wait) auto
  have aw: "appends d d1 (is_ok r1) ?sync" using w appends_issue by (auto split: if_splits)
  show ?thesis
  proof (cases r1)
    case (Inl e)
    then have "\<not> is_ok r \<and> d' = d1" using run False w u by (auto simp: publish_table_def Let_def)
    then show ?thesis using appends_stop [OF aw [unfolded Inl is_ok_simps]] by (auto simp: table_events_def Let_def)
  next
    case (Inr v)
    let ?dp = "dp\<lparr>dp_staging := list_write (?g * dp_item_count dp) table (dp_staging dp)\<rparr>"
    let ?d2 = "note_event (HostWrites (TableStaging ?g)) d1"
    show ?thesis
    proof (cases "dp_table_address ?dp")
      case addr: (Inl e)
      then have "\<not> is_ok r \<and> d' = ?d2" using run False w Inr u by (auto simp: publish_table_def Let_def)
      moreover have "appends d ?d2 False (?sync @ [HostWrites (TableStaging ?g)] @ [BindContext, CopyTable 0 ?g table, RecordFence (TableFence ?g)])"
        by (rule appends_trans [OF aw [unfolded Inr is_ok_simps] appends_stop]) (simp add: appends_def)
      ultimately show ?thesis by (intro exI [of _ 0]) (simp add: table_events_def Let_def)
    next
      case addr: (Inr dest)
      obtain r3 d3 where e: "enqueue_upload fails (CopyTable dest ?g table) (ar_bytes (dp_table ?dp)) ?d2 = (r3, d3)" by fastforce
      have ae: "appends d1 d3 (is_ok r3) [HostWrites (TableStaging ?g), BindContext, CopyTable dest ?g table]"
        using enqueue_upload_appends [OF e] ok by (auto intro: appends_note simp: table_ok_def)
      show ?thesis
      proof (cases r3)
        case (Inl x)
        then have "\<not> is_ok r \<and> d' = d3" using run False w Inr u addr e by (auto simp: publish_table_def Let_def)
        moreover have "appends d d3 False (?sync @ [HostWrites (TableStaging ?g), BindContext, CopyTable dest ?g table] @ [RecordFence (TableFence ?g)])"
          by (rule appends_trans [OF aw [unfolded Inr is_ok_simps] appends_stop [OF ae [unfolded Inl is_ok_simps]]])
        ultimately show ?thesis by (intro exI [of _ dest]) (simp add: table_events_def Let_def)
      next
        case inr: (Inr w')
        obtain r4 d4 where f: "issue fails ''recording an indirection-table generation fence'' (RecordFence (TableFence ?g)) d3 = (r4, d4)"
          by fastforce
        have "appends d d4 (is_ok r4) (table_events dp dest table)"
          using appends_trans [OF aw [unfolded Inr is_ok_simps] appends_trans [OF ae [unfolded inr is_ok_simps] appends_issue [OF f]]]
          by (simp add: table_events_def Let_def)
        moreover have "d' = d4 \<and> (is_ok r \<longleftrightarrow> is_ok r4) \<and> (is_ok r \<longrightarrow> dp' = table_after table dp)"
          using run False w Inr u addr e inr f
          by (cases r4) (auto simp: publish_table_def table_after_def Let_def)
        ultimately show ?thesis by auto
      qed
    qed
  qed
qed

section \<open>The reclaim ring\<close>

definition reclaim_ok :: "transfer_stream \<Rightarrow> stream_event list \<Rightarrow> bool" where
  "reclaim_ok ts evs \<longleftrightarrow> length (ts_released ts) = RECLAIM_FENCE_GENERATIONS \<and>
    (\<forall>k<live_reclaims ts. last_release evs k = Some (ts_released ts ! k))"

lemma reclaim_index_less: "age < live_reclaims ts \<Longrightarrow> reclaim_index ts age < live_reclaims ts"
  by (auto simp: reclaim_index_def live_reclaims_def RECLAIM_FENCE_GENERATIONS_def min_def split: if_splits)

lemma wait_reclaim_appends:
  assumes run: "wait_reclaim fails g ts d = (r, d')" and ok: "reclaim_ok ts evs"
  shows "\<exists>k released. last_release evs k = Some released \<and> g \<le> released \<and> appends d d' (is_ok r) [StreamWaits (ReclaimFence k)] \<or>
    d' = d \<and> (is_ok r \<longrightarrow> g = 0)"
proof (cases "g = 0 \<or> d' = d \<and> \<not> is_ok r")
  case True
  then have "d' = d \<and> (is_ok r \<longrightarrow> g = 0)" using run by (auto simp: wait_reclaim_def)
  then show ?thesis by blast
next
  case False
  let ?find = "find (\<lambda>index. ts_released ts ! index \<ge> g) (map (reclaim_index ts) [0..<live_reclaims ts])"
  obtain k where k: "?find = Some k" and run': "issue fails ''waiting on a reclaim fence'' (StreamWaits (ReclaimFence k)) d = (r, d')"
    using run False by (auto simp: wait_reclaim_def Let_def split: if_splits option.splits)
  have "k \<in> set (map (reclaim_index ts) [0..<live_reclaims ts]) \<and> g \<le> ts_released ts ! k"
    using k by (auto simp: find_Some_iff in_set_conv_nth)
  then have "k < live_reclaims ts" "g \<le> ts_released ts ! k" using reclaim_index_less by auto
  then show ?thesis using appends_issue [OF run'] ok by (auto simp: reclaim_ok_def)
qed

lemma reclaim_ok_record:
  assumes run: "record_reclaim fails ctx g ts d = (r, ts', d')" and ok: "reclaim_ok ts (dl_events d)"
  shows "reclaim_ok ts' (dl_events d') \<and> (dl_events d' = dl_events d \<or> (\<exists>k. dl_events d' = dl_events d @ [ReleaseRecorded k g]))"
proof (cases "is_ok r")
  case False
  have "ts' = ts \<and> dl_events d' = dl_events d"
    using run False by (auto simp: record_reclaim_def issue_def Let_def split: if_splits)
  then show ?thesis using ok by simp
next
  case True
  let ?k = "ts_recorded ts mod RECLAIM_FENCE_GENERATIONS"
  have ts': "ts' = ts\<lparr>ts_released := (ts_released ts)[?k := g], ts_recorded := wrapping_inc (ts_recorded ts)\<rparr>"
    and d': "dl_events d' = dl_events d @ [ReleaseRecorded ?k g]"
    using run True by (auto simp: record_reclaim_def issue_def Let_def split: if_splits)
  have "last_release (dl_events d') k = Some (ts_released ts' ! k)" if k: "k < live_reclaims ts'" for k
  proof (cases "k = ?k")
    case eq: True
    have "?k < length (ts_released ts)" using ok by (simp add: reclaim_ok_def RECLAIM_FENCE_GENERATIONS_def)
    then show ?thesis using eq by (simp add: ts' d' last_release_append)
  next
    case False
    have "ts_recorded ts' \<le> ts_recorded ts + 1" by (simp add: ts' wrapping_inc_def)
    then have "k < live_reclaims ts"
      using k False by (cases "ts_recorded ts < 4") (auto simp: live_reclaims_def RECLAIM_FENCE_GENERATIONS_def)
    then show ?thesis using ok False by (simp add: ts' d' last_release_append reclaim_ok_def)
  qed
  then show ?thesis using ok d' by (simp add: reclaim_ok_def ts')
qed

end
