(* ===== verification/StreamResidency.thy ===== *)
theory StreamResidency
  imports StreamPool TransferTrace
begin

text \<open>
  What the streaming weight pool keeps true of device memory: the invariant that ties residency to the
  bytes and the table the transfer stream has written, and how one assignment, one enqueue loop and one
  publication move it.
\<close>

section \<open>Observations of a pool\<close>

abbreviation sp_events :: "stream_pool \<Rightarrow> stream_event list" where
  "sp_events sp \<equiv> dl_events (sp_log sp)"

text \<open>The bytes item \<open>i\<close> is made of: pinned as a whole, or mapped primary followed by pinned secondary.\<close>

definition pool_extent :: "stream_pool \<Rightarrow> nat \<Rightarrow> nat list" where
  "pool_extent sp i =
    (let l = sp_layout sp; host = drop (i * sl_host_stride_bytes l) (pp_storage (sp_host sp)) in
     if sl_primary_source l = PinnedPrimary then take (sl_extent_bytes l) host
     else (case sp_mapped sp of None \<Rightarrow> [] | Some mapped \<Rightarrow> (case mapped i of Inl e \<Rightarrow> [] | Inr primary \<Rightarrow> primary)) @
       take (sl_secondary_extent_bytes l) host)"

definition slot_holds :: "stream_event list \<Rightarrow> nat \<Rightarrow> nat list \<Rightarrow> bool" where
  "slot_holds evs address bytes \<longleftrightarrow> (\<forall>k<length bytes. device_bytes evs (address + k) = bytes ! k)"

definition pool_static :: "stream_pool \<Rightarrow> bool" where
  "pool_static sp \<longleftrightarrow>
    (let l = sp_layout sp in
     length (sp_staged sp) = sl_item_count l \<and> length (item_slot (sp_cache sp)) = sl_item_count l \<and>
     length (slot_item (sp_cache sp)) = sl_slot_count l \<and>
     dp_slot_bytes (sp_slots sp) = sl_stride_bytes l \<and> dp_item_count (sp_slots sp) = sl_item_count l \<and>
     0 < sl_primary_extent_bytes l \<and> sl_extent_bytes l \<le> sl_stride_bytes l \<and>
     pp_bytes (sp_host sp) = sl_item_count l * sl_host_stride_bytes l \<and>
     length (pp_storage (sp_host sp)) = pp_bytes (sp_host sp) \<and>
     (if sl_primary_source l = PinnedPrimary then sl_host_stride_bytes l = sl_stride_bytes l
      else sl_secondary_extent_bytes l \<le> sl_host_stride_bytes l))"

definition pool_memory :: "stream_pool \<Rightarrow> bool" where
  "pool_memory sp \<longleftrightarrow> host_memory_safe (sp_events sp) \<and> (\<forall>b. sp_bounce sp = Some b \<longrightarrow> ring_ok b (sp_events sp)) \<and>
    table_ok (sp_slots sp) (sp_events sp)"

definition pool_slot_address :: "stream_pool \<Rightarrow> nat \<Rightarrow> nat gpu_result" where
  "pool_slot_address sp slot = dp_slot_address (sp_slots sp) slot"

text \<open>Slot \<open>s\<close> holds the admitted bytes of item \<open>i\<close>.\<close>

definition slot_serves :: "stream_pool \<Rightarrow> nat \<Rightarrow> nat \<Rightarrow> bool" where
  "slot_serves sp s i \<longleftrightarrow> i < length (sp_staged sp) \<and> sp_staged sp ! i \<and>
    length (pool_extent sp i) = sl_extent_bytes (sp_layout sp) \<and>
    (\<exists>a. pool_slot_address sp s = Inr a \<and> slot_holds (sp_events sp) a (pool_extent sp i))"

definition slots_serve :: "stream_pool \<Rightarrow> bool" where
  "slots_serve sp \<longleftrightarrow> (\<forall>s<length (slot_item (sp_cache sp)). slot_item (sp_cache sp) ! s \<noteq> STREAMING_ABSENT_ITEM \<longrightarrow>
     slot_serves sp s (slot_item (sp_cache sp) ! s))"

definition pool_resident :: "stream_pool \<Rightarrow> bool" where
  "pool_resident sp \<longleftrightarrow> slots_serve sp \<and>
    device_table (sl_item_count (sp_layout sp)) (sp_events sp) = item_slot (sp_cache sp)"

definition pool_inv :: "stream_pool \<Rightarrow> bool" where
  "pool_inv sp \<longleftrightarrow> pool_static sp \<and> cache_inv (sp_cache sp) \<and> reclaim_ok (sp_transfer sp) (sp_events sp) \<and>
    host_memory_safe (sp_events sp) \<and> (sp_poisoned sp = None \<longrightarrow> pool_memory sp \<and> pool_resident sp)"

section \<open>Slot addresses\<close>

lemma slot_address_base:
  "dp_slot_address dp s = Inr a \<Longrightarrow>
    \<exists>base. arena_address (dp_arena dp) 1 (dp_slots dp) = Inr base \<and> a = base + s * dp_slot_bytes dp"
  by (auto simp: dp_slot_address_def rbind_Inr_iff checked_mul_def checked_add_def ok_or_def split: option.splits if_splits)

lemma slot_ranges_disjoint:
  assumes "dp_slot_address dp s = Inr a" and "dp_slot_address dp t = Inr b" and "s \<noteq> t"
  shows "a + dp_slot_bytes dp \<le> b \<or> b + dp_slot_bytes dp \<le> a"
proof -
  obtain base where "a = base + s * dp_slot_bytes dp" "b = base + t * dp_slot_bytes dp"
    using slot_address_base [OF assms(1)] slot_address_base [OF assms(2)] by auto
  moreover have "(s + 1) * dp_slot_bytes dp \<le> t * dp_slot_bytes dp \<or> (t + 1) * dp_slot_bytes dp \<le> s * dp_slot_bytes dp"
    using assms(3) by (cases "s < t") (auto intro!: mult_le_mono1 simp del: mult_Suc)
  ultimately show ?thesis by auto
qed

section \<open>Upload events\<close>

fun upload_event :: "nat \<Rightarrow> nat \<Rightarrow> stream_event \<Rightarrow> bool" where
  "upload_event lo hi (CopyBytes dest rg bytes) = (lo \<le> dest \<and> dest + length bytes \<le> hi)"
| "upload_event lo hi (CopyTable dest g words) = False"
| "upload_event lo hi (ReleaseRecorded k g) = False"
| "upload_event lo hi ev = True"

lemma device_bytes_outside:
  "\<forall>ev\<in>set new. upload_event lo hi ev \<Longrightarrow> x < lo \<or> hi \<le> x \<Longrightarrow> device_bytes (evs @ new) x = device_bytes evs x"
proof (induction new arbitrary: evs)
  case (Cons ev new)
  have "device_bytes (evs @ [ev]) x = device_bytes evs x" using Cons.prems by (cases ev) (auto simp: device_bytes_snoc)
  then show ?case using Cons.IH [of "evs @ [ev]"] Cons.prems by simp
qed simp

lemma upload_event_mono: "upload_event lo hi ev \<Longrightarrow> lo' \<le> lo \<Longrightarrow> upload_event lo' hi ev"
  by (cases ev) auto

lemma upload_no_release: "upload_event lo hi ev \<Longrightarrow> \<not> is_release ev"
  by (cases ev) simp_all

lemma upload_no_table: "upload_event lo hi ev \<Longrightarrow> \<not> (\<exists>dest g words. ev = CopyTable dest g words)"
  by auto

lemma upload_bounce_events:
  assumes "A \<le> dest" and "dest + length source \<le> hi"
  shows "\<forall>ev\<in>set (bounce_events br dest source). upload_event A hi ev"
  using assms by (auto simp: bounce_events_def Let_def)

lemma device_bytes_bounce:
  "device_bytes (evs @ bounce_events br dest source) =
    (\<lambda>x. if dest \<le> x \<and> x < dest + length source then source ! (x - dest) else device_bytes evs x)"
  by (cases "br_fenced br ! (br_cursor br mod br_slot_count br)") (simp_all add: device_bytes_append bounce_events_def Let_def)

lemma device_bytes_pinned:
  "device_bytes (evs @ [BindContext, CopyBytes dest rg bytes]) =
    (\<lambda>x. if dest \<le> x \<and> x < dest + length bytes then bytes ! (x - dest) else device_bytes evs x)"
  by (simp add: device_bytes_append)

lemma pinned_upload_memory:
  "host_memory_safe (evs @ [BindContext, CopyBytes dest PinnedItems bytes]) = host_memory_safe evs"
  "region_of (evs @ [BindContext, CopyBytes dest PinnedItems bytes]) = (region_of evs)(PinnedItems := InFlight)"
  by (simp_all add: memory_fold)

lemma pinned_source_eq:
  "pinned_source off n p = Inr data \<Longrightarrow> data = take n (drop off (pp_storage p)) \<and> off + n \<le> pp_bytes p"
  by (auto simp: pinned_source_def checked_add_def split: if_splits)

section \<open>One assignment\<close>

definition assignment_safe :: "stream_pool \<Rightarrow> nat \<Rightarrow> stream_event list \<Rightarrow> bool" where
  "assignment_safe sp A full \<longleftrightarrow> host_memory_safe (sp_events sp @ full) \<and>
    (\<forall>ev\<in>set full. upload_event A (A + sl_stride_bytes (sp_layout sp)) ev)"

text \<open>What an assignment may change, and what it establishes when it succeeds.\<close>

definition assignment_result :: "stream_pool \<Rightarrow> slot_assignment \<Rightarrow> bool \<Rightarrow> stream_pool \<Rightarrow> bool" where
  "assignment_result sp a ok sp' \<longleftrightarrow>
    sp' = sp\<lparr>sp_bounce := sp_bounce sp', sp_log := sp_log sp'\<rparr> \<and>
    (\<exists>A full. (pool_slot_address sp (as_slot a) = Inr A \<or> full = [] \<and> \<not> ok) \<and> assignment_safe sp A full \<and>
       appends (sp_log sp) (sp_log sp') ok full \<and>
       (ok \<longrightarrow> pool_memory sp' \<and> slot_holds (sp_events sp @ full) A (pool_extent sp (as_item a)) \<and>
          length (pool_extent sp (as_item a)) = sl_extent_bytes (sp_layout sp)))"

lemma assignment_refused: "pool_memory sp \<Longrightarrow> assignment_result sp a False sp"
  unfolding assignment_result_def assignment_safe_def pool_memory_def by (intro conjI exI [of _ 0] exI [of _ "[]"]) simp_all

lemma item_offset_eq: "sl_item_offset l i = Inr off \<Longrightarrow> off = i * sl_host_stride_bytes l \<and> i < sl_item_count l"
  by (auto simp: sl_item_offset_def product_def checked_mul_def ok_or_def split: if_splits option.splits)

lemma host_extent_fits:
  assumes st: "pool_static sp" and i: "i < sl_item_count (sp_layout sp)" and n: "n \<le> sl_host_stride_bytes (sp_layout sp)"
  shows "length (take n (drop (i * sl_host_stride_bytes (sp_layout sp)) (pp_storage (sp_host sp)))) = n"
proof -
  let ?h = "sl_host_stride_bytes (sp_layout sp)"
  have "(i + 1) * ?h \<le> sl_item_count (sp_layout sp) * ?h" using i by (intro mult_le_mono1) simp
  then show ?thesis using st n by (simp add: pool_static_def Let_def)
qed

lemma assignment_pinned:
  assumes run: "pool_enqueue_assignment fails a sp = (r, sp')" and pin: "sl_primary_source (sp_layout sp) = PinnedPrimary"
    and st: "pool_static sp" and mem: "pool_memory sp"
  shows "assignment_result sp a (is_ok r) sp'"
proof (cases "sl_item_offset (sp_layout sp) (as_item a)")
  case (Inl e)
  then have "\<not> is_ok r \<and> sp' = sp" using run by (auto simp: pool_enqueue_assignment_def Let_def)
  then show ?thesis using assignment_refused [OF mem] by simp
next
  case (Inr off)
  let ?l = "sp_layout sp"
  have stride: "dp_slot_bytes (sp_slots sp) = sl_stride_bytes ?l" "sl_stride_bytes ?l \<noteq> 0" "sl_extent_bytes ?l \<le> sl_stride_bytes ?l"
    using st by (simp_all add: pool_static_def Let_def sl_extent_bytes_def)
  obtain q d where up: "enqueue_slot_extent_upload fails (sp_transfer sp) (as_slot a) 0 (sp_host sp) off
      (sl_stride_bytes ?l) (sp_slots sp) (sp_log sp) = (q, d)" by fastforce
  have res: "is_ok r = is_ok q" "sp' = sp\<lparr>sp_log := d\<rparr>"
    using run Inr pin up stride(1)
    by (cases q; simp add: pool_enqueue_assignment_def enqueue_slot_upload_def Let_def lift_gpu_def; auto)+
  from slot_extent_upload_appends [OF up stride(2)]
  show ?thesis
  proof (elim disjE exE conjE)
    assume "d = sp_log sp" "\<not> is_ok q"
    then show ?thesis using res assignment_refused [OF mem] by simp
  next
    fix A data
    assume A: "dp_slot_address (sp_slots sp) (as_slot a) = Inr A" and src: "pinned_source off (sl_stride_bytes ?l) (sp_host sp) = Inr data"
      and ap: "appends (sp_log sp) d (is_ok q) [BindContext, CopyBytes (A + 0) PinnedItems data]"
    let ?full = "[BindContext, CopyBytes A PinnedItems data]"
    have data: "data = take (sl_stride_bytes ?l) (drop off (pp_storage (sp_host sp)))" "length data = sl_stride_bytes ?l"
      using pinned_source_eq [OF src] st by (auto simp: pool_static_def Let_def)
    have "assignment_safe sp A ?full"
      using mem data(2) by (simp add: assignment_safe_def pinned_upload_memory pool_memory_def)
    moreover have "pool_memory sp'" if ok: "is_ok q"
    proof -
      have ev: "sp_events sp' = sp_events sp @ ?full" using ap ok res(2) by (simp add: appends_def)
      show ?thesis
        using mem ring_ok_frame [of _ "sp_events sp" "sp_events sp @ ?full"] table_ok_frame [of _ "sp_events sp" "sp_events sp @ ?full"]
        unfolding pool_memory_def ev by (simp add: pinned_upload_memory res(2))
    qed
    moreover have "slot_holds (sp_events sp @ ?full) A (pool_extent sp (as_item a))"
      using item_offset_eq [OF Inr] data stride(3) pin
      by (auto simp: slot_holds_def device_bytes_pinned pool_extent_def Let_def)
    moreover have "length (pool_extent sp (as_item a)) = sl_extent_bytes ?l"
      using host_extent_fits [OF st] item_offset_eq [OF Inr] stride(3) pin st by (simp add: pool_extent_def Let_def pool_static_def)
    ultimately show ?thesis
      unfolding assignment_result_def using A ap res by (intro conjI exI [of _ A] exI [of _ ?full]) (simp_all add: pool_slot_address_def)
  qed
qed

lemma slot_holds_append:
  "slot_holds evs A xs \<Longrightarrow> slot_holds evs (A + length xs) ys \<Longrightarrow> slot_holds evs A (xs @ ys)"
  by (auto simp: slot_holds_def nth_append) (metis add.assoc add_diff_inverse_nat nat_add_left_cancel_less)

lemma slot_holds_cong:
  "(\<And>x. A \<le> x \<Longrightarrow> x < A + length bytes \<Longrightarrow> device_bytes evs' x = device_bytes evs x) \<Longrightarrow>
    slot_holds evs' A bytes = slot_holds evs A bytes"
  by (simp add: slot_holds_def)

lemma bounce_refused_big: "\<not> length source \<le> br_slot_bytes br \<Longrightarrow> \<not> is_ok (fst (bounce_upload fails ts dest source br d))"
  by (simp add: bounce_upload_def)

lemma assignment_mapped_primary:
  assumes up: "bounce_upload fails (sp_transfer sp) A primary b (sp_log sp) = (q, b', d)" and b: "sp_bounce sp = Some b"
    and mem: "pool_memory sp"
  shows "appends (sp_log sp) d (is_ok q) (bounce_events b A primary)"
    and "host_memory_safe (sp_events sp @ bounce_events b A primary)"
    and "is_ok q \<Longrightarrow> pool_memory (sp\<lparr>sp_bounce := Some b', sp_log := d\<rparr>)"
    and "slot_holds (sp_events sp @ bounce_events b A primary) A primary"
proof -
  have ring: "ring_ok b (sp_events sp)" and safe: "host_memory_safe (sp_events sp)" using mem b by (simp_all add: pool_memory_def)
  show ap: "appends (sp_log sp) d (is_ok q) (bounce_events b A primary)" using bounce_upload_appends [OF up ring] by simp
  show safe': "host_memory_safe (sp_events sp @ bounce_events b A primary)" by (rule bounce_events_memory(1) [OF ring safe])
  show "slot_holds (sp_events sp @ bounce_events b A primary) A primary" by (simp add: slot_holds_def device_bytes_bounce)
  show "pool_memory (sp\<lparr>sp_bounce := Some b', sp_log := d\<rparr>)" if ok: "is_ok q"
  proof -
    have d: "dl_events d = sp_events sp @ bounce_events b A primary" using ap ok by (simp add: appends_def)
    have b': "b' = bounce_after primary b" using bounce_upload_appends [OF up ring] ok by simp
    have "length primary \<le> br_slot_bytes b" using bounce_refused_big [of primary b fails "sp_transfer sp" A "sp_log sp"] up ok by auto
    then have "ring_ok b' (dl_events d)" unfolding d b' by (rule ring_ok_after [OF ring safe])
    moreover have "table_ok (sp_slots sp) (dl_events d)"
      unfolding d by (rule table_ok_frame [of _ "sp_events sp"]) (use mem bounce_events_memory(2) [OF ring safe] in \<open>simp_all add: pool_memory_def\<close>)
    ultimately show ?thesis using safe' by (simp add: pool_memory_def d)
  qed
qed

lemma assignment_mapped_secondary:
  assumes up: "enqueue_slot_extent_upload fails (sp_transfer sp) slot p (sp_host sp) (i * sl_host_stride_bytes l) n (sp_slots sp) (sp_log sp) = (q, d)"
    and n: "n \<noteq> 0" and addr: "pool_slot_address sp slot = Inr A" and st: "pool_static sp" and mem: "pool_memory sp"
  shows "\<exists>full. appends (sp_log sp) d (is_ok q) full \<and> host_memory_safe (sp_events sp @ full) \<and>
    (\<forall>ev\<in>set full. upload_event (A + p) (A + sl_stride_bytes (sp_layout sp)) ev) \<and>
    (is_ok q \<longrightarrow> pool_memory (sp\<lparr>sp_log := d\<rparr>) \<and>
       slot_holds (sp_events sp @ full) (A + p) (take n (drop (i * sl_host_stride_bytes l) (pp_storage (sp_host sp)))))"
  using slot_extent_upload_appends [OF up n]
proof (elim disjE exE conjE)
  assume "d = sp_log sp" "\<not> is_ok q"
  then show ?thesis using mem by (intro exI [of _ "[]"]) (simp add: pool_memory_def)
next
  fix A' data
  assume A': "dp_slot_address (sp_slots sp) slot = Inr A'" and fit: "p + n \<le> dp_slot_bytes (sp_slots sp)"
    and src: "pinned_source (i * sl_host_stride_bytes l) n (sp_host sp) = Inr data"
    and ap: "appends (sp_log sp) d (is_ok q) [BindContext, CopyBytes (A' + p) PinnedItems data]"
  let ?full = "[BindContext, CopyBytes (A + p) PinnedItems data]"
  have eq: "A' = A" using A' addr by (simp add: pool_slot_address_def)
  have data: "data = take n (drop (i * sl_host_stride_bytes l) (pp_storage (sp_host sp)))" "length data = n"
    using pinned_source_eq [OF src] st by (auto simp: pool_static_def Let_def)
  have "pool_memory (sp\<lparr>sp_log := d\<rparr>)" if ok: "is_ok q"
  proof -
    have ev: "dl_events d = sp_events sp @ ?full" using ap ok eq by (simp add: appends_def)
    show ?thesis
      using mem ring_ok_frame [of _ "sp_events sp" "sp_events sp @ ?full"] table_ok_frame [of _ "sp_events sp" "sp_events sp @ ?full"]
      unfolding pool_memory_def by (simp add: pinned_upload_memory ev)
  qed
  moreover have "slot_holds (sp_events sp @ ?full) (A + p) data" by (simp add: slot_holds_def device_bytes_pinned)
  moreover have "host_memory_safe (sp_events sp @ ?full)" using mem by (simp add: pinned_upload_memory pool_memory_def)
  moreover have "dp_slot_bytes (sp_slots sp) = sl_stride_bytes (sp_layout sp)" using st by (simp add: pool_static_def Let_def)
  ultimately show ?thesis using ap eq data fit by (intro exI [of _ ?full]) simp
qed

lemma assignment_mapped:
  assumes run: "pool_enqueue_assignment fails a sp = (r, sp')" and pin: "sl_primary_source (sp_layout sp) \<noteq> PinnedPrimary"
    and st: "pool_static sp" and mem: "pool_memory sp"
  shows "assignment_result sp a (is_ok r) sp'"
proof (cases "\<not> is_ok r \<and> sp' = sp")
  case True
  then show ?thesis using assignment_refused [OF mem] by simp
next
  case False
  let ?l = "sp_layout sp" and ?i = "as_item a"
  obtain mapped b primary A where
    off: "sl_item_offset ?l ?i = Inr (?i * sl_host_stride_bytes ?l)" and m: "sp_mapped sp = Some mapped" and b: "sp_bounce sp = Some b"
    and primary: "mapped ?i = Inr primary" "length primary = sl_primary_extent_bytes ?l"
    and A: "dp_slot_address (sp_slots sp) (as_slot a) = Inr A"
    using run pin False item_offset_eq [of ?l ?i]
    by (auto simp: pool_enqueue_assignment_def Let_def split: sum.splits option.splits if_splits)
  obtain q b' d where up: "bounce_upload fails (sp_transfer sp) A primary b (sp_log sp) = (q, b', d)"
    by (cases "bounce_upload fails (sp_transfer sp) A primary b (sp_log sp)") auto
  let ?sp1 = "sp\<lparr>sp_bounce := Some b', sp_log := d\<rparr>" and ?hi = "A + sl_stride_bytes ?l"
  let ?n = "sl_secondary_extent_bytes ?l" and ?p = "sl_primary_extent_bytes ?l"
  note b1 = assignment_mapped_primary [OF up b mem]
  have fit: "?p + ?n \<le> sl_stride_bytes ?l" using st by (simp add: pool_static_def Let_def sl_extent_bytes_def)
  have ev1: "\<forall>ev\<in>set (bounce_events b A primary). upload_event A ?hi ev"
    by (rule upload_bounce_events) (use primary fit in simp_all)
  have extent: "pool_extent sp ?i = primary @ take ?n (drop (?i * sl_host_stride_bytes ?l) (pp_storage (sp_host sp)))"
    using pin m primary by (simp add: pool_extent_def Let_def)
  have addr: "pool_slot_address sp (as_slot a) = Inr A" using A by (simp add: pool_slot_address_def)
  have len: "length (pool_extent sp ?i) = sl_extent_bytes ?l"
    using host_extent_fits [OF st, of ?i ?n] item_offset_eq [OF off] primary pin st
    by (simp add: extent sl_extent_bytes_def pool_static_def Let_def)
  show ?thesis
  proof (cases "is_ok q \<and> ?n \<noteq> 0")
    case stop: False
    have "is_ok r = is_ok q \<and> sp' = ?sp1"
      using run pin off m b primary A up stop by (cases q) (auto simp: pool_enqueue_assignment_def Let_def)
    moreover have "take ?n (drop (?i * sl_host_stride_bytes ?l) (pp_storage (sp_host sp))) = []" if "is_ok q" using stop that by simp
    ultimately show ?thesis
      unfolding assignment_result_def using addr b1 ev1 extent len
      by (intro conjI exI [of _ A] exI [of _ "bounce_events b A primary"]) (auto simp: assignment_safe_def)
  next
    case go: True
    obtain q2 d2 where up2: "enqueue_slot_extent_upload fails (sp_transfer ?sp1) (as_slot a) ?p (sp_host ?sp1)
        (?i * sl_host_stride_bytes ?l) ?n (sp_slots ?sp1) (sp_log ?sp1) = (q2, d2)" by fastforce
    have res: "is_ok r = is_ok q2" "sp' = sp\<lparr>sp_bounce := Some b', sp_log := d2\<rparr>"
      using run pin off m b primary A up go up2 by (auto simp: pool_enqueue_assignment_def Let_def lift_gpu_def is_ok_iff split: sum.splits)
    have st1: "pool_static ?sp1" using st by (simp add: pool_static_def Let_def)
    have addr1: "pool_slot_address ?sp1 (as_slot a) = Inr A" using addr by (simp add: pool_slot_address_def)
    have ok1: "pool_memory ?sp1" using b1(3) go by simp
    obtain full where full: "appends (sp_log ?sp1) d2 (is_ok q2) full" "host_memory_safe (sp_events ?sp1 @ full)"
      "\<forall>ev\<in>set full. upload_event (A + ?p) ?hi ev"
      "is_ok q2 \<longrightarrow> pool_memory (?sp1\<lparr>sp_log := d2\<rparr>) \<and>
        slot_holds (sp_events ?sp1 @ full) (A + ?p) (take ?n (drop (?i * sl_host_stride_bytes ?l) (pp_storage (sp_host ?sp1))))"
      using assignment_mapped_secondary [OF up2 _ addr1 st1 ok1] go by auto
    have d: "dl_events d = sp_events sp @ bounce_events b A primary" using b1(1) go by (simp add: appends_def)
    let ?full = "bounce_events b A primary @ full"
    have "appends (sp_log sp) d2 (is_ok q2) ?full" using appends_trans b1(1) go full(1) by simp
    moreover have "\<forall>ev\<in>set full. upload_event A ?hi ev" using full(3) upload_event_mono [of "A + ?p" ?hi _ A] by simp
    then have "assignment_safe sp A ?full" using full(2) ev1 d by (auto simp: assignment_safe_def)
    moreover have "slot_holds (sp_events sp @ ?full) A primary"
    proof -
      have "slot_holds ((sp_events sp @ bounce_events b A primary) @ full) A primary = slot_holds (sp_events sp @ bounce_events b A primary) A primary"
        by (rule slot_holds_cong, rule device_bytes_outside [OF full(3)]) (use primary in simp)
      then show ?thesis using b1(4) by simp
    qed
    moreover have "slot_holds (sp_events sp @ ?full) A (pool_extent sp ?i)" if "is_ok q2"
      unfolding extent by (rule slot_holds_append) (use calculation(3) full(4) that d primary in simp_all)
    ultimately show ?thesis
      unfolding assignment_result_def using addr full(4) res len
      by (intro conjI exI [of _ A] exI [of _ ?full]) simp_all
  qed
qed

lemma assignment_effect:
  assumes "pool_enqueue_assignment fails a sp = (r, sp')" and "pool_static sp" and "pool_memory sp"
  shows "assignment_result sp a (is_ok r) sp'"
  using assignment_pinned [OF assms(1) _ assms(2,3)] assignment_mapped [OF assms(1) _ assms(2,3)] by blast

section \<open>The enqueue loop\<close>

lemma pool_extent_frame [simp]:
  "pool_extent (sp\<lparr>sp_bounce := b\<rparr>) = pool_extent sp" "pool_extent (sp\<lparr>sp_log := d\<rparr>) = pool_extent sp"
  "pool_extent (sp\<lparr>sp_cache := c\<rparr>) = pool_extent sp" "pool_extent (sp\<lparr>sp_poisoned := q\<rparr>) = pool_extent sp"
  "pool_extent (sp\<lparr>sp_slots := dp\<rparr>) = pool_extent sp" "pool_extent (sp\<lparr>sp_transfer := ts\<rparr>) = pool_extent sp"
  "pool_extent (sp\<lparr>sp_assignments := as\<rparr>) = pool_extent sp" "pool_extent (sp\<lparr>sp_uploaded_bytes := u\<rparr>) = pool_extent sp"
  by (simp_all add: pool_extent_def fun_eq_iff Let_def split: option.split)

lemma pool_slot_address_frame [simp]:
  "pool_slot_address (sp\<lparr>sp_bounce := b\<rparr>) = pool_slot_address sp" "pool_slot_address (sp\<lparr>sp_log := d\<rparr>) = pool_slot_address sp"
  "pool_slot_address (sp\<lparr>sp_cache := c\<rparr>) = pool_slot_address sp" "pool_slot_address (sp\<lparr>sp_poisoned := q\<rparr>) = pool_slot_address sp"
  "pool_slot_address (sp\<lparr>sp_transfer := ts\<rparr>) = pool_slot_address sp" "pool_slot_address (sp\<lparr>sp_host := h\<rparr>) = pool_slot_address sp"
  "pool_slot_address (sp\<lparr>sp_assignments := as\<rparr>) = pool_slot_address sp"
  "pool_slot_address (sp\<lparr>sp_uploaded_bytes := u\<rparr>) = pool_slot_address sp" "pool_slot_address (sp\<lparr>sp_staged := g\<rparr>) = pool_slot_address sp"
  by (simp_all add: pool_slot_address_def fun_eq_iff)

text \<open>The events \<open>new\<close> copy no table, record no release, and change device bytes only inside the slots of \<open>as\<close>.\<close>

definition within_slots :: "stream_pool \<Rightarrow> slot_assignment list \<Rightarrow> stream_event list \<Rightarrow> stream_event list \<Rightarrow> bool" where
  "within_slots sp as evs new \<longleftrightarrow>
    (\<forall>ev\<in>set new. \<not> is_release ev \<and> \<not> (\<exists>dest g words. ev = CopyTable dest g words)) \<and>
    (\<forall>x. device_bytes (evs @ new) x \<noteq> device_bytes evs x \<longrightarrow>
       (\<exists>a\<in>set as. \<exists>A. pool_slot_address sp (as_slot a) = Inr A \<and> A \<le> x \<and> x < A + sl_stride_bytes (sp_layout sp)))"

definition loaded :: "stream_pool \<Rightarrow> stream_event list \<Rightarrow> slot_assignment \<Rightarrow> bool" where
  "loaded sp evs a \<longleftrightarrow> length (pool_extent sp (as_item a)) = sl_extent_bytes (sp_layout sp) \<and>
    (\<exists>A. pool_slot_address sp (as_slot a) = Inr A \<and> slot_holds evs A (pool_extent sp (as_item a)))"

lemma within_slots_Nil [simp]: "within_slots sp as evs []"
  by (simp add: within_slots_def)

lemma within_slots_append:
  assumes "within_slots sp as evs new" and "within_slots sp bs (evs @ new) new'"
  shows "within_slots sp (as @ bs) evs (new @ new')"
  unfolding within_slots_def
proof (intro conjI allI impI)
  show "\<forall>ev\<in>set (new @ new'). \<not> is_release ev \<and> \<not> (\<exists>dest g words. ev = CopyTable dest g words)"
    using assms unfolding within_slots_def set_append by blast
  fix x assume "device_bytes (evs @ new @ new') x \<noteq> device_bytes evs x"
  then have "device_bytes ((evs @ new) @ new') x \<noteq> device_bytes (evs @ new) x \<or> device_bytes (evs @ new) x \<noteq> device_bytes evs x" by auto
  then show "\<exists>a\<in>set (as @ bs). \<exists>A. pool_slot_address sp (as_slot a) = Inr A \<and> A \<le> x \<and> x < A + sl_stride_bytes (sp_layout sp)"
    using assms unfolding within_slots_def set_append by blast
qed

lemma within_slots_mono: "within_slots sp as evs new \<Longrightarrow> set as \<subseteq> set bs \<Longrightarrow> within_slots sp bs evs new"
  unfolding within_slots_def by blast

lemma within_slots_quiet:
  assumes "within_slots sp as evs new"
  shows "device_table n (evs @ new) = device_table n evs" and "last_release (evs @ new) = last_release evs"
  using assms device_table_quiet [of new n evs] last_release_quiet [of new evs] unfolding within_slots_def by blast+

lemma upload_within_slots:
  assumes "\<forall>ev\<in>set new. upload_event A (A + sl_stride_bytes (sp_layout sp)) ev" and "pool_slot_address sp (as_slot a) = Inr A"
  shows "within_slots sp [a] evs new"
proof -
  have "A \<le> x \<and> x < A + sl_stride_bytes (sp_layout sp)" if "device_bytes (evs @ new) x \<noteq> device_bytes evs x" for x
    using device_bytes_outside [OF assms(1)] that by (meson not_le)
  then show ?thesis
    unfolding within_slots_def using assms upload_no_release upload_no_table by (metis list.set_intros(1))
qed

lemma loaded_kept:
  assumes "loaded sp evs a" and "within_slots sp as evs new" and st: "pool_static sp" and "as_slot a \<notin> as_slot ` set as"
  shows "loaded sp (evs @ new) a"
proof -
  obtain A where A: "pool_slot_address sp (as_slot a) = Inr A" "slot_holds evs A (pool_extent sp (as_item a))"
    and len: "length (pool_extent sp (as_item a)) = sl_extent_bytes (sp_layout sp)"
    using assms(1) by (auto simp: loaded_def)
  have stride: "dp_slot_bytes (sp_slots sp) = sl_stride_bytes (sp_layout sp)" "sl_extent_bytes (sp_layout sp) \<le> sl_stride_bytes (sp_layout sp)"
    using st by (simp_all add: pool_static_def Let_def)
  have "device_bytes (evs @ new) x = device_bytes evs x" if x: "A \<le> x" "x < A + length (pool_extent sp (as_item a))" for x
  proof (rule ccontr)
    assume "device_bytes (evs @ new) x \<noteq> device_bytes evs x"
    then obtain b B where b: "b \<in> set as" "pool_slot_address sp (as_slot b) = Inr B" "B \<le> x" "x < B + sl_stride_bytes (sp_layout sp)"
      using assms(2) unfolding within_slots_def by blast
    then have "as_slot a \<noteq> as_slot b" using assms(4) by auto
    then show False
      using slot_ranges_disjoint [of "sp_slots sp" "as_slot a" A "as_slot b" B] A(1) b x len stride by (auto simp: pool_slot_address_def)
  qed
  then have "slot_holds (evs @ new) A (pool_extent sp (as_item a))" using A(2) slot_holds_cong [of A] by blast
  then show ?thesis using A(1) len by (simp add: loaded_def)
qed

text \<open>A failed assignment wrote a safe prefix of its events.\<close>

lemma assignment_prefix:
  assumes "assignment_result sp a ok sp'"
  shows "\<exists>new. sp_events sp' = sp_events sp @ new \<and> host_memory_safe (sp_events sp') \<and> within_slots sp [a] (sp_events sp) new \<and>
    (ok \<longrightarrow> pool_memory sp' \<and> loaded sp (sp_events sp') a)"
proof -
  obtain A full where A: "pool_slot_address sp (as_slot a) = Inr A \<or> full = [] \<and> \<not> ok" and safe: "assignment_safe sp A full"
    and ap: "appends (sp_log sp) (sp_log sp') ok full"
    and ok: "ok \<longrightarrow> pool_memory sp' \<and> slot_holds (sp_events sp @ full) A (pool_extent sp (as_item a)) \<and>
          length (pool_extent sp (as_item a)) = sl_extent_bytes (sp_layout sp)"
    using assms by (auto simp: assignment_result_def)
  obtain pre rest where pre: "sp_events sp' = sp_events sp @ pre" "full = pre @ rest" "ok \<longrightarrow> pre = full"
    using ap by (auto simp: appends_def prefix_def)
  have "host_memory_safe (sp_events sp')"
    unfolding pre(1) by (rule host_memory_safe_prefix [of _ rest]) (use safe pre(2) in \<open>simp add: assignment_safe_def\<close>)
  moreover have "within_slots sp [a] (sp_events sp) pre"
  proof (cases "pool_slot_address sp (as_slot a) = Inr A")
    case True
    then show ?thesis by (rule upload_within_slots [rotated]) (use safe pre(2) in \<open>auto simp: assignment_safe_def\<close>)
  next
    case False
    then show ?thesis using A pre(2) by simp
  qed
  ultimately show ?thesis using pre ok A by (intro exI [of _ pre]) (auto simp: loaded_def)
qed

lemma pool_static_frame [simp]:
  "pool_static (sp\<lparr>sp_bounce := b\<rparr>) = pool_static sp" "pool_static (sp\<lparr>sp_log := d\<rparr>) = pool_static sp"
  "pool_static (sp\<lparr>sp_poisoned := q\<rparr>) = pool_static sp" "pool_static (sp\<lparr>sp_transfer := ts\<rparr>) = pool_static sp"
  "pool_static (sp\<lparr>sp_assignments := as\<rparr>) = pool_static sp" "pool_static (sp\<lparr>sp_uploaded_bytes := u\<rparr>) = pool_static sp"
  by (simp_all add: pool_static_def)

lemma within_loaded_frame [simp]:
  "within_slots (sp\<lparr>sp_bounce := b\<rparr>) = within_slots sp" "within_slots (sp\<lparr>sp_log := d\<rparr>) = within_slots sp"
  "loaded (sp\<lparr>sp_bounce := b\<rparr>) = loaded sp" "loaded (sp\<lparr>sp_log := d\<rparr>) = loaded sp"
  "within_slots (sp\<lparr>sp_cache := c\<rparr>) = within_slots sp" "within_slots (sp\<lparr>sp_assignments := as\<rparr>) = within_slots sp"
  "loaded (sp\<lparr>sp_cache := c\<rparr>) = loaded sp" "loaded (sp\<lparr>sp_assignments := as\<rparr>) = loaded sp"
  by (simp_all add: within_slots_def loaded_def fun_eq_iff)

lemma enqueue_all_effect:
  assumes "pool_enqueue_all fails as sp = (r, sp')" and "pool_static sp" and "pool_memory sp" and "distinct (map as_slot as)"
  shows "\<exists>new b d. sp_events sp' = sp_events sp @ new \<and> host_memory_safe (sp_events sp') \<and> within_slots sp as (sp_events sp) new \<and>
    (if is_ok r then sp' = sp\<lparr>sp_bounce := b, sp_log := d\<rparr> \<and> pool_memory sp' \<and> (\<forall>a\<in>set as. loaded sp (sp_events sp') a)
     else sp' = pool_poison ''enqueueing a round's slot uploads'' (sp\<lparr>sp_bounce := b, sp_log := d\<rparr>))"
  using assms
proof (induction as arbitrary: sp)
  case Nil
  then show ?case by (intro exI [of _ "[]"] exI [of _ "sp_bounce sp"] exI [of _ "sp_log sp"]) (auto simp: pool_memory_def)
next
  case (Cons a as)
  obtain q sp1 where run: "pool_enqueue_assignment fails a sp = (q, sp1)" by fastforce
  have eff: "assignment_result sp a (is_ok q) sp1" by (rule assignment_effect [OF run Cons.prems(2,3)])
  then have sp1: "sp1 = sp\<lparr>sp_bounce := sp_bounce sp1, sp_log := sp_log sp1\<rparr>" by (simp add: assignment_result_def)
  obtain new where new: "sp_events sp1 = sp_events sp @ new" "host_memory_safe (sp_events sp1)" "within_slots sp [a] (sp_events sp) new"
    "is_ok q \<longrightarrow> pool_memory sp1 \<and> loaded sp (sp_events sp1) a"
    using assignment_prefix [OF eff] by blast
  show ?case
  proof (cases q)
    case (Inl e)
    then have res: "r = Inl e" "sp' = pool_poison ''enqueueing a round's slot uploads'' sp1" using Cons.prems(1) run by simp_all
    have ev: "sp_events sp' = sp_events sp1" by (simp add: res(2) pool_poison_def Let_def)
    show ?thesis
      using new within_slots_mono [OF new(3), of "a # as"] res sp1 ev
      by (intro exI [of _ new] exI [of _ "sp_bounce sp1"] exI [of _ "sp_log sp1"]) simp
  next
    case (Inr u)
    have run': "pool_enqueue_all fails as sp1 = (r, sp')" using Cons.prems(1) run Inr by simp
    have st1: "pool_static sp1" by (subst sp1) (simp add: Cons.prems(2))
    have fr: "within_slots sp1 = within_slots sp" "loaded sp1 = loaded sp" by (subst sp1, simp)+
    obtain new' b d where new': "sp_events sp' = sp_events sp1 @ new'" "host_memory_safe (sp_events sp')"
      "within_slots sp as (sp_events sp1) new'"
      "if is_ok r then sp' = sp1\<lparr>sp_bounce := b, sp_log := d\<rparr> \<and> pool_memory sp' \<and> (\<forall>a\<in>set as. loaded sp (sp_events sp') a)
       else sp' = pool_poison ''enqueueing a round's slot uploads'' (sp1\<lparr>sp_bounce := b, sp_log := d\<rparr>)"
      using Cons.IH [OF run' st1] new(4) Inr Cons.prems(4) unfolding fr by auto
    have eq: "sp1\<lparr>sp_bounce := b, sp_log := d\<rparr> = sp\<lparr>sp_bounce := b, sp_log := d\<rparr>" by (subst sp1) simp
    have "loaded sp (sp_events sp') a"
      unfolding new'(1) by (rule loaded_kept [OF _ new'(3) Cons.prems(2)]) (use new(4) Inr Cons.prems(4) in auto)
    moreover have "within_slots sp (a # as) (sp_events sp) (new @ new')"
      using within_slots_append [OF new(3), of as new'] new'(3) new(1) by simp
    ultimately show ?thesis
      using new(1) new'(1,2,4) eq by (intro exI [of _ "new @ new'"] exI [of _ b] exI [of _ d]) auto
  qed
qed

end
