(* ===== verification/StreamPoolInvariant.thy ===== *)
theory StreamPoolInvariant
  imports StreamResidency
begin

text \<open>
  Every operation of the streaming weight pool keeps its invariant: publication of the table, rounds,
  resets, staging and the consumer-side fences, from any pool the two constructors build.
\<close>

section \<open>Publication\<close>

definition same_geometry :: "slot_pool \<Rightarrow> slot_pool \<Rightarrow> bool" where
  "same_geometry dp dp' \<longleftrightarrow> dp' = dp\<lparr>dp_staging := dp_staging dp', dp_staged := dp_staged dp', dp_generation := dp_generation dp'\<rparr>"

lemma publish_table_geometry: "publish_table fails ts table dp d = (r, dp', d') \<Longrightarrow> same_geometry dp dp'"
  by (auto simp: publish_table_def same_geometry_def Let_def split: if_splits sum.splits prod.splits)

lemma same_geometry_address: "same_geometry dp dp' \<Longrightarrow> dp_slot_address dp' s = dp_slot_address dp s"
proof -
  assume "same_geometry dp dp'"
  then obtain x y z where "dp' = dp\<lparr>dp_staging := x, dp_staged := y, dp_generation := z\<rparr>" by (auto simp: same_geometry_def)
  then show ?thesis by (simp add: dp_slot_address_def dp_require_slot_def split: option.split)
qed

lemma same_geometry_simps:
  assumes "same_geometry dp dp'"
  shows "dp_slot_bytes dp' = dp_slot_bytes dp" and "dp_item_count dp' = dp_item_count dp" and "dp_slot_count dp' = dp_slot_count dp"
  using assms unfolding same_geometry_def by (metis slot_pool.select_convs slot_pool.surjective slot_pool.update_convs)+

text \<open>Events that touch neither device bytes nor releases.\<close>

lemma table_events_quiet: "ev \<in> set (table_events dp dest table @ [RecordFence PublicationFence]) \<Longrightarrow>
    \<not> is_release ev \<and> (\<forall>dst rg bytes. ev \<noteq> CopyBytes dst rg bytes)"
  by (auto simp: table_events_def Let_def split: if_splits)

lemma device_bytes_no_copy:
  "\<forall>ev\<in>set new. \<forall>dst rg bytes. ev \<noteq> CopyBytes dst rg bytes \<Longrightarrow> device_bytes (evs @ new) = device_bytes evs"
proof (induction new arbitrary: evs)
  case (Cons ev new)
  have "device_bytes (evs @ [ev]) = device_bytes evs" using Cons.prems by (cases ev) (auto simp: device_bytes_snoc)
  then show ?case using Cons.IH [of "evs @ [ev]"] Cons.prems by simp
qed simp

lemma publish_effect:
  assumes run: "pool_publish fails sp = (r, sp')" and mem: "pool_memory sp"
  shows "\<exists>new dp ts d. sp' = sp\<lparr>sp_slots := dp, sp_transfer := ts, sp_log := d\<rparr> \<and> same_geometry (sp_slots sp) dp \<and>
    (ts = sp_transfer sp \<or> ts = (sp_transfer sp)\<lparr>ts_published := True\<rparr>) \<and>
    dl_events d = sp_events sp @ new \<and> host_memory_safe (dl_events d) \<and>
    device_bytes (dl_events d) = device_bytes (sp_events sp) \<and> last_release (dl_events d) = last_release (sp_events sp) \<and>
    (is_ok r \<longrightarrow> pool_memory sp' \<and> (\<forall>n. device_table n (dl_events d) = item_slot (sp_cache sp)))"
proof -
  let ?table = "item_slot (sp_cache sp)"
  obtain q dp d1 where pt: "publish_table fails (sp_transfer sp) ?table (sp_slots sp) (sp_log sp) = (q, dp, d1)"
    by (cases "publish_table fails (sp_transfer sp) ?table (sp_slots sp) (sp_log sp)") auto
  have tab: "table_ok (sp_slots sp) (sp_events sp)" and safe: "host_memory_safe (sp_events sp)" using mem by (simp_all add: pool_memory_def)
  obtain dest where ap: "appends (sp_log sp) d1 (is_ok q) (table_events (sp_slots sp) dest ?table)"
    and dp: "is_ok q \<longrightarrow> dp = table_after ?table (sp_slots sp)"
    using publish_table_appends [OF pt tab] by blast
  let ?full = "table_events (sp_slots sp) dest ?table @ [RecordFence PublicationFence]"
  have geo: "same_geometry (sp_slots sp) dp" by (rule publish_table_geometry [OF pt])
  have full_safe: "host_memory_safe (sp_events sp @ ?full)"
    using table_events_memory(1) [OF tab safe] by (simp add: append_assoc [symmetric] region_of_snoc(2) del: append_assoc)
  have step: "\<exists>ts d. sp' = sp\<lparr>sp_slots := dp, sp_transfer := ts, sp_log := d\<rparr> \<and>
      (ts = sp_transfer sp \<or> ts = (sp_transfer sp)\<lparr>ts_published := True\<rparr>) \<and> appends (sp_log sp) d (is_ok r) ?full \<and> (is_ok r \<longrightarrow> is_ok q)"
  proof (cases q)
    case (Inl e)
    then have "r = Inl e \<and> sp' = sp\<lparr>sp_slots := dp, sp_transfer := sp_transfer sp, sp_log := d1\<rparr>" using run pt by (simp add: pool_publish_def)
    then show ?thesis
      using appends_stop [OF ap [unfolded Inl is_ok_simps]] by (intro exI [of _ "sp_transfer sp"] exI [of _ d1]) simp
  next
    case (Inr u)
    obtain q2 ts d where rp: "record_publication fails (sp_transfer sp) d1 = (q2, ts, d)"
      by (cases "record_publication fails (sp_transfer sp) d1") auto
    have "appends d1 d (is_ok q2) [RecordFence PublicationFence] \<and> (ts = sp_transfer sp \<or> ts = (sp_transfer sp)\<lparr>ts_published := True\<rparr>)"
      using rp appends_issue [of fails "''recording the publication fence''" "RecordFence PublicationFence" d1]
      by (auto simp: record_publication_def split: prod.splits sum.splits)
    moreover have "r = q2 \<and> sp' = sp\<lparr>sp_slots := dp, sp_transfer := ts, sp_log := d\<rparr>" using run pt Inr rp by (simp add: pool_publish_def)
    ultimately show ?thesis using appends_trans [OF ap [unfolded Inr is_ok_simps], of d "is_ok q2"] Inr by auto
  qed
  then obtain ts d where sp': "sp' = sp\<lparr>sp_slots := dp, sp_transfer := ts, sp_log := d\<rparr>"
    "ts = sp_transfer sp \<or> ts = (sp_transfer sp)\<lparr>ts_published := True\<rparr>" and ap': "appends (sp_log sp) d (is_ok r) ?full" and rq: "is_ok r \<longrightarrow> is_ok q"
    by blast
  obtain new rest where new: "dl_events d = sp_events sp @ new" "?full = new @ rest" "is_ok r \<longrightarrow> new = ?full"
    using ap' by (auto simp: appends_def prefix_def)
  have quiet: "ev \<in> set new \<Longrightarrow> \<not> is_release ev \<and> (\<forall>dst rg bytes. ev \<noteq> CopyBytes dst rg bytes)" for ev
    by (rule table_events_quiet [of ev "sp_slots sp" dest ?table]) (simp add: new(2) del: set_append, simp)
  have safe': "host_memory_safe (dl_events d)"
    unfolding new(1) by (rule host_memory_safe_prefix [of _ rest]) (use full_safe [unfolded new(2)] in simp)
  have bytes: "device_bytes (dl_events d) = device_bytes (sp_events sp)"
    unfolding new(1) by (rule device_bytes_no_copy) (simp add: quiet)
  have rel: "last_release (dl_events d) = last_release (sp_events sp)"
    unfolding new(1) by (rule last_release_quiet) (simp add: quiet)
  have ok: "pool_memory sp' \<and> (\<forall>n. device_table n (dl_events d) = ?table)" if "is_ok r"
  proof -
    have ev: "dl_events d = (sp_events sp @ table_events (sp_slots sp) dest ?table) @ [RecordFence PublicationFence]"
      using new(1,3) that by simp
    let ?evs = "sp_events sp @ table_events (sp_slots sp) dest ?table"
    have reg: "region_of (dl_events d) = region_of ?evs" unfolding ev by (subst region_of_snoc(1)) simp
    have "dp = table_after ?table (sp_slots sp)" using dp rq that by blast
    then have "table_ok dp (dl_events d)"
      using table_ok_after [OF tab safe, of ?table dest] table_ok_frame [of dp ?evs "dl_events d"] reg by simp
    moreover have "ring_ok b (dl_events d)" if "sp_bounce sp = Some b" for b
      by (rule ring_ok_frame [of b "sp_events sp"]) (use mem that reg table_events_memory(2) [OF tab safe] in \<open>simp_all add: pool_memory_def\<close>)
    moreover have "device_table n (dl_events d) = ?table" for n
      unfolding ev by (simp add: device_table_append table_events_def Let_def)
    ultimately show ?thesis using safe' by (simp add: pool_memory_def sp'(1))
  qed
  show ?thesis
  proof (intro exI conjI impI)
    show "sp' = sp\<lparr>sp_slots := dp, sp_transfer := ts, sp_log := d\<rparr>" by (rule sp'(1))
    show "ts = sp_transfer sp \<or> ts = (sp_transfer sp)\<lparr>ts_published := True\<rparr>" by (rule sp'(2))
    show "pool_memory sp'" if "is_ok r" using ok [OF that] by blast
    show "\<forall>n. device_table n (dl_events d) = ?table" if "is_ok r" using ok [OF that] by blast
  qed (rule geo new(1) safe' bytes rel)+
qed

section \<open>What the invariant sees of a trace\<close>

definition same_view :: "stream_event list \<Rightarrow> stream_event list \<Rightarrow> bool" where
  "same_view evs evs' \<longleftrightarrow> region_of evs' = region_of evs \<and> host_memory_safe evs' = host_memory_safe evs \<and>
    device_bytes evs' = device_bytes evs \<and> (\<forall>n. device_table n evs' = device_table n evs) \<and> last_release evs' = last_release evs"

fun view_neutral :: "stream_event \<Rightarrow> bool" where
  "view_neutral (StreamWaits f) = True"
| "view_neutral (ConsumerWaits f) = True"
| "view_neutral (HostSyncs PublicationFence) = True"
| "view_neutral ev = False"

lemma same_view_refl [simp]: "same_view evs evs"
  by (simp add: same_view_def)

lemma same_view_snoc: "view_neutral ev \<Longrightarrow> same_view evs (evs @ [ev])"
  by (cases ev rule: view_neutral.cases)
    (simp_all add: same_view_def region_of_snoc device_bytes_snoc device_table_append last_release_append)

lemma same_view_appends: "appends d d' ok [ev] \<Longrightarrow> view_neutral ev \<Longrightarrow> same_view (dl_events d) (dl_events d')"
  using same_view_snoc [of ev "dl_events d"] by (auto simp: appends_def prefix_Cons)

lemma same_view_memory: "same_view (sp_events sp) (dl_events d) \<Longrightarrow> pool_memory (sp\<lparr>sp_log := d\<rparr>) = pool_memory sp"
  by (simp add: same_view_def pool_memory_def ring_ok_def table_ok_def)

lemma slot_holds_view: "device_bytes evs' = device_bytes evs \<Longrightarrow> slot_holds evs' = slot_holds evs"
  by (simp add: slot_holds_def fun_eq_iff)

lemma abandon_residency:
  assumes "cache_abandon_planned_round c' = cache_abandon_planned_round c"
  shows "slot_item c' = slot_item c" and "item_slot c' = item_slot c" and "pinned_round c' = pinned_round c" and "sc_round c' = sc_round c"
proof -
  show "slot_item c' = slot_item c" "item_slot c' = item_slot c" "pinned_round c' = pinned_round c" "sc_round c' = sc_round c"
    using arg_cong [OF assms, of slot_item] arg_cong [OF assms, of item_slot] arg_cong [OF assms, of pinned_round]
      arg_cong [OF assms, of sc_round] by (simp_all add: cache_abandon_planned_round_def)
qed

lemma reclaim_ok_view: "last_release evs' = last_release evs \<Longrightarrow> reclaim_ok ts evs' = reclaim_ok ts evs"
  by (simp add: reclaim_ok_def)

lemma slots_serve_view:
  assumes "device_bytes (dl_events d) = device_bytes (sp_events sp)" and "slot_item c = slot_item (sp_cache sp)"
  shows "slots_serve (sp\<lparr>sp_cache := c, sp_assignments := as, sp_log := d, sp_uploaded_bytes := u\<rparr>) = slots_serve sp"
  using assms(2) by (simp add: slots_serve_def slot_serves_def slot_holds_view [OF assms(1)])

text \<open>Operations that move neither residency nor anything the invariant sees of the trace.\<close>

lemma pool_inv_view:
  assumes inv: "pool_inv sp" and view: "same_view (sp_events sp) (dl_events d)" and c: "cache_inv c"
    and res: "slot_item c = slot_item (sp_cache sp)" "item_slot c = item_slot (sp_cache sp)"
  shows "pool_inv (sp\<lparr>sp_cache := c, sp_assignments := as, sp_log := d, sp_uploaded_bytes := u\<rparr>)"
proof -
  let ?sp = "sp\<lparr>sp_cache := c, sp_assignments := as, sp_log := d, sp_uploaded_bytes := u\<rparr>"
  note v = view [unfolded same_view_def]
  have "pool_static ?sp" using inv res by (simp add: pool_inv_def pool_static_def)
  moreover have "pool_memory ?sp = pool_memory sp" using same_view_memory [OF view] by (simp add: pool_memory_def)
  moreover have "pool_resident ?sp = pool_resident sp" using v res by (simp add: pool_resident_def slots_serve_view)
  ultimately show ?thesis using inv c v reclaim_ok_view [of "dl_events d" "sp_events sp"] by (simp add: pool_inv_def)
qed

lemma pool_inv_log:
  assumes inv: "pool_inv sp" and view: "same_view (sp_events sp) (dl_events d)"
  shows "pool_inv (sp\<lparr>sp_log := d\<rparr>)"
proof -
  have "cache_inv (sp_cache sp)" using inv by (simp add: pool_inv_def)
  from pool_inv_view [OF inv view this refl refl]
  have "pool_inv (sp\<lparr>sp_cache := sp_cache sp, sp_assignments := sp_assignments sp, sp_log := d, sp_uploaded_bytes := sp_uploaded_bytes sp\<rparr>)" .
  then show ?thesis by simp
qed

text \<open>A poisoned pool has only to keep the host memory safe and the release ring right.\<close>

lemma pool_inv_poisoned:
  assumes "sp_poisoned sp \<noteq> None" and "pool_static sp" and "cache_inv (sp_cache sp)"
    and "reclaim_ok (sp_transfer sp) (sp_events sp)" and "host_memory_safe (sp_events sp)"
  shows "pool_inv sp"
  using assms by (auto simp: pool_inv_def)

lemma pool_poison_poisoned: "sp_poisoned (pool_poison op sp) \<noteq> None"
  by (simp add: pool_poison_def Let_def)

lemma pool_poison_live [simp]: "(sp_poisoned (pool_poison op sp) = None) = False"
  using pool_poison_poisoned by blast

lemma pool_poison_simps [simp]:
  "sp_log (pool_poison op sp) = sp_log sp" "sp_transfer (pool_poison op sp) = sp_transfer sp"
  "sp_cache (pool_poison op sp) = cache_abandon_planned_round (sp_cache sp)" "sp_layout (pool_poison op sp) = sp_layout sp"
  "sp_slots (pool_poison op sp) = sp_slots sp" "sp_host (pool_poison op sp) = sp_host sp" "sp_staged (pool_poison op sp) = sp_staged sp"
  "sp_uploaded_bytes (pool_poison op sp) = sp_uploaded_bytes sp"
  by (simp_all add: pool_poison_def Let_def)

lemma pool_static_parts:
  "pool_static sp \<Longrightarrow> sp_layout sp' = sp_layout sp \<Longrightarrow> sp_staged sp' = sp_staged sp \<Longrightarrow> sp_host sp' = sp_host sp \<Longrightarrow>
    dp_slot_bytes (sp_slots sp') = dp_slot_bytes (sp_slots sp) \<Longrightarrow> dp_item_count (sp_slots sp') = dp_item_count (sp_slots sp) \<Longrightarrow>
    length (slot_item (sp_cache sp')) = length (slot_item (sp_cache sp)) \<Longrightarrow>
    length (item_slot (sp_cache sp')) = length (item_slot (sp_cache sp)) \<Longrightarrow> pool_static sp'"
  by (simp add: pool_static_def)

section \<open>Publication keeps the invariant\<close>

text \<open>
  A pool whose slots already hold what its (committed or cleared) cache says, and whose table is still
  the old one, is a live pool after the publication and a poisoned one if the publication fails.
\<close>

lemma publish_inv:
  assumes run: "pool_publish fails sp = (r, sp')" and st: "pool_static sp" and mem: "pool_memory sp" and c: "cache_inv (sp_cache sp)"
    and rel: "reclaim_ok (sp_transfer sp) (sp_events sp)" and srv: "slots_serve sp"
  shows "is_ok r \<Longrightarrow> pool_inv sp'" and "pool_inv (pool_poison op sp')"
    and "sp_poisoned sp' = sp_poisoned sp" and "sp_cache sp' = sp_cache sp" and "sp_uploaded_bytes sp' = sp_uploaded_bytes sp"
    and "device_bytes (sp_events sp') = device_bytes (sp_events sp)" and "last_release (sp_events sp') = last_release (sp_events sp)"
    and "\<exists>new. sp_events sp' = sp_events sp @ new"
proof -
  obtain new dp ts d where sp': "sp' = sp\<lparr>sp_slots := dp, sp_transfer := ts, sp_log := d\<rparr>" and geo: "same_geometry (sp_slots sp) dp"
    and ts: "ts = sp_transfer sp \<or> ts = (sp_transfer sp)\<lparr>ts_published := True\<rparr>"
    and ev: "dl_events d = sp_events sp @ new" "host_memory_safe (dl_events d)" "device_bytes (dl_events d) = device_bytes (sp_events sp)"
      "last_release (dl_events d) = last_release (sp_events sp)"
    and ok: "is_ok r \<longrightarrow> pool_memory sp' \<and> (\<forall>n. device_table n (dl_events d) = item_slot (sp_cache sp))"
    using publish_effect [OF run mem] by blast
  note g = same_geometry_simps [OF geo]
  have st': "pool_static sp'" by (rule pool_static_parts [OF st]) (simp_all add: sp' g)
  have rel': "reclaim_ok (sp_transfer sp') (sp_events sp')"
    using rel ts reclaim_ok_view [OF ev(4)] by (auto simp: sp' reclaim_ok_def live_reclaims_def)
  have addr: "pool_slot_address sp' = pool_slot_address sp"
    by (simp add: fun_eq_iff pool_slot_address_def sp' same_geometry_address [OF geo])
  have srv': "slots_serve sp'"
    using srv addr by (simp add: slots_serve_def slot_serves_def sp' ev(3) slot_holds_view [OF ev(3)])
  show "pool_inv sp'" if "is_ok r"
    using st' rel' c ok that srv' ev(2) by (simp add: pool_inv_def pool_resident_def sp')
  show "pool_inv (pool_poison op sp')"
  proof (rule pool_inv_poisoned [OF pool_poison_poisoned])
    show "pool_static (pool_poison op sp')"
      by (rule pool_static_parts [OF st']) (simp_all add: cache_abandon_planned_round_def)
  qed (use rel' ev(2) c in \<open>simp_all add: sp' cache_abandon_inv\<close>)
  show "sp_poisoned sp' = sp_poisoned sp" "sp_cache sp' = sp_cache sp" "sp_uploaded_bytes sp' = sp_uploaded_bytes sp"
    "device_bytes (sp_events sp') = device_bytes (sp_events sp)" "last_release (sp_events sp') = last_release (sp_events sp)"
    "\<exists>new. sp_events sp' = sp_events sp @ new"
    using ev by (simp_all add: sp')
qed

section \<open>Serving a planned round\<close>

lemma item_slot_determined:
  assumes "cache_inv c" and "cache_inv c'" and "slot_item c' = slot_item c" and "length (item_slot c') = length (item_slot c)"
  shows "item_slot c' = item_slot c"
proof (rule nth_equalityI)
  have rep: "cache_rep c (lru_of c)" "cache_rep c' (lru_of c')" using assms(1,2) by (simp_all add: cache_inv_def)
  have "lru_items (lru_of c') = lru_items (lru_of c)" by (simp add: lru_of_def assms(3))
  then have find: "lru_find i (lru_of c') = lru_find i (lru_of c)" for i by (simp add: lru_find_def)
  fix i assume "i < length (item_slot c')"
  then show "item_slot c' ! i = item_slot c ! i" using rep find assms(4) by (simp add: cache_rep_def)
qed (rule assms(4))

text \<open>
  The reclaim rule: device bytes change only inside a slot whose newest reader, if it has one, is
  covered by a release recorded on the fence the first new event waits for.
\<close>

definition reclaim_guarded :: "stream_pool \<Rightarrow> stream_event list \<Rightarrow> bool" where
  "reclaim_guarded sp new \<longleftrightarrow>
    (\<forall>x. device_bytes (sp_events sp @ new) x \<noteq> device_bytes (sp_events sp) x \<longrightarrow>
       (\<exists>s A. s < length (slot_item (sp_cache sp)) \<and> pool_slot_address sp s = Inr A \<and>
          A \<le> x \<and> x < A + sl_stride_bytes (sp_layout sp) \<and>
          (pinned_round (sp_cache sp) ! s = 0 \<or>
           (\<exists>k g rest. new = StreamWaits (ReclaimFence k) # rest \<and> last_release (sp_events sp) k = Some g \<and>
              pinned_round (sp_cache sp) ! s \<le> g))))"

text \<open>A planned round of a live pool: \<open>sp1\<close> is the pool that holds the plan.\<close>

definition planned_pool :: "nat list \<Rightarrow> stream_pool \<Rightarrow> stream_round \<Rightarrow> stream_pool \<Rightarrow> bool" where
  "planned_pool items sp r sp1 \<longleftrightarrow> pool_inv sp \<and> sp_poisoned sp = None \<and>
    (\<forall>i\<in>set items. i < length (sp_staged sp) \<and> sp_staged sp ! i) \<and>
    (\<exists>c as. cache_plan_round items (sp_cache sp) (sp_assignments sp) = (Inr r, c, as) \<and>
       sp1 = sp\<lparr>sp_cache := c, sp_assignments := as\<rparr>)"

lemma planned_poolD:
  assumes "planned_pool items sp r sp1"
  shows "pool_inv sp" and "sp_poisoned sp = None" and "\<And>i. i \<in> set items \<Longrightarrow> i < length (sp_staged sp) \<and> sp_staged sp ! i"
    and "sp1 = sp\<lparr>sp_cache := sp_cache sp1, sp_assignments := sp_assignments sp1\<rparr>"
    and "cache_plan_round items (sp_cache sp) (sp_assignments sp) = (Inr r, sp_cache sp1, sp_assignments sp1)"
    and "cache_inv (sp_cache sp1)" and "cache_abandon_planned_round (sp_cache sp1) = cache_abandon_planned_round (sp_cache sp)"
    and "cache_admit_round items (sp_cache sp) (sp_assignments sp) =
      (Inr r, cache_commit_planned_round (sp_cache sp1), sp_assignments sp1)"
    and "cache_inv (cache_commit_planned_round (sp_cache sp1))"
proof -
  obtain c as where plan: "cache_plan_round items (sp_cache sp) (sp_assignments sp) = (Inr r, c, as)"
    and sp1: "sp1 = sp\<lparr>sp_cache := c, sp_assignments := as\<rparr>" using assms by (auto simp: planned_pool_def)
  have inv: "cache_inv (sp_cache sp)" using assms by (simp add: planned_pool_def pool_inv_def)
  show "pool_inv sp" "sp_poisoned sp = None" "\<And>i. i \<in> set items \<Longrightarrow> i < length (sp_staged sp) \<and> sp_staged sp ! i"
    using assms by (simp_all add: planned_pool_def)
  show "sp1 = sp\<lparr>sp_cache := sp_cache sp1, sp_assignments := sp_assignments sp1\<rparr>" by (simp add: sp1)
  show c: "cache_inv (sp_cache sp1)" using cache_plan_inv [OF inv plan] by (simp add: sp1)
  show "cache_abandon_planned_round (sp_cache sp1) = cache_abandon_planned_round (sp_cache sp)"
    using cache_plan_frame(1) [OF inv plan] by (simp add: sp1)
  show "cache_inv (cache_commit_planned_round (sp_cache sp1))" by (rule cache_commit_inv [OF c])
  show "cache_plan_round items (sp_cache sp) (sp_assignments sp) = (Inr r, sp_cache sp1, sp_assignments sp1)"
    "cache_admit_round items (sp_cache sp) (sp_assignments sp) = (Inr r, cache_commit_planned_round (sp_cache sp1), sp_assignments sp1)"
    using plan by (simp_all add: sp1 cache_admit_round_def)
qed

lemma planned_pool_update:
  "planned_pool items sp r sp1 \<Longrightarrow> sp1\<lparr>sp_bounce := b, sp_cache := c, sp_log := d\<rparr> =
    sp\<lparr>sp_cache := c, sp_assignments := sp_assignments sp1, sp_bounce := b, sp_log := d\<rparr>"
  by (auto simp: planned_pool_def)

lemma committed_lengths:
  assumes "planned_pool items sp r sp1"
  shows "length (slot_item (cache_commit_planned_round (sp_cache sp1))) = length (slot_item (sp_cache sp))"
    and "length (item_slot (cache_commit_planned_round (sp_cache sp1))) = length (item_slot (sp_cache sp))"
proof -
  note p = planned_poolD [OF assms]
  have "cache_inv (sp_cache sp)" using p(1) by (simp add: pool_inv_def)
  from cache_admit_slots(4,5) [OF this p(8)] show
    "length (slot_item (cache_commit_planned_round (sp_cache sp1))) = length (slot_item (sp_cache sp))"
    "length (item_slot (cache_commit_planned_round (sp_cache sp1))) = length (item_slot (sp_cache sp))" by simp_all
qed

text \<open>Once every assignment is loaded, the slots serve the committed cache.\<close>

lemma committed_slots_serve:
  assumes plan: "planned_pool items sp r sp1" and within: "within_slots sp (sp_assignments sp1) (sp_events sp) new"
    and loaded: "\<forall>a\<in>set (sp_assignments sp1). loaded sp (sp_events sp @ new) a" and d: "dl_events d = sp_events sp @ new"
  shows "slots_serve (sp1\<lparr>sp_bounce := b, sp_cache := cache_commit_planned_round (sp_cache sp1), sp_log := d\<rparr>)"
proof -
  note p = planned_poolD [OF plan]
  let ?c = "sp_cache sp" and ?c2 = "cache_commit_planned_round (sp_cache sp1)" and ?as = "sp_assignments sp1"
  let ?sp = "sp1\<lparr>sp_bounce := b, sp_cache := ?c2, sp_log := d\<rparr>"
  have c: "cache_inv ?c" and st: "pool_static sp" and srv: "slots_serve sp"
    using p(1,2) by (simp_all add: pool_inv_def pool_resident_def)
  note slots = cache_admit_slots [OF c p(8)]
  have eq: "slot_serves ?sp s i = (i < length (sp_staged sp) \<and> sp_staged sp ! i \<and>
      loaded sp (sp_events sp @ new) \<lparr>as_item = i, as_slot = s, as_evicted = 0\<rparr>)" for s i
    by (subst p(4)) (simp add: slot_serves_def loaded_def d)
  have "slot_serves ?sp s (slot_item ?c2 ! s)" if s: "s < length (slot_item ?c2)" and ne: "slot_item ?c2 ! s \<noteq> STREAMING_ABSENT_ITEM" for s
  proof (cases "s \<in> as_slot ` set ?as")
    case True
    then obtain a where a: "a \<in> set ?as" "as_slot a = s" by blast
    have "as_item a \<in> set items" "slot_item ?c2 ! s = as_item a" using slots(2) [OF a(1)] a(2) by simp_all
    moreover have "loaded sp (sp_events sp @ new) a" using loaded a(1) by blast
    ultimately show ?thesis using p(3) a(2) unfolding eq by (simp add: loaded_def)
  next
    case False
    have s': "s < length (slot_item ?c)" using s slots(4) by simp
    have same: "slot_item ?c2 ! s = slot_item ?c ! s" by (rule slots(3) [OF s' False])
    then have old: "slot_serves sp s (slot_item ?c ! s)" using srv s' ne by (simp add: slots_serve_def)
    then have "loaded sp (sp_events sp) \<lparr>as_item = slot_item ?c ! s, as_slot = s, as_evicted = 0\<rparr>"
      by (auto simp: slot_serves_def loaded_def)
    from loaded_kept [OF this within st] False
    have "loaded sp (sp_events sp @ new) \<lparr>as_item = slot_item ?c ! s, as_slot = s, as_evicted = 0\<rparr>" by simp
    then show ?thesis using old unfolding eq same by (simp add: slot_serves_def)
  qed
  then show ?thesis by (simp add: slots_serve_def)
qed

lemma reclaim_guarded_same: "device_bytes (sp_events sp @ new) = device_bytes (sp_events sp) \<Longrightarrow> reclaim_guarded sp new"
  by (simp add: reclaim_guarded_def)

text \<open>The uploads that follow an accepted wait are guarded by it.\<close>

lemma round_guarded:
  assumes plan: "planned_pool items sp r sp1" and d: "dl_events d = sp_events sp @ w"
    and wait: "(\<exists>k g. w = [StreamWaits (ReclaimFence k)] \<and> last_release (sp_events sp) k = Some g \<and> round_reclaim_generation r \<le> g) \<or>
      w = [] \<and> round_reclaim_generation r = 0"
    and within: "within_slots sp (sp_assignments sp1) (dl_events d) new"
    and tail: "device_bytes (sp_events sp @ w @ new @ tail) = device_bytes (sp_events sp @ w @ new)"
  shows "reclaim_guarded sp (w @ new @ tail)"
  unfolding reclaim_guarded_def
proof (intro allI impI)
  note p = planned_poolD [OF plan]
  have c: "cache_inv (sp_cache sp)" using p(1) by (simp add: pool_inv_def)
  have view: "same_view (sp_events sp) (dl_events d)"
    using wait same_view_snoc [of "StreamWaits (ReclaimFence k)" "sp_events sp" for k] by (auto simp: d)
  fix x assume "device_bytes (sp_events sp @ w @ new @ tail) x \<noteq> device_bytes (sp_events sp) x"
  then have "device_bytes (dl_events d @ new) x \<noteq> device_bytes (dl_events d) x" using view tail by (simp add: d same_view_def)
  then obtain a A where a: "a \<in> set (sp_assignments sp1)" "pool_slot_address sp (as_slot a) = Inr A" "A \<le> x"
    "x < A + sl_stride_bytes (sp_layout sp)"
    using within by (auto simp: within_slots_def)
  have "as_slot a < length (slot_item (sp_cache sp))" "pinned_round (sp_cache sp) ! as_slot a \<le> round_reclaim_generation r"
    using cache_admit_slots(2) [OF c p(8) a(1)] by simp_all
  moreover have "pinned_round (sp_cache sp) ! as_slot a = 0 \<or>
      (\<exists>k g rest. w @ new @ tail = StreamWaits (ReclaimFence k) # rest \<and> last_release (sp_events sp) k = Some g \<and>
         pinned_round (sp_cache sp) ! as_slot a \<le> g)"
    using wait calculation(2) by (auto intro: order_trans)
  ultimately show "\<exists>s A. s < length (slot_item (sp_cache sp)) \<and> pool_slot_address sp s = Inr A \<and> A \<le> x \<and>
      x < A + sl_stride_bytes (sp_layout sp) \<and> (pinned_round (sp_cache sp) ! s = 0 \<or>
        (\<exists>k g rest. w @ new @ tail = StreamWaits (ReclaimFence k) # rest \<and> last_release (sp_events sp) k = Some g \<and>
          pinned_round (sp_cache sp) ! s \<le> g))"
    using a(2-4) by blast
qed

text \<open>What serving a plan leaves: \<open>retryable\<close> is a refusal that moved nothing.\<close>

definition retryable :: "stream_pool \<Rightarrow> stream_pool \<Rightarrow> bool" where
  "retryable sp sp' \<longleftrightarrow> cache_abandon_planned_round (sp_cache sp') = cache_abandon_planned_round (sp_cache sp) \<and>
    device_bytes (sp_events sp') = device_bytes (sp_events sp) \<and>
    device_table (sl_item_count (sp_layout sp)) (sp_events sp') = device_table (sl_item_count (sp_layout sp)) (sp_events sp) \<and>
    sp_uploaded_bytes sp' = sp_uploaded_bytes sp"

definition served :: "stream_pool \<Rightarrow> stream_pool \<Rightarrow> bool \<Rightarrow> stream_pool \<Rightarrow> bool" where
  "served sp sp1 ok sp' \<longleftrightarrow> pool_inv sp' \<and> (\<exists>new. sp_events sp' = sp_events sp @ new \<and> reclaim_guarded sp new) \<and>
    (if ok then sp_poisoned sp' = None \<and> sp_cache sp' = cache_commit_planned_round (sp_cache sp1)
     else sp_poisoned sp' = None \<longrightarrow> retryable sp sp')"

lemma serve_hits:
  assumes plan: "planned_pool items sp r sp1" and empty: "sp_assignments sp1 = []"
  shows "served sp sp1 True (pool_commit sp1)"
proof -
  note p = planned_poolD [OF plan]
  let ?c2 = "cache_commit_planned_round (sp_cache sp1)"
  have c: "cache_inv (sp_cache sp)" using p(1) by (simp add: pool_inv_def)
  have items: "slot_item ?c2 = slot_item (sp_cache sp)"
    by (rule nth_equalityI) (use cache_admit_slots(3,4) [OF c p(8)] empty in auto)
  have sp': "pool_commit sp1 = sp\<lparr>sp_cache := ?c2, sp_assignments := [], sp_log := sp_log sp, sp_uploaded_bytes := sp_uploaded_bytes sp\<rparr>"
    by (subst p(4)) (simp add: pool_commit_def empty)
  have "pool_inv (pool_commit sp1)"
    unfolding sp' by (rule pool_inv_view [OF p(1) same_view_refl p(9) items])
      (rule item_slot_determined [OF c p(9) items committed_lengths(2) [OF plan]])
  then show ?thesis using p(2) reclaim_guarded_same [of sp "[]"] by (simp add: served_def sp')
qed

lemma serve_refused:
  assumes plan: "planned_pool items sp r sp1" and d: "dl_events d = sp_events sp @ new" and view: "same_view (sp_events sp) (dl_events d)"
  shows "served sp sp1 False (pool_abandon (sp1\<lparr>sp_log := d\<rparr>))"
proof -
  note p = planned_poolD [OF plan]
  let ?c = "cache_abandon_planned_round (sp_cache sp1)"
  have res: "slot_item ?c = slot_item (sp_cache sp)" "item_slot ?c = item_slot (sp_cache sp)"
    using abandon_residency [OF p(7)] by (simp_all add: cache_abandon_planned_round_def)
  have sp': "pool_abandon (sp1\<lparr>sp_log := d\<rparr>) =
      sp\<lparr>sp_cache := ?c, sp_assignments := sp_assignments sp1, sp_log := d, sp_uploaded_bytes := sp_uploaded_bytes sp\<rparr>"
    by (subst p(4)) (simp add: pool_abandon_def)
  have "pool_inv (pool_abandon (sp1\<lparr>sp_log := d\<rparr>))"
    unfolding sp' by (rule pool_inv_view [OF p(1) view cache_abandon_inv [OF p(6)] res])
  moreover have "cache_abandon_planned_round ?c = cache_abandon_planned_round (sp_cache sp)"
    using p(7) by (simp add: cache_abandon_planned_round_def)
  ultimately show ?thesis
    using view d reclaim_guarded_same [of sp new] by (auto simp: served_def sp' retryable_def same_view_def)
qed

lemma serve_uploads:
  assumes plan: "planned_pool items sp r sp1" and ne: "sp_assignments sp1 \<noteq> []"
    and run: "pool_serve_planned fails (round_reclaim_generation r) next_bytes sp1 = (q, sp')"
  shows "served sp sp1 (is_ok q) sp'"
proof -
  note p = planned_poolD [OF plan]
  have inv: "pool_static sp" "cache_inv (sp_cache sp)" "reclaim_ok (sp_transfer sp) (sp_events sp)" "pool_memory sp"
    using p(1,2) by (simp_all add: pool_inv_def)
  let ?as = "sp_assignments sp1" and ?c2 = "cache_commit_planned_round (sp_cache sp1)"
  obtain q1 d1 where wr: "wait_reclaim fails (round_reclaim_generation r) (sp_transfer sp1) (sp_log sp1) = (q1, d1)" by fastforce
  have "sp_transfer sp1 = sp_transfer sp" "sp_log sp1 = sp_log sp" by (subst p(4), simp)+
  then have wr': "wait_reclaim fails (round_reclaim_generation r) (sp_transfer sp) (sp_log sp) = (q1, d1)" using wr by simp
  obtain w where w: "dl_events d1 = sp_events sp @ w" "same_view (sp_events sp) (dl_events d1)"
    "is_ok q1 \<longrightarrow> (\<exists>k g. w = [StreamWaits (ReclaimFence k)] \<and> last_release (sp_events sp) k = Some g \<and> round_reclaim_generation r \<le> g) \<or>
      w = [] \<and> round_reclaim_generation r = 0"
    using wait_reclaim_appends [OF wr' inv(3)]
  proof (elim exE disjE conjE)
    fix k g assume k: "last_release (sp_events sp) k = Some g" "round_reclaim_generation r \<le> g"
      and ap: "appends (sp_log sp) d1 (is_ok q1) [StreamWaits (ReclaimFence k)]"
    obtain w where "dl_events d1 = sp_events sp @ w" "is_ok q1 \<longrightarrow> w = [StreamWaits (ReclaimFence k)]" using ap by (auto simp: appends_def)
    then show ?thesis using that k same_view_appends [OF ap] by auto
  next
    assume "d1 = sp_log sp" "is_ok q1 \<longrightarrow> round_reclaim_generation r = 0"
    then show ?thesis using that [of "[]"] by simp
  qed
  show ?thesis
  proof (cases q1)
    case (Inl e)
    then have "q = Inl (Gpu e) \<and> sp' = pool_abandon (sp1\<lparr>sp_log := d1\<rparr>)" using run ne wr by (simp add: pool_serve_planned_def)
    then show ?thesis using serve_refused [OF plan w(1,2)] by simp
  next
    case (Inr u)
    note wait = w(3) [unfolded Inr is_ok_simps, THEN mp, OF TrueI]
    let ?sp2 = "sp1\<lparr>sp_log := d1\<rparr>"
    have sp2: "?sp2 = sp\<lparr>sp_cache := sp_cache sp1, sp_assignments := ?as, sp_log := d1\<rparr>" by (subst p(4)) simp
    have st2: "pool_static ?sp2" unfolding sp2
      by (rule pool_static_parts [OF inv(1)]) (use abandon_residency [OF p(7)] in simp_all)
    have mem2: "pool_memory ?sp2" using inv(4) same_view_memory [OF w(2)] unfolding sp2 by (simp add: pool_memory_def)
    have fr: "within_slots ?sp2 = within_slots sp" "loaded ?sp2 = loaded sp" unfolding sp2 by simp_all
    obtain q3 sp3 where all: "pool_enqueue_all fails ?as ?sp2 = (q3, sp3)" by fastforce
    obtain new b d where new: "sp_events sp3 = dl_events d1 @ new" "host_memory_safe (sp_events sp3)"
      "within_slots sp ?as (dl_events d1) new"
      "if is_ok q3 then sp3 = ?sp2\<lparr>sp_bounce := b, sp_log := d\<rparr> \<and> pool_memory sp3 \<and> (\<forall>a\<in>set ?as. loaded sp (sp_events sp3) a)
       else sp3 = pool_poison ''enqueueing a round's slot uploads'' (?sp2\<lparr>sp_bounce := b, sp_log := d\<rparr>)"
      using enqueue_all_effect [OF all st2 mem2 cache_admit_slots(1) [OF inv(2) p(8)]] unfolding fr by auto
    have ev: "dl_events d = sp_events sp @ w @ new" "sp_events sp3 = dl_events d" using new(1,4) w(1) by (auto split: if_splits)
    have rel: "reclaim_ok (sp_transfer sp) (dl_events d)"
      using inv(3) reclaim_ok_view [of "dl_events d" "sp_events sp"] within_slots_quiet(2) [OF new(3)] w(1,2) ev by (simp add: same_view_def)
    have "within_slots sp [] (sp_events sp) w"
      using wait w(1,2) unfolding within_slots_def same_view_def by (elim disjE exE conjE) simp_all
    from within_slots_append [OF this, of ?as new]
    have within: "within_slots sp ?as (sp_events sp) (w @ new)" using new(3) w(1) by simp
    show ?thesis
    proof (cases q3)
      case (Inl e)
      then have res: "q = Inl e" "sp' = sp3" using run ne wr Inr all by (simp_all add: pool_serve_planned_def)
      let ?f = "sp\<lparr>sp_cache := sp_cache sp1, sp_assignments := ?as, sp_bounce := b, sp_log := d\<rparr>"
      have sp3: "sp3 = pool_poison ''enqueueing a round's slot uploads'' ?f" using new(4) Inl sp2 by simp
      have "pool_inv sp3"
        unfolding sp3
      proof (rule pool_inv_poisoned [OF pool_poison_poisoned])
        show "pool_static (pool_poison ''enqueueing a round's slot uploads'' ?f)"
          by (rule pool_static_parts [OF inv(1)]) (use abandon_residency [OF p(7)] in \<open>simp_all add: cache_abandon_planned_round_def\<close>)
      qed (use rel p(6) new(2) ev(2) in \<open>simp_all add: cache_abandon_inv\<close>)
      moreover have "reclaim_guarded sp (w @ new)" using round_guarded [OF plan w(1) wait new(3), of "[]"] by simp
      moreover have "sp_poisoned sp3 \<noteq> None" unfolding sp3 by simp
      ultimately show ?thesis using ev by (auto simp: served_def res)
    next
      case inr: (Inr v)
      let ?sp4 = "sp\<lparr>sp_cache := ?c2, sp_assignments := ?as, sp_bounce := b, sp_log := d\<rparr>"
      note n = new(4) [unfolded inr is_ok_simps if_True]
      have sp3: "sp3 = ?sp2\<lparr>sp_bounce := b, sp_log := d\<rparr>" by (rule conjunct1 [OF n])
      have mem3: "pool_memory sp3" and ld: "\<forall>a\<in>set ?as. loaded sp (dl_events d) a" using conjunct2 [OF n] ev(2) by simp_all
      have sp4: "pool_commit sp3 = ?sp4" unfolding sp3 by (subst p(4)) (simp add: pool_commit_def)
      have srv: "slots_serve ?sp4"
        using committed_slots_serve [OF plan within _ ev(1), of b] ld ev(1) by (simp add: planned_pool_update [OF plan])
      have st4: "pool_static ?sp4" by (rule pool_static_parts [OF inv(1)]) (simp_all add: committed_lengths [OF plan])
      have mem4: "pool_memory ?sp4" using mem3 unfolding sp3 sp2 by (simp add: pool_memory_def)
      obtain q5 sp5 where pub: "pool_publish fails ?sp4 = (q5, sp5)" by fastforce
      note pb = publish_inv [OF pub st4 mem4 _ _ srv, simplified, OF p(9) rel]
      obtain tail where tail: "sp_events sp5 = dl_events d @ tail" using pb(8) by blast
      have guarded: "reclaim_guarded sp (w @ new @ tail)"
        by (rule round_guarded [OF plan w(1) wait new(3)]) (use pb(6) tail ev(1) in simp)
      have ev5: "sp_events sp5 = sp_events sp @ w @ new @ tail" using tail ev(1) by simp
      show ?thesis
      proof (cases q5)
        case (Inl e)
        then have res: "q = Inl (Gpu e)" "sp' = pool_poison ''publishing a round's indirection table'' sp5"
          using run ne wr Inr all inr sp4 pub by (simp_all add: pool_serve_planned_def pool_publish_committed_round_def)
        show ?thesis using pb(2) guarded ev5 by (simp add: served_def res)
      next
        case ok: (Inr z)
        then have res: "is_ok q" "sp' = sp5\<lparr>sp_uploaded_bytes := next_bytes\<rparr>"
          using run ne wr Inr all inr sp4 pub by (auto simp: pool_serve_planned_def pool_publish_committed_round_def)
        have "pool_inv sp5" using pb(1) ok by simp
        moreover have "pool_inv (sp5\<lparr>sp_uploaded_bytes := next_bytes\<rparr>) = pool_inv sp5"
          by (simp add: pool_inv_def pool_memory_def pool_resident_def slots_serve_def slot_serves_def)
        ultimately show ?thesis using res guarded ev5 pb(3,4) p(2) by (auto simp: served_def)
      qed
    qed
  qed
qed

section \<open>Rounds\<close>

lemma require_staged_Inr: "require_staged staged items = Inr u \<Longrightarrow> i \<in> set items \<Longrightarrow> i < length staged \<and> staged ! i"
  by (induction items) (auto split: if_splits)

lemma reclaim_guarded_append:
  assumes g: "reclaim_guarded sp new" and same: "device_bytes (sp_events sp @ new @ t) = device_bytes (sp_events sp @ new)"
  shows "reclaim_guarded sp (new @ t)"
  unfolding reclaim_guarded_def same
proof (intro allI impI)
  fix x assume "device_bytes (sp_events sp @ new) x \<noteq> device_bytes (sp_events sp) x"
  then obtain s A where s: "s < length (slot_item (sp_cache sp))" "pool_slot_address sp s = Inr A" "A \<le> x"
    "x < A + sl_stride_bytes (sp_layout sp)"
    and w: "pinned_round (sp_cache sp) ! s = 0 \<or> (\<exists>k g rest. new = StreamWaits (ReclaimFence k) # rest \<and>
        last_release (sp_events sp) k = Some g \<and> pinned_round (sp_cache sp) ! s \<le> g)"
    using g unfolding reclaim_guarded_def by blast
  from w have "pinned_round (sp_cache sp) ! s = 0 \<or> (\<exists>k g rest. new @ t = StreamWaits (ReclaimFence k) # rest \<and>
        last_release (sp_events sp) k = Some g \<and> pinned_round (sp_cache sp) ! s \<le> g)"
    by auto
  with s show "\<exists>s A. s < length (slot_item (sp_cache sp)) \<and> pool_slot_address sp s = Inr A \<and> A \<le> x \<and>
      x < A + sl_stride_bytes (sp_layout sp) \<and> (pinned_round (sp_cache sp) ! s = 0 \<or>
        (\<exists>k g rest. new @ t = StreamWaits (ReclaimFence k) # rest \<and> last_release (sp_events sp) k = Some g \<and>
          pinned_round (sp_cache sp) ! s \<le> g))" by blast
qed

text \<open>Before the optional stall, a round refuses without effect or serves its plan.\<close>

lemma round_cases:
  assumes inv: "pool_inv sp" and run: "pool_round fails items stall sp = (r, sp')"
  obtains (refused) "\<not> is_ok r" and "pool_inv sp'" and "sp_events sp' = sp_events sp" and "retryable sp sp'"
      and "sp_poisoned sp' = sp_poisoned sp"
  | (failed) q sp1 where "planned_pool items sp q sp1" and "\<not> is_ok r" and "served sp sp1 False sp'"
  | (finished) q sp1 sp2 where "planned_pool items sp q sp1" and "served sp sp1 True sp2"
      and "if stall then \<exists>d v. stall_for_publication fails (sp_transfer sp2) (sp_log sp2) = (v, d) \<and> sp' = sp2\<lparr>sp_log := d\<rparr> \<and> (is_ok r = is_ok v)
           else is_ok r \<and> sp' = sp2"
proof (cases "is_ok (rbind (pool_require_live sp) (\<lambda>_. require_staged (sp_staged sp) items))")
  case False
  then have "\<not> is_ok r \<and> sp' = sp" using run by (auto simp: pool_round_def split: sum.splits)
  then show ?thesis using refused inv by (simp add: retryable_def)
next
  case True
  then have live: "sp_poisoned sp = None" and "\<exists>u. require_staged (sp_staged sp) items = Inr u"
    by (auto simp: pool_require_live_def is_ok_iff rbind_Inr_iff split: option.splits)
  then obtain u where staged: "require_staged (sp_staged sp) items = Inr u" by blast
  have c: "cache_inv (sp_cache sp)" using inv by (simp add: pool_inv_def)
  obtain q c1 as where plan: "cache_plan_round items (sp_cache sp) (sp_assignments sp) = (q, c1, as)"
    by (cases "cache_plan_round items (sp_cache sp) (sp_assignments sp)") auto
  let ?sp1 = "sp\<lparr>sp_cache := c1, sp_assignments := as\<rparr>"
  have enter: "rbind (pool_require_live sp) (\<lambda>_. require_staged (sp_staged sp) items) = Inr u"
    using live staged by (simp add: pool_require_live_def)
  show ?thesis
  proof (cases q)
    case (Inl e)
    have "pool_inv (sp\<lparr>sp_cache := c1, sp_assignments := as, sp_log := sp_log sp, sp_uploaded_bytes := sp_uploaded_bytes sp\<rparr>)"
      by (rule pool_inv_view [OF inv same_view_refl cache_plan_inv [OF c plan]]) (use abandon_residency [OF cache_plan_frame(1) [OF c plan]] in simp_all)
    moreover have "\<not> is_ok r \<and> sp' = ?sp1" using run enter plan Inl by (auto simp: pool_round_def)
    ultimately show ?thesis using refused cache_plan_frame(1) [OF c plan] by (simp add: retryable_def)
  next
    case (Inr rd)
    have pp: "planned_pool items sp rd ?sp1"
      using inv live plan Inr require_staged_Inr [OF staged] by (auto simp: planned_pool_def)
    have abandon: "served sp ?sp1 False (pool_abandon ?sp1)" using serve_refused [OF pp, of "sp_log sp" "[]"] by simp
    show ?thesis
    proof (cases "\<not> is_ok r \<and> sp' = pool_abandon ?sp1")
      case True
      then show ?thesis using failed [OF pp] abandon by simp
    next
      case False
      obtain up nb where up: "checked_mul (length as) (sl_stride_bytes (sp_layout sp)) = Some up" "checked_add (sp_uploaded_bytes sp) up = Some nb"
        and src: "\<exists>v. pool_require_planned_sources ?sp1 = Inr v"
        using run enter plan Inr False
        by (auto simp: pool_round_def Let_def split: option.splits sum.splits)
      obtain v sp2 where srv: "pool_serve_planned fails (round_reclaim_generation rd) nb ?sp1 = (v, sp2)" by fastforce
      have served: "served sp ?sp1 (is_ok v) sp2"
      proof (cases "as = []")
        case True
        then have "v = Inr () \<and> sp2 = pool_commit ?sp1" using srv by (auto simp: pool_serve_planned_def)
        then show ?thesis using serve_hits [OF pp] True by simp
      next
        case False
        then show ?thesis using serve_uploads [OF pp _ srv] by simp
      qed
      have tail: "(r, sp') = (case (v, sp2) of (Inl e, sp) \<Rightarrow> (Inl e, sp)
          | (Inr _, sp) \<Rightarrow> if stall then (case stall_for_publication fails (sp_transfer sp) (sp_log sp) of
                (Inl e, d) \<Rightarrow> (Inl (Gpu e), sp\<lparr>sp_log := d\<rparr>)
              | (Inr _, d) \<Rightarrow> (Inr (rd\<lparr>round_uploaded_bytes := up, round_stalled := True\<rparr>), sp\<lparr>sp_log := d\<rparr>))
            else (Inr (rd\<lparr>round_uploaded_bytes := up\<rparr>), sp))"
        using run enter plan Inr up src srv by (auto simp: pool_round_def Let_def)
      show ?thesis
      proof (cases v)
        case (Inl e)
        then show ?thesis using failed [OF pp] served tail by simp
      next
        case (Inr w)
        obtain z d where st: "stall_for_publication fails (sp_transfer sp2) (sp_log sp2) = (z, d)" by fastforce
        show ?thesis
          by (rule finished [OF pp, of sp2]) (use served tail Inr st in \<open>auto split: sum.splits if_splits\<close>)
      qed
    qed
  qed
qed

end
