(* ===== verification/StreamPoolProperties.thy ===== *)
theory StreamPoolProperties
  imports StreamPoolInvariant
begin

text \<open>
  The streaming weight pool from its constructors on: a byte plan is realised exactly, and in every
  reachable pool residency is true of the device, the reclaim rule holds, the host never rewrites memory
  in flight and a failed round is either forgotten or poisons the pool.
\<close>

section \<open>The byte plan\<close>

definition layout_valid :: "stream_layout \<Rightarrow> bool" where
  "layout_valid l \<longleftrightarrow> 0 < sl_item_count l \<and> 0 < sl_primary_extent_bytes l \<and> 0 < sl_slot_count l \<and>
    sl_slot_count l \<le> sl_item_count l \<and> sl_extent_bytes l \<le> sl_stride_bytes l \<and> STREAM_ALIGNMENT dvd sl_stride_bytes l \<and>
    sl_slot_region_bytes l = sl_slot_count l * sl_stride_bytes l \<and> sl_table_bytes l = sl_item_count l * 4 \<and>
    sl_table_staging_bytes l = sl_table_bytes l * TABLE_GENERATIONS \<and> sl_table_staging_bytes l < U64_BOUND \<and>
    sl_device_bytes l = sl_slot_region_bytes l + sl_table_bytes l \<and> sl_device_bytes l < U64_BOUND \<and>
    sl_host_pool_bytes l = sl_item_count l * sl_host_stride_bytes l \<and>
    (if sl_primary_source l = PinnedPrimary then sl_host_stride_bytes l = sl_stride_bytes l \<and> sl_bounce_ring_bytes l = 0
     else sl_secondary_extent_bytes l \<le> sl_host_stride_bytes l \<and> 0 < sl_bounce_slot_count l \<and>
       0 < sl_bounce_slot_bytes l \<and> STREAM_ALIGNMENT dvd sl_bounce_slot_bytes l \<and>
       sl_bounce_ring_bytes l = sl_bounce_slot_count l * sl_bounce_slot_bytes l \<and> sl_bounce_ring_bytes l < U64_BOUND)"

lemma next_multiple_Inr:
  "ok_or (checked_next_multiple_of a b) e = Inr c \<Longrightarrow> a \<le> c \<and> b dvd c"
  using checked_next_multiple_of_Some [of a b c] by (simp add: ok_or_Inr_iff)

lemma layout_plan_valid:
  assumes run: "layout_plan items primary secondary slots source bounce = Inr l"
    and bounce: "source = PinnedPrimary \<or> 0 < bounce"
  shows "layout_valid l \<and> sl_primary_source l = source"
proof -
  let ?s = "case secondary of None \<Rightarrow> 0 | Some n \<Rightarrow> n"
  have pos: "items \<noteq> 0" "primary \<noteq> 0" "slots \<noteq> 0" "\<not> items < slots"
    using run by (auto simp: layout_plan_def split: if_splits)
  obtain extent stride slot_region table staging device host_stride host_pool b r m pooled pinned where
    e: "checked_sum ''streaming item extent'' primary ?s = Inr extent"
    "checked_next_multiple_of extent STREAM_ALIGNMENT = Some stride"
    "product ''streaming slot region'' slots stride = Inr slot_region"
    "product ''streaming indirection table'' items 4 = Inr table"
    "product ''streaming table staging'' table TABLE_GENERATIONS = Inr staging"
    "checked_sum ''streaming device bytes'' slot_region table = Inr device"
    and h: "(if source = PinnedPrimary then Inr stride
       else ok_or (checked_next_multiple_of ?s STREAM_ALIGNMENT) (layout_error ''streaming pinned item stride overflows'')) = Inr host_stride"
    "product ''streaming host pool'' items host_stride = Inr host_pool"
    and b: "(if source = PinnedPrimary then Inr (0, 0, 0)
              else rbind (ok_or (checked_next_multiple_of primary STREAM_ALIGNMENT)
                            (layout_error ''streaming bounce slot overflows'')) (\<lambda>slot.
                   rbind (product ''streaming bounce ring'' bounce slot) (\<lambda>ring.
                   rbind (product ''streaming mapped pool'' items primary) (\<lambda>mapped.
                     Inr (slot, ring, mapped))))) = Inr (b, r, m)"
    and l: "l = \<lparr>sl_item_count = items, sl_primary_extent_bytes = primary, sl_secondary_extent_bytes = ?s,
           sl_stride_bytes = stride, sl_slot_count = slots, sl_slot_region_bytes = slot_region,
           sl_table_bytes = table, sl_table_staging_bytes = staging, sl_device_bytes = device,
           sl_host_pool_bytes = host_pool, sl_host_stride_bytes = host_stride, sl_primary_source = source,
           sl_bounce_slot_count = bounce, sl_bounce_slot_bytes = b, sl_bounce_ring_bytes = r,
           sl_host_pinned_bytes = pinned, sl_host_mapped_bytes = m\<rparr>"
    using run pos by (auto simp only: layout_plan_def Let_def rbind_Inr_iff ok_or_Inr_iff prod.case split_paired_Ex
        if_False simp_thms sum.inject)
  have e': "extent = primary + ?s" "slot_region = slots * stride" "table = items * 4" "staging = table * TABLE_GENERATIONS"
    "staging < U64_BOUND" "device = slot_region + table" "device < U64_BOUND" "host_pool = items * host_stride"
    using e h(2) by (simp_all add: product_Inr_iff checked_sum_Inr_iff)
  have st: "extent \<le> stride" "STREAM_ALIGNMENT dvd stride" using checked_next_multiple_of_Some [OF e(2)] by simp_all
  show ?thesis
  proof (cases source)
    case PinnedPrimary
    then show ?thesis using pos e' st h b by (simp add: layout_valid_def l sl_extent_bytes_def)
  next
    case MappedPrimary
    then have "0 < bounce" using bounce by simp
    moreover have "?s \<le> host_stride" using h(1) MappedPrimary by (auto dest: next_multiple_Inr)
    moreover have "primary \<le> b \<and> STREAM_ALIGNMENT dvd b" "r = bounce * b" "r < U64_BOUND"
      using b MappedPrimary by (auto simp: rbind_Inr_iff product_Inr_iff dest: next_multiple_Inr)
    ultimately show ?thesis using pos e' st h b MappedPrimary by (simp add: layout_valid_def l sl_extent_bytes_def)
  qed
qed

section \<open>Construction\<close>

lemma stream_alignment_power: "is_power_of_two STREAM_ALIGNMENT"
  by (simp add: STREAM_ALIGNMENT_def) code_simp

lemma reserve_aligned:
  assumes "STREAM_ALIGNMENT dvd al_cursor al" and "ea \<le> STREAM_ALIGNMENT" and "sz \<noteq> 0" and "al_cursor al + len * sz < U64_BOUND"
  shows "layout_reserve sz ea len STREAM_ALIGNMENT al =
    (Inr \<lparr>ar_offset = al_cursor al, ar_len = len, ar_bytes = len * sz, ar_alignment = STREAM_ALIGNMENT\<rparr>,
     \<lparr>al_cursor = al_cursor al + len * sz, al_max_alignment = max (al_max_alignment al) STREAM_ALIGNMENT\<rparr>)"
proof -
  have "div_ceil (al_cursor al) STREAM_ALIGNMENT * STREAM_ALIGNMENT = al_cursor al" using assms(1) by (auto simp: div_ceil_def STREAM_ALIGNMENT_def)
  moreover have "al_cursor al + (STREAM_ALIGNMENT - 1) < U64_BOUND"
  proof -
    obtain k where k: "al_cursor al = 256 * k" using assms(1) by (auto simp: STREAM_ALIGNMENT_def)
    then have "256 * k < 18446744073709551616" using assms(4) by (simp add: U64_BOUND_def)
    then have "256 * k + 255 < 18446744073709551616" by presburger
    then show ?thesis by (simp add: k STREAM_ALIGNMENT_def U64_BOUND_def)
  qed
  ultimately show ?thesis
    using assms stream_alignment_power
    by (simp add: layout_reserve_def align_masked_eq checked_mul_def checked_add_def)
qed

definition fresh_slots :: "nat \<Rightarrow> nat \<Rightarrow> stream_layout \<Rightarrow> slot_pool" where
  "fresh_slots context base l = \<lparr>dp_arena = \<lparr>da_base = base, da_bytes = sl_device_bytes l\<rparr>,
    dp_staging = replicate (sl_item_count l * TABLE_GENERATIONS) 0, dp_staged = replicate TABLE_GENERATIONS False, dp_generation = 0,
    dp_slots = \<lparr>ar_offset = 0, ar_len = sl_slot_region_bytes l, ar_bytes = sl_slot_region_bytes l, ar_alignment = STREAM_ALIGNMENT\<rparr>,
    dp_table = \<lparr>ar_offset = sl_slot_region_bytes l, ar_len = sl_item_count l, ar_bytes = sl_table_bytes l, ar_alignment = STREAM_ALIGNMENT\<rparr>,
    dp_item_count = sl_item_count l, dp_slot_count = sl_slot_count l, dp_slot_bytes = sl_stride_bytes l, dp_context = context\<rparr>"

lemma slot_plan_fits:
  assumes l: "layout_valid l" and small: "sl_item_count l < ABSENT_SLOT"
  shows "slot_pool_plan (sl_item_count l) (sl_slot_count l) (sl_stride_bytes l) =
    Inr (\<lparr>al_cursor = sl_device_bytes l, al_max_alignment = STREAM_ALIGNMENT\<rparr>,
      dp_slots (fresh_slots context base l), dp_table (fresh_slots context base l), sl_item_count l * TABLE_GENERATIONS)"
proof -
  let ?n = "sl_slot_count l * sl_stride_bytes l"
  have d: "?n + sl_item_count l * 4 < U64_BOUND" "STREAM_ALIGNMENT dvd sl_stride_bytes l" "sl_stride_bytes l \<noteq> 0"
    "sl_item_count l \<noteq> 0" "sl_slot_count l \<noteq> 0" "sl_slot_count l \<le> sl_item_count l"
    using l by (auto simp: layout_valid_def sl_extent_bytes_def)
  have guards: "\<not> (sl_item_count l = 0 \<or> sl_slot_count l = 0 \<or> sl_stride_bytes l = 0)" "\<not> sl_item_count l < sl_slot_count l"
    "\<not> (U32_BOUND \<le> sl_slot_count l \<or> sl_slot_count l = ABSENT_SLOT)" "sl_stride_bytes l mod STREAM_ALIGNMENT = 0"
    using d small by (auto simp: ABSENT_SLOT_def U32_BOUND_def)
  have muls: "checked_mul (sl_slot_count l) (sl_stride_bytes l) = Some ?n" "checked_mul (sl_item_count l) TABLE_GENERATIONS = Some (sl_item_count l * TABLE_GENERATIONS)"
    using d(1) by (simp_all add: checked_mul_def TABLE_GENERATIONS_def)
  have r1: "layout_reserve 1 1 ?n STREAM_ALIGNMENT layout_new =
      (Inr \<lparr>ar_offset = 0, ar_len = ?n, ar_bytes = ?n, ar_alignment = STREAM_ALIGNMENT\<rparr>,
       \<lparr>al_cursor = ?n, al_max_alignment = STREAM_ALIGNMENT\<rparr>)"
    using reserve_aligned [of layout_new 1 1 ?n] d(1) by (simp add: layout_new_def STREAM_ALIGNMENT_def)
  have r2: "layout_reserve 4 4 (sl_item_count l) STREAM_ALIGNMENT \<lparr>al_cursor = ?n, al_max_alignment = STREAM_ALIGNMENT\<rparr> =
      (Inr \<lparr>ar_offset = ?n, ar_len = sl_item_count l, ar_bytes = sl_item_count l * 4, ar_alignment = STREAM_ALIGNMENT\<rparr>,
       \<lparr>al_cursor = ?n + sl_item_count l * 4, al_max_alignment = STREAM_ALIGNMENT\<rparr>)"
    using reserve_aligned [of "\<lparr>al_cursor = ?n, al_max_alignment = STREAM_ALIGNMENT\<rparr>" 4 4 "sl_item_count l"] d(1,2)
    by (simp add: STREAM_ALIGNMENT_def)
  show ?thesis using guards muls r1 r2 l by (simp add: slot_pool_plan_def fresh_slots_def layout_valid_def)
qed

text \<open>A part of the construction that makes the given driver calls in order and then has a result.\<close>

definition sets_up :: "(nat \<Rightarrow> bool) \<Rightarrow> 'a driver_setup \<Rightarrow> string list \<Rightarrow> 'a \<Rightarrow> bool" where
  "sets_up fails m ops a \<longleftrightarrow> m = setup_bind (setup_calls fails ops) (\<lambda>_. setup_return a)"

lemma setup_laws:
  "setup_bind (setup_return a) k = k a" "setup_bind m setup_return = m"
  "setup_bind (setup_bind m k) h = setup_bind m (\<lambda>a. setup_bind (k a) h)" "setup_bind (setup_lift (Inr a)) k = k a"
  by (auto simp: setup_bind_def setup_return_def setup_lift_def fun_eq_iff split: prod.splits sum.splits)

lemma setup_calls_append: "setup_calls fails (xs @ ys) = setup_bind (setup_calls fails xs) (\<lambda>_. setup_calls fails ys)"
  by (induction xs) (simp_all add: setup_laws)

lemma sets_up_return: "sets_up fails (setup_return a) [] a"
  by (simp add: sets_up_def setup_laws)

lemma sets_up_calls: "sets_up fails (setup_calls fails ops) ops ()"
proof -
  have "(\<lambda>_ :: unit. setup_return ()) = setup_return" by (simp add: fun_eq_iff)
  then show ?thesis by (simp add: sets_up_def setup_laws)
qed

lemma sets_up_call: "sets_up fails (setup_call fails operation) [operation] ()"
proof -
  have "setup_calls fails [operation] = setup_call fails operation"
    by (auto simp: setup_bind_def setup_return_def fun_eq_iff split: prod.splits sum.splits)
  then show ?thesis using sets_up_calls [of fails "[operation]"] by simp
qed

lemma sets_up_bind: "sets_up fails m xs a \<Longrightarrow> sets_up fails (k a) ys b \<Longrightarrow> sets_up fails (setup_bind m k) (xs @ ys) b"
  by (simp add: sets_up_def setup_laws setup_calls_append)

lemmas sets_up_intros = sets_up_bind sets_up_return sets_up_calls sets_up_call

text \<open>Such a part succeeds exactly when none of its calls is refused, and the first refusal is its error.\<close>

lemma find_mapped: "find P (map f xs) = map_option f (find (P \<circ> f) xs)"
  by (induction xs) simp_all

lemma setup_calls_run:
  "setup_calls fails ops d =
    (case find (\<lambda>i. fails (dl_calls d + i)) [0..<length ops] of
       None \<Rightarrow> (Inr (), d\<lparr>dl_calls := dl_calls d + length ops\<rparr>)
     | Some i \<Rightarrow> (Inl (GpuDriverError (ops ! i)), d\<lparr>dl_calls := dl_calls d + i + 1\<rparr>))"
proof (induction ops arbitrary: d)
  case Nil
  then show ?case by (simp add: setup_return_def)
next
  case (Cons operation ops)
  have "find (\<lambda>i. fails (dl_calls d + i)) [0..<length (operation # ops)] =
      (if fails (dl_calls d) then Some 0 else map_option Suc (find (\<lambda>i. fails (dl_calls d + 1 + i)) [0..<length ops]))"
    by (simp add: upt_conv_Cons find_mapped comp_def flip: map_Suc_upt del: upt_Suc)
  then show ?case by (auto simp: setup_bind_def setup_call_def Cons split: option.splits)
qed

lemma sets_up_ok: "sets_up fails m ops a \<Longrightarrow> is_ok (fst (m d)) \<longleftrightarrow> (\<forall>i<length ops. \<not> fails (dl_calls d + i))"
  by (auto simp: sets_up_def setup_bind_def setup_calls_run setup_return_def is_ok_def find_None_iff find_Some_iff split: option.splits)

lemma sets_up_refused:
  assumes "sets_up fails m ops a" and "i < length ops" and "fails (dl_calls d + i)" and "\<forall>j<i. \<not> fails (dl_calls d + j)"
  shows "fst (m d) = Inl (GpuDriverError (ops ! i))"
proof -
  have "find (\<lambda>i. fails (dl_calls d + i)) [0..<length ops] = Some i"
    using assms(2-4) by (auto simp: find_Some_iff)
  then show ?thesis using assms(1) by (simp add: sets_up_def setup_bind_def setup_calls_run)
qed

section \<open>The parts of a pool\<close>

definition fresh_transfer :: "nat \<Rightarrow> transfer_stream" where
  "fresh_transfer context = \<lparr>ts_context = context, ts_released = replicate RECLAIM_FENCE_GENERATIONS 0,
    ts_recorded = 0, ts_published = False\<rparr>"

definition fresh_pinned :: "nat \<Rightarrow> nat \<Rightarrow> pinned_pool" where
  "fresh_pinned context bytes = \<lparr>pp_storage = replicate bytes 0, pp_bytes = bytes, pp_context = context\<rparr>"

definition fresh_bounce :: "nat \<Rightarrow> stream_layout \<Rightarrow> bounce_ring option" where
  "fresh_bounce context l =
    (if sl_primary_source l = PinnedPrimary then None
     else Some \<lparr>br_storage = fresh_pinned context (sl_bounce_ring_bytes l), br_fenced = replicate (sl_bounce_slot_count l) False,
         br_slot_count = sl_bounce_slot_count l, br_slot_bytes = sl_bounce_slot_bytes l, br_cursor = 0, br_waits = 0\<rparr>)"

text \<open>The driver calls of a construction, in order.\<close>

definition pinned_operations :: "string list" where
  "pinned_operations = [''binding the pinned-pool CUDA context'', ''allocating a pinned host pool'']"

definition transfer_operations :: "string list" where
  "transfer_operations = [''creating the slot transfer stream'', ''creating the publication fence event''] @
    replicate RECLAIM_FENCE_GENERATIONS ''creating a reclaim fence event''"

definition bounce_operations :: "stream_layout \<Rightarrow> string list" where
  "bounce_operations l = (if sl_primary_source l = PinnedPrimary then []
    else pinned_operations @ replicate (sl_bounce_slot_count l) ''creating a bounce-ring upload fence'')"

definition arena_operations :: "string list" where
  "arena_operations = [''creating the slot-pool setup stream'', ''binding the arena CUDA context'', ''allocating a zeroed device arena'',
    ''synchronizing device arena zeroing'']"

definition table_operations :: "string list" where
  "table_operations = [''binding the arena CUDA context'', ''filling a device arena region'',
    ''allocating the indirection-table staging ring''] @
    replicate TABLE_GENERATIONS ''creating an indirection-table generation fence'' @ [''synchronizing slot-pool initialization'']"

definition construction_operations :: "stream_layout \<Rightarrow> string list" where
  "construction_operations l = transfer_operations @ bounce_operations l @ arena_operations @ table_operations @ pinned_operations"

lemma pinned_sets_up: "sets_up fails (pinned_allocate fails context bytes) pinned_operations (fresh_pinned context bytes)"
proof -
  have "sets_up fails (pinned_allocate fails context bytes)
      ([''binding the pinned-pool CUDA context''] @ [''allocating a pinned host pool''] @ []) (fresh_pinned context bytes)"
    unfolding pinned_allocate_def fresh_pinned_def by (rule sets_up_intros)+
  then show ?thesis by (simp add: pinned_operations_def)
qed

lemma transfer_sets_up: "sets_up fails (transfer_new fails context) transfer_operations (fresh_transfer context)"
proof -
  have "sets_up fails (transfer_new fails context) ([''creating the slot transfer stream''] @ [''creating the publication fence event''] @
      replicate RECLAIM_FENCE_GENERATIONS ''creating a reclaim fence event'' @ []) (fresh_transfer context)"
    unfolding transfer_new_def fresh_transfer_def by (rule sets_up_intros)+
  then show ?thesis by (simp add: transfer_operations_def)
qed

lemma bounce_sets_up:
  assumes l: "layout_valid l"
  shows "sets_up fails (if sl_primary_source l = PinnedPrimary then setup_return None
      else setup_bind (bounce_allocate fails context (sl_bounce_slot_count l) (sl_bounce_slot_bytes l)) (\<lambda>b. setup_return (Some b)))
    (bounce_operations l) (fresh_bounce context l)"
proof (cases "sl_primary_source l = PinnedPrimary")
  case True
  then show ?thesis by (simp add: bounce_operations_def fresh_bounce_def sets_up_return)
next
  case False
  let ?fences = "replicate (sl_bounce_slot_count l) ''creating a bounce-ring upload fence''"
  let ?ring = "\<lparr>br_storage = fresh_pinned context (sl_bounce_ring_bytes l), br_fenced = replicate (sl_bounce_slot_count l) False,
         br_slot_count = sl_bounce_slot_count l, br_slot_bytes = sl_bounce_slot_bytes l, br_cursor = 0, br_waits = 0\<rparr>"
  have ring: "bounce_allocate fails context (sl_bounce_slot_count l) (sl_bounce_slot_bytes l) =
      setup_bind (pinned_allocate fails context (sl_bounce_ring_bytes l)) (\<lambda>storage.
      setup_bind (setup_calls fails ?fences) (\<lambda>_. setup_return (?ring\<lparr>br_storage := storage\<rparr>)))"
    using l False by (auto simp: layout_valid_def bounce_allocate_def checked_mul_def)
  have "sets_up fails (setup_bind (bounce_allocate fails context (sl_bounce_slot_count l) (sl_bounce_slot_bytes l)) (\<lambda>b. setup_return (Some b)))
      ((pinned_operations @ ?fences @ []) @ []) (Some ?ring)"
    unfolding ring by (rule sets_up_bind [OF _ sets_up_return], rule sets_up_bind [OF pinned_sets_up], rule sets_up_bind [OF sets_up_calls])
      (simp add: sets_up_return)
  then show ?thesis using False by (simp add: bounce_operations_def fresh_bounce_def)
qed

text \<open>The device part depends on the base address: filling the table resolves its region.\<close>

lemma slots_setup:
  assumes l: "layout_valid l" and small: "sl_item_count l < ABSENT_SLOT"
  shows "slot_pool_new fails context base (sl_item_count l) (sl_slot_count l) (sl_stride_bytes l) =
    setup_bind (setup_calls fails arena_operations) (\<lambda>_.
    setup_bind (setup_lift (dp_table_address (fresh_slots context base l))) (\<lambda>_.
    setup_bind (setup_calls fails table_operations) (\<lambda>_. setup_return (fresh_slots context base l))))"
proof -
  let ?s = "fresh_slots context base l"
  have base: "layout_require_base_alignment base \<lparr>al_cursor = sl_device_bytes l, al_max_alignment = STREAM_ALIGNMENT\<rparr> = Inr ()"
    by (simp add: layout_require_base_alignment_def STREAM_ALIGNMENT_def DRIVER_BASE_ALIGNMENT_def)
  have zeroed: "setup_bind (setup_call fails ''creating the slot-pool setup stream'')
      (\<lambda>_. setup_bind (arena_zeroed fails base \<lparr>al_cursor = sl_device_bytes l, al_max_alignment = STREAM_ALIGNMENT\<rparr>) k) =
    setup_bind (setup_calls fails arena_operations) (\<lambda>_. k (dp_arena ?s))" for k :: "device_arena \<Rightarrow> 'x driver_setup"
    by (simp add: arena_zeroed_def base arena_operations_def setup_laws fresh_slots_def)
  have bytes: "ar_bytes (dp_table ?s) \<noteq> 0" using l by (simp add: fresh_slots_def layout_valid_def)
  have tail: "setup_bind (arena_fill fails 4 (dp_table ?s) (dp_arena ?s)) (\<lambda>_.
      setup_bind (setup_call fails ''allocating the indirection-table staging ring'') (\<lambda>_.
      setup_bind (setup_calls fails (replicate TABLE_GENERATIONS ''creating an indirection-table generation fence'')) (\<lambda>_.
      setup_bind (setup_call fails ''synchronizing slot-pool initialization'') (\<lambda>_. k)))) =
    setup_bind (setup_lift (dp_table_address ?s)) (\<lambda>_. setup_bind (setup_calls fails table_operations) (\<lambda>_. k))" for k :: "'x driver_setup"
    by (simp add: arena_fill_def bytes table_operations_def setup_laws setup_calls_append dp_table_address_def)
  show ?thesis unfolding slot_pool_new_def slot_plan_fits [OF l small, of "context" base] setup_laws(4) prod.case zeroed tail
    by (simp add: fresh_slots_def)
qed

text \<open>The pool a plan builds; its log has counted the calls of the construction.\<close>

definition fresh_pool :: "nat \<Rightarrow> nat \<Rightarrow> stream_layout \<Rightarrow> (nat \<Rightarrow> nat list engine_result) option \<Rightarrow> slot_cache \<Rightarrow> stream_pool" where
  "fresh_pool context base l mapped cache =
    \<lparr>sp_transfer = fresh_transfer context, sp_bounce = fresh_bounce context l, sp_slots = fresh_slots context base l,
      sp_host = fresh_pinned context (sl_host_pool_bytes l), sp_mapped = mapped, sp_cache = cache,
      sp_assignments = [], sp_layout = l, sp_staged = replicate (sl_item_count l) False,
      sp_uploaded_bytes = 0, sp_poisoned = None, sp_log = \<lparr>dl_calls = length (construction_operations l), dl_events = []\<rparr>\<rparr>"

abbreviation fresh_parts :: "nat \<Rightarrow> nat \<Rightarrow> stream_layout \<Rightarrow> transfer_stream \<times> bounce_ring option \<times> slot_pool \<times> pinned_pool" where
  "fresh_parts context base l \<equiv>
    (fresh_transfer context, fresh_bounce context l, fresh_slots context base l, fresh_pinned context (sl_host_pool_bytes l))"

lemma pool_setup_run:
  assumes l: "layout_valid l" and small: "sl_item_count l < ABSENT_SLOT"
  shows "pool_setup fails context base l =
    setup_bind (setup_calls fails (transfer_operations @ bounce_operations l @ arena_operations)) (\<lambda>_.
    setup_bind (setup_lift (dp_table_address (fresh_slots context base l))) (\<lambda>_.
    setup_bind (setup_calls fails (table_operations @ pinned_operations)) (\<lambda>_. setup_return (fresh_parts context base l))))"
  unfolding pool_setup_def bounce_sets_up [OF l, unfolded sets_up_def] transfer_sets_up [unfolded sets_up_def]
    pinned_sets_up [unfolded sets_up_def] slots_setup [OF assms]
  by (simp add: setup_laws setup_calls_append)

lemma pool_setup_value:
  assumes "layout_valid l" and "sl_item_count l < ABSENT_SLOT" and "pool_setup fails context base l d = (Inr parts, d')"
  shows "parts = fresh_parts context base l \<and> d' = d\<lparr>dl_calls := dl_calls d + length (construction_operations l)\<rparr>"
  using assms(3) unfolding pool_setup_run [OF assms(1,2)]
  by (auto simp: setup_bind_def setup_calls_run setup_lift_def setup_return_def construction_operations_def add.assoc split: option.splits sum.splits)

text \<open>What the driver promises of an allocation: its address is aligned to 256 bytes and it ends in the
  address space.\<close>

definition driver_base :: "nat \<Rightarrow> nat \<Rightarrow> bool" where
  "driver_base base bytes \<longleftrightarrow> DRIVER_BASE_ALIGNMENT dvd base \<and> base + bytes \<le> U64_BOUND"

lemma table_resolves:
  assumes l: "layout_valid l" and base: "driver_base base (sl_device_bytes l)"
  shows "is_ok (dp_table_address (fresh_slots context base l))"
proof -
  have b: "256 dvd base" "base + sl_slot_region_bytes l < U64_BOUND"
    using l base by (auto simp: driver_base_def DRIVER_BASE_ALIGNMENT_def layout_valid_def)
  have "256 dvd sl_slot_region_bytes l" using l by (auto simp: layout_valid_def STREAM_ALIGNMENT_def)
  then have "256 dvd base + sl_slot_region_bytes l" using b(1) by simp
  moreover from this have "4 dvd base + sl_slot_region_bytes l" by (rule dvd_trans [rotated]) simp
  ultimately show ?thesis using l b(2)
    by (simp add: dp_table_address_def fresh_slots_def arena_address_def checked_add_def layout_valid_def STREAM_ALIGNMENT_def is_ok_def)
qed

lemma pool_sets_up:
  assumes l: "layout_valid l" and small: "sl_item_count l < ABSENT_SLOT" and base: "driver_base base (sl_device_bytes l)"
  shows "sets_up fails (pool_setup fails context base l) (construction_operations l) (fresh_parts context base l)"
proof -
  obtain address where "dp_table_address (fresh_slots context base l) = Inr address"
    using table_resolves [OF l base, of "context"] by (auto simp: is_ok_iff)
  then show ?thesis by (simp add: sets_up_def pool_setup_run [OF l small] setup_laws construction_operations_def setup_calls_append)
qed

lemma cache_new_refused:
  "\<not> sl_item_count l < ABSENT_SLOT \<Longrightarrow> \<exists>e. cache_new (sl_item_count l) (sl_slot_count l) = Inl e"
  by (auto simp: cache_new_def ABSENT_SLOT_def STREAMING_ABSENT_ITEM_def U32_BOUND_def)

lemma measured_plan:
  "layout_valid l \<Longrightarrow> require_measured_allocations l (dp_device_bytes (fresh_slots context base l)) (dp_staging_bytes (fresh_slots context base l))
      (case fresh_bounce context l of None \<Rightarrow> 0 | Some b \<Rightarrow> bounce_byte_len b) = Inr ()"
  by (auto simp: require_measured_allocations_def dp_device_bytes_def dp_staging_bytes_def fresh_slots_def fresh_bounce_def
        bounce_byte_len_def layout_valid_def split: if_splits)

lemma pool_allocate_small: "pool_allocate fails context base l mapped = Inr sp \<Longrightarrow> sl_item_count l < ABSENT_SLOT"
  by (rule ccontr, drule cache_new_refused) (auto simp: pool_allocate_def split: sum.splits prod.splits)

lemma pool_allocate_value:
  assumes l: "layout_valid l" and run: "pool_allocate fails context base l mapped = Inr sp"
  shows "\<exists>c. cache_new (sl_item_count l) (sl_slot_count l) = Inr c \<and> sp = fresh_pool context base l mapped c"
proof -
  obtain parts d where p: "pool_setup fails context base l \<lparr>dl_calls = 0, dl_events = []\<rparr> = (Inr parts, d)"
    using run by (auto simp: pool_allocate_def split: sum.splits prod.splits)
  have v: "parts = fresh_parts context base l" "d = \<lparr>dl_calls = length (construction_operations l), dl_events = []\<rparr>"
    using pool_setup_value [OF l pool_allocate_small [OF run] p] by simp_all
  show ?thesis using run by (auto simp: pool_allocate_def p v rbind_Inr_iff fresh_pool_def)
qed

lemma pool_allocate_ok:
  assumes l: "layout_valid l" and base: "driver_base base (sl_device_bytes l)"
  shows "is_ok (pool_allocate fails context base l mapped) \<longleftrightarrow>
      sl_item_count l < ABSENT_SLOT \<and> (\<forall>i<length (construction_operations l). \<not> fails i)"
proof (cases "sl_item_count l < ABSENT_SLOT")
  case True
  let ?run = "pool_setup fails context base l \<lparr>dl_calls = 0, dl_events = []\<rparr>"
  have ok: "is_ok (fst ?run) \<longleftrightarrow> (\<forall>i<length (construction_operations l). \<not> fails i)"
    using sets_up_ok [OF pool_sets_up [OF l True base, of fails "context"], of "\<lparr>dl_calls = 0, dl_events = []\<rparr>"] by simp
  obtain c where "cache_new (sl_item_count l) (sl_slot_count l) = Inr c"
    using l True by (auto simp: cache_new_def layout_valid_def ABSENT_SLOT_def STREAMING_ABSENT_ITEM_def U32_BOUND_def)
  then have "is_ok (pool_allocate fails context base l mapped) \<longleftrightarrow> is_ok (fst ?run)"
    using pool_setup_value [OF l True, of fails "context" base "\<lparr>dl_calls = 0, dl_events = []\<rparr>"] measured_plan [OF l, of "context" base]
    by (cases ?run; cases "fst ?run") (auto simp: pool_allocate_def is_ok_def)
  then show ?thesis using ok True by simp
next
  case False
  then show ?thesis using pool_allocate_small by (auto simp: is_ok_iff)
qed

lemma pool_allocate_refused:
  assumes "layout_valid l" and "sl_item_count l < ABSENT_SLOT" and "driver_base base (sl_device_bytes l)"
    and "i < length (construction_operations l)" and "fails i" and "\<forall>j<i. \<not> fails j"
  shows "pool_allocate fails context base l mapped = Inl (Gpu (GpuDriverError (construction_operations l ! i)))"
  using sets_up_refused [OF pool_sets_up [OF assms(1-3), of fails "context"] assms(4), of "\<lparr>dl_calls = 0, dl_events = []\<rparr>"] assms(5,6)
  by (auto simp: pool_allocate_def split: prod.splits)

section \<open>The other operations keep the invariant\<close>

lemma fresh_pool_inv:
  assumes l: "layout_valid l" and c: "cache_new (sl_item_count l) (sl_slot_count l) = Inr c"
  shows "pool_inv (fresh_pool context base l mapped c)"
proof -
  let ?sp = "fresh_pool context base l mapped c"
  have cs: "length (item_slot c) = sl_item_count l" "slot_item c = replicate (sl_slot_count l) STREAMING_ABSENT_ITEM"
    "item_slot c = replicate (sl_item_count l) ABSENT_SLOT"
    using c by (auto simp: cache_new_def ABSENT_SLOT_def STREAMING_ABSENT_SLOT_def split: if_splits)
  have "pool_static ?sp"
    using l cs by (auto simp: pool_static_def fresh_pool_def fresh_slots_def fresh_pinned_def layout_valid_def Let_def split: if_splits)
  moreover have "pool_memory ?sp"
    using l by (auto simp: pool_memory_def fresh_pool_def fresh_bounce_def ring_ok_def table_ok_def fresh_slots_def fresh_pinned_def
        layout_valid_def split: if_splits)
  moreover have "pool_resident ?sp"
    using cs by (simp add: pool_resident_def slots_serve_def fresh_pool_def device_table_def)
  moreover have "reclaim_ok (sp_transfer ?sp) (sp_events ?sp)"
    by (simp add: reclaim_ok_def fresh_pool_def fresh_transfer_def live_reclaims_def)
  ultimately show ?thesis using cache_new_inv [OF c] by (simp add: pool_inv_def fresh_pool_def)
qed

lemma drain_view:
  "region_of (evs @ [DrainStream]) = (\<lambda>_. Idle)" "host_memory_safe (evs @ [DrainStream]) = host_memory_safe evs"
  "device_bytes (evs @ [DrainStream]) = device_bytes evs" "device_table n (evs @ [DrainStream]) = device_table n evs"
  "last_release (evs @ [DrainStream]) = last_release evs"
  by (simp_all add: region_of_snoc device_bytes_snoc device_table_append last_release_append)

lemma drained_write_view:
  "region_of (evs @ [DrainStream, HostWrites PinnedItems]) = (\<lambda>_. Idle)"
  "host_memory_safe (evs @ [DrainStream, HostWrites PinnedItems]) = host_memory_safe evs"
  "device_bytes (evs @ [DrainStream, HostWrites PinnedItems]) = device_bytes evs"
  "device_table n (evs @ [DrainStream, HostWrites PinnedItems]) = device_table n evs"
  "last_release (evs @ [DrainStream, HostWrites PinnedItems]) = last_release evs"
  by (simp_all add: memory_fold device_bytes_append device_table_append last_release_append)

text \<open>An idle stream keeps every host-memory invariant.\<close>

lemma pool_inv_idle:
  assumes inv: "pool_inv sp" and idle: "region_of (dl_events d) = (\<lambda>_. Idle)"
    and same: "host_memory_safe (dl_events d) = host_memory_safe (sp_events sp)" "device_bytes (dl_events d) = device_bytes (sp_events sp)"
      "\<And>n. device_table n (dl_events d) = device_table n (sp_events sp)" "last_release (dl_events d) = last_release (sp_events sp)"
  shows "pool_inv (sp\<lparr>sp_log := d\<rparr>)"
proof -
  let ?sp = "sp\<lparr>sp_log := d\<rparr>"
  have "pool_memory ?sp" if "pool_memory sp"
    using that idle same(1) ring_ok_frame [of _ "sp_events sp" "dl_events d"] table_ok_frame [of _ "sp_events sp" "dl_events d"]
    by (simp add: pool_memory_def)
  moreover have "pool_resident ?sp = pool_resident sp"
    by (simp add: pool_resident_def slots_serve_def slot_serves_def slot_holds_view [OF same(2)] same(3))
  ultimately show ?thesis using inv same(1) reclaim_ok_view [OF same(4)] by (simp add: pool_inv_def)
qed

text \<open>Writing the host extent of an item that is not staged leaves every resident item alone.\<close>

lemma host_extent_other:
  assumes "i \<noteq> j" and "n \<le> h" and "j * h \<le> off" and "off + length xs \<le> (j + 1) * h" and "(j + 1) * h \<le> length st"
  shows "take n (drop (i * h) (list_write off xs st)) = take n (drop (i * h) (st :: nat list))"
proof (rule nth_equalityI)
  have len: "length (list_write off xs st) = length st" by (rule length_list_write) (use assms in simp)
  then show "length (take n (drop (i * h) (list_write off xs st))) = length (take n (drop (i * h) st))" by simp
  fix k assume k: "k < length (take n (drop (i * h) (list_write off xs st)))"
  then have k': "k < n" "i * h + k < length st" using len by auto
  have "i * h + k < off \<or> off + length xs \<le> i * h + k"
  proof (cases "i < j")
    case True
    then have "(i + 1) * h \<le> j * h" by (intro mult_le_mono1) simp
    then show ?thesis using k' assms by simp
  next
    case False
    then have "(j + 1) * h \<le> i * h" using assms(1) by (intro mult_le_mono1) simp
    then show ?thesis using assms by linarith
  qed
  then show "take n (drop (i * h) (list_write off xs st)) ! k = take n (drop (i * h) st) ! k"
    using k k' len assms(4,5) nth_list_write [of off xs st "i * h + k"] by auto
qed

lemma pool_inv_host_write:
  assumes inv: "pool_inv sp" and j: "j < sl_item_count (sp_layout sp)" "\<not> sp_staged sp ! j"
    and off: "j * sl_host_stride_bytes (sp_layout sp) \<le> off" "off + length xs \<le> (j + 1) * sl_host_stride_bytes (sp_layout sp)"
    and st: "staged = sp_staged sp \<or> staged = (sp_staged sp)[j := True]"
  shows "pool_inv (sp\<lparr>sp_host := (sp_host sp)\<lparr>pp_storage := list_write off xs (pp_storage (sp_host sp))\<rparr>, sp_staged := staged\<rparr>)"
proof -
  let ?sp = "sp\<lparr>sp_host := (sp_host sp)\<lparr>pp_storage := list_write off xs (pp_storage (sp_host sp))\<rparr>, sp_staged := staged\<rparr>"
  let ?l = "sp_layout sp" and ?h = "sl_host_stride_bytes (sp_layout sp)"
  have static: "pool_static sp" using inv by (simp add: pool_inv_def)
  have "(j + 1) * ?h \<le> sl_item_count ?l * ?h" using j(1) by (intro mult_le_mono1) simp
  then have room: "(j + 1) * ?h \<le> length (pp_storage (sp_host sp))" using static by (simp add: pool_static_def Let_def)
  have len: "length (list_write off xs (pp_storage (sp_host sp))) = length (pp_storage (sp_host sp))"
    by (rule length_list_write) (use off room in simp)
  have "pool_static ?sp" using static st by (auto simp: pool_static_def Let_def len)
  moreover have "pool_memory ?sp = pool_memory sp" by (simp add: pool_memory_def)
  moreover have "pool_extent ?sp i = pool_extent sp i" if "i \<noteq> j" for i
  proof -
    have n: "(if sl_primary_source ?l = PinnedPrimary then sl_extent_bytes ?l else sl_secondary_extent_bytes ?l) \<le> ?h"
      using static by (auto simp: pool_static_def Let_def)
    show ?thesis
      using host_extent_other [OF that n off room] by (auto simp: pool_extent_def Let_def split: option.split if_splits)
  qed
  then have "slot_serves ?sp s i" if "slot_serves sp s i" for s i
    using that st j(2) by (cases "i = j") (auto simp: slot_serves_def nth_list_update)
  then have "pool_resident ?sp" if "pool_resident sp" using that by (simp add: pool_resident_def slots_serve_def)
  ultimately show ?thesis using inv by (simp add: pool_inv_def)
qed

lemma pinned_write_ok:
  "pinned_write off xs p = (r, p') \<Longrightarrow> is_ok r \<and> p' = p\<lparr>pp_storage := list_write off xs (pp_storage p)\<rparr> \<or> \<not> is_ok r \<and> p' = p"
  by (auto simp: pinned_write_def split: option.splits if_splits)

lemma log_host_commute: "sp\<lparr>sp_host := h, sp_log := d\<rparr> = sp\<lparr>sp_log := d, sp_host := h\<rparr>"
  "sp\<lparr>sp_host := h, sp_staged := g, sp_log := d\<rparr> = sp\<lparr>sp_log := d, sp_host := h, sp_staged := g\<rparr>"
  by (cases sp; simp)+

lemma pool_stage_item_inv:
  assumes inv: "pool_inv sp" and run: "pool_stage_item fails item primary secondary sp = (r, sp')"
  shows "pool_inv sp'"
proof (cases "sp' = sp")
  case False
  let ?l = "sp_layout sp" and ?h = "sl_host_stride_bytes (sp_layout sp)"
  let ?adm = "if sl_primary_source ?l = PinnedPrimary then sl_primary_extent_bytes ?l else 0"
  have static: "pool_static sp" using inv by (simp add: pool_inv_def)
  obtain q d where sync: "transfer_synchronize fails (sp_log sp) = (q, d)" by fastforce
  obtain off where off: "sl_item_offset ?l item = Inr off" and fresh: "\<not> sp_staged sp ! item"
    and lens: "length primary = ?adm" "length secondary = sl_secondary_extent_bytes ?l"
    using run False by (auto simp: pool_stage_item_def Let_def rbind_def split: sum.splits if_splits)
  note o = item_offset_eq [OF off]
  have fit: "length primary + length secondary \<le> ?h"
    using static lens by (auto simp: pool_static_def Let_def sl_extent_bytes_def)
  have sync_ev: "is_ok q \<Longrightarrow> dl_events d = sp_events sp @ [DrainStream]" "\<not> is_ok q \<Longrightarrow> dl_events d = sp_events sp"
    using issue_cases [OF sync [unfolded transfer_synchronize_def]] by auto
  have live: "\<not> is_ok q \<Longrightarrow> sp' = sp\<lparr>sp_log := d\<rparr>"
    using run False off fresh lens sync
    by (cases q) (auto simp: pool_stage_item_def Let_def rbind_def split: sum.splits if_splits)
  show ?thesis
  proof (cases "is_ok q")
    case bad: False
    then show ?thesis using pool_inv_log [OF inv, of d] sync_ev(2) live by simp
  next
    case True
    have i1: "pool_inv (sp\<lparr>sp_log := d\<rparr>)" by (rule pool_inv_idle [OF inv]) (simp_all add: sync_ev(1) [OF True] drain_view)
    let ?d2 = "note_event (HostWrites PinnedItems) d"
    have i2: "pool_inv (sp\<lparr>sp_log := ?d2\<rparr>)"
      by (rule pool_inv_idle [OF inv]) (simp_all add: sync_ev(1) [OF True] drained_write_view)
    obtain q1 h1 where w1: "pinned_write off primary (sp_host sp) = (q1, h1)" by fastforce
    obtain q2 h2 where w2: "pinned_write (off + ?adm) secondary h1 = (q2, h2)" by fastforce
    have sp': "sp' = (if \<not> is_ok q1 then sp\<lparr>sp_host := h1, sp_log := d\<rparr>
        else if \<not> is_ok q2 then sp\<lparr>sp_host := h2, sp_log := ?d2\<rparr>
        else sp\<lparr>sp_host := h2, sp_staged := (sp_staged sp)[item := True], sp_log := ?d2\<rparr>)"
      using run False off fresh lens sync True w1 w2
      by (cases q; cases q1; cases q2) (auto simp: pool_stage_item_def Let_def rbind_def split: sum.splits if_splits)
    let ?p1 = "list_write off primary (pp_storage (sp_host sp))"
    have j: "item < sl_item_count (sp_layout (sp\<lparr>sp_log := ?d2\<rparr>))" "\<not> sp_staged (sp\<lparr>sp_log := ?d2\<rparr>) ! item" using o fresh by simp_all
    let ?w1 = "sp\<lparr>sp_log := ?d2, sp_host := (sp_host sp)\<lparr>pp_storage := ?p1\<rparr>\<rparr>"
    have i3: "pool_inv ?w1"
      using pool_inv_host_write [OF i2 j, of off primary "sp_staged sp"] o fit by simp
    have j': "item < sl_item_count (sp_layout ?w1)" "\<not> sp_staged ?w1 ! item" using o fresh by simp_all
    have i4: "pool_inv (?w1\<lparr>sp_host := (sp_host ?w1)\<lparr>pp_storage := list_write (off + ?adm) secondary ?p1\<rparr>,
        sp_staged := (sp_staged sp)[item := True]\<rparr>)"
      using pool_inv_host_write [OF i3 j', of "off + ?adm" secondary "(sp_staged sp)[item := True]"] o fit lens by simp
    consider "\<not> is_ok q1" | "is_ok q1" "\<not> is_ok q2" | "is_ok q1" "is_ok q2" by blast
    then show ?thesis
    proof cases
      case 1
      then show ?thesis using i1 sp' pinned_write_ok [OF w1] by simp
    next
      case 2
      then have "h2 = (sp_host sp)\<lparr>pp_storage := ?p1\<rparr>" using pinned_write_ok [OF w1] pinned_write_ok [OF w2] by auto
      then show ?thesis using i3 sp' 2 by (simp add: log_host_commute)
    next
      case 3
      then have "h2 = (sp_host sp)\<lparr>pp_storage := list_write (off + ?adm) secondary ?p1\<rparr>"
        using pinned_write_ok [OF w1] pinned_write_ok [OF w2] by auto
      then show ?thesis using i4 sp' 3 by (simp add: log_host_commute)
    qed
  qed
qed (use inv in simp)

lemma pool_inv_poison:
  assumes inv: "pool_inv sp"
  shows "pool_inv (pool_poison op sp)"
proof (rule pool_inv_poisoned [OF pool_poison_poisoned])
  show "pool_static (pool_poison op sp)"
    by (rule pool_static_parts [of sp]) (use inv in \<open>simp_all add: pool_inv_def cache_abandon_planned_round_def\<close>)
qed (use inv in \<open>simp_all add: pool_inv_def cache_abandon_inv\<close>)

lemma stall_view:
  assumes run: "stall_for_publication fails ts d = (r, d')"
  shows "same_view (dl_events d) (dl_events d') \<and> (\<exists>new. dl_events d' = dl_events d @ new)"
proof (cases "ts_published ts")
  case True
  then have issue: "issue fails ''stalling on the publication fence'' (HostSyncs PublicationFence) d = (r, d')"
    using run by (simp add: stall_for_publication_def)
  show ?thesis using same_view_appends [OF appends_issue [OF issue]] issue_cases [OF issue] by auto
next
  case False
  then show ?thesis using run by (simp add: stall_for_publication_def)
qed

lemma pool_fence_replay_inv: "pool_inv sp \<Longrightarrow> pool_fence_replay fails ctx sp = (r, sp') \<Longrightarrow> pool_inv sp'"
  using same_view_appends [OF appends_issue [of fails _ "ConsumerWaits PublicationFence" "sp_log sp"]]
  by (auto simp: pool_fence_replay_def wait_publication_def intro: pool_inv_log split: if_splits prod.splits)

lemma pool_synchronize_inv:
  assumes inv: "pool_inv sp" and run: "pool_synchronize fails sp = (r, sp')"
  shows "pool_inv sp'"
proof -
  obtain q d where sync: "transfer_synchronize fails (sp_log sp) = (q, d)" by fastforce
  then have sp': "sp' = sp\<lparr>sp_log := d\<rparr>" using run by (simp add: pool_synchronize_def)
  from issue_cases [OF sync [unfolded transfer_synchronize_def]]
  show ?thesis
  proof (elim disjE exE conjE)
    assume "dl_events d = sp_events sp @ [DrainStream]"
    then show ?thesis unfolding sp' by (intro pool_inv_idle [OF inv]) (simp_all add: drain_view)
  qed (simp add: sp' pool_inv_log [OF inv])
qed

lemma pool_record_release_inv:
  assumes inv: "pool_inv sp" and run: "pool_record_replay_release fails ctx sp = (r, sp')"
  shows "pool_inv sp'"
proof -
  obtain q ts d where rec: "record_reclaim fails ctx (sc_round (sp_cache sp)) (sp_transfer sp) (sp_log sp) = (q, ts, d)"
    by (cases "record_reclaim fails ctx (sc_round (sp_cache sp)) (sp_transfer sp) (sp_log sp)") auto
  have sp': "sp' = sp\<lparr>sp_transfer := ts, sp_log := d\<rparr>" using run rec by (simp add: pool_record_replay_release_def)
  have ok: "reclaim_ok ts (dl_events d)" and ev: "dl_events d = sp_events sp \<or> (\<exists>k g. dl_events d = sp_events sp @ [ReleaseRecorded k g])"
    using reclaim_ok_record [OF rec] inv by (auto simp: pool_inv_def)
  have v: "region_of (dl_events d) = region_of (sp_events sp)" "host_memory_safe (dl_events d) = host_memory_safe (sp_events sp)"
    "device_bytes (dl_events d) = device_bytes (sp_events sp)" "device_table n (dl_events d) = device_table n (sp_events sp)" for n
    using ev by (auto simp: region_of_snoc device_bytes_snoc device_table_append)
  have "pool_memory sp' = pool_memory sp" by (simp add: pool_memory_def sp' ring_ok_def table_ok_def v)
  moreover have "pool_resident sp' = pool_resident sp"
    by (simp add: pool_resident_def slots_serve_def slot_serves_def sp' slot_holds_view [OF v(3)] v(4))
  ultimately show ?thesis using inv ok v(2) by (simp add: pool_inv_def sp')
qed

lemma pool_reset_inv:
  assumes inv: "pool_inv sp" and run: "pool_reset fails sp = (r, sp')"
  shows "pool_inv sp'"
proof (cases "sp_poisoned sp")
  case (Some x)
  then show ?thesis using run inv by (auto simp: pool_reset_def pool_require_live_def)
next
  case None
  have i: "pool_static sp" "cache_inv (sp_cache sp)" "reclaim_ok (sp_transfer sp) (sp_events sp)" "pool_memory sp"
    using inv None by (simp_all add: pool_inv_def)
  let ?g = "fold max (pinned_round (sp_cache sp)) 0"
  obtain q d where wr: "wait_reclaim fails ?g (sp_transfer sp) (sp_log sp) = (q, d)" by fastforce
  have view: "same_view (sp_events sp) (dl_events d)"
    using wait_reclaim_appends [OF wr i(3)] same_view_appends [of "sp_log sp" d "is_ok q"] by (elim exE disjE conjE) simp_all
  show ?thesis
  proof (cases q)
    case (Inl e)
    then have "sp' = sp\<lparr>sp_log := d\<rparr>" using run None wr by (simp add: pool_reset_def pool_require_live_def Let_def)
    then show ?thesis using pool_inv_log [OF inv view] by simp
  next
    case (Inr u)
    let ?sp1 = "sp\<lparr>sp_cache := cache_clear (sp_cache sp), sp_log := d\<rparr>"
    obtain q2 sp2 where pub: "pool_publish fails ?sp1 = (q2, sp2)" by fastforce
    have clear: "slot_item (cache_clear (sp_cache sp)) = replicate (length (slot_item (sp_cache sp))) STREAMING_ABSENT_ITEM"
      "length (item_slot (cache_clear (sp_cache sp))) = length (item_slot (sp_cache sp))"
      by (simp_all add: cache_clear_def cache_abandon_planned_round_def)
    have st1: "pool_static ?sp1" by (rule pool_static_parts [OF i(1)]) (simp_all add: clear)
    have mem1: "pool_memory ?sp1" using i(4) same_view_memory [OF view] by (simp add: pool_memory_def)
    have rel1: "reclaim_ok (sp_transfer ?sp1) (sp_events ?sp1)"
      using i(3) view reclaim_ok_view [of "dl_events d" "sp_events sp"] by (simp add: same_view_def)
    have srv1: "slots_serve ?sp1" by (simp add: slots_serve_def clear)
    note pb = publish_inv [OF pub st1 mem1 _ rel1 srv1, simplified, OF cache_clear_inv [OF i(2)]]
    show ?thesis
    proof (cases q2)
      case err: (Inl e)
      then have "sp' = pool_poison ''publishing a reset table'' sp2"
        using run None wr Inr pub by (simp add: pool_reset_def pool_require_live_def Let_def)
      then show ?thesis using pb(2) by simp
    next
      case ok: (Inr v)
      obtain q3 d3 where st: "stall_for_publication fails (sp_transfer sp2) (sp_log sp2) = (q3, d3)" by fastforce
      have i3: "pool_inv (sp2\<lparr>sp_log := d3\<rparr>)" using pool_inv_log [of sp2 d3] pb(1) ok stall_view [OF st] by simp
      have "sp' = (if is_ok q3 then sp2\<lparr>sp_log := d3\<rparr> else pool_poison ''stalling for a reset table'' (sp2\<lparr>sp_log := d3\<rparr>))"
        using run None wr Inr pub ok st by (cases q3) (simp_all add: pool_reset_def pool_require_live_def Let_def)
      then show ?thesis using i3 pool_inv_poison [OF i3] by simp
    qed
  qed
qed

text \<open>A round, with the stall folded in.\<close>

lemma pool_round_effect:
  assumes inv: "pool_inv sp" and run: "pool_round fails items stall sp = (r, sp')"
  shows "pool_inv sp'" and "\<exists>new. sp_events sp' = sp_events sp @ new \<and> reclaim_guarded sp new"
    and "\<not> stall \<Longrightarrow> \<not> is_ok r \<Longrightarrow> sp_poisoned sp' = None \<Longrightarrow> retryable sp sp'"
    and "is_ok r \<Longrightarrow> sp_poisoned sp' = None \<and> (\<exists>q c as c'. cache_admit_round items (sp_cache sp) as = (Inr q, sp_cache sp', c'))"
proof -
  have "pool_inv sp' \<and> (\<exists>new. sp_events sp' = sp_events sp @ new \<and> reclaim_guarded sp new) \<and>
    (\<not> stall \<longrightarrow> \<not> is_ok r \<longrightarrow> sp_poisoned sp' = None \<longrightarrow> retryable sp sp') \<and>
    (is_ok r \<longrightarrow> sp_poisoned sp' = None \<and> (\<exists>q c as c'. cache_admit_round items (sp_cache sp) as = (Inr q, sp_cache sp', c')))"
  proof (rule round_cases [OF inv run])
    assume "\<not> is_ok r" "pool_inv sp'" "sp_events sp' = sp_events sp" "retryable sp sp'"
    then show ?thesis using reclaim_guarded_same [of sp "[]"] by simp
  next
    fix q sp1 assume "planned_pool items sp q sp1" "\<not> is_ok r" "served sp sp1 False sp'"
    then show ?thesis by (simp add: served_def)
  next
    fix q sp1 sp2
    assume pp: "planned_pool items sp q sp1" and srv: "served sp sp1 True sp2"
      and fin: "if stall then \<exists>d v. stall_for_publication fails (sp_transfer sp2) (sp_log sp2) = (v, d) \<and> sp' = sp2\<lparr>sp_log := d\<rparr> \<and> (is_ok r = is_ok v)
           else is_ok r \<and> sp' = sp2"
    obtain new where new: "sp_events sp2 = sp_events sp @ new" "reclaim_guarded sp new" and s2: "pool_inv sp2" "sp_poisoned sp2 = None"
      and c2: "sp_cache sp2 = cache_commit_planned_round (sp_cache sp1)"
      using srv by (auto simp: served_def)
    note admit = planned_poolD(8) [OF pp]
    show ?thesis
    proof (cases stall)
      case False
      then show ?thesis using fin new s2 c2 admit by auto
    next
      case True
      then obtain d v where st: "stall_for_publication fails (sp_transfer sp2) (sp_log sp2) = (v, d)" and sp': "sp' = sp2\<lparr>sp_log := d\<rparr>"
        using fin by auto
      obtain t where t: "dl_events d = sp_events sp2 @ t" and view: "same_view (sp_events sp2) (dl_events d)" using stall_view [OF st] by blast
      have "pool_inv sp'" unfolding sp' by (rule pool_inv_log [OF s2(1) view])
      moreover have "reclaim_guarded sp (new @ t)"
        by (rule reclaim_guarded_append [OF new(2)]) (use view t new(1) in \<open>simp add: same_view_def\<close>)
      moreover have "sp_events sp' = sp_events sp @ new @ t" using t new(1) by (simp add: sp')
      moreover have "sp_poisoned sp' = None" "sp_cache sp' = cache_commit_planned_round (sp_cache sp1)" using s2(2) c2 by (simp_all add: sp')
      ultimately show ?thesis using True admit by auto
    qed
  qed
  then show "pool_inv sp'" "\<exists>new. sp_events sp' = sp_events sp @ new \<and> reclaim_guarded sp new"
    "\<not> stall \<Longrightarrow> \<not> is_ok r \<Longrightarrow> sp_poisoned sp' = None \<Longrightarrow> retryable sp sp'"
    "is_ok r \<Longrightarrow> sp_poisoned sp' = None \<and> (\<exists>q c as c'. cache_admit_round items (sp_cache sp) as = (Inr q, sp_cache sp', c'))"
    by blast+
qed

section \<open>Reachable pools\<close>

inductive pool_reachable :: "stream_pool \<Rightarrow> bool" where
  reach_new: "layout_build items primary secondary slots = Inr l \<Longrightarrow> pool_new fails ctx base l = Inr sp \<Longrightarrow> pool_reachable sp"
| reach_mapped: "layout_build_mapped_primary items primary secondary slots bounce = Inr l \<Longrightarrow>
    pool_new_with_mapped_primary fails ctx base l mapped = Inr sp \<Longrightarrow> pool_reachable sp"
| reach_stage: "pool_reachable sp \<Longrightarrow> pool_stage_item fails item primary_extent secondary_extent sp = (stage_result, sp') \<Longrightarrow> pool_reachable sp'"
| reach_prefetch: "pool_reachable sp \<Longrightarrow> pool_prefetch fails requests sp = (round_result, sp') \<Longrightarrow> pool_reachable sp'"
| reach_require: "pool_reachable sp \<Longrightarrow> pool_require fails requests sp = (round_result, sp') \<Longrightarrow> pool_reachable sp'"
| reach_fence: "pool_reachable sp \<Longrightarrow> pool_fence_replay fails consumer sp = (r, sp') \<Longrightarrow> pool_reachable sp'"
| reach_release: "pool_reachable sp \<Longrightarrow> pool_record_replay_release fails consumer sp = (r, sp') \<Longrightarrow> pool_reachable sp'"
| reach_synchronize: "pool_reachable sp \<Longrightarrow> pool_synchronize fails sp = (r, sp') \<Longrightarrow> pool_reachable sp'"
| reach_reset: "pool_reachable sp \<Longrightarrow> pool_reset fails sp = (r, sp') \<Longrightarrow> pool_reachable sp'"

lemma pool_allocate_inv: "layout_valid l \<Longrightarrow> pool_allocate fails ctx base l mapped = Inr sp \<Longrightarrow> pool_inv sp"
  using pool_allocate_value [of l fails ctx base mapped sp] fresh_pool_inv by blast

lemma pool_reachable_inv: "pool_reachable sp \<Longrightarrow> pool_inv sp"
proof (induction rule: pool_reachable.induct)
  case (reach_new items primary secondary slots l fails ctx base sp)
  then show ?case
    using layout_plan_valid [of items primary secondary slots PinnedPrimary 0 l]
    by (auto simp: layout_build_def pool_new_def intro: pool_allocate_inv split: if_splits)
next
  case (reach_mapped items primary secondary slots bounce l fails ctx base mapped sp)
  then show ?case
    using layout_plan_valid [of items primary secondary slots MappedPrimary bounce l]
    by (auto simp: layout_build_mapped_primary_def pool_new_with_mapped_primary_def intro: pool_allocate_inv split: if_splits)
qed (auto simp: pool_prefetch_def pool_require_def intro: pool_stage_item_inv pool_round_effect(1) pool_fence_replay_inv
    pool_record_release_inv pool_synchronize_inv pool_reset_inv)

section \<open>Demonstration pool\<close>

text \<open>Two items of two bytes over one slot; item 0 is staged.\<close>

definition demo_layout :: stream_layout where
  "demo_layout = projr (layout_build 2 2 None 1)"

definition demo_pool :: stream_pool where
  "demo_pool = projr (pool_new (\<lambda>_. False) 0 0 demo_layout)"

definition demo_staged :: stream_pool where
  "demo_staged = snd (pool_stage_item (\<lambda>_. False) 0 [7, 9] [] demo_pool)"

definition demo_served :: stream_pool where
  "demo_served = snd (pool_require (\<lambda>_. False) [0] demo_staged)"

lemma demo_layout_ok: "layout_build 2 2 None 1 = Inr demo_layout" and demo_layout_items: "sl_item_count demo_layout = 2"
  and demo_layout_slots: "sl_slot_count demo_layout = 1"
proof -
  have "\<exists>l. layout_build 2 2 None 1 = Inr l \<and> sl_item_count l = 2 \<and> sl_slot_count l = 1"
    by (simp add: layout_build_def layout_plan_def Let_def checked_sum_def product_def checked_add_def checked_mul_def ok_or_def
        checked_next_multiple_of_def STREAM_ALIGNMENT_def TABLE_GENERATIONS_def U64_BOUND_def)
  then show "layout_build 2 2 None 1 = Inr demo_layout" "sl_item_count demo_layout = 2" "sl_slot_count demo_layout = 1"
    by (auto simp: demo_layout_def)
qed

lemma demo_base: "driver_base 0 (sl_device_bytes demo_layout)"
proof -
  have "layout_valid demo_layout"
    using layout_plan_valid [of 2 2 None 1 PinnedPrimary 0 demo_layout] demo_layout_ok by (simp add: layout_build_def)
  then show ?thesis by (simp add: driver_base_def layout_valid_def)
qed

lemma demo_pool_ok: "pool_new (\<lambda>_. False) 0 0 demo_layout = Inr demo_pool"
  and demo_pool_layout: "sl_item_count (sp_layout demo_pool) = 2" "sp_poisoned demo_pool = None"
proof -
  let ?new = "pool_allocate (\<lambda>_. False) 0 0 demo_layout None"
  have l: "layout_valid demo_layout" "sl_primary_source demo_layout = PinnedPrimary"
    using layout_plan_valid [of 2 2 None 1 PinnedPrimary 0 demo_layout] demo_layout_ok by (simp_all add: layout_build_def)
  have "is_ok ?new" using pool_allocate_ok [OF l(1) demo_base] demo_layout_items by (simp add: ABSENT_SLOT_def)
  then show "pool_new (\<lambda>_. False) 0 0 demo_layout = Inr demo_pool" by (auto simp: demo_pool_def pool_new_def l(2) is_ok_iff)
  then have "?new = Inr demo_pool" by (simp add: pool_new_def l(2))
  from pool_allocate_value [OF l(1) this] obtain c where c: "demo_pool = fresh_pool 0 0 demo_layout None c" by blast
  show "sl_item_count (sp_layout demo_pool) = 2" "sp_poisoned demo_pool = None"
    unfolding c by (simp_all add: fresh_pool_def demo_layout_items)
qed

lemma demo_pool_code [code]: "demo_pool = fresh_pool 0 0 demo_layout None (projr (cache_new 2 1))"
proof -
  have l: "layout_valid demo_layout" "sl_primary_source demo_layout = PinnedPrimary" "sl_slot_count demo_layout = 1"
    using layout_plan_valid [of 2 2 None 1 PinnedPrimary 0 demo_layout] demo_layout_ok demo_layout_items
    by (simp_all add: layout_build_def demo_layout_slots)
  have "pool_allocate (\<lambda>_. False) 0 0 demo_layout None = Inr demo_pool" using demo_pool_ok(1) by (simp add: pool_new_def l(2))
  from pool_allocate_value [OF l(1) this] show ?thesis by (auto simp: demo_layout_items l(3))
qed

lemma demo_reachable: "pool_reachable demo_pool" "pool_reachable demo_staged" "pool_reachable demo_served"
proof -
  show p: "pool_reachable demo_pool" by (rule reach_new [OF demo_layout_ok demo_pool_ok])
  show s: "pool_reachable demo_staged" unfolding demo_staged_def by (rule reach_stage [OF p prod.collapse [symmetric]])
  show "pool_reachable demo_served" unfolding demo_served_def by (rule reach_require [OF s prod.collapse [symmetric]])
qed

lemma demo_require_ok: "pool_require (\<lambda>_. False) [0] demo_staged = (Inr (projr (fst (pool_require (\<lambda>_. False) [0] demo_staged))), demo_served)"
proof -
  have "is_ok (fst (pool_require (\<lambda>_. False) [0] demo_staged))" by code_simp
  then show ?thesis unfolding demo_served_def by (cases "pool_require (\<lambda>_. False) [0] demo_staged") (auto simp: is_ok_iff)
qed

section \<open>What holds in every reachable pool\<close>

lemma slot_of_item_of:
  assumes inv: "cache_inv c" and at: "cache_slot_of c item = Inr (Some s)"
  shows "s < length (slot_item c)" and "slot_item c ! s = item" and "item < length (item_slot c)" and "item_slot c ! item = s"
proof -
  have rep: "cache_rep c (lru_of c)" using inv by (simp add: cache_inv_def)
  then have ok: "lru_ok (length (slot_item c)) (length (item_slot c)) (lru_of c)" by (simp add: cache_rep_def)
  show i: "item < length (item_slot c)" "item_slot c ! item = s"
    using at by (auto simp: cache_slot_of_def Let_def split: if_splits)
  have "s \<noteq> STREAMING_ABSENT_SLOT" using at by (auto simp: cache_slot_of_def Let_def split: if_splits)
  then have "lru_find item (lru_of c) = Some s"
    using rep i by (auto simp: cache_rep_def split: option.splits)
  then have at': "s < length (slot_item c)" "lru_items (lru_of c) ! s = Some item" by (simp_all add: lru_find_Some [OF ok])
  then show "s < length (slot_item c)" "slot_item c ! s = item" using rep by (simp_all add: cache_rep_def enc_item_def)
qed

lemma resident_facts:
  assumes reach: "pool_reachable sp" and live: "sp_poisoned sp = None" and at: "cache_slot_of (sp_cache sp) item = Inr (Some s)"
  shows "sp_staged sp ! item" and "device_table (sl_item_count (sp_layout sp)) (sp_events sp) = item_slot (sp_cache sp)"
    and "length (pool_extent sp item) = sl_extent_bytes (sp_layout sp)"
    and "\<exists>a. dp_slot_address (sp_slots sp) s = Inr a \<and>
      (\<forall>k < sl_extent_bytes (sp_layout sp). device_bytes (sp_events sp) (a + k) = pool_extent sp item ! k)"
    and "item_slot (sp_cache sp) ! item = s"
proof -
  have inv: "cache_inv (sp_cache sp)" "pool_resident sp" using pool_reachable_inv [OF reach] live by (simp_all add: pool_inv_def)
  note s = slot_of_item_of [OF inv(1) at]
  have rep: "cache_rep (sp_cache sp) (lru_of (sp_cache sp))" using inv(1) by (simp add: cache_inv_def)
  have "item \<noteq> STREAMING_ABSENT_ITEM"
    using s(3) rep by (auto simp: cache_rep_def STREAMING_ABSENT_ITEM_def STREAMING_ABSENT_SLOT_def)
  then have "slot_serves sp s item" using inv(2) s(1,2) by (auto simp: pool_resident_def slots_serve_def)
  then show "sp_staged sp ! item" "length (pool_extent sp item) = sl_extent_bytes (sp_layout sp)"
    "\<exists>a. dp_slot_address (sp_slots sp) s = Inr a \<and>
      (\<forall>k < sl_extent_bytes (sp_layout sp). device_bytes (sp_events sp) (a + k) = pool_extent sp item ! k)"
    by (auto simp: slot_serves_def slot_holds_def pool_slot_address_def)
  show "device_table (sl_item_count (sp_layout sp)) (sp_events sp) = item_slot (sp_cache sp)" "item_slot (sp_cache sp) ! item = s"
    using inv(2) s(4) by (simp_all add: pool_resident_def)
qed

lemma require_outcome:
  assumes "pool_reachable sp" and "pool_require fails items sp = (Inr rd, sp')" and "item \<in> set items"
  shows "sp_poisoned sp' = None" and "\<exists>s. cache_slot_of (sp_cache sp') item = Inr (Some s)"
proof -
  have run: "pool_round fails items True sp = (Inr rd, sp')" using assms(2) by (simp add: pool_require_def)
  have inv: "pool_inv sp" by (rule pool_reachable_inv [OF assms(1)])
  obtain q as c' where live: "sp_poisoned sp' = None" and admit: "cache_admit_round items (sp_cache sp) as = (Inr q, sp_cache sp', c')"
    using pool_round_effect(4) [OF inv run] by auto
  have "cache_inv (sp_cache sp)" using inv by (simp add: pool_inv_def)
  from cache_admit_resident [OF this admit assms(3)] show "\<exists>s. cache_slot_of (sp_cache sp') item = Inr (Some s)" by blast
  show "sp_poisoned sp' = None" by (rule live)
qed

text \<open>C24: Residency is never a lie. In every pool reachable from the constructors by any sequence of
  operations and driver failures, unless the pool has poisoned itself: the last table copied to the device
  is the host's table, and every item the cache calls resident was staged and its slot holds, byte for
  byte, the item's admitted extent.\<close>

theorem pool_residency_is_true:
  assumes "pool_reachable sp" and "sp_poisoned sp = None" and "cache_slot_of (sp_cache sp) item = Inr (Some s)"
  shows "sp_staged sp ! item \<and> device_table (sl_item_count (sp_layout sp)) (sp_events sp) = item_slot (sp_cache sp) \<and>
    length (pool_extent sp item) = sl_extent_bytes (sp_layout sp) \<and>
    (\<exists>a. dp_slot_address (sp_slots sp) s = Inr a \<and>
      (\<forall>k < sl_extent_bytes (sp_layout sp). device_bytes (sp_events sp) (a + k) = pool_extent sp item ! k))"
  using resident_facts [OF assms] by blast

lemma pool_residency_is_true_witness:
  "\<exists>s. cache_slot_of (sp_cache demo_served) 0 = Inr (Some s) \<and> sp_staged demo_served ! 0 \<and>
    device_table (sl_item_count (sp_layout demo_served)) (sp_events demo_served) = item_slot (sp_cache demo_served) \<and>
    length (pool_extent demo_served 0) = sl_extent_bytes (sp_layout demo_served) \<and> is_ok (dp_slot_address (sp_slots demo_served) s)"
proof -
  obtain s where live: "sp_poisoned demo_served = None" and s: "cache_slot_of (sp_cache demo_served) 0 = Inr (Some s)"
    using require_outcome [OF demo_reachable(2) demo_require_ok] by auto
  from pool_residency_is_true [OF demo_reachable(3) live s] s show ?thesis by auto
qed

text \<open>A successful \<open>require\<close> serves every requested item: the item has a slot, the device table names
  that slot, and the slot holds the item's admitted bytes; no request is skipped or left to a later round.\<close>

theorem pool_require_serves:
  assumes "pool_reachable sp" and "pool_require fails items sp = (Inr rd, sp')" and "item \<in> set items"
  shows "\<exists>s a. cache_slot_of (sp_cache sp') item = Inr (Some s) \<and>
    device_table (sl_item_count (sp_layout sp')) (sp_events sp') ! item = s \<and> dp_slot_address (sp_slots sp') s = Inr a \<and>
    (\<forall>k < sl_extent_bytes (sp_layout sp'). device_bytes (sp_events sp') (a + k) = pool_extent sp' item ! k)"
proof -
  note out = require_outcome [OF assms]
  obtain s where s: "cache_slot_of (sp_cache sp') item = Inr (Some s)" using out(2) by blast
  have "pool_reachable sp'" by (rule reach_require [OF assms(1,2)])
  from resident_facts [OF this out(1) s] s show ?thesis by auto
qed

lemma pool_require_serves_witness:
  "\<exists>s a. cache_slot_of (sp_cache demo_served) 0 = Inr (Some s) \<and>
    device_table (sl_item_count (sp_layout demo_served)) (sp_events demo_served) ! 0 = s \<and> dp_slot_address (sp_slots demo_served) s = Inr a \<and>
    (\<forall>k < sl_extent_bytes (sp_layout demo_served). device_bytes (sp_events demo_served) (a + k) = pool_extent demo_served 0 ! k)"
  by (rule pool_require_serves [OF demo_reachable(2) demo_require_ok]) simp

text \<open>C25: The reclaim rule. Whatever a round does, succeeding, failing or poisoning the pool, a device byte
  it changes lies in a slot whose newest reading round was either never (generation 0) or is covered by
  a release already recorded on the fence that the round's first driver call makes the stream wait for.\<close>

theorem pool_reclaim_before_overwrite:
  assumes "pool_reachable sp" and "pool_round fails items stall sp = (res, sp')"
  shows "\<exists>new. sp_events sp' = sp_events sp @ new \<and>
    (\<forall>x. device_bytes (sp_events sp') x \<noteq> device_bytes (sp_events sp) x \<longrightarrow>
       (\<exists>s A. s < length (slot_item (sp_cache sp)) \<and> dp_slot_address (sp_slots sp) s = Inr A \<and>
          A \<le> x \<and> x < A + sl_stride_bytes (sp_layout sp) \<and>
          (pinned_round (sp_cache sp) ! s = 0 \<or>
           (\<exists>k g rest. new = StreamWaits (ReclaimFence k) # rest \<and> last_release (sp_events sp) k = Some g \<and>
              pinned_round (sp_cache sp) ! s \<le> g))))"
proof -
  obtain new where "sp_events sp' = sp_events sp @ new" "reclaim_guarded sp new"
    using pool_round_effect(2) [OF pool_reachable_inv [OF assms(1)] assms(2)] by blast
  then show ?thesis unfolding reclaim_guarded_def pool_slot_address_def by auto
qed

lemma pool_reclaim_before_overwrite_witness:
  "\<exists>new. sp_events (snd (pool_round (\<lambda>_. False) [0] False demo_staged)) = sp_events demo_staged @ new"
  using pool_reclaim_before_overwrite [OF demo_reachable(2) prod.collapse [symmetric],
      where fails = "\<lambda>_. False" and items = "[0]" and stall = False] by (elim exE conjE) (rule exI)

text \<open>C26: The host never rewrites page-locked memory that an enqueued copy may still read: in every
  reachable pool, poisoned or not, each host write of the item pool, of a bounce slot and of a table
  generation came after the fence of the last copy out of it was waited for, or after the stream drained.\<close>

theorem pool_host_memory_safe:
  assumes "pool_reachable sp"
  shows "host_memory_safe (sp_events sp)"
  using pool_reachable_inv [OF assms] by (simp add: pool_inv_def)

lemma pool_host_memory_safe_witness: "host_memory_safe (sp_events demo_served)"
  by (rule pool_host_memory_safe [OF demo_reachable(3)])

text \<open>C27: A failed prefetch is forgotten or final. If it does not poison the pool, residency, recency,
  reader generations, counters, the device bytes, the device table and the upload counter are what they
  were, so a retry plans the same round again; if it does, every later round is refused.\<close>

theorem pool_prefetch_failure:
  assumes "pool_reachable sp" and "pool_prefetch fails items sp = (Inl e, sp')"
  shows "if sp_poisoned sp' = None
    then cache_abandon_planned_round (sp_cache sp') = cache_abandon_planned_round (sp_cache sp) \<and>
      device_bytes (sp_events sp') = device_bytes (sp_events sp) \<and>
      device_table (sl_item_count (sp_layout sp)) (sp_events sp') = device_table (sl_item_count (sp_layout sp)) (sp_events sp) \<and>
      sp_uploaded_bytes sp' = sp_uploaded_bytes sp
    else \<forall>fails' items' stall. pool_round fails' items' stall sp' = (Inl (layout_error ''streaming pool refuses every round''), sp')"
proof (cases "sp_poisoned sp'")
  case None
  have "retryable sp sp'"
    using pool_round_effect(3) [OF pool_reachable_inv [OF assms(1)] assms(2) [unfolded pool_prefetch_def]] None by simp
  then show ?thesis using None by (simp add: retryable_def)
next
  case (Some x)
  then show ?thesis by (simp add: pool_round_def pool_require_live_def)
qed

lemma pool_prefetch_failure_witness:
  "cache_abandon_planned_round (sp_cache (snd (pool_prefetch (\<lambda>_. False) [2] demo_pool))) = cache_abandon_planned_round (sp_cache demo_pool)"
proof -
  have len: "length (sp_staged demo_pool) = 2"
    using pool_reachable_inv [OF demo_reachable(1)] demo_pool_layout by (simp add: pool_inv_def pool_static_def Let_def)
  then have run: "pool_prefetch (\<lambda>_. False) [2] demo_pool = (Inl (route_error ''streaming item is outside 0..item_count''), demo_pool)"
    by (simp add: pool_prefetch_def pool_round_def pool_require_live_def demo_pool_layout)
  then show ?thesis using pool_prefetch_failure [OF demo_reachable(1) run] by (simp add: demo_pool_layout)
qed

text \<open>C28: A byte plan is realised exactly. Take a plan that \<open>build\<close> or \<open>build_mapped_primary\<close> accepted, and
  a device address that is aligned to 256 bytes and whose allocation ends in the 64-bit address space. The
  matching constructor succeeds if and only if the items leave the 32-bit absent sentinel free and the driver
  refuses none of the construction's calls; with such items the first refused call is the error it returns: streams,
  fence events, pinned memory, the arena with its table and their synchronizations, in this order. A pool
  that is built has the planned device, staging, pinned and bounce bytes, so the measurement check never
  refuses a plan; the constructor of the other posture refuses it.\<close>

theorem pool_plan_realised:
  assumes "layout_build items primary secondary slots = Inr l \<and> pool = pool_new fails ctx base l \<and>
      other = pool_new_with_mapped_primary fails ctx base l mapped \<or>
    layout_build_mapped_primary items primary secondary slots bounce = Inr l \<and>
      pool = pool_new_with_mapped_primary fails ctx base l mapped \<and> other = pool_new fails ctx base l"
    and "driver_base base (sl_device_bytes l)"
  shows "(is_ok pool \<longleftrightarrow> sl_item_count l < ABSENT_SLOT \<and> (\<forall>i<length (construction_operations l). \<not> fails i)) \<and>
    (\<forall>i<length (construction_operations l). sl_item_count l < ABSENT_SLOT \<and> fails i \<and> (\<forall>j<i. \<not> fails j) \<longrightarrow>
       pool = Inl (Gpu (GpuDriverError (construction_operations l ! i)))) \<and>
    (\<forall>sp. pool = Inr sp \<longrightarrow>
       dp_device_bytes (sp_slots sp) = sl_slot_count l * sl_stride_bytes l + sl_item_count l * 4 \<and>
       dp_device_bytes (sp_slots sp) = sl_device_bytes l \<and> dp_staging_bytes (sp_slots sp) = sl_table_staging_bytes l \<and>
       length (pp_storage (sp_host sp)) = sl_host_pool_bytes l \<and>
       (case sp_bounce sp of None \<Rightarrow> sl_bounce_ring_bytes l = 0
        | Some b \<Rightarrow> bounce_byte_len b = sl_bounce_ring_bytes l \<and> length (pp_storage (br_storage b)) = sl_bounce_ring_bytes l)) \<and>
    \<not> is_ok other"
proof -
  obtain m where pool: "pool = pool_allocate fails ctx base l m" "\<not> is_ok other" and l: "layout_valid l"
    using assms(1) layout_plan_valid [of items primary secondary slots PinnedPrimary 0 l]
      layout_plan_valid [of items primary secondary slots MappedPrimary bounce l]
    by (auto simp: layout_build_def layout_build_mapped_primary_def pool_new_def pool_new_with_mapped_primary_def is_ok_def split: if_splits)
  have "dp_device_bytes (sp_slots sp) = sl_slot_count l * sl_stride_bytes l + sl_item_count l * 4 \<and>
       dp_device_bytes (sp_slots sp) = sl_device_bytes l \<and> dp_staging_bytes (sp_slots sp) = sl_table_staging_bytes l \<and>
       length (pp_storage (sp_host sp)) = sl_host_pool_bytes l \<and>
       (case sp_bounce sp of None \<Rightarrow> sl_bounce_ring_bytes l = 0
        | Some b \<Rightarrow> bounce_byte_len b = sl_bounce_ring_bytes l \<and> length (pp_storage (br_storage b)) = sl_bounce_ring_bytes l)"
    if "pool = Inr sp" for sp
    using pool_allocate_value [OF l that [unfolded pool(1)]] l
    by (auto simp: fresh_pool_def fresh_slots_def fresh_bounce_def dp_device_bytes_def dp_staging_bytes_def fresh_pinned_def bounce_byte_len_def
        layout_valid_def split: if_splits)
  moreover have "pool = Inl (Gpu (GpuDriverError (construction_operations l ! i)))"
    if "i < length (construction_operations l)" "sl_item_count l < ABSENT_SLOT \<and> fails i \<and> (\<forall>j<i. \<not> fails j)" for i
    unfolding pool(1) by (rule pool_allocate_refused [OF l _ assms(2) that(1)]) (use that(2) in simp_all)
  moreover note pool_allocate_ok [OF l assms(2), of fails ctx m, folded pool(1)]
  ultimately show ?thesis using pool(2) by (intro conjI allI impI) blast+
qed

lemma pool_plan_realised_witness:
  "is_ok (pool_new (\<lambda>_. False) 0 0 demo_layout) \<and>
   pool_new (\<lambda>i. i = 9) 0 0 demo_layout = Inl (Gpu (GpuDriverError ''synchronizing device arena zeroing''))"
proof -
  have l: "layout_valid demo_layout" "sl_primary_source demo_layout = PinnedPrimary"
    using layout_plan_valid [of 2 2 None 1 PinnedPrimary 0 demo_layout] demo_layout_ok by (simp_all add: layout_build_def)
  have ops: "9 < length (construction_operations demo_layout)" "construction_operations demo_layout ! 9 = ''synchronizing device arena zeroing''"
    by (simp_all add: construction_operations_def transfer_operations_def bounce_operations_def arena_operations_def table_operations_def
        pinned_operations_def RECLAIM_FENCE_GENERATIONS_def l(2) numeral_eq_Suc)
  have small: "sl_item_count demo_layout < ABSENT_SLOT" by (simp add: demo_layout_items ABSENT_SLOT_def)
  note claim = pool_plan_realised [OF disjI1 demo_base, OF conjI [OF demo_layout_ok conjI [OF refl refl]]]
  have "is_ok (pool_new (\<lambda>_. False) 0 0 demo_layout)" using claim [of "\<lambda>_. False" 0] small by blast
  moreover have "pool_new (\<lambda>i. i = 9) 0 0 demo_layout = Inl (Gpu (GpuDriverError (construction_operations demo_layout ! 9)))"
    using claim [of "\<lambda>i. i = 9" 0] small ops(1) by (metis less_irrefl)
  ultimately show ?thesis by (simp only: ops(2) simp_thms)
qed

end
