(* ===== verification/ToolCall.thy ===== *)
theory ToolCall
  imports Prelude "HOL-Library.Word"
begin

text \<open>
  The Qwen tool-call constraint of \<open>crates/tuisko-frontend/src/tool_call.rs\<close>: the checked function
  inventory, its compiled tags, the byte automaton and the token-level constraint over it. A byte is a
  \<open>char\<close> (one of 256 values), a parameter mask a 64-bit word, and \<open>PrefixBuffer\<close> the list of its live
  bytes with the capacity check written out. The tokenizer is a parameter of the token inventory.
\<close>

unbundle bit_operations_syntax

section \<open>Specification\<close>

datatype frontend_error = FrontendContract string | FrontendTokenizer string | FrontendPanicked

type_synonym 'a frontend_result = "frontend_error + 'a"

definition CALL_OPEN :: string where "CALL_OPEN = ''<tool_call>''"
definition FUNCTION_CLOSE :: string where "FUNCTION_CLOSE = ''</function>''"
definition PARAMETER_CLOSE :: string where "PARAMETER_CLOSE = ''</parameter>''"
definition CALL_CLOSE :: string where "CALL_CLOSE = ''</tool_call>''"
definition MAX_TOOLS :: nat where "MAX_TOOLS = 64"
definition MAX_PARAMETERS :: nat where "MAX_PARAMETERS = 64"
definition MAX_NAME_BYTES :: nat where "MAX_NAME_BYTES = 8 * 1024"
definition PREFIX_CAPACITY :: nat where "PREFIX_CAPACITY = 80"

definition is_name_byte :: "char \<Rightarrow> bool" where
  "is_name_byte b = (let n = of_char b :: nat in
    (48 \<le> n \<and> n \<le> 57) \<or> (65 \<le> n \<and> n \<le> 90) \<or> (97 \<le> n \<and> n \<le> 122) \<or> b = CHR ''_'' \<or> b = CHR ''-'')"

definition is_ascii_whitespace :: "char \<Rightarrow> bool" where
  "is_ascii_whitespace b = (b = CHR 0x20 \<or> b = CHR 0x09 \<or> b = CHR 0x0A \<or> b = CHR 0x0C \<or> b = CHR 0x0D)"

definition require_protocol_name :: "string \<Rightarrow> unit frontend_result" where
  "require_protocol_name name =
    (if name = [] \<or> length name > 64 \<or> \<not> list_all is_name_byte name
     then Inl (FrontendContract ''name must contain 1..=64 ASCII letters, digits, `_`, or `-`'') else Inr ())"

record tool_parameter =
  tp_name :: string
  tp_required :: bool

definition tool_parameter_new :: "string \<Rightarrow> bool \<Rightarrow> tool_parameter frontend_result" where
  "tool_parameter_new name required =
    rbind (require_protocol_name name) (\<lambda>_. Inr \<lparr>tp_name = name, tp_required = required\<rparr>)"

record tool_function =
  tf_name :: string
  tf_parameters :: "tool_parameter list"

text \<open>\<open>for x in xs { if !names.insert(x) .. }\<close>\<close>

fun repeats_name :: "string list \<Rightarrow> string list \<Rightarrow> bool" where
  "repeats_name names [] = False"
| "repeats_name names (x # xs) = (x \<in> set names \<or> repeats_name (x # names) xs)"

definition tool_function_new :: "string \<Rightarrow> tool_parameter list \<Rightarrow> tool_function frontend_result" where
  "tool_function_new name parameters =
    rbind (require_protocol_name name) (\<lambda>_.
      if length parameters > MAX_PARAMETERS then Inl (FrontendContract ''tool function declares too many parameters'')
      else if repeats_name [] (map tp_name parameters) then Inl (FrontendContract ''tool function repeats parameter'')
      else Inr \<lparr>tf_name = name, tf_parameters = parameters\<rparr>)"

fun sum_lengths :: "nat \<Rightarrow> string list \<Rightarrow> nat option" where
  "sum_lengths n [] = Some n"
| "sum_lengths n (x # xs) = (case checked_add n (length x) of None \<Rightarrow> None | Some n \<Rightarrow> sum_lengths n xs)"

text \<open>The loop of \<open>ToolCallConstraintSpec::new\<close> over functions.\<close>

fun require_tools :: "string list \<Rightarrow> nat \<Rightarrow> tool_function list \<Rightarrow> nat frontend_result" where
  "require_tools names bytes [] = Inr bytes"
| "require_tools names bytes (tool # tools) =
    (if tf_name tool \<in> set names then Inl (FrontendContract ''tool-call constraint repeats function'')
     else case sum_lengths bytes (tf_name tool # map tp_name (tf_parameters tool)) of
       None \<Rightarrow> Inl (FrontendContract ''tool name bytes overflow usize'')
     | Some bytes \<Rightarrow> require_tools (tf_name tool # names) bytes tools)"

definition tool_spec_new :: "tool_function list \<Rightarrow> tool_function list frontend_result" where
  "tool_spec_new tools =
    (if tools = [] then Inl (FrontendContract ''tool-call constraint requires at least one function'')
     else if length tools > MAX_TOOLS then Inl (FrontendContract ''tool-call constraint declares too many functions'')
     else rbind (require_tools [] 0 tools) (\<lambda>name_bytes.
       if name_bytes > MAX_NAME_BYTES
       then Inl (FrontendContract ''tool-call constraint contains too many name bytes'') else Inr tools))"

section \<open>Compiled tags\<close>

record compiled_tool =
  ct_open :: string
  ct_parameters :: "string list"
  ct_required :: "64 word"

fun required_mask :: "nat \<Rightarrow> 64 word \<Rightarrow> tool_parameter list \<Rightarrow> 64 word" where
  "required_mask index bits [] = bits"
| "required_mask index bits (p # ps) =
    required_mask (index + 1) (bits OR push_bit index (if tp_required p then 1 else 0)) ps"

definition compile_tool :: "tool_function \<Rightarrow> compiled_tool" where
  "compile_tool tool = \<lparr>ct_open = ''<function='' @ tf_name tool @ ''>'',
    ct_parameters = map (\<lambda>p. ''<parameter='' @ tp_name p @ ''>'') (tf_parameters tool),
    ct_required = required_mask 0 0 (tf_parameters tool)\<rparr>"

definition compiled_spec_new :: "tool_function list \<Rightarrow> compiled_tool list" where
  "compiled_spec_new tools = map compile_tool tools"

section \<open>Byte automaton\<close>

datatype protocol_state =
    Content string
  | BeforeFunction string
  | BeforeParameter nat "64 word" string
  | ParameterValue nat nat "64 word" string
  | BeforeCallClose string
  | AfterCall string
  | UnreachableAfterStop

definition tool_call_state_default :: protocol_state where
  "tool_call_state_default = Content []"

definition prefix_push :: "char \<Rightarrow> string \<Rightarrow> string option" where
  "prefix_push byte buffer = (if length buffer = PREFIX_CAPACITY then None else Some (buffer @ [byte]))"

text \<open>The \<open>while\<close> loop of \<open>advance_marker\<close>.\<close>

fun marker_retreat :: "string list \<Rightarrow> string \<Rightarrow> string" where
  "marker_retreat patterns [] = []"
| "marker_retreat patterns (c # marker) =
    (if list_ex (prefix (c # marker)) patterns then c # marker else marker_retreat patterns marker)"

fun position :: "'a \<Rightarrow> 'a list \<Rightarrow> nat option" where
  "position x [] = None"
| "position x (y # ys) = (if y = x then Some 0 else map_option Suc (position x ys))"

definition advance_marker :: "string \<Rightarrow> char \<Rightarrow> string list \<Rightarrow> nat option \<times> string" where
  "advance_marker marker byte patterns =
    (case prefix_push byte marker of
       None \<Rightarrow> (None, [])
     | Some marker \<Rightarrow>
        (case position marker patterns of
           Some index \<Rightarrow> (Some index, [])
         | None \<Rightarrow> (None, marker_retreat patterns marker)))"

datatype choice_match = PrefixMatch | CompleteMatch nat | InvalidMatch

fun match_choice_from :: "nat \<Rightarrow> bool \<Rightarrow> string \<Rightarrow> string list \<Rightarrow> choice_match" where
  "match_choice_from index any pre [] = (if any then PrefixMatch else InvalidMatch)"
| "match_choice_from index any pre (option # options) =
    (if prefix pre option
     then if option = pre then CompleteMatch index else match_choice_from (index + 1) True pre options
     else match_choice_from (index + 1) any pre options)"

definition match_choice :: "string \<Rightarrow> string list \<Rightarrow> choice_match" where
  "match_choice pre options = match_choice_from 0 False pre options"

text \<open>The parameter loop of the \<open>BeforeParameter\<close> arm: \<open>any_prefix\<close> and \<open>complete\<close>.\<close>

fun scan_parameters :: "64 word \<Rightarrow> string \<Rightarrow> nat \<Rightarrow> bool \<Rightarrow> string list \<Rightarrow> bool \<times> nat option" where
  "scan_parameters used pre parameter any [] = (any, None)"
| "scan_parameters used pre parameter any (open_tag # tags) =
    (if used AND push_bit parameter 1 \<noteq> 0 then scan_parameters used pre (parameter + 1) any tags
     else if prefix pre open_tag
     then if open_tag = pre then (True, Some parameter) else scan_parameters used pre (parameter + 1) True tags
     else scan_parameters used pre (parameter + 1) any tags)"

text \<open>\<open>None\<close> is the panic of an out-of-range \<open>spec.tools[tool]\<close>; a refused byte leaves the state as it is then.\<close>

fun advance_byte :: "compiled_tool list \<Rightarrow> char \<Rightarrow> protocol_state \<Rightarrow> bool option \<times> protocol_state" where
  "advance_byte spec byte (Content marker) =
    (case advance_marker marker byte [CALL_OPEN] of
       (found, marker) \<Rightarrow> (Some True, if found = Some 0 then BeforeFunction [] else Content marker))"
| "advance_byte spec byte (BeforeFunction pre) =
    (if pre = [] \<and> is_ascii_whitespace byte then (Some True, BeforeFunction pre)
     else case prefix_push byte pre of
       None \<Rightarrow> (Some False, BeforeFunction pre)
     | Some pre \<Rightarrow>
        (case match_choice pre (map ct_open spec) of
           PrefixMatch \<Rightarrow> (Some True, BeforeFunction pre)
         | CompleteMatch tool \<Rightarrow> (Some True, BeforeParameter tool 0 [])
         | InvalidMatch \<Rightarrow> (Some False, BeforeFunction pre)))"
| "advance_byte spec byte (BeforeParameter tool used pre) =
    (if pre = [] \<and> is_ascii_whitespace byte then (Some True, BeforeParameter tool used pre)
     else case prefix_push byte pre of
       None \<Rightarrow> (Some False, BeforeParameter tool used pre)
     | Some pre \<Rightarrow>
        if tool \<ge> length spec then (None, BeforeParameter tool used pre)
        else
          let selected = spec ! tool; required_left = ct_required selected AND NOT used in
          if required_left = 0 \<and> prefix pre FUNCTION_CLOSE
          then (Some True, if pre = FUNCTION_CLOSE then BeforeCallClose [] else BeforeParameter tool used pre)
          else (case scan_parameters used pre 0 False (ct_parameters selected) of
            (_, Some parameter) \<Rightarrow> (Some True, ParameterValue tool parameter used [])
          | (any_prefix, None) \<Rightarrow> (Some any_prefix, BeforeParameter tool used pre)))"
| "advance_byte spec byte (ParameterValue tool parameter used marker) =
    (case advance_marker marker byte [PARAMETER_CLOSE, FUNCTION_CLOSE, CALL_CLOSE] of
       (Some 0, _) \<Rightarrow> (Some True, BeforeParameter tool (used OR push_bit parameter 1) [])
     | (Some (Suc _), marker) \<Rightarrow> (Some False, ParameterValue tool parameter used marker)
     | (None, marker) \<Rightarrow> (Some True, ParameterValue tool parameter used marker))"
| "advance_byte spec byte (BeforeCallClose pre) =
    (if pre = [] \<and> is_ascii_whitespace byte then (Some True, BeforeCallClose pre)
     else case prefix_push byte pre of
       None \<Rightarrow> (Some False, BeforeCallClose pre)
     | Some pre \<Rightarrow>
        if \<not> prefix pre CALL_CLOSE then (Some False, BeforeCallClose pre)
        else (Some True, if pre = CALL_CLOSE then AfterCall [] else BeforeCallClose pre))"
| "advance_byte spec byte (AfterCall pre) =
    (if pre = [] \<and> is_ascii_whitespace byte then (Some True, AfterCall pre)
     else case prefix_push byte pre of
       None \<Rightarrow> (Some False, AfterCall pre)
     | Some pre \<Rightarrow>
        if \<not> prefix pre CALL_OPEN then (Some False, AfterCall pre)
        else (Some True, if pre = CALL_OPEN then BeforeFunction [] else AfterCall pre))"
| "advance_byte spec byte UnreachableAfterStop = (Some True, UnreachableAfterStop)"

text \<open>\<open>for &byte in bytes\<close>, with the refusals of \<open>advance_token\<close>.\<close>

fun advance_bytes :: "compiled_tool list \<Rightarrow> string \<Rightarrow> protocol_state \<Rightarrow> unit frontend_result \<times> protocol_state" where
  "advance_bytes spec [] state = (Inr (), state)"
| "advance_bytes spec (byte # bytes) state =
    (case advance_byte spec byte state of
       (None, state) \<Rightarrow> (Inl FrontendPanicked, state)
     | (Some False, state) \<Rightarrow> (Inl (FrontendContract ''token violates the active Qwen tool-call protocol''), state)
     | (Some True, state) \<Rightarrow> advance_bytes spec bytes state)"

section \<open>Tokens\<close>

text \<open>A span of length \<open>u16::MAX\<close> marks a special token.\<close>

definition U16_MAX :: nat where "U16_MAX = 65535"

record token_inventory =
  ti_entries :: "(nat \<times> nat) list"
  ti_bytes :: string

text \<open>\<open>for character in token.chars()\<close>: the byte table maps a byte-level character to its byte.\<close>

fun token_characters :: "(nat \<Rightarrow> char option) \<Rightarrow> nat list \<Rightarrow> string \<Rightarrow> string frontend_result" where
  "token_characters byte_table [] bytes = Inr bytes"
| "token_characters byte_table (c # cs) bytes =
    (case byte_table c of
       None \<Rightarrow> Inl (FrontendTokenizer ''token ID contains a non-byte-level character'')
     | Some b \<Rightarrow> token_characters byte_table cs (bytes @ [b]))"

text \<open>
  The loop of \<open>TokenByteInventory::build\<close> over the token ids \<open>ids\<close>. \<open>special\<close>, \<open>id_to_token\<close> (the
  scalar values of a token) and \<open>byte_table\<close> are the tokenizer's.
\<close>

fun inventory_loop ::
  "(nat \<Rightarrow> bool) \<Rightarrow> (nat \<Rightarrow> nat list option) \<Rightarrow> (nat \<Rightarrow> char option) \<Rightarrow> nat list \<Rightarrow> token_inventory \<Rightarrow>
   token_inventory frontend_result" where
  "inventory_loop special id_to_token byte_table [] ti = Inr ti"
| "inventory_loop special id_to_token byte_table (token_id # ids) ti =
    (if token_id \<ge> U32_BOUND then Inl (FrontendContract ''tokenizer entry count exceeds u32'')
     else if special token_id
     then inventory_loop special id_to_token byte_table ids (ti\<lparr>ti_entries := ti_entries ti @ [(0, U16_MAX)]\<rparr>)
     else case id_to_token token_id of
       None \<Rightarrow> Inl (FrontendTokenizer ''token ID has no tokenizer entry while building tool constraints'')
     | Some token \<Rightarrow>
        let start = length (ti_bytes ti) in
        if start \<ge> U32_BOUND then Inl (FrontendContract ''tool token-byte inventory exceeds 4 GiB'')
        else case token_characters byte_table token (ti_bytes ti) of
          Inl e \<Rightarrow> Inl e
        | Inr bytes \<Rightarrow>
           let len = length bytes - start in
           if len > U16_MAX \<or> len = U16_MAX then Inl (FrontendContract ''token ID represents too many bytes'')
           else inventory_loop special id_to_token byte_table ids
                  \<lparr>ti_entries = ti_entries ti @ [(start, len)], ti_bytes = bytes\<rparr>)"

definition inventory_build ::
  "nat \<Rightarrow> (nat \<Rightarrow> bool) \<Rightarrow> (nat \<Rightarrow> nat list option) \<Rightarrow> (nat \<Rightarrow> char option) \<Rightarrow> token_inventory frontend_result" where
  "inventory_build vocabulary special id_to_token byte_table =
    inventory_loop special id_to_token byte_table [0..<vocabulary] \<lparr>ti_entries = [], ti_bytes = []\<rparr>"

definition inventory_bytes :: "token_inventory \<Rightarrow> nat \<Rightarrow> string option" where
  "inventory_bytes ti token_id =
    (if token_id \<ge> length (ti_entries ti) then None
     else case ti_entries ti ! token_id of (start, len) \<Rightarrow>
       if len = U16_MAX then None else Some (take len (drop start (ti_bytes ti))))"

section \<open>The constraint\<close>

record tool_constraint =
  tc_tokens :: token_inventory
  tc_stop_ids :: "nat list"
  tc_compiled :: "compiled_tool list"
  tc_committed :: protocol_state

definition constraint_new :: "token_inventory \<Rightarrow> nat list \<Rightarrow> tool_function list \<Rightarrow> tool_constraint" where
  "constraint_new ti stop_ids spec = \<lparr>tc_tokens = ti, tc_stop_ids = stop_ids,
    tc_compiled = compiled_spec_new spec, tc_committed = tool_call_state_default\<rparr>"

definition advance_token :: "tool_constraint \<Rightarrow> protocol_state \<Rightarrow> nat \<Rightarrow> unit frontend_result \<times> protocol_state" where
  "advance_token tc state token =
    (if token \<in> set (tc_stop_ids tc)
     then (case state of
             Content _ \<Rightarrow> (Inr (), UnreachableAfterStop)
           | AfterCall _ \<Rightarrow> (Inr (), UnreachableAfterStop)
           | UnreachableAfterStop \<Rightarrow> (Inr (), UnreachableAfterStop)
           | _ \<Rightarrow> (Inl (FrontendContract ''tool call cannot stop before its closing tag''), state))
     else if state = UnreachableAfterStop then (Inr (), state)
     else case inventory_bytes (tc_tokens tc) token of
       None \<Rightarrow> (case state of Content _ \<Rightarrow> (Inr (), state)
                | _ \<Rightarrow> (Inl (FrontendContract ''special or padded token is not admitted inside a tool call''), state))
     | Some bytes \<Rightarrow> advance_bytes (tc_compiled tc) bytes state)"

fun advance_tokens :: "tool_constraint \<Rightarrow> nat list \<Rightarrow> protocol_state \<Rightarrow> protocol_state frontend_result" where
  "advance_tokens tc [] state = Inr state"
| "advance_tokens tc (token # tokens) state =
    (case advance_token tc state token of
       (Inl e, _) \<Rightarrow> Inl e
     | (Inr _, state) \<Rightarrow> advance_tokens tc tokens state)"

definition provisional_state :: "tool_constraint \<Rightarrow> nat list \<Rightarrow> protocol_state frontend_result" where
  "provisional_state tc provisional = advance_tokens tc provisional (tc_committed tc)"

definition allows_token :: "tool_constraint \<Rightarrow> protocol_state \<Rightarrow> nat \<Rightarrow> bool" where
  "allows_token tc state token = is_ok (fst (advance_token tc state token))"

definition commit_token :: "nat \<Rightarrow> tool_constraint \<Rightarrow> unit frontend_result \<times> tool_constraint" where
  "commit_token token tc =
    (case advance_token tc (tc_committed tc) token of
       (Inl e, _) \<Rightarrow> (Inl e, tc)
     | (Inr _, state) \<Rightarrow> (Inr (), tc\<lparr>tc_committed := state\<rparr>))"

definition has_incomplete_call :: "tool_constraint \<Rightarrow> bool" where
  "has_incomplete_call tc =
    (case tc_committed tc of Content _ \<Rightarrow> False | AfterCall _ \<Rightarrow> False | UnreachableAfterStop \<Rightarrow> False | _ \<Rightarrow> True)"

end
