(* ===== verification/ToolMarker.thy ===== *)
theory ToolMarker
  imports ToolCall
begin

text \<open>
  The closing-marker search of the tool-call automaton against its reference: the marker buffer keeps the
  text since the last opening angle bracket as long as it can still become a marker, so the search fires
  exactly where a naive suffix test does.
\<close>

section \<open>The text since the last angle bracket\<close>

definition last_angle :: "string \<Rightarrow> string" where
  "last_angle t = (if CHR ''<'' \<in> set t then CHR ''<'' # rev (takeWhile (\<lambda>c. c \<noteq> CHR ''<'') (rev t)) else [])"

lemma last_angle_Nil [simp]: "last_angle [] = []"
  by (simp add: last_angle_def)

lemma last_angle_snoc:
  "last_angle (t @ [b]) = (if b = CHR ''<'' then ''<'' else if last_angle t = [] then [] else last_angle t @ [b])"
  by (auto simp: last_angle_def)

text \<open>A marker: at least two bytes, an angle bracket first and nowhere else, and short enough to be buffered.\<close>

definition angle_word :: "string \<Rightarrow> bool" where
  "angle_word p \<longleftrightarrow> 2 \<le> length p \<and> hd p = CHR ''<'' \<and> CHR ''<'' \<notin> set (tl p) \<and> length p < PREFIX_CAPACITY"

definition angle_words :: "string list \<Rightarrow> bool" where
  "angle_words ps \<longleftrightarrow> list_all angle_word ps"

abbreviation close_markers :: "string list" where
  "close_markers \<equiv> [PARAMETER_CLOSE, FUNCTION_CLOSE, CALL_CLOSE]"

lemmas literal_defs = CALL_OPEN_def CALL_CLOSE_def FUNCTION_CLOSE_def PARAMETER_CLOSE_def

lemma marker_words [simp]: "angle_words [CALL_OPEN]" "angle_words close_markers"
  by (simp_all add: angle_words_def angle_word_def literal_defs PREFIX_CAPACITY_def)

lemma angle_word_cases:
  assumes "angle_word p"
  obtains c q where "p = CHR ''<'' # c # q" and "CHR ''<'' \<notin> set (c # q)"
proof (cases p rule: list.exhaust)
  case (Cons a p')
  then show thesis using assms that by (cases p') (auto simp: angle_word_def)
qed (use assms in \<open>simp add: angle_word_def\<close>)

lemma last_angle_suffix: "suffix (last_angle t) t"
proof (induction t rule: rev_induct)
  case (snoc b t)
  then show ?case by (auto simp: last_angle_snoc suffix_def)
qed simp

lemma last_angle_append: "CHR ''<'' \<notin> set q \<Longrightarrow> last_angle (x @ CHR ''<'' # q) = CHR ''<'' # q"
proof (induction q rule: rev_induct)
  case (snoc b q)
  then show ?case using last_angle_snoc [of "x @ CHR ''<'' # q" b] by auto
next
  case Nil
  then show ?case using last_angle_snoc [of x "CHR ''<''"] by simp
qed

lemma suffix_iff_last_angle: "angle_word p \<Longrightarrow> suffix p t \<longleftrightarrow> last_angle t = p"
proof
  assume p: "angle_word p"
  obtain c q where eq: "p = CHR ''<'' # c # q" and q: "CHR ''<'' \<notin> set (c # q)" using angle_word_cases [OF p] .
  assume "suffix p t"
  then obtain x where t: "t = x @ CHR ''<'' # (c # q)" by (auto simp: suffix_def eq)
  show "last_angle t = p" unfolding t eq by (rule last_angle_append [OF q])
next
  assume "last_angle t = p"
  then show "suffix p t" using last_angle_suffix [of t] by simp
qed

section \<open>One byte\<close>

text \<open>What the buffer keeps of \<open>x\<close>.\<close>

definition live_marker :: "string list \<Rightarrow> string \<Rightarrow> string" where
  "live_marker ps x = (if list_ex (prefix x) ps then x else [])"

lemma live_marker_Nil [simp]: "live_marker ps [] = []"
  by (simp add: live_marker_def)

lemma prefix_angle_word: "angle_word p \<Longrightarrow> prefix x p \<Longrightarrow> x = [] \<or> (hd x = CHR ''<'' \<and> CHR ''<'' \<notin> set (tl x))"
  by (cases x; cases p) (auto simp: angle_word_def dest: set_mono_prefix)

lemma retreat_no_angle: "angle_words ps \<Longrightarrow> CHR ''<'' \<notin> set x \<Longrightarrow> marker_retreat ps x = []"
proof (induction x)
  case (Cons c x)
  have "\<not> prefix (c # x) p" if "p \<in> set ps" for p
    using prefix_angle_word [of p "c # x"] Cons.prems that by (auto simp: angle_words_def list_all_iff)
  then show ?case using Cons by (auto simp: list_ex_iff)
qed simp

lemma retreat_to_angle: "angle_words ps \<Longrightarrow> CHR ''<'' \<notin> set x \<Longrightarrow> marker_retreat ps (x @ ''<'') = live_marker ps ''<''"
proof (induction x)
  case Nil
  then show ?case by (simp add: live_marker_def)
next
  case (Cons c x)
  have "\<not> prefix (c # x @ ''<'') p" if "p \<in> set ps" for p
    using prefix_angle_word [of p "c # x @ ''<''"] Cons.prems that by (auto simp: angle_words_def list_all_iff)
  then show ?case using Cons by (auto simp: list_ex_iff)
qed

lemma position_None_iff: "position x ys = None \<longleftrightarrow> x \<notin> set ys"
  by (induction ys) auto

lemma position_Some: "position x ys = Some i \<Longrightarrow> i < length ys \<and> ys ! i = x"
  by (induction ys arbitrary: i) (auto split: if_splits)

lemma live_marker_length: "angle_words ps \<Longrightarrow> length (live_marker ps x) < PREFIX_CAPACITY"
proof -
  assume ps: "angle_words ps"
  have "length x < PREFIX_CAPACITY" if "p \<in> set ps" "prefix x p" for p
    using ps that prefix_length_le [of x p] by (auto simp: angle_words_def list_all_iff angle_word_def)
  then show ?thesis by (auto simp: live_marker_def list_ex_iff PREFIX_CAPACITY_def)
qed

lemma advance_marker_angle:
  assumes ps: "angle_words ps"
  shows "advance_marker (live_marker ps (last_angle t)) b ps =
    (case position (last_angle (t @ [b])) ps of Some i \<Rightarrow> (Some i, []) | None \<Rightarrow> (None, live_marker ps (last_angle (t @ [b]))))"
proof -
  let ?m = "live_marker ps (last_angle t)"
  have push: "prefix_push b ?m = Some (?m @ [b])" using live_marker_length [OF ps, of "last_angle t"] by (simp add: prefix_push_def)
  have word: "p \<in> set ps \<Longrightarrow> angle_word p" for p using ps by (simp add: angle_words_def list_all_iff)
  have m: "?m = [] \<or> (hd ?m = CHR ''<'' \<and> CHR ''<'' \<notin> set (tl ?m))"
    using prefix_angle_word [OF word] by (auto simp: live_marker_def list_ex_iff)
  have one: "p \<in> set ps \<Longrightarrow> length p \<noteq> 1" for p using word [of p] by (auto simp: angle_word_def)
  show ?thesis
  proof (cases "b = CHR ''<''")
    case True
    have two: "?m @ ''<'' \<notin> set ps"
    proof
      assume "?m @ ''<'' \<in> set ps"
      then have w: "angle_word (?m @ ''<'')" by (rule word)
      then show False using m by (cases ?m) (auto simp: angle_word_def)
    qed
    have "marker_retreat ps (?m @ ''<'') = live_marker ps ''<''"
    proof (cases ?m)
      case Nil
      then show ?thesis by (simp add: live_marker_def)
    next
      case (Cons c q)
      have "\<not> prefix (c # q @ ''<'') p" if "p \<in> set ps" for p
        using prefix_angle_word [OF word [OF that], of "c # q @ ''<''"] by auto
      then have "marker_retreat ps (?m @ ''<'') = marker_retreat ps (q @ ''<'')" by (auto simp: Cons list_ex_iff)
      also have "\<dots> = live_marker ps ''<''" by (rule retreat_to_angle [OF ps]) (use m Cons in simp)
      finally show ?thesis .
    qed
    then show ?thesis
      using True push two one [of "''<''"] position_None_iff [of "?m @ ''<''" ps] position_None_iff [of "''<''" ps]
      by (auto simp: advance_marker_def last_angle_snoc)
  next
    case b: False
    show ?thesis
    proof (cases "?m = []")
      case empty: True
      have b1: "[b] \<notin> set ps" using one [of "[b]"] by auto
      have dead: "last_angle (t @ [b]) \<notin> set ps \<and> live_marker ps (last_angle (t @ [b])) = []"
      proof (cases "last_angle t = []")
        case True
        then show ?thesis using b one [of "[]"] word [of "[]"] by (auto simp: last_angle_snoc angle_word_def)
      next
        case False
        have "\<not> prefix (last_angle t @ [b]) p" if "p \<in> set ps" for p
          using empty False that append_prefixD [of "last_angle t" "[b]" p] by (auto simp: live_marker_def list_ex_iff split: if_splits)
        then have "\<not> list_ex (prefix (last_angle t @ [b])) ps" "last_angle t @ [b] \<notin> set ps" by (auto simp: list_ex_iff)
        then show ?thesis using b False by (simp add: last_angle_snoc live_marker_def)
      qed
      have "marker_retreat ps [b] = []" using retreat_no_angle [OF ps, of "[b]"] b by simp
      then show ?thesis
        using empty push b1 dead position_None_iff [of "[b]" ps] position_None_iff [of "last_angle (t @ [b])" ps]
        by (simp add: advance_marker_def del: marker_retreat.simps)
    next
      case ne: False
      then have eq: "?m = last_angle t" by (simp add: live_marker_def split: if_splits)
      then have snoc: "last_angle (t @ [b]) = ?m @ [b]" using ne b by (simp add: last_angle_snoc)
      have "marker_retreat ps (?m @ [b]) = live_marker ps (?m @ [b])"
      proof (cases "list_ex (prefix (?m @ [b])) ps")
        case True
        then show ?thesis using ne by (cases ?m) (simp_all add: live_marker_def)
      next
        case False
        obtain c q where cq: "?m = c # q" using ne by (cases ?m) auto
        then have "marker_retreat ps (q @ [b]) = []" using m b by (intro retreat_no_angle [OF ps]) simp
        moreover have "\<not> list_ex (prefix (c # q @ [b])) ps" using False by (simp add: cq)
        ultimately show ?thesis unfolding cq by (simp add: live_marker_def)
      qed
      then show ?thesis unfolding snoc using push by (simp add: advance_marker_def split: option.split)
    qed
  qed
qed

section \<open>The search\<close>

text \<open>The search a caller of \<open>advance_marker\<close> runs: the first marker found and what follows it.\<close>

fun marker_run :: "string list \<Rightarrow> string \<Rightarrow> string \<Rightarrow> (nat \<times> string) option" where
  "marker_run ps marker [] = None"
| "marker_run ps marker (b # bs) =
    (case advance_marker marker b ps of (Some i, _) \<Rightarrow> Some (i, bs) | (None, marker) \<Rightarrow> marker_run ps marker bs)"

text \<open>The reference: after every byte, test whether some marker is a suffix of all that was read.\<close>

fun naive_run :: "string list \<Rightarrow> string \<Rightarrow> string \<Rightarrow> (nat \<times> string) option" where
  "naive_run ps seen [] = None"
| "naive_run ps seen (b # bs) =
    (case filter (\<lambda>i. suffix (ps ! i) (seen @ [b])) [0..<length ps] of i # _ \<Rightarrow> Some (i, bs) | [] \<Rightarrow> naive_run ps (seen @ [b]) bs)"

lemma position_suffix:
  assumes ps: "angle_words ps"
  shows "position (last_angle t) ps = (case filter (\<lambda>i. suffix (ps ! i) t) [0..<length ps] of i # _ \<Rightarrow> Some i | [] \<Rightarrow> None)"
proof -
  have "filter (\<lambda>i. suffix (ps ! i) t) [0..<length ps] = filter (\<lambda>i. ps ! i = last_angle t) [0..<length ps]"
    using ps suffix_iff_last_angle by (intro filter_cong) (auto simp: angle_words_def list_all_length)
  moreover have "position x qs = (case filter (\<lambda>i. qs ! i = x) [0..<length qs] of i # _ \<Rightarrow> Some i | [] \<Rightarrow> None)" for x :: string and qs
  proof (induction qs)
    case (Cons q qs)
    have "filter (\<lambda>i. (q # qs) ! i = x) [0..<length (q # qs)] =
        (if q = x then [0] else []) @ map Suc (filter (\<lambda>i. qs ! i = x) [0..<length qs])"
      by (simp add: upt_conv_Cons map_Suc_upt [symmetric] filter_map comp_def del: upt_Suc)
    then show ?case using Cons by (auto split: list.splits)
  qed simp
  ultimately show ?thesis by simp
qed

lemma marker_run_naive: "angle_words ps \<Longrightarrow> marker_run ps (live_marker ps (last_angle seen)) input = naive_run ps seen input"
proof (induction input arbitrary: seen)
  case (Cons b input)
  then show ?case
    using position_suffix [OF Cons.prems, of "seen @ [b]"] by (auto simp: advance_marker_angle split: list.splits option.splits)
qed simp

text \<open>The marker buffer is an exact search. Over any text, the byte-wise buffer of \<open>advance_marker\<close>, with
  its retreat loop and its 80-byte capacity, finds the opening marker in content, and the first of the
  three closing markers in a parameter value, exactly where the naive search does that tests every
  suffix of everything read.\<close>

theorem marker_search_exact:
  "marker_run [CALL_OPEN] [] input = naive_run [CALL_OPEN] [] input \<and> marker_run close_markers [] input = naive_run close_markers [] input"
  using marker_run_naive [of "[CALL_OPEN]" "[]" input] marker_run_naive [of close_markers "[]" input] by simp

end
