(* ===== verification/ToolGrammar.thy ===== *)
theory ToolGrammar
  imports ToolMarker
begin

text \<open>
  The language of the tool-call automaton. The grammar is stated over the declared functions, without
  buffers or masks; the automaton accepts exactly its texts, and never traps generation in a call that
  cannot be completed.
\<close>

section \<open>Grammar\<close>

definition blank :: "string \<Rightarrow> bool" where
  "blank ws = list_all is_ascii_whitespace ws"

definition free_of :: "string list \<Rightarrow> string \<Rightarrow> bool" where
  "free_of ps x \<longleftrightarrow> (\<forall>p\<in>set ps. \<not> sublist p x)"

definition function_tag :: "tool_function \<Rightarrow> string" where
  "function_tag tool = ''<function='' @ tf_name tool @ ''>''"

definition parameter_tag :: "tool_parameter \<Rightarrow> string" where
  "parameter_tag p = ''<parameter='' @ tp_name p @ ''>''"

definition required_set :: "tool_function \<Rightarrow> nat set" where
  "required_set tool = {p. p < length (tf_parameters tool) \<and> tp_required (tf_parameters tool ! p)}"

text \<open>
  \<open>opened x\<close>: \<open>x\<close> ends with an opening marker; \<open>bound t u x\<close>: inside function \<open>t\<close>, the parameters \<open>u\<close> are given;
  \<open>closing x\<close>: the function is closed; \<open>closed x\<close>: the last call is complete.
\<close>

inductive opened :: "tool_function list \<Rightarrow> string \<Rightarrow> bool"
  and bound :: "tool_function list \<Rightarrow> nat \<Rightarrow> nat set \<Rightarrow> string \<Rightarrow> bool"
  and closing :: "tool_function list \<Rightarrow> string \<Rightarrow> bool"
  and closed :: "tool_function list \<Rightarrow> string \<Rightarrow> bool"
  for tools :: "tool_function list" where
  opened_first: "free_of [CALL_OPEN] c \<Longrightarrow> opened tools (c @ CALL_OPEN)"
| opened_next: "closed tools x \<Longrightarrow> blank ws \<Longrightarrow> opened tools (x @ ws @ CALL_OPEN)"
| bound_function: "opened tools x \<Longrightarrow> blank ws \<Longrightarrow> t < length tools \<Longrightarrow> bound tools t {} (x @ ws @ function_tag (tools ! t))"
| bound_parameter: "bound tools t u x \<Longrightarrow> blank ws \<Longrightarrow> p < length (tf_parameters (tools ! t)) \<Longrightarrow> p \<notin> u \<Longrightarrow>
    free_of close_markers v \<Longrightarrow>
    bound tools t (insert p u) (x @ ws @ parameter_tag (tf_parameters (tools ! t) ! p) @ v @ PARAMETER_CLOSE)"
| closing_function: "bound tools t u x \<Longrightarrow> blank ws \<Longrightarrow> required_set (tools ! t) \<subseteq> u \<Longrightarrow> closing tools (x @ ws @ FUNCTION_CLOSE)"
| closed_call: "closing tools x \<Longrightarrow> blank ws \<Longrightarrow> closed tools (x @ ws @ CALL_CLOSE)"

text \<open>The inventories the constructors admit.\<close>

definition tools_admitted :: "tool_function list \<Rightarrow> bool" where
  "tools_admitted tools \<longleftrightarrow> tool_spec_new tools = Inr tools \<and>
    list_all (\<lambda>tool. tool_function_new (tf_name tool) (tf_parameters tool) = Inr tool \<and>
      list_all (\<lambda>p. tool_parameter_new (tp_name p) (tp_required p) = Inr p) (tf_parameters tool)) tools"

definition name_ok :: "string \<Rightarrow> bool" where
  "name_ok name \<longleftrightarrow> name \<noteq> [] \<and> length name \<le> 64 \<and> list_all is_name_byte name"

definition tools_ok :: "tool_function list \<Rightarrow> bool" where
  "tools_ok tools \<longleftrightarrow> tools \<noteq> [] \<and> distinct (map tf_name tools) \<and>
    (\<forall>tool\<in>set tools. name_ok (tf_name tool) \<and> length (tf_parameters tool) \<le> 64 \<and> distinct (map tp_name (tf_parameters tool)) \<and>
      (\<forall>p\<in>set (tf_parameters tool). name_ok (tp_name p)))"

lemma require_protocol_name_Inr: "require_protocol_name name = Inr u \<longleftrightarrow> name_ok name"
  by (auto simp: require_protocol_name_def name_ok_def)

lemma repeats_name_iff: "repeats_name names xs \<longleftrightarrow> \<not> distinct xs \<or> set names \<inter> set xs \<noteq> {}"
  by (induction names xs rule: repeats_name.induct) auto

lemma require_tools_distinct: "require_tools names n tools = Inr b \<Longrightarrow> distinct (map tf_name tools) \<and> set names \<inter> tf_name ` set tools = {}"
  by (induction names n tools rule: require_tools.induct) (auto split: if_splits option.splits)

lemma tools_admitted_ok:
  assumes "tools_admitted tools"
  shows "tools_ok tools"
proof -
  have "tool_spec_new tools = Inr tools"
    and each: "\<And>tool. tool \<in> set tools \<Longrightarrow> tool_function_new (tf_name tool) (tf_parameters tool) = Inr tool"
    and par: "\<And>tool p. tool \<in> set tools \<Longrightarrow> p \<in> set (tf_parameters tool) \<Longrightarrow> tool_parameter_new (tp_name p) (tp_required p) = Inr p"
    using assms by (auto simp: tools_admitted_def list_all_iff)
  then have "tools \<noteq> []" "distinct (map tf_name tools)"
    by (auto simp: tool_spec_new_def rbind_Inr_iff dest: require_tools_distinct split: if_splits)
  moreover have "name_ok (tf_name tool) \<and> length (tf_parameters tool) \<le> 64 \<and> distinct (map tp_name (tf_parameters tool))"
    if "tool \<in> set tools" for tool
    using each [OF that] by (auto simp: tool_function_new_def rbind_Inr_iff require_protocol_name_Inr MAX_PARAMETERS_def
        repeats_name_iff split: if_splits)
  moreover have "name_ok (tp_name p)" if "tool \<in> set tools" "p \<in> set (tf_parameters tool)" for tool p
    using par [OF that] by (auto simp: tool_parameter_new_def rbind_Inr_iff require_protocol_name_Inr)
  ultimately show ?thesis by (simp add: tools_ok_def)
qed

section \<open>Tags\<close>

lemma name_byte_plain: "name_ok name \<Longrightarrow> c \<in> set name \<Longrightarrow> c \<noteq> CHR ''<'' \<and> c \<noteq> CHR ''>'' \<and> c \<noteq> CHR ''/''"
  by (auto simp: name_ok_def list_all_iff is_name_byte_def Let_def)

lemma tag_prefix_unique:
  assumes "prefix (h @ a @ ''>'') (h @ b @ ''>'')" and "CHR ''>'' \<notin> set a" and "CHR ''>'' \<notin> set b"
  shows "a = b"
proof -
  have "prefix (a @ ''>'') (b @ ''>'')" using assms(1) by simp
  then obtain c where c: "b @ ''>'' = (a @ ''>'') @ c" by (auto simp: prefix_def)
  then have "takeWhile (\<lambda>x. x \<noteq> CHR ''>'') (b @ ''>'') = takeWhile (\<lambda>x. x \<noteq> CHR ''>'') (a @ CHR ''>'' # c)" by simp
  moreover have "takeWhile (\<lambda>x. x \<noteq> CHR ''>'') (b @ ''>'') = b" using assms(3) by (auto simp: takeWhile_append)
  moreover have "takeWhile (\<lambda>x. x \<noteq> CHR ''>'') (a @ CHR ''>'' # c) = a" using assms(2) by (auto simp: takeWhile_append)
  ultimately show ?thesis by simp
qed

text \<open>A tag never fills the prefix buffer.\<close>

definition plain_tag :: "string \<Rightarrow> bool" where
  "plain_tag x \<longleftrightarrow> x \<noteq> [] \<and> hd x = CHR ''<'' \<and> length x \<le> PREFIX_CAPACITY"

lemma plain_tags:
  "name_ok (tf_name tool) \<Longrightarrow> plain_tag (function_tag tool)" "name_ok (tp_name p) \<Longrightarrow> plain_tag (parameter_tag p)"
  "plain_tag FUNCTION_CLOSE" "plain_tag CALL_CLOSE" "plain_tag CALL_OPEN"
  by (simp_all add: plain_tag_def function_tag_def parameter_tag_def name_ok_def PREFIX_CAPACITY_def literal_defs)

lemma plain_push: "plain_tag x \<Longrightarrow> strict_prefix pre x \<Longrightarrow> prefix_push b pre = Some (pre @ [b])"
  using prefix_length_less [of pre x] by (simp add: plain_tag_def prefix_push_def)

lemma push_ok: "pre = [] \<or> (\<exists>x. plain_tag x \<and> strict_prefix pre x) \<Longrightarrow> prefix_push b pre = Some (pre @ [b])"
proof (elim disjE exE conjE)
  assume "pre = []"
  then show ?thesis by (simp add: prefix_push_def PREFIX_CAPACITY_def)
qed (rule plain_push)

lemma tools_okD:
  assumes "tools_ok tools" and "t < length tools"
  shows "name_ok (tf_name (tools ! t))" and "length (tf_parameters (tools ! t)) \<le> 64"
    and "distinct (map tp_name (tf_parameters (tools ! t)))"
    and "q < length (tf_parameters (tools ! t)) \<Longrightarrow> name_ok (tp_name (tf_parameters (tools ! t) ! q)) \<and> q < 64"
proof -
  have m: "tools ! t \<in> set tools" using assms(2) by simp
  then show "name_ok (tf_name (tools ! t))" "length (tf_parameters (tools ! t)) \<le> 64"
    "distinct (map tp_name (tf_parameters (tools ! t)))" using assms(1) by (simp_all add: tools_ok_def)
  show "name_ok (tp_name (tf_parameters (tools ! t) ! q)) \<and> q < 64" if "q < length (tf_parameters (tools ! t))"
    using assms(1) m that nth_mem [OF that] by (auto simp: tools_ok_def)
qed

lemma plain_not_blank: "plain_tag x \<Longrightarrow> prefix (b # pre) x \<Longrightarrow> \<not> is_ascii_whitespace b"
  by (cases x) (auto simp: plain_tag_def is_ascii_whitespace_def)

section \<open>Masks and choices\<close>

definition mask_is :: "64 word \<Rightarrow> nat set \<Rightarrow> bool" where
  "mask_is u U \<longleftrightarrow> (\<forall>n. bit u n \<longleftrightarrow> n \<in> U)"

lemma scan_parameters_Cons:
  "scan_parameters used pre parameter any (tag # tags) =
    (if bit used parameter then scan_parameters used pre (parameter + 1) any tags
     else if prefix pre tag then if tag = pre then (True, Some parameter) else scan_parameters used pre (parameter + 1) True tags
     else scan_parameters used pre (parameter + 1) any tags)"
  by (simp add: bit_iff_and_push_bit_not_eq_0)

lemma mask_empty: "mask_is 0 {}"
  by (simp add: mask_is_def)

lemma mask_insert: "mask_is u U \<Longrightarrow> p < 64 \<Longrightarrow> mask_is (u OR push_bit p 1) (insert p U)"
  by (auto simp: mask_is_def bit_simps)

lemma required_mask_bit:
  "bit (required_mask i m ps) n \<longleftrightarrow> bit m n \<or> (i \<le> n \<and> n < i + length ps \<and> n < 64 \<and> tp_required (ps ! (n - i)))"
proof (induction i m ps rule: required_mask.induct)
  case (2 index bits p ps)
  have "bit (bits OR push_bit index (if tp_required p then 1 else 0)) n \<longleftrightarrow> bit bits n \<or> (n = index \<and> n < 64 \<and> tp_required p)"
    by (auto simp: bit_simps)
  moreover have "n \<noteq> index \<Longrightarrow> index \<le> n \<Longrightarrow> (p # ps) ! (n - index) = ps ! (n - (index + 1))"
    by (cases "n - index") (auto simp: Suc_diff_Suc diff_Suc)
  ultimately show ?case using 2 by (cases "n = index") auto
qed auto

lemma required_left_iff:
  assumes "length (tf_parameters tool) \<le> 64" and "mask_is u U"
  shows "ct_required (compile_tool tool) AND NOT u = 0 \<longleftrightarrow> required_set tool \<subseteq> U"
proof -
  have bits: "bit (ct_required (compile_tool tool)) n \<longleftrightarrow> n \<in> required_set tool" for n
    using assms(1) by (auto simp: compile_tool_def required_mask_bit required_set_def)
  have "ct_required (compile_tool tool) AND NOT u = 0 \<longleftrightarrow> (\<forall>n. \<not> (n < 64 \<and> bit (ct_required (compile_tool tool)) n \<and> \<not> bit u n))"
    by (auto simp: bit_eq_iff bit_simps)
  moreover have "n \<in> required_set tool \<Longrightarrow> n < 64" for n using assms(1) by (simp add: required_set_def)
  ultimately show ?thesis using assms(2) bits by (auto simp: mask_is_def)
qed

lemma match_choice_from_eq:
  "match_choice_from i any pre opts = (case position pre opts of Some k \<Rightarrow> CompleteMatch (i + k)
    | None \<Rightarrow> if any \<or> list_ex (prefix pre) opts then PrefixMatch else InvalidMatch)"
  by (induction opts arbitrary: i any) (auto split: option.splits)

lemma match_choice_eq:
  "match_choice pre opts = (case position pre opts of Some k \<Rightarrow> CompleteMatch k
    | None \<Rightarrow> if list_ex (prefix pre) opts then PrefixMatch else InvalidMatch)"
  by (simp add: match_choice_def match_choice_from_eq split: option.split)

lemma scan_parameters_Some:
  "scan_parameters used pre i any tags = (b, Some q) \<Longrightarrow> \<exists>k<length tags. q = i + k \<and> \<not> bit used q \<and> tags ! k = pre"
proof (induction tags arbitrary: i any)
  case (Cons t tags)
  show ?case
  proof (cases "bit used i \<or> t \<noteq> pre")
    case True
    then have "\<exists>any'. scan_parameters used pre (i + 1) any' tags = (b, Some q)"
      using Cons.prems by (auto simp: scan_parameters_Cons simp del: scan_parameters.simps(2) split: if_splits)
    then show ?thesis using Cons.IH by force
  next
    case False
    then have "q = i" using Cons.prems by (simp add: scan_parameters_Cons del: scan_parameters.simps(2))
    then show ?thesis using False by (intro exI [of _ 0]) auto
  qed
qed simp

lemma scan_parameters_None:
  "scan_parameters used pre i any tags = (b, None) \<Longrightarrow>
    (\<forall>k<length tags. \<not> bit used (i + k) \<longrightarrow> tags ! k \<noteq> pre) \<and>
    (b \<longleftrightarrow> any \<or> (\<exists>k<length tags. \<not> bit used (i + k) \<and> prefix pre (tags ! k)))"
proof (induction tags arbitrary: i any)
  case (Cons t tags)
  have run: "scan_parameters used pre (i + 1) (any \<or> (\<not> bit used i \<and> prefix pre t)) tags = (b, None)"
    and ne: "\<not> bit used i \<longrightarrow> t \<noteq> pre"
    using Cons.prems by (cases "bit used i"; cases "prefix pre t"; cases any;
        auto simp: scan_parameters_Cons simp del: scan_parameters.simps(2) split: if_splits)+
  have split: "(\<exists>k<length (t # tags). P k) \<longleftrightarrow> P 0 \<or> (\<exists>k<length tags. P (Suc k))" for P
    by (auto simp: less_Suc_eq_0_disj)
  show ?case
    using Cons.IH [OF run] ne unfolding split by (auto simp: less_Suc_eq_0_disj)
qed simp

section \<open>Soundness\<close>

lemma compiled_simps:
  "length (compiled_spec_new tools) = length tools" "map ct_open (compiled_spec_new tools) = map function_tag tools"
  "t < length tools \<Longrightarrow> compiled_spec_new tools ! t = compile_tool (tools ! t)"
  "ct_parameters (compile_tool tool) = map parameter_tag (tf_parameters tool)"
  by (simp_all add: compiled_spec_new_def compile_tool_def function_tag_def parameter_tag_def comp_def)

text \<open>The text read so far, as the state remembers it.\<close>

fun describes :: "tool_function list \<Rightarrow> string \<Rightarrow> protocol_state \<Rightarrow> bool" where
  "describes tools x (Content m) \<longleftrightarrow> free_of [CALL_OPEN] x \<and> m = live_marker [CALL_OPEN] (last_angle x)"
| "describes tools x (BeforeFunction pre) \<longleftrightarrow>
    (\<exists>y ws. opened tools y \<and> blank ws \<and> x = y @ ws @ pre \<and> (pre = [] \<or> (\<exists>tool\<in>set tools. strict_prefix pre (function_tag tool))))"
| "describes tools x (BeforeParameter t u pre) \<longleftrightarrow> t < length tools \<and>
    (\<exists>y ws U. bound tools t U y \<and> mask_is u U \<and> blank ws \<and> x = y @ ws @ pre \<and>
      (pre = [] \<or> (required_set (tools ! t) \<subseteq> U \<and> strict_prefix pre FUNCTION_CLOSE) \<or>
       (\<exists>q<length (tf_parameters (tools ! t)). q \<notin> U \<and> strict_prefix pre (parameter_tag (tf_parameters (tools ! t) ! q)))))"
| "describes tools x (ParameterValue t q u m) \<longleftrightarrow> t < length tools \<and>
    (\<exists>y ws U v. bound tools t U y \<and> mask_is u U \<and> blank ws \<and> q < length (tf_parameters (tools ! t)) \<and> q \<notin> U \<and>
      x = y @ ws @ parameter_tag (tf_parameters (tools ! t) ! q) @ v \<and> free_of close_markers v \<and> m = live_marker close_markers (last_angle v))"
| "describes tools x (BeforeCallClose pre) \<longleftrightarrow>
    (\<exists>y ws. closing tools y \<and> blank ws \<and> x = y @ ws @ pre \<and> (pre = [] \<or> strict_prefix pre CALL_CLOSE))"
| "describes tools x (AfterCall pre) \<longleftrightarrow>
    (\<exists>y ws. closed tools y \<and> blank ws \<and> x = y @ ws @ pre \<and> (pre = [] \<or> strict_prefix pre CALL_OPEN))"
| "describes tools x UnreachableAfterStop \<longleftrightarrow> False"

lemma describesI:
  "opened tools y \<Longrightarrow> blank ws \<Longrightarrow> x = y @ ws @ pre \<Longrightarrow> pre = [] \<or> (\<exists>tool\<in>set tools. strict_prefix pre (function_tag tool)) \<Longrightarrow>
    describes tools x (BeforeFunction pre)"
  "bound tools t U y \<Longrightarrow> mask_is u U \<Longrightarrow> blank ws \<Longrightarrow> x = y @ ws @ pre \<Longrightarrow> t < length tools \<Longrightarrow>
    pre = [] \<or> (required_set (tools ! t) \<subseteq> U \<and> strict_prefix pre FUNCTION_CLOSE) \<or>
      (\<exists>q<length (tf_parameters (tools ! t)). q \<notin> U \<and> strict_prefix pre (parameter_tag (tf_parameters (tools ! t) ! q))) \<Longrightarrow>
    describes tools x (BeforeParameter t u pre)"
  "bound tools t U y \<Longrightarrow> mask_is u U \<Longrightarrow> blank ws \<Longrightarrow> q < length (tf_parameters (tools ! t)) \<Longrightarrow> q \<notin> U \<Longrightarrow>
    x = y @ ws @ parameter_tag (tf_parameters (tools ! t) ! q) @ v \<Longrightarrow> free_of close_markers v \<Longrightarrow> t < length tools \<Longrightarrow>
    m = live_marker close_markers (last_angle v) \<Longrightarrow> describes tools x (ParameterValue t q u m)"
  "closing tools y \<Longrightarrow> blank ws \<Longrightarrow> x = y @ ws @ pre \<Longrightarrow> pre = [] \<or> strict_prefix pre CALL_CLOSE \<Longrightarrow>
    describes tools x (BeforeCallClose pre)"
  "closed tools y \<Longrightarrow> blank ws \<Longrightarrow> x = y @ ws @ pre \<Longrightarrow> pre = [] \<or> strict_prefix pre CALL_OPEN \<Longrightarrow>
    describes tools x (AfterCall pre)"
  by (simp; blast)+

lemma blank_snoc: "blank (ws @ [b]) \<longleftrightarrow> blank ws \<and> is_ascii_whitespace b" and blank_Nil [simp]: "blank []"
  by (simp_all add: blank_def)

lemma prefix_snoc_cases: "prefix (pre @ [b]) x \<Longrightarrow> strict_prefix pre x \<and> (pre @ [b] = x \<or> strict_prefix (pre @ [b]) x)"
  by (auto simp: strict_prefix_def prefix_def)

text \<open>The first marker found is at the end of what was read.\<close>

lemma free_snoc:
  assumes ps: "angle_words ps" and free: "free_of ps x"
  shows "(case position (last_angle (x @ [b])) ps of
      Some i \<Rightarrow> \<exists>w. x @ [b] = w @ ps ! i \<and> free_of ps w
    | None \<Rightarrow> free_of ps (x @ [b]))"
proof (cases "position (last_angle (x @ [b])) ps")
  case (Some i)
  then have i: "i < length ps" "ps ! i = last_angle (x @ [b])" using position_Some by fastforce+
  have w: "angle_word (ps ! i)" using ps i(1) unfolding angle_words_def list_all_length by blast
  have "suffix (ps ! i) (x @ [b])" unfolding suffix_iff_last_angle [OF w] by (simp add: i(2))
  then obtain w' where w': "x @ [b] = w' @ ps ! i" by (auto simp: suffix_def)
  have "ps ! i \<noteq> []" using w by (auto simp: angle_word_def)
  then obtain c cs where "ps ! i = cs @ [c]" by (cases "ps ! i" rule: rev_cases) auto
  then have "x = w' @ cs" using w' by simp
  then have "free_of ps w'" using free sublist_order.order_trans [of _ w' x] by (auto simp: free_of_def)
  then show ?thesis using Some w' by auto
next
  case None
  have "\<not> sublist p (x @ [b])" if p: "p \<in> set ps" for p
  proof
    assume sub: "sublist p (x @ [b])"
    have w: "angle_word p" using ps p by (simp add: angle_words_def list_all_iff)
    have "last_angle (x @ [b]) \<noteq> p" using None p by (auto simp: position_None_iff)
    then have "\<not> suffix p (x @ [b])" unfolding suffix_iff_last_angle [OF w] .
    then have "sublist p x" using sub by (auto simp: sublist_def suffix_def dest!: sym [of "x @ [b]"])
        (metis append_butlast_last_id append_self_conv butlast_append butlast_snoc)
    then show False using free p by (simp add: free_of_def)
  qed
  then show ?thesis using None by (simp add: free_of_def)
qed

definition step_sound :: "tool_function list \<Rightarrow> string \<Rightarrow> char \<Rightarrow> protocol_state \<Rightarrow> bool" where
  "step_sound tools x b st \<longleftrightarrow> (case advance_byte (compiled_spec_new tools) b st of
    (None, _) \<Rightarrow> False | (Some False, _) \<Rightarrow> True | (Some True, st') \<Rightarrow> describes tools (x @ [b]) st')"

lemma sound_content: "describes tools x (Content m) \<Longrightarrow> step_sound tools x b (Content m)"
proof -
  assume d: "describes tools x (Content m)"
  have run: "advance_marker m b [CALL_OPEN] = (case position (last_angle (x @ [b])) [CALL_OPEN] of
      Some i \<Rightarrow> (Some i, []) | None \<Rightarrow> (None, live_marker [CALL_OPEN] (last_angle (x @ [b]))))"
    using d advance_marker_angle [of "[CALL_OPEN]" x b] by simp
  have free: "free_of [CALL_OPEN] x" using d by simp
  show ?thesis
  proof (cases "position (last_angle (x @ [b])) [CALL_OPEN]")
    case None
    then show ?thesis using run free_snoc [OF marker_words(1) free, of b] by (simp add: step_sound_def)
  next
    case (Some i)
    then have "i = 0" by (auto split: if_splits)
    then obtain w where "x @ [b] = w @ CALL_OPEN" "free_of [CALL_OPEN] w" using Some free_snoc [OF marker_words(1) free, of b] by auto
    then have "opened tools (x @ [b])" by (simp add: opened_first)
    then have "describes tools (x @ [b]) (BeforeFunction [])" by (rule describesI(1) [where ws = "[]"]) simp_all
    then show ?thesis using Some run \<open>i = 0\<close> by (simp add: step_sound_def del: position.simps)
  qed
qed

lemma sound_function:
  assumes ok: "tools_ok tools" and d: "describes tools x (BeforeFunction pre)"
  shows "step_sound tools x b (BeforeFunction pre)"
proof -
  obtain y ws where y: "opened tools y" "blank ws" "x = y @ ws @ pre"
    and pre: "pre = [] \<or> (\<exists>tool\<in>set tools. strict_prefix pre (function_tag tool))" using d by auto
  show ?thesis
  proof (cases "pre = [] \<and> is_ascii_whitespace b")
    case True
    then have "describes tools (x @ [b]) (BeforeFunction [])"
      using y by (intro describesI(1) [OF y(1), of "ws @ [b]"]) (simp_all add: blank_snoc)
    then show ?thesis using True by (simp add: step_sound_def)
  next
    case False
    have push: "prefix_push b pre = Some (pre @ [b])"
      by (rule push_ok) (use pre ok plain_tags(1) in \<open>unfold tools_ok_def, blast\<close>)
    show ?thesis
    proof (cases "position (pre @ [b]) (map function_tag tools)")
      case (Some t)
      then have t: "t < length tools" "function_tag (tools ! t) = pre @ [b]" using position_Some by fastforce+
      then have "bound tools t {} (y @ ws @ pre @ [b])" using bound_function [OF y(1,2) t(1)] by simp
      then have "describes tools (x @ [b]) (BeforeParameter t 0 [])"
        by (rule describesI(2) [OF _ mask_empty, where ws = "[]"]) (use t(1) y(3) in simp_all)
      then show ?thesis using False push Some by (auto simp: step_sound_def match_choice_eq compiled_simps simp del: describes.simps)
    next
      case None
      have "describes tools (x @ [b]) (BeforeFunction (pre @ [b]))" if any: "list_ex (prefix (pre @ [b])) (map function_tag tools)"
      proof -
        obtain tool where tool: "tool \<in> set tools" "prefix (pre @ [b]) (function_tag tool)" using any by (auto simp: list_ex_iff)
        have "function_tag tool \<noteq> pre @ [b]" using None tool(1) unfolding position_None_iff set_map by (metis imageI)
        then have "strict_prefix (pre @ [b]) (function_tag tool)" using tool(2) by (simp add: strict_prefix_def)
        then show ?thesis using y tool(1) by (intro describesI(1) [OF y(1,2)]) auto
      qed
      then show ?thesis using False push None by (auto simp: step_sound_def match_choice_eq compiled_simps simp del: describes.simps)
    qed
  qed
qed

lemma sound_value:
  assumes ok: "tools_ok tools" and d: "describes tools x (ParameterValue t q u m)"
  shows "step_sound tools x b (ParameterValue t q u m)"
proof -
  let ?tag = "parameter_tag (tf_parameters (tools ! t) ! q)"
  obtain y ws U v where y: "bound tools t U y" "mask_is u U" "blank ws" "q < length (tf_parameters (tools ! t))" "q \<notin> U"
    "x = y @ ws @ ?tag @ v" "free_of close_markers v" and m: "m = live_marker close_markers (last_angle v)" and t: "t < length tools"
    using d by auto
  have run: "advance_marker m b close_markers = (case position (last_angle (v @ [b])) close_markers of
      Some i \<Rightarrow> (Some i, []) | None \<Rightarrow> (None, live_marker close_markers (last_angle (v @ [b]))))"
    unfolding m by (rule advance_marker_angle) simp
  show ?thesis
  proof (cases "position (last_angle (v @ [b])) close_markers")
    case None
    then have "free_of close_markers (v @ [b])" using free_snoc [OF marker_words(2) y(7), of b] by simp
    then have "describes tools (x @ [b]) (ParameterValue t q u (live_marker close_markers (last_angle (v @ [b]))))"
      using y t by (intro describesI(3) [OF y(1-5), of _ "v @ [b]"]) simp_all
    then show ?thesis using None run by (simp add: step_sound_def del: describes.simps)
  next
    case (Some i)
    show ?thesis
    proof (cases i)
      case 0
      obtain w where w: "v @ [b] = w @ PARAMETER_CLOSE" "free_of close_markers w"
        using Some 0 free_snoc [OF marker_words(2) y(7), of b] by auto
      have "bound tools t (insert q U) (y @ ws @ ?tag @ w @ PARAMETER_CLOSE)" by (rule bound_parameter [OF y(1,3,4,5) w(2)])
      then have "bound tools t (insert q U) (x @ [b])" using w(1) y(6) by simp
      moreover have "q < 64" using tools_okD(4) [OF ok t y(4)] by simp
      then have "mask_is (u OR push_bit q 1) (insert q U)" by (rule mask_insert [OF y(2)])
      ultimately have "describes tools (x @ [b]) (BeforeParameter t (u OR push_bit q 1) [])"
        using t by (intro describesI(2) [where ws = "[]"]) simp_all
      then show ?thesis using Some run 0 by (simp add: step_sound_def del: describes.simps position.simps push_bit_of_1)
    next
      case (Suc j)
      then show ?thesis using Some run by (simp add: step_sound_def del: describes.simps position.simps)
    qed
  qed
qed

lemma sound_parameter:
  assumes ok: "tools_ok tools" and d: "describes tools x (BeforeParameter t u pre)"
  shows "step_sound tools x b (BeforeParameter t u pre)"
proof -
  let ?tool = "tools ! t"
  let ?tag = "\<lambda>q. parameter_tag (tf_parameters ?tool ! q)"
  obtain y ws U where y: "bound tools t U y" "mask_is u U" "blank ws" "x = y @ ws @ pre" and t: "t < length tools"
    and pre: "pre = [] \<or> (required_set ?tool \<subseteq> U \<and> strict_prefix pre FUNCTION_CLOSE) \<or>
      (\<exists>q<length (tf_parameters ?tool). q \<notin> U \<and> strict_prefix pre (?tag q))"
    using d by auto
  show ?thesis
  proof (cases "pre = [] \<and> is_ascii_whitespace b")
    case True
    then have "describes tools (x @ [b]) (BeforeParameter t u [])"
      using y t by (intro describesI(2) [OF y(1,2), of "ws @ [b]"]) (simp_all add: blank_snoc)
    then show ?thesis using True by (simp add: step_sound_def del: describes.simps)
  next
    case False
    have push: "prefix_push b pre = Some (pre @ [b])"
      by (rule push_ok) (use pre tools_okD(4) [OF ok t] plain_tags(2,3) in blast)
    have sp: "compiled_spec_new tools ! t = compile_tool ?tool" "\<not> length (compiled_spec_new tools) \<le> t"
      using t by (simp_all add: compiled_simps)
    note req = required_left_iff [OF tools_okD(2) [OF ok t] y(2)]
    have tags: "ct_parameters (compile_tool ?tool) = map parameter_tag (tf_parameters ?tool)" by (simp add: compiled_simps)
    have bits: "bit u q \<longleftrightarrow> q \<in> U" for q using y(2) by (simp add: mask_is_def)
    have snoc: "x @ [b] = y @ ws @ pre @ [b]" by (simp add: y(4))
    show ?thesis
    proof (cases "required_set ?tool \<subseteq> U \<and> prefix (pre @ [b]) FUNCTION_CLOSE")
      case close: True
      have "describes tools (x @ [b]) (if pre @ [b] = FUNCTION_CLOSE then BeforeCallClose [] else BeforeParameter t u (pre @ [b]))"
      proof (cases "pre @ [b] = FUNCTION_CLOSE")
        case True
        then have "closing tools (x @ [b])" using closing_function [OF y(1,3)] close snoc by simp
        then have "describes tools (x @ [b]) (BeforeCallClose [])" by (rule describesI(4) [where ws = "[]"]) simp_all
        then show ?thesis using True by simp
      next
        case ne: False
        have "describes tools (x @ [b]) (BeforeParameter t u (pre @ [b]))"
          by (rule describesI(2) [OF y(1-3) snoc t]) (use close ne in \<open>auto simp: strict_prefix_def\<close>)
        then show ?thesis using ne by simp
      qed
      then show ?thesis using False push sp req close by (auto simp: step_sound_def Let_def simp del: describes.simps)
    next
      case open_tag: False
      obtain any q where scan: "scan_parameters u (pre @ [b]) 0 False (map parameter_tag (tf_parameters ?tool)) = (any, q)" by fastforce
      show ?thesis
      proof (cases q)
        case (Some k)
        then have k: "k < length (tf_parameters ?tool)" "k \<notin> U" "?tag k = pre @ [b]"
          using scan_parameters_Some scan bits by fastforce+
        have "describes tools (x @ [b]) (ParameterValue t k u [])"
          by (rule describesI(3) [OF y(1-3) k(1,2), of _ "[]"])
            (use snoc k(3) t in \<open>simp_all add: free_of_def literal_defs\<close>)
        then show ?thesis using False push sp req open_tag scan Some tags by (auto simp: step_sound_def Let_def simp del: describes.simps)
      next
        case None
        note n = scan_parameters_None [OF scan [unfolded None]]
        have "describes tools (x @ [b]) (BeforeParameter t u (pre @ [b]))" if any: any
        proof -
          obtain k where k: "k < length (tf_parameters ?tool)" "k \<notin> U" "prefix (pre @ [b]) (?tag k)" "?tag k \<noteq> pre @ [b]"
            using n any bits by auto
          then have "strict_prefix (pre @ [b]) (?tag k)" by (simp add: strict_prefix_def)
          then show ?thesis using k by (intro describesI(2) [OF y(1-3) snoc t]) blast
        qed
        then show ?thesis using False push sp req open_tag scan None tags
          by (cases any) (auto simp: step_sound_def Let_def simp del: describes.simps)
      qed
    qed
  qed
qed

lemma sound_call_close:
  assumes d: "describes tools x (BeforeCallClose pre)"
  shows "step_sound tools x b (BeforeCallClose pre)"
proof -
  obtain y ws where y: "closing tools y" "blank ws" "x = y @ ws @ pre" and pre: "pre = [] \<or> strict_prefix pre CALL_CLOSE" using d by auto
  have push: "prefix_push b pre = Some (pre @ [b])" by (rule push_ok) (use pre plain_tags(4) in blast)
  have snoc: "x @ [b] = y @ ws @ pre @ [b]" by (simp add: y(3))
  have "describes tools (x @ [b]) (BeforeCallClose [])" if "pre = []" "is_ascii_whitespace b"
    using y that by (intro describesI(4) [OF y(1), of "ws @ [b]"]) (simp_all add: blank_snoc)
  moreover have "describes tools (x @ [b]) (AfterCall [])" if "pre @ [b] = CALL_CLOSE"
    using closed_call [OF y(1,2)] snoc that by (intro describesI(5) [of _ "x @ [b]" "[]"]) simp_all
  moreover have "describes tools (x @ [b]) (BeforeCallClose (pre @ [b]))" if "prefix (pre @ [b]) CALL_CLOSE" "pre @ [b] \<noteq> CALL_CLOSE"
    using that by (intro describesI(4) [OF y(1,2) snoc]) (simp add: strict_prefix_def)
  ultimately show ?thesis using push by (auto simp: step_sound_def simp del: describes.simps)
qed

lemma sound_after_call:
  assumes d: "describes tools x (AfterCall pre)"
  shows "step_sound tools x b (AfterCall pre)"
proof -
  obtain y ws where y: "closed tools y" "blank ws" "x = y @ ws @ pre" and pre: "pre = [] \<or> strict_prefix pre CALL_OPEN" using d by auto
  have push: "prefix_push b pre = Some (pre @ [b])" by (rule push_ok) (use pre plain_tags(5) in blast)
  have snoc: "x @ [b] = y @ ws @ pre @ [b]" by (simp add: y(3))
  have "describes tools (x @ [b]) (AfterCall [])" if "pre = []" "is_ascii_whitespace b"
    using y that by (intro describesI(5) [OF y(1), of "ws @ [b]"]) (simp_all add: blank_snoc)
  moreover have "describes tools (x @ [b]) (BeforeFunction [])" if "pre @ [b] = CALL_OPEN"
    using opened_next [OF y(1,2)] snoc that by (intro describesI(1) [of _ "x @ [b]" "[]"]) simp_all
  moreover have "describes tools (x @ [b]) (AfterCall (pre @ [b]))" if "prefix (pre @ [b]) CALL_OPEN" "pre @ [b] \<noteq> CALL_OPEN"
    using that by (intro describesI(5) [OF y(1,2) snoc]) (simp add: strict_prefix_def)
  ultimately show ?thesis using push by (auto simp: step_sound_def simp del: describes.simps)
qed

lemma describes_step: "tools_ok tools \<Longrightarrow> describes tools x st \<Longrightarrow> step_sound tools x b st"
  by (cases st) (auto intro: sound_content sound_function sound_parameter sound_value sound_call_close sound_after_call simp del: describes.simps(1-6))

lemma describes_run:
  assumes ok: "tools_ok tools"
  shows "describes tools x st \<Longrightarrow> advance_bytes (compiled_spec_new tools) bytes st = (Inr (), st') \<Longrightarrow> describes tools (x @ bytes) st'"
proof (induction bytes arbitrary: x st)
  case (Cons b bytes)
  obtain res st1 where run: "advance_byte (compiled_spec_new tools) b st = (res, st1)" by fastforce
  have "res = Some True" using Cons.prems(2) run by (auto split: option.splits bool.splits)
  then show ?case
    using describes_step [OF ok Cons.prems(1), of b] Cons.IH [of "x @ [b]" st1] Cons.prems(2) run by (simp add: step_sound_def)
qed simp

lemma describes_start: "describes tools [] tool_call_state_default"
  by (simp add: tool_call_state_default_def free_of_def literal_defs)

section \<open>Completeness\<close>

lemma advance_bytes_append:
  "advance_bytes spec (xs @ ys) st = (case advance_bytes spec xs st of (Inl e, st) \<Rightarrow> (Inl e, st) | (Inr _, st) \<Rightarrow> advance_bytes spec ys st)"
  by (induction xs arbitrary: st) (auto split: prod.split option.split bool.split)

abbreviation runs :: "tool_function list \<Rightarrow> string \<Rightarrow> protocol_state \<Rightarrow> protocol_state \<Rightarrow> bool" where
  "runs tools x st st' \<equiv> advance_bytes (compiled_spec_new tools) x st = (Inr (), st')"

lemma runs_append: "runs tools x st st1 \<Longrightarrow> runs tools y st1 st2 \<Longrightarrow> runs tools (x @ y) st st2"
  by (simp add: advance_bytes_append)

text \<open>Whitespace is skipped where a tag may start.\<close>

lemma runs_blank:
  "blank ws \<Longrightarrow> runs tools ws (BeforeFunction []) (BeforeFunction [])"
  "blank ws \<Longrightarrow> runs tools ws (BeforeParameter t u []) (BeforeParameter t u [])"
  "blank ws \<Longrightarrow> runs tools ws (BeforeCallClose []) (BeforeCallClose [])"
  "blank ws \<Longrightarrow> runs tools ws (AfterCall []) (AfterCall [])"
  by (induction ws) (simp_all add: blank_def)

text \<open>A tag is consumed byte by byte; \<open>st\<close> holds the prefix read so far.\<close>

lemma runs_tag:
  assumes step: "\<And>p b. prefix (p @ [b]) w \<Longrightarrow> advance_byte (compiled_spec_new tools) b (st p) =
      (Some True, if p @ [b] = w then st' else st (p @ [b]))" and p: "strict_prefix p w"
  shows "runs tools (drop (length p) w) (st p) st'"
  using p
proof (induction "length w - length p" arbitrary: p)
  case 0
  then show ?case using prefix_length_less [of p w] by simp
next
  case (Suc n)
  have less: "length p < length w" using prefix_length_less [OF Suc.prems] .
  then obtain b q where q: "drop (length p) w = b # q" by (cases "drop (length p) w") auto
  obtain z where z: "w = p @ z" using Suc.prems by (auto simp: strict_prefix_def prefix_def)
  then have w: "w = p @ b # q" using q by simp
  then have pre: "prefix (p @ [b]) w" by (simp add: prefix_def)
  show ?case
  proof (cases "p @ [b] = w")
    case True
    then have "q = []" using w by simp
    then show ?thesis using step [OF pre] True q by simp
  next
    case False
    then have "strict_prefix (p @ [b]) w" using pre by (simp add: strict_prefix_def)
    moreover have "n = length w - length (p @ [b])" using Suc.hyps(2) by simp
    ultimately have "runs tools (drop (length (p @ [b])) w) (st (p @ [b])) st'" using Suc.hyps(1) [of "p @ [b]"] by blast
    moreover have "drop (length (p @ [b])) w = q" using w by simp
    ultimately show ?thesis using step [OF pre] False q by simp
  qed
qed

lemma tag_step_common:
  assumes "plain_tag w" and "prefix (p @ [b]) w"
  shows "prefix_push b p = Some (p @ [b])" and "\<not> (p = [] \<and> is_ascii_whitespace b)"
proof -
  show "prefix_push b p = Some (p @ [b])" by (rule plain_push [OF assms(1)]) (use prefix_snoc_cases [OF assms(2)] in blast)
  show "\<not> (p = [] \<and> is_ascii_whitespace b)" using plain_not_blank [OF assms(1), of b "[]"] assms(2) by auto
qed

lemma position_unique: "k < length xs \<Longrightarrow> distinct xs \<Longrightarrow> position (xs ! k) xs = Some k"
proof (induction xs arbitrary: k)
  case (Cons x xs)
  then show ?case by (cases k) auto
qed simp

text \<open>No tag is a proper prefix of another of its kind.\<close>

lemma tags_apart:
  assumes "name_ok a" and "name_ok b" and "prefix (h @ a @ ''>'') (h @ b @ ''>'')"
  shows "a = b"
  by (rule tag_prefix_unique [OF assms(3)]) (use name_byte_plain [OF assms(1)] name_byte_plain [OF assms(2)] in blast)+

lemma distinct_tags:
  "distinct (map tf_name tools) \<Longrightarrow> distinct (map function_tag tools)"
  "distinct (map tp_name ps) \<Longrightarrow> distinct (map parameter_tag ps)"
  by (auto simp: distinct_map inj_on_def function_tag_def parameter_tag_def)

lemma runs_function_tag:
  assumes ok: "tools_ok tools" and t: "t < length tools" and p: "strict_prefix p (function_tag (tools ! t))"
  shows "runs tools (drop (length p) (function_tag (tools ! t))) (BeforeFunction p) (BeforeParameter t 0 [])"
proof (rule runs_tag [OF _ p, of tools BeforeFunction])
  fix p b assume pre: "prefix (p @ [b]) (function_tag (tools ! t))"
  note tag = tag_step_common [OF plain_tags(1) [OF tools_okD(1) [OF ok t]] pre]
  have pos: "position (p @ [b]) (map function_tag tools) = (if p @ [b] = function_tag (tools ! t) then Some t else None)"
  proof (cases "p @ [b] = function_tag (tools ! t)")
    case True
    moreover have "distinct (map function_tag tools)" using ok by (intro distinct_tags) (simp add: tools_ok_def)
    ultimately show ?thesis using position_unique [of t "map function_tag tools"] t by simp
  next
    case False
    have "function_tag tool \<noteq> p @ [b]" if tool: "tool \<in> set tools" for tool
    proof
      assume eq: "function_tag tool = p @ [b]"
      have "tf_name tool = tf_name (tools ! t)"
        by (rule tags_apart [of _ _ "''<function=''"]) (use ok tool tools_okD(1) [OF ok t] pre eq in \<open>auto simp: tools_ok_def function_tag_def\<close>)
      then show False using False eq by (simp add: function_tag_def)
    qed
    then show ?thesis using False by (force simp: position_None_iff)
  qed
  have "list_ex (prefix (p @ [b])) (map function_tag tools)" using pre t by (auto simp: list_ex_iff)
  then show "advance_byte (compiled_spec_new tools) b (BeforeFunction p) =
      (Some True, if p @ [b] = function_tag (tools ! t) then BeforeParameter t 0 [] else BeforeFunction (p @ [b]))"
    using tag pos by (auto simp: match_choice_eq compiled_simps)
qed

end
