(* ===== verification/ToolLanguage.thy ===== *)
theory ToolLanguage
  imports ToolGrammar
begin

text \<open>
  Completeness of the tool-call automaton: every text of the grammar is accepted, every text read so far
  can be completed to one, and with soundness the automaton accepts exactly the grammar.
\<close>

section \<open>Runs over markers\<close>

lemma no_marker_position: "angle_words ps \<Longrightarrow> free_of ps x \<Longrightarrow> last_angle x \<notin> set ps"
  using suffix_iff_last_angle [of "last_angle x" x] suffix_imp_sublist [of "last_angle x" x]
  by (auto simp: angle_words_def list_all_iff free_of_def)

lemma free_of_prefix: "free_of ps (x @ y) \<Longrightarrow> free_of ps x"
  using sublist_order.order_trans [of _ x "x @ y"] by (auto simp: free_of_def)

text \<open>\<open>st\<close> is a state that runs a marker search for \<open>ps\<close>.\<close>

definition searching :: "tool_function list \<Rightarrow> string list \<Rightarrow> (string \<Rightarrow> protocol_state) \<Rightarrow> bool" where
  "searching tools ps st \<longleftrightarrow> (\<forall>v b. last_angle (v @ [b]) \<notin> set ps \<longrightarrow>
    advance_byte (compiled_spec_new tools) b (st (live_marker ps (last_angle v))) = (Some True, st (live_marker ps (last_angle (v @ [b])))))"

lemma searching_states: "searching tools [CALL_OPEN] Content" "searching tools close_markers (ParameterValue t q u)"
proof -
  have none: "position (last_angle (v @ [b])) ps = None" if "last_angle (v @ [b]) \<notin> set ps" for v b ps
    using that position_None_iff by metis
  show "searching tools [CALL_OPEN] Content" unfolding searching_def
  proof (intro allI impI)
    fix v b assume "last_angle (v @ [b]) \<notin> set [CALL_OPEN]"
    from none [OF this] show "advance_byte (compiled_spec_new tools) b (Content (live_marker [CALL_OPEN] (last_angle v))) =
        (Some True, Content (live_marker [CALL_OPEN] (last_angle (v @ [b]))))"
      using advance_marker_angle [OF marker_words(1), of v b] by (simp del: position.simps)
  qed
  show "searching tools close_markers (ParameterValue t q u)" unfolding searching_def
  proof (intro allI impI)
    fix v b assume "last_angle (v @ [b]) \<notin> set close_markers"
    from none [OF this]
    show "advance_byte (compiled_spec_new tools) b (ParameterValue t q u (live_marker close_markers (last_angle v))) =
        (Some True, ParameterValue t q u (live_marker close_markers (last_angle (v @ [b]))))"
      using advance_marker_angle [OF marker_words(2), of v b] by (simp del: position.simps)
  qed
qed

lemma runs_searching:
  assumes st: "searching tools ps st"
  shows "(\<And>p b. prefix (p @ [b]) w \<Longrightarrow> last_angle (v @ p @ [b]) \<notin> set ps) \<Longrightarrow>
    runs tools w (st (live_marker ps (last_angle v))) (st (live_marker ps (last_angle (v @ w))))"
proof (induction w arbitrary: v)
  case (Cons b w)
  have "last_angle (v @ [b]) \<notin> set ps" using Cons.prems [of "[]" b] by simp
  then have "advance_byte (compiled_spec_new tools) b (st (live_marker ps (last_angle v))) = (Some True, st (live_marker ps (last_angle (v @ [b]))))"
    using st by (simp add: searching_def)
  moreover have "runs tools w (st (live_marker ps (last_angle (v @ [b])))) (st (live_marker ps (last_angle ((v @ [b]) @ w))))"
  proof (rule Cons.IH)
    fix p c assume "prefix (p @ [c]) w"
    then show "last_angle ((v @ [b]) @ p @ [c]) \<notin> set ps" using Cons.prems [of "b # p" c] by simp
  qed
  ultimately show ?case by simp
qed simp

text \<open>A text free of markers, then all but the last byte of a marker.\<close>

lemma runs_marker_text:
  assumes st: "searching tools ps st" and ps: "angle_words ps" and free: "free_of ps w" and p: "p \<in> set ps"
    and alone: "\<forall>p'\<in>set ps. \<not> strict_prefix p' p"
  shows "runs tools (w @ butlast p) (st []) (st (live_marker ps (last_angle (w @ butlast p))))"
proof -
  obtain c q where eq: "p = CHR ''<'' # c # q" and q: "CHR ''<'' \<notin> set (c # q)"
    using angle_word_cases [of p] ps p by (auto simp: angle_words_def list_all_iff)
  have "last_angle ([] @ pre @ [b]) \<notin> set ps" if pre: "prefix (pre @ [b]) (w @ butlast p)" for pre b
  proof (cases "prefix (pre @ [b]) w")
    case True
    then have "free_of ps (pre @ [b])" using free free_of_prefix by (auto simp: prefix_def)
    then show ?thesis using no_marker_position [OF ps] by simp
  next
    case False
    then obtain z where z: "pre @ [b] = w @ z" "z \<noteq> []" "prefix z (butlast p)"
      using pre by (auto simp: prefix_append)
    then obtain z' where z': "z = CHR ''<'' # z'" "prefix z' (butlast (c # q))" by (cases z) (auto simp: eq)
    have "CHR ''<'' \<notin> set z'" using q set_mono_prefix [OF z'(2)] in_set_butlastD [of _ "c # q"] by blast
    then have angle: "last_angle (pre @ [b]) = z" using z(1) z'(1) last_angle_append by simp
    have "prefix z p" using prefix_order.order_trans [OF z(3) prefixeq_butlast] .
    moreover have "length z < length p" using prefix_length_le [OF z(3)] by (simp add: eq split: if_splits)
    ultimately have "strict_prefix z p" by (auto simp: strict_prefix_def)
    then have "z \<notin> set ps" using alone by blast
    then show ?thesis using angle by simp
  qed
  then have "runs tools (w @ butlast p) (st (live_marker ps (last_angle []))) (st (live_marker ps (last_angle ([] @ w @ butlast p))))"
    by (intro runs_searching [OF st]) blast
  then show ?thesis by simp
qed


lemma last_angle_marker: "angle_word p \<Longrightarrow> last_angle (x @ p) = p"
  using suffix_iff_last_angle [of p "x @ p"] by (simp add: suffix_def)

lemma runs_snoc: "runs tools x st st1 \<Longrightarrow> advance_byte (compiled_spec_new tools) b st1 = (Some True, st2) \<Longrightarrow> runs tools (x @ [b]) st st2"
  by (simp add: advance_bytes_append)

text \<open>The last byte of the marker fires the search.\<close>

lemma runs_content:
  assumes "free_of [CALL_OPEN] c"
  shows "runs tools (c @ CALL_OPEN) (Content []) (BeforeFunction [])"
proof -
  let ?w = "c @ butlast CALL_OPEN"
  have run: "runs tools ?w (Content []) (Content (live_marker [CALL_OPEN] (last_angle ?w)))"
    by (rule runs_marker_text [OF searching_states(1) marker_words(1) assms]) simp_all
  have word: "c @ CALL_OPEN = ?w @ [last CALL_OPEN]" by (simp add: literal_defs)
  have "last_angle (?w @ [last CALL_OPEN]) = CALL_OPEN"
    unfolding word [symmetric] by (rule last_angle_marker) (simp add: angle_word_def literal_defs PREFIX_CAPACITY_def)
  then have "advance_byte (compiled_spec_new tools) (last CALL_OPEN) (Content (live_marker [CALL_OPEN] (last_angle ?w))) =
      (Some True, BeforeFunction [])"
    using advance_marker_angle [OF marker_words(1), of ?w "last CALL_OPEN"] by simp
  then show ?thesis unfolding word by (rule runs_snoc [OF run])
qed

lemma runs_value:
  assumes "free_of close_markers v"
  shows "runs tools (v @ PARAMETER_CLOSE) (ParameterValue t q u []) (BeforeParameter t (u OR push_bit q 1) [])"
proof -
  let ?w = "v @ butlast PARAMETER_CLOSE"
  have run: "runs tools ?w (ParameterValue t q u []) (ParameterValue t q u (live_marker close_markers (last_angle ?w)))"
    by (rule runs_marker_text [OF searching_states(2) marker_words(2) assms]) (simp_all add: literal_defs)
  have word: "v @ PARAMETER_CLOSE = ?w @ [last PARAMETER_CLOSE]" by (simp add: literal_defs)
  have "last_angle (?w @ [last PARAMETER_CLOSE]) = PARAMETER_CLOSE"
    unfolding word [symmetric] by (rule last_angle_marker) (simp add: angle_word_def literal_defs PREFIX_CAPACITY_def)
  then have "advance_byte (compiled_spec_new tools) (last PARAMETER_CLOSE) (ParameterValue t q u (live_marker close_markers (last_angle ?w))) =
      (Some True, BeforeParameter t (u OR push_bit q 1) [])"
    using advance_marker_angle [OF marker_words(2), of ?w "last PARAMETER_CLOSE"] by (simp add: push_bit_of_1)
  then show ?thesis unfolding word by (rule runs_snoc [OF run])
qed

section \<open>Runs over tags\<close>

lemma runs_whole_tag:
  assumes "\<And>p b. prefix (p @ [b]) w \<Longrightarrow> advance_byte (compiled_spec_new tools) b (st p) =
      (Some True, if p @ [b] = w then st' else st (p @ [b]))" and "w \<noteq> []"
  shows "runs tools w (st []) st'"
  using runs_tag [of w tools st st' "[]"] assms by (simp add: strict_prefix_def)

lemma runs_literal:
  "runs tools CALL_CLOSE (BeforeCallClose []) (AfterCall [])"
  "runs tools CALL_OPEN (AfterCall []) (BeforeFunction [])"
proof -
  have close: "advance_byte (compiled_spec_new tools) b (BeforeCallClose p) =
      (Some True, if p @ [b] = CALL_CLOSE then AfterCall [] else BeforeCallClose (p @ [b]))" if "prefix (p @ [b]) CALL_CLOSE" for p b
    using tag_step_common [OF plain_tags(4) that] that by auto
  show "runs tools CALL_CLOSE (BeforeCallClose []) (AfterCall [])"
    by (rule runs_whole_tag [OF close]) (simp_all add: literal_defs)
  have opn: "advance_byte (compiled_spec_new tools) b (AfterCall p) =
      (Some True, if p @ [b] = CALL_OPEN then BeforeFunction [] else AfterCall (p @ [b]))" if "prefix (p @ [b]) CALL_OPEN" for p b
    using tag_step_common [OF plain_tags(5) that] that by auto
  show "runs tools CALL_OPEN (AfterCall []) (BeforeFunction [])"
    by (rule runs_whole_tag [OF opn]) (simp_all add: literal_defs)
qed

lemma runs_function_close:
  assumes ok: "tools_ok tools" and t: "t < length tools" and u: "mask_is u U" and req: "required_set (tools ! t) \<subseteq> U"
  shows "runs tools FUNCTION_CLOSE (BeforeParameter t u []) (BeforeCallClose [])"
proof -
  have "advance_byte (compiled_spec_new tools) b (BeforeParameter t u p) =
      (Some True, if p @ [b] = FUNCTION_CLOSE then BeforeCallClose [] else BeforeParameter t u (p @ [b]))"
    if "prefix (p @ [b]) FUNCTION_CLOSE" for p b
    using tag_step_common [OF plain_tags(3) that] that t required_left_iff [OF tools_okD(2) [OF ok t] u] req
    by (auto simp: compiled_simps Let_def)
  then show ?thesis by (rule runs_whole_tag) (simp_all add: literal_defs)
qed

text \<open>An opening parameter tag competes with the closing function tag for its first byte only.\<close>

lemma runs_parameter_tag:
  assumes ok: "tools_ok tools" and t: "t < length tools" and u: "mask_is u U"
    and q: "q < length (tf_parameters (tools ! t))" "q \<notin> U"
  shows "runs tools (parameter_tag (tf_parameters (tools ! t) ! q)) (BeforeParameter t u []) (ParameterValue t q u [])"
proof -
  let ?ps = "tf_parameters (tools ! t)"
  let ?tag = "parameter_tag (?ps ! q)"
  have step: "advance_byte (compiled_spec_new tools) b (BeforeParameter t u p) =
      (Some True, if p @ [b] = ?tag then ParameterValue t q u [] else BeforeParameter t u (p @ [b]))"
    if pre: "prefix (p @ [b]) ?tag" for p b
  proof -
    note tag = tag_step_common [OF plain_tags(2) [OF conjunct1 [OF tools_okD(4) [OF ok t q(1)]]] pre]
    have sp: "compiled_spec_new tools ! t = compile_tool (tools ! t)" "\<not> length (compiled_spec_new tools) \<le> t"
      "ct_parameters (compile_tool (tools ! t)) = map parameter_tag ?ps" using t by (simp_all add: compiled_simps)
    have bits: "bit u k \<longleftrightarrow> k \<in> U" for k using u by (simp add: mask_is_def)
    have unique: "k = q" if k: "k < length ?ps" "parameter_tag (?ps ! k) = p @ [b]" for k
    proof -
      have "tp_name (?ps ! k) = tp_name (?ps ! q)"
        by (rule tags_apart [of _ _ "''<parameter=''"])
          (use tools_okD(4) [OF ok t] k q(1) pre in \<open>auto simp: parameter_tag_def\<close>)
      then show ?thesis using tools_okD(3) [OF ok t] k(1) q(1) by (simp add: distinct_conv_nth) metis
    qed
    obtain any r where scan: "scan_parameters u (p @ [b]) 0 False (map parameter_tag ?ps) = (any, r)" by fastforce
    have r: "r = (if p @ [b] = ?tag then Some q else None)"
    proof (cases r)
      case (Some k)
      then have "k < length ?ps" "parameter_tag (?ps ! k) = p @ [b]" using scan_parameters_Some [of u "p @ [b]" 0] scan by fastforce+
      then show ?thesis using Some unique by auto
    next
      case None
      then show ?thesis using scan_parameters_None [OF scan [unfolded None]] q bits by auto
    qed
    have any: "r = None \<Longrightarrow> any" using scan_parameters_None [of u "p @ [b]" 0] scan q bits pre by fastforce
    have apart: "\<not> (prefix (p @ [b]) FUNCTION_CLOSE \<and> p @ [b] = ?tag)" by (auto simp: parameter_tag_def literal_defs)
    have short: "p @ [b] \<noteq> FUNCTION_CLOSE" using pre by (auto simp: parameter_tag_def literal_defs)
    show ?thesis using tag sp scan r any apart short by (cases r) (auto simp: Let_def)
  qed
  show ?thesis by (rule runs_whole_tag [OF step]) (simp_all add: parameter_tag_def)
qed

section \<open>The grammar is accepted\<close>

definition starts :: "tool_function list \<Rightarrow> string \<Rightarrow> protocol_state \<Rightarrow> bool" where
  "starts tools x st \<longleftrightarrow> runs tools x tool_call_state_default st"

lemma starts_append: "starts tools x st \<Longrightarrow> runs tools y st st' \<Longrightarrow> starts tools (x @ y) st'"
  unfolding starts_def by (rule runs_append)

lemma grammar_runs:
  assumes ok: "tools_ok tools"
  shows "opened tools x \<Longrightarrow> starts tools x (BeforeFunction [])"
    and "bound tools t U x \<Longrightarrow> t < length tools \<and> U \<subseteq> {..<length (tf_parameters (tools ! t))} \<and>
      (\<exists>u. mask_is u U \<and> starts tools x (BeforeParameter t u []))"
    and "closing tools x \<Longrightarrow> starts tools x (BeforeCallClose [])"
    and "closed tools x \<Longrightarrow> starts tools x (AfterCall [])"
proof (induction rule: opened_bound_closing_closed.inducts)
  case (opened_first c)
  then show ?case by (simp add: starts_def tool_call_state_default_def runs_content)
next
  case (opened_next x ws)
  then show ?case by (intro starts_append [OF \<open>starts tools x (AfterCall [])\<close>] runs_append [OF runs_blank(4)] runs_literal)
next
  case (bound_function x ws t)
  have "runs tools (function_tag (tools ! t)) (BeforeFunction []) (BeforeParameter t 0 [])"
    using runs_function_tag [OF ok \<open>t < length tools\<close>, of "[]"] by (simp add: function_tag_def)
  then have "starts tools (x @ ws @ function_tag (tools ! t)) (BeforeParameter t 0 [])"
    using bound_function by (intro starts_append [OF \<open>starts tools x (BeforeFunction [])\<close>] runs_append [OF runs_blank(1)]) simp_all
  then show ?case using mask_empty \<open>t < length tools\<close> by auto
next
  case (bound_parameter t U x ws p v)
  then obtain u where t: "t < length tools" and u: "mask_is u U" "starts tools x (BeforeParameter t u [])" by auto
  have "runs tools (ws @ parameter_tag (tf_parameters (tools ! t) ! p) @ v @ PARAMETER_CLOSE) (BeforeParameter t u [])
      (BeforeParameter t (u OR push_bit p 1) [])"
    by (intro runs_append [OF runs_blank(2)] runs_append [OF runs_parameter_tag [OF ok t u(1)]] runs_value bound_parameter)
  then have "starts tools (x @ ws @ parameter_tag (tf_parameters (tools ! t) ! p) @ v @ PARAMETER_CLOSE)
      (BeforeParameter t (u OR push_bit p 1) [])" by (rule starts_append [OF u(2)])
  moreover have "mask_is (u OR push_bit p 1) (insert p U)"
    using mask_insert [OF u(1)] tools_okD(4) [OF ok t \<open>p < length (tf_parameters (tools ! t))\<close>] by blast
  ultimately show ?case using bound_parameter t by auto
next
  case (closing_function t U x ws)
  then obtain u where t: "t < length tools" and u: "mask_is u U" "starts tools x (BeforeParameter t u [])" by auto
  then show ?case using closing_function by (intro starts_append [OF u(2)] runs_append [OF runs_blank(2)] runs_function_close [OF ok t u(1)])
next
  case (closed_call x ws)
  then show ?case by (intro starts_append [OF \<open>starts tools x (BeforeCallClose [])\<close>] runs_append [OF runs_blank(3)] runs_literal)
qed

section \<open>Acceptance\<close>

lemma bytes_never_panic:
  assumes ok: "tools_ok tools"
  shows "describes tools x st \<Longrightarrow> fst (advance_bytes (compiled_spec_new tools) bytes st) \<noteq> Inl FrontendPanicked"
proof (induction bytes arbitrary: x st)
  case (Cons b bytes)
  obtain res st1 where run: "advance_byte (compiled_spec_new tools) b st = (res, st1)" by fastforce
  then show ?case
    using describes_step [OF ok Cons.prems, of b] Cons.IH [of "x @ [b]" st1]
    by (auto simp: step_sound_def simp del: describes.simps split: option.splits bool.splits)
qed simp

lemma after_call_iff:
  assumes ok: "tools_ok tools"
  shows "runs tools x tool_call_state_default (AfterCall []) \<longleftrightarrow> (\<exists>y ws. closed tools y \<and> blank ws \<and> x = y @ ws)"
proof
  assume "runs tools x tool_call_state_default (AfterCall [])"
  then have "describes tools ([] @ x) (AfterCall [])" by (rule describes_run [OF ok describes_start])
  then show "\<exists>y ws. closed tools y \<and> blank ws \<and> x = y @ ws" by auto
next
  assume "\<exists>y ws. closed tools y \<and> blank ws \<and> x = y @ ws"
  then obtain y ws where y: "closed tools y" "blank ws" "x = y @ ws" by auto
  show "runs tools x tool_call_state_default (AfterCall [])"
    unfolding y(3) using grammar_runs(4) [OF ok y(1)] runs_blank(4) [OF y(2)] runs_append by (auto simp: starts_def)
qed

end
