(* ===== verification/ToolProperties.thy ===== *)
theory ToolProperties
  imports ToolLanguage
begin

text \<open>
  The claims about the tool-call constraint: the automaton accepts exactly the grammar, generation inside a
  call can always be completed, and the token-level operations keep both.
\<close>

section \<open>Acceptance\<close>

text \<open>C15: The automaton accepts the call grammar. For a tool inventory that the checked constructors
  admit, the byte automaton never reaches an index panic, and it stands between calls after a text
  exactly when that text is a sequence of complete calls: content without an opening marker, then calls
  in which a declared function is named, each declared parameter is given at most once, all required
  ones are given, and no value contains a closing marker, with whitespace only between tags.\<close>

theorem tool_automaton_accepts_grammar:
  assumes "tools_admitted tools"
  shows "fst (advance_bytes (compiled_spec_new tools) x tool_call_state_default) \<noteq> Inl FrontendPanicked \<and>
    (advance_bytes (compiled_spec_new tools) x tool_call_state_default = (Inr (), AfterCall []) \<longleftrightarrow>
      (\<exists>y ws. closed tools y \<and> blank ws \<and> x = y @ ws))"
  using bytes_never_panic [OF tools_admitted_ok [OF assms] describes_start] after_call_iff [OF tools_admitted_ok [OF assms]]
  by blast

definition sample_tools :: "tool_function list" where
  "sample_tools = [\<lparr>tf_name = ''get'', tf_parameters = [\<lparr>tp_name = ''q'', tp_required = True\<rparr>, \<lparr>tp_name = ''n'', tp_required = False\<rparr>]\<rparr>,
    \<lparr>tf_name = ''stop'', tf_parameters = []\<rparr>]"

lemma sample_tools_admitted: "tools_admitted sample_tools"
  by code_simp

definition sample_call :: string where
  "sample_call = ''ok<tool_call> <function=get><parameter=q>a<b</parameter></function></tool_call>''"

lemma sample_call_runs: "advance_bytes (compiled_spec_new sample_tools) sample_call tool_call_state_default = (Inr (), AfterCall [])"
  by code_simp

theorem tool_automaton_accepts_grammar_witness:
  "\<exists>y ws. closed sample_tools y \<and> blank ws \<and> sample_call = y @ ws"
  using tool_automaton_accepts_grammar [OF sample_tools_admitted, of sample_call] sample_call_runs by blast

section \<open>Completion\<close>

lemma function_closes_blank:
  assumes t: "t < length tools"
  shows "bound tools t U x \<Longrightarrow> blank ws \<Longrightarrow> \<exists>y. closed tools (x @ ws @ y)"
proof (induction "card (required_set (tools ! t) - U)" arbitrary: U x ws)
  case 0
  have "finite (required_set (tools ! t))" by (simp add: required_set_def)
  then have "required_set (tools ! t) \<subseteq> U" using 0 by auto
  then have "closed tools ((x @ ws @ FUNCTION_CLOSE) @ [] @ CALL_CLOSE)" using 0 by (intro closed_call closing_function) auto
  then show ?case by auto
next
  case (Suc n)
  have fin: "finite (required_set (tools ! t))" by (simp add: required_set_def)
  have "required_set (tools ! t) - U \<noteq> {}" using Suc.hyps(2) by (intro notI) simp
  then obtain p where p: "p \<in> required_set (tools ! t)" "p \<notin> U" by auto
  let ?x = "x @ ws @ parameter_tag (tf_parameters (tools ! t) ! p) @ [] @ PARAMETER_CLOSE"
  have "bound tools t (insert p U) ?x"
    using Suc.prems p by (intro bound_parameter) (auto simp: required_set_def free_of_def literal_defs)
  moreover have "required_set (tools ! t) - insert p U = (required_set (tools ! t) - U) - {p}" by auto
  then have "n = card (required_set (tools ! t) - insert p U)" using Suc.hyps(2) p fin by simp
  ultimately obtain y where "closed tools (?x @ [] @ y)" using Suc.hyps(1) blank_Nil by blast
  then show ?case by auto
qed

lemma function_closes: "t < length tools \<Longrightarrow> bound tools t U x \<Longrightarrow> \<exists>y. closed tools (x @ y)"
  using function_closes_blank [of t tools U x "[]"] by simp

lemma call_completes: "tools_ok tools \<Longrightarrow> opened tools x \<Longrightarrow> \<exists>y. closed tools (x @ y)"
proof -
  assume ok: "tools_ok tools" and x: "opened tools x"
  have t: "0 < length tools" using ok by (simp add: tools_ok_def)
  have "bound tools 0 {} (x @ [] @ function_tag (tools ! 0))" by (rule bound_function [OF x _ t]) simp
  then obtain y where "closed tools ((x @ [] @ function_tag (tools ! 0)) @ y)" using function_closes [OF t] by blast
  then show ?thesis by (metis append.assoc)
qed

lemma completes:
  assumes ok: "tools_ok tools" and d: "describes tools x st"
  shows "\<exists>y. closed tools (x @ y)"
proof (cases st)
  case (Content m)
  then have "opened tools (x @ CALL_OPEN)" using d by (simp add: opened_first)
  then show ?thesis using call_completes [OF ok] by (metis append.assoc)
next
  case (BeforeFunction pre)
  then obtain y ws where y: "opened tools y" "blank ws" "x = y @ ws @ pre"
    and pre: "pre = [] \<or> (\<exists>tool\<in>set tools. strict_prefix pre (function_tag tool))" using d by auto
  have "\<exists>t z. t < length tools \<and> function_tag (tools ! t) = pre @ z"
  proof (cases "pre = []")
    case True
    then show ?thesis using ok by (auto simp: tools_ok_def)
  next
    case False
    then obtain tool where "tool \<in> set tools" "prefix pre (function_tag tool)" using pre by (auto simp: strict_prefix_def)
    then show ?thesis by (auto simp: in_set_conv_nth prefix_def)
  qed
  then obtain t z where t: "t < length tools" "function_tag (tools ! t) = pre @ z" by auto
  have "bound tools t {} (x @ z)" using bound_function [OF y(1,2) t(1)] y(3) t(2) by simp
  then show ?thesis using function_closes [OF t(1)] by (metis append.assoc)
next
  case (BeforeParameter t u pre)
  then obtain y ws U where y: "bound tools t U y" "blank ws" "x = y @ ws @ pre" and t: "t < length tools"
    and pre: "pre = [] \<or> (required_set (tools ! t) \<subseteq> U \<and> strict_prefix pre FUNCTION_CLOSE) \<or>
      (\<exists>q<length (tf_parameters (tools ! t)). q \<notin> U \<and> strict_prefix pre (parameter_tag (tf_parameters (tools ! t) ! q)))"
    using d by auto
  from pre consider "pre = []" | "required_set (tools ! t) \<subseteq> U" "strict_prefix pre FUNCTION_CLOSE"
    | q where "q < length (tf_parameters (tools ! t))" "q \<notin> U" "strict_prefix pre (parameter_tag (tf_parameters (tools ! t) ! q))"
    by blast
  then show ?thesis
  proof cases
    case 1
    then show ?thesis using function_closes_blank [OF t y(1,2)] y(3) by simp
  next
    case 2
    then obtain z where z: "FUNCTION_CLOSE = pre @ z" by (auto simp: strict_prefix_def prefix_def)
    have "closing tools (x @ z)" using closing_function [OF y(1,2) 2(1)] y(3) z by simp
    then have "closed tools ((x @ z) @ [] @ CALL_CLOSE)" by (rule closed_call) simp
    then show ?thesis by (metis append.assoc)
  next
    case (3 q)
    then obtain z where z: "parameter_tag (tf_parameters (tools ! t) ! q) = pre @ z" by (auto simp: strict_prefix_def prefix_def)
    have "bound tools t (insert q U) (x @ z @ PARAMETER_CLOSE)"
      using bound_parameter [OF y(1,2) 3(1,2), of "[]"] y(3) z by (simp add: free_of_def literal_defs)
    then show ?thesis using function_closes [OF t] by (metis append.assoc)
  qed
next
  case (ParameterValue t q u m)
  then obtain y ws U v where y: "bound tools t U y" "blank ws" "q < length (tf_parameters (tools ! t))" "q \<notin> U"
    "x = y @ ws @ parameter_tag (tf_parameters (tools ! t) ! q) @ v" "free_of close_markers v" and t: "t < length tools" using d by auto
  have "bound tools t (insert q U) (x @ PARAMETER_CLOSE)" using bound_parameter [OF y(1-4,6)] y(5) by simp
  then show ?thesis using function_closes [OF t] by (metis append.assoc)
next
  case (BeforeCallClose pre)
  then obtain y ws where y: "closing tools y" "blank ws" "x = y @ ws @ pre" "pre = [] \<or> strict_prefix pre CALL_CLOSE" using d by auto
  from y(4) obtain z where z: "CALL_CLOSE = pre @ z" by (auto simp: strict_prefix_def prefix_def)
  have "closed tools (x @ z)" using closed_call [OF y(1,2)] y(3) z by simp
  then show ?thesis by auto
next
  case (AfterCall pre)
  then obtain y ws where y: "closed tools y" "blank ws" "x = y @ ws @ pre" "pre = [] \<or> strict_prefix pre CALL_OPEN" using d by auto
  from y(4) obtain z where z: "CALL_OPEN = pre @ z" by (auto simp: strict_prefix_def prefix_def)
  have "opened tools (x @ z)" using opened_next [OF y(1,2)] y(3) z by simp
  then show ?thesis using call_completes [OF ok] by (metis append.assoc)
next
  case UnreachableAfterStop
  then show ?thesis using d by simp
qed

text \<open>C19: Generation is never trapped. After every text the automaton has accepted there is a
  continuation that it also accepts and that closes the open call, whatever partial tag, value or set of
  given parameters the text ends in.\<close>

theorem tool_call_always_closable:
  assumes "tools_admitted tools"
    and "advance_bytes (compiled_spec_new tools) x tool_call_state_default = (Inr (), st)"
  shows "\<exists>more. advance_bytes (compiled_spec_new tools) more st = (Inr (), AfterCall [])"
proof -
  have ok: "tools_ok tools" by (rule tools_admitted_ok [OF assms(1)])
  have "describes tools ([] @ x) st" by (rule describes_run [OF ok describes_start assms(2)])
  then obtain more where "closed tools (x @ more)" using completes [OF ok] by auto
  then have "starts tools (x @ more) (AfterCall [])" by (rule grammar_runs(4) [OF ok])
  then show ?thesis using assms(2) by (auto simp: starts_def advance_bytes_append)
qed

lemma sample_open: "advance_bytes (compiled_spec_new sample_tools) ''<tool_call><function=get><par'' tool_call_state_default =
    (Inr (), BeforeParameter 0 0 ''<par'')"
  by code_simp

theorem tool_call_always_closable_witness:
  "\<exists>more. advance_bytes (compiled_spec_new sample_tools) more (BeforeParameter 0 0 ''<par'') = (Inr (), AfterCall [])"
  by (rule tool_call_always_closable [OF sample_tools_admitted sample_open])

end
