(* ===== verification/ToolTokens.thy ===== *)
theory ToolTokens
  imports ToolProperties
begin

text \<open>
  The token level of the tool-call constraint: the token byte inventory, committing and provisional tokens,
  and what a committed token sequence guarantees about the text it spells.
\<close>

section \<open>Token inventory\<close>

lemma token_characters_Inr:
  "token_characters bt cs bytes = Inr out \<longleftrightarrow> list_all (\<lambda>c. bt c \<noteq> None) cs \<and> out = bytes @ map (the \<circ> bt) cs"
  by (induction bt cs bytes rule: token_characters.induct) (auto split: option.splits)

definition entry_bytes :: "token_inventory \<Rightarrow> nat \<times> nat \<Rightarrow> string option" where
  "entry_bytes ti e = (if snd e = U16_MAX then None else Some (take (snd e) (drop (fst e) (ti_bytes ti))))"

lemma inventory_bytes_entry:
  "inventory_bytes ti k = (if k < length (ti_entries ti) then entry_bytes ti (ti_entries ti ! k) else None)"
  by (auto simp: inventory_bytes_def entry_bytes_def split: prod.split)

text \<open>The bytes a token stands for.\<close>

definition token_meaning :: "(nat \<Rightarrow> bool) \<Rightarrow> (nat \<Rightarrow> nat list option) \<Rightarrow> (nat \<Rightarrow> char option) \<Rightarrow> nat \<Rightarrow> string option" where
  "token_meaning special id_to_token byte_table k =
    (if special k then None else map_option (map (the \<circ> byte_table)) (id_to_token k))"

definition inventory_valid :: "token_inventory \<Rightarrow> bool" where
  "inventory_valid ti \<longleftrightarrow> (\<forall>e\<in>set (ti_entries ti). snd e = U16_MAX \<or> fst e + snd e \<le> length (ti_bytes ti))"

lemma entry_bytes_append:
  "snd e = U16_MAX \<or> fst e + snd e \<le> length (ti_bytes ti) \<Longrightarrow>
    entry_bytes \<lparr>ti_entries = es, ti_bytes = ti_bytes ti @ extra\<rparr> e = entry_bytes ti e"
  by (auto simp: entry_bytes_def)

lemma inventory_loop_entries:
  "inventory_loop special id_to_token bt ids ti = Inr ti' \<Longrightarrow> inventory_valid ti \<Longrightarrow>
    map (entry_bytes ti') (ti_entries ti') = map (entry_bytes ti) (ti_entries ti) @ map (token_meaning special id_to_token bt) ids"
proof (induction special id_to_token bt ids ti rule: inventory_loop.induct)
  case (2 special id_to_token bt k ids ti)
  show ?case
  proof (cases "special k")
    case True
    let ?ti = "ti\<lparr>ti_entries := ti_entries ti @ [(0, U16_MAX)]\<rparr>"
    have "inventory_valid ?ti" using 2(4) by (auto simp: inventory_valid_def)
    moreover have "inventory_loop special id_to_token bt ids ?ti = Inr ti'" using 2(3) True by (simp split: if_splits)
    ultimately have "map (entry_bytes ti') (ti_entries ti') = map (entry_bytes ?ti) (ti_entries ?ti) @ map (token_meaning special id_to_token bt) ids"
      using 2(1) 2(3) True by (simp split: if_splits)
    moreover have "entry_bytes ?ti = entry_bytes ti" by (simp add: entry_bytes_def fun_eq_iff)
    moreover have "token_meaning special id_to_token bt k = None" "entry_bytes ti (0, U16_MAX) = None"
      using True by (simp_all add: token_meaning_def entry_bytes_def)
    ultimately show ?thesis by simp
  next
    case False
    obtain token where tok: "id_to_token k = Some token" using 2(3) False by (auto split: if_splits option.splits)
    let ?new = "map (the \<circ> bt) token"
    let ?ti = "\<lparr>ti_entries = ti_entries ti @ [(length (ti_bytes ti), length ?new)], ti_bytes = ti_bytes ti @ ?new\<rparr>"
    obtain bytes where bytes: "token_characters bt token (ti_bytes ti) = Inr bytes"
      using 2(3) False tok by (auto simp: Let_def split: if_splits sum.splits)
    then have eq: "bytes = ti_bytes ti @ ?new" by (simp add: token_characters_Inr)
    have run: "inventory_loop special id_to_token bt ids ?ti = Inr ti'" and len: "length ?new < U16_MAX"
      using 2(3) False tok bytes eq by (auto simp: Let_def split: if_splits)
    have small: "\<not> U32_BOUND \<le> k" "\<not> U32_BOUND \<le> length (ti_bytes ti)"
      using 2(3) False tok by (auto simp: Let_def split: if_splits)
    have valid: "inventory_valid ?ti" using 2(4) by (auto simp: inventory_valid_def)
    have "map (entry_bytes ti') (ti_entries ti') = map (entry_bytes ?ti) (ti_entries ?ti) @ map (token_meaning special id_to_token bt) ids"
      using 2(2) [OF small(1) False tok refl small(2) bytes refl] run valid len by (simp add: eq)
    moreover have "map (entry_bytes ?ti) (ti_entries ti) = map (entry_bytes ti) (ti_entries ti)"
      using 2(4) by (auto simp: inventory_valid_def intro!: entry_bytes_append)
    moreover have "entry_bytes ?ti (length (ti_bytes ti), length ?new) = token_meaning special id_to_token bt k"
      using False tok len by (simp add: entry_bytes_def token_meaning_def)
    ultimately show ?thesis by simp
  qed
qed simp

lemma inventory_lookup:
  assumes "inventory_build vocabulary special id_to_token byte_table = Inr ti"
  shows "inventory_bytes ti k = (if k < vocabulary then token_meaning special id_to_token byte_table k else None)"
proof -
  have "map (entry_bytes ti) (ti_entries ti) = map (token_meaning special id_to_token byte_table) [0..<vocabulary]"
    using inventory_loop_entries [OF assms [unfolded inventory_build_def]] by (simp add: inventory_valid_def)
  moreover from this have "length (ti_entries ti) = vocabulary" by (metis length_map length_upt minus_nat.diff_0)
  ultimately show ?thesis
    by (simp add: inventory_bytes_entry) (metis diff_zero length_map length_upt nth_map nth_upt plus_nat.add_0)
qed

lemma inventory_loop_known:
  "inventory_loop special id_to_token bt ids ti = Inr ti' \<Longrightarrow> \<forall>k\<in>set ids. special k \<or> id_to_token k \<noteq> None"
  by (induction special id_to_token bt ids ti rule: inventory_loop.induct) (auto simp: Let_def split: if_splits option.splits sum.splits)

lemma inventory_known:
  "inventory_build vocabulary special id_to_token bt = Inr ti \<Longrightarrow> k < vocabulary \<Longrightarrow> special k \<or> id_to_token k \<noteq> None"
  unfolding inventory_build_def by (drule inventory_loop_known) simp

text \<open>C23: The token inventory decodes what it encodes. When \<open>TokenByteInventory::build\<close> succeeds, looking a
  token up returns exactly the bytes its characters map to, and nothing for a special token or an id past
  the vocabulary; the packed offset and length of one token never leak bytes of another.\<close>

theorem inventory_round_trip:
  assumes "inventory_build vocabulary special id_to_token byte_table = Inr ti"
  shows "inventory_bytes ti k = (if k < vocabulary then token_meaning special id_to_token byte_table k else None)"
  by (rule inventory_lookup [OF assms])

text \<open>A vocabulary of a few tokens, with one special token, over the identity byte table.\<close>

definition sample_words :: "string list" where
  "sample_words = [''<tool_call>'', ''<function='', ''stop>'', ''</function>'', ''</tool_call>'', ''hi'', ''<eos>'']"

definition sample_tokens :: "nat \<Rightarrow> nat list option" where
  "sample_tokens k = (if k < 7 then Some (map of_char (sample_words ! k)) else None)"

definition sample_table :: "nat \<Rightarrow> char option" where
  "sample_table c = (if c < 256 then Some (char_of c) else None)"

definition sample_inventory :: token_inventory where
  "sample_inventory = \<lparr>ti_entries = [(0, 11), (11, 10), (21, 5), (26, 11), (37, 12), (49, 2), (0, 65535)],
    ti_bytes = ''<tool_call><function=stop></function></tool_call>hi''\<rparr>"

lemma sample_inventory_built: "inventory_build 7 (\<lambda>k. k = 6) sample_tokens sample_table = Inr sample_inventory"
  by code_simp

theorem inventory_round_trip_witness:
  "inventory_bytes sample_inventory 5 = Some ''hi'' \<and> inventory_bytes sample_inventory 6 = None"
  using inventory_round_trip [OF sample_inventory_built, of 5] inventory_round_trip [OF sample_inventory_built, of 6]
  by (simp add: token_meaning_def sample_tokens_def sample_words_def sample_table_def) code_simp

section \<open>Committing tokens\<close>

text \<open>One \<open>commit_token\<close> after another, as generation calls it.\<close>

fun commit_tokens :: "nat list \<Rightarrow> tool_constraint \<Rightarrow> tool_constraint frontend_result" where
  "commit_tokens [] tc = Inr tc"
| "commit_tokens (token # tokens) tc =
    (case commit_token token tc of (Inl e, _) \<Rightarrow> Inl e | (Inr _, tc) \<Rightarrow> commit_tokens tokens tc)"

text \<open>The transitions read the inventory, the stop ids and the compiled tags only.\<close>

lemma advance_token_committed [simp]: "advance_token (tc\<lparr>tc_committed := s\<rparr>) = advance_token tc"
  by (simp add: advance_token_def fun_eq_iff cong: option.case_cong)

lemma advance_tokens_committed [simp]: "advance_tokens (tc\<lparr>tc_committed := s\<rparr>) tokens st = advance_tokens tc tokens st"
  by (induction tokens arbitrary: st) (simp_all split: prod.split sum.split)

lemma commit_tokens_advance:
  "commit_tokens tokens tc = map_sum (\<lambda>e. e) (\<lambda>st. tc\<lparr>tc_committed := st\<rparr>) (advance_tokens tc tokens (tc_committed tc))"
  by (induction tokens arbitrary: tc) (auto simp: commit_token_def split: prod.split sum.split)

lemma advance_tokens_append:
  "advance_tokens tc (xs @ ys) st = (case advance_tokens tc xs st of Inl e \<Rightarrow> Inl e | Inr st \<Rightarrow> advance_tokens tc ys st)"
  by (induction xs arbitrary: st) (auto split: prod.split sum.split)

text \<open>Draft tokens are judged as if they had been committed. \<open>provisional_state\<close> over a draft succeeds
  exactly when committing its tokens one after another does, with the same error otherwise, and gives the
  state they commit; \<open>allows_token\<close> then admits exactly the tokens that extend the draft; and a refused
  \<open>commit_token\<close> leaves the constraint as it was.\<close>

theorem provisional_equals_committed:
  "commit_tokens draft tc = map_sum (\<lambda>e. e) (\<lambda>st. tc\<lparr>tc_committed := st\<rparr>) (provisional_state tc draft) \<and>
   (\<forall>st. provisional_state tc draft = Inr st \<longrightarrow> allows_token tc st token = is_ok (commit_tokens (draft @ [token]) tc)) \<and>
   (\<forall>e. fst (commit_token token tc) = Inl e \<longrightarrow> snd (commit_token token tc) = tc)"
  by (auto simp: commit_tokens_advance provisional_state_def advance_tokens_append allows_token_def commit_token_def is_ok_def
      split: prod.split sum.split)

definition sample_constraint :: tool_constraint where
  "sample_constraint = constraint_new sample_inventory [6] [\<lparr>tf_name = ''stop'', tf_parameters = []\<rparr>]"

lemma sample_draft: "provisional_state sample_constraint [5, 0, 1] = Inr (BeforeFunction ''<function='')"
  "fst (commit_token 3 sample_constraint) = Inr ()" "is_ok (commit_tokens [5, 0, 1, 2] sample_constraint)"
  by code_simp+

theorem provisional_equals_committed_witness:
  "allows_token sample_constraint (BeforeFunction ''<function='') 2 \<and> is_ok (commit_tokens [5, 0, 1] sample_constraint)"
  using provisional_equals_committed [of "[5, 0, 1]" sample_constraint 2] sample_draft by (simp add: is_ok_def)

section \<open>The text of a committed generation\<close>

definition token_text :: "token_inventory \<Rightarrow> nat list \<Rightarrow> string" where
  "token_text ti tokens = concat (map (\<lambda>k. case inventory_bytes ti k of None \<Rightarrow> [] | Some b \<Rightarrow> b) tokens)"

lemma token_text_simps [simp]:
  "token_text ti [] = []" "token_text ti (k # ks) = (case inventory_bytes ti k of None \<Rightarrow> [] | Some b \<Rightarrow> b) @ token_text ti ks"
  by (simp_all add: token_text_def)

lemma runs_not_stopped: "tools_ok tools \<Longrightarrow> runs tools x tool_call_state_default st \<Longrightarrow> st \<noteq> UnreachableAfterStop"
  using describes_run [OF _ describes_start, of tools x st] by auto

lemma advance_tokens_runs:
  assumes ok: "tools_ok tools" and tc: "tc_compiled tc = compiled_spec_new tools"
  shows "set ts \<inter> set (tc_stop_ids tc) = {} \<Longrightarrow> runs tools x tool_call_state_default st \<Longrightarrow>
    advance_tokens tc ts st = Inr st' \<Longrightarrow> runs tools (x @ token_text (tc_tokens tc) ts) tool_call_state_default st'"
proof (induction ts arbitrary: x st)
  case (Cons k ts)
  obtain st1 where step: "advance_token tc st k = (Inr (), st1)" and rest: "advance_tokens tc ts st1 = Inr st'"
    using Cons.prems(3) by (auto split: prod.splits sum.splits)
  have "runs tools (case inventory_bytes (tc_tokens tc) k of None \<Rightarrow> [] | Some b \<Rightarrow> b) st st1"
    using step Cons.prems(1) runs_not_stopped [OF ok Cons.prems(2)] tc
    by (auto simp: advance_token_def split: option.splits protocol_state.splits)
  then have "runs tools (x @ (case inventory_bytes (tc_tokens tc) k of None \<Rightarrow> [] | Some b \<Rightarrow> b)) tool_call_state_default st1"
    by (rule runs_append [OF Cons.prems(2)])
  then show ?case using Cons.IH [OF _ _ rest] Cons.prems(1) by fastforce
qed simp

definition well_formed_text :: "tool_function list \<Rightarrow> string \<Rightarrow> bool" where
  "well_formed_text tools x \<longleftrightarrow> free_of [CALL_OPEN] x \<or>
    (\<exists>y ws pre. closed tools y \<and> blank ws \<and> x = y @ ws @ pre \<and> strict_prefix pre CALL_OPEN)"

lemma runs_next_open: "strict_prefix pre CALL_OPEN \<Longrightarrow> runs tools pre (AfterCall []) (AfterCall pre)"
proof (induction pre rule: rev_induct)
  case (snoc b pre)
  have pre: "prefix (pre @ [b]) CALL_OPEN" "pre @ [b] \<noteq> CALL_OPEN" using snoc.prems by (simp_all add: strict_prefix_def)
  have "advance_byte (compiled_spec_new tools) b (AfterCall pre) = (Some True, AfterCall (pre @ [b]))"
    using tag_step_common [OF plain_tags(5) pre(1)] pre by auto
  moreover have "runs tools pre (AfterCall []) (AfterCall pre)" using snoc.IH prefix_snoc_cases [OF pre(1)] by blast
  ultimately show ?case by (intro runs_snoc)
qed simp

lemma well_formed_iff:
  assumes ok: "tools_ok tools" and run: "runs tools x tool_call_state_default st"
  shows "well_formed_text tools x \<longleftrightarrow> (\<exists>m. st = Content m) \<or> (\<exists>pre. st = AfterCall pre)"
proof
  assume st: "(\<exists>m. st = Content m) \<or> (\<exists>pre. st = AfterCall pre)"
  have d: "describes tools x st" using describes_run [OF ok describes_start run] by simp
  show "well_formed_text tools x"
  proof (cases st)
    case (AfterCall pre)
    then obtain y ws where "closed tools y" "blank ws" "x = y @ ws @ pre" "pre = [] \<or> strict_prefix pre CALL_OPEN" using d by auto
    moreover have "strict_prefix [] CALL_OPEN" by (simp add: literal_defs)
    ultimately show ?thesis unfolding well_formed_text_def by blast
  qed (use st d in \<open>simp_all add: well_formed_text_def\<close>)
next
  assume "well_formed_text tools x"
  then consider "free_of [CALL_OPEN] x"
    | y ws pre where "closed tools y" "blank ws" "x = y @ ws @ pre" "strict_prefix pre CALL_OPEN"
    unfolding well_formed_text_def by blast
  then show "(\<exists>m. st = Content m) \<or> (\<exists>pre. st = AfterCall pre)"
  proof cases
    case 1
    have "last_angle ([] @ p @ [b]) \<notin> set [CALL_OPEN]" if "prefix (p @ [b]) x" for p b
      using no_marker_position [OF marker_words(1), of "p @ [b]"] free_of_prefix 1 that by (auto simp: prefix_def)
    then have "runs tools x (Content (live_marker [CALL_OPEN] (last_angle []))) (Content (live_marker [CALL_OPEN] (last_angle ([] @ x))))"
      by (intro runs_searching [OF searching_states(1)]) blast
    then show ?thesis using run by (auto simp: tool_call_state_default_def)
  next
    case (2 y ws pre)
    have "runs tools (ws @ pre) (AfterCall []) (AfterCall pre)" by (intro runs_append [OF runs_blank(4)] runs_next_open 2)
    then have "starts tools x (AfterCall pre)" unfolding 2(3) by (rule starts_append [OF grammar_runs(4) [OF ok 2(1)]])
    then show ?thesis using run by (simp add: starts_def)
  qed
qed

text \<open>C18: A generation can stop only on complete calls. After any sequence of committed tokens without a stop
  token, \<open>has_incomplete_call\<close> says exactly that the bytes of those tokens are not well formed, that is,
  they contain an opening marker and are not complete calls followed by whitespace and at most the start
  of another opening marker; and \<open>commit_token\<close> accepts a stop token exactly when no call is incomplete.\<close>

theorem generation_stops_on_complete_calls:
  assumes "tools_admitted tools" and "set ts \<inter> set stops = {}" and "s \<in> set stops"
    and "commit_tokens ts (constraint_new ti stops tools) = Inr tc"
  shows "(has_incomplete_call tc \<longleftrightarrow> \<not> well_formed_text tools (token_text ti ts)) \<and>
    (is_ok (fst (commit_token s tc)) \<longleftrightarrow> \<not> has_incomplete_call tc)"
proof -
  let ?tc = "constraint_new ti stops tools"
  have ok: "tools_ok tools" by (rule tools_admitted_ok [OF assms(1)])
  have new: "tc_compiled ?tc = compiled_spec_new tools" "tc_stop_ids ?tc = stops" "tc_tokens ?tc = ti"
    "tc_committed ?tc = tool_call_state_default" by (simp_all add: constraint_new_def)
  obtain st where st: "advance_tokens ?tc ts (tc_committed ?tc) = Inr st" and tc: "tc = ?tc\<lparr>tc_committed := st\<rparr>"
    using assms(4) by (auto simp: commit_tokens_advance map_sum_def split: sum.splits)
  have "runs tools ([] @ token_text (tc_tokens ?tc) ts) tool_call_state_default st"
    by (rule advance_tokens_runs [OF ok new(1) _ _ st]) (use assms(2) new in simp_all)
  then have run: "runs tools (token_text ti ts) tool_call_state_default st" using new(3) by simp
  have "has_incomplete_call tc \<longleftrightarrow> \<not> well_formed_text tools (token_text ti ts)"
    using well_formed_iff [OF ok run] runs_not_stopped [OF ok run]
    by (cases st) (simp_all add: has_incomplete_call_def tc)
  moreover have "is_ok (fst (commit_token s tc)) \<longleftrightarrow> \<not> has_incomplete_call tc"
    using assms(3) runs_not_stopped [OF ok run] new(2)
    by (cases st) (simp_all add: has_incomplete_call_def tc commit_token_def advance_token_def is_ok_def)
  ultimately show ?thesis ..
qed

lemma sample_commit:
  "tools_admitted [\<lparr>tf_name = ''stop'', tf_parameters = []\<rparr>]"
  "is_ok (commit_tokens [5, 0, 1] (constraint_new sample_inventory [6] [\<lparr>tf_name = ''stop'', tf_parameters = []\<rparr>]))"
  by code_simp+

theorem generation_stops_on_complete_calls_witness:
  "\<exists>tc. commit_tokens [5, 0, 1] (constraint_new sample_inventory [6] [\<lparr>tf_name = ''stop'', tf_parameters = []\<rparr>]) = Inr tc \<and>
    (is_ok (fst (commit_token 6 tc)) \<longleftrightarrow> \<not> has_incomplete_call tc)"
  using generation_stops_on_complete_calls [OF sample_commit(1), of "[5, 0, 1]" "[6]" 6 sample_inventory] sample_commit(2)
  by (auto simp: is_ok_def split: sum.splits)

end
