(* ===== verification/Assistant.thy ===== *)
theory Assistant
  imports ToolCall
begin

text \<open>
  The incremental reasoning and tool-call parser of \<open>crates/tuisko-serve/src/assistant.rs\<close>. A \<open>str\<close> is the
  list of its UTF-8 bytes, which is what the searches and slices of the code work on: every marker is
  ASCII, so each slice falls on a character boundary. \<open>serde_json\<close> is the parameter \<open>json_library\<close>.
\<close>

section \<open>Strings\<close>

text \<open>The UTF-8 encodings of the Unicode \<open>White_Space\<close> characters, which \<open>str::trim\<close> removes.\<close>

definition space_words :: "string list" where
  "space_words = map (map char_of) ([[9], [10], [11], [12], [13], [32], [0xC2, 0x85], [0xC2, 0xA0], [0xE1, 0x9A, 0x80]] @
    map (\<lambda>b. [0xE2, 0x80, b]) ([0x80..<0x8B] @ [0xA8, 0xA9, 0xAF]) @ [[0xE2, 0x81, 0x9F], [0xE3, 0x80, 0x80 :: nat]])"

definition strip_prefix :: "string \<Rightarrow> string \<Rightarrow> string option" where
  "strip_prefix p s = (if prefix p s then Some (drop (length p) s) else None)"

text \<open>\<open>trim_start_matches\<close> over the given characters.\<close>

function trim_start_words :: "string list \<Rightarrow> string \<Rightarrow> string" where
  "trim_start_words ws s = (case find (\<lambda>w. w \<noteq> [] \<and> prefix w s) ws of
     None \<Rightarrow> s | Some w \<Rightarrow> trim_start_words ws (drop (length w) s))"
  by pat_completeness auto

termination by (relation "measure (\<lambda>(ws, s). length s)") (auto simp: find_Some_iff prefix_def)

declare trim_start_words.simps [simp del]

definition trim_start :: "string \<Rightarrow> string" where
  "trim_start s = trim_start_words space_words s"

definition trim_end :: "string \<Rightarrow> string" where
  "trim_end s = rev (trim_start_words (map rev space_words) (rev s))"

definition trim :: "string \<Rightarrow> string" where
  "trim s = trim_end (trim_start s)"

fun find_str :: "string \<Rightarrow> string \<Rightarrow> nat option" where
  "find_str p [] = (if p = [] then Some 0 else None)"
| "find_str p (c # s) = (if prefix p (c # s) then Some 0 else map_option Suc (find_str p s))"

definition retained_marker_prefix :: "string \<Rightarrow> string \<Rightarrow> nat" where
  "retained_marker_prefix s marker =
    (case find (\<lambda>len. suffix (take len marker) s) (rev [1..<length marker]) of Some len \<Rightarrow> len | None \<Rightarrow> 0)"

section \<open>Reasoning\<close>

definition THINK_END :: string where "THINK_END = ''</think>''"

datatype assistant_phase = ReasoningPhase | ContentPhase

record assistant_delta =
  ad_reasoning :: string
  ad_content :: string

definition delta_default :: assistant_delta where
  "delta_default = \<lparr>ad_reasoning = [], ad_content = []\<rparr>"

definition append_delta :: "assistant_delta \<Rightarrow> assistant_delta \<Rightarrow> assistant_delta" where
  "append_delta destination source =
    \<lparr>ad_reasoning = ad_reasoning destination @ ad_reasoning source, ad_content = ad_content destination @ ad_content source\<rparr>"

record reasoning_parser =
  rp_phase :: assistant_phase
  rp_pending :: string
  rp_strip :: bool

definition reasoning_new :: "bool \<Rightarrow> reasoning_parser" where
  "reasoning_new split_reasoning =
    \<lparr>rp_phase = if split_reasoning then ReasoningPhase else ContentPhase, rp_pending = [], rp_strip = False\<rparr>"

definition content_delta :: "string \<Rightarrow> reasoning_parser \<Rightarrow> string \<times> reasoning_parser" where
  "content_delta txt rp =
    (if \<not> rp_strip rp then (txt, rp)
     else let txt = trim_start_words [[CHR 0x0D], [CHR 0x0A]] txt in
       (txt, if txt \<noteq> [] then rp\<lparr>rp_strip := False\<rparr> else rp))"

definition reasoning_push :: "string \<Rightarrow> reasoning_parser \<Rightarrow> assistant_delta \<times> reasoning_parser" where
  "reasoning_push txt rp =
    (if rp_phase rp = ContentPhase
     then case content_delta txt rp of (content, rp) \<Rightarrow> (delta_default\<lparr>ad_content := content\<rparr>, rp)
     else
       let pending = rp_pending rp @ txt in
       case find_str THINK_END pending of
         Some boundary \<Rightarrow>
           (case content_delta (drop (boundary + length THINK_END) pending)
                   (rp\<lparr>rp_pending := [], rp_phase := ContentPhase, rp_strip := True\<rparr>) of
              (content, rp) \<Rightarrow> (\<lparr>ad_reasoning = take boundary pending, ad_content = content\<rparr>, rp))
       | None \<Rightarrow>
           let split_at = length pending - retained_marker_prefix pending THINK_END in
           (delta_default\<lparr>ad_reasoning := take split_at pending\<rparr>, rp\<lparr>rp_pending := drop split_at pending\<rparr>))"

definition reasoning_finish :: "reasoning_parser \<Rightarrow> assistant_delta \<times> reasoning_parser" where
  "reasoning_finish rp =
    (if rp_phase rp = ReasoningPhase then (delta_default\<lparr>ad_reasoning := rp_pending rp\<rparr>, rp\<lparr>rp_pending := []\<rparr>)
     else (delta_default, rp))"

section \<open>Tool calls\<close>

text \<open>
  \<open>json_parse\<close> is \<open>serde_json::from_str\<close>, \<open>json_text\<close> is \<open>Value::String\<close>, and \<open>json_render\<close> prints the object
  with the given members; an object's members are kept in the order of their insertion.
\<close>

record 'v json_library =
  json_parse :: "string \<Rightarrow> 'v option"
  json_text :: "string \<Rightarrow> 'v"
  json_render :: "(string \<times> 'v) list \<Rightarrow> string"

record parsed_tool_call =
  pc_name :: string
  pc_arguments :: string

definition function_parameter :: "tool_function \<Rightarrow> string \<Rightarrow> tool_parameter option" where
  "function_parameter tool name = find (\<lambda>p. tp_name p = name) (tf_parameters tool)"

definition spec_tool :: "tool_function list \<Rightarrow> string \<Rightarrow> tool_function option" where
  "spec_tool spec name = find (\<lambda>tool. tf_name tool = name) spec"

definition FUNCTION_OPEN :: string where "FUNCTION_OPEN = ''<function=''"
definition PARAMETER_OPEN :: string where "PARAMETER_OPEN = ''<parameter=''"

text \<open>One turn of the parameter loop: the text after the parameter and its name and value.\<close>

definition parse_parameter ::
  "'v json_library \<Rightarrow> tool_function option \<Rightarrow> (string \<times> 'v) list \<Rightarrow> string \<Rightarrow> (string \<times> string \<times> 'v) option" where
  "parse_parameter json contract_tool arguments parameters =
    (case strip_prefix PARAMETER_OPEN (trim_start parameters) of
       None \<Rightarrow> None
     | Some parameters \<Rightarrow>
        (case find_str ''>'' parameters of
           None \<Rightarrow> None
         | Some name_end \<Rightarrow>
            let name = trim (take name_end parameters) in
            if name = [] \<or> CHR ''<'' \<in> set name \<or> name \<in> fst ` set arguments then None
            else if (case contract_tool of None \<Rightarrow> False | Some tool \<Rightarrow> function_parameter tool name = None) then None
            else let parameters = drop (name_end + 1) parameters in
              (case find_str PARAMETER_CLOSE parameters of
                 None \<Rightarrow> None
               | Some parameter_end \<Rightarrow>
                  let raw_value = trim (take parameter_end parameters);
                      v = (case json_parse json raw_value of Some v \<Rightarrow> v | None \<Rightarrow> json_text json raw_value)
                  in Some (drop (parameter_end + length PARAMETER_CLOSE) parameters, name, v))))"

lemma strip_prefix_Some: "strip_prefix p s = Some r \<longleftrightarrow> s = p @ r"
  by (auto simp: strip_prefix_def prefix_def)

lemma trim_start_words_suffix: "suffix (trim_start_words ws s) s"
proof (induction ws s rule: trim_start_words.induct)
  case (1 ws s)
  show ?case
  proof (cases "find (\<lambda>w. w \<noteq> [] \<and> prefix w s) ws")
    case (Some w)
    then show ?thesis using 1 suffix_drop [of "length w" s] suffix_order.order_trans
      by (subst trim_start_words.simps) auto
  qed (subst trim_start_words.simps, simp)
qed

lemma trim_start_length: "length (trim_start s) \<le> length s"
  unfolding trim_start_def by (rule suffix_length_le [OF trim_start_words_suffix])

lemma parse_parameter_shorter:
  "parse_parameter json ct arguments s = Some (r, x) \<Longrightarrow> length r < length s"
  using trim_start_length [of s]
  by (auto simp: parse_parameter_def strip_prefix_Some Let_def PARAMETER_OPEN_def split: option.splits if_splits)

text \<open>\<open>while !parameters.trim().is_empty()\<close>\<close>

function parse_parameters ::
  "'v json_library \<Rightarrow> tool_function option \<Rightarrow> (string \<times> 'v) list \<Rightarrow> string \<Rightarrow> (string \<times> 'v) list option" where
  "parse_parameters json contract_tool arguments parameters =
    (if trim parameters = [] then Some arguments
     else case parse_parameter json contract_tool arguments parameters of
       None \<Rightarrow> None
     | Some (parameters, name, v) \<Rightarrow> parse_parameters json contract_tool (arguments @ [(name, v)]) parameters)"
  by pat_completeness auto

termination by (relation "measure (\<lambda>(json, ct, arguments, s). length s)") (auto dest: parse_parameter_shorter)

declare parse_parameters.simps [simp del]

text \<open>One turn of the call loop, after the test for the end of the text.\<close>

definition parse_call ::
  "'v json_library \<Rightarrow> tool_function list option \<Rightarrow> string \<Rightarrow> (string \<times> parsed_tool_call) option" where
  "parse_call json contract remaining =
    (case strip_prefix CALL_OPEN remaining of
       None \<Rightarrow> None
     | Some remaining \<Rightarrow>
        (case strip_prefix FUNCTION_OPEN (trim_start remaining) of
           None \<Rightarrow> None
         | Some remaining \<Rightarrow>
            (case find_str ''>'' remaining of
               None \<Rightarrow> None
             | Some name_end \<Rightarrow>
                let name = trim (take name_end remaining) in
                if name = [] \<or> CHR ''<'' \<in> set name then None
                else
                  let contract_tool = (case contract of None \<Rightarrow> None | Some spec \<Rightarrow> spec_tool spec name) in
                  if contract \<noteq> None \<and> contract_tool = None then None
                  else let remaining = drop (name_end + 1) remaining in
                    (case find_str FUNCTION_CLOSE remaining of
                       None \<Rightarrow> None
                     | Some function_end \<Rightarrow>
                        (case parse_parameters json contract_tool [] (take function_end remaining) of
                           None \<Rightarrow> None
                         | Some arguments \<Rightarrow>
                            if (case contract_tool of None \<Rightarrow> False
                                | Some tool \<Rightarrow> list_ex (\<lambda>p. tp_required p \<and> tp_name p \<notin> fst ` set arguments) (tf_parameters tool))
                            then None
                            else (case strip_prefix CALL_CLOSE
                                  (trim_start (drop (function_end + length FUNCTION_CLOSE) remaining)) of
                               None \<Rightarrow> None
                             | Some remaining \<Rightarrow>
                                Some (remaining, \<lparr>pc_name = name, pc_arguments = json_render json arguments\<rparr>)))))))"

lemma parse_call_shorter: "parse_call json contract s = Some (r, x) \<Longrightarrow> length r < length s"
proof -
  assume run: "parse_call json contract s = Some (r, x)"
  obtain s1 where s1: "strip_prefix CALL_OPEN s = Some s1"
    using run by (auto simp: parse_call_def split: option.splits)
  obtain s2 where s2: "strip_prefix FUNCTION_OPEN (trim_start s1) = Some s2"
    using run s1 by (auto simp: parse_call_def split: option.splits)
  have "\<exists>i. strip_prefix CALL_CLOSE (trim_start (drop i s2)) = Some r"
    using run s1 s2 by (auto simp: parse_call_def Let_def split: option.splits if_splits)
  then obtain i where "trim_start (drop i s2) = CALL_CLOSE @ r" by (auto simp: strip_prefix_Some)
  then have "length r \<le> length s2" using trim_start_length [of "drop i s2"] by simp
  moreover have "length s2 \<le> length s1" using s2 trim_start_length [of s1] by (auto simp: strip_prefix_Some)
  moreover have "length s1 < length s" using s1 by (auto simp: strip_prefix_Some CALL_OPEN_def)
  ultimately show ?thesis by simp
qed

lemma parse_call_shorter_trim: "parse_call json contract (trim_start s) = Some (r, x) \<Longrightarrow> length r < length s"
  using trim_start_length [of s] parse_call_shorter [of json contract "trim_start s" r x] by simp

function parse_calls ::
  "'v json_library \<Rightarrow> tool_function list option \<Rightarrow> parsed_tool_call list \<Rightarrow> string \<Rightarrow> parsed_tool_call list option" where
  "parse_calls json contract calls remaining =
    (let remaining = trim_start remaining in
     if remaining = [] then Some calls
     else case parse_call json contract remaining of
       None \<Rightarrow> None
     | Some (remaining, call) \<Rightarrow> parse_calls json contract (calls @ [call]) remaining)"
  by pat_completeness auto

termination by (relation "measure (\<lambda>(json, contract, calls, s). length s)") (auto dest: parse_call_shorter_trim)

declare parse_calls.simps [simp del]

definition parse_qwen_tool_calls ::
  "'v json_library \<Rightarrow> string \<Rightarrow> tool_function list option \<Rightarrow> (string \<times> parsed_tool_call list) option" where
  "parse_qwen_tool_calls json txt contract =
    (case find_str CALL_OPEN txt of
       None \<Rightarrow> None
     | Some first_call \<Rightarrow>
        let content = trim_end (take first_call txt) in
        (case parse_calls json contract [] (drop first_call txt) of
           None \<Rightarrow> None
         | Some calls \<Rightarrow> if calls = [] then None else Some (content, calls)))"

section \<open>The stream parser\<close>

record stream_parser =
  as_reasoning :: reasoning_parser
  as_parse_tools :: bool
  as_pending_marker :: string
  as_tool_text :: "string option"
  as_tool_constraint :: "tool_function list option"

definition stream_new :: "bool \<Rightarrow> bool \<Rightarrow> stream_parser" where
  "stream_new split_reasoning parse_tools = \<lparr>as_reasoning = reasoning_new split_reasoning, as_parse_tools = parse_tools,
    as_pending_marker = [], as_tool_text = None, as_tool_constraint = None\<rparr>"

definition stream_with_constraint :: "bool \<Rightarrow> tool_function list \<Rightarrow> stream_parser" where
  "stream_with_constraint split_reasoning tool_constraint = \<lparr>as_reasoning = reasoning_new split_reasoning, as_parse_tools = True,
    as_pending_marker = [], as_tool_text = None, as_tool_constraint = Some tool_constraint\<rparr>"

text \<open>\<open>self.reasoning.push(text)\<close>\<close>

definition stream_reason :: "string \<Rightarrow> stream_parser \<Rightarrow> assistant_delta \<times> stream_parser" where
  "stream_reason txt sp = (case reasoning_push txt (as_reasoning sp) of (delta, rp) \<Rightarrow> (delta, sp\<lparr>as_reasoning := rp\<rparr>))"

definition stream_push :: "string \<Rightarrow> stream_parser \<Rightarrow> assistant_delta \<times> stream_parser" where
  "stream_push txt sp =
    (if \<not> as_parse_tools sp then stream_reason txt sp
     else case as_tool_text sp of
       Some tool_text \<Rightarrow> (delta_default, sp\<lparr>as_tool_text := Some (tool_text @ txt)\<rparr>)
     | None \<Rightarrow>
        let pending = as_pending_marker sp @ txt in
        (case find_str CALL_OPEN pending of
           Some marker \<Rightarrow>
             stream_reason (take marker pending) (sp\<lparr>as_pending_marker := [], as_tool_text := Some (drop marker pending)\<rparr>)
         | None \<Rightarrow>
             let split_at = length pending - retained_marker_prefix pending CALL_OPEN in
             stream_reason (take split_at pending) (sp\<lparr>as_pending_marker := drop split_at pending\<rparr>)))"

record stream_finish_result =
  af_delta :: assistant_delta
  af_tool_calls :: "parsed_tool_call list"
  af_malformed :: bool
  af_truncated :: bool

text \<open>\<open>let mut delta = self.reasoning.push(..); append_delta(&mut delta, self.reasoning.finish())\<close>\<close>

definition push_and_finish :: "string \<Rightarrow> reasoning_parser \<Rightarrow> assistant_delta \<times> reasoning_parser" where
  "push_and_finish txt rp = (case reasoning_push txt rp of (delta, rp) \<Rightarrow>
    case reasoning_finish rp of (tail, rp) \<Rightarrow> (append_delta delta tail, rp))"

definition plain_finish :: "assistant_delta \<Rightarrow> stream_finish_result" where
  "plain_finish delta = \<lparr>af_delta = delta, af_tool_calls = [], af_malformed = False, af_truncated = False\<rparr>"

definition finish_with_truncation :: "'v json_library \<Rightarrow> bool \<Rightarrow> stream_parser \<Rightarrow> stream_finish_result \<times> stream_parser" where
  "finish_with_truncation json truncated sp =
    (case as_tool_text sp of
       Some tool_text \<Rightarrow>
        (let sp = sp\<lparr>as_tool_text := None\<rparr> in
         case parse_qwen_tool_calls json tool_text (as_tool_constraint sp) of
           Some (pre, tool_calls) \<Rightarrow>
             (case push_and_finish pre (as_reasoning sp) of (delta, rp) \<Rightarrow>
               ((plain_finish delta)\<lparr>af_tool_calls := tool_calls\<rparr>, sp\<lparr>as_reasoning := rp\<rparr>))
         | None \<Rightarrow>
             if truncated \<and> parse_qwen_tool_calls json tool_text None = None
             then case reasoning_finish (as_reasoning sp) of (delta, rp) \<Rightarrow>
               ((plain_finish delta)\<lparr>af_truncated := True\<rparr>, sp\<lparr>as_reasoning := rp\<rparr>)
             else if as_tool_constraint sp \<noteq> None
             then case reasoning_finish (as_reasoning sp) of (delta, rp) \<Rightarrow>
               ((plain_finish delta)\<lparr>af_malformed := True\<rparr>, sp\<lparr>as_reasoning := rp\<rparr>)
             else case push_and_finish tool_text (as_reasoning sp) of (delta, rp) \<Rightarrow>
               (plain_finish delta, sp\<lparr>as_reasoning := rp\<rparr>))
     | None \<Rightarrow>
        (case push_and_finish (as_pending_marker sp) (as_reasoning sp) of (delta, rp) \<Rightarrow>
          (plain_finish delta, sp\<lparr>as_pending_marker := [], as_reasoning := rp\<rparr>)))"

definition stream_finish :: "'v json_library \<Rightarrow> stream_parser \<Rightarrow> stream_finish_result \<times> stream_parser" where
  "stream_finish json sp = finish_with_truncation json False sp"

record parsed_output =
  po_reasoning :: string
  po_content :: string
  po_tool_calls :: "parsed_tool_call list"
  po_malformed :: bool
  po_truncated :: bool

text \<open>\<open>first.reasoning + &tail.delta.reasoning\<close> and the other fields of \<open>ParsedAssistantOutput\<close>.\<close>

definition joined_output :: "assistant_delta \<Rightarrow> stream_finish_result \<Rightarrow> parsed_output" where
  "joined_output first tail = \<lparr>po_reasoning = ad_reasoning first @ ad_reasoning (af_delta tail),
    po_content = ad_content first @ ad_content (af_delta tail), po_tool_calls = af_tool_calls tail,
    po_malformed = af_malformed tail, po_truncated = af_truncated tail\<rparr>"

definition parse_assistant_output :: "'v json_library \<Rightarrow> string \<Rightarrow> bool \<Rightarrow> bool \<Rightarrow> parsed_output" where
  "parse_assistant_output json txt split_reasoning parse_tools =
    (case stream_push txt (stream_new split_reasoning parse_tools) of (first, sp) \<Rightarrow> joined_output first (fst (stream_finish json sp)))"

definition parse_assistant_output_constrained ::
  "'v json_library \<Rightarrow> string \<Rightarrow> bool \<Rightarrow> tool_function list \<Rightarrow> bool \<Rightarrow> parsed_output" where
  "parse_assistant_output_constrained json txt split_reasoning tool_constraint truncated =
    (case stream_push txt (stream_with_constraint split_reasoning tool_constraint) of (first, sp) \<Rightarrow>
      joined_output first (fst (finish_with_truncation json truncated sp)))"

end
