(* ===== verification/AssistantStream.thy ===== *)
theory AssistantStream
  imports Assistant
begin

text \<open>
  The stream parser does not depend on how a generation is cut into deltas: its output is one declarative
  split of the whole text.
\<close>

section \<open>Searches\<close>

lemma find_str_None: "p \<noteq> [] \<Longrightarrow> find_str p s = None \<longleftrightarrow> (\<forall>j. \<not> prefix p (drop j s))"
proof (induction s)
  case (Cons c s)
  have "(\<forall>j. \<not> prefix p (drop j (c # s))) \<longleftrightarrow> \<not> prefix p (c # s) \<and> (\<forall>j. \<not> prefix p (drop j s))"
    by (metis drop0 drop_Suc_Cons not0_implies_Suc)
  then show ?case using Cons by simp
qed simp

lemma find_str_Some: "find_str p s = Some i \<longleftrightarrow> i \<le> length s \<and> prefix p (drop i s) \<and> (\<forall>j<i. \<not> prefix p (drop j s))"
proof (induction s arbitrary: i)
  case Nil
  then show ?case by auto
next
  case (Cons c s)
  show ?case
  proof (cases i)
    case 0
    then show ?thesis by simp
  next
    case (Suc k)
    have "(\<forall>j<Suc k. \<not> prefix p (drop j (c # s))) \<longleftrightarrow> \<not> prefix p (c # s) \<and> (\<forall>j<k. \<not> prefix p (drop j s))"
      by (metis drop0 drop_Suc_Cons less_Suc_eq_0_disj)
    then show ?thesis using Suc Cons [of k] by auto
  qed
qed

lemma find_str_append: "find_str p s = Some i \<Longrightarrow> find_str p (s @ t) = Some i"
proof -
  assume a: "find_str p s = Some i"
  have "\<not> prefix p (drop j s @ t)" if "j < i" for j
  proof
    assume pre: "prefix p (drop j s @ t)"
    have "length p \<le> length (drop i s)" using a prefix_length_le [of p "drop i s"] by (simp add: find_str_Some)
    then have "length p \<le> length (drop j s)" using that by simp
    then have "prefix p (drop j s)" using pre by (metis prefix_append prefix_length_prefix prefixI)
    then show False using a that by (simp add: find_str_Some)
  qed
  then show ?thesis using a by (auto simp: find_str_Some prefix_def)
qed

lemma find_str_text: "find_str p s = Some i \<Longrightarrow> s = take i s @ p @ drop (i + length p) s"
  by (auto simp: find_str_Some prefix_def) (metis append_eq_conv_conj append_take_drop_id drop_drop add.commute)

lemma find_str_length: "find_str p s = Some i \<Longrightarrow> i + length p \<le> length s"
  using prefix_length_le [of p "drop i s"] by (auto simp: find_str_Some)

text \<open>What is retained is the longest proper prefix of the marker that ends the text.\<close>

lemma find_rev_upt:
  assumes "P 0"
  shows "(case find P (rev [1..<n]) of Some l \<Rightarrow> l | None \<Rightarrow> 0) = (GREATEST l. P l \<and> (l < n \<or> l = 0))"
proof -
  let ?Q = "\<lambda>l. P l \<and> (l < n \<or> l = 0)"
  have *: "(GREATEST l. ?Q l) = k" if "?Q k" "\<And>l. ?Q l \<Longrightarrow> l \<le> k" for k
    using that by (intro Greatest_equality) auto
  show ?thesis
  proof (cases "find P (rev [1..<n])")
    case None
    then have "\<forall>l\<in>{1..<n}. \<not> P l" by (auto simp: find_None_iff)
    then show ?thesis using None assms by (subst * [of 0]) (auto simp: Suc_le_eq)
  next
    case (Some k)
    then obtain i where i: "i < length (rev [1..<n])" "P (rev [1..<n] ! i)" "k = rev [1..<n] ! i"
      "\<forall>j<i. \<not> P (rev [1..<n] ! j)" by (auto simp: find_Some_iff)
    have nth: "rev [1..<n] ! j = n - 1 - j" if "j < n - 1" for j using that by (simp add: rev_nth)
    have k: "k = n - 1 - i" "i < n - 1" using i(1,3) nth by auto
    have "l \<le> k" if l: "P l" "l < n \<or> l = 0" for l
    proof (rule ccontr)
      assume "\<not> l \<le> k"
      then have "n - 1 - l < i" "n - 1 - l < n - 1" "l = n - 1 - (n - 1 - l)" using k l(2) by auto
      then show False using i(4) l(1) nth by metis
    qed
    then show ?thesis using Some i(2,3) k by (subst * [of k]) auto
  qed
qed

lemma retained_facts:
  assumes "p \<noteq> []"
  shows "retained_marker_prefix s p < length p" and "suffix (take (retained_marker_prefix s p) p) s"
    and "l < length p \<Longrightarrow> suffix (take l p) s \<Longrightarrow> l \<le> retained_marker_prefix s p"
proof -
  let ?Q = "\<lambda>l. suffix (take l p) s \<and> (l < length p \<or> l = 0)"
  have eq: "retained_marker_prefix s p = (GREATEST l. ?Q l)"
    unfolding retained_marker_prefix_def by (rule find_rev_upt) simp
  have bound: "?Q l \<Longrightarrow> l \<le> length p" for l by auto
  have Q: "?Q (GREATEST l. ?Q l)" by (rule GreatestI_nat [of ?Q 0 "length p"]) (use bound in auto)
  show "retained_marker_prefix s p < length p" "suffix (take (retained_marker_prefix s p) p) s"
    using Q assms unfolding eq by auto
  show "l \<le> retained_marker_prefix s p" if "l < length p" "suffix (take l p) s"
    unfolding eq by (rule Greatest_le_nat [of ?Q _ "length p"]) (use that bound in auto)
qed

abbreviation kept :: "string \<Rightarrow> string \<Rightarrow> nat" where
  "kept p s \<equiv> length s - retained_marker_prefix s p"

lemma retained_tail:
  assumes "p \<noteq> []"
  shows "drop (kept p s) s = take (retained_marker_prefix s p) p" and "retained_marker_prefix s p \<le> length s"
proof -
  have suf: "suffix (take (retained_marker_prefix s p) p) s" and len: "retained_marker_prefix s p < length p"
    using retained_facts(1,2) [OF assms] by blast+
  from suf obtain u where u: "s = u @ take (retained_marker_prefix s p) p" by (auto simp: suffix_def)
  then show "retained_marker_prefix s p \<le> length s"
    using len by (metis length_append length_take le_add2 min.absorb2 less_imp_le)
  have "kept p s = length u" using u len by (metis add_diff_cancel_right' length_append length_take less_imp_le min.absorb2)
  then show "drop (kept p s) s = take (retained_marker_prefix s p) p" using u by (metis append_eq_conv_conj)
qed

text \<open>No occurrence can begin in the published part.\<close>

lemma no_early_occurrence:
  assumes p: "p \<noteq> []" and none: "find_str p s = None" and j: "j < kept p s"
  shows "\<not> prefix p (drop j (s @ t))"
proof
  assume pre: "prefix p (drop j (s @ t))"
  have js: "j < length s" using j by simp
  show False
  proof (cases "length p \<le> length (drop j s)")
    case True
    have "prefix p (drop j s @ t)" using pre js by simp
    then have "prefix p (drop j s)" using True by (metis prefixI prefix_length_prefix)
    then show False using none find_str_None [OF p] by blast
  next
    case False
    have "prefix p (drop j s @ t)" using pre js by simp
    then have "prefix (drop j s) p" using False by (metis linorder_le_cases prefixI prefix_length_prefix)
    then have "take (length s - j) p = drop j s" by (metis append_eq_conv_conj length_drop prefix_def)
    then have "suffix (take (length s - j) p) s" by (simp add: suffix_drop)
    moreover have "length s - j < length p" using False by simp
    ultimately have "length s - j \<le> retained_marker_prefix s p" using retained_facts(3) [OF p] by blast
    then show False using j js by linarith
  qed
qed

lemma find_str_resume:
  assumes p: "p \<noteq> []" and none: "find_str p s = None"
  shows "find_str p (s @ t) = map_option (\<lambda>j. kept p s + j) (find_str p (drop (kept p s) s @ t))"
proof -
  let ?k = "kept p s"
  have tail: "drop ?k s @ t = drop ?k (s @ t)" by simp
  show ?thesis
  proof (cases "find_str p (drop ?k s @ t)")
    case None
    then have later: "\<not> prefix p (drop i (drop ?k (s @ t)))" for i unfolding tail find_str_None [OF p] by blast
    have "\<not> prefix p (drop j (s @ t))" for j
    proof (cases "j < ?k")
      case False
      then have "drop j (s @ t) = drop (j - ?k) (drop ?k (s @ t))" unfolding drop_drop by simp
      then show ?thesis using later [of "j - ?k"] by (simp del: drop_append drop_drop)
    qed (rule no_early_occurrence [OF p none])
    then have "find_str p (s @ t) = None" unfolding find_str_None [OF p] by blast
    then show ?thesis using None by simp
  next
    case (Some j)
    then have j: "j \<le> length (drop ?k (s @ t))" "prefix p (drop j (drop ?k (s @ t)))" "\<forall>i<j. \<not> prefix p (drop i (drop ?k (s @ t)))"
      unfolding tail by (auto simp: find_str_Some)
    have "\<not> prefix p (drop i (s @ t))" if "i < ?k + j" for i
    proof (cases "i < ?k")
      case False
      then have "drop i (s @ t) = drop (i - ?k) (drop ?k (s @ t))" unfolding drop_drop by simp
      then show ?thesis using j(3) that False by (simp del: drop_append drop_drop)
    qed (rule no_early_occurrence [OF p none])
    then have "find_str p (s @ t) = Some (?k + j)"
      unfolding find_str_Some using j(1,2) by (simp add: drop_drop add.commute del: drop_append)
    then show ?thesis using Some by simp
  qed
qed

lemma retained_resume:
  assumes p: "p \<noteq> []"
  shows "retained_marker_prefix (drop (kept p s) s @ t) p = retained_marker_prefix (s @ t) p"
proof -
  let ?m = "drop (kept p s) s"
  have m: "length ?m = retained_marker_prefix s p" using retained_tail(2) [OF p, of s] by simp
  have "suffix (?m @ t) (s @ t)" by (simp add: suffix_drop)
  then have one: "retained_marker_prefix (?m @ t) p \<le> retained_marker_prefix (s @ t) p"
    using retained_facts [OF p] suffix_order.order_trans by blast
  let ?l = "retained_marker_prefix (s @ t) p"
  have l: "?l < length p" "suffix (take ?l p) (s @ t)" using retained_facts [OF p] by blast+
  have "suffix (take ?l p) (?m @ t)"
  proof (cases "?l \<le> length (?m @ t)")
    case True
    then show ?thesis using l \<open>suffix (?m @ t) (s @ t)\<close> by (intro suffix_length_suffix [OF l(2)]) simp_all
  next
    case False
    obtain u where u: "u @ take ?l p = s @ t" using l(2) unfolding suffix_def by metis
    have tl: "length t < ?l" using False by simp
    let ?b = "drop (?l - length t) (take ?l p)"
    have "take (?l - length t) p @ ?b = take ?l p" by (metis append_take_drop_id diff_le_self min.absorb1 take_take)
    then have "(u @ take (?l - length t) p) @ ?b = s @ t" using u by simp
    moreover have "length ?b = length t" using l(1) tl by simp
    ultimately have "u @ take (?l - length t) p = s" using append_eq_append_conv [of "u @ take (?l - length t) p" s ?b t] by blast
    then have "suffix (take (?l - length t) p) s" unfolding suffix_def by metis
    then have "?l - length t \<le> retained_marker_prefix s p" using retained_facts(3) [OF p] l(1) by force
    then show ?thesis using False m by simp
  qed
  then have "?l \<le> retained_marker_prefix (?m @ t) p" using retained_facts(3) [OF p] l(1) by blast
  then show ?thesis using one by simp
qed

section \<open>Merging deltas\<close>

lemma trim_newlines: "trim_start_words [[CHR 0x0D], [CHR 0x0A]] s = dropWhile (\<lambda>c. c = CHR 0x0D \<or> c = CHR 0x0A) s"
proof (induction s)
  case (Cons c s)
  then show ?case by (subst trim_start_words.simps) (auto simp: prefix_def)
qed (subst trim_start_words.simps, simp)

abbreviation no_newline :: "string \<Rightarrow> string" where
  "no_newline \<equiv> dropWhile (\<lambda>c. c = CHR 0x0D \<or> c = CHR 0x0A)"

lemma content_delta_eq:
  "content_delta txt rp = (if rp_strip rp then (no_newline txt, rp\<lparr>rp_strip := no_newline txt = []\<rparr>) else (txt, rp))"
  by (cases rp) (auto simp: content_delta_def Let_def trim_newlines)

lemma no_newline_append: "no_newline (x @ y) = (if no_newline x = [] then no_newline y else no_newline x @ y)"
  by (induction x) auto

lemma content_delta_merge:
  assumes "content_delta x rp = (d1, rp1)" and "content_delta y rp1 = (d2, rp2)"
  shows "content_delta (x @ y) rp = (d1 @ d2, rp2)"
proof (cases "rp_strip rp")
  case True
  then have "d1 = no_newline x" "rp1 = rp\<lparr>rp_strip := no_newline x = []\<rparr>"
    using assms(1) by (auto simp add: content_delta_eq simp del: dropWhile_eq_Nil_conv)
  then show ?thesis
    using True assms(2)
    by (cases "no_newline x = []") (auto simp add: content_delta_eq no_newline_append simp del: dropWhile_eq_Nil_conv)
qed (use assms in \<open>auto simp: content_delta_eq\<close>)

lemma append_delta_default [simp]: "append_delta delta_default d = d" "append_delta d delta_default = d"
  by (simp_all add: append_delta_def delta_default_def)

lemma split_resume:
  assumes "k \<le> length P"
  shows "take (k + n) (P @ y) = take k P @ take n (drop k P @ y)" and "drop (k + n) (P @ y) = drop n (drop k P @ y)"
proof -
  have "take k (P @ y) = take k P" "drop k (P @ y) = drop k P @ y" using assms by simp_all
  then show "take (k + n) (P @ y) = take k P @ take n (drop k P @ y)" "drop (k + n) (P @ y) = drop n (drop k P @ y)"
    using take_add [of k n "P @ y"] drop_drop [of n k "P @ y"] by (simp_all add: add.commute)
qed

lemma kept_resume:
  assumes p: "p \<noteq> []"
  shows "kept p (P @ y) = kept p P + kept p (drop (kept p P) P @ y)"
  using retained_resume [OF p, of P y] retained_tail(2) [OF p, of "drop (kept p P) P @ y"] retained_tail(2) [OF p, of P]
  by simp

lemma reasoning_push_merge:
  assumes x: "reasoning_push x rp = (d1, rp1)" and y: "reasoning_push y rp1 = (d2, rp2)"
  shows "reasoning_push (x @ y) rp = (append_delta d1 d2, rp2)"
proof (cases "rp_phase rp = ContentPhase")
  case True
  obtain c1 where c1: "content_delta x rp = (c1, rp1)" and d1: "d1 = delta_default\<lparr>ad_content := c1\<rparr>"
    using x True by (auto simp: reasoning_push_def split: prod.splits)
  have "rp_phase rp1 = ContentPhase" using c1 True by (auto simp: content_delta_eq split: if_splits)
  then obtain c2 where c2: "content_delta y rp1 = (c2, rp2)" and d2: "d2 = delta_default\<lparr>ad_content := c2\<rparr>"
    using y by (auto simp: reasoning_push_def split: prod.splits)
  show ?thesis using content_delta_merge [OF c1 c2] True d1 d2
    by (simp add: reasoning_push_def append_delta_def delta_default_def)
next
  case False
  have te: "THINK_END \<noteq> []" by (simp add: THINK_END_def)
  define P where "P = rp_pending rp @ x"
  have P: "rp_pending rp @ x @ y = P @ y" by (simp add: P_def)
  show ?thesis
  proof (cases "find_str THINK_END P")
    case (Some b)
    let ?rp = "rp\<lparr>rp_pending := [], rp_phase := ContentPhase, rp_strip := True\<rparr>"
    obtain c1 where c1: "content_delta (drop (b + length THINK_END) P) ?rp = (c1, rp1)"
      and d1: "d1 = \<lparr>ad_reasoning = take b P, ad_content = c1\<rparr>"
      using x False Some P_def by (auto simp: reasoning_push_def Let_def split: prod.splits)
    have "rp_phase rp1 = ContentPhase" using c1 by (auto simp: content_delta_eq split: if_splits)
    then obtain c2 where c2: "content_delta y rp1 = (c2, rp2)" and d2: "d2 = delta_default\<lparr>ad_content := c2\<rparr>"
      using y by (auto simp: reasoning_push_def split: prod.splits)
    have long: "b + length THINK_END \<le> length P" by (rule find_str_length [OF Some])
    have found: "find_str THINK_END (P @ y) = Some b" by (rule find_str_append [OF Some])
    show ?thesis using content_delta_merge [OF c1 c2] False found d1 d2 long
      by (simp add: reasoning_push_def Let_def append_delta_def delta_default_def P)
  next
    case None
    let ?k = "kept THINK_END P"
    let ?rest = "drop ?k P @ y"
    have d1: "d1 = delta_default\<lparr>ad_reasoning := take ?k P\<rparr>" and rp1: "rp1 = rp\<lparr>rp_pending := drop ?k P\<rparr>"
      using x False None by (auto simp: reasoning_push_def Let_def P_def)
    have k: "?k \<le> length P" by simp
    note found = find_str_resume [OF te None, of y]
    show ?thesis
    proof (cases "find_str THINK_END ?rest")
      case (Some j)
      show ?thesis using Some y False found split_resume [OF k, where y = y] unfolding d1 rp1
        by (auto simp: reasoning_push_def Let_def append_delta_def delta_default_def P add.assoc
            simp del: drop_append take_append split: prod.splits)
    next
      case no: None
      show ?thesis using no y False found kept_resume [OF te, of P y] split_resume [OF k, where y = y] unfolding d1 rp1
        by (auto simp: reasoning_push_def Let_def append_delta_def delta_default_def P
            simp del: drop_append take_append length_append)
    qed
  qed
qed

lemma stream_reason_merge:
  "stream_reason x sp = (d1, sp1) \<Longrightarrow> stream_reason y (sp1\<lparr>as_pending_marker := p, as_tool_text := t\<rparr>) = (d2, sp2) \<Longrightarrow>
    stream_reason (x @ y) (sp\<lparr>as_pending_marker := p, as_tool_text := t\<rparr>) = (append_delta d1 d2, sp2)"
  using reasoning_push_merge [of x "as_reasoning sp"]
  by (auto simp: stream_reason_def split: prod.splits)

lemma keep_no_tool_text: "as_tool_text sp = None \<Longrightarrow> sp\<lparr>as_pending_marker := q, as_tool_text := None\<rparr> = sp\<lparr>as_pending_marker := q\<rparr>"
  by (cases sp) simp

lemma stream_push_merge:
  assumes x: "stream_push x sp = (d1, sp1)" and y: "stream_push y sp1 = (d2, sp2)"
  shows "stream_push (x @ y) sp = (append_delta d1 d2, sp2)"
proof (cases "as_parse_tools sp")
  case False
  have "as_parse_tools sp1 = False" using x False by (auto simp: stream_push_def stream_reason_def split: prod.splits)
  then show ?thesis using x y False reasoning_push_merge [of x "as_reasoning sp"]
    by (auto simp: stream_push_def stream_reason_def split: prod.splits)
next
  case tools: True
  show ?thesis
  proof (cases "as_tool_text sp")
    case (Some t)
    then show ?thesis using x y tools by (auto simp: stream_push_def)
  next
    case None
    define P where "P = as_pending_marker sp @ x"
    have P: "as_pending_marker sp @ x @ y = P @ y" by (simp add: P_def)
    have co: "CALL_OPEN \<noteq> []" by (simp add: CALL_OPEN_def)
    show ?thesis
    proof (cases "find_str CALL_OPEN P")
      case (Some m)
      have s1: "stream_reason (take m P) (sp\<lparr>as_pending_marker := [], as_tool_text := Some (drop m P)\<rparr>) = (d1, sp1)"
        using x tools None Some by (simp add: stream_push_def Let_def P_def)
      have sp1: "as_parse_tools sp1" "as_tool_text sp1 = Some (drop m P)"
        using s1 tools by (auto simp: stream_reason_def split: prod.splits)
      have m: "m \<le> length P" using find_str_length [OF Some] by simp
      show ?thesis using x y s1 sp1 tools None m find_str_append [OF Some, of y]
        by (auto simp: stream_push_def stream_reason_def Let_def P split: prod.splits)
    next
      case no: None
      let ?k = "kept CALL_OPEN P"
      have k: "?k \<le> length P" by simp
      have s1: "stream_reason (take ?k P) (sp\<lparr>as_pending_marker := drop ?k P\<rparr>) = (d1, sp1)"
        using x tools None no by (simp add: stream_push_def Let_def P_def)
      have sp1: "as_parse_tools sp1" "as_tool_text sp1 = None" "as_pending_marker sp1 = drop ?k P"
        using s1 tools None by (auto simp: stream_reason_def split: prod.splits)
      let ?rest = "drop ?k P @ y"
      note found = find_str_resume [OF co no, of y]
      note parts = split_resume [OF k, where y = y]
      show ?thesis
      proof (cases "find_str CALL_OPEN ?rest")
        case (Some j)
        have s2: "stream_reason (take j ?rest) (sp1\<lparr>as_pending_marker := [], as_tool_text := Some (drop j ?rest)\<rparr>) = (d2, sp2)"
          using y sp1 Some by (simp add: stream_push_def Let_def)
        show ?thesis using stream_reason_merge [OF s1 s2] tools None found Some parts
          by (simp add: stream_push_def Let_def P del: drop_append take_append)
      next
        case no2: None
        let ?n = "kept CALL_OPEN ?rest"
        have s2: "stream_reason (take ?n ?rest) (sp1\<lparr>as_pending_marker := drop ?n ?rest, as_tool_text := None\<rparr>) = (d2, sp2)"
          unfolding keep_no_tool_text [OF sp1(2)]
          using y sp1 no2 by (simp add: stream_push_def Let_def del: drop_append take_append length_append)
        show ?thesis using stream_reason_merge [OF s1 s2] tools None found no2 parts kept_resume [OF co, of P y] keep_no_tool_text [OF None]
          by (simp add: stream_push_def Let_def P del: drop_append take_append length_append)
      qed
    qed
  qed
qed

section \<open>The split of a whole generation\<close>

text \<open>What the stream must add up to, without parser state.\<close>

definition think_split :: "bool \<Rightarrow> string \<Rightarrow> assistant_delta" where
  "think_split split_reasoning x =
    (if split_reasoning
     then case find_str THINK_END x of
       Some b \<Rightarrow> \<lparr>ad_reasoning = take b x, ad_content = no_newline (drop (b + length THINK_END) x)\<rparr>
     | None \<Rightarrow> \<lparr>ad_reasoning = x, ad_content = []\<rparr>
     else \<lparr>ad_reasoning = [], ad_content = x\<rparr>)"

definition whole_output :: "assistant_delta \<Rightarrow> parsed_tool_call list \<Rightarrow> bool \<Rightarrow> bool \<Rightarrow> parsed_output" where
  "whole_output d calls malformed truncated = \<lparr>po_reasoning = ad_reasoning d, po_content = ad_content d,
    po_tool_calls = calls, po_malformed = malformed, po_truncated = truncated\<rparr>"

definition assistant_spec ::
  "'v json_library \<Rightarrow> bool \<Rightarrow> bool \<Rightarrow> tool_function list option \<Rightarrow> bool \<Rightarrow> string \<Rightarrow> parsed_output" where
  "assistant_spec json split_reasoning parse_tools contract truncated x =
    (case (if parse_tools then find_str CALL_OPEN x else None) of
       None \<Rightarrow> whole_output (think_split split_reasoning x) [] False False
     | Some m \<Rightarrow>
        (case parse_qwen_tool_calls json (drop m x) contract of
           Some (_, calls) \<Rightarrow> whole_output (think_split split_reasoning (take m x)) calls False False
         | None \<Rightarrow>
            if truncated \<and> parse_qwen_tool_calls json (drop m x) None = None
            then whole_output (think_split split_reasoning (take m x)) [] False True
            else if contract \<noteq> None then whole_output (think_split split_reasoning (take m x)) [] True False
            else whole_output (think_split split_reasoning x) [] False False))"

lemma push_then_finish:
  assumes "reasoning_push x (reasoning_new sr) = (d, rp)"
  shows "append_delta d (fst (reasoning_finish rp)) = think_split sr x"
proof (cases sr)
  case False
  then show ?thesis using assms
    by (auto simp: reasoning_push_def reasoning_new_def content_delta_def reasoning_finish_def append_delta_def delta_default_def think_split_def)
next
  case True
  show ?thesis
  proof (cases "find_str THINK_END x")
    case None
    then show ?thesis using True assms
      by (auto simp: reasoning_push_def reasoning_new_def reasoning_finish_def append_delta_def delta_default_def think_split_def Let_def)
  next
    case (Some b)
    then show ?thesis using True assms
      by (auto simp: reasoning_push_def reasoning_new_def reasoning_finish_def append_delta_def delta_default_def think_split_def
          content_delta_eq Let_def split: if_splits)
  qed
qed

lemma append_delta_assoc: "append_delta (append_delta a b) c = append_delta a (append_delta b c)"
  by (simp add: append_delta_def)

lemma push_more_then_finish:
  assumes "reasoning_push x (reasoning_new sr) = (d, rp)"
  shows "append_delta d (fst (push_and_finish y rp)) = think_split sr (x @ y)"
proof -
  obtain d2 rp2 where y: "reasoning_push y rp = (d2, rp2)" by fastforce
  show ?thesis using push_then_finish [OF reasoning_push_merge [OF assms y]] y
    by (cases "reasoning_finish rp2") (simp add: push_and_finish_def append_delta_assoc)
qed

text \<open>The deltas a stream publishes, joined, and the parser after them.\<close>

fun push_all :: "string list \<Rightarrow> stream_parser \<Rightarrow> assistant_delta \<times> stream_parser" where
  "push_all [] sp = (delta_default, sp)"
| "push_all (x # xs) sp = (case stream_push x sp of (d, sp) \<Rightarrow> case push_all xs sp of (ds, sp) \<Rightarrow> (append_delta d ds, sp))"

lemma push_all_concat: "xs \<noteq> [] \<Longrightarrow> push_all xs sp = stream_push (concat xs) sp"
proof (induction xs arbitrary: sp)
  case (Cons x xs)
  obtain d1 sp1 where x: "stream_push x sp = (d1, sp1)" by fastforce
  show ?case
  proof (cases "xs = []")
    case True
    then show ?thesis using x by simp
  next
    case False
    obtain d2 sp2 where xs: "stream_push (concat xs) sp1 = (d2, sp2)" by fastforce
    then show ?thesis using stream_push_merge [OF x xs] Cons.IH [OF False, of sp1] x by simp
  qed
qed simp

definition stream_start :: "bool \<Rightarrow> bool \<Rightarrow> tool_function list option \<Rightarrow> stream_parser" where
  "stream_start split_reasoning parse_tools contract = \<lparr>as_reasoning = reasoning_new split_reasoning,
    as_parse_tools = parse_tools, as_pending_marker = [], as_tool_text = None, as_tool_constraint = contract\<rparr>"

lemma stream_starts:
  "stream_new sr pt = stream_start sr pt None" "stream_with_constraint sr spec = stream_start sr True (Some spec)"
  by (simp_all add: stream_new_def stream_with_constraint_def stream_start_def)

lemma push_nothing: "stream_push [] (stream_start sr pt contract) = (delta_default, stream_start sr pt contract)"
  by (auto simp: stream_push_def stream_start_def stream_reason_def reasoning_push_def reasoning_new_def content_delta_def
      delta_default_def THINK_END_def CALL_OPEN_def Let_def)

lemma push_all_start: "push_all xs (stream_start sr pt contract) = stream_push (concat xs) (stream_start sr pt contract)"
  by (cases "xs = []") (simp_all add: push_all_concat push_nothing)

lemma trim_Nil [simp]: "trim_start_words ws [] = []" "trim_end [] = []" "trim_start [] = []"
  using trim_start_words_suffix [of _ "[]"] by (simp_all add: trim_end_def trim_start_def)

lemma find_str_prefix: "prefix p s \<Longrightarrow> find_str p s = Some 0"
  by (simp add: find_str_Some)

lemma tool_text_prefix: "prefix CALL_OPEN t \<Longrightarrow> parse_qwen_tool_calls json t contract = Some (pre, calls) \<Longrightarrow> pre = []"
  using find_str_prefix [of CALL_OPEN t] by (auto simp: parse_qwen_tool_calls_def Let_def split: option.splits if_splits)

lemma joined_whole: "joined_output d (tail) = whole_output (append_delta d (af_delta tail)) (af_tool_calls tail) (af_malformed tail) (af_truncated tail)"
  by (simp add: joined_output_def whole_output_def append_delta_def)

lemma push_and_finish_Nil:
  assumes "reasoning_push x (reasoning_new sr) = (d, rp)"
  shows "append_delta d (fst (push_and_finish [] rp)) = think_split sr x"
  using push_more_then_finish [OF assms, of "[]"] by simp

lemma whole_text_output:
  "(case stream_push x (stream_start sr pt contract) of (d, sp) \<Rightarrow> joined_output d (fst (finish_with_truncation json truncated sp))) =
   assistant_spec json sr pt contract truncated x"
proof (cases "if pt then find_str CALL_OPEN x else None")
  case None
  show ?thesis
  proof (cases pt)
    case False
    obtain d rp where r: "reasoning_push x (reasoning_new sr) = (d, rp)" by fastforce
    show ?thesis using False r push_and_finish_Nil [OF r]
      by (cases "push_and_finish [] rp") (auto simp: stream_push_def stream_start_def stream_reason_def finish_with_truncation_def
          joined_whole plain_finish_def assistant_spec_def)
  next
    case True
    let ?k = "kept CALL_OPEN x"
    obtain d rp where r: "reasoning_push (take ?k x) (reasoning_new sr) = (d, rp)" by fastforce
    show ?thesis using True None r push_more_then_finish [OF r, of "drop ?k x"]
      by (cases "push_and_finish (drop ?k x) rp") (auto simp: stream_push_def stream_start_def stream_reason_def finish_with_truncation_def
          joined_whole plain_finish_def assistant_spec_def Let_def)
  qed
next
  case (Some m)
  then have pt: pt and m: "find_str CALL_OPEN x = Some m" by (auto split: if_splits)
  have pre: "prefix CALL_OPEN (drop m x)" using m by (simp add: find_str_Some)
  obtain d rp where r: "reasoning_push (take m x) (reasoning_new sr) = (d, rp)" by fastforce
  have push: "stream_push x (stream_start sr pt contract) = (d, \<lparr>as_reasoning = rp, as_parse_tools = True,
      as_pending_marker = [], as_tool_text = Some (drop m x), as_tool_constraint = contract\<rparr>)"
    using pt m r by (simp add: stream_push_def stream_start_def stream_reason_def)
  have whole: "append_delta d (fst (push_and_finish (drop m x) rp)) = think_split sr x"
    using push_more_then_finish [OF r, of "drop m x"] by simp
  show ?thesis
  proof (cases "parse_qwen_tool_calls json (drop m x) contract")
    case (Some r')
    then obtain calls where "parse_qwen_tool_calls json (drop m x) contract = Some ([], calls)"
      using tool_text_prefix [OF pre] by (cases r') auto
    then show ?thesis using push pt m push_and_finish_Nil [OF r]
      by (cases "push_and_finish [] rp") (auto simp: finish_with_truncation_def joined_whole plain_finish_def assistant_spec_def Let_def)
  next
    case None
    show ?thesis using None push pt m push_then_finish [OF r] whole
      by (cases "push_and_finish (drop m x) rp"; cases "reasoning_finish rp")
        (auto simp: finish_with_truncation_def joined_whole plain_finish_def assistant_spec_def Let_def)
  qed
qed

lemma constrained_spec: "parse_assistant_output_constrained json x sr spec truncated = assistant_spec json sr True (Some spec) truncated x"
  unfolding parse_assistant_output_constrained_def stream_starts whole_text_output ..

text \<open>C17: Streaming and batch parsing agree. However a generation is cut into deltas, the published reasoning
  and content, the tool calls and the flags add up to what the batch functions return for the whole text,
  and that is the declarative split: reasoning up to the first end-of-thinking marker, content after it
  less leading line breaks, tool calls from the first opening marker on, and nothing lost or repeated.\<close>

theorem streaming_equals_batch:
  "(case push_all deltas (stream_new sr pt) of (d, sp) \<Rightarrow> joined_output d (fst (stream_finish json sp))) =
      parse_assistant_output json (concat deltas) sr pt \<and>
   (case push_all deltas (stream_with_constraint sr spec) of (d, sp) \<Rightarrow> joined_output d (fst (finish_with_truncation json truncated sp))) =
      parse_assistant_output_constrained json (concat deltas) sr spec truncated \<and>
   parse_assistant_output json x sr pt = assistant_spec json sr pt None False x \<and>
   parse_assistant_output_constrained json x sr spec truncated = assistant_spec json sr True (Some spec) truncated x"
  unfolding parse_assistant_output_def parse_assistant_output_constrained_def stream_starts push_all_start stream_finish_def
    whole_text_output by simp

end
