(* ===== verification/AssistantCalls.thy ===== *)
theory AssistantCalls
  imports AssistantStream ToolLanguage
begin

text \<open>
  The tool-call constraint of the frontend and the tool-call parser of the server against each other: what
  the automaton lets a model write, the parser reads back, call by call and argument by argument.
\<close>

section \<open>Written calls\<close>

text \<open>A given parameter: whitespace, the parameter's index, the value. A call: the whitespace before each of its tags.\<close>

record written_call =
  wc_lead :: string
  wc_gap :: string
  wc_tool :: nat
  wc_given :: "(string \<times> nat \<times> string) list"
  wc_close :: string
  wc_end :: string

definition given_text :: "tool_function \<Rightarrow> string \<times> nat \<times> string \<Rightarrow> string" where
  "given_text tool g = fst g @ parameter_tag (tf_parameters tool ! fst (snd g)) @ snd (snd g) @ PARAMETER_CLOSE"

definition given_texts :: "tool_function \<Rightarrow> (string \<times> nat \<times> string) list \<Rightarrow> string" where
  "given_texts tool gs = concat (map (given_text tool) gs)"

definition call_text :: "tool_function list \<Rightarrow> written_call \<Rightarrow> string" where
  "call_text tools c = wc_lead c @ CALL_OPEN @ wc_gap c @ function_tag (tools ! wc_tool c) @
    given_texts (tools ! wc_tool c) (wc_given c) @ wc_close c @ FUNCTION_CLOSE @ wc_end c @ CALL_CLOSE"

definition given_valid :: "tool_function \<Rightarrow> (string \<times> nat \<times> string) list \<Rightarrow> bool" where
  "given_valid tool gs \<longleftrightarrow> distinct (map (fst \<circ> snd) gs) \<and>
    (\<forall>g\<in>set gs. blank (fst g) \<and> fst (snd g) < length (tf_parameters tool) \<and> free_of close_markers (snd (snd g)))"

definition call_valid :: "tool_function list \<Rightarrow> written_call \<Rightarrow> bool" where
  "call_valid tools c \<longleftrightarrow> blank (wc_lead c) \<and> blank (wc_gap c) \<and> blank (wc_close c) \<and> blank (wc_end c) \<and>
    wc_tool c < length tools \<and> given_valid (tools ! wc_tool c) (wc_given c) \<and>
    required_set (tools ! wc_tool c) \<subseteq> fst ` snd ` set (wc_given c)"

definition calls_text :: "tool_function list \<Rightarrow> written_call list \<Rightarrow> string" where
  "calls_text tools cs = concat (map (call_text tools) cs)"

definition calls_valid :: "tool_function list \<Rightarrow> string \<Rightarrow> written_call list \<Rightarrow> bool" where
  "calls_valid tools content cs \<longleftrightarrow> free_of [CALL_OPEN] content \<and> (\<forall>c\<in>set cs. call_valid tools c) \<and>
    (cs \<noteq> [] \<longrightarrow> wc_lead (hd cs) = [])"

text \<open>The texts of the grammar are content and written calls; an unfinished call is cut after its last complete part.\<close>

definition open_split :: "tool_function list \<Rightarrow> string \<Rightarrow> written_call list \<Rightarrow> string \<Rightarrow> bool" where
  "open_split tools content cs lead \<longleftrightarrow> calls_valid tools content cs \<and> blank lead \<and> (cs = [] \<longrightarrow> lead = [])"

lemma calls_snoc:
  "open_split tools content cs lead \<Longrightarrow> call_valid tools c \<Longrightarrow> wc_lead c = lead \<Longrightarrow> calls_valid tools content (cs @ [c])"
  by (cases cs) (auto simp: open_split_def calls_valid_def)

lemma given_snoc:
  "given_valid tool gs \<Longrightarrow> p \<notin> fst ` snd ` set gs \<Longrightarrow> blank ws \<Longrightarrow> p < length (tf_parameters tool) \<Longrightarrow> free_of close_markers v \<Longrightarrow>
    given_valid tool (gs @ [(ws, p, v)])"
  by (auto simp: given_valid_def)

lemma grammar_split:
  shows "opened tools x \<Longrightarrow> \<exists>content cs lead. open_split tools content cs lead \<and> x = content @ calls_text tools cs @ lead @ CALL_OPEN"
    and "bound tools t U x \<Longrightarrow> \<exists>content cs lead gap gs. open_split tools content cs lead \<and> blank gap \<and> t < length tools \<and>
      given_valid (tools ! t) gs \<and> U = fst ` snd ` set gs \<and>
      x = content @ calls_text tools cs @ lead @ CALL_OPEN @ gap @ function_tag (tools ! t) @ given_texts (tools ! t) gs"
    and "closing tools x \<Longrightarrow> \<exists>content cs c. open_split tools content cs (wc_lead c) \<and> call_valid tools (c\<lparr>wc_end := []\<rparr>) \<and>
      x = content @ calls_text tools cs @ wc_lead c @ CALL_OPEN @ wc_gap c @ function_tag (tools ! wc_tool c) @
        given_texts (tools ! wc_tool c) (wc_given c) @ wc_close c @ FUNCTION_CLOSE"
    and "closed tools x \<Longrightarrow> \<exists>content cs. cs \<noteq> [] \<and> calls_valid tools content cs \<and> x = content @ calls_text tools cs"
proof (induction rule: opened_bound_closing_closed.inducts)
  case (opened_first c)
  then have "open_split tools c [] []" by (simp add: open_split_def calls_valid_def)
  then show ?case by (intro exI [of _ c] exI [of _ "[]"]) (simp add: calls_text_def)
next
  case (opened_next x ws)
  then obtain content cs where "cs \<noteq> []" "calls_valid tools content cs" "x = content @ calls_text tools cs" by blast
  then show ?case using opened_next by (intro exI [of _ content] exI [of _ cs] exI [of _ ws]) (simp add: open_split_def)
next
  case (bound_function x ws t)
  then obtain content cs lead where "open_split tools content cs lead" "x = content @ calls_text tools cs @ lead @ CALL_OPEN" by blast
  then show ?case using bound_function
    by (intro exI [of _ content] exI [of _ cs] exI [of _ lead] exI [of _ ws] exI [of _ "[]"]) (simp add: given_valid_def given_texts_def)
next
  case (bound_parameter t U x ws p v)
  then obtain content cs lead gap gs where s: "open_split tools content cs lead" "blank gap" "t < length tools"
    "given_valid (tools ! t) gs" "U = fst ` snd ` set gs"
    "x = content @ calls_text tools cs @ lead @ CALL_OPEN @ gap @ function_tag (tools ! t) @ given_texts (tools ! t) gs" by blast
  then show ?case using bound_parameter given_snoc [OF s(4)]
    by (intro exI [of _ content] exI [of _ cs] exI [of _ lead] exI [of _ gap] exI [of _ "gs @ [(ws, p, v)]"])
      (simp add: given_texts_def given_text_def)
next
  case (closing_function t U x ws)
  then obtain content cs lead gap gs where s: "open_split tools content cs lead" "blank gap" "t < length tools"
    "given_valid (tools ! t) gs" "U = fst ` snd ` set gs"
    "x = content @ calls_text tools cs @ lead @ CALL_OPEN @ gap @ function_tag (tools ! t) @ given_texts (tools ! t) gs" by blast
  then show ?case using closing_function
    by (intro exI [of _ content] exI [of _ cs] exI [of _ "\<lparr>wc_lead = lead, wc_gap = gap, wc_tool = t, wc_given = gs, wc_close = ws, wc_end = []\<rparr>"])
      (simp add: call_valid_def open_split_def)
next
  case (closed_call x ws)
  then obtain content cs c where s: "open_split tools content cs (wc_lead c)" "call_valid tools (c\<lparr>wc_end := []\<rparr>)"
    "x = content @ calls_text tools cs @ wc_lead c @ CALL_OPEN @ wc_gap c @ function_tag (tools ! wc_tool c) @
        given_texts (tools ! wc_tool c) (wc_given c) @ wc_close c @ FUNCTION_CLOSE" by blast
  let ?c = "c\<lparr>wc_end := ws\<rparr>"
  have "call_valid tools ?c" using s(2) closed_call by (simp add: call_valid_def)
  then have "calls_valid tools content (cs @ [?c])" by (intro calls_snoc [OF s(1)]) simp_all
  then show ?case using s(3) by (intro exI [of _ content] exI [of _ "cs @ [?c]"]) (simp add: calls_text_def call_text_def)
qed

section \<open>Searches over written calls\<close>

lemma angle_skip: "angle_word p \<Longrightarrow> CHR ''<'' \<notin> set a \<Longrightarrow> sublist p (a @ s) \<longleftrightarrow> sublist p s"
proof (induction a)
  case (Cons c a)
  have "\<not> prefix p (c # a @ s)" using Cons.prems by (cases p) (auto simp: angle_word_def)
  then show ?case using Cons by (simp add: sublist_Cons_right)
qed simp

text \<open>A marker cannot run over a following angle bracket.\<close>

lemma angle_prefix_cut: "angle_word p \<Longrightarrow> a \<noteq> [] \<Longrightarrow> prefix p (a @ CHR ''<'' # r) \<Longrightarrow> prefix p a"
proof -
  assume p: "angle_word p" and a: "a \<noteq> []" and pre: "prefix p (a @ CHR ''<'' # r)"
  show "prefix p a"
  proof (rule ccontr)
    assume "\<not> prefix p a"
    then obtain z where z: "p = a @ z" "z \<noteq> []" "prefix z (CHR ''<'' # r)" using pre by (auto simp: prefix_append)
    then have "CHR ''<'' \<in> set (tl p)" using a by (cases a; cases z) auto
    then show False using p by (simp add: angle_word_def)
  qed
qed

lemma angle_sublist_cut: "angle_word p \<Longrightarrow> sublist p (a @ CHR ''<'' # r) \<Longrightarrow> sublist p a \<or> sublist p (CHR ''<'' # r)"
proof (induction a)
  case (Cons c a)
  then show ?case using angle_prefix_cut [of p "c # a" r] by (auto simp: sublist_Cons_right)
qed simp

lemma prefix_drop_sublist: "prefix p (drop j s) \<Longrightarrow> sublist p s"
  using prefix_imp_sublist sublist_drop [of j s] sublist_order.order_trans by blast

lemma find_marker: "angle_word p \<Longrightarrow> \<not> sublist p v \<Longrightarrow> find_str p (v @ p @ r) = Some (length v)"
proof -
  assume p: "angle_word p" and v: "\<not> sublist p v"
  obtain q where q: "p = CHR ''<'' # q" using p by (cases p) (auto simp: angle_word_def)
  have "\<not> prefix p (drop j (v @ p @ r))" if j: "j < length v" for j
  proof
    assume "prefix p (drop j (v @ p @ r))"
    then have "prefix p (drop j v @ CHR ''<'' # (q @ r))" using j q by simp
    then have "prefix p (drop j v)" by (rule angle_prefix_cut [OF p, rotated]) (use j in simp)
    then show False using v prefix_drop_sublist by blast
  qed
  then show ?thesis by (simp add: find_str_Some)
qed

lemma find_char: "c \<notin> set v \<Longrightarrow> find_str [c] (v @ c # r) = Some (length v)"
  by (induction v) auto

lemma marker_angles: "angle_word PARAMETER_CLOSE" "angle_word FUNCTION_CLOSE" "angle_word CALL_CLOSE" "angle_word CALL_OPEN"
  by (simp_all add: angle_word_def literal_defs PREFIX_CAPACITY_def)

section \<open>Trimming\<close>

lemma trim_stops: "(\<And>w. w \<in> set ws \<Longrightarrow> w \<noteq> [] \<Longrightarrow> \<not> prefix w s) \<Longrightarrow> trim_start_words ws s = s"
proof -
  assume "\<And>w. w \<in> set ws \<Longrightarrow> w \<noteq> [] \<Longrightarrow> \<not> prefix w s"
  then have "find (\<lambda>w. w \<noteq> [] \<and> prefix w s) ws = None" by (auto simp: find_None_iff)
  then show ?thesis by (subst trim_start_words.simps) simp
qed

lemma space_word_head: "w \<in> set space_words \<Longrightarrow> is_name_byte c \<or> c = CHR ''<'' \<Longrightarrow> c \<notin> set w"
proof -
  assume w: "w \<in> set space_words" and c: "is_name_byte c \<or> c = CHR ''<''"
  have "list_all (\<lambda>w. list_all (\<lambda>c. \<not> is_name_byte c \<and> c \<noteq> CHR ''<'') w) space_words" by code_simp
  then show "c \<notin> set w" using w c by (auto simp: list_all_iff)
qed

lemma trim_plain:
  assumes "\<And>w. w \<in> set space_words \<Longrightarrow> w \<noteq> [] \<Longrightarrow> hd s \<notin> set w" and "s \<noteq> []"
  shows "trim_start s = s"
  unfolding trim_start_def
proof (rule trim_stops)
  fix w assume w: "w \<in> set space_words" "w \<noteq> []"
  show "\<not> prefix w s"
  proof
    assume "prefix w s"
    then have "hd w = hd s" using w(2) by (auto simp: prefix_def)
    then show False using assms(1) [OF w] hd_in_set [OF w(2)] by simp
  qed
qed

lemma trim_start_angle: "trim_start (CHR ''<'' # s) = CHR ''<'' # s"
  by (rule trim_plain) (use space_word_head in auto)

lemma trim_name: "name_ok name \<Longrightarrow> trim name = name"
proof -
  assume n: "name_ok name"
  then have ne: "name \<noteq> []" and bytes: "list_all is_name_byte name" by (auto simp: name_ok_def)
  have "trim_start name = name"
    by (rule trim_plain) (use ne bytes space_word_head in \<open>auto simp: list_all_iff\<close>)
  moreover have "trim_start_words (map rev space_words) (rev name) = rev name"
  proof (rule trim_stops)
    fix w assume w: "w \<in> set (map rev space_words)" "w \<noteq> []"
    then obtain w' where w': "w = rev w'" "w' \<in> set space_words" by auto
    have "hd w \<in> set w'" using w'(1) w(2) by (metis hd_in_set set_rev)
    moreover have "is_name_byte (hd (rev name))" using ne bytes by (metis hd_in_set list_all_iff rev_is_Nil_conv set_rev)
    ultimately have "hd w \<noteq> hd (rev name)" using space_word_head [OF w'(2)] by metis
    then show "\<not> prefix w (rev name)" using w(2) ne by (cases w; cases "rev name") auto
  qed
  ultimately show ?thesis by (simp add: trim_def trim_end_def)
qed

lemma space_words_ascii:
  assumes c: "is_ascii_whitespace c"
  shows "[c] \<in> set space_words" and "w \<in> set space_words \<Longrightarrow> w \<noteq> [] \<Longrightarrow> prefix w (c # s) \<Longrightarrow> w = [c]"
proof -
  have all: "list_all (\<lambda>c. list_ex (\<lambda>w. w = [c]) space_words \<and> list_all (\<lambda>w. w \<noteq> [] \<and> hd w = c \<longrightarrow> w = [c]) space_words)
      [CHR 0x20, CHR 0x09, CHR 0x0A, CHR 0x0C, CHR 0x0D]" by code_simp
  have "c \<in> set [CHR 0x20, CHR 0x09, CHR 0x0A, CHR 0x0C, CHR 0x0D]" using c by (simp add: is_ascii_whitespace_def)
  then have one: "list_ex (\<lambda>w. w = [c]) space_words" "list_all (\<lambda>w. w \<noteq> [] \<and> hd w = c \<longrightarrow> w = [c]) space_words"
    using all unfolding list_all_iff by blast+
  show "[c] \<in> set space_words" using one(1) by (simp add: list_ex_iff)
  show "w = [c]" if "w \<in> set space_words" "w \<noteq> []" "prefix w (c # s)"
    using one(2) that by (cases w) (auto simp: list_all_iff)
qed

lemma trim_start_space: "is_ascii_whitespace c \<Longrightarrow> trim_start (c # s) = trim_start s"
proof -
  assume c: "is_ascii_whitespace c"
  obtain w where w: "find (\<lambda>w. w \<noteq> [] \<and> prefix w (c # s)) space_words = Some w"
    using space_words_ascii(1) [OF c]
    by (cases "find (\<lambda>w. w \<noteq> [] \<and> prefix w (c # s)) space_words") (auto simp: find_None_iff)
  then have "w \<in> set space_words \<and> w \<noteq> [] \<and> prefix w (c # s)" unfolding find_Some_iff by (metis nth_mem)
  then have "w = [c]" using space_words_ascii(2) [OF c] by blast
  then show ?thesis unfolding trim_start_def using w by (subst trim_start_words.simps) simp
qed

lemma trim_start_blank: "blank ws \<Longrightarrow> trim_start (ws @ s) = trim_start s"
  by (induction ws) (simp_all add: blank_def trim_start_space)

lemma trim_words_keep: "c \<in> set s \<Longrightarrow> (\<And>w. w \<in> set ws \<Longrightarrow> c \<notin> set w) \<Longrightarrow> c \<in> set (trim_start_words ws s)"
proof (induction ws s rule: trim_start_words.induct)
  case (1 ws s)
  show ?case
  proof (cases "find (\<lambda>w. w \<noteq> [] \<and> prefix w s) ws")
    case None
    then show ?thesis using 1(2) by (subst trim_start_words.simps) simp
  next
    case (Some w)
    then have w: "w \<in> set ws" "prefix w s" by (auto simp: find_Some_iff)
    then have "c \<in> set (drop (length w) s)" using 1(2,3) by (auto simp: prefix_def)
    then have "c \<in> set (trim_start_words ws (drop (length w) s))" using 1(1) [OF Some] 1(3) by blast
    then show ?thesis using Some by (subst trim_start_words.simps) simp
  qed
qed

lemma trim_angle_not_Nil: "CHR ''<'' \<in> set s \<Longrightarrow> trim s \<noteq> []"
proof -
  assume s: "CHR ''<'' \<in> set s"
  have keep: "CHR ''<'' \<notin> set w" if "w \<in> set space_words" for w by (rule space_word_head [OF that]) simp
  have "CHR ''<'' \<in> set (trim_start s)" unfolding trim_start_def by (rule trim_words_keep [OF s keep])
  then have "CHR ''<'' \<in> set (trim_start_words (map rev space_words) (rev (trim_start s)))"
    by (intro trim_words_keep) (use keep in \<open>auto simp del: map_map\<close>)
  then show ?thesis by (cases "trim_start_words (map rev space_words) (rev (trim_start s))") (simp_all add: trim_def trim_end_def)
qed

section \<open>Reading calls back\<close>

definition given_value :: "'v json_library \<Rightarrow> string \<Rightarrow> 'v" where
  "given_value json v = (case json_parse json (trim v) of Some x \<Rightarrow> x | None \<Rightarrow> json_text json (trim v))"

definition given_meaning :: "'v json_library \<Rightarrow> tool_function \<Rightarrow> string \<times> nat \<times> string \<Rightarrow> string \<times> 'v" where
  "given_meaning json tool g = (tp_name (tf_parameters tool ! fst (snd g)), given_value json (snd (snd g)))"

definition call_meaning :: "'v json_library \<Rightarrow> tool_function list \<Rightarrow> written_call \<Rightarrow> parsed_tool_call" where
  "call_meaning json tools c = \<lparr>pc_name = tf_name (tools ! wc_tool c),
    pc_arguments = json_render json (map (given_meaning json (tools ! wc_tool c)) (wc_given c))\<rparr>"

lemma blank_no_angle: "blank ws \<Longrightarrow> CHR ''<'' \<notin> set ws"
  by (induction ws) (auto simp: blank_def is_ascii_whitespace_def)

lemma given_valid_Cons: "given_valid tool (g # gs) \<longleftrightarrow> blank (fst g) \<and> fst (snd g) < length (tf_parameters tool) \<and>
    free_of close_markers (snd (snd g)) \<and> given_valid tool gs \<and> (\<forall>g'\<in>set gs. fst (snd g') \<noteq> fst (snd g))"
  by (auto simp: given_valid_def image_iff)

lemma find_close_tag: "name_ok name \<Longrightarrow> find_str ''>'' (name @ CHR ''>'' # r) = Some (length name)"
  by (rule find_char) (use name_byte_plain [of name] in blast)

lemma free_of_angle: "free_of ps v \<Longrightarrow> p \<in> set ps \<Longrightarrow> \<not> sublist p v"
  by (simp add: free_of_def)

lemma function_parameter_known:
  "p < length (tf_parameters tool) \<Longrightarrow> function_parameter tool (tp_name (tf_parameters tool ! p)) \<noteq> None"
  unfolding function_parameter_def find_None_iff using nth_mem [of p "tf_parameters tool"] by blast

lemma parse_given:
  assumes ws: "blank (fst g)" and p: "fst (snd g) < length (tf_parameters tool)" and v: "free_of close_markers (snd (snd g))"
    and name: "name_ok (tp_name (tf_parameters tool ! fst (snd g)))"
    and fresh: "tp_name (tf_parameters tool ! fst (snd g)) \<notin> fst ` set arguments"
  shows "parse_parameter json (Some tool) arguments (given_text tool g @ r) =
    Some (r, given_meaning json tool g)"
proof -
  let ?name = "tp_name (tf_parameters tool ! fst (snd g))"
  let ?v = "snd (snd g)"
  have start: "trim_start (given_text tool g @ r) = PARAMETER_OPEN @ ?name @ CHR ''>'' # (?v @ PARAMETER_CLOSE @ r)"
    using trim_start_blank [OF ws] trim_start_angle
    by (simp add: given_text_def parameter_tag_def PARAMETER_OPEN_def)
  have strip: "strip_prefix PARAMETER_OPEN (trim_start (given_text tool g @ r)) = Some (?name @ CHR ''>'' # (?v @ PARAMETER_CLOSE @ r))"
    unfolding start strip_prefix_Some ..
  have close: "find_str PARAMETER_CLOSE (?v @ PARAMETER_CLOSE @ r) = Some (length ?v)"
    by (rule find_marker [OF marker_angles(1) free_of_angle [OF v]]) simp
  have "?name \<noteq> [] \<and> CHR ''<'' \<notin> set ?name" using name name_byte_plain [OF name] by (auto simp: name_ok_def)
  then show ?thesis using fresh function_parameter_known [OF p]
    by (simp add: parse_parameter_def strip find_close_tag [OF name] Let_def trim_name [OF name] close given_meaning_def given_value_def
        split: option.split)
qed

lemma given_texts_simps [simp]: "given_texts tool [] = []" "given_texts tool (g # gs) = given_text tool g @ given_texts tool gs"
  by (simp_all add: given_texts_def)

lemma given_angle: "CHR ''<'' \<in> set (given_text tool g)"
  by (simp add: given_text_def parameter_tag_def)

lemma trim_blank: "blank ws \<Longrightarrow> trim ws = []"
  using trim_start_blank [of ws "[]"] by (simp add: trim_def)

lemma parse_givens:
  assumes names: "\<forall>p<length (tf_parameters tool). name_ok (tp_name (tf_parameters tool ! p))"
    and distinct_names: "distinct (map tp_name (tf_parameters tool))" and ws: "blank ws"
  shows "given_valid tool gs \<Longrightarrow> fst ` set arguments \<inter> fst ` given_meaning json tool ` set gs = {} \<Longrightarrow>
    parse_parameters json (Some tool) arguments (given_texts tool gs @ ws) = Some (arguments @ map (given_meaning json tool) gs)"
proof (induction gs arbitrary: arguments)
  case Nil
  then show ?case using trim_blank [OF ws] by (subst parse_parameters.simps) simp
next
  case (Cons g gs)
  let ?rest = "given_texts tool gs @ ws"
  have g: "blank (fst g)" "fst (snd g) < length (tf_parameters tool)" "free_of close_markers (snd (snd g))"
    and gs: "given_valid tool gs" and others: "\<forall>g'\<in>set gs. fst (snd g') \<noteq> fst (snd g)"
    using Cons.prems(1) unfolding given_valid_Cons by blast+
  have name: "name_ok (tp_name (tf_parameters tool ! fst (snd g)))" using names g(2) by blast
  have first: "fst (given_meaning json tool g) = tp_name (tf_parameters tool ! fst (snd g))" by (simp add: given_meaning_def)
  have step: "parse_parameter json (Some tool) arguments (given_text tool g @ ?rest) = Some (?rest, given_meaning json tool g)"
    by (rule parse_given [OF g name]) (use Cons.prems(2) first in auto)
  have other: "fst (given_meaning json tool g') \<noteq> fst (given_meaning json tool g)" if g': "g' \<in> set gs" for g'
  proof -
    have "fst (snd g') < length (tf_parameters tool)" "fst (snd g') \<noteq> fst (snd g)"
      using gs others g' by (simp_all add: given_valid_def)
    then show ?thesis using distinct_names g(2) by (simp add: given_meaning_def distinct_conv_nth)
  qed
  have "parse_parameters json (Some tool) (arguments @ [given_meaning json tool g]) ?rest =
      Some ((arguments @ [given_meaning json tool g]) @ map (given_meaning json tool) gs)"
  proof (rule Cons.IH [OF gs(1)])
    have "fst (given_meaning json tool g) \<notin> fst ` given_meaning json tool ` set gs"
    proof
      assume "fst (given_meaning json tool g) \<in> fst ` given_meaning json tool ` set gs"
      then obtain g' where "g' \<in> set gs" "fst (given_meaning json tool g) = fst (given_meaning json tool g')" by blast
      then show False using other [of g'] by simp
    qed
    then show "fst ` set (arguments @ [given_meaning json tool g]) \<inter> fst ` given_meaning json tool ` set gs = {}"
      using Cons.prems(2) by (simp add: Int_Un_distrib2)
  qed
  moreover have "trim (given_text tool g @ ?rest) \<noteq> []" by (rule trim_angle_not_Nil) (use given_angle in simp)
  ultimately show ?case using step by (subst parse_parameters.simps) (simp split: prod.split)
qed

text \<open>The function's body has no closing function tag.\<close>

lemma body_no_close:
  assumes names: "\<forall>p<length (tf_parameters tool). name_ok (tp_name (tf_parameters tool ! p))" and ws: "blank ws"
  shows "given_valid tool gs \<Longrightarrow> \<not> sublist FUNCTION_CLOSE (given_texts tool gs @ ws)"
proof (induction gs)
  case Nil
  show ?case using angle_skip [OF marker_angles(2) blank_no_angle [OF ws], of "[]"] by (simp add: FUNCTION_CLOSE_def)
next
  case (Cons g gs)
  have g: "blank (fst g)" "fst (snd g) < length (tf_parameters tool)" "free_of close_markers (snd (snd g))"
    and gs: "given_valid tool gs" using Cons.prems unfolding given_valid_Cons by blast+
  let ?v = "snd (snd g)"
  let ?name = "tp_name (tf_parameters tool ! fst (snd g))"
  let ?rest = "given_texts tool gs @ ws"
  have plain: "CHR ''<'' \<notin> set (fst g)" "CHR ''<'' \<notin> set (''parameter='' @ ?name @ ''>'')" "CHR ''<'' \<notin> set (''/parameter>'')"
    using blank_no_angle [OF g(1)] names g(2) name_byte_plain [of ?name] by auto
  show ?case
  proof
    assume "sublist FUNCTION_CLOSE (given_texts tool (g # gs) @ ws)"
    then have "sublist FUNCTION_CLOSE (CHR ''<'' # (''parameter='' @ ?name @ ''>'') @ ?v @ PARAMETER_CLOSE @ ?rest)"
      using angle_skip [OF marker_angles(2) plain(1)] by (simp add: given_text_def parameter_tag_def)
    then have "sublist FUNCTION_CLOSE ((''parameter='' @ ?name @ ''>'') @ ?v @ PARAMETER_CLOSE @ ?rest)"
      by (simp add: sublist_Cons_right FUNCTION_CLOSE_def)
    then have "sublist FUNCTION_CLOSE (?v @ PARAMETER_CLOSE @ ?rest)"
      unfolding angle_skip [OF marker_angles(2) plain(2)] .
    then have "sublist FUNCTION_CLOSE (?v @ CHR ''<'' # (''/parameter>'' @ ?rest))" by (simp add: PARAMETER_CLOSE_def)
    then have "sublist FUNCTION_CLOSE (CHR ''<'' # (''/parameter>'' @ ?rest))"
      using angle_sublist_cut [OF marker_angles(2)] free_of_angle [OF g(3), of FUNCTION_CLOSE] by auto
    then have "sublist FUNCTION_CLOSE (''/parameter>'' @ ?rest)" by (simp add: sublist_Cons_right FUNCTION_CLOSE_def)
    then have "sublist FUNCTION_CLOSE ?rest" unfolding angle_skip [OF marker_angles(2) plain(3)] .
    then show False using Cons.IH [OF gs] by blast
  qed
qed

lemma written_facts:
  assumes ok: "tools_ok tools" and c: "call_valid tools c"
  shows "spec_tool tools (tf_name (tools ! wc_tool c)) = Some (tools ! wc_tool c)"
    and "\<not> list_ex (\<lambda>p. tp_required p \<and> tp_name p \<notin> fst ` given_meaning json (tools ! wc_tool c) ` set (wc_given c)) (tf_parameters (tools ! wc_tool c))"
proof -
  have t: "wc_tool c < length tools" using c by (simp add: call_valid_def)
  have d: "distinct (map tf_name tools)" using ok by (simp add: tools_ok_def)
  have "spec_tool tools (tf_name (tools ! wc_tool c)) \<noteq> None" unfolding spec_tool_def find_None_iff using nth_mem [OF t] by blast
  then obtain tool where tool: "spec_tool tools (tf_name (tools ! wc_tool c)) = Some tool" by blast
  then obtain i where i: "i < length tools" "tools ! i = tool" "tf_name tool = tf_name (tools ! wc_tool c)"
    by (auto simp: spec_tool_def find_Some_iff)
  then have "i = wc_tool c" using d t by (simp add: distinct_conv_nth) metis
  then show "spec_tool tools (tf_name (tools ! wc_tool c)) = Some (tools ! wc_tool c)" using tool i(2) by simp
  let ?ps = "tf_parameters (tools ! wc_tool c)"
  have "tp_name p \<in> fst ` given_meaning json (tools ! wc_tool c) ` set (wc_given c)" if p: "p \<in> set ?ps" "tp_required p" for p
  proof -
    obtain i where i: "i < length ?ps" "?ps ! i = p" using p(1) by (auto simp: in_set_conv_nth)
    then have "i \<in> fst ` snd ` set (wc_given c)" using c p(2) by (auto simp: call_valid_def required_set_def)
    then obtain g where g: "g \<in> set (wc_given c)" "fst (snd g) = i" by auto
    then have "fst (given_meaning json (tools ! wc_tool c) g) = tp_name p" using i by (simp add: given_meaning_def)
    then show ?thesis using g(1) by (metis image_eqI)
  qed
  then show "\<not> list_ex (\<lambda>p. tp_required p \<and> tp_name p \<notin> fst ` given_meaning json (tools ! wc_tool c) ` set (wc_given c)) ?ps"
    by (auto simp: list_ex_iff)
qed

lemma parse_call_turn:
  assumes "strip_prefix CALL_OPEN s = Some s1" and "strip_prefix FUNCTION_OPEN (trim_start s1) = Some s2"
    and "find_str ''>'' s2 = Some n" and "trim (take n s2) = name" and "name \<noteq> []" and "CHR ''<'' \<notin> set name"
    and "spec_tool tools name = Some tool" and "drop (n + 1) s2 = s3"
    and "find_str FUNCTION_CLOSE s3 = Some e" and "parse_parameters json (Some tool) [] (take e s3) = Some arguments"
    and "\<not> list_ex (\<lambda>p. tp_required p \<and> tp_name p \<notin> fst ` set arguments) (tf_parameters tool)"
    and "strip_prefix CALL_CLOSE (trim_start (drop (e + length FUNCTION_CLOSE) s3)) = Some r"
  shows "parse_call json (Some tools) s = Some (r, \<lparr>pc_name = name, pc_arguments = json_render json arguments\<rparr>)"
  using assms by (simp add: parse_call_def Let_def)

lemma parse_written:
  assumes ok: "tools_ok tools" and c: "call_valid tools c"
  shows "parse_call json (Some tools) (trim_start (call_text tools c @ r)) = Some (r, call_meaning json tools c)"
    and "trim_start (call_text tools c @ r) \<noteq> []"
proof -
  let ?tool = "tools ! wc_tool c"
  let ?name = "tf_name ?tool"
  let ?body = "given_texts ?tool (wc_given c) @ wc_close c"
  have t: "wc_tool c < length tools" and blanks: "blank (wc_lead c)" "blank (wc_gap c)" "blank (wc_close c)" "blank (wc_end c)"
    and gs: "given_valid ?tool (wc_given c)" using c by (simp_all add: call_valid_def)
  note f = tools_okD [OF ok t]
  have names: "\<forall>p<length (tf_parameters ?tool). name_ok (tp_name (tf_parameters ?tool ! p))" using f(4) by blast
  have start: "trim_start (call_text tools c @ r) =
      CALL_OPEN @ wc_gap c @ FUNCTION_OPEN @ ?name @ CHR ''>'' # (?body @ FUNCTION_CLOSE @ wc_end c @ CALL_CLOSE @ r)"
    using trim_start_blank [OF blanks(1)] trim_start_angle
    by (simp add: call_text_def CALL_OPEN_def function_tag_def FUNCTION_OPEN_def)
  show "trim_start (call_text tools c @ r) \<noteq> []" unfolding start by (simp add: CALL_OPEN_def)
  have gap: "trim_start (wc_gap c @ FUNCTION_OPEN @ s) = FUNCTION_OPEN @ s" for s
    using trim_start_blank [OF blanks(2)] trim_start_angle by (simp add: FUNCTION_OPEN_def)
  have ending: "trim_start (wc_end c @ CALL_CLOSE @ s) = CALL_CLOSE @ s" for s
    using trim_start_blank [OF blanks(4)] trim_start_angle by (simp add: CALL_CLOSE_def)
  have close: "find_str FUNCTION_CLOSE (?body @ FUNCTION_CLOSE @ s) = Some (length ?body)" for s
    by (rule find_marker [OF marker_angles(2) body_no_close [OF names blanks(3) gs]])
  have args: "parse_parameters json (Some ?tool) [] ?body = Some (map (given_meaning json ?tool) (wc_given c))"
    using parse_givens [OF names f(3) blanks(3) gs, of "[]" json] by simp
  have strip: "strip_prefix p (p @ s) = Some s" for p s by (simp add: strip_prefix_Some)
  have name: "?name \<noteq> []" "CHR ''<'' \<notin> set ?name" using f(1) name_byte_plain [OF f(1)] by (auto simp: name_ok_def)
  have cut: "take (length ?body) (?body @ s) = ?body" "drop (length ?body + n) (?body @ s) = drop n s" for s n
    by (simp_all del: append_assoc)
  let ?rest = "?body @ FUNCTION_CLOSE @ wc_end c @ CALL_CLOSE @ r"
  show "parse_call json (Some tools) (trim_start (call_text tools c @ r)) = Some (r, call_meaning json tools c)"
    unfolding start call_meaning_def
  proof (rule parse_call_turn [where ?s3.0 = ?rest])
    show "find_str FUNCTION_CLOSE ?rest = Some (length ?body)" by (rule close)
    show "parse_parameters json (Some ?tool) [] (take (length ?body) ?rest) = Some (map (given_meaning json ?tool) (wc_given c))"
      unfolding cut by (rule args)
    show "strip_prefix CALL_CLOSE (trim_start (drop (length ?body + length FUNCTION_CLOSE) ?rest)) = Some r"
      unfolding cut by (simp add: ending strip)
    show "strip_prefix CALL_OPEN (CALL_OPEN @ wc_gap c @ FUNCTION_OPEN @ ?name @ CHR ''>'' # ?rest) =
        Some (wc_gap c @ FUNCTION_OPEN @ ?name @ CHR ''>'' # ?rest)" by (rule strip)
    show "strip_prefix FUNCTION_OPEN (trim_start (wc_gap c @ FUNCTION_OPEN @ ?name @ CHR ''>'' # ?rest)) = Some (?name @ CHR ''>'' # ?rest)"
      unfolding gap by (rule strip)
    show "find_str ''>'' (?name @ CHR ''>'' # ?rest) = Some (length ?name)" by (rule find_close_tag [OF f(1)])
    show "spec_tool tools ?name = Some ?tool" by (rule written_facts(1) [OF ok c])
    show "\<not> list_ex (\<lambda>p. tp_required p \<and> tp_name p \<notin> fst ` set (map (given_meaning json ?tool) (wc_given c))) (tf_parameters ?tool)"
      using written_facts(2) [OF ok c, of json] by simp
  qed (use name trim_name [OF f(1)] in simp_all)
qed

text \<open>The call loop reads the written calls and goes on after them.\<close>

lemma parse_calls_written:
  assumes ok: "tools_ok tools"
  shows "\<forall>c\<in>set cs. call_valid tools c \<Longrightarrow>
    parse_calls json (Some tools) acc (calls_text tools cs @ r) = parse_calls json (Some tools) (acc @ map (call_meaning json tools) cs) r"
proof (induction cs arbitrary: acc)
  case (Cons c cs)
  have c: "call_valid tools c" using Cons.prems by simp
  have "parse_calls json (Some tools) acc (call_text tools c @ calls_text tools cs @ r) =
      parse_calls json (Some tools) (acc @ [call_meaning json tools c]) (calls_text tools cs @ r)"
    using parse_written(1) [OF ok c, of json "calls_text tools cs @ r"] parse_written(2) [OF ok c, of "calls_text tools cs @ r"]
    by (subst parse_calls.simps) (simp add: Let_def)
  then show ?case using Cons by (simp add: calls_text_def)
qed (simp add: calls_text_def)

section \<open>The constraint and the parser\<close>

lemma calls_text_opens:
  assumes "calls_valid tools content cs" and "cs \<noteq> []"
  shows "\<exists>r. calls_text tools cs = CALL_OPEN @ r"
  using assms by (cases cs) (auto simp: calls_text_def call_text_def calls_valid_def)

lemma written_output:
  assumes ok: "tools_ok tools" and v: "calls_valid tools content cs" "cs \<noteq> []"
  shows "find_str CALL_OPEN (content @ calls_text tools cs @ r) = Some (length content)"
    and "parse_qwen_tool_calls json (calls_text tools cs @ r) (Some tools) =
      (case parse_calls json (Some tools) (map (call_meaning json tools) cs) r of
         None \<Rightarrow> None | Some calls \<Rightarrow> if calls = [] then None else Some ([], calls))"
proof -
  obtain s where s: "calls_text tools cs = CALL_OPEN @ s" using calls_text_opens [OF v] by blast
  have "\<not> sublist CALL_OPEN content" using v(1) by (simp add: calls_valid_def free_of_def)
  then show "find_str CALL_OPEN (content @ calls_text tools cs @ r) = Some (length content)"
    unfolding s append_assoc by (rule find_marker [OF marker_angles(4)])
  have "find_str CALL_OPEN (calls_text tools cs @ r) = Some 0" unfolding s by (rule find_str_prefix) simp
  moreover have "parse_calls json (Some tools) [] (calls_text tools cs @ r) = parse_calls json (Some tools) (map (call_meaning json tools) cs) r"
    using parse_calls_written [OF ok, of cs json "[]" r] v(1) by (simp add: calls_valid_def)
  ultimately show "parse_qwen_tool_calls json (calls_text tools cs @ r) (Some tools) =
      (case parse_calls json (Some tools) (map (call_meaning json tools) cs) r of
         None \<Rightarrow> None | Some calls \<Rightarrow> if calls = [] then None else Some ([], calls))"
    by (simp add: parse_qwen_tool_calls_def split: option.split)
qed

lemma written_text:
  assumes ok: "tools_ok tools" and run: "runs tools x tool_call_state_default (AfterCall pre)"
  shows "\<exists>content cs ws. cs \<noteq> [] \<and> calls_valid tools content cs \<and> blank ws \<and> x = content @ calls_text tools cs @ ws @ pre \<and>
    (pre = [] \<or> strict_prefix pre CALL_OPEN)"
proof -
  have "describes tools ([] @ x) (AfterCall pre)" by (rule describes_run [OF ok describes_start run])
  then obtain y ws where y: "closed tools y" "blank ws" "x = y @ ws @ pre" "pre = [] \<or> strict_prefix pre CALL_OPEN" by auto
  from grammar_split(4) [OF y(1)] obtain content cs where "cs \<noteq> []" "calls_valid tools content cs" "y = content @ calls_text tools cs" by blast
  then show ?thesis using y by (intro exI [of _ content] exI [of _ cs] exI [of _ ws]) simp
qed

end
