(* ===== verification/AssistantProperties.thy ===== *)
theory AssistantProperties
  imports AssistantCalls ToolProperties
begin

text \<open>
  The claims that join the tool-call constraint of the frontend to the response parser of the server.
\<close>

section \<open>Complete calls\<close>

lemma written_parses:
  assumes ok: "tools_ok tools"
    and "advance_bytes (compiled_spec_new tools) x tool_call_state_default = (Inr (), AfterCall [])"
  shows "\<exists>content cs ws. cs \<noteq> [] \<and> calls_valid tools content cs \<and> blank ws \<and> x = content @ calls_text tools cs @ ws \<and>
    parse_assistant_output_constrained json x sr tools truncated =
      whole_output (think_split sr content) (map (call_meaning json tools) cs) False False"
proof -
  obtain content cs ws where x: "cs \<noteq> []" "calls_valid tools content cs" "blank ws" "x = content @ calls_text tools cs @ ws"
    using written_text [OF ok assms(2)] by auto
  note w = written_output(1) [OF ok x(2,1), of ws] written_output(2) [OF ok x(2,1), of json ws]
  have "parse_calls json (Some tools) (map (call_meaning json tools) cs) ws = Some (map (call_meaning json tools) cs)"
    using trim_start_blank [OF x(3), of "[]"] by (subst parse_calls.simps) simp
  then have "parse_qwen_tool_calls json (calls_text tools cs @ ws) (Some tools) = Some ([], map (call_meaning json tools) cs)"
    using w(2) x(1) by simp
  then have "parse_assistant_output_constrained json x sr tools truncated =
      whole_output (think_split sr content) (map (call_meaning json tools) cs) False False"
    using constrained_spec [of json x sr tools truncated] w(1) by (simp add: assistant_spec_def x(4))
  then show ?thesis using x by blast
qed

text \<open>C16: The parser reads back what the constraint lets a model write. A text after which the automaton stands
  between calls is content followed by written calls, and the constrained parser returns that content,
  split into reasoning and answer, and exactly those calls in order, each with its function name and the
  trimmed values of its given parameters; it never flags such a text malformed or truncated.\<close>

theorem constrained_output_parses:
  assumes "tools_admitted tools"
    and "advance_bytes (compiled_spec_new tools) x tool_call_state_default = (Inr (), AfterCall [])"
  shows "\<exists>content cs ws. cs \<noteq> [] \<and> calls_valid tools content cs \<and> blank ws \<and> x = content @ calls_text tools cs @ ws \<and>
    parse_assistant_output_constrained json x sr tools truncated =
      whole_output (think_split sr content) (map (call_meaning json tools) cs) False False"
  by (rule written_parses [OF tools_admitted_ok [OF assms(1)] assms(2)])

text \<open>A JSON library that takes every value as text and prints the values one after the other.\<close>

definition sample_json :: "string json_library" where
  "sample_json = \<lparr>json_parse = (\<lambda>_. None), json_text = (\<lambda>s. s), json_render = (\<lambda>ms. concat (map snd ms))\<rparr>"

theorem constrained_output_parses_witness:
  "\<exists>content cs ws. cs \<noteq> [] \<and> calls_valid sample_tools content cs \<and> blank ws \<and> sample_call = content @ calls_text sample_tools cs @ ws \<and>
    parse_assistant_output_constrained sample_json sample_call False sample_tools False =
      whole_output (think_split False content) (map (call_meaning sample_json sample_tools) cs) False False"
  by (rule constrained_output_parses [OF sample_tools_admitted sample_call_runs])

lemma sample_call_read:
  "parse_assistant_output_constrained sample_json sample_call False sample_tools False =
    \<lparr>po_reasoning = [], po_content = ''ok'', po_tool_calls = [\<lparr>pc_name = ''get'', pc_arguments = ''a<b''\<rparr>],
     po_malformed = False, po_truncated = False\<rparr>"
  by code_simp

section \<open>A stop inside a second opening marker\<close>

text \<open>C20: A stop inside a second opening marker loses the complete calls. When the automaton stands after a
  complete call with the start of another opening marker read, the constraint counts no call as incomplete
  and so admits a stop token, yet the constrained parser flags the text malformed and returns no call.\<close>

theorem stop_inside_next_marker_malformed:
  assumes "tools_admitted tools" and "pre \<noteq> []"
    and "advance_bytes (compiled_spec_new tools) x tool_call_state_default = (Inr (), AfterCall pre)"
  shows "\<not> has_incomplete_call (tc\<lparr>tc_committed := AfterCall pre\<rparr>) \<and>
    po_malformed (parse_assistant_output_constrained json x sr tools False) \<and>
    po_tool_calls (parse_assistant_output_constrained json x sr tools False) = []"
proof -
  have ok: "tools_ok tools" by (rule tools_admitted_ok [OF assms(1)])
  obtain content cs ws where x: "cs \<noteq> []" "calls_valid tools content cs" "blank ws" "x = content @ calls_text tools cs @ ws @ pre"
    and pre: "strict_prefix pre CALL_OPEN" using written_text [OF ok assms(3)] assms(2) by auto
  note w = written_output(1) [OF ok x(2,1), of "ws @ pre"] written_output(2) [OF ok x(2,1), of json "ws @ pre"]
  obtain s where s: "pre = CHR ''<'' # s" using pre assms(2) by (cases pre) (auto simp: strict_prefix_def CALL_OPEN_def)
  have trim: "trim_start (ws @ pre) = pre" unfolding trim_start_blank [OF x(3)] unfolding s by (rule trim_start_angle)
  have "strip_prefix CALL_OPEN pre = None" using pre by (auto simp: strip_prefix_def strict_prefix_def dest: prefix_order.antisym)
  then have "parse_calls json (Some tools) (map (call_meaning json tools) cs) (ws @ pre) = None"
    using trim assms(2) by (subst parse_calls.simps) (simp add: parse_call_def)
  then have "parse_qwen_tool_calls json (calls_text tools cs @ ws @ pre) (Some tools) = None" using w(2) by simp
  then show ?thesis
    using constrained_spec [of json x sr tools False] w(1)
    by (simp add: assistant_spec_def x(4) whole_output_def has_incomplete_call_def)
qed

definition sample_cut :: string where
  "sample_cut = ''<tool_call><function=stop></function></tool_call> <tool''"

lemma sample_cut_runs: "advance_bytes (compiled_spec_new sample_tools) sample_cut tool_call_state_default = (Inr (), AfterCall ''<tool'')"
  by code_simp

theorem stop_inside_next_marker_malformed_witness:
  "\<not> has_incomplete_call (\<lparr>tc_tokens = \<lparr>ti_entries = [], ti_bytes = []\<rparr>, tc_stop_ids = [6],
      tc_compiled = compiled_spec_new sample_tools, tc_committed = AfterCall ''<tool''\<rparr>) \<and>
    po_malformed (parse_assistant_output_constrained sample_json sample_cut True sample_tools False) \<and>
    po_tool_calls (parse_assistant_output_constrained sample_json sample_cut True sample_tools False) = []"
  using stop_inside_next_marker_malformed [OF sample_tools_admitted _ sample_cut_runs, of
      "\<lparr>tc_tokens = \<lparr>ti_entries = [], ti_bytes = []\<rparr>, tc_stop_ids = [6],
        tc_compiled = compiled_spec_new sample_tools, tc_committed = Content []\<rparr>" sample_json True] by simp

end
