(* ===== verification/Decoder.thy ===== *)
theory Decoder
  imports ToolCall
begin

text \<open>
  The streaming decoder of \<open>crates/tuisko-frontend/src/lib.rs\<close>: generated tokens become UTF-8 text byte by
  byte, with U+FFFD for what is not UTF-8. The tokenizer is a parameter as in the tool-call constraint.
  \<open>std::str::from_utf8\<close> and \<open>String::from_utf8_lossy\<close> are the definitions \<open>utf8_valid\<close> and \<open>utf8_lossy\<close>
  over the table of well-formed byte sequences of the Unicode standard.
\<close>

abbreviation byte_val :: "char \<Rightarrow> nat" where
  "byte_val \<equiv> of_char"

definition in_bytes :: "nat \<Rightarrow> nat \<Rightarrow> char \<Rightarrow> bool" where
  "in_bytes lo hi b = (lo \<le> byte_val b \<and> byte_val b \<le> hi)"

section \<open>The standard library\<close>

definition utf8_rows :: "(nat \<times> nat) list list" where
  "utf8_rows =
    [[(0x00, 0x7F)],
     [(0xC2, 0xDF), (0x80, 0xBF)],
     [(0xE0, 0xE0), (0xA0, 0xBF), (0x80, 0xBF)],
     [(0xE1, 0xEC), (0x80, 0xBF), (0x80, 0xBF)],
     [(0xED, 0xED), (0x80, 0x9F), (0x80, 0xBF)],
     [(0xEE, 0xEF), (0x80, 0xBF), (0x80, 0xBF)],
     [(0xF0, 0xF0), (0x90, 0xBF), (0x80, 0xBF), (0x80, 0xBF)],
     [(0xF1, 0xF3), (0x80, 0xBF), (0x80, 0xBF), (0x80, 0xBF)],
     [(0xF4, 0xF4), (0x80, 0x8F), (0x80, 0xBF), (0x80, 0xBF)]]"

fun row_fits :: "(nat \<times> nat) list \<Rightarrow> string \<Rightarrow> bool" where
  "row_fits row [] = True"
| "row_fits [] (b # bs) = False"
| "row_fits ((lo, hi) # row) (b # bs) = (in_bytes lo hi b \<and> row_fits row bs)"

text \<open>A start of a character, and a whole character, of a table of sequences.\<close>

definition utf8_start :: "(nat \<times> nat) list list \<Rightarrow> string \<Rightarrow> bool" where
  "utf8_start rows bs = (bs \<noteq> [] \<and> list_ex (\<lambda>row. row_fits row bs) rows)"

definition utf8_char :: "(nat \<times> nat) list list \<Rightarrow> string \<Rightarrow> bool" where
  "utf8_char rows bs = (bs \<noteq> [] \<and> list_ex (\<lambda>row. length row = length bs \<and> row_fits row bs) rows)"

text \<open>The length of the longest start of a character at the head of the text.\<close>

definition utf8_span :: "(nat \<times> nat) list list \<Rightarrow> string \<Rightarrow> nat" where
  "utf8_span rows bs = (case find (\<lambda>k. k \<le> length bs \<and> utf8_start rows (take k bs)) [4, 3, 2, 1] of Some k \<Rightarrow> k | None \<Rightarrow> 0)"

definition replacement :: string where
  "replacement = map char_of [0xEF, 0xBF, 0xBD :: nat]"

text \<open>
  Lossy decoding: each longest start that is not a whole character, and each byte that starts none, becomes U+FFFD.
\<close>

function utf8_lossy :: "(nat \<times> nat) list list \<Rightarrow> string \<Rightarrow> string" where
  "utf8_lossy rows bs =
    (if bs = [] then []
     else if utf8_char rows (take (utf8_span rows bs) bs)
     then take (utf8_span rows bs) bs @ utf8_lossy rows (drop (max 1 (utf8_span rows bs)) bs)
     else replacement @ utf8_lossy rows (drop (max 1 (utf8_span rows bs)) bs))"
  by pat_completeness auto

termination by (relation "measure (\<lambda>(rows, bs). length bs)") (auto simp: max_def)

declare utf8_lossy.simps [simp del]

function utf8_valid :: "(nat \<times> nat) list list \<Rightarrow> string \<Rightarrow> bool" where
  "utf8_valid rows bs =
    (if bs = [] then True
     else if utf8_char rows (take (utf8_span rows bs) bs) then utf8_valid rows (drop (max 1 (utf8_span rows bs)) bs)
     else False)"
  by pat_completeness auto

termination by (relation "measure (\<lambda>(rows, bs). length bs)") (auto simp: max_def)

declare utf8_valid.simps [simp del]

section \<open>The byte-level alphabet\<close>

definition byte_level_plain :: "nat \<Rightarrow> bool" where
  "byte_level_plain byte \<longleftrightarrow> (0x21 \<le> byte \<and> byte \<le> 0x7E) \<or> (0xA1 \<le> byte \<and> byte \<le> 0xAC) \<or> (0xAE \<le> byte \<and> byte \<le> 0xFF)"

text \<open>One turn of the loop of \<open>byte_level_table\<close>; characters are Unicode scalar values.\<close>

definition byte_level_step :: "nat \<Rightarrow> (nat \<Rightarrow> char option) \<times> nat \<Rightarrow> (nat \<Rightarrow> char option) \<times> nat" where
  "byte_level_step byte st = (case st of (table, repl) \<Rightarrow>
    if byte_level_plain byte then (table(byte \<mapsto> char_of byte), repl)
    else (table(0x100 + repl \<mapsto> char_of byte), repl + 1))"

definition byte_level_table :: "nat \<Rightarrow> char option" where
  "byte_level_table = fst (fold byte_level_step [0..<256] (Map.empty, 0))"

section \<open>The decoder\<close>

definition utf8_sequence_length :: "char \<Rightarrow> nat option" where
  "utf8_sequence_length lead =
    (if in_bytes 0x00 0x7F lead then Some 1
     else if in_bytes 0xC2 0xDF lead then Some 2
     else if in_bytes 0xE0 0xEF lead then Some 3
     else if in_bytes 0xF0 0xF4 lead then Some 4
     else None)"

definition is_valid_utf8_prefix :: "string \<Rightarrow> bool" where
  "is_valid_utf8_prefix bytes =
    (if bytes = [] \<or> length bytes > (case utf8_sequence_length (hd bytes) of Some n \<Rightarrow> n | None \<Rightarrow> 0) then False
     else if 2 \<le> length bytes \<and>
       \<not> (let first = hd bytes; second = bytes ! 1 in
          if in_bytes 0xC2 0xDF first then in_bytes 0x80 0xBF second
          else if in_bytes 0xE0 0xE0 first then in_bytes 0xA0 0xBF second
          else if in_bytes 0xE1 0xEC first \<or> in_bytes 0xEE 0xEF first then in_bytes 0x80 0xBF second
          else if in_bytes 0xED 0xED first then in_bytes 0x80 0x9F second
          else if in_bytes 0xF0 0xF3 first then in_bytes 0x90 0xBF second
          else if in_bytes 0xF4 0xF4 first then in_bytes 0x80 0x8F second
          else False) then False
     else list_all (in_bytes 0x80 0xBF) (drop 2 bytes))"

text \<open>\<open>push_stream_byte\<close> with an empty \<open>pending\<close>; the state is the pair of \<open>pending\<close> and \<open>output\<close>.\<close>

definition push_first_byte :: "string \<Rightarrow> char \<Rightarrow> string \<times> string" where
  "push_first_byte out byte =
    (if byte_val byte < 0x80 then ([], out @ [byte])
     else if in_bytes 0x80 0xBF byte then ([], out @ replacement)
     else if utf8_sequence_length byte \<noteq> None then ([byte], out)
     else ([], out @ replacement))"

text \<open>The recursive call of \<open>push_stream_byte\<close> has an empty \<open>pending\<close>.\<close>

definition push_stream_byte :: "string \<times> string \<Rightarrow> char \<Rightarrow> string \<times> string" where
  "push_stream_byte st byte = (case st of (pending, out) \<Rightarrow>
    if pending = [] then push_first_byte out byte
    else
      let candidate = pending @ [byte] in
      if in_bytes 0x80 0xBF byte \<and> is_valid_utf8_prefix candidate
      then if utf8_valid utf8_rows candidate then ([], out @ candidate) else (candidate, out)
      else push_first_byte (out @ replacement) byte)"

record streaming_decoder =
  sd_text :: string
  sd_pending :: string
  sd_finished :: bool

definition decoder_new :: streaming_decoder where
  "decoder_new = \<lparr>sd_text = [], sd_pending = [], sd_finished = False\<rparr>"

text \<open>\<open>for character in content.chars()\<close>: the state is \<open>pending\<close> and \<open>delta\<close>.\<close>

fun push_characters :: "(nat \<Rightarrow> char option) \<Rightarrow> nat list \<Rightarrow> string \<times> string \<Rightarrow> unit frontend_result \<times> string \<times> string" where
  "push_characters byte_table [] st = (Inr (), st)"
| "push_characters byte_table (c # cs) st =
    (case byte_table c of
       None \<Rightarrow> (Inl (FrontendTokenizer ''token ID contains non-byte-level character''), st)
     | Some b \<Rightarrow> push_characters byte_table cs (push_stream_byte st b))"

definition decoder_push ::
  "(nat \<Rightarrow> bool) \<Rightarrow> (nat \<Rightarrow> nat list option) \<Rightarrow> (nat \<Rightarrow> char option) \<Rightarrow> nat \<Rightarrow> streaming_decoder \<Rightarrow>
   string option frontend_result \<times> streaming_decoder" where
  "decoder_push special id_to_token byte_table token d =
    (if sd_finished d then (Inl (FrontendContract ''cannot push a token after finishing the stream''), d)
     else if special token then (Inr None, d)
     else case id_to_token token of
       None \<Rightarrow> (Inl (FrontendTokenizer ''token ID has no tokenizer entry''), d)
     | Some content \<Rightarrow>
        (case push_characters byte_table content (sd_pending d, []) of
           (Inl e, pending, delta) \<Rightarrow> (Inl e, d\<lparr>sd_pending := pending\<rparr>)
         | (Inr _, pending, delta) \<Rightarrow>
             let d = d\<lparr>sd_pending := pending\<rparr> in
             if delta = [] then (Inr None, d) else (Inr (Some delta), d\<lparr>sd_text := sd_text d @ delta\<rparr>)))"

text \<open>\<open>finish_pending\<close> returns the flushed text; the caller's buffer is empty afterwards.\<close>

definition finish_pending :: "string \<Rightarrow> string" where
  "finish_pending pending = utf8_lossy utf8_rows pending"

definition decoder_finish :: "streaming_decoder \<Rightarrow> string option \<times> streaming_decoder" where
  "decoder_finish d =
    (if sd_finished d then (None, d)
     else
       let delta = finish_pending (sd_pending d); d = d\<lparr>sd_finished := True, sd_pending := []\<rparr> in
       if delta = [] then (None, d) else (Some delta, d\<lparr>sd_text := sd_text d @ delta\<rparr>))"

end
