(* ===== verification/DecoderText.thy ===== *)
theory DecoderText
  imports Decoder
begin

text \<open>
  The streaming decoder emits the standard library's lossy decoding of all token bytes, however the bytes
  are divided into tokens; on valid UTF-8 that is the text itself.
\<close>

section \<open>Starts of characters\<close>

lemma row_fits_Nil [simp]: "row_fits row []"
  by (cases row) auto

lemma row_fits_append: "row_fits row (xs @ ys) \<Longrightarrow> row_fits row xs"
  by (induction row xs rule: row_fits.induct) auto

lemma row_fits_length: "row_fits row xs \<Longrightarrow> length xs \<le> length row"
  by (induction row xs rule: row_fits.induct) auto

lemma utf8_start_prefix: "utf8_start rows (xs @ ys) \<Longrightarrow> xs \<noteq> [] \<Longrightarrow> utf8_start rows xs"
  using row_fits_append by (auto simp: utf8_start_def list_ex_iff)

lemma utf8_char_start: "utf8_char rows xs \<Longrightarrow> utf8_start rows xs"
  by (auto simp: utf8_char_def utf8_start_def list_ex_iff)

text \<open>
  The table of the code's test \<open>is_valid_utf8_prefix\<close>. It is the standard's, but for the second byte after
  F1 to F3, where the code asks for 90 to BF.
\<close>

definition decoder_rows :: "(nat \<times> nat) list list" where
  "decoder_rows =
    [[(0x00, 0x7F)],
     [(0xC2, 0xDF), (0x80, 0xBF)],
     [(0xE0, 0xE0), (0xA0, 0xBF), (0x80, 0xBF)],
     [(0xE1, 0xEC), (0x80, 0xBF), (0x80, 0xBF)],
     [(0xED, 0xED), (0x80, 0x9F), (0x80, 0xBF)],
     [(0xEE, 0xEF), (0x80, 0xBF), (0x80, 0xBF)],
     [(0xF0, 0xF3), (0x90, 0xBF), (0x80, 0xBF), (0x80, 0xBF)],
     [(0xF4, 0xF4), (0x80, 0x8F), (0x80, 0xBF), (0x80, 0xBF)]]"

text \<open>The code's test is the table's: by the range of the leading byte one row remains.\<close>

lemma row_fits_tail: "row_fits (replicate n (0x80, 0xBF)) bs \<longleftrightarrow> length bs \<le> n \<and> list_all (in_bytes 0x80 0xBF) bs"
proof (induction bs arbitrary: n)
  case (Cons b bs)
  then show ?case by (cases n) auto
qed simp

definition rest_fits :: "nat \<Rightarrow> nat \<Rightarrow> nat \<Rightarrow> string \<Rightarrow> bool" where
  "rest_fits n lo hi bs \<longleftrightarrow> bs = [] \<or> (length bs \<le> n \<and> in_bytes lo hi (hd bs) \<and> list_all (in_bytes 0x80 0xBF) (tl bs))"

lemma row_fits_second: "row_fits ((lo, hi) # replicate n (0x80, 0xBF)) bs \<longleftrightarrow> rest_fits (Suc n) lo hi bs"
  by (cases bs) (auto simp: row_fits_tail rest_fits_def)

lemma row_fits_rows:
  "row_fits [(lo, hi)] bs \<longleftrightarrow> rest_fits 1 lo hi bs"
  "row_fits [(lo, hi), (0x80, 0xBF)] bs \<longleftrightarrow> rest_fits 2 lo hi bs"
  "row_fits [(lo, hi), (0x80, 0xBF), (0x80, 0xBF)] bs \<longleftrightarrow> rest_fits 3 lo hi bs"
  using row_fits_second [of lo hi 0 bs] row_fits_second [of lo hi 1 bs] row_fits_second [of lo hi 2 bs]
  by (simp_all add: numeral_eq_Suc)

lemma row_fits_none: "row_fits [] bs \<longleftrightarrow> bs = []"
  by (cases bs) auto

lemma prefix_test: "is_valid_utf8_prefix xs \<longleftrightarrow> utf8_start decoder_rows xs"
proof (cases xs)
  case Nil
  then show ?thesis by (simp add: is_valid_utf8_prefix_def utf8_start_def)
next
  case (Cons a bs)
  have test: "is_valid_utf8_prefix (a # bs) \<longleftrightarrow> rest_fits n lo hi bs"
    if "utf8_sequence_length a = Some (Suc n)" "n \<noteq> 0"
      "\<And>b. (if in_bytes 0xC2 0xDF a then in_bytes 0x80 0xBF b
          else if in_bytes 0xE0 0xE0 a then in_bytes 0xA0 0xBF b
          else if in_bytes 0xE1 0xEC a \<or> in_bytes 0xEE 0xEF a then in_bytes 0x80 0xBF b
          else if in_bytes 0xED 0xED a then in_bytes 0x80 0x9F b
          else if in_bytes 0xF0 0xF3 a then in_bytes 0x90 0xBF b
          else if in_bytes 0xF4 0xF4 a then in_bytes 0x80 0x8F b
          else False) = in_bytes lo hi b" for n lo hi
    using that by (cases bs) (auto simp: is_valid_utf8_prefix_def rest_fits_def Let_def)
  let ?x = "byte_val a"
  note defs = utf8_start_def decoder_rows_def row_fits_rows row_fits_none utf8_sequence_length_def
  consider "?x \<le> 0x7F" | "0x80 \<le> ?x" "?x \<le> 0xC1" | "0xC2 \<le> ?x" "?x \<le> 0xDF" | "?x = 0xE0" | "0xE1 \<le> ?x" "?x \<le> 0xEC"
    | "?x = 0xED" | "0xEE \<le> ?x" "?x \<le> 0xEF" | "0xF0 \<le> ?x" "?x \<le> 0xF3" | "?x = 0xF4" | "0xF5 \<le> ?x"
    by linarith
  then have "is_valid_utf8_prefix (a # bs) \<longleftrightarrow> utf8_start decoder_rows (a # bs)"
  proof cases
    case 1
    then show ?thesis by (cases bs) (simp_all add: defs in_bytes_def is_valid_utf8_prefix_def)
  next
    case 2
    then show ?thesis by (simp add: defs in_bytes_def is_valid_utf8_prefix_def)
  next
    case 3
    then show ?thesis by (subst test [where n = "1" and lo = "0x80" and hi = "0xBF"]) (simp_all add: defs in_bytes_def)
  next
    case 4
    then show ?thesis by (subst test [where n = "2" and lo = "0xA0" and hi = "0xBF"]) (simp_all add: defs in_bytes_def)
  next
    case 5
    then show ?thesis by (subst test [where n = "2" and lo = "0x80" and hi = "0xBF"]) (simp_all add: defs in_bytes_def)
  next
    case 6
    then show ?thesis by (subst test [where n = "2" and lo = "0x80" and hi = "0x9F"]) (simp_all add: defs in_bytes_def)
  next
    case 7
    then show ?thesis by (subst test [where n = "2" and lo = "0x80" and hi = "0xBF"]) (simp_all add: defs in_bytes_def)
  next
    case 8
    then show ?thesis by (subst test [where n = "3" and lo = "0x90" and hi = "0xBF"]) (simp_all add: defs in_bytes_def)
  next
    case 9
    then show ?thesis by (subst test [where n = "3" and lo = "0x80" and hi = "0x8F"]) (simp_all add: defs in_bytes_def)
  next
    case 10
    then show ?thesis by (simp add: defs in_bytes_def is_valid_utf8_prefix_def)
  qed
  then show ?thesis using Cons by simp
qed

section \<open>The longest start\<close>

abbreviation decoder_table :: "(nat \<times> nat) list list \<Rightarrow> bool" where
  "decoder_table rows \<equiv> rows = utf8_rows \<or> rows = decoder_rows"

text \<open>The leading byte fixes the length of the character.\<close>

lemma row_length:
  assumes "decoder_table rows" and "row \<in> set rows" and "row_fits row (a # bs)"
  shows "utf8_sequence_length a = Some (length row)"
proof -
  have "\<forall>row\<in>set rows. row_fits row (a # bs) \<longrightarrow> utf8_sequence_length a = Some (length row)"
    using assms(1) by (elim disjE) (simp_all add: utf8_rows_def decoder_rows_def utf8_sequence_length_def in_bytes_def)
  then show ?thesis using assms(2,3) by blast
qed

lemma start_length:
  assumes "decoder_table rows" and "utf8_start rows (a # bs)"
  shows "\<exists>n. utf8_sequence_length a = Some n \<and> length (a # bs) \<le> n \<and> n \<le> 4"
proof -
  obtain row where r: "row \<in> set rows" "row_fits row (a # bs)" using assms(2) by (auto simp: utf8_start_def list_ex_iff)
  have "utf8_sequence_length a = Some (length row)" by (rule row_length [OF assms(1) r])
  moreover have "length (a # bs) \<le> length row" by (rule row_fits_length [OF r(2)])
  moreover from calculation(1) have "length row \<le> 4" by (auto simp: utf8_sequence_length_def split: if_splits)
  ultimately show ?thesis by blast
qed

lemma char_iff:
  assumes "decoder_table rows"
  shows "utf8_char rows (a # bs) \<longleftrightarrow> utf8_start rows (a # bs) \<and> utf8_sequence_length a = Some (length (a # bs))"
proof
  assume "utf8_char rows (a # bs)"
  then obtain row where r: "row \<in> set rows" "length row = length (a # bs)" "row_fits row (a # bs)" by (auto simp: utf8_char_def list_ex_iff)
  then show "utf8_start rows (a # bs) \<and> utf8_sequence_length a = Some (length (a # bs))"
    using row_length [OF assms r(1,3)] by (auto simp: utf8_start_def list_ex_iff)
next
  assume st: "utf8_start rows (a # bs) \<and> utf8_sequence_length a = Some (length (a # bs))"
  then obtain row where r: "row \<in> set rows" "row_fits row (a # bs)" by (auto simp: utf8_start_def list_ex_iff)
  then show "utf8_char rows (a # bs)" using row_length [OF assms r] st by (auto simp: utf8_char_def list_ex_iff)
qed

lemma char_not_extended:
  assumes "decoder_table rows" and "utf8_char rows p"
  shows "\<not> utf8_start rows (p @ x # r)"
proof (cases p)
  case (Cons a bs)
  then have "utf8_sequence_length a = Some (length p)" using char_iff [OF assms(1), of a bs] assms(2) by simp
  then show ?thesis using start_length [OF assms(1), of a "bs @ x # r"] Cons by auto
qed (use assms(2) in \<open>simp add: utf8_char_def\<close>)

lemma span_eq:
  assumes "decoder_table rows" and "utf8_start rows p" and "\<And>x q. r = x # q \<Longrightarrow> \<not> utf8_start rows (p @ [x])"
  shows "utf8_span rows (p @ r) = length p"
proof -
  let ?P = "\<lambda>k. k \<le> length (p @ r) \<and> utf8_start rows (take k (p @ r))"
  have p: "p \<noteq> []" using assms(2) by (auto simp: utf8_start_def)
  then obtain a bs where ab: "p = a # bs" by (cases p) auto
  have four: "length p \<le> 4" using start_length [OF assms(1), of a bs] assms(2) ab by auto
  have exact: "?P (length p)" using assms(2) by simp
  have longer: "\<not> ?P k" if k: "length p < k" for k
  proof
    assume P: "?P k"
    then obtain x q where r: "r = x # q" using k by (cases r) auto
    have "take k (p @ r) = (p @ [x]) @ take (k - length p - 1) q" using k r by (simp add: take_Cons')
    moreover have "utf8_start rows (take k (p @ r))" using P by blast
    ultimately have "utf8_start rows ((p @ [x]) @ take (k - length p - 1) q)" by (simp only:)
    then have "utf8_start rows (p @ [x])" by (rule utf8_start_prefix) simp
    then show False using assms(3) [OF r] by blast
  qed
  have "length p \<noteq> 0" using p by simp
  then consider "length p = 1" | "length p = 2" | "length p = 3" | "length p = 4" using four by linarith
  then show ?thesis by cases (use exact longer [of 4] longer [of 3] longer [of 2] in \<open>simp_all add: utf8_span_def del: take_append\<close>)
qed

lemma span_none: "\<not> utf8_start rows [b] \<Longrightarrow> utf8_span rows (b # bs) = 0"
proof -
  assume no: "\<not> utf8_start rows [b]"
  have "\<not> utf8_start rows (take k (b # bs))" for k
    using utf8_start_prefix [of rows "[b]"] no by (cases k) (auto simp: utf8_start_def)
  then show ?thesis by (simp add: utf8_span_def)
qed

lemma utf8_lossy_Nil [simp]: "utf8_lossy rows [] = []"
  by (simp add: utf8_lossy.simps)

lemma lossy_char:
  assumes "decoder_table rows" and "utf8_char rows p"
  shows "utf8_lossy rows (p @ r) = p @ utf8_lossy rows r"
proof -
  have "utf8_span rows (p @ r) = length p"
    by (rule span_eq [OF assms(1) utf8_char_start [OF assms(2)]]) (use char_not_extended [OF assms] in auto)
  moreover have "p \<noteq> []" using assms(2) by (auto simp: utf8_char_def)
  ultimately show ?thesis using assms(2) by (subst utf8_lossy.simps) (auto simp: max_def Suc_le_eq)
qed

lemma lossy_cut:
  assumes "decoder_table rows" and "utf8_start rows p" and "\<not> utf8_char rows p" and "\<And>x q. r = x # q \<Longrightarrow> \<not> utf8_start rows (p @ [x])"
  shows "utf8_lossy rows (p @ r) = replacement @ utf8_lossy rows r"
proof -
  have "utf8_span rows (p @ r) = length p" by (rule span_eq [OF assms(1,2,4)])
  moreover have "p \<noteq> []" using assms(2) by (auto simp: utf8_start_def)
  ultimately show ?thesis using assms(3) by (subst utf8_lossy.simps) (auto simp: max_def Suc_le_eq)
qed

lemma lossy_bad: "\<not> utf8_start rows [b] \<Longrightarrow> utf8_lossy rows (b # bs) = replacement @ utf8_lossy rows bs"
  using span_none [of rows b bs] by (subst utf8_lossy.simps) (simp add: utf8_char_def)

section \<open>Pushing bytes\<close>

lemma decoder_start_standard: "utf8_start decoder_rows p \<Longrightarrow> utf8_start utf8_rows p"
proof -
  assume "utf8_start decoder_rows p"
  moreover have "row_fits [(0xF0, 0xF3), (0x90, 0xBF), (0x80, 0xBF), (0x80, 0xBF)] p \<Longrightarrow>
      row_fits [(0xF0, 0xF0), (0x90, 0xBF), (0x80, 0xBF), (0x80, 0xBF)] p \<or> row_fits [(0xF1, 0xF3), (0x80, 0xBF), (0x80, 0xBF), (0x80, 0xBF)] p"
  proof (cases p)
    case (Cons a q)
    assume "row_fits [(0xF0, 0xF3), (0x90, 0xBF), (0x80, 0xBF), (0x80, 0xBF)] p"
    then show ?thesis using Cons by (cases q) (auto simp: in_bytes_def)
  qed simp
  ultimately show ?thesis by (auto simp: utf8_start_def decoder_rows_def utf8_rows_def)
qed

lemma candidate_valid: "utf8_start decoder_rows p \<Longrightarrow> utf8_valid utf8_rows p \<longleftrightarrow> utf8_char decoder_rows p"
proof -
  assume p: "utf8_start decoder_rows p"
  then obtain a q where aq: "p = a # q" by (cases p) (auto simp: utf8_start_def)
  have "utf8_span utf8_rows (p @ []) = length p" by (rule span_eq) (use decoder_start_standard [OF p] in auto)
  then show ?thesis using p decoder_start_standard [OF p] char_iff [of utf8_rows a q] char_iff [of decoder_rows a q]
    by (subst utf8_valid.simps) (simp add: aq utf8_valid.simps [of utf8_rows "[]"])
qed

lemma pending_flush: "utf8_start decoder_rows p \<Longrightarrow> \<not> utf8_char decoder_rows p \<Longrightarrow> utf8_lossy utf8_rows p = utf8_lossy decoder_rows p"
proof -
  assume p: "utf8_start decoder_rows p" "\<not> utf8_char decoder_rows p"
  then obtain a q where aq: "p = a # q" by (cases p) (auto simp: utf8_start_def)
  have "\<not> utf8_char utf8_rows p" using p char_iff [of utf8_rows a q] char_iff [of decoder_rows a q] decoder_start_standard [OF p(1)] aq by auto
  then show ?thesis using lossy_cut [of utf8_rows p "[]"] lossy_cut [of decoder_rows p "[]"] p decoder_start_standard [OF p(1)] by simp
qed

definition pending_ok :: "string \<Rightarrow> bool" where
  "pending_ok p \<longleftrightarrow> p = [] \<or> (utf8_start decoder_rows p \<and> \<not> utf8_char decoder_rows p)"

lemma first_byte:
  "push_first_byte out b = (p, out') \<Longrightarrow> pending_ok p \<and> out' @ utf8_lossy decoder_rows (p @ r) = out @ utf8_lossy decoder_rows (b # r)"
proof -
  assume run: "push_first_byte out b = (p, out')"
  have one: "utf8_char decoder_rows [b] \<longleftrightarrow> byte_val b < 0x80"
    by (auto simp: utf8_char_def decoder_rows_def in_bytes_def)
  have start: "utf8_start decoder_rows [b] \<longleftrightarrow> utf8_sequence_length b \<noteq> None"
    by (auto simp: utf8_start_def decoder_rows_def in_bytes_def utf8_sequence_length_def)
  have cont: "in_bytes 0x80 0xBF b \<Longrightarrow> utf8_sequence_length b = None" by (auto simp: in_bytes_def utf8_sequence_length_def)
  consider "byte_val b < 0x80" | "\<not> byte_val b < 0x80" "utf8_sequence_length b = None" | "\<not> byte_val b < 0x80" "utf8_sequence_length b \<noteq> None"
    by blast
  then show ?thesis
  proof cases
    case 1
    then have "utf8_lossy decoder_rows ([b] @ r) = [b] @ utf8_lossy decoder_rows r" by (intro lossy_char) (simp_all add: one)
    then show ?thesis using run 1 by (auto simp: push_first_byte_def pending_ok_def)
  next
    case 2
    then have "utf8_lossy decoder_rows (b # r) = replacement @ utf8_lossy decoder_rows r" by (intro lossy_bad) (simp add: start)
    moreover have "p = [] \<and> out' = out @ replacement" using run 2 by (simp add: push_first_byte_def split: if_splits)
    ultimately show ?thesis by (simp add: pending_ok_def)
  next
    case 3
    then have "p = [b] \<and> out' = out" using run cont by (simp add: push_first_byte_def split: if_splits)
    then show ?thesis using 3 one start by (simp add: pending_ok_def)
  qed
qed

lemma stream_byte:
  assumes run: "push_stream_byte (p, out) b = (p', out')" and p: "pending_ok p"
  shows "pending_ok p' \<and> out' @ utf8_lossy decoder_rows (p' @ r) = out @ utf8_lossy decoder_rows (p @ b # r)"
proof (cases "p = []")
  case True
  then show ?thesis using first_byte [of out b p' out' r] run by (simp add: push_stream_byte_def)
next
  case False
  then have st: "utf8_start decoder_rows p" "\<not> utf8_char decoder_rows p" using p by (simp_all add: pending_ok_def)
  have second: "utf8_start decoder_rows (p @ [b]) \<Longrightarrow> in_bytes 0x80 0xBF b"
  proof -
    assume "utf8_start decoder_rows (p @ [b])"
    moreover have "row_fits ((lo, hi) # row) (p @ [b]) \<Longrightarrow> \<forall>(lo, hi)\<in>set row. 0x80 \<le> lo \<and> hi \<le> 0xBF \<Longrightarrow> in_bytes 0x80 0xBF b" for lo hi row
    proof -
      assume f: "row_fits ((lo, hi) # row) (p @ [b])" and all: "\<forall>(lo, hi)\<in>set row. 0x80 \<le> lo \<and> hi \<le> 0xBF"
      obtain a q where "p = a # q" using False by (cases p) auto
      then have "row_fits row (q @ [b])" using f by simp
      then show ?thesis using all
      proof (induction q arbitrary: row)
        case Nil
        then show ?case by (cases row) (auto simp: in_bytes_def)
      next
        case (Cons x q)
        then show ?case by (cases row) auto
      qed
    qed
    ultimately show ?thesis by (auto simp: utf8_start_def decoder_rows_def)
  qed
  show ?thesis
  proof (cases "utf8_start decoder_rows (p @ [b])")
    case True
    then have "in_bytes 0x80 0xBF b \<and> is_valid_utf8_prefix (p @ [b])" using second prefix_test by blast
    then have res: "(p', out') = (if utf8_char decoder_rows (p @ [b]) then ([], out @ p @ [b]) else (p @ [b], out))"
      using run False candidate_valid [OF True] by (auto simp: push_stream_byte_def Let_def split: if_splits)
    show ?thesis using res True lossy_char [of decoder_rows "p @ [b]" r] by (auto simp: pending_ok_def split: if_splits)
  next
    case no: False
    then have "push_first_byte (out @ replacement) b = (p', out')" using run False prefix_test by (simp add: push_stream_byte_def)
    then have "pending_ok p' \<and> out' @ utf8_lossy decoder_rows (p' @ r) = (out @ replacement) @ utf8_lossy decoder_rows (b # r)" by (rule first_byte)
    moreover have "utf8_lossy decoder_rows (p @ b # r) = replacement @ utf8_lossy decoder_rows (b # r)"
      by (rule lossy_cut) (use st no in auto)
    ultimately show ?thesis by simp
  qed
qed

lemma stream_bytes:
  "foldl push_stream_byte (p, out) bs = (p', out') \<Longrightarrow> pending_ok p \<Longrightarrow>
    pending_ok p' \<and> out' @ utf8_lossy decoder_rows (p' @ r) = out @ utf8_lossy decoder_rows (p @ bs @ r)"
proof (induction bs arbitrary: p out)
  case (Cons b bs)
  obtain p1 out1 where step: "push_stream_byte (p, out) b = (p1, out1)" by fastforce
  show ?case using stream_byte [OF step Cons.prems(2), of "bs @ r"] Cons.IH [of p1 out1] Cons.prems(1) step by simp
qed simp

lemma push_characters_bytes:
  "push_characters bt cs st = (Inr (), st') \<longleftrightarrow> list_all (\<lambda>c. bt c \<noteq> None) cs \<and> st' = foldl push_stream_byte st (map (the \<circ> bt) cs)"
  by (induction bt cs st rule: push_characters.induct) (auto split: option.splits)

section \<open>Valid text\<close>

lemma valid_lossy: "utf8_valid rows bs \<Longrightarrow> utf8_lossy rows bs = bs"
proof (induction rows bs rule: utf8_valid.induct)
  case (1 rows bs)
  show ?case
  proof (cases "bs = []")
    case False
    then have char: "utf8_char rows (take (utf8_span rows bs) bs)" and rest: "utf8_valid rows (drop (max 1 (utf8_span rows bs)) bs)"
      using 1(2) by (subst (asm) utf8_valid.simps, simp split: if_splits)+
    have "utf8_span rows bs \<noteq> 0" using char by (auto simp: utf8_char_def)
    then have "max 1 (utf8_span rows bs) = utf8_span rows bs" by simp
    then show ?thesis using False char rest 1(1) by (subst utf8_lossy.simps) simp
  qed simp
qed

lemma utf8_valid_Nil [simp]: "utf8_valid rows []"
  by (simp add: utf8_valid.simps)

lemma valid_char:
  assumes "decoder_table rows" and "utf8_char rows p"
  shows "utf8_valid rows (p @ r) = utf8_valid rows r"
proof -
  have "utf8_span rows (p @ r) = length p"
    by (rule span_eq [OF assms(1) utf8_char_start [OF assms(2)]]) (use char_not_extended [OF assms] in auto)
  moreover have "p \<noteq> []" using assms(2) by (auto simp: utf8_char_def)
  ultimately show ?thesis using assms(2) by (subst utf8_valid.simps) (auto simp: max_def Suc_le_eq)
qed

lemma ascii_valid: "list_all (\<lambda>b. byte_val b < 0x80) x \<Longrightarrow> utf8_valid decoder_rows x"
proof (induction x)
  case (Cons b x)
  then have "utf8_char decoder_rows [b]" by (auto simp: utf8_char_def decoder_rows_def in_bytes_def)
  then show ?case using valid_char [of decoder_rows "[b]" x] Cons by simp
qed simp

section \<open>The byte-level alphabet\<close>

text \<open>The character of a byte, in closed form: the bytes without a printable character follow U+00FF in order.\<close>

definition byte_level_char :: "char \<Rightarrow> nat" where
  "byte_level_char b =
    (if byte_level_plain (byte_val b) then byte_val b
     else 0x100 + length (filter (\<lambda>x. \<not> byte_level_plain x) [0..<byte_val b]))"

lemma byte_level_fold:
  "n \<le> 256 \<Longrightarrow> fold byte_level_step [0..<n] (Map.empty, 0) = (table, r) \<Longrightarrow>
    r = length (filter (\<lambda>x. \<not> byte_level_plain x) [0..<n]) \<and>
    (\<forall>k\<in>dom table. k < n \<or> (0x100 \<le> k \<and> k < 0x100 + r)) \<and>
    (\<forall>b. byte_val b < n \<longrightarrow> table (byte_level_char b) = Some b)"
proof (induction n arbitrary: table r)
  case (Suc n)
  obtain t0 r0 where f: "fold byte_level_step [0..<n] (Map.empty, 0) = (t0, r0)" by fastforce
  have ih: "r0 = length (filter (\<lambda>x. \<not> byte_level_plain x) [0..<n])"
      "\<forall>k\<in>dom t0. k < n \<or> (0x100 \<le> k \<and> k < 0x100 + r0)"
      "\<And>b. byte_val b < n \<Longrightarrow> t0 (byte_level_char b) = Some b"
    using Suc.IH [OF _ f] Suc.prems(1) by auto
  have st: "(table, r) = byte_level_step n (t0, r0)" using Suc.prems(2) f by simp
  define key where "key = (if byte_level_plain n then n else 0x100 + r0)"
  have t: "table = t0(key \<mapsto> char_of n)" and r: "r = (if byte_level_plain n then r0 else r0 + 1)"
    using st by (simp_all add: byte_level_step_def key_def split: if_splits)
  have fresh: "key \<notin> dom t0"
  proof
    assume "key \<in> dom t0"
    then have "key < n \<or> (0x100 \<le> key \<and> key < 0x100 + r0)" using ih(2) by blast
    then show False using Suc.prems(1) by (simp add: key_def split: if_splits)
  qed
  have "table (byte_level_char b) = Some b" if b: "byte_val b < Suc n" for b
  proof (cases "byte_val b = n")
    case True
    then have "byte_level_char b = key" using ih(1) by (simp add: byte_level_char_def key_def)
    moreover have "char_of n = b" using True [symmetric] by simp
    ultimately show ?thesis by (simp add: t)
  next
    case False
    then have "t0 (byte_level_char b) = Some b" using b ih(3) by simp
    then show ?thesis using fresh by (auto simp: t)
  qed
  moreover have "\<forall>k\<in>dom table. k < Suc n \<or> (0x100 \<le> k \<and> k < 0x100 + r)"
  proof
    fix k assume "k \<in> dom table"
    then have "k = key \<or> k \<in> dom t0" by (auto simp: t split: if_splits)
    then have "k = key \<or> k < n \<or> (0x100 \<le> k \<and> k < 0x100 + r0)" using ih(2) by blast
    then show "k < Suc n \<or> (0x100 \<le> k \<and> k < 0x100 + r)" by (auto simp: key_def r split: if_splits)
  qed
  ultimately show ?case using ih(1) by (simp add: r)
qed simp

lemma byte_level_char_table [simp]: "byte_level_table (byte_level_char b) = Some b"
  using byte_level_fold [of 256] by (cases "fold byte_level_step [0..<256] (Map.empty, 0)") (simp add: byte_level_table_def)

text \<open>The text after a sequence of bytes and the final flush.\<close>

lemma stream_text:
  assumes "foldl push_stream_byte ([], out) bs = (p, out')"
  shows "out' @ finish_pending p = out @ utf8_lossy decoder_rows bs"
proof -
  have "pending_ok p \<and> out' @ utf8_lossy decoder_rows (p @ []) = out @ utf8_lossy decoder_rows ([] @ bs @ [])"
    by (rule stream_bytes [OF assms]) (simp add: pending_ok_def)
  then show ?thesis using pending_flush [of p] by (cases "p = []") (auto simp: finish_pending_def pending_ok_def)
qed

end
