(* ===== verification/DecoderProperties.thy ===== *)
theory DecoderProperties
  imports DecoderText ToolTokens
begin

text \<open>
  The claim about the streaming decoder, over tokens: the deltas and the final text are the lossy decoding
  of the bytes the tool-call constraint sees.
\<close>

section \<open>Decoding a token sequence\<close>

text \<open>Every token pushed in turn, then the stream finished; the deltas are joined.\<close>

fun decode_stream ::
  "(nat \<Rightarrow> bool) \<Rightarrow> (nat \<Rightarrow> nat list option) \<Rightarrow> (nat \<Rightarrow> char option) \<Rightarrow> nat list \<Rightarrow> streaming_decoder \<Rightarrow>
   (string \<times> streaming_decoder) frontend_result" where
  "decode_stream special id_to_token bt [] d =
    (case decoder_finish d of (delta, d) \<Rightarrow> Inr (case delta of None \<Rightarrow> [] | Some t \<Rightarrow> t, d))"
| "decode_stream special id_to_token bt (k # ks) d =
    (case decoder_push special id_to_token bt k d of
       (Inl e, _) \<Rightarrow> Inl e
     | (Inr delta, d) \<Rightarrow>
        (case decode_stream special id_to_token bt ks d of
           Inl e \<Rightarrow> Inl e
         | Inr (deltas, d) \<Rightarrow> Inr ((case delta of None \<Rightarrow> [] | Some t \<Rightarrow> t) @ deltas, d)))"

definition meaning_text :: "(nat \<Rightarrow> bool) \<Rightarrow> (nat \<Rightarrow> nat list option) \<Rightarrow> (nat \<Rightarrow> char option) \<Rightarrow> nat list \<Rightarrow> string" where
  "meaning_text special id_to_token bt ks =
    concat (map (\<lambda>k. case token_meaning special id_to_token bt k of None \<Rightarrow> [] | Some b \<Rightarrow> b) ks)"

lemma foldl_stream_out:
  "foldl push_stream_byte (p, a @ out) bs = (case foldl push_stream_byte (p, out) bs of (p', out') \<Rightarrow> (p', a @ out'))"
proof (induction bs arbitrary: p out)
  case (Cons b bs)
  have "push_stream_byte (p, a @ out) b = (case push_stream_byte (p, out) b of (p', out') \<Rightarrow> (p', a @ out'))"
    by (simp add: push_stream_byte_def push_first_byte_def Let_def)
  then show ?case using Cons.IH by (cases "push_stream_byte (p, out) b") simp
qed simp

lemma decoder_push_bytes:
  assumes "decoder_push special id_to_token bt k d = (Inr delta, d')"
  shows "\<not> sd_finished d \<and> \<not> sd_finished d' \<and> sd_text d' = sd_text d @ (case delta of None \<Rightarrow> [] | Some t \<Rightarrow> t) \<and>
    foldl push_stream_byte (sd_pending d, []) (case token_meaning special id_to_token bt k of None \<Rightarrow> [] | Some b \<Rightarrow> b) =
      (sd_pending d', case delta of None \<Rightarrow> [] | Some t \<Rightarrow> t)"
proof (cases "special k")
  case True
  then show ?thesis using assms by (auto simp: decoder_push_def token_meaning_def split: if_splits)
next
  case False
  then obtain cs where cs: "id_to_token k = Some cs" using assms by (auto simp: decoder_push_def split: if_splits option.splits)
  obtain p out where run: "push_characters bt cs (sd_pending d, []) = (Inr (), p, out)"
    using assms False cs by (auto simp: decoder_push_def Let_def split: if_splits sum.splits prod.splits)
  have valid: "list_all (\<lambda>c. bt c \<noteq> None) cs" and bytes: "foldl push_stream_byte (sd_pending d, []) (map (the \<circ> bt) cs) = (p, out)"
    using run push_characters_bytes [of bt cs "(sd_pending d, [])" "(p, out)"] by simp_all
  have d: "d' = d\<lparr>sd_pending := p, sd_text := sd_text d @ out\<rparr>" and delta: "delta = (if out = [] then None else Some out)"
      and open': "\<not> sd_finished d"
    using assms False cs run by (auto simp: decoder_push_def Let_def split: if_splits)
  have "token_meaning special id_to_token bt k = Some (map (the \<circ> bt) cs)"
    using False cs valid by (simp add: token_meaning_def Let_def)
  then show ?thesis using d delta open' bytes by simp
qed

lemma decode_stream_text:
  assumes "decode_stream special id_to_token bt ks d = Inr (deltas, d')" and "\<not> sd_finished d"
  shows "sd_text d' = sd_text d @ deltas \<and> sd_finished d' \<and>
    (\<exists>p out. foldl push_stream_byte (sd_pending d, []) (meaning_text special id_to_token bt ks) = (p, out) \<and> deltas = out @ finish_pending p)"
  using assms
proof (induction ks arbitrary: d deltas)
  case Nil
  then show ?case by (auto simp: decoder_finish_def Let_def meaning_text_def split: if_splits)
next
  case (Cons k ks)
  obtain delta d1 where step: "decoder_push special id_to_token bt k d = (Inr delta, d1)"
    using Cons.prems(1) by (auto split: prod.splits sum.splits)
  obtain rest where rest: "decode_stream special id_to_token bt ks d1 = Inr (rest, d')"
    and deltas: "deltas = (case delta of None \<Rightarrow> [] | Some t \<Rightarrow> t) @ rest"
    using Cons.prems(1) step by (auto split: sum.splits)
  note one = decoder_push_bytes [OF step]
  obtain p out where more: "foldl push_stream_byte (sd_pending d1, []) (meaning_text special id_to_token bt ks) = (p, out)"
    and rest_eq: "rest = out @ finish_pending p" and text_eq: "sd_text d' = sd_text d1 @ rest" "sd_finished d'"
    using Cons.IH [OF rest] one by auto
  have "foldl push_stream_byte (sd_pending d, []) (meaning_text special id_to_token bt (k # ks)) =
      (p, (case delta of None \<Rightarrow> [] | Some t \<Rightarrow> t) @ out)"
    using one more foldl_stream_out [of "sd_pending d1" "case delta of None \<Rightarrow> [] | Some t \<Rightarrow> t" "[]"] by (simp add: meaning_text_def)
  then show ?case using one text_eq rest_eq deltas by auto
qed

text \<open>C22: Streaming decoding is lossy decoding of all bytes. Pushing any tokens one by one and finishing the
  stream emits deltas that join to the decoder's text, and that text is the lossy decoding of the
  concatenated token bytes: the division into tokens never splits or merges a character. Text that is
  valid in the decoder's table comes out unchanged. That table is narrower than UTF-8: the encoding of
  U+40000, valid UTF-8, comes out as four replacement characters.\<close>

theorem streaming_decoder_text:
  "(\<forall>deltas d. decode_stream special id_to_token bt ks decoder_new = Inr (deltas, d) \<longrightarrow>
      sd_text d = deltas \<and> deltas = utf8_lossy decoder_rows (meaning_text special id_to_token bt ks)) \<and>
   (\<forall>x. utf8_valid decoder_rows x \<longrightarrow> utf8_lossy decoder_rows x = x) \<and>
   utf8_valid utf8_rows (map char_of [0xF1, 0x80, 0x80, 0x80 :: nat]) \<and>
   utf8_lossy decoder_rows (map char_of [0xF1, 0x80, 0x80, 0x80 :: nat]) = replacement @ replacement @ replacement @ replacement"
proof (intro conjI allI impI)
  fix deltas d assume "decode_stream special id_to_token bt ks decoder_new = Inr (deltas, d)"
  note run = decode_stream_text [OF this]
  then show "sd_text d = deltas" by (simp add: decoder_new_def)
  show "deltas = utf8_lossy decoder_rows (meaning_text special id_to_token bt ks)"
    using run stream_text [of "[]"] by (auto simp: decoder_new_def)
next
  show "utf8_valid utf8_rows (map char_of [0xF1, 0x80, 0x80, 0x80 :: nat])" by code_simp
  show "utf8_lossy decoder_rows (map char_of [0xF1, 0x80, 0x80, 0x80 :: nat]) = replacement @ replacement @ replacement @ replacement"
    by code_simp
qed (rule valid_lossy)

lemma sample_stream_ok: "decode_stream (\<lambda>k. k = 6) sample_tokens sample_table [5, 6, 2] decoder_new =
    Inr (''histop>'', \<lparr>sd_text = ''histop>'', sd_pending = [], sd_finished = True\<rparr>)"
  by code_simp

theorem streaming_decoder_text_witness:
  "''histop>'' = utf8_lossy decoder_rows (meaning_text (\<lambda>k. k = 6) sample_tokens sample_table [5, 6, 2])"
  using streaming_decoder_text [of "\<lambda>k. k = 6" sample_tokens sample_table "[5, 6, 2]"] sample_stream_ok by blast

section \<open>Text that was encoded\<close>

lemma decoder_push_total:
  assumes "\<not> special k" and "id_to_token k = Some cs" and "list_all (\<lambda>c. bt c \<noteq> None) cs" and "\<not> sd_finished d"
  shows "\<exists>delta d'. decoder_push special id_to_token bt k d = (Inr delta, d')"
proof -
  obtain p out where run: "push_characters bt cs (sd_pending d, []) = (Inr (), p, out)"
    using push_characters_bytes [of bt cs "(sd_pending d, [])"] assms(3) by (metis prod.exhaust)
  then show ?thesis using assms by (cases "out = []") (simp_all add: decoder_push_def Let_def)
qed

lemma decode_stream_total:
  "\<forall>k\<in>set ks. \<not> special k \<and> id_to_token k = Some (content k) \<Longrightarrow> list_all (\<lambda>c. bt c \<noteq> None) (concat (map content ks)) \<Longrightarrow>
    \<not> sd_finished d \<Longrightarrow> \<exists>r. decode_stream special id_to_token bt ks d = Inr r"
proof (induction ks arbitrary: d)
  case (Cons k ks)
  obtain delta d1 where step: "decoder_push special id_to_token bt k d = (Inr delta, d1)"
    using decoder_push_total [of special k id_to_token "content k" bt d] Cons.prems by auto
  then obtain r where "decode_stream special id_to_token bt ks d1 = Inr r"
    using Cons.IH [of d1] Cons.prems decoder_push_bytes [OF step] by auto
  then show ?case using step by (auto split: prod.splits)
qed (auto split: prod.splits)

text \<open>C21: Text survives the byte-level alphabet. Take any text that is valid in the decoder's table, write its
  bytes as byte-level characters and divide these into tokens anywhere, also inside a character: pushing
  the tokens and finishing succeeds and gives the text back. The alphabet is the one \<open>byte_level_table\<close>
  builds, so every byte has a character in it.\<close>

theorem byte_level_round_trip:
  assumes "\<forall>k\<in>set ks. \<not> special k \<and> id_to_token k = Some (content k)"
    and "concat (map content ks) = map byte_level_char x" and "utf8_valid decoder_rows x"
  shows "\<exists>d. decode_stream special id_to_token byte_level_table ks decoder_new = Inr (x, d) \<and> sd_text d = x"
proof -
  have "list_all (\<lambda>c. byte_level_table c \<noteq> None) (concat (map content ks))" by (simp add: assms(2) list_all_iff)
  then obtain deltas d where run: "decode_stream special id_to_token byte_level_table ks decoder_new = Inr (deltas, d)"
    using decode_stream_total [OF assms(1), of byte_level_table decoder_new] by (auto simp: decoder_new_def)
  have "map (\<lambda>k. case token_meaning special id_to_token byte_level_table k of None \<Rightarrow> [] | Some b \<Rightarrow> b) ks =
      map (\<lambda>k. map (the \<circ> byte_level_table) (content k)) ks"
    using assms(1) by (simp add: token_meaning_def)
  then have "meaning_text special id_to_token byte_level_table ks = map (the \<circ> byte_level_table) (concat (map content ks))"
    unfolding meaning_text_def by (simp only:) (simp add: map_concat comp_def)
  then have "meaning_text special id_to_token byte_level_table ks = x" by (simp add: assms(2) comp_def)
  then have "sd_text d = deltas \<and> deltas = x"
    using decode_stream_text [OF run] stream_text [of "[]"] valid_lossy [OF assms(3)] by (auto simp: decoder_new_def)
  then show ?thesis using run by auto
qed

text \<open>The two bytes of U+00E9 in two tokens.\<close>

theorem byte_level_round_trip_witness:
  "\<exists>d. decode_stream (\<lambda>k. False) (\<lambda>k. if k = 0 then Some [0xC3] else Some [0xA9]) byte_level_table [0, 1] decoder_new =
    Inr (map char_of [0xC3, 0xA9 :: nat], d) \<and> sd_text d = map char_of [0xC3, 0xA9 :: nat]"
proof (rule byte_level_round_trip [where content = "\<lambda>k. if k = 0 then [0xC3] else [0xA9]"])
  show "utf8_valid decoder_rows (map char_of [0xC3, 0xA9 :: nat])" by code_simp
qed (simp_all add: byte_level_char_def byte_level_plain_def)

end
