(* ===== verification/Sampling.thy ===== *)
theory Sampling
  imports Prelude "HOL-Library.Word" "HOL-Library.AList"
begin

text \<open>
  Token selection of \<open>crates/tuisko-engine/src/sampling.rs\<close>: option validation, greedy and top-k / top-p
  routes over one BF16 vocabulary row, output-history penalties, the sampled law and the speculative
  decision. A float is its bit pattern; comparison, finiteness and \<open>total_cmp\<close> are exact on the patterns.
  Rounded arithmetic and \<open>exp\<close> are the record \<open>float_ops\<close>, an argument of every definition that
  calculates, so what is proved holds for any rounding. A \<open>HashMap\<close> of counts is an association list with
  distinct keys.
\<close>

unbundle bit_operations_syntax

section \<open>Floats as bit patterns\<close>

type_synonym bf16 = "16 word"
type_synonym f32 = "32 word"
type_synonym f64 = "64 word"

definition float_magnitude :: "'a::len word \<Rightarrow> int" where
  "float_magnitude w = uint (take_bit (LENGTH('a) - 1) w)"

definition float_key :: "'a::len word \<Rightarrow> int" where
  "float_key w = (if bit w (LENGTH('a) - 1) then - float_magnitude w else float_magnitude w)"

definition F32_INFINITY :: f32 where "F32_INFINITY = 0x7F800000"
definition F64_INFINITY :: f64 where "F64_INFINITY = 0x7FF0000000000000"

text \<open>Finiteness and the partial order, for the format with positive infinity \<open>pinf\<close>.\<close>

definition float_finite :: "'a::len word \<Rightarrow> 'a word \<Rightarrow> bool" where
  "float_finite pinf w \<longleftrightarrow> float_magnitude w < float_magnitude pinf"

definition float_nan :: "'a::len word \<Rightarrow> 'a word \<Rightarrow> bool" where
  "float_nan pinf w \<longleftrightarrow> float_magnitude pinf < float_magnitude w"

definition float_lt :: "'a::len word \<Rightarrow> 'a word \<Rightarrow> 'a word \<Rightarrow> bool" where
  "float_lt pinf a b \<longleftrightarrow> \<not> float_nan pinf a \<and> \<not> float_nan pinf b \<and> float_key a < float_key b"

definition float_le :: "'a::len word \<Rightarrow> 'a word \<Rightarrow> 'a word \<Rightarrow> bool" where
  "float_le pinf a b \<longleftrightarrow> \<not> float_nan pinf a \<and> \<not> float_nan pinf b \<and> float_key a \<le> float_key b"

definition float_eq :: "'a::len word \<Rightarrow> 'a word \<Rightarrow> 'a word \<Rightarrow> bool" where
  "float_eq pinf a b \<longleftrightarrow> \<not> float_nan pinf a \<and> \<not> float_nan pinf b \<and> float_key a = float_key b"

abbreviation f32_finite :: "f32 \<Rightarrow> bool" where "f32_finite \<equiv> float_finite F32_INFINITY"
abbreviation f32_lt :: "f32 \<Rightarrow> f32 \<Rightarrow> bool" where "f32_lt \<equiv> float_lt F32_INFINITY"
abbreviation f32_le :: "f32 \<Rightarrow> f32 \<Rightarrow> bool" where "f32_le \<equiv> float_le F32_INFINITY"
abbreviation f32_eq :: "f32 \<Rightarrow> f32 \<Rightarrow> bool" where "f32_eq \<equiv> float_eq F32_INFINITY"
abbreviation f64_finite :: "f64 \<Rightarrow> bool" where "f64_finite \<equiv> float_finite F64_INFINITY"
abbreviation f64_lt :: "f64 \<Rightarrow> f64 \<Rightarrow> bool" where "f64_lt \<equiv> float_lt F64_INFINITY"
abbreviation f64_le :: "f64 \<Rightarrow> f64 \<Rightarrow> bool" where "f64_le \<equiv> float_le F64_INFINITY"

text \<open>\<open>f32::total_cmp\<close> compares these keys.\<close>

definition f32_total_key :: "f32 \<Rightarrow> int" where
  "f32_total_key w = sint (w XOR drop_bit 1 (signed_drop_bit 31 w))"

definition F32_ONE :: f32 where "F32_ONE = 0x3F800000"
definition F32_TWO :: f32 where "F32_TWO = 0x40000000"
definition F32_MINUS_TWO :: f32 where "F32_MINUS_TWO = 0xC0000000"
definition F32_MIN_POSITIVE :: f32 where "F32_MIN_POSITIVE = 0x00800000"
definition F64_ONE :: f64 where "F64_ONE = 0x3FF0000000000000"

definition f32_max :: "f32 \<Rightarrow> f32 \<Rightarrow> f32" where
  "f32_max a b = (if float_nan F32_INFINITY a then b else if f32_lt a b then b else a)"

definition f64_min :: "f64 \<Rightarrow> f64 \<Rightarrow> f64" where
  "f64_min a b = (if float_nan F64_INFINITY a then b else if f64_lt b a then b else a)"

record float_ops =
  sub32 :: "f32 \<Rightarrow> f32 \<Rightarrow> f32"
  mul32 :: "f32 \<Rightarrow> f32 \<Rightarrow> f32"
  div32 :: "f32 \<Rightarrow> f32 \<Rightarrow> f32"
  exp32 :: "f32 \<Rightarrow> f32"
  u32_as_f32 :: "nat \<Rightarrow> f32"
  f32_as_f64 :: "f32 \<Rightarrow> f64"
  add64 :: "f64 \<Rightarrow> f64 \<Rightarrow> f64"
  sub64 :: "f64 \<Rightarrow> f64 \<Rightarrow> f64"
  mul64 :: "f64 \<Rightarrow> f64 \<Rightarrow> f64"
  div64 :: "f64 \<Rightarrow> f64 \<Rightarrow> f64"
  u64_as_f64 :: "64 word \<Rightarrow> f64"
  sum64 :: "f64 list \<Rightarrow> f64"

section \<open>Options\<close>

definition VOCABULARY :: nat where "VOCABULARY = 248320"
definition DEFAULT_TOP_K :: nat where "DEFAULT_TOP_K = 20"
definition DEFAULT_TOP_P :: f32 where "DEFAULT_TOP_P = 0x3F733333"
definition LINEAR_PROBE_LIMIT :: nat where "LINEAR_PROBE_LIMIT = 64"
definition RNG_SCRAMBLE :: "64 word" where "RNG_SCRAMBLE = 0x9E3779B97F4A7C15"

record sampling_penalties =
  pen_presence :: f32
  pen_frequency :: f32
  pen_repetition :: f32

record sampling_options =
  so_temperature :: f32
  so_top_p :: f32
  so_top_k :: nat
  so_seed :: "64 word"
  so_penalties :: sampling_penalties

definition penalties_identity :: sampling_penalties where
  "penalties_identity = \<lparr>pen_presence = 0, pen_frequency = 0, pen_repetition = F32_ONE\<rparr>"

definition is_identity :: "sampling_penalties \<Rightarrow> bool" where
  "is_identity p \<longleftrightarrow> f32_eq (pen_presence p) 0 \<and> f32_eq (pen_frequency p) 0 \<and> f32_eq (pen_repetition p) F32_ONE"

definition penalties_apply :: "float_ops \<Rightarrow> sampling_penalties \<Rightarrow> f32 \<Rightarrow> nat \<Rightarrow> f32" where
  "penalties_apply fo p logit count =
    (if count = 0 then logit
     else
       let scaled = (if f32_eq (pen_repetition p) F32_ONE then logit
                     else if f32_lt 0 logit then div32 fo logit (pen_repetition p)
                     else mul32 fo logit (pen_repetition p)) in
       sub32 fo (sub32 fo scaled (pen_presence p)) (mul32 fo (pen_frequency p) (u32_as_f32 fo count)))"

definition options_greedy :: sampling_options where
  "options_greedy = \<lparr>so_temperature = 0, so_top_p = F32_ONE, so_top_k = 1, so_seed = 0, so_penalties = penalties_identity\<rparr>"

definition options_default :: sampling_options where
  "options_default = \<lparr>so_temperature = F32_ONE, so_top_p = DEFAULT_TOP_P, so_top_k = DEFAULT_TOP_K, so_seed = 0,
    so_penalties = penalties_identity\<rparr>"

definition is_greedy :: "sampling_options \<Rightarrow> bool" where
  "is_greedy o1 \<longleftrightarrow> f32_eq (so_temperature o1) 0 \<or> so_top_k o1 = 1"

definition validate_options :: "sampling_options \<Rightarrow> unit engine_result" where
  "validate_options o1 =
    (let p = so_penalties o1 in
     if \<not> f32_finite (so_temperature o1) \<or> f32_lt (so_temperature o1) 0
     then Inl (sampling_error ''temperature must be finite and non-negative'')
     else if \<not> f32_finite (so_top_p o1) \<or> \<not> (f32_le 0 (so_top_p o1) \<and> f32_le (so_top_p o1) F32_ONE)
     then Inl (sampling_error ''top_p must be finite and in 0..=1'')
     else if \<not> (1 \<le> so_top_k o1 \<and> so_top_k o1 \<le> VOCABULARY)
     then Inl (sampling_error ''top_k must be in 1..=VOCABULARY'')
     else if \<not> f32_finite (pen_presence p) \<or> \<not> (f32_le F32_MINUS_TWO (pen_presence p) \<and> f32_le (pen_presence p) F32_TWO)
     then Inl (sampling_error ''presence_penalty must be finite and in -2..=2'')
     else if \<not> f32_finite (pen_frequency p) \<or> \<not> (f32_le F32_MINUS_TWO (pen_frequency p) \<and> f32_le (pen_frequency p) F32_TWO)
     then Inl (sampling_error ''frequency_penalty must be finite and in -2..=2'')
     else if \<not> f32_finite (pen_repetition p) \<or> f32_le (pen_repetition p) 0
     then Inl (sampling_error ''repetition_penalty must be finite and strictly positive'')
     else Inr ())"

definition validate_stop_ids :: "nat list \<Rightarrow> unit engine_result" where
  "validate_stop_ids stop_ids =
    (if \<not> (1 \<le> length stop_ids \<and> length stop_ids \<le> 2)
     then Inl (sampling_error ''generation requires one or two stop-token identifiers'')
     else if length stop_ids = 2 \<and> stop_ids ! 0 = stop_ids ! 1
     then Inl (sampling_error ''generation stop-token identifiers must be distinct'')
     else if list_ex (\<lambda>token. VOCABULARY \<le> token) stop_ids
     then Inl (sampling_error ''generation stop token is outside vocabulary'')
     else Inr ())"

definition require_vocabulary_row :: "bf16 list \<Rightarrow> unit engine_result" where
  "require_vocabulary_row logits =
    (if length logits \<noteq> VOCABULARY then Inl (sampling_error ''sampling requires VOCABULARY BF16 logits'') else Inr ())"

section \<open>Selection from a row\<close>

definition finite_logit :: "bf16 \<Rightarrow> f32 engine_result" where
  "finite_logit bits =
    (let value = push_bit 16 (ucast bits :: f32) in
     if \<not> f32_finite value then Inl (sampling_error ''sampling received a non-finite logit'') else Inr value)"

fun greedy_loop :: "bf16 list \<Rightarrow> nat \<Rightarrow> (nat \<times> f32) option \<Rightarrow> (nat \<times> f32) option engine_result" where
  "greedy_loop [] token best = Inr best"
| "greedy_loop (bits # rest) token best =
    rbind (finite_logit bits) (\<lambda>value.
      greedy_loop rest (token + 1)
        (if (case best of None \<Rightarrow> True | Some (_, best_value) \<Rightarrow> f32_total_key best_value < f32_total_key value)
         then Some (token, value) else best))"

definition greedy_index :: "bf16 list \<Rightarrow> nat engine_result" where
  "greedy_index logits =
    rbind (greedy_loop logits 0 None) (\<lambda>best.
      ok_or (map_option fst best) (sampling_error ''sampling received an empty logit row''))"

text \<open>\<open>slice::partition_point\<close>, on a list that its predicate partitions.\<close>

definition partition_point :: "('a \<Rightarrow> bool) \<Rightarrow> 'a list \<Rightarrow> nat" where
  "partition_point P xs = length (takeWhile P xs)"

text \<open>The body all three top-k loops share; \<open>top[top.len() - 1]\<close> panics on an empty \<open>top\<close>.\<close>

definition top_insert :: "nat \<Rightarrow> nat \<Rightarrow> f32 \<Rightarrow> (nat \<times> f32) list \<Rightarrow> (nat \<times> f32) list engine_result" where
  "top_insert k token value tops =
    (if length tops = k \<and> tops = [] then Inl Panicked
     else if length tops = k \<and> \<not> f32_total_key (snd (last tops)) < f32_total_key value then Inr tops
     else
       let insertion = partition_point (\<lambda>(_, retained). \<not> f32_total_key retained < f32_total_key value) tops;
           tops = take insertion tops @ (token, value) # drop insertion tops in
       Inr (if length tops > k then butlast tops else tops))"

fun top_k_loop :: "nat \<Rightarrow> bf16 list \<Rightarrow> nat \<Rightarrow> (nat \<times> f32) list \<Rightarrow> (nat \<times> f32) list engine_result" where
  "top_k_loop k [] token tops = Inr tops"
| "top_k_loop k (bits # rest) token tops =
    rbind (finite_logit bits) (\<lambda>value.
      rbind (top_insert k token value tops) (\<lambda>tops. top_k_loop k rest (token + 1) tops))"

definition top_k_select :: "bf16 list \<Rightarrow> nat \<Rightarrow> (nat \<times> f32) list engine_result" where
  "top_k_select logits k = top_k_loop k logits 0 []"

text \<open>Occurrences of a token; the \<open>u32\<close> sum wraps.\<close>

type_synonym token_counts = "(nat \<times> nat) list"

definition history_count :: "token_counts \<Rightarrow> nat list \<Rightarrow> nat \<Rightarrow> nat" where
  "history_count committed provisional token =
    ((case map_of committed token of None \<Rightarrow> 0 | Some n \<Rightarrow> n) + length (filter (\<lambda>c. c = token) provisional)) mod U32_BOUND"

definition conditioned_value :: "float_ops \<Rightarrow> sampling_penalties \<Rightarrow> token_counts \<Rightarrow> nat list \<Rightarrow> nat \<Rightarrow> f32 \<Rightarrow> f32 engine_result" where
  "conditioned_value fo penalties committed provisional token raw =
    (let value = penalties_apply fo penalties raw (history_count committed provisional token) in
     if \<not> f32_finite value then Inl (sampling_error ''sampling penalties produced a non-finite logit'') else Inr value)"

fun conditioned_top_k_loop ::
  "float_ops \<Rightarrow> nat \<Rightarrow> sampling_penalties \<Rightarrow> token_counts \<Rightarrow> nat list \<Rightarrow> bf16 list \<Rightarrow> nat \<Rightarrow> (nat \<times> f32) list \<Rightarrow>
   (nat \<times> f32) list engine_result" where
  "conditioned_top_k_loop fo k penalties committed provisional [] token tops = Inr tops"
| "conditioned_top_k_loop fo k penalties committed provisional (bits # rest) token tops =
    rbind (finite_logit bits) (\<lambda>raw.
      rbind (conditioned_value fo penalties committed provisional token raw) (\<lambda>value.
        rbind (top_insert k token value tops) (\<lambda>tops.
          conditioned_top_k_loop fo k penalties committed provisional rest (token + 1) tops)))"

definition require_history :: "nat list \<Rightarrow> unit engine_result" where
  "require_history provisional =
    (if list_ex (\<lambda>token. VOCABULARY \<le> token) provisional
     then Inl (sampling_error ''sampling history token is outside vocabulary'') else Inr ())"

definition conditioned_top_k ::
  "float_ops \<Rightarrow> bf16 list \<Rightarrow> nat \<Rightarrow> sampling_penalties \<Rightarrow> token_counts \<Rightarrow> nat list \<Rightarrow> (nat \<times> f32) list engine_result" where
  "conditioned_top_k fo logits k penalties committed provisional =
    rbind (require_history provisional) (\<lambda>_. conditioned_top_k_loop fo k penalties committed provisional logits 0 [])"

fun conditioned_top_k_where_loop ::
  "float_ops \<Rightarrow> nat \<Rightarrow> sampling_penalties \<Rightarrow> token_counts \<Rightarrow> nat list \<Rightarrow> (nat \<Rightarrow> bool) \<Rightarrow> bf16 list \<Rightarrow> nat \<Rightarrow>
   (nat \<times> f32) list \<Rightarrow> (nat \<times> f32) list engine_result" where
  "conditioned_top_k_where_loop fo k penalties committed provisional allowed [] token tops = Inr tops"
| "conditioned_top_k_where_loop fo k penalties committed provisional allowed (bits # rest) token tops =
    rbind (finite_logit bits) (\<lambda>raw.
      if \<not> allowed token then conditioned_top_k_where_loop fo k penalties committed provisional allowed rest (token + 1) tops
      else rbind (conditioned_value fo penalties committed provisional token raw) (\<lambda>value.
        rbind (top_insert k token value tops) (\<lambda>tops.
          conditioned_top_k_where_loop fo k penalties committed provisional allowed rest (token + 1) tops)))"

definition conditioned_top_k_where ::
  "float_ops \<Rightarrow> bf16 list \<Rightarrow> nat \<Rightarrow> sampling_penalties \<Rightarrow> token_counts \<Rightarrow> nat list \<Rightarrow> (nat \<Rightarrow> bool) \<Rightarrow>
   (nat \<times> f32) list engine_result" where
  "conditioned_top_k_where fo logits k penalties committed provisional allowed =
    rbind (require_history provisional) (\<lambda>_.
      conditioned_top_k_where_loop fo k penalties committed provisional allowed logits 0 [])"

definition conditioned_greedy_index ::
  "float_ops \<Rightarrow> bf16 list \<Rightarrow> sampling_penalties \<Rightarrow> token_counts \<Rightarrow> nat list \<Rightarrow> nat engine_result" where
  "conditioned_greedy_index fo logits penalties committed provisional =
    (if is_identity penalties \<or> (committed = [] \<and> provisional = []) then greedy_index logits
     else rbind (conditioned_top_k fo logits 1 penalties committed provisional) (\<lambda>tops.
       if tops = [] then Inl (sampling_error ''penalized greedy selection has no candidate'') else Inr (fst (hd tops))))"

definition conditioned_greedy_index_where ::
  "float_ops \<Rightarrow> bf16 list \<Rightarrow> sampling_penalties \<Rightarrow> token_counts \<Rightarrow> nat list \<Rightarrow> (nat \<Rightarrow> bool) \<Rightarrow> nat engine_result" where
  "conditioned_greedy_index_where fo logits penalties committed provisional allowed =
    rbind (conditioned_top_k_where fo logits 1 penalties committed provisional allowed) (\<lambda>tops.
      if tops = [] then Inl (sampling_error ''tool-call constraint has no allowed candidate'') else Inr (fst (hd tops)))"

section \<open>The sampled law\<close>

record sampling_distribution =
  sd_masses :: "(nat \<times> f64) list"
  sd_by_token :: "(nat \<times> f64) list"
  sd_total :: f64

definition from_masses :: "float_ops \<Rightarrow> (nat \<times> f64) list \<Rightarrow> sampling_distribution engine_result" where
  "from_masses fo masses =
    (let total_mass = sum64 fo (map snd masses) in
     if masses = [] \<or> list_ex (\<lambda>(token, mass). VOCABULARY \<le> token \<or> \<not> f64_finite mass \<or> f64_le mass 0) masses \<or>
        \<not> f64_finite total_mass \<or> f64_le total_mass 0
     then Inl (sampling_error ''sampling distribution has no finite positive mass'')
     else Inr \<lparr>sd_masses = masses,
       sd_by_token = (if length masses > LINEAR_PROBE_LIMIT then sort_key fst masses else []), sd_total = total_mass\<rparr>)"

text \<open>\<open>find\<close> of a token, and \<open>binary_search_by_key\<close> on the list sorted by token.\<close>

definition find_mass :: "nat \<Rightarrow> (nat \<times> f64) list \<Rightarrow> f64 option" where
  "find_mass token xs = map_option snd (find (\<lambda>(candidate, _). candidate = token) xs)"

function search_mass :: "nat \<Rightarrow> (nat \<times> f64) list \<Rightarrow> f64 option" where
  "search_mass token xs =
    (if xs = [] then None
     else
       let m = length xs div 2; (candidate, mass) = xs ! m in
       if candidate = token then Some mass
       else if candidate < token then search_mass token (drop (m + 1) xs)
       else search_mass token (take m xs))"
  by pat_completeness auto

termination by (relation "measure (\<lambda>(token, xs). length xs)") auto

declare search_mass.simps [simp del]

definition distribution_probability :: "float_ops \<Rightarrow> sampling_distribution \<Rightarrow> nat \<Rightarrow> f64" where
  "distribution_probability fo d token =
    (if sd_by_token d = []
     then case find_mass token (sd_masses d) of Some mass \<Rightarrow> div64 fo mass (sd_total d) | None \<Rightarrow> 0
     else case search_mass token (sd_by_token d) of Some mass \<Rightarrow> div64 fo mass (sd_total d) | None \<Rightarrow> 0)"

definition distribution_probabilities :: "float_ops \<Rightarrow> sampling_distribution \<Rightarrow> (nat \<times> f64) list" where
  "distribution_probabilities fo d = map (\<lambda>(token, mass). (token, div64 fo mass (sd_total d))) (sd_masses d)"

fun draw_loop :: "float_ops \<Rightarrow> f64 \<Rightarrow> f64 \<Rightarrow> (nat \<times> f64) list \<Rightarrow> nat option" where
  "draw_loop fo threshold cumulative [] = None"
| "draw_loop fo threshold cumulative ((token, mass) # masses) =
    (let cumulative = add64 fo cumulative mass in
     if f64_le threshold cumulative then Some token else draw_loop fo threshold cumulative masses)"

definition draw_at :: "float_ops \<Rightarrow> sampling_distribution \<Rightarrow> f64 \<Rightarrow> nat engine_result" where
  "draw_at fo d unit =
    (if \<not> f64_finite unit \<or> \<not> (f64_le 0 unit \<and> f64_lt unit F64_ONE)
     then Inl (sampling_error ''sampling variate must be finite and in 0..1'')
     else case draw_loop fo (mul64 fo unit (sd_total d)) 0 (sd_masses d) of
       Some token \<Rightarrow> Inr token
     | None \<Rightarrow>
        if sd_masses d = [] then Inl (sampling_error ''sampling distribution has no support'')
        else Inr (fst (last (sd_masses d))))"

text \<open>The top-p loop: \<open>retained_total\<close> and \<open>retained\<close>.\<close>

fun top_p_loop :: "float_ops \<Rightarrow> f64 \<Rightarrow> f64 \<times> nat \<Rightarrow> f64 list \<Rightarrow> f64 \<times> nat" where
  "top_p_loop fo cutoff st [] = st"
| "top_p_loop fo cutoff (retained_total, retained) (weight # weights) =
    (let st = (add64 fo retained_total weight, retained + 1) in
     if f64_le cutoff (fst st) then st else top_p_loop fo cutoff st weights)"

definition distribution_from_top :: "float_ops \<Rightarrow> (nat \<times> f32) list \<Rightarrow> sampling_options \<Rightarrow> sampling_distribution engine_result" where
  "distribution_from_top fo tops o1 =
    (if tops = [] then Inl (sampling_error ''tool-call constraint has no allowed candidate'')
     else
       let maximum = snd (hd tops);
           weights = map (\<lambda>(_, value). f32_as_f64 fo (exp32 fo (div32 fo (sub32 fo value maximum) (so_temperature o1)))) tops;
           total_weight = sum64 fo weights;
           cutoff = mul64 fo (f32_as_f64 fo (f32_max (so_top_p o1) F32_MIN_POSITIVE)) total_weight;
           (retained_total, retained) = top_p_loop fo cutoff (0, 0) weights in
       if retained = 0 \<or> \<not> f64_finite retained_total \<or> f64_le retained_total 0
       then Inl (sampling_error ''sampling distribution has no finite probability mass'')
       else
         let masses = take retained (zip (map fst tops) weights) in
         if list_ex (\<lambda>(token, _). U32_BOUND \<le> token) masses then Inl (sampling_error ''sampled token exceeds u32'')
         else from_masses fo masses)"

definition distribution_of_row ::
  "float_ops \<Rightarrow> bf16 list \<Rightarrow> sampling_options \<Rightarrow> token_counts \<Rightarrow> nat list \<Rightarrow> sampling_distribution engine_result" where
  "distribution_of_row fo logits o1 committed provisional =
    rbind (require_vocabulary_row logits) (\<lambda>_.
      rbind (if is_identity (so_penalties o1) \<or> (committed = [] \<and> provisional = [])
             then top_k_select logits (so_top_k o1)
             else conditioned_top_k fo logits (so_top_k o1) (so_penalties o1) committed provisional)
        (\<lambda>tops. distribution_from_top fo tops o1))"

definition distribution_of_row_where ::
  "float_ops \<Rightarrow> bf16 list \<Rightarrow> sampling_options \<Rightarrow> token_counts \<Rightarrow> nat list \<Rightarrow> (nat \<Rightarrow> bool) \<Rightarrow> sampling_distribution engine_result" where
  "distribution_of_row_where fo logits o1 committed provisional allowed =
    rbind (require_vocabulary_row logits) (\<lambda>_.
      rbind (conditioned_top_k_where fo logits (so_top_k o1) (so_penalties o1) committed provisional allowed)
        (\<lambda>tops. distribution_from_top fo tops o1))"

section \<open>The generator of variates\<close>

definition xorshift_new :: "64 word \<Rightarrow> 64 word" where
  "xorshift_new seed = (let state = seed XOR RNG_SCRAMBLE in if state = 0 then RNG_SCRAMBLE else state)"

definition xorshift_step :: "64 word \<Rightarrow> 64 word" where
  "xorshift_step value =
    (let value = value XOR push_bit 13 value; value = value XOR drop_bit 7 value in value XOR push_bit 17 value)"

definition xorshift_unit :: "float_ops \<Rightarrow> 64 word \<Rightarrow> f64 \<times> 64 word" where
  "xorshift_unit fo state =
    (let value = xorshift_step state in
     (mul64 fo (u64_as_f64 fo (drop_bit 11 value)) (div64 fo F64_ONE (u64_as_f64 fo (push_bit 53 1))), value))"

section \<open>The sampler\<close>

record sample_decision =
  dec_token_id :: nat
  dec_stopped :: bool

record sampler =
  sa_options :: sampling_options
  sa_stop_ids :: "nat list"
  sa_stop_id_count :: nat
  sa_random :: "64 word"

definition sampler_new :: "sampling_options \<Rightarrow> nat list \<Rightarrow> sampler engine_result" where
  "sampler_new o1 stop_ids =
    rbind (validate_options o1) (\<lambda>_. rbind (validate_stop_ids stop_ids) (\<lambda>_.
      Inr \<lparr>sa_options = o1, sa_stop_ids = list_write 0 stop_ids [0, 0], sa_stop_id_count = length stop_ids,
           sa_random = xorshift_new (so_seed o1)\<rparr>))"

definition decision_for_token :: "sampler \<Rightarrow> nat \<Rightarrow> sample_decision engine_result" where
  "decision_for_token s token =
    (if VOCABULARY \<le> token then Inl (sampling_error ''selected token is outside vocabulary'')
     else Inr \<lparr>dec_token_id = token, dec_stopped = token \<in> set (take (sa_stop_id_count s) (sa_stop_ids s))\<rparr>)"

definition selected_token :: "sampler \<Rightarrow> nat engine_result \<Rightarrow> sample_decision engine_result" where
  "selected_token s r = rbind r (\<lambda>token.
    if U32_BOUND \<le> token then Inl (sampling_error ''sampled token exceeds u32'') else decision_for_token s token)"

definition sampler_draw :: "float_ops \<Rightarrow> sampling_distribution \<Rightarrow> sampler \<Rightarrow> nat engine_result \<times> sampler" where
  "sampler_draw fo d s = (case xorshift_unit fo (sa_random s) of (unit, state) \<Rightarrow> (draw_at fo d unit, s\<lparr>sa_random := state\<rparr>))"

text \<open>\<open>distribution.draw_at(self.random.unit_f64())\<close> for a law that may be an error.\<close>

definition draw_from :: "float_ops \<Rightarrow> sampling_distribution engine_result \<Rightarrow> sampler \<Rightarrow> nat engine_result \<times> sampler" where
  "draw_from fo law s = (case law of Inl e \<Rightarrow> (Inl e, s) | Inr d \<Rightarrow> sampler_draw fo d s)"

definition sample_with_counts ::
  "float_ops \<Rightarrow> bf16 list \<Rightarrow> token_counts \<Rightarrow> nat list \<Rightarrow> sampler \<Rightarrow> sample_decision engine_result \<times> sampler" where
  "sample_with_counts fo logits committed provisional s =
    (case require_vocabulary_row logits of
       Inl e \<Rightarrow> (Inl e, s)
     | Inr _ \<Rightarrow>
        (case (if is_greedy (sa_options s)
               then (conditioned_greedy_index fo logits (so_penalties (sa_options s)) committed provisional, s)
               else draw_from fo (distribution_of_row fo logits (sa_options s) committed provisional) s)
         of (r, s) \<Rightarrow> (selected_token s r, s)))"

definition sample_with_counts_where ::
  "float_ops \<Rightarrow> bf16 list \<Rightarrow> token_counts \<Rightarrow> nat list \<Rightarrow> (nat \<Rightarrow> bool) \<Rightarrow> sampler \<Rightarrow> sample_decision engine_result \<times> sampler" where
  "sample_with_counts_where fo logits committed provisional allowed s =
    (case require_vocabulary_row logits of
       Inl e \<Rightarrow> (Inl e, s)
     | Inr _ \<Rightarrow>
        (case (if is_greedy (sa_options s)
               then (conditioned_greedy_index_where fo logits (so_penalties (sa_options s)) committed provisional allowed, s)
               else draw_from fo (distribution_of_row_where fo logits (sa_options s) committed provisional allowed) s)
         of (r, s) \<Rightarrow> (selected_token s r, s)))"

definition sampler_sample :: "float_ops \<Rightarrow> bf16 list \<Rightarrow> sampler \<Rightarrow> sample_decision engine_result \<times> sampler" where
  "sampler_sample fo logits s = sample_with_counts fo logits [] [] s"

definition probabilistic_required :: engine_error where
  "probabilistic_required = sampling_error ''a probabilistic distribution requires temperature>0 and top_k>1''"

definition sampler_distribution ::
  "float_ops \<Rightarrow> bf16 list \<Rightarrow> token_counts \<Rightarrow> nat list \<Rightarrow> sampler \<Rightarrow> sampling_distribution engine_result" where
  "sampler_distribution fo logits committed provisional s =
    (if is_greedy (sa_options s) then Inl probabilistic_required
     else distribution_of_row fo logits (sa_options s) committed provisional)"

definition sampler_distribution_where ::
  "float_ops \<Rightarrow> bf16 list \<Rightarrow> token_counts \<Rightarrow> nat list \<Rightarrow> (nat \<Rightarrow> bool) \<Rightarrow> sampler \<Rightarrow> sampling_distribution engine_result" where
  "sampler_distribution_where fo logits committed provisional allowed s =
    (if is_greedy (sa_options s) then Inl probabilistic_required
     else distribution_of_row_where fo logits (sa_options s) committed provisional allowed)"

definition distribution_if_top_k_allowed ::
  "float_ops \<Rightarrow> bf16 list \<Rightarrow> token_counts \<Rightarrow> nat list \<Rightarrow> (nat \<Rightarrow> bool) \<Rightarrow> sampler \<Rightarrow> sampling_distribution option engine_result" where
  "distribution_if_top_k_allowed fo logits committed provisional allowed s =
    (if is_greedy (sa_options s) then Inl probabilistic_required
     else rbind (require_vocabulary_row logits) (\<lambda>_.
       rbind (conditioned_top_k fo logits (so_top_k (sa_options s)) (so_penalties (sa_options s)) committed provisional) (\<lambda>tops.
         if \<not> list_all (\<lambda>(token, _). allowed token) tops then Inr None
         else map_sum id Some (distribution_from_top fo tops (sa_options s)))))"

section \<open>Speculative decisions\<close>

record speculative_choice =
  sc_token_id :: nat
  sc_accepted :: bool

definition speculative_accept_probability :: "float_ops \<Rightarrow> nat \<Rightarrow> sampling_distribution \<Rightarrow> sampling_distribution \<Rightarrow> f64" where
  "speculative_accept_probability fo token target draft =
    (let draft_probability = distribution_probability fo draft token in
     if f64_le draft_probability 0 then 0
     else f64_min (div64 fo (distribution_probability fo target token) draft_probability) F64_ONE)"

definition speculative_residual :: "float_ops \<Rightarrow> sampling_distribution \<Rightarrow> sampling_distribution \<Rightarrow> sampling_distribution engine_result" where
  "speculative_residual fo target draft =
    (let masses = List.map_filter (\<lambda>(token, target_probability).
           let excess = sub64 fo target_probability (distribution_probability fo draft token) in
           if f64_lt 0 excess then Some (token, excess) else None) (distribution_probabilities fo target) in
     case from_masses fo masses of
       Inl _ \<Rightarrow> Inl (sampling_error ''speculative residual has no positive probability mass'')
     | Inr d \<Rightarrow> Inr d)"

definition speculative_decision ::
  "float_ops \<Rightarrow> nat \<Rightarrow> sampling_distribution \<Rightarrow> sampling_distribution \<Rightarrow> f64 \<Rightarrow> f64 \<Rightarrow> speculative_choice engine_result" where
  "speculative_decision fo proposal target draft acceptance_unit residual_unit =
    (if \<not> f64_finite acceptance_unit \<or> \<not> (f64_le 0 acceptance_unit \<and> f64_lt acceptance_unit F64_ONE)
     then Inl (sampling_error ''speculative acceptance variate must be finite and in 0..1'')
     else if f64_lt acceptance_unit (speculative_accept_probability fo proposal target draft)
     then Inr \<lparr>sc_token_id = proposal, sc_accepted = True\<rparr>
     else rbind (speculative_residual fo target draft) (\<lambda>residual.
       rbind (draw_at fo residual residual_unit) (\<lambda>token. Inr \<lparr>sc_token_id = token, sc_accepted = False\<rparr>)))"

end
