(* ===== verification/Generation.thy ===== *)
theory Generation
  imports Sampling Decoder
begin

text \<open>
  One generation session of \<open>crates/tuisko-engine/src/generation.rs\<close>: the sampler, the streaming decoder and
  the tool-call constraint driven by one logit row per token. The admitted frontend is a record of the
  tokenizer facts the session uses; the encoded prompt is an argument of \<open>session_start\<close>.
\<close>

section \<open>Session state\<close>

record text_frontend =
  fe_special :: "nat \<Rightarrow> bool"
  fe_id_to_token :: "nat \<Rightarrow> nat list option"
  fe_byte_table :: "nat \<Rightarrow> char option"
  fe_vocabulary :: nat
  fe_stop_ids :: "nat list"

record prompt_encoding =
  pe_token_ids :: "nat list"
  pe_message_boundary_tokens :: nat
  pe_reused_tokens :: nat
  pe_rendered_bytes :: nat
  pe_fresh_bytes :: nat

record generation_request =
  rq_sampling :: sampling_options
  rq_max_new_tokens :: nat
  rq_tool_constraint :: "tool_function list option"

definition DEFAULT_MAX_NEW_TOKENS :: nat where "DEFAULT_MAX_NEW_TOKENS = 128"

definition request_new :: generation_request where
  "request_new = \<lparr>rq_sampling = options_default, rq_max_new_tokens = DEFAULT_MAX_NEW_TOKENS, rq_tool_constraint = None\<rparr>"

datatype finish_reason = FinishStop | FinishLength

record generation_step =
  st_token_id :: nat
  st_delta :: "string option"
  st_finish_reason :: "finish_reason option"

record generated_text =
  gt_prompt :: prompt_encoding
  gt_token_ids :: "nat list"
  gt_text :: string
  gt_finish_reason :: finish_reason

record cancelled_text =
  ca_prompt :: prompt_encoding
  ca_token_ids :: "nat list"
  ca_text :: string

record generation_session =
  gs_prompt :: prompt_encoding
  gs_sampler :: sampler
  gs_decoder :: streaming_decoder
  gs_generated :: "nat list"
  gs_occurrences :: token_counts
  gs_max_new_tokens :: nat
  gs_finish_reason :: "finish_reason option"
  gs_tool_constraint :: "tool_constraint option"

text \<open>\<open>EngineError::from(FrontendError)\<close>\<close>

fun from_frontend :: "frontend_error \<Rightarrow> engine_error" where
  "from_frontend (FrontendContract m) = Frontend m"
| "from_frontend (FrontendTokenizer m) = Frontend m"
| "from_frontend FrontendPanicked = Panicked"

definition tool_call_constraint :: "text_frontend \<Rightarrow> tool_function list \<Rightarrow> tool_constraint frontend_result" where
  "tool_call_constraint tf spec =
    rbind (inventory_build (fe_vocabulary tf) (fe_special tf) (fe_id_to_token tf) (fe_byte_table tf))
      (\<lambda>ti. Inr (constraint_new ti (fe_stop_ids tf) spec))"

definition session_start :: "text_frontend \<Rightarrow> prompt_encoding \<Rightarrow> generation_request \<Rightarrow> generation_session engine_result" where
  "session_start tf prompt request =
    rbind (sampler_new (rq_sampling request) (fe_stop_ids tf)) (\<lambda>sampler.
    rbind (case rq_tool_constraint request of
             None \<Rightarrow> Inr None
           | Some spec \<Rightarrow> map_sum from_frontend Some (tool_call_constraint tf spec)) (\<lambda>constraint.
    Inr \<lparr>gs_prompt = prompt, gs_sampler = sampler, gs_decoder = decoder_new, gs_generated = [], gs_occurrences = [],
         gs_max_new_tokens = rq_max_new_tokens request,
         gs_finish_reason = (if rq_max_new_tokens request = 0 then Some FinishLength else None),
         gs_tool_constraint = constraint\<rparr>))"

definition message_boundary_token_ids :: "generation_session \<Rightarrow> nat list option" where
  "message_boundary_token_ids g =
    (if pe_message_boundary_tokens (gs_prompt g) > length (pe_token_ids (gs_prompt g)) then None
     else Some (take (pe_message_boundary_tokens (gs_prompt g)) (pe_token_ids (gs_prompt g))))"

section \<open>Proposing a token\<close>

definition constraint_state :: "generation_session \<Rightarrow> nat list \<Rightarrow> protocol_state option engine_result" where
  "constraint_state g provisional =
    (case gs_tool_constraint g of
       None \<Rightarrow> Inr None
     | Some constraint \<Rightarrow> map_sum from_frontend Some (provisional_state constraint provisional))"

definition constraint_allows :: "generation_session \<Rightarrow> protocol_state \<Rightarrow> nat \<Rightarrow> bool" where
  "constraint_allows g state token =
    (case gs_tool_constraint g of None \<Rightarrow> True | Some constraint \<Rightarrow> allows_token constraint state token)"

text \<open>\<open>expect\<close> panics without a constraint; a state is only ever made from one.\<close>

definition constrained_distribution ::
  "float_ops \<Rightarrow> bf16 list \<Rightarrow> nat list \<Rightarrow> protocol_state \<Rightarrow> generation_session \<Rightarrow> sampling_distribution engine_result" where
  "constrained_distribution fo logits provisional state g =
    (case gs_tool_constraint g of
       None \<Rightarrow> Inl Panicked
     | Some constraint \<Rightarrow>
        rbind (distribution_if_top_k_allowed fo logits (gs_occurrences g) provisional (allows_token constraint state) (gs_sampler g))
          (\<lambda>fast. case fast of
             Some distribution \<Rightarrow> Inr distribution
           | None \<Rightarrow> sampler_distribution_where fo logits (gs_occurrences g) provisional (allows_token constraint state) (gs_sampler g)))"

definition on_sampler :: "(sampler \<Rightarrow> 'a \<times> sampler) \<Rightarrow> generation_session \<Rightarrow> 'a \<times> generation_session" where
  "on_sampler f g = (case f (gs_sampler g) of (a, s) \<Rightarrow> (a, g\<lparr>gs_sampler := s\<rparr>))"

definition propose_logits ::
  "float_ops \<Rightarrow> bf16 list \<Rightarrow> nat list \<Rightarrow> generation_session \<Rightarrow> sample_decision engine_result \<times> generation_session" where
  "propose_logits fo logits provisional g =
    (case constraint_state g provisional of
       Inl e \<Rightarrow> (Inl e, g)
     | Inr None \<Rightarrow> on_sampler (sample_with_counts fo logits (gs_occurrences g) provisional) g
     | Inr (Some state) \<Rightarrow>
        if is_greedy (sa_options (gs_sampler g))
        then
          (case on_sampler (sample_with_counts fo logits (gs_occurrences g) provisional) g of
             (Inl e, g) \<Rightarrow> (Inl e, g)
           | (Inr candidate, g) \<Rightarrow>
              if constraint_allows g state (dec_token_id candidate) then (Inr candidate, g)
              else (case gs_tool_constraint g of
                None \<Rightarrow> (Inl Panicked, g)
              | Some constraint \<Rightarrow>
                  on_sampler (sample_with_counts_where fo logits (gs_occurrences g) provisional (allows_token constraint state)) g))
        else
          (case constrained_distribution fo logits provisional state g of
             Inl e \<Rightarrow> (Inl e, g)
           | Inr distribution \<Rightarrow>
              (case on_sampler (sampler_draw fo distribution) g of
                 (Inl e, g) \<Rightarrow> (Inl e, g)
               | (Inr token, g) \<Rightarrow> (decision_for_token (gs_sampler g) token, g))))"

definition session_distribution :: "float_ops \<Rightarrow> bf16 list \<Rightarrow> nat list \<Rightarrow> generation_session \<Rightarrow> sampling_distribution engine_result" where
  "session_distribution fo logits provisional g =
    rbind (constraint_state g provisional) (\<lambda>state. case state of
      None \<Rightarrow> sampler_distribution fo logits (gs_occurrences g) provisional (gs_sampler g)
    | Some state \<Rightarrow> constrained_distribution fo logits provisional state g)"

definition draw_distribution :: "float_ops \<Rightarrow> sampling_distribution \<Rightarrow> generation_session \<Rightarrow> nat engine_result \<times> generation_session" where
  "draw_distribution fo distribution g = on_sampler (sampler_draw fo distribution) g"

definition random_unit :: "float_ops \<Rightarrow> generation_session \<Rightarrow> f64 \<times> generation_session" where
  "random_unit fo g =
    on_sampler (\<lambda>s. case xorshift_unit fo (sa_random s) of (unit, state) \<Rightarrow> (unit, s\<lparr>sa_random := state\<rparr>)) g"

section \<open>Accepting a token\<close>

definition completion_reason :: "bool \<Rightarrow> nat \<Rightarrow> nat \<Rightarrow> finish_reason option" where
  "completion_reason stopped generated_tokens max_new_tokens =
    (if stopped then Some FinishStop else if max_new_tokens \<le> generated_tokens then Some FinishLength else None)"

text \<open>\<open>*occurrences.entry(token).or_insert(0) += 1\<close>; the \<open>u32\<close> sum wraps.\<close>

definition count_token :: "nat \<Rightarrow> token_counts \<Rightarrow> token_counts" where
  "count_token token counts =
    AList.update token (((case map_of counts token of None \<Rightarrow> 0 | Some n \<Rightarrow> n) + 1) mod U32_BOUND) counts"

text \<open>The part of \<open>accept_decision\<close> after the decoder took the token.\<close>

definition record_token :: "sample_decision \<Rightarrow> string option \<Rightarrow> generation_session \<Rightarrow> generation_step \<times> generation_session" where
  "record_token decision delta g =
    (let g = g\<lparr>gs_generated := gs_generated g @ [dec_token_id decision]\<rparr>;
         g = (if is_identity (so_penalties (sa_options (gs_sampler g))) then g
              else g\<lparr>gs_occurrences := count_token (dec_token_id decision) (gs_occurrences g)\<rparr>);
         reason = completion_reason (dec_stopped decision) (length (gs_generated g)) (gs_max_new_tokens g) in
     if reason = None
     then (\<lparr>st_token_id = dec_token_id decision, st_delta = delta, st_finish_reason = None\<rparr>, g\<lparr>gs_finish_reason := None\<rparr>)
     else
       (case decoder_finish (gs_decoder g) of
          (tail, decoder) \<Rightarrow>
            let delta = (case tail of None \<Rightarrow> delta
                         | Some tail \<Rightarrow> Some (case delta of Some delta \<Rightarrow> delta @ tail | None \<Rightarrow> tail)) in
            (\<lparr>st_token_id = dec_token_id decision, st_delta = delta, st_finish_reason = reason\<rparr>,
             g\<lparr>gs_decoder := decoder, gs_finish_reason := reason\<rparr>)))"

definition session_push_token :: "text_frontend \<Rightarrow> nat \<Rightarrow> generation_session \<Rightarrow> string option engine_result \<times> generation_session" where
  "session_push_token tf token g =
    (case decoder_push (fe_special tf) (fe_id_to_token tf) (fe_byte_table tf) token (gs_decoder g) of
       (r, decoder) \<Rightarrow> (map_sum from_frontend id r, g\<lparr>gs_decoder := decoder\<rparr>))"

definition session_commit :: "nat \<Rightarrow> generation_session \<Rightarrow> unit engine_result \<times> generation_session" where
  "session_commit token g =
    (case gs_tool_constraint g of
       None \<Rightarrow> (Inr (), g)
     | Some constraint \<Rightarrow>
        (case commit_token token constraint of
           (r, constraint) \<Rightarrow> (map_sum from_frontend id r, g\<lparr>gs_tool_constraint := Some constraint\<rparr>)))"

definition accept_decision :: "text_frontend \<Rightarrow> sample_decision \<Rightarrow> generation_session \<Rightarrow> generation_step engine_result \<times> generation_session" where
  "accept_decision tf decision g =
    (case session_commit (dec_token_id decision) g of
       (Inl e, g) \<Rightarrow> (Inl e, g)
     | (Inr _, g) \<Rightarrow>
        (case (if dec_stopped decision then (Inr None, g) else session_push_token tf (dec_token_id decision) g) of
           (Inl e, g) \<Rightarrow> (Inl e, g)
         | (Inr delta, g) \<Rightarrow> (case record_token decision delta g of (step, g) \<Rightarrow> (Inr step, g))))"

definition accept_logits :: "float_ops \<Rightarrow> text_frontend \<Rightarrow> bf16 list \<Rightarrow> generation_session \<Rightarrow> generation_step engine_result \<times> generation_session" where
  "accept_logits fo tf logits g =
    (if gs_finish_reason g \<noteq> None then (Inl (generation_error ''cannot consume logits after generation finished''), g)
     else case propose_logits fo logits [] g of
       (Inl e, g) \<Rightarrow> (Inl e, g)
     | (Inr decision, g) \<Rightarrow> accept_decision tf decision g)"

definition accept_token :: "text_frontend \<Rightarrow> nat \<Rightarrow> generation_session \<Rightarrow> generation_step engine_result \<times> generation_session" where
  "accept_token tf token g =
    (if gs_finish_reason g \<noteq> None then (Inl (generation_error ''cannot consume a token after generation finished''), g)
     else case decision_for_token (gs_sampler g) token of
       Inl e \<Rightarrow> (Inl e, g)
     | Inr decision \<Rightarrow> accept_decision tf decision g)"

definition into_output :: "generation_session \<Rightarrow> generated_text engine_result" where
  "into_output g =
    (case gs_finish_reason g of
       None \<Rightarrow> Inl (generation_error ''cannot take output before generation finishes'')
     | Some reason \<Rightarrow> Inr \<lparr>gt_prompt = gs_prompt g, gt_token_ids = gs_generated g, gt_text = sd_text (gs_decoder g), gt_finish_reason = reason\<rparr>)"

definition session_cancel :: "generation_session \<Rightarrow> cancelled_text engine_result" where
  "session_cancel g =
    (if gs_finish_reason g \<noteq> None then Inl (generation_error ''cannot cancel a generation session after it finished'')
     else Inr \<lparr>ca_prompt = gs_prompt g, ca_token_ids = gs_generated g, ca_text = sd_text (snd (decoder_finish (gs_decoder g)))\<rparr>)"

end
