(* ===== verification/SamplingOrder.thy ===== *)
theory SamplingOrder
  imports Sampling
begin

text \<open>
  The top-k loops against a reference: the first \<open>k\<close> candidates of the stable descending sort of all
  admitted values. The greedy loop is the case \<open>k = 1\<close>.
\<close>

section \<open>Insertion after equal keys\<close>

fun insort_after :: "('a \<Rightarrow> 'b::linorder) \<Rightarrow> 'a \<Rightarrow> 'a list \<Rightarrow> 'a list" where
  "insort_after f x [] = [x]"
| "insort_after f x (y # ys) = (if f y \<le> f x then y # insort_after f x ys else x # y # ys)"

lemma insort_after_while: "insort_after f x ys = takeWhile (\<lambda>y. f y \<le> f x) ys @ x # dropWhile (\<lambda>y. f y \<le> f x) ys"
  by (induction ys) auto

lemma length_insort_after: "length (insort_after f x ys) = Suc (length ys)"
  by (induction ys) auto

lemma insort_after_commute: "insort_key f y (insort_after f x zs) = insort_after f x (insort_key f y zs)"
  by (induction zs) auto

lemma sort_key_snoc: "sort_key f (xs @ [x]) = insort_after f x (sort_key f xs)"
  by (induction xs) (auto simp: insort_after_commute)

lemma take_insort_after: "take k (insort_after f x (take k zs)) = take k (insort_after f x zs)"
proof (induction zs arbitrary: k)
  case (Cons z zs)
  then show ?case by (cases k) (auto simp: take_Cons' min_def)
qed simp

lemma insort_after_last:
  "sorted (map f ys) \<Longrightarrow> ys \<noteq> [] \<Longrightarrow> f (last ys) \<le> f x \<Longrightarrow> insort_after f x ys = ys @ [x]"
proof (induction ys)
  case (Cons y ys)
  then show ?case by (cases "ys = []") (auto simp: le_max_iff_disj intro: order_trans)
qed simp

section \<open>One candidate\<close>

text \<open>Higher values first.\<close>

definition rank_key :: "nat \<times> f32 \<Rightarrow> int" where
  "rank_key c = - f32_total_key (snd c)"

lemma top_insert_sorted:
  assumes "0 < k" and "sorted (map rank_key tops)" and "length tops \<le> k"
  shows "top_insert k token value tops = Inr (take k (insort_after rank_key (token, value) tops))"
proof -
  let ?x = "(token, value)"
  let ?P = "\<lambda>(t :: nat, retained). \<not> f32_total_key retained < f32_total_key value"
  have P: "?P = (\<lambda>y. rank_key y \<le> rank_key ?x)" by (auto simp: rank_key_def fun_eq_iff)
  have eq: "take (partition_point ?P tops) tops @ ?x # drop (partition_point ?P tops) tops = insort_after rank_key ?x tops"
    unfolding insort_after_while partition_point_def P by (simp add: takeWhile_eq_take [symmetric] dropWhile_eq_drop [symmetric])
  have len: "length (insort_after rank_key ?x tops) = Suc (length tops)"
    by (rule length_insort_after)
  show ?thesis
  proof (cases "length tops = k \<and> \<not> f32_total_key (snd (last tops)) < f32_total_key value")
    case True
    then have "tops \<noteq> []" using assms(1) by auto
    moreover have "insort_after rank_key ?x tops = tops @ [?x]"
      by (rule insort_after_last [OF assms(2)]) (use True assms(1) in \<open>auto simp: rank_key_def\<close>)
    ultimately show ?thesis using True by (simp add: top_insert_def)
  next
    case False
    then have "top_insert k token value tops =
        Inr (if length (insort_after rank_key ?x tops) > k then butlast (insort_after rank_key ?x tops) else insort_after rank_key ?x tops)"
      unfolding top_insert_def Let_def eq using assms(1) by auto
    then show ?thesis using len assms(3) by (cases "length tops = k") (auto simp: butlast_conv_take)
  qed
qed

section \<open>The loops\<close>

text \<open>The candidates in token order, or the first error of the row.\<close>

fun row_candidates :: "(nat \<Rightarrow> f32 \<Rightarrow> f32 engine_result) \<Rightarrow> (nat \<Rightarrow> bool) \<Rightarrow> bf16 list \<Rightarrow> nat \<Rightarrow> (nat \<times> f32) list engine_result" where
  "row_candidates val allowed [] token = Inr []"
| "row_candidates val allowed (bits # rest) token =
    rbind (finite_logit bits) (\<lambda>raw.
      if \<not> allowed token then row_candidates val allowed rest (token + 1)
      else rbind (val token raw) (\<lambda>value.
        rbind (row_candidates val allowed rest (token + 1)) (\<lambda>cs. Inr ((token, value) # cs))))"

definition top_ranked :: "nat \<Rightarrow> (nat \<times> f32) list \<Rightarrow> (nat \<times> f32) list" where
  "top_ranked k cs = take k (sort_key rank_key cs)"

lemma top_insert_ranked: "0 < k \<Longrightarrow> top_insert k token value (top_ranked k cs) = Inr (top_ranked k (cs @ [(token, value)]))"
  by (subst top_insert_sorted) (auto simp: top_ranked_def take_map [symmetric] sorted_wrt_take sort_key_snoc take_insort_after)

lemma rbind_assoc: "rbind (rbind r f) g = rbind r (\<lambda>x. rbind (f x) g)"
  by (cases r) auto

lemma where_loop_ranked:
  "0 < k \<Longrightarrow> conditioned_top_k_where_loop fo k p com prov allowed logits token (top_ranked k cs) =
    rbind (row_candidates (conditioned_value fo p com prov) allowed logits token) (\<lambda>more. Inr (top_ranked k (cs @ more)))"
proof (induction logits arbitrary: token cs)
  case (Cons bits rest)
  show ?case
  proof (cases "finite_logit bits")
    case (Inr raw)
    then show ?thesis using Cons
      by (cases "conditioned_value fo p com prov token raw") (simp_all add: top_insert_ranked rbind_assoc)
  qed simp
qed simp

lemma top_ranked_Nil [simp]: "top_ranked k [] = []"
  by (simp add: top_ranked_def)

lemma conditioned_top_k_where_ranked:
  "0 < k \<Longrightarrow> conditioned_top_k_where fo logits k p com prov allowed =
    rbind (require_history prov) (\<lambda>_.
      rbind (row_candidates (conditioned_value fo p com prov) allowed logits 0) (\<lambda>cs. Inr (top_ranked k cs)))"
  using where_loop_ranked [of k fo p com prov allowed logits 0 "[]"] by (simp add: conditioned_top_k_where_def)

lemma loop_where: "conditioned_top_k_loop fo k p com prov logits token tops =
    conditioned_top_k_where_loop fo k p com prov (\<lambda>_. True) logits token tops"
proof (induction logits arbitrary: token tops)
  case (Cons bits rest)
  have "conditioned_top_k_loop fo k p com prov rest (token + 1) =
      conditioned_top_k_where_loop fo k p com prov (\<lambda>_. True) rest (token + 1)"
    by (rule ext) (rule Cons)
  then show ?case by simp
qed simp

lemma conditioned_top_k_everywhere: "conditioned_top_k fo logits k p com prov = conditioned_top_k_where fo logits k p com prov (\<lambda>_. True)"
  by (simp add: conditioned_top_k_def conditioned_top_k_where_def loop_where)

lemma no_history [simp]: "history_count [] [] token = 0" "penalties_apply fo p raw 0 = raw"
  by (simp_all add: history_count_def penalties_apply_def)

lemma finite_logit_finite: "finite_logit bits = Inr raw \<Longrightarrow> f32_finite raw"
  by (auto simp: finite_logit_def Let_def split: if_splits)

lemma select_loop_where: "top_k_loop k logits token tops = conditioned_top_k_where_loop fo k p [] [] (\<lambda>_. True) logits token tops"
proof (induction logits arbitrary: token tops)
  case (Cons bits rest)
  have "top_k_loop k rest (token + 1) = conditioned_top_k_where_loop fo k p [] [] (\<lambda>_. True) rest (token + 1)"
    by (rule ext) (rule Cons)
  then show ?case using finite_logit_finite
    by (cases "finite_logit bits") (auto simp: conditioned_value_def)
qed simp

lemma top_k_select_everywhere: "top_k_select logits k = conditioned_top_k_where fo logits k p [] [] (\<lambda>_. True)"
  by (simp add: top_k_select_def conditioned_top_k_where_def require_history_def select_loop_where [of k logits 0 "[]" fo p])

text \<open>The greedy loop keeps what the loop with \<open>k = 1\<close> keeps.\<close>

lemma greedy_loop_top:
  "greedy_loop logits token best = map_sum id (\<lambda>tops. if tops = [] then None else Some (hd tops))
    (top_k_loop 1 logits token (case best of None \<Rightarrow> [] | Some c \<Rightarrow> [c]))"
proof (induction logits arbitrary: token best)
  case (Cons bits rest)
  show ?case
  proof (cases "finite_logit bits")
    case (Inr v)
    have "top_insert 1 token v (case best of None \<Rightarrow> [] | Some c \<Rightarrow> [c]) =
        Inr (case (if (case best of None \<Rightarrow> True | Some (_, b) \<Rightarrow> f32_total_key b < f32_total_key v) then Some (token, v) else best)
             of None \<Rightarrow> [] | Some c \<Rightarrow> [c])"
      by (auto simp: top_insert_def partition_point_def split: option.splits prod.splits)
    then show ?thesis using Cons Inr by simp
  qed simp
qed (auto split: option.splits)

lemma greedy_index_top: "greedy_index logits =
    rbind (top_k_select logits 1) (\<lambda>tops. if tops = [] then Inl (sampling_error ''sampling received an empty logit row'') else Inr (fst (hd tops)))"
  unfolding greedy_index_def greedy_loop_top top_k_select_def by (cases "top_k_loop 1 logits 0 []") auto

text \<open>On a nonempty row both greedy routes take the first of the ranking.\<close>

lemma conditioned_greedy_ranked:
  assumes "is_identity p \<longrightarrow> com = [] \<and> prov = []" and "conditioned_greedy_index fo logits p com prov = Inr token"
  shows "\<exists>tops. conditioned_top_k_where fo logits 1 p com prov (\<lambda>_. True) = Inr tops \<and> tops \<noteq> [] \<and> token = fst (hd tops)"
  using assms
  by (auto simp: conditioned_greedy_index_def greedy_index_top conditioned_top_k_everywhere
      top_k_select_everywhere [of _ _ fo p] rbind_Inr_iff split: if_splits)

section \<open>The candidates of a row\<close>

text \<open>A row that is admitted: its values are these, in token order.\<close>

definition row_value :: "float_ops \<Rightarrow> sampling_penalties \<Rightarrow> token_counts \<Rightarrow> nat list \<Rightarrow> bf16 list \<Rightarrow> nat \<Rightarrow> f32" where
  "row_value fo p com prov logits token =
    penalties_apply fo p (push_bit 16 (ucast (logits ! token))) (history_count com prov token)"

definition allowed_values ::
  "float_ops \<Rightarrow> sampling_penalties \<Rightarrow> token_counts \<Rightarrow> nat list \<Rightarrow> (nat \<Rightarrow> bool) \<Rightarrow> bf16 list \<Rightarrow> (nat \<times> f32) list" where
  "allowed_values fo p com prov allowed logits =
    map (\<lambda>token. (token, row_value fo p com prov logits token)) (filter allowed [0..<length logits])"

definition row_admitted :: "float_ops \<Rightarrow> sampling_penalties \<Rightarrow> token_counts \<Rightarrow> nat list \<Rightarrow> (nat \<Rightarrow> bool) \<Rightarrow> bf16 list \<Rightarrow> bool" where
  "row_admitted fo p com prov allowed logits \<longleftrightarrow>
    list_all (\<lambda>token. token < VOCABULARY) prov \<and>
    list_all (\<lambda>bits. f32_finite (push_bit 16 (ucast bits))) logits \<and>
    list_all (\<lambda>(_, value). f32_finite value) (allowed_values fo p com prov allowed logits)"

lemma row_candidates_suffix:
  "i \<le> length logits \<Longrightarrow> row_candidates (conditioned_value fo p com prov) allowed (drop i logits) i = Inr cs \<longleftrightarrow>
    list_all (\<lambda>bits. f32_finite (push_bit 16 (ucast bits))) (drop i logits) \<and>
    cs = map (\<lambda>token. (token, row_value fo p com prov logits token)) (filter allowed [i..<length logits]) \<and>
    list_all (\<lambda>(_, value). f32_finite value) cs"
proof (induction "length logits - i" arbitrary: i cs)
  case (Suc n)
  then have i: "i < length logits" by simp
  have step: "drop i logits = logits ! i # drop (Suc i) logits" "[i..<length logits] = i # [Suc i..<length logits]"
    using i by (simp_all add: Cons_nth_drop_Suc upt_conv_Cons)
  note ih = Suc.hyps(1) [of "Suc i"]
  have ih': "row_candidates (conditioned_value fo p com prov) allowed (drop (Suc i) logits) (Suc i) = Inr cs' \<longleftrightarrow>
      list_all (\<lambda>bits. f32_finite (push_bit 16 (ucast bits))) (drop (Suc i) logits) \<and>
      cs' = map (\<lambda>token. (token, row_value fo p com prov logits token)) (filter allowed [Suc i..<length logits]) \<and>
      list_all (\<lambda>(_, value). f32_finite value) cs'" for cs'
    using ih Suc.hyps(2) i by auto
  show ?case
    unfolding step by (auto simp: rbind_Inr_iff finite_logit_def conditioned_value_def row_value_def Let_def ih' split: if_splits)
qed auto

lemma row_candidates_iff:
  "row_candidates (conditioned_value fo p com prov) allowed logits 0 = Inr cs \<longleftrightarrow>
    list_all (\<lambda>bits. f32_finite (push_bit 16 (ucast bits))) logits \<and> cs = allowed_values fo p com prov allowed logits \<and>
    list_all (\<lambda>(_, value). f32_finite value) cs"
  using row_candidates_suffix [of 0 logits fo p com prov allowed cs] by (simp add: allowed_values_def)

lemma top_k_where_iff:
  "0 < k \<Longrightarrow> conditioned_top_k_where fo logits k p com prov allowed = Inr tops \<longleftrightarrow>
    row_admitted fo p com prov allowed logits \<and> tops = top_ranked k (allowed_values fo p com prov allowed logits)"
  by (auto simp: conditioned_top_k_where_ranked rbind_Inr_iff row_candidates_iff row_admitted_def require_history_def
      list_all_iff list_ex_iff split: if_splits dest: leD)

end
