(* ===== verification/SamplingProperties.thy ===== *)
theory SamplingProperties
  imports SamplingOrder
begin

text \<open>
  The claims about the sampler: the ranking it uses, the support of what it draws, the lookup of a
  probability, and the speculative decision.
\<close>

section \<open>Ranking\<close>

lemma sort_key_empty: "sort_key f xs = [] \<longleftrightarrow> xs = []"
  by (metis length_0_conv length_sort)

text \<open>C13: Top-k selection is the stable descending sort. For a row whose logits and penalised values are
  finite, and only then, \<open>conditioned_top_k_where\<close> returns the first \<open>k\<close> of the admitted tokens in
  descending \<open>total_cmp\<close> order of their penalised values, equal values in token order. The unfiltered loop
  is the case that admits every token, \<open>top_k_select\<close> the case without history, and the greedy index is
  the head of the ranking with \<open>k = 1\<close>.\<close>

theorem top_k_is_stable_sort:
  assumes "0 < k"
  shows "(conditioned_top_k_where fo logits k p com prov allowed = Inr tops \<longleftrightarrow>
      row_admitted fo p com prov allowed logits \<and>
      tops = take k (sort_key (\<lambda>(_, value). - f32_total_key value) (allowed_values fo p com prov allowed logits))) \<and>
    conditioned_top_k fo logits k p com prov = conditioned_top_k_where fo logits k p com prov (\<lambda>_. True) \<and>
    top_k_select logits k = conditioned_top_k_where fo logits k p [] [] (\<lambda>_. True) \<and>
    (logits \<noteq> [] \<longrightarrow> greedy_index logits = map_sum id (\<lambda>tops. fst (hd tops)) (top_k_select logits 1))"
proof -
  have key: "(\<lambda>(_, value). - f32_total_key value) = rank_key" by (simp add: fun_eq_iff rank_key_def)
  have "greedy_index logits = map_sum id (\<lambda>tops. fst (hd tops)) (top_k_select logits 1)" if "logits \<noteq> []"
  proof (cases "top_k_select logits 1")
    case (Inr tops)
    then have "tops = top_ranked 1 (allowed_values fo p [] [] (\<lambda>_. True) logits)"
      using top_k_where_iff [of 1 fo logits p "[]" "[]" "\<lambda>_. True" tops] top_k_select_everywhere [of logits 1 fo p] by simp
    then have "tops \<noteq> []" using that by (simp add: top_ranked_def allowed_values_def sort_key_empty)
    then show ?thesis using Inr by (simp add: greedy_index_top)
  qed (simp add: greedy_index_top)
  then show ?thesis
    unfolding key using top_k_where_iff [OF assms, of fo logits p com prov allowed tops] conditioned_top_k_everywhere
      top_k_select_everywhere [of logits k fo p] by (auto simp: top_ranked_def)
qed

definition sample_ops :: float_ops where
  "sample_ops = \<lparr>sub32 = (\<lambda>a b. a), mul32 = (\<lambda>a b. a), div32 = (\<lambda>a b. a), exp32 = (\<lambda>a. F32_ONE), u32_as_f32 = (\<lambda>n. 0),
     f32_as_f64 = (\<lambda>a. F64_ONE), add64 = (\<lambda>a b. b), sub64 = (\<lambda>a b. a), mul64 = (\<lambda>a b. a), div64 = (\<lambda>a b. a),
     u64_as_f64 = (\<lambda>n. 0), sum64 = (\<lambda>xs. F64_ONE)\<rparr>"

text \<open>The row 1.0, 2.0, 2.0, -1.0\<close>

definition sample_row :: "bf16 list" where
  "sample_row = [0x3F80, 0x4000, 0x4000, 0xBF80]"

lemma sample_row_top: "conditioned_top_k_where sample_ops sample_row 2 penalties_identity [] [] (\<lambda>t. t \<noteq> 1) =
    Inr [(2, 0x40000000), (0, 0x3F800000)]"
  by code_simp

theorem top_k_is_stable_sort_witness:
  "[(2, 0x40000000), (0, 0x3F800000)] =
    take 2 (sort_key (\<lambda>(_, value). - f32_total_key value) (allowed_values sample_ops penalties_identity [] [] (\<lambda>t. t \<noteq> 1) sample_row))"
  using top_k_is_stable_sort [of 2 sample_ops sample_row penalties_identity "[]" "[]" "\<lambda>t. t \<noteq> 1" "[(2, 0x40000000), (0, 0x3F800000)]"]
    sample_row_top by simp

section \<open>Support\<close>

lemma draw_loop_in: "draw_loop fo threshold c ms = Some token \<Longrightarrow> token \<in> fst ` set ms"
  by (induction fo threshold c ms rule: draw_loop.induct) (auto simp: Let_def split: if_splits)

lemma draw_at_in: "draw_at fo d unit = Inr token \<Longrightarrow> token \<in> fst ` set (sd_masses d)"
  using draw_loop_in by (auto simp: draw_at_def split: if_splits option.splits)

lemma from_masses_Inr:
  "from_masses fo masses = Inr d \<Longrightarrow> sd_masses d = masses \<and> masses \<noteq> [] \<and>
    (\<forall>(token, mass)\<in>set masses. token < VOCABULARY \<and> f64_finite mass \<and> \<not> f64_le mass 0) \<and>
    sd_by_token d = (if length masses > LINEAR_PROBE_LIMIT then sort_key fst masses else []) \<and> sd_total d = sum64 fo (map snd masses)"
  by (auto simp: from_masses_def Let_def list_ex_iff not_le split: if_splits)

lemma distribution_from_top_Inr:
  assumes "distribution_from_top fo tops o1 = Inr d"
  shows "\<exists>r. 0 < r \<and> map fst (sd_masses d) = map fst (take r tops)"
proof -
  let ?ws = "map (\<lambda>(_, value). f32_as_f64 fo (exp32 fo (div32 fo (sub32 fo value (snd (hd tops))) (so_temperature o1)))) tops"
  obtain r where r: "r \<noteq> 0" and d: "from_masses fo (take r (zip (map fst tops) ?ws)) = Inr d"
    using assms by (auto simp: distribution_from_top_def Let_def split: if_splits prod.splits)
  have "map fst (take r (zip (map fst tops) ?ws)) = map fst (take r tops)" by (simp add: take_map [symmetric])
  then show ?thesis using from_masses_Inr [OF d] r by auto
qed

definition ranking ::
  "float_ops \<Rightarrow> sampling_penalties \<Rightarrow> token_counts \<Rightarrow> nat list \<Rightarrow> (nat \<Rightarrow> bool) \<Rightarrow> bf16 list \<Rightarrow> nat list" where
  "ranking fo p com prov allowed logits =
    map fst (sort_key (\<lambda>(_, value). - f32_total_key value) (allowed_values fo p com prov allowed logits))"

lemma ranking_top: "map fst (top_ranked k (allowed_values fo p com prov allowed logits)) = take k (ranking fo p com prov allowed logits)"
proof -
  have "(\<lambda>(_, value). - f32_total_key value) = rank_key" by (simp add: fun_eq_iff rank_key_def)
  then show ?thesis by (simp add: ranking_def top_ranked_def take_map)
qed

lemma set_ranking: "set (ranking fo p com prov allowed logits) = {t. t < length logits \<and> allowed t}"
  by (simp add: ranking_def allowed_values_def image_image)

lemma distinct_ranking: "distinct (ranking fo p com prov allowed logits)"
  by (auto simp: ranking_def distinct_map allowed_values_def inj_on_def)

lemma xorshift_new_nonzero: "xorshift_new seed \<noteq> 0"
  by (simp add: xorshift_new_def Let_def RNG_SCRAMBLE_def)

text \<open>The law of a row: its tokens are a nonempty head of the ranking.\<close>

lemma where_law_support:
  assumes "0 < so_top_k o1" and "distribution_of_row_where fo logits o1 com prov allowed = Inr d"
  shows "\<exists>r. 0 < r \<and> r \<le> so_top_k o1 \<and> map fst (sd_masses d) = take r (ranking fo (so_penalties o1) com prov allowed logits)"
proof -
  obtain tops where tops: "conditioned_top_k_where fo logits (so_top_k o1) (so_penalties o1) com prov allowed = Inr tops"
    and d: "distribution_from_top fo tops o1 = Inr d"
    using assms(2) by (auto simp: distribution_of_row_where_def rbind_Inr_iff)
  obtain r where r: "0 < r" "map fst (sd_masses d) = map fst (take r tops)" using distribution_from_top_Inr [OF d] by blast
  have "map fst tops = take (so_top_k o1) (ranking fo (so_penalties o1) com prov allowed logits)"
    using tops top_k_where_iff [OF assms(1)] ranking_top by metis
  then have "map fst (sd_masses d) = take (min r (so_top_k o1)) (ranking fo (so_penalties o1) com prov allowed logits)"
    using r(2) by (simp add: take_map [symmetric] min.commute)
  then show ?thesis using r(1) assms(1) by (intro exI [of _ "min r (so_top_k o1)"]) simp
qed

lemma sampler_new_Inr:
  "sampler_new o1 stops = Inr s \<Longrightarrow> sa_options s = o1 \<and> 0 < so_top_k o1 \<and>
    take (sa_stop_id_count s) (sa_stop_ids s) = stops \<and> sa_random s \<noteq> 0"
  by (auto simp: sampler_new_def rbind_Inr_iff validate_options_def validate_stop_ids_def Let_def xorshift_new_nonzero
      list_write_def split: if_splits)

lemma where_greedy_head:
  assumes "conditioned_greedy_index_where fo logits p com prov allowed = Inr token"
  shows "ranking fo p com prov allowed logits \<noteq> [] \<and> token = hd (ranking fo p com prov allowed logits)"
proof -
  obtain tops where tops: "conditioned_top_k_where fo logits 1 p com prov allowed = Inr tops" "tops \<noteq> []" "token = fst (hd tops)"
    using assms by (auto simp: conditioned_greedy_index_where_def rbind_Inr_iff split: if_splits)
  have "map fst tops = take 1 (ranking fo p com prov allowed logits)"
    using tops(1) top_k_where_iff [of 1] ranking_top by (metis zero_less_one)
  then show ?thesis using tops(2,3) by (cases "ranking fo p com prov allowed logits"; cases tops) auto
qed

lemma decision_same_stops [simp]: "decision_for_token (s\<lparr>sa_random := r\<rparr>) token = decision_for_token s token"
  by (simp add: decision_for_token_def)

lemma where_pick:
  assumes "sample_with_counts_where fo logits com prov allowed s = (Inr d, s')"
  shows "\<exists>token. (if is_greedy (sa_options s)
      then conditioned_greedy_index_where fo logits (so_penalties (sa_options s)) com prov allowed = Inr token
      else \<exists>law unit. distribution_of_row_where fo logits (sa_options s) com prov allowed = Inr law \<and> draw_at fo law unit = Inr token) \<and>
    decision_for_token s token = Inr d"
proof (cases "is_greedy (sa_options s)")
  case True
  then show ?thesis using assms
    by (auto simp: sample_with_counts_where_def selected_token_def rbind_Inr_iff split: sum.splits if_splits)
next
  case False
  then obtain law where law: "distribution_of_row_where fo logits (sa_options s) com prov allowed = Inr law"
    using assms by (cases "distribution_of_row_where fo logits (sa_options s) com prov allowed")
      (auto simp: sample_with_counts_where_def selected_token_def draw_from_def split: sum.splits)
  obtain unit state where u: "xorshift_unit fo (sa_random s) = (unit, state)" by fastforce
  show ?thesis using assms False law u
    by (auto simp: sample_with_counts_where_def selected_token_def draw_from_def sampler_draw_def rbind_Inr_iff split: sum.splits if_splits)
qed

text \<open>A constrained sample is an admitted token. Whatever the arithmetic and the random state, a token
  that the sampler selects from a row under a filter is admitted by the filter, is among the first
  \<open>top_k\<close> of the ranking, on the greedy route is the first of it, and is marked as a stop exactly when it
  is one of the registered stop tokens.\<close>

theorem constrained_sample_supported:
  assumes "sampler_new o1 stops = Inr s0"
    and "sample_with_counts_where fo logits com prov allowed (s0\<lparr>sa_random := r\<rparr>) = (Inr d, s')"
  shows "allowed (dec_token_id d) \<and> dec_token_id d < VOCABULARY \<and> (dec_stopped d \<longleftrightarrow> dec_token_id d \<in> set stops) \<and>
    dec_token_id d \<in> set (take (so_top_k o1) (ranking fo (so_penalties o1) com prov allowed logits)) \<and>
    (is_greedy o1 \<longrightarrow> dec_token_id d = hd (ranking fo (so_penalties o1) com prov allowed logits))"
proof -
  let ?R = "ranking fo (so_penalties o1) com prov allowed logits"
  note new = sampler_new_Inr [OF assms(1)]
  have same: "sa_options (s0\<lparr>sa_random := r\<rparr>) = o1" using new by simp
  obtain token where pick: "if is_greedy o1 then conditioned_greedy_index_where fo logits (so_penalties o1) com prov allowed = Inr token
      else \<exists>law unit. distribution_of_row_where fo logits o1 com prov allowed = Inr law \<and> draw_at fo law unit = Inr token"
    and d: "decision_for_token (s0\<lparr>sa_random := r\<rparr>) token = Inr d"
    using where_pick [OF assms(2)] unfolding same by blast
  have dec: "dec_token_id d = token" "token < VOCABULARY" "dec_stopped d \<longleftrightarrow> token \<in> set stops"
    using d new by (auto simp: decision_for_token_def split: if_splits)
  have "token \<in> set (take (so_top_k o1) ?R) \<and> (is_greedy o1 \<longrightarrow> token = hd ?R)"
  proof (cases "is_greedy o1")
    case True
    then have "?R \<noteq> [] \<and> token = hd ?R" using pick by (intro where_greedy_head) simp
    then show ?thesis using new by (cases ?R; cases "so_top_k o1") auto
  next
    case False
    then obtain law unit where law: "distribution_of_row_where fo logits o1 com prov allowed = Inr law" and draw: "draw_at fo law unit = Inr token"
      using pick by auto
    have k: "0 < so_top_k o1" using new by simp
    obtain n where n: "n \<le> so_top_k o1" "map fst (sd_masses law) = take n ?R" using where_law_support [OF k law] by blast
    have "token \<in> set (map fst (sd_masses law))" using draw_at_in [OF draw] by simp
    then have "token \<in> set (take n ?R)" by (simp only: n(2))
    then show ?thesis using False set_take_subset_set_take [OF n(1), of ?R] by blast
  qed
  moreover from this have "allowed token" using set_ranking set_take_subset [of "so_top_k o1" ?R] by auto
  ultimately show ?thesis using dec by simp
qed

definition sample_sampler :: sampler where
  "sample_sampler = \<lparr>sa_options = options_greedy, sa_stop_ids = [3, 0], sa_stop_id_count = 1, sa_random = RNG_SCRAMBLE\<rparr>"

lemma sample_sampler_new: "sampler_new options_greedy [3] = Inr sample_sampler"
  by code_simp

text \<open>A vocabulary row of zeros, and a filter that admits one token of it.\<close>

definition zero_row :: "bf16 list" where
  "zero_row = replicate VOCABULARY 0"

lemma filter_one: "t < n \<Longrightarrow> filter (\<lambda>x. x = t) [0..<n] = [t]"
proof (induction n)
  case (Suc n)
  have "filter (\<lambda>x. x = t) [0..<t] = []" by (simp add: filter_empty_conv)
  then show ?case using Suc by (cases "t = n") auto
qed simp

lemma zero_row_value: "t < VOCABULARY \<Longrightarrow> row_value fo p [] [] zero_row t = 0"
  by (simp add: row_value_def zero_row_def)

lemma zero_row_top: "conditioned_top_k_where fo zero_row 1 p [] [] (\<lambda>t. t = 7) = Inr [(7, 0)]"
proof -
  have "(7 :: nat) < VOCABULARY" by (simp add: VOCABULARY_def)
  then have v: "allowed_values fo p [] [] (\<lambda>t. t = 7) zero_row = [(7, 0)]"
    using zero_row_value [of 7 fo p] by (simp add: allowed_values_def filter_one zero_row_def)
  have "f32_finite 0" by code_simp
  then have "row_admitted fo p [] [] (\<lambda>t. t = 7) zero_row" by (simp add: row_admitted_def v) (simp add: zero_row_def list_all_iff)
  then show ?thesis using top_k_where_iff [of 1 fo zero_row p "[]" "[]" "\<lambda>t. t = 7"] v by (simp add: top_ranked_def)
qed

lemma zero_row_sample:
  "sample_with_counts_where sample_ops zero_row [] [] (\<lambda>t. t = 7) (sample_sampler\<lparr>sa_random := 1\<rparr>) =
    (Inr \<lparr>dec_token_id = 7, dec_stopped = False\<rparr>, sample_sampler\<lparr>sa_random := 1\<rparr>)"
proof -
  have "require_vocabulary_row zero_row = Inr ()" by (simp add: require_vocabulary_row_def zero_row_def)
  moreover have "is_greedy options_greedy" by code_simp
  ultimately show ?thesis
    by (simp add: sample_with_counts_where_def sample_sampler_def conditioned_greedy_index_where_def zero_row_top [unfolded One_nat_def]
        selected_token_def decision_for_token_def U32_BOUND_def VOCABULARY_def)
qed

theorem constrained_sample_supported_witness:
  "\<exists>d s'. sample_with_counts_where sample_ops zero_row [] [] (\<lambda>t. t = 7) (sample_sampler\<lparr>sa_random := 1\<rparr>) = (Inr d, s') \<and>
    dec_token_id d = 7 \<and> dec_token_id d < VOCABULARY"
  using constrained_sample_supported [OF sample_sampler_new zero_row_sample] zero_row_sample by auto

section \<open>Probability of a token\<close>

lemma find_mass_map: "find_mass token xs = map_of xs token"
  by (induction xs) (auto simp: find_mass_def)

lemma map_of_split:
  fixes xs :: "(nat \<times> 'b) list"
  shows "m < length xs \<Longrightarrow> xs ! m = (c, v) \<Longrightarrow> sorted_wrt (<) (map fst xs) \<Longrightarrow>
    map_of xs token = (if c = token then Some v else if c < token then map_of (drop (m + 1) xs) token else map_of (take m xs) token)"
proof (induction xs arbitrary: m)
  case (Cons x xs)
  obtain a b where x: "x = (a, b)" by fastforce
  show ?case
  proof (cases m)
    case 0
    have "map_of xs token = None" if "token < a"
    proof -
      have "\<forall>y\<in>set xs. a < fst y" using Cons.prems(3) x by simp
      moreover have "token = fst y \<Longrightarrow> \<not> a < fst y" for y :: "nat \<times> 'b" using that by simp
      ultimately have "token \<notin> fst ` set xs" by blast
      then show ?thesis by (simp add: map_of_eq_None_iff)
    qed
    then show ?thesis using Cons.prems 0 x by auto
  next
    case (Suc n)
    have "c \<in> fst ` set xs" using Cons.prems(1,2) Suc nth_mem [of n xs] by force
    then have "a < c" using Cons.prems(3) x by auto
    then show ?thesis using Cons.IH [of n] Cons.prems Suc x by auto
  qed
qed simp

lemma sorted_wrt_drop: "sorted_wrt P xs \<Longrightarrow> sorted_wrt P (drop n xs)"
  by (metis append_take_drop_id sorted_wrt_append)

lemma search_mass_map: "sorted_wrt (<) (map fst xs) \<Longrightarrow> search_mass token xs = map_of xs token"
proof (induction token xs rule: search_mass.induct)
  case (1 token xs)
  show ?case
  proof (cases "xs = []")
    case False
    let ?m = "length xs div 2"
    obtain c v where cv: "xs ! ?m = (c, v)" by fastforce
    have m: "?m < length xs" using False by simp
    have "sorted_wrt (<) (map fst (drop (?m + 1) xs))" "sorted_wrt (<) (map fst (take ?m xs))"
      using 1(3) by (simp_all only: drop_map [symmetric] take_map [symmetric] sorted_wrt_drop sorted_wrt_take)
    then show ?thesis using False cv map_of_split [OF m cv 1(3)] 1(1) [OF False refl cv [symmetric] refl] 1(2) [OF False refl cv [symmetric] refl]
      by (subst search_mass.simps) simp
  qed (simp add: search_mass.simps)
qed

lemma map_of_sort_key: "distinct (map fst xs) \<Longrightarrow> map_of (sort_key fst xs) = map_of xs"
proof -
  assume d: "distinct (map fst xs)"
  have "distinct (map fst (sort_key fst xs))" using d by (simp add: distinct_map)
  then show ?thesis using d by (intro map_of_eqI) (auto simp: )
qed

lemma probability_lookup:
  assumes "from_masses fo masses = Inr d" and "distinct (map fst masses)"
  shows "distribution_probability fo d token =
    (case map_of masses token of Some mass \<Rightarrow> div64 fo mass (sum64 fo (map snd masses)) | None \<Rightarrow> 0)"
proof -
  note d = from_masses_Inr [OF assms(1)]
  have strict_order: "sorted_wrt (<) (map fst (sort_key fst masses))"
    using assms(2) by (simp add: strict_sorted_iff distinct_map)
  have "sort_key fst masses \<noteq> []" using d by (simp add: sort_key_empty)
  then show ?thesis using d search_mass_map [OF strict_order, of token] map_of_sort_key [OF assms(2)]
    by (simp add: distribution_probability_def find_mass_map split: option.split)
qed

text \<open>The probability of a token does not depend on the lookup route. A law built from distinct tokens,
  short enough for the linear probe or long enough for the binary search over its sorted copy, gives a
  token of its support that token's mass over the total, and every other token zero.\<close>

theorem probability_lookup_exact:
  assumes "from_masses fo masses = Inr d" and "distinct (map fst masses)"
  shows "distribution_probability fo d token =
    (case map_of masses token of Some mass \<Rightarrow> div64 fo mass (sum64 fo (map snd masses)) | None \<Rightarrow> 0)"
  by (rule probability_lookup [OF assms])

theorem probability_lookup_exact_witness:
  "\<exists>d. from_masses sample_ops [(3, F64_ONE), (1, F64_ONE)] = Inr d \<and> distribution_probability sample_ops d 1 = F64_ONE"
proof -
  obtain d where "from_masses sample_ops [(3, F64_ONE), (1, F64_ONE)] = Inr d"
    by (simp add: from_masses_def sample_ops_def VOCABULARY_def float_finite_def float_le_def float_nan_def F64_INFINITY_def F64_ONE_def
        float_magnitude_def float_key_def)
  then show ?thesis using probability_lookup_exact [of sample_ops "[(3, F64_ONE), (1, F64_ONE)]" d 1] by (simp add: sample_ops_def)
qed

section \<open>The speculative decision\<close>

text \<open>What the claim needs of IEEE division and subtraction.\<close>

definition ieee_order :: "float_ops \<Rightarrow> bool" where
  "ieee_order fo \<longleftrightarrow> (\<forall>a b. f64_lt 0 b \<longrightarrow> f64_lt b a \<longrightarrow> f64_le F64_ONE (div64 fo a b)) \<and>
    (\<forall>a b. f64_lt 0 (sub64 fo a b) \<longrightarrow> f64_lt b a)"

lemma residual_support:
  assumes "speculative_residual fo target draft = Inr law" and "token \<in> fst ` set (sd_masses law)"
  shows "\<exists>mass. (token, mass) \<in> set (sd_masses target) \<and>
    f64_lt 0 (sub64 fo (div64 fo mass (sd_total target)) (distribution_probability fo draft token))"
proof -
  let ?ms = "List.map_filter (\<lambda>(token, p). let e = sub64 fo p (distribution_probability fo draft token) in
      if f64_lt 0 e then Some (token, e) else None) (distribution_probabilities fo target)"
  have "from_masses fo ?ms = Inr law" using assms(1) by (auto simp: speculative_residual_def Let_def split: sum.splits)
  then have "sd_masses law = ?ms" using from_masses_Inr by blast
  then show ?thesis using assms(2)
    by (auto simp: List.map_filter_def distribution_probabilities_def Let_def split: if_splits)
qed

lemma f64_not_lt_one: "f64_le F64_ONE x \<Longrightarrow> f64_lt unit F64_ONE \<Longrightarrow> f64_lt unit (f64_min x F64_ONE)"
  by (auto simp: f64_min_def float_lt_def float_le_def)

text \<open>C14: A speculative decision returns the proposal exactly when it accepts. The acceptance is the
  comparison of the variate with \<open>min(1, p/q)\<close>. A rejected proposal that the draft law can propose is
  never returned: the correction is a token of the target's support to which the target law gives strictly
  more than the draft law. Of the arithmetic this needs only that a quotient of a larger by a smaller
  positive number is at least one and that a positive difference orders its operands.\<close>

theorem speculative_rejects_proposal:
  assumes "ieee_order fo" and "from_masses fo masses = Inr target" and "distinct (map fst masses)"
    and "f64_lt 0 (distribution_probability fo draft proposal)"
    and "speculative_decision fo proposal target draft acceptance residual = Inr c"
  shows "(sc_accepted c \<longleftrightarrow> f64_lt acceptance (speculative_accept_probability fo proposal target draft)) \<and>
    (sc_accepted c \<longleftrightarrow> sc_token_id c = proposal) \<and> (\<not> sc_accepted c \<longrightarrow> sc_token_id c \<in> fst ` set masses \<and>
      f64_lt (distribution_probability fo draft (sc_token_id c)) (distribution_probability fo target (sc_token_id c)))"
proof -
  let ?p = "distribution_probability fo target" and ?q = "distribution_probability fo draft"
  have unit: "f64_lt acceptance F64_ONE" using assms(5) by (auto simp: speculative_decision_def split: if_splits)
  show ?thesis
  proof (cases "f64_lt acceptance (speculative_accept_probability fo proposal target draft)")
    case True
    then show ?thesis using assms(5) by (auto simp: speculative_decision_def split: if_splits)
  next
    case False
    then obtain law token where law: "speculative_residual fo target draft = Inr law" and draw: "draw_at fo law residual = Inr token"
      and c: "c = \<lparr>sc_token_id = token, sc_accepted = False\<rparr>"
      using assms(5) by (auto simp: speculative_decision_def rbind_Inr_iff split: if_splits)
    obtain mass where mass: "(token, mass) \<in> set (sd_masses target)" and excess: "f64_lt 0 (sub64 fo (div64 fo mass (sd_total target)) (?q token))"
      using residual_support [OF law draw_at_in [OF draw]] by blast
    have ms: "sd_masses target = masses" "sd_total target = sum64 fo (map snd masses)" using from_masses_Inr [OF assms(2)] by simp_all
    have "map_of masses token = Some mass" using mass ms(1) assms(3) by simp
    then have "?p token = div64 fo mass (sd_total target)" using probability_lookup [OF assms(2,3), of token] ms(2) by simp
    then have more: "f64_lt (?q token) (?p token)" using excess assms(1) by (simp add: ieee_order_def)
    have "token \<noteq> proposal"
    proof
      assume eq: "token = proposal"
      then have "f64_le F64_ONE (div64 fo (?p proposal) (?q proposal))" using more assms(1,4) by (simp add: ieee_order_def)
      then have "f64_lt acceptance (speculative_accept_probability fo proposal target draft)"
        using f64_not_lt_one [OF _ unit] assms(4) by (auto simp: speculative_accept_probability_def Let_def float_lt_def float_le_def)
      then show False using False by blast
    qed
    then show ?thesis using False c more mass ms(1) by force
  qed
qed

definition order_ops :: float_ops where
  "order_ops = sample_ops\<lparr>div64 := (\<lambda>a b. if f64_lt b a then F64_ONE else a), sub64 := (\<lambda>a b. if f64_lt b a then F64_ONE else 0)\<rparr>"

definition sample_law :: "nat list \<Rightarrow> sampling_distribution" where
  "sample_law tokens = \<lparr>sd_masses = map (\<lambda>t. (t, F64_ONE)) tokens, sd_by_token = [], sd_total = F64_ONE\<rparr>"

lemma order_ops_order: "ieee_order order_ops"
proof -
  have "f64_le F64_ONE F64_ONE" "\<not> f64_lt 0 0" by code_simp+
  then show ?thesis by (auto simp: ieee_order_def order_ops_def sample_ops_def split: if_splits)
qed

lemma sample_decision_rejects:
  "from_masses order_ops [(3, F64_ONE), (5, F64_ONE)] = Inr (sample_law [3, 5])"
  "f64_lt 0 (distribution_probability order_ops (sample_law [7]) 7)"
  "speculative_decision order_ops 7 (sample_law [3, 5]) (sample_law [7]) 0 0 = Inr \<lparr>sc_token_id = 3, sc_accepted = False\<rparr>"
proof -
  have f: "f64_finite F64_ONE" "f64_finite 0" "\<not> f64_le F64_ONE 0" "f64_le 0 0" "f64_lt 0 F64_ONE" "\<not> f64_lt F64_ONE F64_ONE"
      "\<not> f64_lt F64_ONE 0" "\<not> f64_lt 0 0" "f64_le 0 F64_ONE" "f64_min 0 F64_ONE = 0"
    by (simp_all add: float_finite_def float_le_def float_lt_def float_nan_def F64_INFINITY_def F64_ONE_def float_magnitude_def float_key_def f64_min_def)
  show law: "from_masses order_ops [(3, F64_ONE), (5, F64_ONE)] = Inr (sample_law [3, 5])"
    using f by (simp add: from_masses_def sample_law_def order_ops_def sample_ops_def VOCABULARY_def LINEAR_PROBE_LIMIT_def)
  show "f64_lt 0 (distribution_probability order_ops (sample_law [7]) 7)"
    using f by (simp add: distribution_probability_def find_mass_def sample_law_def order_ops_def)
  have prob: "distribution_probability order_ops (sample_law ts) t = (if t \<in> set ts then F64_ONE else 0)" for ts t
  proof -
    have "find_mass t (map (\<lambda>t. (t, F64_ONE)) ts) = (if t \<in> set ts then Some F64_ONE else None)"
      by (induction ts) (simp_all add: find_mass_map)
    then show ?thesis using f by (simp add: distribution_probability_def sample_law_def order_ops_def)
  qed
  have res: "speculative_residual order_ops (sample_law [3, 5]) (sample_law [7]) = Inr (sample_law [3, 5])"
    using f prob law by (simp add: speculative_residual_def distribution_probabilities_def sample_law_def [of "[3, 5]"]
        List.map_filter_def order_ops_def Let_def)
  have "draw_at order_ops (sample_law [3, 5]) 0 = Inr 3"
    using f by (simp add: draw_at_def sample_law_def order_ops_def sample_ops_def Let_def)
  moreover have "div64 order_ops 0 F64_ONE = 0" using f by (simp add: order_ops_def)
  ultimately show "speculative_decision order_ops 7 (sample_law [3, 5]) (sample_law [7]) 0 0 = Inr \<lparr>sc_token_id = 3, sc_accepted = False\<rparr>"
    using f res by (simp add: speculative_decision_def speculative_accept_probability_def prob Let_def)
qed

theorem speculative_rejects_proposal_witness:
  "\<exists>c. speculative_decision order_ops 7 (sample_law [3, 5]) (sample_law [7]) 0 0 = Inr c \<and> \<not> sc_accepted c \<and>
    f64_lt (distribution_probability order_ops (sample_law [7]) (sc_token_id c))
      (distribution_probability order_ops (sample_law [3, 5]) (sc_token_id c))"
  using speculative_rejects_proposal [OF order_ops_order sample_decision_rejects(1) _ sample_decision_rejects(2,3)]
    sample_decision_rejects(3) by auto

end
