(* ===== verification/GenerationRun.thy ===== *)
theory GenerationRun
  imports Generation SamplingProperties DecoderProperties
begin

text \<open>
  Runs of a generation session: the calls that succeed, in any order, and the invariant they keep. The
  steps of a run are the observable results in order.
\<close>

section \<open>What the sampler may do\<close>

text \<open>Selection only moves the random state.\<close>

definition same_but_random :: "generation_session \<Rightarrow> generation_session \<Rightarrow> bool" where
  "same_but_random g g' \<longleftrightarrow> (\<exists>r. g' = g\<lparr>gs_sampler := (gs_sampler g)\<lparr>sa_random := r\<rparr>\<rparr>)"

lemma same_refl [simp]: "same_but_random g g"
  unfolding same_but_random_def by (rule exI [of _ "sa_random (gs_sampler g)"]) simp

lemma same_trans: "same_but_random g g' \<Longrightarrow> same_but_random g' g'' \<Longrightarrow> same_but_random g g''"
  by (auto simp: same_but_random_def)

lemma same_fields:
  assumes "same_but_random g g'"
  shows "gs_prompt g' = gs_prompt g" "gs_decoder g' = gs_decoder g" "gs_generated g' = gs_generated g"
    "gs_occurrences g' = gs_occurrences g" "gs_max_new_tokens g' = gs_max_new_tokens g" "gs_finish_reason g' = gs_finish_reason g"
    "gs_tool_constraint g' = gs_tool_constraint g" "sa_options (gs_sampler g') = sa_options (gs_sampler g)"
    "sa_stop_ids (gs_sampler g') = sa_stop_ids (gs_sampler g)" "sa_stop_id_count (gs_sampler g') = sa_stop_id_count (gs_sampler g)"
  using assms by (auto simp: same_but_random_def)

lemma draw_random: "sampler_draw fo d s = (r, s') \<Longrightarrow> \<exists>x. s' = s\<lparr>sa_random := x\<rparr>"
  by (auto simp: sampler_draw_def split: prod.splits)

lemma draw_from_random: "draw_from fo law s = (r, s') \<Longrightarrow> \<exists>x. s' = s\<lparr>sa_random := x\<rparr>"
proof (cases law)
  case (Inl e)
  then show "draw_from fo law s = (r, s') \<Longrightarrow> ?thesis" by (auto simp: draw_from_def intro: exI [of _ "sa_random s"])
next
  case (Inr d)
  then show "draw_from fo law s = (r, s') \<Longrightarrow> ?thesis" by (auto simp: draw_from_def dest: draw_random)
qed

lemma sample_random: "sample_with_counts fo logits com prov s = (r, s') \<Longrightarrow> \<exists>x. s' = s\<lparr>sa_random := x\<rparr>"
proof -
  assume run: "sample_with_counts fo logits com prov s = (r, s')"
  have "s' = s \<or> (\<exists>law r1. draw_from fo law s = (r1, s'))"
    using run by (auto simp: sample_with_counts_def split: sum.splits prod.splits if_splits)
  then show ?thesis by (auto dest: draw_from_random intro: exI [of _ "sa_random s"])
qed

lemma sample_where_random: "sample_with_counts_where fo logits com prov allowed s = (r, s') \<Longrightarrow> \<exists>x. s' = s\<lparr>sa_random := x\<rparr>"
proof -
  assume run: "sample_with_counts_where fo logits com prov allowed s = (r, s')"
  have "s' = s \<or> (\<exists>law r1. draw_from fo law s = (r1, s'))"
    using run by (auto simp: sample_with_counts_where_def split: sum.splits prod.splits if_splits)
  then show ?thesis by (auto dest: draw_from_random intro: exI [of _ "sa_random s"])
qed

lemma on_sampler_random:
  assumes "on_sampler f g = (r, g')" and "\<And>r s'. f (gs_sampler g) = (r, s') \<Longrightarrow> \<exists>x. s' = (gs_sampler g)\<lparr>sa_random := x\<rparr>"
  shows "same_but_random g g'"
proof -
  obtain a s' where f: "f (gs_sampler g) = (a, s')" by fastforce
  then obtain x where "s' = (gs_sampler g)\<lparr>sa_random := x\<rparr>" using assms(2) by blast
  then show ?thesis using assms(1) f by (auto simp: on_sampler_def same_but_random_def)
qed

lemma propose_random: "propose_logits fo logits prov g = (r, g') \<Longrightarrow> same_but_random g g'"
proof -
  assume run: "propose_logits fo logits prov g = (r, g')"
  have sample: "same_but_random g g1" if "on_sampler (sample_with_counts fo logits (gs_occurrences g) prov) g = (r1, g1)" for r1 g1
    by (rule on_sampler_random [OF that sample_random])
  show ?thesis
  proof (cases "constraint_state g prov")
    case (Inr st)
    show ?thesis
    proof (cases st)
      case None
      then show ?thesis using run Inr by (auto simp: propose_logits_def dest: sample)
    next
      case (Some state)
      show ?thesis
      proof (cases "is_greedy (sa_options (gs_sampler g))")
        case True
        obtain r1 g1 where one: "on_sampler (sample_with_counts fo logits (gs_occurrences g) prov) g = (r1, g1)" by fastforce
        have "same_but_random g1 g'"
        proof (cases "g' = g1")
          case False
          then obtain tc where "on_sampler (sample_with_counts_where fo logits (gs_occurrences g1) prov (allows_token tc state)) g1 = (r, g')"
            using run Inr Some True one by (auto simp: propose_logits_def split: sum.splits if_splits option.splits)
          then show ?thesis by (rule on_sampler_random [OF _ sample_where_random])
        qed simp
        then show ?thesis using sample [OF one] same_trans by blast
      next
        case False
        show ?thesis
        proof (cases "constrained_distribution fo logits prov state g")
          case (Inl e)
          then show ?thesis using run \<open>constraint_state g prov = Inr st\<close> Some False by (auto simp: propose_logits_def)
        next
          case (Inr d)
          then obtain r1 where "on_sampler (sampler_draw fo d) g = (r1, g')"
            using run \<open>constraint_state g prov = Inr st\<close> Some False by (auto simp: propose_logits_def split: sum.splits prod.splits)
          then show ?thesis by (rule on_sampler_random [OF _ draw_random])
        qed
      qed
    qed
  qed (use run in \<open>auto simp: propose_logits_def\<close>)
qed

section \<open>Runs\<close>

inductive session_run :: "float_ops \<Rightarrow> text_frontend \<Rightarrow> generation_session \<Rightarrow> generation_step list \<Rightarrow> generation_session \<Rightarrow> bool"
  for fo tf g0 where
  run_start: "session_run fo tf g0 [] g0"
| run_logits: "session_run fo tf g0 steps g \<Longrightarrow> accept_logits fo tf logits g = (Inr step, g') \<Longrightarrow> session_run fo tf g0 (steps @ [step]) g'"
| run_token: "session_run fo tf g0 steps g \<Longrightarrow> accept_token tf token g = (Inr step, g') \<Longrightarrow> session_run fo tf g0 (steps @ [step]) g'"
| run_propose: "session_run fo tf g0 steps g \<Longrightarrow> propose_logits fo logits prov g = (r, g') \<Longrightarrow> session_run fo tf g0 steps g'"
| run_draw: "session_run fo tf g0 steps g \<Longrightarrow> draw_distribution fo d g = (r, g') \<Longrightarrow> session_run fo tf g0 steps g'"
| run_unit: "session_run fo tf g0 steps g \<Longrightarrow> random_unit fo g = (u, g') \<Longrightarrow> session_run fo tf g0 steps g'"

text \<open>The tokens the decoder sees, and their bytes.\<close>

definition visible_bytes :: "text_frontend \<Rightarrow> nat list \<Rightarrow> string" where
  "visible_bytes tf tokens =
    meaning_text (fe_special tf) (fe_id_to_token tf) (fe_byte_table tf) (filter (\<lambda>t. t \<notin> set (fe_stop_ids tf)) tokens)"

definition delta_text :: "generation_step \<Rightarrow> string" where
  "delta_text step = (case st_delta step of None \<Rightarrow> [] | Some t \<Rightarrow> t)"

definition stopped :: "text_frontend \<Rightarrow> nat \<Rightarrow> bool" where
  "stopped tf token \<longleftrightarrow> token \<in> set (fe_stop_ids tf)"

text \<open>The reason a session with these tokens is finished, if it is.\<close>

definition reason_of :: "text_frontend \<Rightarrow> nat \<Rightarrow> nat list \<Rightarrow> finish_reason option" where
  "reason_of tf max_tokens tokens =
    (if tokens = [] then (if max_tokens = 0 then Some FinishLength else None)
     else completion_reason (stopped tf (last tokens)) (length tokens) max_tokens)"

definition tokens_ok :: "text_frontend \<Rightarrow> nat \<Rightarrow> nat list \<Rightarrow> bool" where
  "tokens_ok tf max_tokens tokens \<longleftrightarrow>
    length tokens \<le> max_tokens \<and> (\<forall>t\<in>set tokens. t < VOCABULARY) \<and> (\<forall>t\<in>set (butlast tokens). \<not> stopped tf t)"

definition counts_ok :: "sampling_penalties \<Rightarrow> nat list \<Rightarrow> token_counts \<Rightarrow> bool" where
  "counts_ok p tokens counts \<longleftrightarrow>
    (if is_identity p then counts = []
     else \<forall>t. map_of counts t = (if t \<in> set tokens then Some (count_list tokens t mod U32_BOUND) else None))"

definition text_ok :: "text_frontend \<Rightarrow> generation_session \<Rightarrow> bool" where
  "text_ok tf g \<longleftrightarrow>
    (gs_finish_reason g = None \<longrightarrow> \<not> sd_finished (gs_decoder g) \<and>
      foldl push_stream_byte ([], []) (visible_bytes tf (gs_generated g)) = (sd_pending (gs_decoder g), sd_text (gs_decoder g))) \<and>
    (gs_finish_reason g \<noteq> None \<longrightarrow> sd_text (gs_decoder g) = utf8_lossy decoder_rows (visible_bytes tf (gs_generated g)))"

definition constraint_ok :: "generation_request \<Rightarrow> token_inventory \<Rightarrow> text_frontend \<Rightarrow> generation_session \<Rightarrow> bool" where
  "constraint_ok request ti tf g \<longleftrightarrow>
    (case rq_tool_constraint request of
       None \<Rightarrow> gs_tool_constraint g = None
     | Some spec \<Rightarrow> inventory_build (fe_vocabulary tf) (fe_special tf) (fe_id_to_token tf) (fe_byte_table tf) = Inr ti \<and>
         (\<exists>tc. gs_tool_constraint g = Some tc \<and> commit_tokens (gs_generated g) (constraint_new ti (fe_stop_ids tf) spec) = Inr tc))"

definition session_ok ::
  "text_frontend \<Rightarrow> prompt_encoding \<Rightarrow> generation_request \<Rightarrow> token_inventory \<Rightarrow> generation_step list \<Rightarrow> generation_session \<Rightarrow> bool" where
  "session_ok tf prompt request ti steps g \<longleftrightarrow>
    gs_prompt g = prompt \<and> sa_options (gs_sampler g) = rq_sampling request \<and> 0 < so_top_k (rq_sampling request) \<and>
    take (sa_stop_id_count (gs_sampler g)) (sa_stop_ids (gs_sampler g)) = fe_stop_ids tf \<and>
    gs_max_new_tokens g = rq_max_new_tokens request \<and>
    map st_token_id steps = gs_generated g \<and> concat (map delta_text steps) = sd_text (gs_decoder g) \<and>
    gs_finish_reason g = reason_of tf (rq_max_new_tokens request) (gs_generated g) \<and>
    tokens_ok tf (rq_max_new_tokens request) (gs_generated g) \<and>
    counts_ok (so_penalties (rq_sampling request)) (gs_generated g) (gs_occurrences g) \<and>
    text_ok tf g \<and> constraint_ok request ti tf g"

lemma session_ok_random: "same_but_random g g' \<Longrightarrow> session_ok tf prompt request ti steps g \<Longrightarrow> session_ok tf prompt request ti steps g'"
  unfolding same_but_random_def by (elim exE) (simp add: session_ok_def text_ok_def constraint_ok_def cong: option.case_cong)

lemma session_start_ok:
  assumes "session_start tf prompt request = Inr g"
  shows "\<exists>ti. session_ok tf prompt request ti [] g"
proof -
  obtain s c where s: "sampler_new (rq_sampling request) (fe_stop_ids tf) = Inr s"
    and c: "(case rq_tool_constraint request of None \<Rightarrow> Inr None
             | Some spec \<Rightarrow> map_sum from_frontend Some (tool_call_constraint tf spec)) = Inr c"
    and g: "g = \<lparr>gs_prompt = prompt, gs_sampler = s, gs_decoder = decoder_new, gs_generated = [], gs_occurrences = [],
         gs_max_new_tokens = rq_max_new_tokens request,
         gs_finish_reason = (if rq_max_new_tokens request = 0 then Some FinishLength else None), gs_tool_constraint = c\<rparr>"
    using assms by (auto simp: session_start_def rbind_Inr_iff)
  have "\<exists>ti. constraint_ok request ti tf g"
    using c by (auto simp: g constraint_ok_def tool_call_constraint_def map_sum_def rbind_Inr_iff split: option.splits sum.splits)
  then show ?thesis using sampler_new_Inr [OF s]
    by (auto simp: session_ok_def g reason_of_def tokens_ok_def counts_ok_def text_ok_def visible_bytes_def meaning_text_def decoder_new_def)
qed

end
