(* ===== verification/GenerationProperties.thy ===== *)
theory GenerationProperties
  imports GenerationRun AssistantProperties
begin

text \<open>
  The claims about a generation session: what a finished session holds, which token it selects, and, with
  the tool-call constraint, that the response parser reads what a stopped session wrote.
\<close>

section \<open>One accepted token\<close>

lemma visible_snoc: "visible_bytes tf (ts @ [t]) = visible_bytes tf ts @ (if stopped tf t then [] else
    (case token_meaning (fe_special tf) (fe_id_to_token tf) (fe_byte_table tf) t of None \<Rightarrow> [] | Some b \<Rightarrow> b))"
  by (simp add: visible_bytes_def meaning_text_def stopped_def)

lemma counts_snoc:
  assumes "counts_ok p ts counts"
  shows "counts_ok p (ts @ [t]) (if is_identity p then counts else count_token t counts)"
proof (cases "is_identity p")
  case False
  have new: "map_of (count_token t counts) x = (if x = t then Some (((case map_of counts t of None \<Rightarrow> 0 | Some n \<Rightarrow> n) + 1) mod U32_BOUND) else map_of counts x)" for x
    by (simp add: count_token_def update_conv')
  have old: "map_of counts x = (if x \<in> set ts then Some (count_list ts x mod U32_BOUND) else None)" for x
    using assms False by (simp add: counts_ok_def)
  have "count_list ts t = 0" if "t \<notin> set ts" using that by (simp add: count_list_0_iff)
  then show ?thesis using False by (auto simp: counts_ok_def new old mod_Suc_eq)
qed (use assms in \<open>simp add: counts_ok_def\<close>)

lemma accept_decision_ok:
  assumes "session_ok tf prompt request ti steps g" and "gs_finish_reason g = None"
    and "decision_for_token (gs_sampler g) t = Inr d" and "accept_decision tf d g = (Inr step, g')"
  shows "session_ok tf prompt request ti (steps @ [step]) g'"
proof -
  let ?p = "so_penalties (rq_sampling request)" and ?ts = "gs_generated g"
  note ok = assms(1)[unfolded session_ok_def]
  have d: "dec_token_id d = t" "t < VOCABULARY" "dec_stopped d \<longleftrightarrow> stopped tf t"
    using assms(3) ok by (auto simp: decision_for_token_def stopped_def split: if_splits)
  obtain g1 where commit: "session_commit t g = (Inr (), g1)"
    and push: "(case (if dec_stopped d then (Inr None, g1) else session_push_token tf t g1) of (Inl e, g) \<Rightarrow> (Inl e, g)
         | (Inr delta, g) \<Rightarrow> (case record_token d delta g of (step, g) \<Rightarrow> (Inr step, g))) = (Inr step, g')"
    using assms(4) d(1) by (auto simp: accept_decision_def split: prod.splits sum.splits)
  have g1: "\<exists>c. g1 = g\<lparr>gs_tool_constraint := c\<rparr>"
    and cons: "constraint_ok request ti tf (g1\<lparr>gs_generated := ?ts @ [t]\<rparr>)"
  proof -
    show "\<exists>c. g1 = g\<lparr>gs_tool_constraint := c\<rparr>"
      using commit by (auto simp: session_commit_def split: option.splits prod.splits intro: exI [of _ "gs_tool_constraint g"])
    show "constraint_ok request ti tf (g1\<lparr>gs_generated := ?ts @ [t]\<rparr>)"
    proof (cases "rq_tool_constraint request")
      case None
      then show ?thesis using ok commit by (auto simp: constraint_ok_def session_commit_def)
    next
      case (Some spec)
      then obtain tc where tc: "gs_tool_constraint g = Some tc" "commit_tokens ?ts (constraint_new ti (fe_stop_ids tf) spec) = Inr tc"
        and inv: "inventory_build (fe_vocabulary tf) (fe_special tf) (fe_id_to_token tf) (fe_byte_table tf) = Inr ti"
        using ok by (auto simp: constraint_ok_def)
      obtain tc' where tc': "commit_token t tc = (Inr (), tc')" "g1 = g\<lparr>gs_tool_constraint := Some tc'\<rparr>"
        using commit tc(1) by (cases "fst (commit_token t tc)") (auto simp: session_commit_def split: prod.splits)
      have snoc: "commit_tokens (ts @ [t]) c = rbind (commit_tokens ts c) (\<lambda>c. map_sum id (\<lambda>_. snd (commit_token t c)) (fst (commit_token t c)))" for ts c
        by (induction ts c rule: commit_tokens.induct) (auto split: prod.splits sum.splits)
      show ?thesis using Some tc tc' inv by (simp add: constraint_ok_def snoc)
    qed
  qed
  then obtain c where c: "g1 = g\<lparr>gs_tool_constraint := c\<rparr>" by blast
  obtain delta dec where rec: "record_token d delta (g1\<lparr>gs_decoder := dec\<rparr>) = (step, g')" and open_dec: "\<not> sd_finished dec"
    and out_text: "sd_text dec = sd_text (gs_decoder g) @ (case delta of None \<Rightarrow> [] | Some x \<Rightarrow> x)"
    and fold: "foldl push_stream_byte ([], []) (visible_bytes tf (?ts @ [t])) = (sd_pending dec, sd_text dec)"
  proof -
    have before: "\<not> sd_finished (gs_decoder g)" "foldl push_stream_byte ([], []) (visible_bytes tf ?ts) = (sd_pending (gs_decoder g), sd_text (gs_decoder g))"
      using ok assms(2) by (simp_all add: text_ok_def)
    show ?thesis
    proof (cases "stopped tf t")
      case True
      then show ?thesis using push d before by (intro that [of None "gs_decoder g"]) (auto simp: c visible_snoc split: prod.splits)
    next
      case False
      obtain r dec where dp: "decoder_push (fe_special tf) (fe_id_to_token tf) (fe_byte_table tf) t (gs_decoder g) = (r, dec)" by fastforce
      then obtain delta where r: "r = Inr delta" "record_token d delta (g1\<lparr>gs_decoder := dec\<rparr>) = (step, g')"
        using push d False by (cases r) (auto simp: c session_push_token_def split: prod.splits)
      note one = decoder_push_bytes [OF dp [unfolded r(1)]]
      show ?thesis
      proof (rule that [OF r(2)])
        show "foldl push_stream_byte ([], []) (visible_bytes tf (?ts @ [t])) = (sd_pending dec, sd_text dec)"
          using before(2) one foldl_stream_out [of "sd_pending (gs_decoder g)" "sd_text (gs_decoder g)" "[]"] False by (simp add: visible_snoc)
      qed (use one in simp_all)
    qed
  qed
  have len: "length (?ts @ [t]) \<le> rq_max_new_tokens request" and none: "\<forall>x\<in>set ?ts. \<not> stopped tf x"
  proof -
    have r: "reason_of tf (rq_max_new_tokens request) ?ts = None" using ok assms(2) by simp
    then show "length (?ts @ [t]) \<le> rq_max_new_tokens request"
      by (cases "?ts = []") (auto simp: reason_of_def completion_reason_def split: if_splits)
    have "?ts \<noteq> [] \<Longrightarrow> \<not> stopped tf (last ?ts)" using r by (auto simp: reason_of_def completion_reason_def split: if_splits)
    then show "\<forall>x\<in>set ?ts. \<not> stopped tf x" using ok by (cases ?ts rule: rev_cases) (auto simp: tokens_ok_def)
  qed
  have toks: "tokens_ok tf (rq_max_new_tokens request) (?ts @ [t])" using ok len none d(2) by (simp add: tokens_ok_def)
  have reason: "reason_of tf (rq_max_new_tokens request) (?ts @ [t]) = completion_reason (dec_stopped d) (length ?ts + 1) (rq_max_new_tokens request)"
    using d(3) by (simp add: reason_of_def)
  let ?counts = "if is_identity ?p then gs_occurrences g else count_token t (gs_occurrences g)"
  have counts: "counts_ok ?p (?ts @ [t]) ?counts" using ok by (intro counts_snoc) blast
  let ?g2 = "g1\<lparr>gs_decoder := dec, gs_generated := ?ts @ [t], gs_occurrences := ?counts\<rparr>"
  have same: "gs_prompt g = prompt" "sa_options (gs_sampler g) = rq_sampling request" "gs_max_new_tokens g = rq_max_new_tokens request" using ok by simp_all
  have cons2: "gs_tool_constraint h = c \<Longrightarrow> gs_generated h = ?ts @ [t] \<Longrightarrow> constraint_ok request ti tf h" for h :: generation_session
    using cons by (simp add: constraint_ok_def c cong: option.case_cong)
  show ?thesis
  proof (cases "completion_reason (dec_stopped d) (length ?ts + 1) (rq_max_new_tokens request)")
    case None
    then have "step = \<lparr>st_token_id = t, st_delta = delta, st_finish_reason = None\<rparr>" "g' = ?g2\<lparr>gs_finish_reason := None\<rparr>"
      using rec by (auto simp: record_token_def Let_def c d(1) same split: if_splits)
    then show ?thesis using ok toks reason counts None cons2 out_text fold open_dec
      by (simp add: session_ok_def c text_ok_def delta_text_def)
  next
    case (Some why)
    obtain tail fin where tail: "decoder_finish dec = (tail, fin)" by fastforce
    have fin: "sd_text fin = sd_text dec @ finish_pending (sd_pending dec)" "finish_pending (sd_pending dec) = (case tail of None \<Rightarrow> [] | Some x \<Rightarrow> x)"
      using tail open_dec by (auto simp: decoder_finish_def Let_def split: if_splits)
    have lossy: "sd_text fin = utf8_lossy decoder_rows (visible_bytes tf (?ts @ [t]))" using stream_text [OF fold] fin(1) by simp
    let ?delta = "case tail of None \<Rightarrow> delta | Some x \<Rightarrow> Some (case delta of Some y \<Rightarrow> y @ x | None \<Rightarrow> x)"
    have "step = \<lparr>st_token_id = t, st_delta = ?delta, st_finish_reason = Some why\<rparr>" "g' = ?g2\<lparr>gs_decoder := fin, gs_finish_reason := Some why\<rparr>"
      using rec Some tail by (auto simp: record_token_def Let_def c d(1) same split: if_splits)
    moreover have "(case ?delta of None \<Rightarrow> [] | Some x \<Rightarrow> x) = (case delta of None \<Rightarrow> [] | Some x \<Rightarrow> x) @ finish_pending (sd_pending dec)"
      using fin(2) by (cases tail; cases delta) simp_all
    ultimately show ?thesis using ok toks reason counts Some cons2 out_text lossy fin(1)
      by (simp add: session_ok_def c text_ok_def delta_text_def)
  qed
qed

section \<open>Selected tokens\<close>

lemma decision_token: "decision_for_token s t = Inr d \<Longrightarrow> dec_token_id d = t"
  by (auto simp: decision_for_token_def split: if_splits)

lemma decision_self: "decision_for_token s t = Inr d \<Longrightarrow> decision_for_token s (dec_token_id d) = Inr d"
  using decision_token by metis

lemma sample_pick:
  assumes "sample_with_counts fo logits com prov s = (Inr d, s')"
  shows "decision_for_token s (dec_token_id d) = Inr d \<and> (is_greedy (sa_options s) \<longrightarrow>
    conditioned_greedy_index fo logits (so_penalties (sa_options s)) com prov = Inr (dec_token_id d))"
proof (cases "is_greedy (sa_options s)")
  case True
  then show ?thesis using assms
    by (auto simp: sample_with_counts_def selected_token_def rbind_Inr_iff dest: decision_self decision_token split: sum.splits if_splits)
next
  case False
  then obtain law where law: "distribution_of_row fo logits (sa_options s) com prov = Inr law"
    using assms by (cases "distribution_of_row fo logits (sa_options s) com prov")
      (auto simp: sample_with_counts_def selected_token_def draw_from_def split: sum.splits)
  obtain unit state where u: "xorshift_unit fo (sa_random s) = (unit, state)" by fastforce
  show ?thesis using assms False law u
    by (auto simp: sample_with_counts_def selected_token_def draw_from_def sampler_draw_def rbind_Inr_iff
        dest: decision_self split: sum.splits if_splits)
qed

lemma where_sample:
  assumes "0 < so_top_k (sa_options s)" and "sample_with_counts_where fo logits com prov allowed s = (Inr d, s')"
  shows "decision_for_token s (dec_token_id d) = Inr d \<and> allowed (dec_token_id d) \<and> (is_greedy (sa_options s) \<longrightarrow>
    dec_token_id d = hd (ranking fo (so_penalties (sa_options s)) com prov allowed logits))"
proof -
  let ?R = "ranking fo (so_penalties (sa_options s)) com prov allowed logits"
  obtain token where pick: "if is_greedy (sa_options s)
      then conditioned_greedy_index_where fo logits (so_penalties (sa_options s)) com prov allowed = Inr token
      else \<exists>law unit. distribution_of_row_where fo logits (sa_options s) com prov allowed = Inr law \<and> draw_at fo law unit = Inr token"
    and d: "decision_for_token s token = Inr d"
    using where_pick [OF assms(2)] by blast
  have "token \<in> set ?R \<and> (is_greedy (sa_options s) \<longrightarrow> token = hd ?R)"
  proof (cases "is_greedy (sa_options s)")
    case True
    then have "?R \<noteq> [] \<and> token = hd ?R" using pick by (intro where_greedy_head) simp
    then show ?thesis by simp
  next
    case False
    then obtain law unit where law: "distribution_of_row_where fo logits (sa_options s) com prov allowed = Inr law" and draw: "draw_at fo law unit = Inr token"
      using pick by auto
    obtain n where "map fst (sd_masses law) = take n ?R" using where_law_support [OF assms(1) law] by blast
    moreover have "token \<in> set (map fst (sd_masses law))" using draw_at_in [OF draw] by simp
    ultimately show ?thesis using False by (metis in_set_takeD)
  qed
  then show ?thesis using d decision_token [OF d] decision_self [OF d] by (simp add: set_ranking)
qed

lemma fast_law_allowed:
  assumes "distribution_if_top_k_allowed fo logits com prov allowed s = Inr (Some law)" and "token \<in> fst ` set (sd_masses law)"
  shows "allowed token"
proof -
  obtain tops where all: "list_all (\<lambda>(token, _). allowed token) tops" and law: "distribution_from_top fo tops (sa_options s) = Inr law"
    using assms(1) by (auto simp: distribution_if_top_k_allowed_def rbind_Inr_iff map_sum_def split: if_splits sum.splits)
  obtain r where "map fst (sd_masses law) = map fst (take r tops)" using distribution_from_top_Inr [OF law] by blast
  then have "token \<in> set (map fst (take r tops))" using assms(2) by (metis list.set_map)
  then show ?thesis using all by (auto simp: list_all_iff dest!: in_set_takeD)
qed

lemma ranking_filter: "ranking fo p com prov allowed logits = filter allowed (ranking fo p com prov (\<lambda>_. True) logits)"
proof -
  have "allowed_values fo p com prov allowed logits = filter (allowed \<circ> fst) (allowed_values fo p com prov (\<lambda>_. True) logits)"
    by (simp add: allowed_values_def filter_map comp_def)
  then show ?thesis by (simp add: ranking_def filter_map flip: filter_sort)
qed

lemma greedy_head:
  assumes "is_identity p \<longrightarrow> com = [] \<and> prov = []" and "conditioned_greedy_index fo logits p com prov = Inr token"
  shows "ranking fo p com prov (\<lambda>_. True) logits \<noteq> [] \<and> token = hd (ranking fo p com prov (\<lambda>_. True) logits)"
proof -
  obtain tops where tops: "conditioned_top_k_where fo logits 1 p com prov (\<lambda>_. True) = Inr tops" "tops \<noteq> []" "token = fst (hd tops)"
    using conditioned_greedy_ranked [OF assms] by blast
  have "map fst tops = take 1 (ranking fo p com prov (\<lambda>_. True) logits)"
    using tops(1) top_k_where_iff [of 1] ranking_top by (metis zero_less_one)
  then show ?thesis using tops(2,3) by (cases "ranking fo p com prov (\<lambda>_. True) logits"; cases tops) auto
qed

text \<open>With identity penalties the greedy candidate is that of the raw row, whatever the history.\<close>

abbreviation greedy_history :: "sampling_penalties \<Rightarrow> nat list \<Rightarrow> nat list" where
  "greedy_history p prov \<equiv> (if is_identity p then [] else prov)"

lemma greedy_candidate:
  assumes "is_identity p \<longrightarrow> com = []" and "conditioned_greedy_index fo logits p com prov = Inr token"
  shows "ranking fo p com (greedy_history p prov) (\<lambda>_. True) logits \<noteq> [] \<and>
    token = hd (ranking fo p com (greedy_history p prov) (\<lambda>_. True) logits)"
proof (rule greedy_head)
  show "conditioned_greedy_index fo logits p com (greedy_history p prov) = Inr token"
    using assms by (cases "is_identity p") (simp_all add: conditioned_greedy_index_def)
qed (use assms in simp)

text \<open>The filter of a session: the constraint's, in the state after the provisional tokens.\<close>

definition session_filter :: "generation_session \<Rightarrow> nat list \<Rightarrow> nat \<Rightarrow> bool" where
  "session_filter g prov token = (case gs_tool_constraint g of None \<Rightarrow> True
    | Some tc \<Rightarrow> (case provisional_state tc prov of Inl e \<Rightarrow> False | Inr state \<Rightarrow> allows_token tc state token))"

text \<open>The provisional tokens that the ranking counts: none when penalties are the identity and the first
  token of the raw row is admitted, all of them otherwise.\<close>

definition ranked_history :: "float_ops \<Rightarrow> sampling_penalties \<Rightarrow> bf16 list \<Rightarrow> nat list \<Rightarrow> generation_session \<Rightarrow> nat list" where
  "ranked_history fo p logits prov g =
    (if is_identity p \<and> session_filter g prov (hd (ranking fo p [] [] (\<lambda>_. True) logits)) then [] else prov)"

lemma propose_select:
  assumes top: "0 < so_top_k (sa_options (gs_sampler g))" and run: "propose_logits fo logits prov g = (Inr d, g')"
  shows "decision_for_token (gs_sampler g) (dec_token_id d) = Inr d \<and> session_filter g prov (dec_token_id d) \<and>
    (is_greedy (sa_options (gs_sampler g)) \<and> (is_identity (so_penalties (sa_options (gs_sampler g))) \<longrightarrow> gs_occurrences g = []) \<longrightarrow>
      dec_token_id d = hd (ranking fo (so_penalties (sa_options (gs_sampler g))) (gs_occurrences g)
        (ranked_history fo (so_penalties (sa_options (gs_sampler g))) logits prov g) (session_filter g prov) logits))"
proof (cases "gs_tool_constraint g")
  case None
  then obtain s' where "sample_with_counts fo logits (gs_occurrences g) prov (gs_sampler g) = (Inr d, s')"
    using run by (auto simp: propose_logits_def constraint_state_def on_sampler_def split: prod.splits)
  note pick = sample_pick [OF this]
  have "session_filter g prov = (\<lambda>_. True)" using None by (simp add: session_filter_def fun_eq_iff)
  then show ?thesis using pick greedy_candidate [of "so_penalties (sa_options (gs_sampler g))" "gs_occurrences g" fo logits prov "dec_token_id d"]
    by (auto simp: ranked_history_def)
next
  case (Some tc)
  then obtain state where st: "provisional_state tc prov = Inr state" "constraint_state g prov = Inr (Some state)"
    using run by (cases "provisional_state tc prov") (auto simp: propose_logits_def constraint_state_def)
  have filter: "session_filter g prov = allows_token tc state" using Some st by (simp add: session_filter_def fun_eq_iff)
  let ?p = "so_penalties (sa_options (gs_sampler g))"
  show ?thesis
  proof (cases "is_greedy (sa_options (gs_sampler g))")
    case True
    obtain r s1 where one: "sample_with_counts fo logits (gs_occurrences g) prov (gs_sampler g) = (r, s1)" by fastforce
    obtain c where c: "r = Inr c" using run st(2) True one by (cases r) (auto simp: propose_logits_def on_sampler_def)
    note pick = sample_pick [OF one [unfolded c]]
    obtain x where s1: "s1 = (gs_sampler g)\<lparr>sa_random := x\<rparr>" using sample_random [OF one] by blast
    show ?thesis
    proof (cases "allows_token tc state (dec_token_id c)")
      case yes: True
      then have "d = c" using run st(2) True one c Some by (auto simp: propose_logits_def on_sampler_def constraint_allows_def)
      moreover have "dec_token_id c = hd (ranking fo ?p (gs_occurrences g) (ranked_history fo ?p logits prov g) (allows_token tc state) logits)"
        if "is_identity ?p \<longrightarrow> gs_occurrences g = []"
      proof -
        note head = greedy_candidate [OF that, of fo logits prov "dec_token_id c"]
        then have "ranked_history fo ?p logits prov g = greedy_history ?p prov"
          using pick True yes that filter by (auto simp: ranked_history_def)
        then show ?thesis using head pick True yes ranking_filter [of fo ?p _ _ "allows_token tc state"]
          by (cases "ranking fo ?p (gs_occurrences g) (greedy_history ?p prov) (\<lambda>_. True) logits") auto
      qed
      ultimately show ?thesis using pick yes filter by simp
    next
      case no: False
      then obtain s2 where "sample_with_counts_where fo logits (gs_occurrences g) prov (allows_token tc state) s1 = (Inr d, s2)"
        using run st(2) True one c Some by (auto simp: propose_logits_def on_sampler_def constraint_allows_def split: prod.splits)
      then have "decision_for_token s1 (dec_token_id d) = Inr d \<and> allows_token tc state (dec_token_id d) \<and> (is_greedy (sa_options s1) \<longrightarrow>
          dec_token_id d = hd (ranking fo (so_penalties (sa_options s1)) (gs_occurrences g) prov (allows_token tc state) logits))"
        by (rule where_sample [rotated]) (simp add: s1 top)
      moreover have "ranked_history fo ?p logits prov g = prov" if "is_identity ?p \<longrightarrow> gs_occurrences g = []"
        using greedy_candidate [OF that, of fo logits prov "dec_token_id c"] pick True no that filter by (auto simp: ranked_history_def)
      ultimately show ?thesis using s1 filter by simp
    qed
  next
    case False
    obtain law where law: "constrained_distribution fo logits prov state g = Inr law"
      using run st(2) False by (cases "constrained_distribution fo logits prov state g") (auto simp: propose_logits_def)
    obtain r s1 where draw: "sampler_draw fo law (gs_sampler g) = (r, s1)" by fastforce
    obtain x where s1: "s1 = (gs_sampler g)\<lparr>sa_random := x\<rparr>" using draw_random [OF draw] by blast
    obtain token where t: "r = Inr token" "decision_for_token s1 token = Inr d"
      using run st(2) False law draw by (cases r) (auto simp: propose_logits_def on_sampler_def)
    obtain unit where "draw_at fo law unit = Inr token" using draw t(1) by (auto simp: sampler_draw_def split: prod.splits)
    then have in_law: "token \<in> fst ` set (sd_masses law)" by (rule draw_at_in)
    have "allows_token tc state token"
    proof (cases "distribution_if_top_k_allowed fo logits (gs_occurrences g) prov (allows_token tc state) (gs_sampler g) = Inr (Some law)")
      case True
      then show ?thesis using fast_law_allowed in_law by blast
    next
      case no: False
      then have "distribution_of_row_where fo logits (sa_options (gs_sampler g)) (gs_occurrences g) prov (allows_token tc state) = Inr law"
        using law Some False by (auto simp: constrained_distribution_def rbind_Inr_iff sampler_distribution_where_def split: option.splits)
      then obtain n where "map fst (sd_masses law) = take n (ranking fo (so_penalties (sa_options (gs_sampler g))) (gs_occurrences g) prov (allows_token tc state) logits)"
        using where_law_support [OF top] by blast
      then have "token \<in> set (ranking fo (so_penalties (sa_options (gs_sampler g))) (gs_occurrences g) prov (allows_token tc state) logits)"
        using in_law by (metis in_set_takeD list.set_map)
      then show ?thesis using set_ranking by blast
    qed
    then show ?thesis using t(2) decision_token [OF t(2)] s1 filter False by simp
  qed
qed

section \<open>Runs keep the invariant\<close>

lemma session_run_ok:
  assumes "session_run fo tf g0 steps g" and "session_ok tf prompt request ti [] g0"
  shows "session_ok tf prompt request ti steps g"
  using assms
proof (induction rule: session_run.induct)
  case (run_logits steps g logits step g')
  then have ok: "session_ok tf prompt request ti steps g" by simp
  obtain d g1 where fin: "gs_finish_reason g = None" and proposed: "propose_logits fo logits [] g = (Inr d, g1)" and acc: "accept_decision tf d g1 = (Inr step, g')"
    using run_logits(2) by (auto simp: accept_logits_def split: if_splits prod.splits sum.splits)
  have same: "same_but_random g g1" by (rule propose_random [OF proposed])
  have "decision_for_token (gs_sampler g) (dec_token_id d) = Inr d" using propose_select [OF _ proposed] ok by (simp add: session_ok_def)
  then have "decision_for_token (gs_sampler g1) (dec_token_id d) = Inr d" using same_fields(9,10) [OF same] by (simp add: decision_for_token_def split: if_splits)
  then show ?case using accept_decision_ok [OF session_ok_random [OF same ok] _ _ acc] same_fields(6) [OF same] fin by simp
next
  case (run_token steps g token step g')
  then have ok: "session_ok tf prompt request ti steps g" by simp
  obtain d where "gs_finish_reason g = None" "decision_for_token (gs_sampler g) token = Inr d" "accept_decision tf d g = (Inr step, g')"
    using run_token(2) by (auto simp: accept_token_def split: if_splits sum.splits)
  then show ?case using accept_decision_ok [OF ok] by blast
next
  case (run_propose steps g logits prov r g')
  then show ?case using session_ok_random [OF propose_random] by blast
next
  case (run_draw steps g d r g')
  have "same_but_random g g'" by (rule on_sampler_random [OF run_draw(2) [unfolded draw_distribution_def] draw_random])
  then show ?case using session_ok_random run_draw by blast
next
  case (run_unit steps g u g')
  have "same_but_random g g'" by (rule on_sampler_random [OF run_unit(2) [unfolded random_unit_def]]) (auto split: prod.splits)
  then show ?case using session_ok_random run_unit by blast
qed

section \<open>Acceptance succeeds\<close>

definition token_decodes :: "text_frontend \<Rightarrow> nat \<Rightarrow> bool" where
  "token_decodes tf t \<longleftrightarrow> stopped tf t \<or> fe_special tf t \<or>
    (case fe_id_to_token tf t of None \<Rightarrow> False | Some cs \<Rightarrow> list_all (\<lambda>c. fe_byte_table tf c \<noteq> None) cs)"

lemma push_token_total:
  assumes "token_decodes tf t" and "\<not> stopped tf t" and "\<not> sd_finished (gs_decoder g)"
  shows "\<exists>delta g'. session_push_token tf t g = (Inr delta, g')"
proof (cases "fe_special tf t")
  case True
  then show ?thesis using assms(3) by (simp add: session_push_token_def decoder_push_def)
next
  case False
  then obtain cs where "fe_id_to_token tf t = Some cs" "list_all (\<lambda>c. fe_byte_table tf c \<noteq> None) cs"
    using assms(1,2) by (auto simp: token_decodes_def split: option.splits)
  then obtain delta d' where "decoder_push (fe_special tf) (fe_id_to_token tf) (fe_byte_table tf) t (gs_decoder g) = (Inr delta, d')"
    using decoder_push_total [of "fe_special tf" t "fe_id_to_token tf" cs "fe_byte_table tf" "gs_decoder g"] False assms(3) by blast
  then show ?thesis by (simp add: session_push_token_def)
qed

lemma accept_decision_total:
  assumes "session_ok tf prompt request ti steps g" and "gs_finish_reason g = None"
    and "decision_for_token (gs_sampler g) t = Inr d" and "token_decodes tf t"
    and "\<And>tc. gs_tool_constraint g = Some tc \<Longrightarrow> is_ok (fst (commit_token t tc))"
  shows "\<exists>step g'. accept_decision tf d g = (Inr step, g')"
proof -
  have d: "dec_token_id d = t" "dec_stopped d \<longleftrightarrow> stopped tf t"
    using assms(1,3) by (auto simp: session_ok_def decision_for_token_def stopped_def split: if_splits)
  have open_dec: "\<not> sd_finished (gs_decoder g)" using assms(1,2) by (simp add: session_ok_def text_ok_def)
  obtain g1 where g1: "session_commit t g = (Inr (), g1)" "gs_decoder g1 = gs_decoder g"
  proof (cases "gs_tool_constraint g")
    case None
    then show ?thesis by (intro that [of g]) (simp_all add: session_commit_def)
  next
    case (Some tc)
    obtain r tc' where c: "commit_token t tc = (r, tc')" by fastforce
    then have "r = Inr ()" using assms(5) [OF Some] by (cases r) simp_all
    then show ?thesis using Some c by (intro that [of "g\<lparr>gs_tool_constraint := Some tc'\<rparr>"]) (simp_all add: session_commit_def)
  qed
  obtain delta g2 where g2: "(if dec_stopped d then (Inr None, g1) else session_push_token tf t g1) = (Inr delta, g2)"
    using push_token_total [OF assms(4), of g1] d open_dec g1(2) by (cases "stopped tf t") auto
  obtain step g' where "record_token d delta g2 = (step, g')" by fastforce
  then have "accept_decision tf d g = (Inr step, g')" unfolding accept_decision_def d(1) g1(1) by (simp add: g2)
  then show ?thesis by blast
qed

text \<open>A run over given tokens.\<close>

lemma accept_tokens_total:
  assumes "session_ok tf prompt request ti [] g0" and "session_run fo tf g0 steps g" and "rq_tool_constraint request = Some spec"
    and "\<forall>t\<in>set ts. t < VOCABULARY \<and> token_decodes tf t" and "\<forall>t\<in>set (butlast ts). \<not> stopped tf t"
    and "commit_tokens (gs_generated g @ ts) (constraint_new ti (fe_stop_ids tf) spec) = Inr tc"
    and "length (gs_generated g) + length ts \<le> rq_max_new_tokens request" and "ts = [] \<or> gs_finish_reason g = None"
  shows "\<exists>steps' g'. session_run fo tf g0 steps' g' \<and> gs_generated g' = gs_generated g @ ts"
  using assms(2,4-8)
proof (induction ts arbitrary: steps g)
  case (Cons t ts)
  have ok: "session_ok tf prompt request ti steps g" by (rule session_run_ok [OF Cons.prems(1) assms(1)])
  have fin: "gs_finish_reason g = None" using Cons.prems(6) by simp
  have app: "commit_tokens (xs @ ys) c = rbind (commit_tokens xs c) (commit_tokens ys)" for xs ys c
    by (induction xs c rule: commit_tokens.induct) (auto split: prod.splits sum.splits)
  obtain tc0 where tc0: "gs_tool_constraint g = Some tc0" "commit_tokens (gs_generated g) (constraint_new ti (fe_stop_ids tf) spec) = Inr tc0"
    using ok assms(3) by (auto simp: session_ok_def constraint_ok_def)
  have "is_ok (commit_tokens (t # ts) tc0)" using Cons.prems(4) tc0(2) by (simp add: app)
  then have com: "is_ok (fst (commit_token t tc0))" by (auto simp: is_ok_def split: prod.splits sum.splits)
  have t: "t < VOCABULARY" "token_decodes tf t" using Cons.prems(2) by simp_all
  obtain d where d: "decision_for_token (gs_sampler g) t = Inr d" using t(1) by (simp add: decision_for_token_def)
  obtain step g1 where step: "accept_decision tf d g = (Inr step, g1)"
    using accept_decision_total [OF ok fin d t(2)] com tc0(1) by auto
  have acc: "accept_token tf t g = (Inr step, g1)" using fin d step by (simp add: accept_token_def)
  note run = run_token [OF Cons.prems(1) acc]
  have ok1: "session_ok tf prompt request ti (steps @ [step]) g1" by (rule accept_decision_ok [OF ok fin d step])
  have "st_token_id step = t"
    using step decision_token [OF d] by (auto simp: accept_decision_def record_token_def Let_def split: prod.splits sum.splits if_splits)
  then have gen: "gs_generated g1 = gs_generated g @ [t]" using ok ok1 by (auto simp: session_ok_def)
  have "gs_finish_reason g1 = None" if "ts \<noteq> []"
  proof -
    have "\<not> stopped tf t" using Cons.prems(3) that by simp
    moreover have "length (gs_generated g1) < rq_max_new_tokens request" using Cons.prems(5) that gen by (cases ts) auto
    ultimately show ?thesis using ok1 gen by (simp add: session_ok_def reason_of_def completion_reason_def)
  qed
  moreover have "\<forall>t\<in>set (butlast ts). \<not> stopped tf t" using Cons.prems(3) by (cases ts) auto
  ultimately show ?case using Cons.IH [OF run] Cons.prems(2,4,5) gen by auto
qed auto

section \<open>Claims\<close>

text \<open>C6: A session is exactly its tokens. Along any run of successful calls from the start of a request, the
  tokens are those of the steps, never more than the maximum, with no stop token before the last; the
  session has finished with \<open>Stop\<close> exactly when the last token is a stop token, and with \<open>Length\<close> exactly
  when the maximum is reached otherwise. The output is available exactly then, and cancelling exactly
  before; both give the tokens and the lossy decoding of the bytes of the non-stop tokens, and the output's
  text is the deltas of the steps joined. When the penalties are not the identity, the history counts are the
  occurrences of each token modulo 2^32; with identity penalties no counts are kept.\<close>

theorem session_is_its_tokens:
  assumes "session_start tf prompt request = Inr g0" and "session_run fo tf g0 steps g"
  shows "gs_generated g = map st_token_id steps \<and>
    length (gs_generated g) \<le> rq_max_new_tokens request \<and> (\<forall>t\<in>set (butlast (gs_generated g)). t \<notin> set (fe_stop_ids tf)) \<and>
    (gs_finish_reason g = Some FinishStop \<longleftrightarrow> gs_generated g \<noteq> [] \<and> last (gs_generated g) \<in> set (fe_stop_ids tf)) \<and>
    (gs_finish_reason g = Some FinishLength \<longleftrightarrow> length (gs_generated g) = rq_max_new_tokens request \<and>
      \<not> (gs_generated g \<noteq> [] \<and> last (gs_generated g) \<in> set (fe_stop_ids tf))) \<and>
    (if gs_finish_reason g = None
     then is_ok (into_output g) = False \<and> session_cancel g =
       Inr \<lparr>ca_prompt = prompt, ca_token_ids = gs_generated g, ca_text = utf8_lossy decoder_rows (visible_bytes tf (gs_generated g))\<rparr>
     else is_ok (session_cancel g) = False \<and> into_output g =
       Inr \<lparr>gt_prompt = prompt, gt_token_ids = gs_generated g, gt_text = utf8_lossy decoder_rows (visible_bytes tf (gs_generated g)),
            gt_finish_reason = the (gs_finish_reason g)\<rparr> \<and>
       concat (map delta_text steps) = utf8_lossy decoder_rows (visible_bytes tf (gs_generated g))) \<and>
    (if is_identity (so_penalties (rq_sampling request)) then gs_occurrences g = []
     else \<forall>t. history_count (gs_occurrences g) [] t = count_list (gs_generated g) t mod U32_BOUND)"
proof -
  obtain ti where "session_ok tf prompt request ti [] g0" using session_start_ok [OF assms(1)] by blast
  then have ok: "session_ok tf prompt request ti steps g" by (rule session_run_ok [OF assms(2)])
  then have tok: "tokens_ok tf (rq_max_new_tokens request) (gs_generated g)" and
      reason: "gs_finish_reason g = reason_of tf (rq_max_new_tokens request) (gs_generated g)" and out_text: "text_ok tf g"
      and ids: "map st_token_id steps = gs_generated g" "concat (map delta_text steps) = sd_text (gs_decoder g)" "gs_prompt g = prompt"
      and counts: "counts_ok (so_penalties (rq_sampling request)) (gs_generated g) (gs_occurrences g)"
    by (simp_all add: session_ok_def)
  have "gs_finish_reason g = Some FinishStop \<longleftrightarrow> gs_generated g \<noteq> [] \<and> last (gs_generated g) \<in> set (fe_stop_ids tf)"
    using reason by (auto simp: reason_of_def completion_reason_def stopped_def split: if_splits)
  moreover have "gs_finish_reason g = Some FinishLength \<longleftrightarrow> length (gs_generated g) = rq_max_new_tokens request \<and>
      \<not> (gs_generated g \<noteq> [] \<and> last (gs_generated g) \<in> set (fe_stop_ids tf))"
    using reason tok by (auto simp: reason_of_def completion_reason_def stopped_def tokens_ok_def split: if_splits)
  moreover have "gs_finish_reason g = None \<Longrightarrow> session_cancel g =
       Inr \<lparr>ca_prompt = prompt, ca_token_ids = gs_generated g, ca_text = utf8_lossy decoder_rows (visible_bytes tf (gs_generated g))\<rparr>"
  proof -
    assume none: "gs_finish_reason g = None"
    then have o: "\<not> sd_finished (gs_decoder g)" and f: "foldl push_stream_byte ([], []) (visible_bytes tf (gs_generated g)) = (sd_pending (gs_decoder g), sd_text (gs_decoder g))"
      using out_text by (simp_all add: text_ok_def)
    have "sd_text (snd (decoder_finish (gs_decoder g))) = sd_text (gs_decoder g) @ finish_pending (sd_pending (gs_decoder g))"
      using o by (simp add: decoder_finish_def Let_def)
    then show ?thesis using stream_text [OF f] none ids(3) by (simp add: session_cancel_def)
  qed
  moreover have "gs_finish_reason g \<noteq> None \<Longrightarrow> sd_text (gs_decoder g) = utf8_lossy decoder_rows (visible_bytes tf (gs_generated g))"
    using out_text by (simp add: text_ok_def)
  moreover have "history_count (gs_occurrences g) [] t = count_list (gs_generated g) t mod U32_BOUND"
    if "\<not> is_identity (so_penalties (rq_sampling request))" for t
    using counts that by (simp add: counts_ok_def history_count_def count_list_0_iff)
  moreover have "gs_occurrences g = []" if "is_identity (so_penalties (rq_sampling request))"
    using counts that by (simp add: counts_ok_def)
  ultimately show ?thesis using ids tok
    by (auto simp: tokens_ok_def stopped_def into_output_def session_cancel_def)
qed

text \<open>A frontend of seven tokens, the last of them the stop token; the vocabulary row is larger.\<close>

definition sample_frontend :: text_frontend where
  "sample_frontend = \<lparr>fe_special = (\<lambda>k. k = 6), fe_id_to_token = sample_tokens, fe_byte_table = sample_table,
    fe_vocabulary = 7, fe_stop_ids = [6]\<rparr>"

definition sample_prompt :: prompt_encoding where
  "sample_prompt = \<lparr>pe_token_ids = [5], pe_message_boundary_tokens = 1, pe_reused_tokens = 0, pe_rendered_bytes = 2, pe_fresh_bytes = 2\<rparr>"

definition sample_request :: generation_request where
  "sample_request = \<lparr>rq_sampling = options_greedy, rq_max_new_tokens = 9,
    rq_tool_constraint = Some [\<lparr>tf_name = ''stop'', tf_parameters = []\<rparr>]\<rparr>"

abbreviation sample_generation :: "nat list" where
  "sample_generation \<equiv> [5, 0, 1, 2, 3, 4, 6]"

lemma sample_started: "\<exists>g0. session_start sample_frontend sample_prompt sample_request = Inr g0 \<and> gs_generated g0 = [] \<and>
    gs_finish_reason g0 = None \<and> session_ok sample_frontend sample_prompt sample_request sample_inventory [] g0"
proof -
  have "is_ok (sampler_new options_greedy [6])" by code_simp
  then obtain s where "sampler_new options_greedy [6] = Inr s" by (auto simp: is_ok_iff)
  then obtain g0 where g0: "session_start sample_frontend sample_prompt sample_request = Inr g0" "gs_generated g0 = []" "gs_finish_reason g0 = None"
    by (simp add: session_start_def sample_frontend_def sample_request_def tool_call_constraint_def sample_inventory_built)
  then obtain ti where ok: "session_ok sample_frontend sample_prompt sample_request ti [] g0" using session_start_ok by blast
  then have "ti = sample_inventory"
    by (simp add: session_ok_def constraint_ok_def sample_request_def sample_frontend_def sample_inventory_built)
  then show ?thesis using g0 ok by blast
qed

lemma sample_generation_ok:
  "\<forall>t\<in>set sample_generation. t < VOCABULARY \<and> token_decodes sample_frontend t"
  "is_ok (commit_tokens sample_generation (constraint_new sample_inventory [6] [\<lparr>tf_name = ''stop'', tf_parameters = []\<rparr>]))"
proof -
  show "\<forall>t\<in>set sample_generation. t < VOCABULARY \<and> token_decodes sample_frontend t"
    by (simp add: VOCABULARY_def token_decodes_def stopped_def sample_frontend_def sample_tokens_def sample_words_def sample_table_def list_all_iff)
  show "is_ok (commit_tokens sample_generation (constraint_new sample_inventory [6] [\<lparr>tf_name = ''stop'', tf_parameters = []\<rparr>]))"
    by code_simp
qed

lemma sample_session: "\<exists>g0 steps g. session_start sample_frontend sample_prompt sample_request = Inr g0 \<and>
    session_run fo sample_frontend g0 steps g \<and> gs_generated g = sample_generation"
proof -
  obtain g0 where g0: "session_start sample_frontend sample_prompt sample_request = Inr g0" "gs_generated g0 = []" "gs_finish_reason g0 = None"
    and ok: "session_ok sample_frontend sample_prompt sample_request sample_inventory [] g0" using sample_started by blast
  obtain tc where tc: "commit_tokens sample_generation (constraint_new sample_inventory [6] [\<lparr>tf_name = ''stop'', tf_parameters = []\<rparr>]) = Inr tc"
    using sample_generation_ok(2) by (auto simp: is_ok_iff)
  have "\<exists>steps' g'. session_run fo sample_frontend g0 steps' g' \<and> gs_generated g' = gs_generated g0 @ sample_generation"
    by (rule accept_tokens_total [OF ok run_start _ sample_generation_ok(1), where tc = tc])
      (use g0 tc in \<open>simp_all add: sample_request_def sample_frontend_def stopped_def\<close>)
  then show ?thesis using g0 by auto
qed

theorem session_is_its_tokens_witness:
  "\<exists>g0 steps g. session_start sample_frontend sample_prompt sample_request = Inr g0 \<and>
    session_run sample_ops sample_frontend g0 steps g \<and> map st_token_id steps = sample_generation \<and> gs_finish_reason g = Some FinishStop"
proof -
  obtain g0 steps g where s: "session_start sample_frontend sample_prompt sample_request = Inr g0"
      "session_run sample_ops sample_frontend g0 steps g" "gs_generated g = sample_generation"
    using sample_session by blast
  note claim = session_is_its_tokens [OF s(1,2)]
  have "gs_finish_reason g = Some FinishStop" using claim s(3) by (simp add: sample_frontend_def)
  then show ?thesis using claim s by metis
qed

section \<open>Selection\<close>

text \<open>C7: A session selects the best admitted token. At any point of a run the token that \<open>propose_logits\<close>
  selects is in the vocabulary and admitted by the tool-call constraint in the state after the provisional
  tokens. On the greedy route it is the first admitted token in the ranking of the row, penalised by the
  accepted and the provisional tokens, whether or not the unconstrained candidate was admitted; with identity
  penalties the row is ranked raw when its first token is admitted. A token selected without provisional
  tokens while the session is open is accepted when the tokenizer can decode it: \<open>accept_logits\<close> succeeds on
  that row. (A row without an admitted finite candidate selects nothing and is refused.)\<close>

theorem session_selects_best_allowed:
  assumes "session_start tf prompt request = Inr g0" and "session_run fo tf g0 steps g"
    and "propose_logits fo logits prov g = (Inr d, g')"
  shows "dec_token_id d < VOCABULARY \<and> session_filter g prov (dec_token_id d) \<and>
    (is_greedy (rq_sampling request) \<longrightarrow>
      dec_token_id d = hd (ranking fo (so_penalties (rq_sampling request)) (gs_occurrences g)
        (ranked_history fo (so_penalties (rq_sampling request)) logits prov g) (session_filter g prov) logits)) \<and>
    (prov = [] \<and> gs_finish_reason g = None \<and> token_decodes tf (dec_token_id d) \<longrightarrow> is_ok (fst (accept_logits fo tf logits g)))"
proof -
  obtain ti where "session_ok tf prompt request ti [] g0" using session_start_ok [OF assms(1)] by blast
  then have ok: "session_ok tf prompt request ti steps g" by (rule session_run_ok [OF assms(2)])
  then have opts: "sa_options (gs_sampler g) = rq_sampling request" "0 < so_top_k (rq_sampling request)" by (simp_all add: session_ok_def)
  have none: "is_identity (so_penalties (rq_sampling request)) \<Longrightarrow> gs_occurrences g = []" using ok by (simp add: session_ok_def counts_ok_def)
  note select = propose_select [OF _ assms(3), unfolded opts(1), OF opts(2)]
  have same: "same_but_random g g'" by (rule propose_random [OF assms(3)])
  have dec: "decision_for_token (gs_sampler g') (dec_token_id d) = Inr d"
    using select same_fields(9,10) [OF same] by (simp add: decision_for_token_def split: if_splits)
  have "is_ok (fst (accept_logits fo tf logits g))" if now: "prov = []" "gs_finish_reason g = None" "token_decodes tf (dec_token_id d)"
  proof -
    have "is_ok (fst (commit_token (dec_token_id d) tc))" if "gs_tool_constraint g' = Some tc" for tc
      using select that now(1) same_fields(7) [OF same]
      by (auto simp: session_filter_def provisional_state_def allows_token_def commit_token_def is_ok_def split: prod.splits sum.splits)
    then obtain step g2 where "accept_decision tf d g' = (Inr step, g2)"
      using accept_decision_total [OF session_ok_random [OF same ok] _ dec now(3)] now(2) same_fields(6) [OF same] by auto
    then show ?thesis using assms(3) now by (simp add: accept_logits_def)
  qed
  moreover have "dec_token_id d < VOCABULARY" using dec by (simp add: decision_for_token_def split: if_splits)
  ultimately show ?thesis using select none by auto
qed

lemma zero_row_first: "greedy_index zero_row = Inr 0"
proof -
  have v: "allowed_values fo p [] [] (\<lambda>_. True) zero_row = map (\<lambda>t. (t, 0)) [0..<VOCABULARY]" for fo p
    using zero_row_value [of _ fo p] by (simp add: allowed_values_def zero_row_def)
  have "map rank_key (map (\<lambda>t. (t, 0)) [0..<VOCABULARY]) = replicate VOCABULARY 0"
    by (simp add: comp_def rank_key_def f32_total_key_def map_replicate_const)
  then have "sorted (map rank_key (map (\<lambda>t. (t, 0)) [0..<VOCABULARY]))" by (simp only: sorted_replicate)
  then have "sort_key rank_key (map (\<lambda>t. (t, 0)) [0..<VOCABULARY]) = map (\<lambda>t. (t, 0)) [0..<VOCABULARY]" by (rule sort_key_id_if_sorted)
  moreover have "0 < VOCABULARY" by (simp add: VOCABULARY_def)
  then have "[0..<VOCABULARY] = 0 # [Suc 0..<VOCABULARY]" by (rule upt_conv_Cons)
  ultimately have first: "top_ranked 1 (allowed_values fo p [] [] (\<lambda>_. True) zero_row) = [(0, 0)]" for fo p
    by (simp add: v top_ranked_def)
  have "f32_finite 0" by code_simp
  then have "row_admitted fo p [] [] (\<lambda>_. True) zero_row" for fo p
    by (simp add: row_admitted_def v list_all_iff) (simp add: zero_row_def)
  then have "top_k_select zero_row 1 = Inr [(0, 0)]"
    using top_k_where_iff [of 1 _ zero_row _ "[]" "[]" "\<lambda>_. True"] first top_k_select_everywhere by (metis zero_less_one)
  then show ?thesis by (simp add: greedy_index_top)
qed

theorem session_selects_best_allowed_witness:
  "\<exists>g0 d g'. session_start sample_frontend sample_prompt sample_request = Inr g0 \<and>
    propose_logits sample_ops zero_row [] g0 = (Inr d, g') \<and> session_filter g0 [] (dec_token_id d) \<and>
    is_ok (fst (accept_logits sample_ops sample_frontend zero_row g0))"
proof -
  obtain g0 where g0: "session_start sample_frontend sample_prompt sample_request = Inr g0" "gs_generated g0 = []" "gs_finish_reason g0 = None"
    and ok: "session_ok sample_frontend sample_prompt sample_request sample_inventory [] g0" using sample_started by blast
  obtain tc where tc: "gs_tool_constraint g0 = Some tc" "tc = constraint_new sample_inventory [6] [\<lparr>tf_name = ''stop'', tf_parameters = []\<rparr>]"
    using ok g0(2) by (auto simp: session_ok_def constraint_ok_def sample_request_def sample_frontend_def)
  have allowed: "allows_token tc (Content []) 0" unfolding tc(2) by code_simp
  have "is_identity (so_penalties options_greedy)" by code_simp
  then have opts: "sa_options (gs_sampler g0) = options_greedy" "gs_occurrences g0 = []"
    using ok g0(2) by (auto simp: session_ok_def sample_request_def counts_ok_def split: if_splits)
  have greedy: "is_greedy options_greedy" by code_simp
  have row: "require_vocabulary_row zero_row = Inr ()" by (simp add: require_vocabulary_row_def zero_row_def)
  obtain d where d: "decision_for_token (gs_sampler g0) 0 = Inr d" by (simp add: decision_for_token_def VOCABULARY_def)
  have "sample_with_counts sample_ops zero_row [] [] (gs_sampler g0) = (Inr d, gs_sampler g0)"
    by (simp add: sample_with_counts_def row opts greedy conditioned_greedy_index_def zero_row_first selected_token_def U32_BOUND_def d)
  then have run: "propose_logits sample_ops zero_row [] g0 = (Inr d, g0)"
    using allowed tc decision_token [OF d]
    by (simp add: propose_logits_def constraint_state_def provisional_state_def opts greedy on_sampler_def constraint_allows_def constraint_new_def
        tool_call_state_default_def)
  have "token_decodes sample_frontend (dec_token_id d)" using sample_generation_ok(1) decision_token [OF d] by simp
  then show ?thesis using session_selects_best_allowed [OF g0(1) run_start run] g0 run by auto
qed

section \<open>A stopped session\<close>

text \<open>What the tokenizer documents of its vocabulary: \<open>get_vocab_size(true)\<close> counts the ids it has a token
  for, the special ones included. An inventory that was built has a token for every id below that number, so
  no id at or past it has one.\<close>

definition vocabulary_counted :: "text_frontend \<Rightarrow> bool" where
  "vocabulary_counted tf \<longleftrightarrow> finite {k. fe_special tf k \<or> fe_id_to_token tf k \<noteq> None} \<and>
    fe_vocabulary tf = card {k. fe_special tf k \<or> fe_id_to_token tf k \<noteq> None}"

lemma vocabulary_dense:
  assumes "vocabulary_counted tf"
    and "inventory_build (fe_vocabulary tf) (fe_special tf) (fe_id_to_token tf) (fe_byte_table tf) = Inr ti"
  shows "{k. fe_special tf k \<or> fe_id_to_token tf k \<noteq> None} = {..<fe_vocabulary tf}"
proof -
  have "{..<fe_vocabulary tf} \<subseteq> {k. fe_special tf k \<or> fe_id_to_token tf k \<noteq> None}"
    using inventory_known [OF assms(2)] by auto
  then show ?thesis using assms(1) card_subset_eq [of "{k. fe_special tf k \<or> fe_id_to_token tf k \<noteq> None}" "{..<fe_vocabulary tf}"]
    by (simp add: vocabulary_counted_def)
qed

lemma stopped_session_run:
  assumes "tools_admitted tools" and "rq_tool_constraint request = Some tools" and "vocabulary_counted tf"
    and "session_ok tf prompt request ti steps g" and "gs_finish_reason g = Some FinishStop" and "into_output g = Inr out"
    and "utf8_valid decoder_rows (visible_bytes tf (gs_generated g))"
  shows "\<exists>st. runs tools (gt_text out) tool_call_state_default st \<and> ((\<exists>m. st = Content m) \<or> (\<exists>pre. st = AfterCall pre))"
proof -
  have tools: "tools_ok tools" by (rule tools_admitted_ok [OF assms(1)])
  note ok = assms(4)
  have gen: "gs_generated g \<noteq> []" "last (gs_generated g) \<in> set (fe_stop_ids tf)"
    using ok assms(5) by (auto simp: session_ok_def reason_of_def completion_reason_def stopped_def split: if_splits)
  let ?ts = "butlast (gs_generated g)" and ?c = "constraint_new ti (fe_stop_ids tf) tools"
  have split: "gs_generated g = ?ts @ [last (gs_generated g)]" using gen(1) by simp
  have open_ts: "\<forall>t\<in>set ?ts. t \<notin> set (fe_stop_ids tf)" using ok by (simp add: session_ok_def tokens_ok_def stopped_def)
  obtain tc where inv: "inventory_build (fe_vocabulary tf) (fe_special tf) (fe_id_to_token tf) (fe_byte_table tf) = Inr ti"
    and tc: "commit_tokens (?ts @ [last (gs_generated g)]) ?c = Inr tc"
    using ok assms(2) split by (auto simp: session_ok_def constraint_ok_def)
  have new: "tc_compiled ?c = compiled_spec_new tools" "tc_stop_ids ?c = fe_stop_ids tf" "tc_tokens ?c = ti" "tc_committed ?c = tool_call_state_default"
    by (simp_all add: constraint_new_def)
  obtain st where st: "advance_tokens ?c ?ts tool_call_state_default = Inr st" and stop: "is_ok (fst (advance_token ?c st (last (gs_generated g))))"
    using tc new(4) by (auto simp: commit_tokens_advance advance_tokens_append map_sum_def rbind_Inr_iff is_ok_def split: sum.splits prod.splits)
  have "runs tools ([] @ token_text (tc_tokens ?c) ?ts) tool_call_state_default st"
    by (rule advance_tokens_runs [OF tools new(1) _ _ st]) (use open_ts new in auto)
  then have run: "runs tools (token_text ti ?ts) tool_call_state_default st" using new(3) by simp
  have "fe_special tf k \<or> fe_id_to_token tf k \<noteq> None \<longleftrightarrow> k < fe_vocabulary tf" for k
    using vocabulary_dense [OF assms(3) inv] by blast
  then have bytes: "inventory_bytes ti k = token_meaning (fe_special tf) (fe_id_to_token tf) (fe_byte_table tf) k" for k
    using inventory_lookup [OF inv, of k] by (cases "fe_id_to_token tf k") (auto simp: token_meaning_def)
  have "filter (\<lambda>t. t \<notin> set (fe_stop_ids tf)) (gs_generated g) = ?ts"
    using split open_ts gen(2) by (metis (mono_tags, lifting) append_Nil2 filter.simps(1,2) filter_True filter_append)
  then have visible: "visible_bytes tf (gs_generated g) = token_text ti ?ts"
    by (simp add: visible_bytes_def meaning_text_def token_text_def bytes)
  have "gt_text out = sd_text (gs_decoder g)" using assms(5,6) by (auto simp: into_output_def)
  also have "\<dots> = utf8_lossy decoder_rows (visible_bytes tf (gs_generated g))" using ok assms(5) by (simp add: session_ok_def text_ok_def)
  finally have "gt_text out = token_text ti ?ts" using valid_lossy [OF assms(7)] visible by simp
  moreover have "(\<exists>m. st = Content m) \<or> (\<exists>pre. st = AfterCall pre)"
    using stop gen(2) new(2) runs_not_stopped [OF tools run] by (cases st) (simp_all add: advance_token_def)
  ultimately show ?thesis using run by auto
qed

text \<open>C5: What a stopped session wrote, the response parser reads. Take a request with an admitted tool-call
  constraint, on a tokenizer whose vocabulary size counts the ids it has a token for, and any run of its
  session that ended at a stop token and whose bytes are valid for the decoder's table (UTF-8 without the
  characters whose second byte is 80 to 8F after a lead of F1 to F3: planes 4, 8 and 12). Then the output text has no opening marker and the parser returns it whole,
  without calls; or it is content followed by written calls, whitespace and at most a strict start of another
  marker, and when that start is empty the parser returns exactly these calls. Apart from
  that start a stop leaves no call half written.\<close>

theorem stopped_session_parses:
  assumes "tools_admitted tools" and "rq_tool_constraint request = Some tools" and "vocabulary_counted tf"
    and "session_start tf prompt request = Inr g0" and "session_run fo tf g0 steps g"
    and "gs_finish_reason g = Some FinishStop" and "into_output g = Inr out"
    and "utf8_valid decoder_rows (visible_bytes tf (gs_generated g))"
  shows "(free_of [CALL_OPEN] (gt_text out) \<and>
      parse_assistant_output_constrained json (gt_text out) sr tools False = whole_output (think_split sr (gt_text out)) [] False False) \<or>
    (\<exists>content cs ws pre. cs \<noteq> [] \<and> calls_valid tools content cs \<and> blank ws \<and> strict_prefix pre CALL_OPEN \<and>
      gt_text out = content @ calls_text tools cs @ ws @ pre \<and>
      (pre = [] \<longrightarrow> parse_assistant_output_constrained json (gt_text out) sr tools False =
        whole_output (think_split sr content) (map (call_meaning json tools) cs) False False))"
proof -
  have tools: "tools_ok tools" by (rule tools_admitted_ok [OF assms(1)])
  obtain ti where "session_ok tf prompt request ti [] g0" using session_start_ok [OF assms(4)] by blast
  then have "session_ok tf prompt request ti steps g" by (rule session_run_ok [OF assms(5)])
  then obtain st where run: "runs tools (gt_text out) tool_call_state_default st"
    and "(\<exists>m. st = Content m) \<or> (\<exists>pre. st = AfterCall pre)"
    using stopped_session_run [OF assms(1-3) _ assms(6-8)] by blast
  note this(2)
  then show ?thesis
  proof (elim disjE exE)
    fix m assume "st = Content m"
    then have free: "free_of [CALL_OPEN] (gt_text out)" using describes_run [OF tools describes_start run] by simp
    have "\<not> prefix CALL_OPEN (drop j (gt_text out))" for j
      using free sublist_order.order.trans [OF prefix_imp_sublist sublist_drop] by (auto simp: free_of_def)
    then have "find_str CALL_OPEN (gt_text out) = None" by (simp add: find_str_None CALL_OPEN_def)
    then show ?thesis using free constrained_spec [of json "gt_text out" sr tools False] by (simp add: assistant_spec_def)
  next
    fix pre assume pre: "st = AfterCall pre"
    obtain content cs ws where w: "cs \<noteq> []" "calls_valid tools content cs" "blank ws" "gt_text out = content @ calls_text tools cs @ ws @ pre"
      "pre = [] \<or> strict_prefix pre CALL_OPEN" using written_text [OF tools run [unfolded pre]] by auto
    show ?thesis
    proof (cases "pre = []")
      case True
      have "strict_prefix [] CALL_OPEN" by (simp add: CALL_OPEN_def)
      moreover have "\<exists>content cs ws. cs \<noteq> [] \<and> calls_valid tools content cs \<and> blank ws \<and> gt_text out = content @ calls_text tools cs @ ws \<and>
          parse_assistant_output_constrained json (gt_text out) sr tools False =
            whole_output (think_split sr content) (map (call_meaning json tools) cs) False False"
        by (rule written_parses [OF tools]) (use run pre True in simp)
      ultimately show ?thesis by (metis append_Nil2)
    qed (use w in blast)
  qed
qed

lemma sample_counted: "vocabulary_counted sample_frontend"
proof -
  have "{k. fe_special sample_frontend k \<or> fe_id_to_token sample_frontend k \<noteq> None} = {..<7}"
    by (auto simp: sample_frontend_def sample_tokens_def sample_words_def)
  then show ?thesis by (simp add: vocabulary_counted_def sample_frontend_def)
qed

lemma sample_visible: "visible_bytes sample_frontend sample_generation = ''hi<tool_call><function=stop></function></tool_call>''"
  by code_simp

theorem stopped_session_parses_witness:
  "\<exists>g0 steps g out. session_start sample_frontend sample_prompt sample_request = Inr g0 \<and>
    session_run sample_ops sample_frontend g0 steps g \<and> into_output g = Inr out \<and>
    (\<exists>content cs ws pre. cs \<noteq> [] \<and> blank ws \<and> gt_text out = content @ calls_text [\<lparr>tf_name = ''stop'', tf_parameters = []\<rparr>] cs @ ws @ pre)"
proof -
  let ?tools = "[\<lparr>tf_name = ''stop'', tf_parameters = []\<rparr>]"
  obtain g0 steps g where s: "session_start sample_frontend sample_prompt sample_request = Inr g0"
      "session_run sample_ops sample_frontend g0 steps g" "gs_generated g = sample_generation"
    using sample_session by blast
  obtain ti where "session_ok sample_frontend sample_prompt sample_request ti [] g0" using session_start_ok [OF s(1)] by blast
  then have ok: "session_ok sample_frontend sample_prompt sample_request ti steps g" by (rule session_run_ok [OF s(2)])
  have stop: "gs_finish_reason g = Some FinishStop"
    using ok s(3) by (simp add: session_ok_def reason_of_def completion_reason_def stopped_def sample_frontend_def)
  then obtain out where out: "into_output g = Inr out" by (simp add: into_output_def)
  have valid: "utf8_valid decoder_rows (visible_bytes sample_frontend (gs_generated g))"
    unfolding s(3) sample_visible by (rule ascii_valid) simp
  have "gt_text out = sd_text (gs_decoder g)" using out stop by (auto simp: into_output_def)
  then have text_eq: "gt_text out = ''hi<tool_call><function=stop></function></tool_call>''"
    using ok stop s(3) valid_lossy [OF valid] sample_visible by (simp add: session_ok_def text_ok_def)
  have "sublist CALL_OPEN (''hi'' @ CALL_OPEN @ ''<function=stop></function></tool_call>'')" by (rule sublist_appendI)
  then have "\<not> free_of [CALL_OPEN] (gt_text out)" by (simp add: text_eq free_of_def CALL_OPEN_def)
  moreover have "rq_tool_constraint sample_request = Some ?tools" by (simp add: sample_request_def)
  moreover have "vocabulary_counted sample_frontend" by (rule sample_counted)
  ultimately have "\<exists>content cs ws pre. cs \<noteq> [] \<and> blank ws \<and> gt_text out = content @ calls_text ?tools cs @ ws @ pre"
    using stopped_session_parses [OF sample_commit(1) _ _ s(1,2) stop out valid, of sample_json True] by blast
  then show ?thesis using s(1,2) out by blast
qed

end
