(* ===== verification/EngineState.thy ===== *)
theory EngineState
  imports Prelude
begin

text \<open>
  Methods that thread a state and may fail, as functions from the state to a result and the state after.
  The state is kept on the error path.
\<close>

type_synonym ('s, 'a) stateful = "'s \<Rightarrow> 'a engine_result \<times> 's"

definition mreturn :: "'a \<Rightarrow> ('s, 'a) stateful" where
  "mreturn a s = (Inr a, s)"

definition mfail :: "engine_error \<Rightarrow> ('s, 'a) stateful" where
  "mfail e s = (Inl e, s)"

text \<open>The \<open>?\<close> operator: the rest runs only after success.\<close>

definition mbind :: "('s, 'a) stateful \<Rightarrow> ('a \<Rightarrow> ('s, 'b) stateful) \<Rightarrow> ('s, 'b) stateful" where
  "mbind f k s = (case f s of (Inl e, s) \<Rightarrow> (Inl e, s) | (Inr a, s) \<Rightarrow> k a s)"

definition mlift :: "'a engine_result \<Rightarrow> ('s, 'a) stateful" where
  "mlift r s = (r, s)"

definition mget :: "('s \<Rightarrow> 'a) \<Rightarrow> ('s, 'a) stateful" where
  "mget f s = (Inr (f s), s)"

definition mmodify :: "('s \<Rightarrow> 's) \<Rightarrow> ('s, unit) stateful" where
  "mmodify f s = (Inr (), f s)"

definition mwhen :: "bool \<Rightarrow> ('s, unit) stateful \<Rightarrow> ('s, unit) stateful" where
  "mwhen b m = (if b then m else mreturn ())"

text \<open>A method on a part of the state, given its reader and its writer.\<close>

definition mpart :: "('s \<Rightarrow> 't) \<Rightarrow> ('t \<Rightarrow> 's \<Rightarrow> 's) \<Rightarrow> ('t, 'a) stateful \<Rightarrow> ('s, 'a) stateful" where
  "mpart get put m s = (case m (get s) of (r, t) \<Rightarrow> (r, put t s))"

named_theorems method_ok \<open>a successful method, taken apart\<close>

lemma mreturn_ok [method_ok]: "mreturn a s = (Inr b, s') \<longleftrightarrow> b = a \<and> s' = s"
  by (auto simp: mreturn_def)

lemma mfail_ok [method_ok]: "mfail e s = (Inr b, s') \<longleftrightarrow> False"
  by (simp add: mfail_def)

lemma mbind_ok [method_ok]: "mbind f k s = (Inr b, s') \<longleftrightarrow> (\<exists>a t. f s = (Inr a, t) \<and> k a t = (Inr b, s'))"
  by (auto simp: mbind_def split: prod.splits sum.splits)

lemma mlift_ok [method_ok]: "mlift r s = (Inr b, s') \<longleftrightarrow> r = Inr b \<and> s' = s"
  by (auto simp: mlift_def)

lemma mget_ok [method_ok]: "mget f s = (Inr b, s') \<longleftrightarrow> b = f s \<and> s' = s"
  by (auto simp: mget_def)

lemma mmodify_ok [method_ok]: "mmodify f s = (Inr b, s') \<longleftrightarrow> s' = f s"
  by (auto simp: mmodify_def)

lemma mwhen_ok [method_ok]: "mwhen b m s = (Inr u, s') \<longleftrightarrow> (if b then m s = (Inr u, s') else s' = s)"
  by (auto simp: mwhen_def mreturn_def)

lemma mpart_ok [method_ok]: "mpart get put m s = (Inr b, s') \<longleftrightarrow> (\<exists>t. m (get s) = (Inr b, t) \<and> s' = put t s)"
  by (auto simp: mpart_def split: prod.splits)

lemma mbind_return [simp]: "mbind (mreturn a) k = k a"
  by (simp add: mbind_def mreturn_def fun_eq_iff)

text \<open>A method called \<open>n\<close> times in a row.\<close>

fun mrepeat :: "nat \<Rightarrow> ('s, 'a) stateful \<Rightarrow> ('s, 'a list) stateful" where
  "mrepeat 0 m = mreturn []"
| "mrepeat (Suc n) m = mbind m (\<lambda>a. mbind (mrepeat n m) (\<lambda>as. mreturn (a # as)))"

lemma mrepeat_length: "mrepeat n m s = (Inr xs, t) \<Longrightarrow> length xs = n"
  by (induction n arbitrary: s xs) (auto simp: method_ok)

lemma mrepeat_append:
  "mrepeat n m s = (Inr xs, t) \<Longrightarrow> mrepeat k m t = (Inr ys, u) \<Longrightarrow> mrepeat (n + k) m s = (Inr (xs @ ys), u)"
proof (induction n arbitrary: s xs)
  case (Suc n)
  then obtain x v ws where "m s = (Inr x, v)" and rest: "mrepeat n m v = (Inr ws, t)" and "xs = x # ws" by (auto simp: method_ok)
  then show ?case using Suc.IH [OF rest Suc.prems(2)] by (auto simp: method_ok)
qed (simp add: method_ok)

lemma mrepeat_snoc: "mrepeat n m s = (Inr xs, t) \<Longrightarrow> m t = (Inr y, u) \<Longrightarrow> mrepeat (Suc n) m s = (Inr (xs @ [y]), u)"
  using mrepeat_append [of n m s xs t 1 "[y]" u] by (simp add: method_ok)

lemma mrepeat_split:
  "mrepeat (Suc n) m s = (Inr zs, u) \<longleftrightarrow> (\<exists>x xs t. m s = (Inr x, t) \<and> mrepeat n m t = (Inr xs, u) \<and> zs = x # xs)"
  by (auto simp: method_ok)

lemma mrepeat_snocE:
  assumes "mrepeat (Suc n) m s = (Inr zs, u)"
  obtains xs x t where "mrepeat n m s = (Inr xs, t)" "m t = (Inr x, u)" "zs = xs @ [x]"
  using assms
proof (induction n arbitrary: s zs thesis)
  case (Suc n)
  then obtain x t xs where first: "m s = (Inr x, t)" and rest: "mrepeat (Suc n) m t = (Inr xs, u)" "zs = x # xs"
    unfolding mrepeat_split [of "Suc n"] by blast
  obtain ys y v where "mrepeat n m t = (Inr ys, v)" "m v = (Inr y, u)" "xs = ys @ [y]" using Suc.IH [OF _ rest(1)] by blast
  then show ?case using Suc.prems(1) [of "x # ys" v y] first rest(2) by (auto simp: method_ok)
qed (auto simp: method_ok)

lemma mbind_eq: "f s = (Inr a, t) \<Longrightarrow> mbind f k s = k a t"
  by (simp add: mbind_def)

end
