(* ===== verification/TargetProgram.thy ===== *)
theory TargetProgram
  imports EngineState Generation
begin

text \<open>
  The resident target-plus-MTP program of Qwen3.8 as its host code sees it: a device that executes calls
  and returns logit rows (\<open>qwen38/resident_mtp.rs\<close>, \<open>qwen38/resident_model.rs\<close>). What a call does on the device
  is a parameter. A pair of calls that the code always makes together, a checked upload that returns a
  route and the replay of that route, is one call here; rotary tables are functions of the positions and
  are left out, their pos checks are not.

  The prompt is primed as in \<open>qwen38/text_generation.rs\<close> (target only) and
  \<open>qwen38/resident_mtp_generation.rs\<close> (target and draft model).
\<close>

datatype program_call =
    RecycleKvSlot nat
  | ResetSlot nat
  | ActivateKvSlot nat
  | ReserveKvSlot nat nat
  | LoadSlotRoutes "nat list"
  | StageEmbeddings "nat list"
  | TargetDecode nat
  | TargetPrefill nat nat nat
  | TargetVerify nat nat nat
  | TargetCommit nat nat
  | MtpDraft nat nat nat
  | MtpContinueDraft nat nat nat
  | MtpContinuation nat nat nat "bf16 list"
  | MtpPrompt nat nat nat "nat list"
  | MtpPrime nat nat nat "nat list"
  | MtpRealign nat nat nat "nat list"

text \<open>
  \<open>read_target n\<close> downloads \<open>n\<close> target rows, \<open>read_draft i\<close> draft row \<open>i\<close>. \<open>capacity\<close> is \<open>context_capacity\<close>.
\<close>

record 'd program =
  exec_call :: "program_call \<Rightarrow> ('d, unit) stateful"
  read_target :: "nat \<Rightarrow> 'd \<Rightarrow> bf16 list engine_result"
  read_draft :: "nat \<Rightarrow> 'd \<Rightarrow> bf16 list engine_result"
  capacity :: nat

text \<open>\<open>common/slots.rs\<close> and \<open>common/mtp.rs\<close>: the two checks differ in their messages only.\<close>

definition require_generation_capacity :: "nat \<Rightarrow> nat \<Rightarrow> nat \<Rightarrow> nat engine_result" where
  "require_generation_capacity prompt_tokens maximum_new_tokens context_capacity =
    (if prompt_tokens = 0 then Inl (generation_error ''resident generation requires a nonempty prompt'')
     else case checked_add prompt_tokens (maximum_new_tokens - 1) of
       None \<Rightarrow> Inl (generation_error ''generation token budget overflows'')
     | Some evaluated \<Rightarrow>
        if evaluated > context_capacity then Inl (generation_error ''prompt plus processed generation exceeds the resident capacity'')
        else Inr evaluated)"

definition require_mtp_capacity :: "nat \<Rightarrow> nat \<Rightarrow> nat \<Rightarrow> nat engine_result" where
  "require_mtp_capacity prompt_tokens maximum_new_tokens context_capacity =
    (if prompt_tokens = 0 then Inl (generation_error ''resident MTP generation requires a nonempty prompt'')
     else case checked_add prompt_tokens (maximum_new_tokens - 1) of
       None \<Rightarrow> Inl (generation_error ''resident MTP token budget overflows'')
     | Some evaluated \<Rightarrow>
        if evaluated > context_capacity then Inl (generation_error ''prompt plus processed MTP generation exceeds the resident capacity'')
        else Inr evaluated)"

definition next_native_prefill_tile :: "nat \<Rightarrow> nat option" where
  "next_native_prefill_tile remaining =
    (if 1024 \<le> remaining then Some 1024
     else if 128 \<le> remaining then Some 128
     else if 64 \<le> remaining then Some 64
     else if 32 \<le> remaining then Some 32
     else None)"

lemma next_tile_bounds: "next_native_prefill_tile n = Some t \<Longrightarrow> 0 < t \<and> t \<le> n \<and> t \<le> 1024"
  by (auto simp: next_native_prefill_tile_def split: if_splits)

lemma next_tile_None: "next_native_prefill_tile n = None \<longleftrightarrow> n < 32"
  by (auto simp: next_native_prefill_tile_def)

definition MAX_NATIVE_PREFILL_TOKENS :: nat where "MAX_NATIVE_PREFILL_TOKENS = 1024"

text \<open>\<open>fill_contiguous_rope\<close>: only its checks; \<open>text_rope\<close> takes a \<open>u32\<close> position.\<close>

definition contiguous_rope :: "nat \<Rightarrow> nat \<Rightarrow> unit engine_result" where
  "contiguous_rope first_position rows =
    (if rows = 0 \<or> rows > MAX_NATIVE_PREFILL_TOKENS then Inl (route_error ''resident MTP rotary rows are out of range'')
     else if U32_BOUND \<le> first_position + (rows - 1) then Inl (generation_error ''resident MTP pos exceeds u32'')
     else Inr ())"

definition position_u32 :: "string \<Rightarrow> nat \<Rightarrow> unit engine_result" where
  "position_u32 message pos = (if U32_BOUND \<le> pos then Inl (generation_error message) else Inr ())"

section \<open>Priming the target\<close>

definition replay_token :: "'d program \<Rightarrow> nat \<Rightarrow> nat \<Rightarrow> ('d, unit) stateful" where
  "replay_token prog token pos =
    mbind (exec_call prog (StageEmbeddings [token])) (\<lambda>_. exec_call prog (TargetDecode pos))"

definition replay_prefill_tile :: "'d program \<Rightarrow> nat list \<Rightarrow> nat \<Rightarrow> nat \<Rightarrow> ('d, unit) stateful" where
  "replay_prefill_tile prog tokens slot first_position =
    mbind (mlift (if tokens = [] then Inr ()
                  else position_u32 ''prompt position exceeds the exact route width'' (first_position + (length tokens - 1)))) (\<lambda>_.
    mbind (exec_call prog (StageEmbeddings tokens)) (\<lambda>_.
    exec_call prog (TargetPrefill (length tokens) slot first_position)))"

text \<open>The tile loop of \<open>qwen38/text_generation.rs\<close>; it returns the cursor after the last tile.\<close>

function prime_tiles :: "'d program \<Rightarrow> nat list \<Rightarrow> nat \<Rightarrow> nat \<Rightarrow> ('d, nat) stateful" where
  "prime_tiles prog token_ids slot cursor =
    (case next_native_prefill_tile (length token_ids - cursor) of
       None \<Rightarrow> mreturn cursor
     | Some tokens \<Rightarrow>
        mbind (replay_prefill_tile prog (take tokens (drop cursor token_ids)) slot cursor) (\<lambda>_.
        prime_tiles prog token_ids slot (cursor + tokens)))"
  by pat_completeness auto

termination
  by (relation "measure (\<lambda>(prog, token_ids, slot, cursor). length token_ids - cursor)")
    (auto dest!: next_tile_bounds)

declare prime_tiles.simps [simp del]

fun prime_singles :: "'d program \<Rightarrow> nat list \<Rightarrow> nat \<Rightarrow> ('d, unit) stateful" where
  "prime_singles prog [] pos = mreturn ()"
| "prime_singles prog (token # tokens) pos =
    mbind (mlift (position_u32 ''prompt position exceeds the exact route width'' pos)) (\<lambda>_.
    mbind (replay_token prog token pos) (\<lambda>_. prime_singles prog tokens (pos + 1)))"

definition prime_prompt :: "'d program \<Rightarrow> nat list \<Rightarrow> nat \<Rightarrow> nat \<Rightarrow> ('d, nat) stateful" where
  "prime_prompt prog token_ids slot processed_prefix =
    (if processed_prefix > length token_ids
     then mfail (generation_error ''resident processed prefix exceeds its prompt'')
     else
       mbind (prime_tiles prog token_ids slot processed_prefix) (\<lambda>cursor.
       mbind (prime_singles prog (drop cursor token_ids) cursor) (\<lambda>_. mreturn (cursor - processed_prefix))))"

definition prime_single_slot :: "'d program \<Rightarrow> nat list \<Rightarrow> nat \<Rightarrow> ('d, nat) stateful" where
  "prime_single_slot prog token_ids required_positions =
    mbind (exec_call prog (RecycleKvSlot 0)) (\<lambda>_.
    mbind (exec_call prog (ResetSlot 0)) (\<lambda>_.
    mbind (exec_call prog (ActivateKvSlot 0)) (\<lambda>_.
    mbind (exec_call prog (ReserveKvSlot 0 required_positions)) (\<lambda>_.
    mbind (exec_call prog (LoadSlotRoutes [0])) (\<lambda>_.
    prime_prompt prog token_ids 0 0)))))"

section \<open>Priming target and draft model\<close>

definition replay_target_token :: "'d program \<Rightarrow> nat \<Rightarrow> nat \<Rightarrow> ('d, unit) stateful" where
  "replay_target_token prog token pos =
    mbind (mlift (position_u32 ''resident MTP prompt position exceeds u32'' pos)) (\<lambda>_. replay_token prog token pos)"

text \<open>The rotary tables of a tile are filled before \<open>replay_prefill_tile\<close> stages it.\<close>

definition mtp_prefill_tile :: "'d program \<Rightarrow> nat list \<Rightarrow> nat \<Rightarrow> nat \<Rightarrow> nat \<Rightarrow> ('d, unit) stateful" where
  "mtp_prefill_tile prog tokens slot first_position rows =
    mbind (mlift (contiguous_rope first_position rows)) (\<lambda>_.
    mbind (exec_call prog (StageEmbeddings tokens)) (\<lambda>_.
    exec_call prog (TargetPrefill (length tokens) slot first_position)))"

text \<open>
  The first loop of \<open>prime_prompt_with_progress\<close>; it returns the cursor and the native tokens. The prompt of the
  draft model is the target's shifted by one. \<open>progress\<close> is the caller's callback.
\<close>

function mtp_prime_tiles :: "'d program \<Rightarrow> (nat \<Rightarrow> unit engine_result) \<Rightarrow> nat list \<Rightarrow> nat \<Rightarrow> nat \<Rightarrow> nat \<Rightarrow> nat \<Rightarrow> ('d, nat \<times> nat) stateful" where
  "mtp_prime_tiles prog progress token_ids slot primed cursor native =
    (case next_native_prefill_tile (primed - cursor) of
       None \<Rightarrow> mreturn (cursor, native)
     | Some tokens \<Rightarrow>
        mbind (mtp_prefill_tile prog (take tokens (drop cursor token_ids)) slot cursor tokens) (\<lambda>_.
        mbind (exec_call prog (MtpPrompt tokens slot cursor (take tokens (drop (cursor + 1) token_ids)))) (\<lambda>_.
        mbind (mlift (progress (cursor + tokens))) (\<lambda>_.
        mtp_prime_tiles prog progress token_ids slot primed (cursor + tokens) (native + tokens)))))"
  by pat_completeness auto

termination
  by (relation "measure (\<lambda>(prog, progress, token_ids, slot, primed, cursor, native). primed - cursor)")
    (auto dest!: next_tile_bounds)

declare mtp_prime_tiles.simps [simp del]

function mtp_prime_singles :: "'d program \<Rightarrow> (nat \<Rightarrow> unit engine_result) \<Rightarrow> nat list \<Rightarrow> nat \<Rightarrow> nat \<Rightarrow> nat \<Rightarrow> ('d, nat) stateful" where
  "mtp_prime_singles prog progress token_ids slot primed cursor =
    (if cursor < primed
     then
       mbind (replay_target_token prog (token_ids ! cursor) cursor) (\<lambda>_.
       mbind (mlift (position_u32 ''resident MTP prompt position exceeds u32'' cursor)) (\<lambda>_.
       mbind (exec_call prog (MtpPrompt 1 slot cursor [token_ids ! (cursor + 1)])) (\<lambda>_.
       mbind (mlift (progress (cursor + 1))) (\<lambda>_.
       mtp_prime_singles prog progress token_ids slot primed (cursor + 1)))))
     else mreturn cursor)"
  by pat_completeness auto

termination by (relation "measure (\<lambda>(prog, progress, token_ids, slot, primed, cursor). primed - cursor)") auto

declare mtp_prime_singles.simps [simp del]

definition mtp_prime_prompt_with_progress ::
  "'d program \<Rightarrow> (nat \<Rightarrow> unit engine_result) \<Rightarrow> nat list \<Rightarrow> nat \<Rightarrow> nat \<Rightarrow> bf16 list option \<Rightarrow> ('d, nat) stateful" where
  "mtp_prime_prompt_with_progress prog progress token_ids slot processed_prefix boundary_hidden =
    (if token_ids = [] then mfail (generation_error ''resident MTP generation requires a nonempty prompt'')
     else if processed_prefix > length token_ids
     then mfail (generation_error ''resident MTP processed prefix exceeds its prompt'')
     else if processed_prefix = length token_ids then mreturn 0
     else
       mbind (if processed_prefix \<noteq> 0
              then
                mbind (mlift (ok_or boundary_hidden (generation_error ''resident MTP prefix reuse has no boundary hidden row''))) (\<lambda>hidden.
                mbind (mlift (position_u32 ''resident MTP prefix boundary exceeds u32'' (processed_prefix - 1))) (\<lambda>_.
                exec_call prog (MtpContinuation slot (processed_prefix - 1) (token_ids ! processed_prefix) hidden)))
              else mreturn ()) (\<lambda>_.
       let primed = length token_ids - 1 in
       mbind (mtp_prime_tiles prog progress token_ids slot primed processed_prefix 0) (\<lambda>(cursor, native).
       mbind (mtp_prime_singles prog progress token_ids slot primed cursor) (\<lambda>_.
       mbind (replay_target_token prog (token_ids ! primed) primed) (\<lambda>_. mreturn native)))))"

definition mtp_prime_prompt :: "'d program \<Rightarrow> nat list \<Rightarrow> nat \<Rightarrow> nat \<Rightarrow> bf16 list option \<Rightarrow> ('d, nat) stateful" where
  "mtp_prime_prompt prog token_ids slot processed_prefix boundary_hidden =
    mtp_prime_prompt_with_progress prog (\<lambda>_. Inr ()) token_ids slot processed_prefix boundary_hidden"

end
