(* ===== verification/Mtp.thy ===== *)
theory Mtp
  imports TargetProgram PagedRows
begin

text \<open>
  The decisions of a speculative round, \<open>crates/tuisko-engine/src/common/mtp.rs\<close>: which drafted tokens one
  verified transaction commits, for the single slot and for one lane of the compact batch.
\<close>

definition DRAFT_WINDOW :: nat where "DRAFT_WINDOW = 3"
definition VERIFY_ROWS :: nat where "VERIFY_ROWS = 4"

section \<open>Sampled decisions\<close>

record sampled_round =
  sr_tokens :: "nat list"
  sr_committed :: nat
  sr_accepted :: nat

definition round_token_ids :: "sampled_round \<Rightarrow> nat list" where
  "round_token_ids r = take (sr_committed r) (sr_tokens r)"

definition round_push :: "nat \<Rightarrow> sampled_round \<Rightarrow> sampled_round" where
  "round_push token r = r\<lparr>sr_tokens := (sr_tokens r)[sr_committed r := token], sr_committed := sr_committed r + 1\<rparr>"

text \<open>The loop over the drafts: \<open>Inl\<close> of the inner result is an early return of the round.\<close>

fun sampled_tokens_loop ::
  "float_ops \<Rightarrow> nat list \<Rightarrow> (nat \<times> sampling_distribution \<times> sampling_distribution \<times> f64 \<times> f64) list \<Rightarrow> sampled_round \<Rightarrow>
   (sampled_round + sampled_round) engine_result" where
  "sampled_tokens_loop fo stop_ids [] r = Inr (Inr r)"
| "sampled_tokens_loop fo stop_ids ((draft, target_law, draft_law, acceptance_unit, residual_unit) # rows) r =
    rbind (speculative_decision fo draft target_law draft_law acceptance_unit residual_unit) (\<lambda>decision.
      let r = round_push (sc_token_id decision) r in
      if \<not> sc_accepted decision then Inr (Inl r)
      else
        let r = r\<lparr>sr_accepted := sr_accepted r + 1\<rparr> in
        if sc_token_id decision \<in> set stop_ids then Inr (Inl r)
        else sampled_tokens_loop fo stop_ids rows r)"

definition decide_sampled_tokens ::
  "float_ops \<Rightarrow> nat list \<Rightarrow> sampling_distribution list \<Rightarrow> sampling_distribution list \<Rightarrow> nat list \<Rightarrow> f64 list \<Rightarrow> f64 list \<Rightarrow> f64 \<Rightarrow>
   sampled_round engine_result" where
  "decide_sampled_tokens fo drafts target_laws draft_laws stop_ids acceptance_units residual_units bonus_unit =
    (let extent = length drafts in
     if \<not> (1 \<le> extent \<and> extent \<le> DRAFT_WINDOW) \<or> length target_laws \<noteq> extent + 1 \<or> length draft_laws \<noteq> extent \<or>
        length acceptance_units \<noteq> extent \<or> length residual_units \<noteq> extent
     then Inl (generation_error ''sampled MTP round inventory differs'')
     else
       rbind (sampled_tokens_loop fo stop_ids
           (zip drafts (zip target_laws (zip draft_laws (zip acceptance_units residual_units))))
           \<lparr>sr_tokens = replicate VERIFY_ROWS 0, sr_committed = 0, sr_accepted = 0\<rparr>) (\<lambda>outcome.
         case outcome of
           Inl r \<Rightarrow> Inr r
         | Inr r \<Rightarrow> rbind (draw_at fo (target_laws ! extent) bonus_unit) (\<lambda>token. Inr (round_push token r))))"

section \<open>One row of a bank\<close>

text \<open>A slice past the end panics.\<close>

definition bank_slice :: "bf16 list \<Rightarrow> nat \<Rightarrow> nat \<Rightarrow> bf16 list engine_result" where
  "bank_slice logits begin_index columns =
    (if begin_index + columns > length logits then Inl Panicked else Inr (take columns (drop begin_index logits)))"

definition target_row :: "bf16 list \<Rightarrow> nat \<Rightarrow> nat \<Rightarrow> bf16 list engine_result" where
  "target_row logits row vocab = bank_slice logits (row * vocab) vocab"

definition download_row :: "bf16 list \<Rightarrow> nat \<Rightarrow> nat \<Rightarrow> bf16 list engine_result" where
  "download_row logits index vocab = bank_slice logits ((MAX_BATCH + index) * vocab) vocab"

section \<open>The single slot\<close>

text \<open>The state of a decision: the control session and \<open>queued\<close>.\<close>

record round_state =
  rs_control :: generation_session
  rs_queued :: "generation_step option list"

abbreviation on_round_control :: "(generation_session \<Rightarrow> 'a engine_result \<times> generation_session) \<Rightarrow> (round_state, 'a) stateful" where
  "on_round_control \<equiv> mpart rs_control (\<lambda>g s. s\<lparr>rs_control := g\<rparr>)"

definition queue_step :: "nat \<Rightarrow> generation_step \<Rightarrow> (round_state, unit) stateful" where
  "queue_step index step s =
    (if length (rs_queued s) \<le> index then (Inl Panicked, s) else (Inr (), s\<lparr>rs_queued := (rs_queued s)[index := Some step]\<rparr>))"

definition accept_row :: "float_ops \<Rightarrow> text_frontend \<Rightarrow> bf16 list engine_result \<Rightarrow> nat \<Rightarrow> (round_state, generation_step) stateful" where
  "accept_row fo tf row committed =
    mbind (mlift row) (\<lambda>row.
    mbind (on_round_control (accept_logits fo tf row)) (\<lambda>step.
    mbind (queue_step committed step) (\<lambda>_. mreturn step)))"

text \<open>The loop over the drafts, with \<open>committed\<close> and \<open>accepted\<close>.\<close>

fun greedy_round_loop ::
  "float_ops \<Rightarrow> text_frontend \<Rightarrow> bf16 list \<Rightarrow> nat \<Rightarrow> nat list \<Rightarrow> nat \<Rightarrow> nat \<Rightarrow> nat \<Rightarrow> (round_state, nat \<times> nat) stateful" where
  "greedy_round_loop fo tf logits vocab [] draft committed accepted = mreturn (committed, accepted)"
| "greedy_round_loop fo tf logits vocab (draft_token # drafts) draft committed accepted =
    mbind (accept_row fo tf (target_row logits draft vocab) committed) (\<lambda>step.
      let matches = (st_token_id step = draft_token); accepted = (if matches then accepted + 1 else accepted) in
      if st_finish_reason step \<noteq> None \<or> \<not> matches then mreturn (committed + 1, accepted)
      else greedy_round_loop fo tf logits vocab drafts (draft + 1) (committed + 1) accepted)"

definition decide_greedy_round ::
  "float_ops \<Rightarrow> text_frontend \<Rightarrow> bf16 list \<Rightarrow> nat \<Rightarrow> nat list \<Rightarrow> (round_state, nat \<times> nat) stateful" where
  "decide_greedy_round fo tf logits vocab drafts =
    mbind (greedy_round_loop fo tf logits vocab drafts 0 0 0) (\<lambda>(committed, accepted).
    mbind (mget rs_control) (\<lambda>control.
    if accepted = length drafts \<and> gs_finish_reason control = None
    then mbind (accept_row fo tf (target_row logits (length drafts) vocab) committed) (\<lambda>_. mreturn (committed + 1, accepted))
    else mreturn (committed, accepted)))"

text \<open>Laws of the rows \<open>0..n\<close>, each after the drafts before it.\<close>

fun target_laws_loop :: "float_ops \<Rightarrow> (nat \<Rightarrow> bf16 list engine_result) \<Rightarrow> nat list \<Rightarrow> generation_session \<Rightarrow> nat list \<Rightarrow> sampling_distribution list engine_result" where
  "target_laws_loop fo row drafts g [] = Inr []"
| "target_laws_loop fo row drafts g (i # rows) =
    rbind (row i) (\<lambda>logits.
    rbind (session_distribution fo logits (take i drafts) g) (\<lambda>law.
    rbind (target_laws_loop fo row drafts g rows) (\<lambda>laws. Inr (law # laws))))"

text \<open>Acceptance and residual units are drawn in turn.\<close>

fun draw_units :: "float_ops \<Rightarrow> nat \<Rightarrow> generation_session \<Rightarrow> (f64 \<times> f64) list \<times> generation_session" where
  "draw_units fo 0 g = ([], g)"
| "draw_units fo (Suc n) g =
    (case random_unit fo g of (acceptance, g) \<Rightarrow>
      case random_unit fo g of (residual, g) \<Rightarrow>
        case draw_units fo n g of (units, g) \<Rightarrow> ((acceptance, residual) # units, g))"

fun require_laws :: "sampling_distribution option list \<Rightarrow> sampling_distribution list engine_result" where
  "require_laws [] = Inr []"
| "require_laws (None # laws) = Inl (generation_error ''sampled MTP proposal has no draft distribution'')"
| "require_laws (Some law # laws) = rbind (require_laws laws) (\<lambda>rest. Inr (law # rest))"

text \<open>What both sampled routes do before they accept: laws, units and the decision.\<close>

definition sampled_transaction ::
  "float_ops \<Rightarrow> (nat \<Rightarrow> bf16 list engine_result) \<Rightarrow> nat list \<Rightarrow> nat list \<Rightarrow> sampling_distribution option list \<Rightarrow>
   (generation_session, sampled_round) stateful" where
  "sampled_transaction fo row stop_ids drafts draft_laws g =
    (case target_laws_loop fo row drafts g [0..<length drafts + 1] of
       Inl e \<Rightarrow> (Inl e, g)
     | Inr target_laws \<Rightarrow>
        if length drafts > DRAFT_WINDOW then (Inl Panicked, g)
        else case draw_units fo (length drafts) g of (units, g) \<Rightarrow>
          case random_unit fo g of (bonus_unit, g) \<Rightarrow>
            (rbind (require_laws draft_laws) (\<lambda>draft_laws.
               decide_sampled_tokens fo drafts target_laws draft_laws stop_ids (map fst units) (map snd units) bonus_unit), g))"

fun accept_round_tokens :: "text_frontend \<Rightarrow> nat list \<Rightarrow> nat \<Rightarrow> (round_state, unit) stateful" where
  "accept_round_tokens tf [] index = mreturn ()"
| "accept_round_tokens tf (token # tokens) index =
    mbind (on_round_control (accept_token tf token)) (\<lambda>step.
    mbind (queue_step index step) (\<lambda>_. accept_round_tokens tf tokens (index + 1)))"

definition decide_sampled_round ::
  "float_ops \<Rightarrow> text_frontend \<Rightarrow> bf16 list \<Rightarrow> nat \<Rightarrow> nat list \<Rightarrow> nat list \<Rightarrow> sampling_distribution option list \<Rightarrow>
   (round_state, nat \<times> nat) stateful" where
  "decide_sampled_round fo tf logits vocab stop_ids drafts draft_laws =
    (if length draft_laws \<noteq> length drafts
     then mfail (generation_error ''every sampled MTP proposal requires its draft distribution'')
     else
       mbind (on_round_control (sampled_transaction fo (\<lambda>row. target_row logits row vocab) stop_ids drafts draft_laws)) (\<lambda>r.
       mbind (accept_round_tokens tf (round_token_ids r) 0) (\<lambda>_.
       mreturn (length (round_token_ids r), sr_accepted r))))"

section \<open>One lane of the compact batch\<close>

record event_builder =
  eb_steps :: "generation_step option list"
  eb_len :: nat

definition builder_new :: event_builder where
  "builder_new = \<lparr>eb_steps = replicate VERIFY_ROWS None, eb_len = 0\<rparr>"

definition builder_push :: "generation_step \<Rightarrow> (event_builder, unit) stateful" where
  "builder_push step b =
    (if length (eb_steps b) \<le> eb_len b
     then (Inl (generation_error ''one MTP transaction produced more than four outputs''), b)
     else (Inr (), b\<lparr>eb_steps := (eb_steps b)[eb_len b := Some step], eb_len := eb_len b + 1\<rparr>))"

definition builder_step :: "event_builder \<Rightarrow> nat \<Rightarrow> generation_step option" where
  "builder_step b index = (if index < length (eb_steps b) then eb_steps b ! index else None)"

definition builder_take_steps :: "event_builder \<Rightarrow> generation_step option list \<times> event_builder" where
  "builder_take_steps b = (eb_steps b, b\<lparr>eb_steps := replicate VERIFY_ROWS None\<rparr>)"

text \<open>\<open>None\<close> is the panic on a step that is missing.\<close>

definition builder_token_ids :: "event_builder \<Rightarrow> nat list option" where
  "builder_token_ids b =
    (if eb_len b > length (eb_steps b) then None
     else those (map (map_option st_token_id) (take (eb_len b) (eb_steps b))))"

record lane_state =
  ls_control :: generation_session
  ls_builder :: event_builder

abbreviation on_lane_control :: "(generation_session \<Rightarrow> 'a engine_result \<times> generation_session) \<Rightarrow> (lane_state, 'a) stateful" where
  "on_lane_control \<equiv> mpart ls_control (\<lambda>g s. s\<lparr>ls_control := g\<rparr>)"

abbreviation on_builder :: "(event_builder, 'a) stateful \<Rightarrow> (lane_state, 'a) stateful" where
  "on_builder \<equiv> mpart ls_builder (\<lambda>b s. s\<lparr>ls_builder := b\<rparr>)"

definition lane_accept_row :: "float_ops \<Rightarrow> text_frontend \<Rightarrow> bf16 list engine_result \<Rightarrow> (lane_state, generation_step) stateful" where
  "lane_accept_row fo tf row =
    mbind (mlift row) (\<lambda>row.
    mbind (on_lane_control (accept_logits fo tf row)) (\<lambda>step.
    mbind (on_builder (builder_push step)) (\<lambda>_. mreturn step)))"

text \<open>The second result says whether the loop ended without an early return.\<close>

fun greedy_lane_loop ::
  "float_ops \<Rightarrow> text_frontend \<Rightarrow> (nat \<Rightarrow> bf16 list engine_result) \<Rightarrow> nat list \<Rightarrow> nat \<Rightarrow> nat \<Rightarrow> (lane_state, nat \<times> bool) stateful" where
  "greedy_lane_loop fo tf row [] draft accepted = mreturn (accepted, True)"
| "greedy_lane_loop fo tf row (draft_token # drafts) draft accepted =
    mbind (lane_accept_row fo tf (row draft)) (\<lambda>step.
      let matches = (st_token_id step = draft_token); accepted = (if matches then accepted + 1 else accepted) in
      if st_finish_reason step \<noteq> None \<or> \<not> matches then mreturn (accepted, False)
      else greedy_lane_loop fo tf row drafts (draft + 1) accepted)"

definition decide_greedy_lane ::
  "float_ops \<Rightarrow> text_frontend \<Rightarrow> bf16 list \<Rightarrow> nat \<Rightarrow> nat \<Rightarrow> nat list \<Rightarrow> (lane_state, nat \<times> nat) stateful" where
  "decide_greedy_lane fo tf logits vocab lane drafts =
    (let tokens = length drafts + 1; row = (\<lambda>draft. download_row logits (lane * tokens + draft) vocab) in
     mbind (greedy_lane_loop fo tf row drafts 0 0) (\<lambda>(accepted, complete).
     mbind (mget ls_control) (\<lambda>control.
     mbind (if complete \<and> gs_finish_reason control = None
            then mbind (lane_accept_row fo tf (row (length drafts))) (\<lambda>_. mreturn ()) else mreturn ()) (\<lambda>_.
     mbind (mget ls_builder) (\<lambda>b. mreturn (eb_len b, accepted))))))"

fun accept_lane_tokens :: "text_frontend \<Rightarrow> nat list \<Rightarrow> (lane_state, unit) stateful" where
  "accept_lane_tokens tf [] = mreturn ()"
| "accept_lane_tokens tf (token # tokens) =
    mbind (on_lane_control (accept_token tf token)) (\<lambda>step.
    mbind (on_builder (builder_push step)) (\<lambda>_. accept_lane_tokens tf tokens))"

definition decide_sampled_lane ::
  "float_ops \<Rightarrow> text_frontend \<Rightarrow> bf16 list \<Rightarrow> nat \<Rightarrow> nat list \<Rightarrow> nat \<Rightarrow> nat list \<Rightarrow> sampling_distribution option list \<Rightarrow>
   (lane_state, nat \<times> nat) stateful" where
  "decide_sampled_lane fo tf logits vocab stop_ids lane drafts draft_laws =
    (let tokens = length drafts + 1 in
     mbind (on_lane_control (sampled_transaction fo (\<lambda>row. download_row logits (lane * tokens + row) vocab) stop_ids drafts draft_laws)) (\<lambda>r.
     mbind (accept_lane_tokens tf (round_token_ids r)) (\<lambda>_.
     mreturn (length (round_token_ids r), sr_accepted r))))"

end
