(* ===== verification/SingleSlot.thy ===== *)
theory SingleSlot
  imports TargetProgram
begin

text \<open>
  The single-slot generator of \<open>crates/tuisko-engine/src/common/text_generator.rs\<close> over the program of
  Qwen3.8: one replay and one logit row per token.
\<close>

record 'd slot_session =
  ss_control :: generation_session
  ss_device :: 'd
  ss_logits :: "bf16 list"
  ss_pending_token :: "nat option"
  ss_next_position :: nat
  ss_native_prefill_tokens :: nat

definition slot_start ::
  "'d program \<Rightarrow> text_frontend \<Rightarrow> prompt_encoding \<Rightarrow> generation_request \<Rightarrow> bf16 list \<Rightarrow> 'd \<Rightarrow> 'd slot_session engine_result" where
  "slot_start prog tf prompt request logits d =
    rbind (session_start tf prompt request) (\<lambda>control.
    rbind (require_generation_capacity (length (pe_token_ids prompt)) (rq_max_new_tokens request) (capacity prog)) (\<lambda>required_positions.
    rbind (if gs_finish_reason control = None
           then (case prime_single_slot prog (pe_token_ids prompt) required_positions d of
                   (Inl e, _) \<Rightarrow> Inl e
                 | (Inr native, d) \<Rightarrow> rbind (read_target prog 1 d) (\<lambda>row. Inr (native, row, d)))
           else Inr (0, logits, d)) (\<lambda>(native, logits, d).
    if U32_BOUND \<le> length (pe_token_ids prompt) then Inl (generation_error ''prompt length exceeds the position width'')
    else Inr \<lparr>ss_control = control, ss_device = d, ss_logits = logits, ss_pending_token = None,
              ss_next_position = length (pe_token_ids prompt), ss_native_prefill_tokens = native\<rparr>)))"

abbreviation on_control :: "(generation_session \<Rightarrow> 'a engine_result \<times> generation_session) \<Rightarrow> ('d slot_session, 'a) stateful" where
  "on_control \<equiv> mpart ss_control (\<lambda>g s. s\<lparr>ss_control := g\<rparr>)"

abbreviation on_device :: "('d, 'a) stateful \<Rightarrow> ('d slot_session, 'a) stateful" where
  "on_device \<equiv> mpart ss_device (\<lambda>d s. s\<lparr>ss_device := d\<rparr>)"

text \<open>The replay of the pending token; it is taken before the replay.\<close>

definition slot_replay_pending :: "'d program \<Rightarrow> ('d slot_session, unit) stateful" where
  "slot_replay_pending prog s =
    (case ss_pending_token s of
       None \<Rightarrow> (Inr (), s)
     | Some token \<Rightarrow>
        mbind (mmodify (\<lambda>s. s\<lparr>ss_pending_token := None\<rparr>)) (\<lambda>_.
        mbind (on_device (replay_token prog token (ss_next_position s))) (\<lambda>_.
        mbind (on_device (\<lambda>d. (read_target prog 1 d, d))) (\<lambda>row.
        mbind (mmodify (\<lambda>s. s\<lparr>ss_logits := row\<rparr>)) (\<lambda>_.
        if U32_BOUND \<le> ss_next_position s + 1 then mfail (generation_error ''generation position overflows'')
        else mmodify (\<lambda>s. s\<lparr>ss_next_position := ss_next_position s + 1\<rparr>))))) s)"

definition slot_step :: "float_ops \<Rightarrow> text_frontend \<Rightarrow> 'd program \<Rightarrow> ('d slot_session, generation_step) stateful" where
  "slot_step fo tf prog =
    mbind (slot_replay_pending prog) (\<lambda>_.
    mbind (mget ss_logits) (\<lambda>logits.
    mbind (on_control (accept_logits fo tf logits)) (\<lambda>step.
    mbind (mwhen (st_finish_reason step = None) (mmodify (\<lambda>s. s\<lparr>ss_pending_token := Some (st_token_id step)\<rparr>))) (\<lambda>_.
    mreturn step))))"

definition slot_output :: "'d slot_session \<Rightarrow> generated_text engine_result" where
  "slot_output s = into_output (ss_control s)"

end
