(* ===== verification/MtpSession.thy ===== *)
theory MtpSession
  imports Mtp SingleSlot
begin

text \<open>
  The speculative session of \<open>crates/tuisko-engine/src/qwen38/resident_mtp_generation.rs\<close>: draft up to three
  tokens, verify them with the anchor in one target call, commit what the decision licenses, hand the steps
  out one by one. A staged route is the number of its tokens. The counters do not reach \<open>2^64\<close>.
\<close>

definition LOGIT_ROWS :: nat where "LOGIT_ROWS = VERIFY_ROWS + 1"

record mtp_stats =
  mt_verification_routes :: "nat list"
  mt_draft_proposals :: nat
  mt_accepted_drafts :: nat
  mt_verified_outputs :: nat

definition stats_default :: mtp_stats where
  "stats_default = \<lparr>mt_verification_routes = replicate VERIFY_ROWS 0, mt_draft_proposals = 0, mt_accepted_drafts = 0, mt_verified_outputs = 0\<rparr>"

record 'd mtp_session =
  ms_control :: generation_session
  ms_device :: 'd
  ms_logits :: "bf16 list"
  ms_maximum_new_tokens :: nat
  ms_stop_ids :: "nat list"
  ms_next_position :: nat
  ms_started :: bool
  ms_proposal_ready :: bool
  ms_queued :: "generation_step option list"
  ms_queue_start :: nat
  ms_queue_len :: nat
  ms_visible_generated :: nat
  ms_native_prefill_tokens :: nat
  ms_greedy :: bool
  ms_stats :: mtp_stats

section \<open>The logit bank\<close>

text \<open>Rows \<open>0..3\<close> are the target's, row \<open>4\<close> is the draft's. A slice past the end panics.\<close>

definition bank_write :: "nat \<Rightarrow> nat \<Rightarrow> bf16 list \<Rightarrow> bf16 list \<Rightarrow> bf16 list engine_result" where
  "bank_write begin_index columns row logits =
    (if begin_index + columns > length logits then Inl Panicked
     else Inr (take begin_index logits @ row @ drop (begin_index + columns) logits))"

definition target_logits :: "bf16 list \<Rightarrow> nat \<Rightarrow> bf16 list engine_result" where
  "target_logits logits row = bank_slice logits (row * VOCABULARY) VOCABULARY"

definition target_logits_write :: "nat \<Rightarrow> bf16 list \<Rightarrow> bf16 list \<Rightarrow> bf16 list engine_result" where
  "target_logits_write rows row logits = bank_write 0 (rows * VOCABULARY) row logits"

definition draft_logits :: "bf16 list \<Rightarrow> bf16 list engine_result" where
  "draft_logits logits = bank_slice logits (VERIFY_ROWS * VOCABULARY) VOCABULARY"

definition draft_logits_write :: "bf16 list \<Rightarrow> bf16 list \<Rightarrow> bf16 list engine_result" where
  "draft_logits_write row logits = bank_write (VERIFY_ROWS * VOCABULARY) VOCABULARY row logits"

section \<open>Start\<close>

definition mtp_start ::
  "'d program \<Rightarrow> text_frontend \<Rightarrow> prompt_encoding \<Rightarrow> generation_request \<Rightarrow> bf16 list \<Rightarrow> 'd \<Rightarrow> 'd mtp_session engine_result" where
  "mtp_start prog tf prompt request logits d =
    (if length (fe_stop_ids tf) \<noteq> 2 then Inl (generation_error ''frontend returned the wrong stop-ID count'')
     else
       rbind (session_start tf prompt request) (\<lambda>control.
       rbind (require_mtp_capacity (length (pe_token_ids prompt)) (rq_max_new_tokens request) (capacity prog)) (\<lambda>required_positions.
       rbind (if gs_finish_reason control = None
              then (case
                  (mbind (exec_call prog (RecycleKvSlot 0)) (\<lambda>_.
                   mbind (exec_call prog (ResetSlot 0)) (\<lambda>_.
                   mbind (exec_call prog (ActivateKvSlot 0)) (\<lambda>_.
                   mbind (exec_call prog (ReserveKvSlot 0 required_positions)) (\<lambda>_.
                   mbind (exec_call prog (LoadSlotRoutes [0])) (\<lambda>_.
                   mtp_prime_prompt prog (pe_token_ids prompt) 0 0 None)))))) d of
                    (Inl e, _) \<Rightarrow> Inl e
                  | (Inr native, d) \<Rightarrow>
                      rbind (read_target prog 1 d) (\<lambda>row.
                      rbind (target_logits_write 1 row logits) (\<lambda>logits. Inr (native, logits, d))))
              else Inr (0, logits, d)) (\<lambda>(native, logits, d).
       Inr \<lparr>ms_control = control, ms_device = d, ms_logits = logits, ms_maximum_new_tokens = rq_max_new_tokens request,
            ms_stop_ids = fe_stop_ids tf, ms_next_position = length (pe_token_ids prompt), ms_started = False,
            ms_proposal_ready = False, ms_queued = replicate VERIFY_ROWS None, ms_queue_start = 0, ms_queue_len = 0,
            ms_visible_generated = 0, ms_native_prefill_tokens = native, ms_greedy = is_greedy (rq_sampling request),
            ms_stats = stats_default\<rparr>))))"

section \<open>Device work of a round\<close>

abbreviation mtp_control :: "(generation_session \<Rightarrow> 'a engine_result \<times> generation_session) \<Rightarrow> ('d mtp_session, 'a) stateful" where
  "mtp_control \<equiv> mpart ms_control (\<lambda>g s. s\<lparr>ms_control := g\<rparr>)"

abbreviation mtp_device :: "('d, 'a) stateful \<Rightarrow> ('d mtp_session, 'a) stateful" where
  "mtp_device \<equiv> mpart ms_device (\<lambda>d s. s\<lparr>ms_device := d\<rparr>)"

definition mtp_read_target :: "'d program \<Rightarrow> nat \<Rightarrow> ('d mtp_session, unit) stateful" where
  "mtp_read_target prog rows s =
    (case rbind (read_target prog rows (ms_device s)) (\<lambda>row. target_logits_write rows row (ms_logits s)) of
       Inl e \<Rightarrow> (Inl e, s) | Inr logits \<Rightarrow> (Inr (), s\<lparr>ms_logits := logits\<rparr>))"

definition mtp_read_draft :: "'d program \<Rightarrow> nat \<Rightarrow> ('d mtp_session, unit) stateful" where
  "mtp_read_draft prog row s =
    (case rbind (read_draft prog row (ms_device s)) (\<lambda>row. draft_logits_write row (ms_logits s)) of
       Inl e \<Rightarrow> (Inl e, s) | Inr logits \<Rightarrow> (Inr (), s\<lparr>ms_logits := logits\<rparr>))"

definition seed_proposal :: "'d program \<Rightarrow> nat \<Rightarrow> nat \<Rightarrow> ('d mtp_session, unit) stateful" where
  "seed_proposal prog token pos =
    mbind (mlift (position_u32 ''resident MTP position exceeds u32'' pos)) (\<lambda>_.
    mbind (mtp_device (exec_call prog (MtpDraft 0 pos token))) (\<lambda>_.
    mbind (mtp_read_draft prog 0) (\<lambda>_.
    mmodify (\<lambda>s. s\<lparr>ms_proposal_ready := True\<rparr>))))"

definition continue_proposal :: "'d program \<Rightarrow> nat \<Rightarrow> nat \<Rightarrow> ('d mtp_session, unit) stateful" where
  "continue_proposal prog token pos =
    mbind (mlift (position_u32 ''resident MTP position exceeds u32'' pos)) (\<lambda>_.
    mbind (mtp_device (exec_call prog (MtpContinueDraft 0 pos token))) (\<lambda>_.
    mtp_read_draft prog 0))"

text \<open>\<open>MtpRoundRope\<close> holds four rows.\<close>

definition round_rope :: "nat \<Rightarrow> nat \<Rightarrow> unit engine_result" where
  "round_rope first_position rows =
    (if rows = 0 \<or> rows > MAX_NATIVE_PREFILL_TOKENS then Inl (route_error ''resident MTP rotary rows are out of range'')
     else if rows > VERIFY_ROWS then Inl (layout_error ''resident MTP rotary destinations are too short'')
     else if U32_BOUND \<le> first_position + (rows - 1) then Inl (generation_error ''resident MTP position exceeds u32'')
     else Inr ())"

definition verify_target :: "'d program \<Rightarrow> nat list \<Rightarrow> ('d mtp_session, nat) stateful" where
  "verify_target prog inputs =
    mbind (mget ms_next_position) (\<lambda>first_position.
    mbind (mtp_device (exec_call prog (StageEmbeddings inputs))) (\<lambda>_.
    mbind (mlift (round_rope first_position (length inputs))) (\<lambda>_.
    mbind (mtp_device (exec_call prog (TargetVerify (length inputs) 0 first_position))) (\<lambda>_.
    mbind (mtp_read_target prog (length inputs)) (\<lambda>_.
    mreturn (length inputs))))))"

definition realign :: "'d program \<Rightarrow> nat list \<Rightarrow> bool \<Rightarrow> ('d mtp_session, unit) stateful" where
  "realign prog outputs prime_only =
    mbind (mget ms_next_position) (\<lambda>first_position.
    mbind (mlift (round_rope first_position (length outputs))) (\<lambda>_.
    if prime_only then mtp_device (exec_call prog (MtpPrime (length outputs) 0 first_position outputs))
    else
      mbind (mtp_device (exec_call prog (MtpRealign (length outputs) 0 first_position outputs))) (\<lambda>_.
      mtp_read_draft prog (length outputs - 1))))"

section \<open>Steps\<close>

definition start_anchor :: "float_ops \<Rightarrow> text_frontend \<Rightarrow> 'd program \<Rightarrow> ('d mtp_session, generation_step) stateful" where
  "start_anchor fo tf prog =
    mbind (mget ms_logits) (\<lambda>logits.
    mbind (mlift (target_logits logits 0)) (\<lambda>row.
    mbind (mtp_control (accept_logits fo tf row)) (\<lambda>step.
    mbind (mmodify (\<lambda>s. s\<lparr>ms_started := True, ms_visible_generated := 1\<rparr>)) (\<lambda>_.
    mbind (mget ms_next_position) (\<lambda>next_position.
    mbind (if st_finish_reason step = None
           then if next_position = 0 then mfail (generation_error ''resident MTP anchor position underflows'')
                else seed_proposal prog (st_token_id step) (next_position - 1)
           else mreturn ()) (\<lambda>_.
    mreturn step))))))"

definition last_generated :: "string \<Rightarrow> ('d mtp_session, nat) stateful" where
  "last_generated message =
    mbind (mget (\<lambda>s. gs_generated (ms_control s))) (\<lambda>generated.
    if generated = [] then mfail (generation_error message) else mreturn (last generated))"

definition advance_position :: "nat \<Rightarrow> ('d mtp_session, unit) stateful" where
  "advance_position count =
    mbind (mget ms_next_position) (\<lambda>pos.
    mbind (mlift (ok_or (checked_add pos count) (generation_error ''resident MTP position overflows''))) (\<lambda>pos.
    mmodify (\<lambda>s. s\<lparr>ms_next_position := pos\<rparr>)))"

definition record_round :: "nat \<Rightarrow> nat \<Rightarrow> nat \<Rightarrow> mtp_stats \<Rightarrow> mtp_stats" where
  "record_round route accepted committed st =
    st\<lparr>mt_verification_routes := (mt_verification_routes st)[route - 1 := mt_verification_routes st ! (route - 1) + 1],
       mt_accepted_drafts := mt_accepted_drafts st + accepted,
       mt_verified_outputs := mt_verified_outputs st + committed\<rparr>"

definition run_final_target_step :: "float_ops \<Rightarrow> text_frontend \<Rightarrow> 'd program \<Rightarrow> ('d mtp_session, generation_step) stateful" where
  "run_final_target_step fo tf prog =
    mbind (last_generated ''resident MTP final step has no anchor'') (\<lambda>anchor.
    mbind (verify_target prog [anchor]) (\<lambda>route.
    mbind (mget ms_logits) (\<lambda>logits.
    mbind (mlift (target_logits logits 0)) (\<lambda>row.
    mbind (mtp_control (accept_logits fo tf row)) (\<lambda>step.
    mbind (mtp_device (exec_call prog (TargetCommit route 1))) (\<lambda>_.
    mbind (realign prog [st_token_id step] True) (\<lambda>_.
    mbind (advance_position 1) (\<lambda>_.
    mbind (mmodify (\<lambda>s. s\<lparr>ms_stats := record_round 1 0 1 (ms_stats s), ms_proposal_ready := False,
                          ms_visible_generated := ms_visible_generated s + 1\<rparr>)) (\<lambda>_.
    mreturn step)))))))))"

text \<open>One drafted token and, on the sampled route, its law.\<close>

definition propose_draft :: "float_ops \<Rightarrow> nat list \<Rightarrow> ('d mtp_session, nat \<times> sampling_distribution option) stateful" where
  "propose_draft fo drafts =
    mbind (mget id) (\<lambda>s.
    mbind (mlift (draft_logits (ms_logits s))) (\<lambda>row.
    if ms_greedy s
    then mbind (mtp_control (propose_logits fo row drafts)) (\<lambda>decision. mreturn (dec_token_id decision, None))
    else
      mbind (mlift (session_distribution fo row drafts (ms_control s))) (\<lambda>law.
      mbind (mtp_control (draw_distribution fo law)) (\<lambda>token. mreturn (token, Some law)))))"

text \<open>The loop \<open>for draft in 0..extent\<close>; \<open>missing\<close> drafts are left and \<open>drafts\<close> are made.\<close>

fun draft_loop ::
  "float_ops \<Rightarrow> 'd program \<Rightarrow> nat \<Rightarrow> nat list \<Rightarrow> sampling_distribution option list \<Rightarrow>
   ('d mtp_session, nat list \<times> sampling_distribution option list) stateful" where
  "draft_loop fo prog 0 drafts laws = mreturn (drafts, laws)"
| "draft_loop fo prog (Suc missing) drafts laws =
    mbind (propose_draft fo drafts) (\<lambda>(token, law).
    mbind (mmodify (\<lambda>s. s\<lparr>ms_stats := (ms_stats s)\<lparr>mt_draft_proposals := mt_draft_proposals (ms_stats s) + 1\<rparr>\<rparr>)) (\<lambda>_.
    mbind (if 0 < missing
           then
             mbind (mget ms_next_position) (\<lambda>first_position.
             mbind (mlift (ok_or (checked_add first_position (length drafts)) (generation_error ''resident MTP position overflows''))) (\<lambda>pos.
             continue_proposal prog token pos))
           else mreturn ()) (\<lambda>_.
    draft_loop fo prog missing (drafts @ [token]) (laws @ [law]))))"

text \<open>The decision works on the control session and \<open>queued\<close>.\<close>

abbreviation mtp_round :: "(round_state, 'a) stateful \<Rightarrow> ('d mtp_session, 'a) stateful" where
  "mtp_round \<equiv> mpart (\<lambda>s. \<lparr>rs_control = ms_control s, rs_queued = ms_queued s\<rparr>)
    (\<lambda>r s. s\<lparr>ms_control := rs_control r, ms_queued := rs_queued r\<rparr>)"

definition decide_round ::
  "float_ops \<Rightarrow> text_frontend \<Rightarrow> nat list \<Rightarrow> sampling_distribution option list \<Rightarrow> ('d mtp_session, nat \<times> nat) stateful" where
  "decide_round fo tf drafts laws =
    mbind (mget id) (\<lambda>s.
    if ms_greedy s then mtp_round (decide_greedy_round fo tf (ms_logits s) VOCABULARY drafts)
    else mtp_round (decide_sampled_round fo tf (ms_logits s) VOCABULARY (ms_stop_ids s) drafts laws))"

text \<open>The steps of \<open>queued[..committed]\<close>; a missing one panics.\<close>

definition queued_steps :: "nat \<Rightarrow> ('d mtp_session, generation_step list) stateful" where
  "queued_steps committed =
    mbind (mget ms_queued) (\<lambda>queued.
    if committed > length queued then mfail Panicked
    else mlift (ok_or (those (take committed queued)) Panicked))"

definition run_speculative_round :: "float_ops \<Rightarrow> text_frontend \<Rightarrow> 'd program \<Rightarrow> nat \<Rightarrow> ('d mtp_session, unit) stateful" where
  "run_speculative_round fo tf prog remaining =
    mbind (mget ms_proposal_ready) (\<lambda>ready.
    if \<not> ready then mfail (generation_error ''resident MTP speculative round has no aligned proposal'')
    else if remaining = 0 then mfail Panicked
    else
      mbind (draft_loop fo prog (min DRAFT_WINDOW (remaining - 1)) [] []) (\<lambda>(drafts, laws).
      mbind (last_generated ''resident MTP round has no anchor'') (\<lambda>anchor.
      mbind (verify_target prog (anchor # drafts)) (\<lambda>route.
      mbind (decide_round fo tf drafts laws) (\<lambda>(committed, accepted).
      if committed = 0 then mfail (generation_error ''resident MTP verification committed no output'')
      else
        mbind (mtp_device (exec_call prog (TargetCommit route committed))) (\<lambda>_.
        mbind (queued_steps committed) (\<lambda>steps.
        let terminal = st_finish_reason (last steps) \<noteq> None in
        mbind (realign prog (map st_token_id steps) terminal) (\<lambda>_.
        mbind (advance_position committed) (\<lambda>_.
        mmodify (\<lambda>s. s\<lparr>ms_queue_start := 0, ms_queue_len := committed,
                       ms_stats := record_round route accepted committed (ms_stats s),
                       ms_proposal_ready := \<not> terminal\<rparr>))))))))))"

definition take_queued :: "('d mtp_session, generation_step) stateful" where
  "take_queued s =
    (if length (ms_queued s) \<le> ms_queue_start s then (Inl Panicked, s)
     else case ms_queued s ! ms_queue_start s of
       None \<Rightarrow> (Inl (generation_error ''resident MTP output queue is incomplete''), s)
     | Some step \<Rightarrow>
        (Inr step, s\<lparr>ms_queued := (ms_queued s)[ms_queue_start s := None],
           ms_queue_start := (if ms_queue_len s = 1 then 0 else ms_queue_start s + 1),
           ms_queue_len := ms_queue_len s - 1, ms_visible_generated := ms_visible_generated s + 1\<rparr>))"

definition mtp_step :: "float_ops \<Rightarrow> text_frontend \<Rightarrow> 'd program \<Rightarrow> ('d mtp_session, generation_step) stateful" where
  "mtp_step fo tf prog =
    mbind (mget id) (\<lambda>s.
    if ms_queue_len s \<noteq> 0 then take_queued
    else if gs_finish_reason (ms_control s) \<noteq> None
    then mfail (generation_error ''cannot step resident MTP generation after it finished'')
    else if \<not> ms_started s then start_anchor fo tf prog
    else if ms_maximum_new_tokens s < length (gs_generated (ms_control s))
    then mfail (generation_error ''resident MTP generation budget underflows'')
    else
      let remaining = ms_maximum_new_tokens s - length (gs_generated (ms_control s)) in
      if remaining = 1 then run_final_target_step fo tf prog
      else mbind (run_speculative_round fo tf prog remaining) (\<lambda>_. take_queued))"

definition mtp_finish_reason :: "'d mtp_session \<Rightarrow> finish_reason option" where
  "mtp_finish_reason s = (if ms_queue_len s = 0 then gs_finish_reason (ms_control s) else None)"

definition mtp_generated_token_ids :: "'d mtp_session \<Rightarrow> nat list option" where
  "mtp_generated_token_ids s =
    (if ms_visible_generated s > length (gs_generated (ms_control s)) then None
     else Some (take (ms_visible_generated s) (gs_generated (ms_control s))))"

definition mtp_output :: "'d mtp_session \<Rightarrow> generated_text engine_result" where
  "mtp_output s =
    (if ms_queue_len s \<noteq> 0 then Inl (generation_error ''cannot take resident MTP output before queued steps are drained'')
     else into_output (ms_control s))"

end
