(* ===== verification/DeviceView.thy ===== *)
theory DeviceView
  imports TargetProgram GenerationRun
begin

text \<open>
  What the host code relies on about the device: a resident slot has consumed some tokens, and the logit
  rows it returns are a function \<open>F\<close> of the tokens consumed. \<open>follows\<close> says that a program behaves so where its
  calls are in order. Under it the prompt priming consumes exactly the prompt.
\<close>

record device_view =
  dv_processed :: "nat list"
  dv_staged :: "nat list"
  dv_verified :: "nat list"
  dv_rows :: "bf16 list list"

text \<open>Nothing is promised (\<open>None\<close>) for a call out of order: at another position, slot or number of tokens.\<close>

fun view_call :: "(nat list \<Rightarrow> bf16 list) \<Rightarrow> program_call \<Rightarrow> device_view \<Rightarrow> device_view option" where
  "view_call F (ResetSlot slot) v = (if slot = 0 then Some (v\<lparr>dv_processed := []\<rparr>) else None)"
| "view_call F (StageEmbeddings tokens) v = Some (v\<lparr>dv_staged := tokens\<rparr>)"
| "view_call F (TargetDecode pos) v =
    (if pos = length (dv_processed v) \<and> length (dv_staged v) = 1
     then Some (v\<lparr>dv_processed := dv_processed v @ dv_staged v, dv_rows := [F (dv_processed v @ dv_staged v)]\<rparr>) else None)"
| "view_call F (TargetPrefill tokens slot pos) v =
    (if slot = 0 \<and> pos = length (dv_processed v) \<and> length (dv_staged v) = tokens \<and> 0 < tokens
     then Some (v\<lparr>dv_processed := dv_processed v @ dv_staged v, dv_rows := [F (dv_processed v @ dv_staged v)]\<rparr>) else None)"
| "view_call F (TargetVerify tokens slot pos) v =
    (if slot = 0 \<and> pos = length (dv_processed v) \<and> length (dv_staged v) = tokens
     then Some (v\<lparr>dv_verified := dv_staged v, dv_rows := map (\<lambda>i. F (dv_processed v @ take (i + 1) (dv_staged v))) [0..<tokens]\<rparr>)
     else None)"
| "view_call F (TargetCommit tokens committed) v =
    (if length (dv_verified v) = tokens \<and> committed \<le> tokens
     then Some (v\<lparr>dv_processed := dv_processed v @ take committed (dv_verified v), dv_verified := []\<rparr>) else None)"
| "view_call F _ v = Some v"

definition follows :: "(nat list \<Rightarrow> bf16 list) \<Rightarrow> 'd program \<Rightarrow> ('d \<Rightarrow> device_view) \<Rightarrow> bool" where
  "follows F prog view \<longleftrightarrow>
    (\<forall>call d d' v. exec_call prog call d = (Inr (), d') \<and> view_call F call (view d) = Some v \<longrightarrow> view d' = v) \<and>
    (\<forall>n d bits. read_target prog n d = Inr bits \<and> n \<le> length (dv_rows (view d)) \<longrightarrow> bits = concat (take n (dv_rows (view d)))) \<and>
    (\<forall>ctx. length (F ctx) = VOCABULARY)"

lemma followsD:
  assumes "follows F prog view"
  shows "exec_call prog call d = (Inr u, d') \<Longrightarrow> view_call F call (view d) = Some v \<Longrightarrow> view d' = v"
    and "read_target prog n d = Inr bits \<Longrightarrow> n \<le> length (dv_rows (view d)) \<Longrightarrow> bits = concat (take n (dv_rows (view d)))"
    and "length (F ctx) = VOCABULARY"
  using assms by (auto simp: follows_def)

text \<open>A device that keeps the view itself and answers drafts with some row.\<close>

definition reference_program :: "(nat list \<Rightarrow> bf16 list) \<Rightarrow> (nat \<Rightarrow> bf16 list) \<Rightarrow> nat \<Rightarrow> device_view program" where
  "reference_program F draft cap =
    \<lparr>exec_call = (\<lambda>call v. case view_call F call v of None \<Rightarrow> (Inl (route_error ''out of order''), v) | Some v \<Rightarrow> (Inr (), v)),
     read_target = (\<lambda>n v. if n \<le> length (dv_rows v) then Inr (concat (take n (dv_rows v))) else Inl (route_error ''no such row'')),
     read_draft = (\<lambda>i v. Inr (draft i)),
     capacity = cap\<rparr>"

lemma reference_follows: "(\<And>ctx. length (F ctx) = VOCABULARY) \<Longrightarrow> follows F (reference_program F draft cap) id"
  by (auto simp: follows_def reference_program_def split: option.splits if_splits)

section \<open>Consuming tokens\<close>

text \<open>\<open>at F v ctx\<close>: the slot has consumed \<open>ctx\<close> and the first row is the one after it.\<close>

definition consumed :: "(nat list \<Rightarrow> bf16 list) \<Rightarrow> device_view \<Rightarrow> nat list \<Rightarrow> bool" where
  "consumed F v ctx \<longleftrightarrow> dv_processed v = ctx \<and> (ctx \<noteq> [] \<longrightarrow> dv_rows v = [F ctx])"

lemma replay_token_view:
  assumes "follows F prog view" and "replay_token prog t pos d = (Inr u, d')"
    and "dv_processed (view d) = ctx" and "pos = length ctx"
  shows "consumed F (view d') (ctx @ [t])"
proof -
  obtain d1 where d1: "exec_call prog (StageEmbeddings [t]) d = (Inr (), d1)" and d2: "exec_call prog (TargetDecode pos) d1 = (Inr (), d')"
    using assms(2) by (auto simp: replay_token_def method_ok)
  have "view d1 = (view d)\<lparr>dv_staged := [t]\<rparr>" using followsD(1) [OF assms(1) d1] by simp
  then show ?thesis using followsD(1) [OF assms(1) d2] assms(3,4) by (simp add: consumed_def)
qed

lemma prefill_view:
  assumes "follows F prog view" and "exec_call prog (StageEmbeddings ts) d = (Inr u, d1)" and "exec_call prog (TargetPrefill (length ts) 0 pos) d1 = (Inr w, d')"
    and "dv_processed (view d) = ctx" and "pos = length ctx" and "ts \<noteq> []"
  shows "consumed F (view d') (ctx @ ts)"
proof -
  have "view d1 = (view d)\<lparr>dv_staged := ts\<rparr>" using followsD(1) [OF assms(1,2)] by simp
  then show ?thesis using followsD(1) [OF assms(1,3)] assms(4-6) by (simp add: consumed_def)
qed

section \<open>The target's prompt\<close>

lemma prime_tiles_view:
  assumes "follows F prog view" and "prime_tiles prog ids 0 cursor d = (Inr c, d')"
    and "consumed F (view d) (take cursor ids)" and "cursor \<le> length ids"
  shows "consumed F (view d') (take c ids) \<and> c \<le> length ids \<and> cursor \<le> c \<and> length ids - c < 32"
  using assms(2-4)
proof (induction "length ids - cursor" arbitrary: cursor d rule: less_induct)
  case less
  show ?case
  proof (cases "next_native_prefill_tile (length ids - cursor)")
    case None
    then have "c = cursor \<and> d' = d" using less.prems(1) by (subst (asm) prime_tiles.simps) (simp add: method_ok)
    then show ?thesis using None less.prems next_tile_None by simp
  next
    case (Some n)
    note bounds = next_tile_bounds [OF Some]
    let ?ts = "take n (drop cursor ids)"
    obtain d1 d2 where d1: "exec_call prog (StageEmbeddings ?ts) d = (Inr (), d1)" "exec_call prog (TargetPrefill (length ?ts) 0 cursor) d1 = (Inr (), d2)"
      and rest: "prime_tiles prog ids 0 (cursor + n) d2 = (Inr c, d')"
      using less.prems(1) Some by (subst (asm) prime_tiles.simps) (auto simp: method_ok replay_prefill_tile_def)
    have "consumed F (view d2) (take cursor ids @ ?ts)"
      by (rule prefill_view [OF assms(1) d1]) (use less.prems(2,3) bounds in \<open>auto simp: consumed_def\<close>)
    then have "consumed F (view d2) (take (cursor + n) ids)" by (simp add: take_add)
    moreover have "cursor + n \<le> length ids" "length ids - (cursor + n) < length ids - cursor" using bounds less.prems(3) by linarith+
    ultimately have "consumed F (view d') (take c ids) \<and> c \<le> length ids \<and> cursor + n \<le> c \<and> length ids - c < 32"
      using less.hyps [OF _ rest] by blast
    then show ?thesis by linarith
  qed
qed

lemma prime_singles_view:
  assumes "follows F prog view" and "prime_singles prog ts pos d = (Inr u, d')" and "consumed F (view d) ctx" and "pos = length ctx"
  shows "consumed F (view d') (ctx @ ts)"
  using assms(2-)
proof (induction ts arbitrary: pos d ctx)
  case (Cons t ts)
  then obtain d1 where d1: "replay_token prog t pos d = (Inr (), d1)" "prime_singles prog ts (pos + 1) d1 = (Inr u, d')"
    by (auto simp: method_ok)
  have "consumed F (view d1) (ctx @ [t])" by (rule replay_token_view [OF assms(1) d1(1)]) (use Cons.prems in \<open>simp_all add: consumed_def\<close>)
  then show ?case using Cons.IH [OF d1(2), of "ctx @ [t]"] Cons.prems by simp
qed (auto simp: method_ok)

lemma prime_prompt_view:
  assumes "follows F prog view" and "prime_prompt prog ids 0 0 d = (Inr native, d')" and "dv_processed (view d) = []"
  shows "consumed F (view d') ids \<and> native \<le> length ids \<and> length ids - native < 32"
proof -
  obtain c d1 where c: "prime_tiles prog ids 0 0 d = (Inr c, d1)" "prime_singles prog (drop c ids) c d1 = (Inr (), d')" "native = c"
    using assms(2) by (auto simp: prime_prompt_def method_ok)
  note tiles = prime_tiles_view [OF assms(1) c(1)]
  then have *: "consumed F (view d1) (take c ids) \<and> c \<le> length ids \<and> length ids - c < 32" using assms(3) by (simp add: consumed_def)
  then have "consumed F (view d') (take c ids @ drop c ids)" using prime_singles_view [OF assms(1) c(2), of "take c ids"] by simp
  then show ?thesis using * c(3) by simp
qed

lemma prime_single_slot_view:
  assumes "follows F prog view" and "prime_single_slot prog ids n d = (Inr native, d')"
  shows "consumed F (view d') ids \<and> native \<le> length ids \<and> length ids - native < 32"
proof -
  obtain d1 d2 d3 d4 d5 where
    "exec_call prog (RecycleKvSlot 0) d = (Inr (), d1)" and d2: "exec_call prog (ResetSlot 0) d1 = (Inr (), d2)"
    and d3: "exec_call prog (ActivateKvSlot 0) d2 = (Inr (), d3)" and d4: "exec_call prog (ReserveKvSlot 0 n) d3 = (Inr (), d4)"
    and d5: "exec_call prog (LoadSlotRoutes [0]) d4 = (Inr (), d5)" and prime: "prime_prompt prog ids 0 0 d5 = (Inr native, d')"
    using assms(2) by (auto simp: prime_single_slot_def method_ok)
  have "view d2 = (view d1)\<lparr>dv_processed := []\<rparr>" "view d3 = view d2" "view d4 = view d3" "view d5 = view d4"
    using followsD(1) [OF assms(1) d2] followsD(1) [OF assms(1) d3] followsD(1) [OF assms(1) d4] followsD(1) [OF assms(1) d5] by simp_all
  then show ?thesis using prime_prompt_view [OF assms(1) prime] by simp
qed

section \<open>The prompt of target and draft model\<close>

lemma mtp_prime_tiles_view:
  assumes "follows F prog view" and "mtp_prime_tiles prog progress ids 0 primed cursor native d = (Inr (c, n), d')"
    and "dv_processed (view d) = take cursor ids" and "cursor \<le> primed" and "primed \<le> length ids"
  shows "dv_processed (view d') = take c ids \<and> cursor \<le> c \<and> c \<le> primed \<and> primed - c < 32 \<and> n = native + (c - cursor)"
  using assms(2-4)
proof (induction "primed - cursor" arbitrary: cursor native d rule: less_induct)
  case less
  show ?case
  proof (cases "next_native_prefill_tile (primed - cursor)")
    case None
    then have "c = cursor \<and> n = native \<and> d' = d" using less.prems(1) by (subst (asm) mtp_prime_tiles.simps) (simp add: method_ok)
    then show ?thesis using None less.prems next_tile_None by simp
  next
    case (Some m)
    note bounds = next_tile_bounds [OF Some]
    let ?ts = "take m (drop cursor ids)"
    obtain d1 d2 d3 where d1: "exec_call prog (StageEmbeddings ?ts) d = (Inr (), d1)" "exec_call prog (TargetPrefill (length ?ts) 0 cursor) d1 = (Inr (), d2)"
      and d3: "exec_call prog (MtpPrompt m 0 cursor (take m (drop (cursor + 1) ids))) d2 = (Inr (), d3)"
      and rest: "mtp_prime_tiles prog progress ids 0 primed (cursor + m) (native + m) d3 = (Inr (c, n), d')"
      using less.prems(1) Some by (subst (asm) mtp_prime_tiles.simps) (auto simp: method_ok mtp_prefill_tile_def)
    have "consumed F (view d2) (take cursor ids @ ?ts)"
      by (rule prefill_view [OF assms(1) d1]) (use less.prems(2,3) bounds assms(5) in auto)
    then have "dv_processed (view d3) = take (cursor + m) ids" using followsD(1) [OF assms(1) d3] by (simp add: take_add consumed_def)
    moreover have "cursor + m \<le> primed" "primed - (cursor + m) < primed - cursor" using bounds less.prems(3) by linarith+
    ultimately have "dv_processed (view d') = take c ids \<and> cursor + m \<le> c \<and> c \<le> primed \<and> primed - c < 32 \<and> n = native + m + (c - (cursor + m))"
      using less.hyps [OF _ rest] by blast
    then show ?thesis by linarith
  qed
qed

lemma replay_target_token_view:
  assumes "follows F prog view" and "replay_target_token prog (ids ! pos) pos d = (Inr u, d')"
    and "dv_processed (view d) = take pos ids" and "pos < length ids"
  shows "consumed F (view d') (take (Suc pos) ids)"
proof -
  have "replay_token prog (ids ! pos) pos d = (Inr (), d')" using assms(2) by (auto simp: replay_target_token_def method_ok)
  then have "consumed F (view d') (take pos ids @ [ids ! pos])" by (rule replay_token_view [OF assms(1) _ assms(3)]) (use assms(4) in simp)
  then show ?thesis using assms(4) by (simp add: take_Suc_conv_app_nth)
qed

lemma mtp_prime_singles_view:
  assumes "follows F prog view" and "mtp_prime_singles prog progress ids 0 primed cursor d = (Inr c, d')"
    and "dv_processed (view d) = take cursor ids" and "cursor \<le> primed" and "primed < length ids"
  shows "dv_processed (view d') = take primed ids"
  using assms(2-4)
proof (induction "primed - cursor" arbitrary: cursor d rule: less_induct)
  case less
  show ?case
  proof (cases "cursor < primed")
    case True
    then obtain d1 d2 where d1: "replay_target_token prog (ids ! cursor) cursor d = (Inr (), d1)"
      and d2: "exec_call prog (MtpPrompt 1 0 cursor [ids ! (cursor + 1)]) d1 = (Inr (), d2)"
      and rest: "mtp_prime_singles prog progress ids 0 primed (cursor + 1) d2 = (Inr c, d')"
      using less.prems(1) by (subst (asm) mtp_prime_singles.simps) (auto simp: method_ok)
    have "consumed F (view d1) (take (Suc cursor) ids)"
      by (rule replay_target_token_view [OF assms(1) d1 less.prems(2)]) (use True assms(5) in simp)
    then have "dv_processed (view d2) = take (cursor + 1) ids" using followsD(1) [OF assms(1) d2] by (simp add: consumed_def)
    then show ?thesis using less.hyps [OF _ rest] True by simp
  next
    case False
    then show ?thesis using less.prems by (subst (asm) mtp_prime_singles.simps) (simp add: method_ok)
  qed
qed

lemma mtp_prime_prompt_view:
  assumes "follows F prog view" and "mtp_prime_prompt prog ids 0 0 None d = (Inr native, d')" and "dv_processed (view d) = []"
  shows "ids \<noteq> [] \<and> consumed F (view d') ids \<and> native < length ids \<and> length ids - native \<le> 32"
proof -
  have ids: "ids \<noteq> []" using assms(2) by (auto simp: mtp_prime_prompt_def mtp_prime_prompt_with_progress_def method_ok)
  obtain c d1 c' d2 where tiles: "mtp_prime_tiles prog (\<lambda>_. Inr ()) ids 0 (length ids - 1) 0 0 d = (Inr (c, native), d1)"
    and singles: "mtp_prime_singles prog (\<lambda>_. Inr ()) ids 0 (length ids - 1) c d1 = (Inr c', d2)"
    and last_token: "replay_target_token prog (ids ! (length ids - 1)) (length ids - 1) d2 = (Inr (), d')"
    using assms(2) ids by (auto simp: mtp_prime_prompt_def mtp_prime_prompt_with_progress_def method_ok Let_def)
  have c: "dv_processed (view d1) = take c ids \<and> c \<le> length ids - 1 \<and> length ids - 1 - c < 32 \<and> native = c"
    using mtp_prime_tiles_view [OF assms(1) tiles] assms(3) by simp
  then have "dv_processed (view d2) = take (length ids - 1) ids" using mtp_prime_singles_view [OF assms(1) singles] ids by simp
  then have "consumed F (view d') (take (Suc (length ids - 1)) ids)" using replay_target_token_view [OF assms(1) last_token] ids by simp
  moreover have "native < length ids \<and> length ids - native \<le> 32" using ids c by (cases ids) auto
  ultimately show ?thesis using ids by (cases ids) simp_all
qed

end
