(* ===== verification/MtpRound.thy ===== *)
theory MtpRound
  imports MtpSession DeviceView
begin

text \<open>
  A greedy round is sequential generation: the reference accepts, token by token, the row \<open>F\<close> gives after the
  tokens so far, and a round that verified the drafts against the rows of \<open>F\<close> does the same calls.
\<close>

section \<open>The reference\<close>

definition session_context :: "generation_session \<Rightarrow> nat list" where
  "session_context g = pe_token_ids (gs_prompt g) @ gs_generated g"

definition ref_step :: "float_ops \<Rightarrow> text_frontend \<Rightarrow> (nat list \<Rightarrow> bf16 list) \<Rightarrow> (generation_session, generation_step) stateful" where
  "ref_step fo tf F g = accept_logits fo tf (F (session_context g)) g"

section \<open>One accepted row\<close>

lemma on_sampler_greedy: "snd (f (gs_sampler g)) = gs_sampler g \<Longrightarrow> snd (on_sampler f g) = g"
  by (cases "f (gs_sampler g)") (simp add: on_sampler_def)

lemma sample_greedy: "is_greedy (sa_options s) \<Longrightarrow> snd (sample_with_counts fo logits com prov s) = s"
  by (auto simp: sample_with_counts_def split: sum.splits prod.splits)

lemma sample_where_greedy: "is_greedy (sa_options s) \<Longrightarrow> snd (sample_with_counts_where fo logits com prov allowed s) = s"
  by (auto simp: sample_with_counts_where_def split: sum.splits prod.splits)

lemma propose_greedy: "is_greedy (sa_options (gs_sampler g)) \<Longrightarrow> propose_logits fo logits prov g = (r, g') \<Longrightarrow> g' = g"
proof -
  assume greedy: "is_greedy (sa_options (gs_sampler g))" and run: "propose_logits fo logits prov g = (r, g')"
  have same: "snd (on_sampler (sample_with_counts fo logits (gs_occurrences g) prov) g) = g"
    by (rule on_sampler_greedy, rule sample_greedy [OF greedy])
  have same_where: "snd (on_sampler (sample_with_counts_where fo logits (gs_occurrences g) prov a) g) = g" for a
    by (rule on_sampler_greedy, rule sample_where_greedy [OF greedy])
  obtain r1 where one: "on_sampler (sample_with_counts fo logits (gs_occurrences g) prov) g = (r1, g)" using same by (metis prod.collapse)
  show "g' = g"
  proof (cases "constraint_state g prov")
    case (Inr st)
    show ?thesis
    proof (cases st)
      case None
      then show ?thesis using run Inr one by (simp add: propose_logits_def)
    next
      case (Some state)
      show ?thesis
      proof (cases r1)
        case (Inl e)
        then show ?thesis using run Inr Some one greedy by (simp add: propose_logits_def)
      next
        case (Inr candidate)
        note run' = run [unfolded propose_logits_def, simplified \<open>constraint_state g prov = Inr st\<close> Some one Inr greedy, simplified]
        show ?thesis
        proof (cases "constraint_allows g state (dec_token_id candidate)")
          case True
          then show ?thesis using run' by simp
        next
          case False
          then show ?thesis using run' same_where by (metis (no_types, lifting) option.case_eq_if prod.sel(2))
        qed
      qed
    qed
  qed (use run in \<open>simp add: propose_logits_def\<close>)
qed

lemma accept_decision_fields:
  assumes "accept_decision tf d g = (Inr step, g')"
  shows "st_token_id step = dec_token_id d \<and> gs_prompt g' = gs_prompt g \<and> gs_generated g' = gs_generated g @ [dec_token_id d] \<and>
    gs_finish_reason g' = st_finish_reason step \<and> gs_sampler g' = gs_sampler g \<and> gs_max_new_tokens g' = gs_max_new_tokens g"
  using assms
  by (auto simp: accept_decision_def session_commit_def session_push_token_def record_token_def Let_def
      split: prod.splits sum.splits if_splits option.splits)

lemma accept_logits_fields:
  assumes "accept_logits fo tf row g = (Inr step, g')"
  shows "gs_finish_reason g = None \<and> gs_prompt g' = gs_prompt g \<and> gs_generated g' = gs_generated g @ [st_token_id step] \<and>
    gs_finish_reason g' = st_finish_reason step \<and> sa_options (gs_sampler g') = sa_options (gs_sampler g) \<and>
    gs_max_new_tokens g' = gs_max_new_tokens g"
proof -
  obtain d g1 where "gs_finish_reason g = None" and proposed: "propose_logits fo row [] g = (Inr d, g1)" and acc: "accept_decision tf d g1 = (Inr step, g')"
    using assms by (auto simp: accept_logits_def split: if_splits prod.splits sum.splits)
  then show ?thesis using accept_decision_fields [OF acc] same_fields [OF propose_random [OF proposed]] by simp
qed

lemma accept_context: "accept_logits fo tf row g = (Inr step, g') \<Longrightarrow> session_context g' = session_context g @ [st_token_id step]"
  using accept_logits_fields by (fastforce simp: session_context_def)

lemma ref_context: "mrepeat n (ref_step fo tf F) g = (Inr steps, g') \<Longrightarrow> gs_generated g' = gs_generated g @ map st_token_id steps \<and>
    session_context g' = session_context g @ map st_token_id steps \<and> sa_options (gs_sampler g') = sa_options (gs_sampler g) \<and>
    gs_prompt g' = gs_prompt g \<and> gs_max_new_tokens g' = gs_max_new_tokens g"
proof (induction n arbitrary: g steps)
  case (Suc n)
  then obtain x g1 xs where 1: "ref_step fo tf F g = (Inr x, g1)" and 2: "mrepeat n (ref_step fo tf F) g1 = (Inr xs, g')" "steps = x # xs"
    unfolding mrepeat_split by blast
  then show ?case using accept_context accept_logits_fields Suc.IH [OF 2(1)] by (fastforce simp: ref_step_def)
qed (simp add: method_ok)

lemma ref_finish: "mrepeat n (ref_step fo tf F) g = (Inr steps, g') \<Longrightarrow> steps \<noteq> [] \<Longrightarrow> gs_finish_reason g' = st_finish_reason (last steps)"
proof (cases n)
  case (Suc m)
  assume run: "mrepeat n (ref_step fo tf F) g = (Inr steps, g')"
  obtain xs x t where "mrepeat m (ref_step fo tf F) g = (Inr xs, t)" "ref_step fo tf F t = (Inr x, g')" "steps = xs @ [x]"
    using run [unfolded Suc] by (rule mrepeat_snocE)
  then show ?thesis using accept_logits_fields by (fastforce simp: ref_step_def)
qed (simp add: method_ok)

section \<open>The greedy round\<close>

text \<open>The rows of a bank are those after the drafts.\<close>

definition rows_after :: "(nat list \<Rightarrow> bf16 list) \<Rightarrow> nat list \<Rightarrow> (nat \<Rightarrow> bf16 list engine_result) \<Rightarrow> nat list \<Rightarrow> bool" where
  "rows_after F ctx row drafts \<longleftrightarrow> (\<forall>i\<le>length drafts. row i = Inr (F (ctx @ take i drafts)))"

lemma rows_after_Cons:
  "rows_after F ctx row (t # ts) \<longleftrightarrow> row 0 = Inr (F ctx) \<and> rows_after F (ctx @ [t]) (\<lambda>i. row (Suc i)) ts"
proof -
  have split: "(\<forall>i\<le>Suc n. P i) \<longleftrightarrow> P 0 \<and> (\<forall>i\<le>n. P (Suc i))" for n P by (metis le_simps(3) less_Suc_eq_le not0_implies_Suc zero_le)
  show ?thesis by (simp add: rows_after_def split)
qed

definition queued_from :: "generation_step option list \<Rightarrow> nat \<Rightarrow> generation_step list \<Rightarrow> bool" where
  "queued_from queued k steps \<longleftrightarrow> take (length steps) (drop k queued) = map Some steps"

text \<open>What a round did: \<open>a\<close> drafts were the reference's tokens, and the last step is the first that is not, or a terminal one.\<close>

definition round_result :: "nat list \<Rightarrow> generation_step list \<Rightarrow> nat \<Rightarrow> generation_session \<Rightarrow> bool" where
  "round_result drafts steps a g \<longleftrightarrow>
    a \<le> length drafts \<and> a \<le> length steps \<and> length steps \<le> a + 1 \<and>
    map st_token_id (take a steps) = take a drafts \<and>
    (length steps = a + 1 \<and> a < length drafts \<longrightarrow> st_token_id (steps ! a) \<noteq> drafts ! a) \<and>
    (length steps = a \<longrightarrow> gs_finish_reason g \<noteq> None)"

lemma queue_step_ok: "queue_step k step s = (Inr u, s') \<longleftrightarrow> k < length (rs_queued s) \<and> s' = s\<lparr>rs_queued := (rs_queued s)[k := Some step]\<rparr>"
  by (auto simp: queue_step_def)

lemma accept_row_ok:
  "accept_row fo tf row k s = (Inr step, s') \<longleftrightarrow> (\<exists>bits g. row = Inr bits \<and> accept_logits fo tf bits (rs_control s) = (Inr step, g) \<and>
    k < length (rs_queued s) \<and> s' = \<lparr>rs_control = g, rs_queued = (rs_queued s)[k := Some step]\<rparr>)"
  by (cases s) (auto simp: accept_row_def method_ok queue_step_ok)

lemma queued_from_Cons: "queued_from q k (x # xs) \<longleftrightarrow> k < length q \<and> q ! k = Some x \<and> queued_from q (Suc k) xs"
proof (cases "k < length q")
  case True
  then have "drop k q = q ! k # drop (Suc k) q" by (simp add: Cons_nth_drop_Suc)
  then show ?thesis using True by (simp add: queued_from_def)
qed (simp add: queued_from_def)

lemma greedy_round_loop_ref:
  assumes "greedy_round_loop fo tf logits V drafts k k k s = (Inr (c, a), s')"
    and "rows_after F (session_context (rs_control s)) (\<lambda>i. target_row logits (k + i) V) drafts"
    and "gs_finish_reason (rs_control s) = None"
  shows "\<exists>steps. mrepeat (length steps) (ref_step fo tf F) (rs_control s) = (Inr steps, rs_control s') \<and>
    c = k + length steps \<and> k \<le> a \<and> queued_from (rs_queued s') k steps \<and> length (rs_queued s') = length (rs_queued s) \<and>
    take k (rs_queued s') = take k (rs_queued s) \<and>
    a - k \<le> length drafts \<and> a - k \<le> length steps \<and> length steps \<le> a - k + 1 \<and> map st_token_id (take (a - k) steps) = take (a - k) drafts \<and>
    (length steps = a - k + 1 \<longrightarrow> a - k < length drafts \<and> st_token_id (steps ! (a - k)) \<noteq> drafts ! (a - k)) \<and>
    (length steps = a - k \<longrightarrow> a - k = length drafts \<or> gs_finish_reason (rs_control s') \<noteq> None)"
  using assms
proof (induction drafts arbitrary: k s)
  case Nil
  then show ?case by (intro exI [of _ "[]"]) (auto simp: method_ok queued_from_def)
next
  case (Cons t ts)
  let ?g = "rs_control s"
  have row: "target_row logits k V = Inr (F (session_context ?g))"
    and rows: "rows_after F (session_context ?g @ [t]) (\<lambda>i. target_row logits (Suc k + i) V) ts"
    using Cons.prems(2) by (simp_all add: rows_after_Cons)
  obtain step g1 where step: "ref_step fo tf F ?g = (Inr step, g1)" and kq: "k < length (rs_queued s)"
    and rest: "(if st_finish_reason step \<noteq> None \<or> st_token_id step \<noteq> t then mreturn (k + 1, if st_token_id step = t then k + 1 else k)
       else greedy_round_loop fo tf logits V ts (k + 1) (k + 1) (if st_token_id step = t then k + 1 else k))
       \<lparr>rs_control = g1, rs_queued = (rs_queued s)[k := Some step]\<rparr> = (Inr (c, a), s')"
    using Cons.prems(1) row by (auto simp: method_ok accept_row_ok Let_def ref_step_def)
  note fields = accept_logits_fields [OF step [unfolded ref_step_def]]
  show ?case
  proof (cases "st_finish_reason step \<noteq> None \<or> st_token_id step \<noteq> t")
    case True
    then have "c = k + 1" "a = (if st_token_id step = t then k + 1 else k)" "s' = \<lparr>rs_control = g1, rs_queued = (rs_queued s)[k := Some step]\<rparr>"
      using rest by (auto simp: method_ok)
    moreover have "mrepeat 1 (ref_step fo tf F) ?g = (Inr [step], g1)" using step by (simp add: method_ok)
    moreover have "queued_from ((rs_queued s)[k := Some step]) k [step]" using kq by (simp add: queued_from_Cons, simp add: queued_from_def)
    ultimately show ?thesis using True fields
      by (intro exI [of _ "[step]"]) (cases "st_token_id step = t"; simp)
  next
    case False
    let ?s = "\<lparr>rs_control = g1, rs_queued = (rs_queued s)[k := Some step]\<rparr>"
    have loop: "greedy_round_loop fo tf logits V ts (Suc k) (Suc k) (Suc k) ?s = (Inr (c, a), s')" using False rest by simp
    have ctx: "session_context g1 = session_context ?g @ [t]" using accept_context [OF step [unfolded ref_step_def]] False by simp
    obtain steps where IH: "mrepeat (length steps) (ref_step fo tf F) g1 = (Inr steps, rs_control s')"
      "c = Suc k + length steps" "Suc k \<le> a" "queued_from (rs_queued s') (Suc k) steps" "length (rs_queued s') = length (rs_queued s)"
      "take (Suc k) (rs_queued s') = take (Suc k) ((rs_queued s)[k := Some step])"
      "a - Suc k \<le> length ts" "a - Suc k \<le> length steps" "length steps \<le> a - Suc k + 1" "map st_token_id (take (a - Suc k) steps) = take (a - Suc k) ts"
      "length steps = a - Suc k + 1 \<longrightarrow> a - Suc k < length ts \<and> st_token_id (steps ! (a - Suc k)) \<noteq> ts ! (a - Suc k)"
      "length steps = a - Suc k \<longrightarrow> a - Suc k = length ts \<or> gs_finish_reason (rs_control s') \<noteq> None"
      using Cons.IH [OF loop] rows ctx False fields by (auto simp: algebra_simps)
    have nth: "rs_queued s' ! k = Some step" and pre: "take k (rs_queued s') = take k (rs_queued s)"
    proof -
      have "take (Suc k) (rs_queued s') ! k = take (Suc k) ((rs_queued s)[k := Some step]) ! k" using IH(6) by simp
      then show "rs_queued s' ! k = Some step" using kq by simp
      have "take k (take (Suc k) (rs_queued s')) = take k (take (Suc k) ((rs_queued s)[k := Some step]))" using IH(6) by simp
      then show "take k (rs_queued s') = take k (rs_queued s)" by (simp add: min_def)
    qed
    obtain b where b: "a = Suc k + b" using IH(3) le_Suc_ex by blast
    show ?thesis using IH nth pre kq step False
      by (intro exI [of _ "step # steps"]) (simp add: mrepeat_split queued_from_Cons b Suc_diff_le del: mrepeat.simps)
  qed
qed

lemma greedy_round_ref:
  assumes "decide_greedy_round fo tf logits V drafts s = (Inr (c, a), s')"
    and "rows_after F (session_context (rs_control s)) (\<lambda>i. target_row logits i V) drafts"
    and "gs_finish_reason (rs_control s) = None"
  shows "\<exists>steps. mrepeat c (ref_step fo tf F) (rs_control s) = (Inr steps, rs_control s') \<and>
    queued_from (rs_queued s') 0 steps \<and> length (rs_queued s') = length (rs_queued s) \<and> round_result drafts steps a (rs_control s')"
proof -
  obtain c1 a1 s1 where loop: "greedy_round_loop fo tf logits V drafts 0 0 0 s = (Inr (c1, a1), s1)"
    and rest: "(if a1 = length drafts \<and> gs_finish_reason (rs_control s1) = None
      then mbind (accept_row fo tf (target_row logits (length drafts) V) c1) (\<lambda>_. mreturn (c1 + 1, a1)) else mreturn (c1, a1)) s1 = (Inr (c, a), s')"
    using assms(1) by (auto simp: decide_greedy_round_def method_ok)
  obtain steps where run: "mrepeat (length steps) (ref_step fo tf F) (rs_control s) = (Inr steps, rs_control s1)"
    and c1: "c1 = length steps" and q: "queued_from (rs_queued s1) 0 steps" "length (rs_queued s1) = length (rs_queued s)"
    and res: "a1 \<le> length drafts" "a1 \<le> length steps" "length steps \<le> a1 + 1" "map st_token_id (take a1 steps) = take a1 drafts"
      "length steps = a1 + 1 \<longrightarrow> a1 < length drafts \<and> st_token_id (steps ! a1) \<noteq> drafts ! a1"
      "length steps = a1 \<longrightarrow> a1 = length drafts \<or> gs_finish_reason (rs_control s1) \<noteq> None"
    using greedy_round_loop_ref [OF loop, where F = F] assms(2,3) by auto
  show ?thesis
  proof (cases "a1 = length drafts \<and> gs_finish_reason (rs_control s1) = None")
    case True
    then obtain step g where acc: "accept_logits fo tf (F (session_context (rs_control s) @ drafts)) (rs_control s1) = (Inr step, g)"
      and c: "c = c1 + 1" "a = a1" "c1 < length (rs_queued s1)" "s' = \<lparr>rs_control = g, rs_queued = (rs_queued s1)[c1 := Some step]\<rparr>"
      using rest assms(2) by (auto simp: method_ok accept_row_ok rows_after_def)
    have len: "length steps = length drafts" using True res by auto
    then have "map st_token_id steps = drafts" using res(4) True by simp
    then have "session_context (rs_control s1) = session_context (rs_control s) @ drafts" using ref_context [OF run] by simp
    then have "ref_step fo tf F (rs_control s1) = (Inr step, g)" using acc by (simp add: ref_step_def)
    then have "mrepeat c (ref_step fo tf F) (rs_control s) = (Inr (steps @ [step]), rs_control s')"
      using mrepeat_snoc [OF run] c c1 by simp
    moreover have "queued_from (rs_queued s') 0 (steps @ [step])"
      using q(1) c c1 by (simp add: queued_from_def take_Suc_conv_app_nth)
    ultimately show ?thesis using q(2) c len True res(4) by (intro exI [of _ "steps @ [step]"]) (simp add: round_result_def)
  next
    case False
    then have "c = c1 \<and> a = a1 \<and> s' = s1" using rest by (auto simp: method_ok)
    then show ?thesis using run c1 q res False by (intro exI [of _ steps]) (auto simp: round_result_def)
  qed
qed

end
