(* ===== verification/MtpLane.thy ===== *)
theory MtpLane
  imports MtpRound
begin

text \<open>
  The lane of the compact batch makes the single slot's decision, errors and the state they leave included;
  and what the sampled decision commits.
\<close>

section \<open>Lane and slot\<close>

definition lane_of :: "round_state \<Rightarrow> nat \<Rightarrow> lane_state" where
  "lane_of s k = \<lparr>ls_control = rs_control s, ls_builder = \<lparr>eb_steps = rs_queued s, eb_len = k\<rparr>\<rparr>"

lemma lane_accept_row_sim:
  assumes "k < length (rs_queued s)"
  shows "lane_accept_row fo tf row (lane_of s k) =
    (case accept_row fo tf row k s of (Inl e, s') \<Rightarrow> (Inl e, lane_of s' k) | (Inr step, s') \<Rightarrow> (Inr step, lane_of s' (k + 1)))"
  using assms
  by (cases row) (auto simp: lane_accept_row_def accept_row_def mbind_def mlift_def mpart_def mreturn_def queue_step_def builder_push_def lane_of_def
      split: prod.splits sum.splits)

lemma accept_row_length: "accept_row fo tf row k s = (r, s') \<Longrightarrow> length (rs_queued s') = length (rs_queued s)"
  by (cases row) (auto simp: accept_row_def mbind_def mlift_def mpart_def mreturn_def queue_step_def split: prod.splits sum.splits if_splits)

lemma accept_row_finish: "accept_row fo tf row k s = (Inr step, s') \<Longrightarrow> gs_finish_reason (rs_control s') = st_finish_reason step"
  using accept_logits_fields by (fastforce simp: accept_row_ok)

text \<open>The results of the two loops, \<open>n\<close> the number of drafts.\<close>

definition loops_agree :: "nat \<Rightarrow> round_state \<Rightarrow> nat \<Rightarrow> (nat \<times> nat) engine_result \<Rightarrow> (nat \<times> bool) engine_result \<Rightarrow> bool" where
  "loops_agree n s len r r' \<longleftrightarrow>
    (case r of Inl e \<Rightarrow> r' = Inl e
     | Inr (c, a) \<Rightarrow> len = c \<and> c \<le> n \<and> (a = n \<longrightarrow> c = a) \<and> (\<exists>complete. r' = Inr (a, complete) \<and>
         (complete \<and> gs_finish_reason (rs_control s) = None \<longleftrightarrow> a = n \<and> gs_finish_reason (rs_control s) = None)))"

lemma greedy_lane_loop_sim:
  assumes "k + length drafts \<le> length (rs_queued s)"
    and "\<forall>i<k + length drafts. row i = target_row logits i V"
    and "greedy_round_loop fo tf logits V drafts k k k s = (r, s')"
  shows "\<exists>len r'. greedy_lane_loop fo tf row drafts k k (lane_of s k) = (r', lane_of s' len) \<and>
    length (rs_queued s') = length (rs_queued s) \<and> loops_agree (k + length drafts) s' len r r'"
  using assms
proof (induction drafts arbitrary: k s)
  case Nil
  then have "r = Inr (k, k)" "s' = s" by (simp_all add: mreturn_def)
  moreover have "greedy_lane_loop fo tf row [] k k (lane_of s k) = (Inr (k, True), lane_of s k)" by (simp add: mreturn_def)
  ultimately show ?case by (intro exI [of _ k] exI [of _ "Inr (k, True)"]) (simp add: loops_agree_def ex_bool_eq)
next
  case (Cons t ts)
  have row: "row k = target_row logits k V" and kq: "k < length (rs_queued s)" using Cons.prems(1,2) by simp_all
  obtain r1 s1 where one: "accept_row fo tf (target_row logits k V) k s = (r1, s1)" by fastforce
  note lane = lane_accept_row_sim [OF kq, of fo tf "target_row logits k V", unfolded one]
  note len = accept_row_length [OF one]
  show ?case
  proof (cases r1)
    case (Inl e)
    have "r = Inl e" "s' = s1" using Cons.prems(3) one Inl by (simp_all add: mbind_def)
    moreover have "greedy_lane_loop fo tf row (t # ts) k k (lane_of s k) = (Inl e, lane_of s1 k)" using lane row Inl by (simp add: mbind_def)
    ultimately show ?thesis using len by (intro exI [of _ k] exI [of _ "Inl e"]) (simp add: loops_agree_def)
  next
    case (Inr step)
    note fin = accept_row_finish [OF one [unfolded Inr]]
    show ?thesis
    proof (cases "st_finish_reason step \<noteq> None \<or> st_token_id step \<noteq> t")
      case True
      let ?a = "if st_token_id step = t then k + 1 else k"
      have "r = Inr (k + 1, ?a)" "s' = s1"
        using Cons.prems(3) one Inr True by (auto simp: mbind_def mreturn_def Let_def split: if_splits)
      moreover have "greedy_lane_loop fo tf row (t # ts) k k (lane_of s k) = (Inr (?a, False), lane_of s1 (k + 1))"
        using True lane row Inr by (auto simp: mbind_def mreturn_def Let_def)
      moreover have "loops_agree (k + length (t # ts)) s1 (k + 1) (Inr (k + 1, ?a)) (Inr (?a, False))"
        using True fin by (cases "st_token_id step = t") (auto simp add: loops_agree_def ex_bool_eq)
      ultimately show ?thesis using len by (intro exI [of _ "k + 1"] exI [of _ "Inr (?a, False)"]) simp
    next
      case False
      then have loop: "greedy_round_loop fo tf logits V ts (Suc k) (Suc k) (Suc k) s1 = (r, s')"
        using Cons.prems(3) one Inr by (simp add: mbind_def Let_def)
      have next_lane: "greedy_lane_loop fo tf row (t # ts) k k (lane_of s k) = greedy_lane_loop fo tf row ts (Suc k) (Suc k) (lane_of s1 (Suc k))"
        using False lane row Inr by (simp add: mbind_def Let_def)
      have "\<exists>len r'. greedy_lane_loop fo tf row ts (Suc k) (Suc k) (lane_of s1 (Suc k)) = (r', lane_of s' len) \<and>
          length (rs_queued s') = length (rs_queued s1) \<and> loops_agree (Suc k + length ts) s' len r r'"
        by (rule Cons.IH [OF _ _ loop]) (use Cons.prems(1,2) len in simp_all)
      then show ?thesis unfolding next_lane using len by simp
    qed
  qed
qed

lemma greedy_lane_sim:
  assumes "length drafts < length (rs_queued s)"
    and rows: "\<forall>i\<le>length drafts. download_row bank (lane * (length drafts + 1) + i) V = target_row logits i V"
    and "decide_greedy_round fo tf logits V drafts s = (r, s')"
  shows "\<exists>len. decide_greedy_lane fo tf bank V lane drafts (lane_of s 0) = (r, lane_of s' len) \<and> (\<forall>c a. r = Inr (c, a) \<longrightarrow> len = c)"
proof -
  let ?row = "\<lambda>draft. download_row bank (lane * (length drafts + 1) + draft) V"
  obtain r1 s1 where loop: "greedy_round_loop fo tf logits V drafts 0 0 0 s = (r1, s1)" by fastforce
  obtain len r' where lane: "greedy_lane_loop fo tf ?row drafts 0 0 (lane_of s 0) = (r', lane_of s1 len)" "length (rs_queued s1) = length (rs_queued s)"
    and res: "loops_agree (length drafts) s1 len r1 r'"
  proof -
    have "\<exists>len r'. greedy_lane_loop fo tf ?row drafts 0 0 (lane_of s 0) = (r', lane_of s1 len) \<and>
        length (rs_queued s1) = length (rs_queued s) \<and> loops_agree (0 + length drafts) s1 len r1 r'"
      by (rule greedy_lane_loop_sim [OF _ _ loop]) (use assms(1) rows in simp_all)
    then show ?thesis using that by auto
  qed
  show ?thesis
  proof (cases r1)
    case (Inl e)
    then have r': "r' = Inl e" using res by (simp add: loops_agree_def)
    have "r = Inl e" "s' = s1" using Inl loop assms(3) by (simp_all add: decide_greedy_round_def mbind_def)
    moreover have "decide_greedy_lane fo tf bank V lane drafts (lane_of s 0) = (Inl e, lane_of s1 len)"
      using lane(1) r' by (simp add: decide_greedy_lane_def Let_def mbind_def)
    ultimately show ?thesis by blast
  next
    case (Inr ca)
    obtain c a where ca: "ca = (c, a)" by fastforce
    obtain complete where r': "r' = Inr (a, complete)" "len = c" and cl: "c \<le> length drafts" "a = length drafts \<longrightarrow> c = a"
      and comp: "complete \<and> gs_finish_reason (rs_control s1) = None \<longleftrightarrow> a = length drafts \<and> gs_finish_reason (rs_control s1) = None"
      using res unfolding Inr ca loops_agree_def sum.case prod.case by blast
    have control: "ls_control (lane_of s1 len) = rs_control s1" by (simp add: lane_of_def)
    show ?thesis
    proof (cases "a = length drafts \<and> gs_finish_reason (rs_control s1) = None")
      case True
      have row: "?row (length drafts) = target_row logits (length drafts) V" using rows by simp
      have "c < length (rs_queued s1)" using cl lane(2) assms(1) by simp
      note acc = lane_accept_row_sim [OF this, of fo tf "target_row logits (length drafts) V"]
      obtain r2 s2 where one: "accept_row fo tf (target_row logits (length drafts) V) c s1 = (r2, s2)" by fastforce
      have "decide_greedy_round fo tf logits V drafts s = (case r2 of Inl e \<Rightarrow> Inl e | Inr step \<Rightarrow> Inr (c + 1, a), s2)"
        using loop Inr ca True one by (simp add: decide_greedy_round_def mbind_def mget_def mreturn_def split: sum.splits)
      moreover have "decide_greedy_lane fo tf bank V lane drafts (lane_of s 0) =
          (case r2 of Inl e \<Rightarrow> (Inl e, lane_of s2 c) | Inr step \<Rightarrow> (Inr (c + 1, a), lane_of s2 (c + 1)))"
        using lane(1) r' True comp acc one row control
        by (simp add: decide_greedy_lane_def mbind_def mget_def mreturn_def lane_of_def split: sum.splits)
      ultimately show ?thesis using assms(3) by (cases r2) auto
    next
      case False
      then show ?thesis using loop Inr ca comp lane(1) r' control assms(3)
        by (auto simp: decide_greedy_round_def decide_greedy_lane_def Let_def mbind_def mget_def mreturn_def lane_of_def)
    qed
  qed
qed

section \<open>Sampled tokens\<close>

lemma decision_outcome:
  assumes "speculative_decision fo t p q u v = Inr c"
  shows "(sc_accepted c \<longleftrightarrow> f64_lt u (speculative_accept_probability fo t p q)) \<and> (sc_accepted c \<longrightarrow> sc_token_id c = t) \<and>
    (\<not> sc_accepted c \<longrightarrow> sc_token_id c \<in> fst ` set (sd_masses p))"
proof (cases "f64_lt u (speculative_accept_probability fo t p q)")
  case False
  then obtain law token where "speculative_residual fo p q = Inr law" "draw_at fo law v = Inr token" "c = \<lparr>sc_token_id = token, sc_accepted = False\<rparr>"
    using assms by (auto simp: speculative_decision_def rbind_Inr_iff split: if_splits)
  then show ?thesis using residual_support draw_at_in False by (metis fst_conv image_eqI speculative_choice.select_convs)
qed (use assms in \<open>auto simp: speculative_decision_def split: if_splits\<close>)

text \<open>Rows of the loop: the draft, its two laws and its two variates.\<close>

abbreviation row_accepts :: "float_ops \<Rightarrow> nat \<times> sampling_distribution \<times> sampling_distribution \<times> f64 \<times> f64 \<Rightarrow> bool" where
  "row_accepts fo \<equiv> \<lambda>(t, p, q, u, v). f64_lt u (speculative_accept_probability fo t p q)"

text \<open>\<open>a\<close> drafts are accepted; then the round stops at a stop token or corrects a rejected draft, or every draft is accepted.\<close>

type_synonym sampled_row = "nat \<times> sampling_distribution \<times> sampling_distribution \<times> f64 \<times> f64"

definition loop_ends ::
  "float_ops \<Rightarrow> nat list \<Rightarrow> sampled_row list \<Rightarrow> nat \<Rightarrow> nat list \<Rightarrow> bool \<Rightarrow> bool" where
  "loop_ends fo stops rows a last_token complete \<longleftrightarrow>
    a \<le> length rows \<and> (\<forall>row\<in>set (take a rows). row_accepts fo row) \<and>
    (\<forall>i<a. fst (rows ! i) \<in> set stops \<longrightarrow> i + 1 = a \<and> last_token = [] \<and> \<not> complete) \<and>
    (if complete then a = length rows \<and> last_token = []
     else if last_token = [] then 0 < a \<and> fst (rows ! (a - 1)) \<in> set stops
     else a < length rows \<and> \<not> row_accepts fo (rows ! a) \<and> (\<exists>t. last_token = [t] \<and> t \<in> fst ` set (sd_masses (fst (snd (rows ! a))))))"

lemma loop_ends_Suc:
  assumes "loop_ends fo stops rows a last_token complete" and "row_accepts fo row" and "fst row \<notin> set stops"
  shows "loop_ends fo stops (row # rows) (Suc a) last_token complete"
proof -
  have "i + 1 = Suc a \<and> last_token = [] \<and> \<not> complete" if "i < Suc a" "fst ((row # rows) ! i) \<in> set stops" for i
    using that assms(1,3) by (cases i) (auto simp: loop_ends_def)
  then have "\<forall>i<Suc a. fst ((row # rows) ! i) \<in> set stops \<longrightarrow> i + 1 = Suc a \<and> last_token = [] \<and> \<not> complete" by blast
  moreover have "\<forall>x\<in>set (take (Suc a) (row # rows)). row_accepts fo x" and "Suc a \<le> length (row # rows)"
    using assms(1,2) by (simp_all add: loop_ends_def)
  moreover have "if complete then Suc a = length (row # rows) \<and> last_token = []
     else if last_token = [] then 0 < Suc a \<and> fst ((row # rows) ! (Suc a - 1)) \<in> set stops
     else Suc a < length (row # rows) \<and> \<not> row_accepts fo ((row # rows) ! Suc a) \<and>
       (\<exists>t. last_token = [t] \<and> t \<in> fst ` set (sd_masses (fst (snd ((row # rows) ! Suc a)))))"
    using assms(1) by (cases complete; cases "last_token = []"; cases a) (simp_all add: loop_ends_def)
  ultimately show ?thesis unfolding loop_ends_def by blast
qed

definition complete_of :: "sampled_round + sampled_round \<Rightarrow> bool" where
  "complete_of outcome = (case outcome of Inl _ \<Rightarrow> False | Inr _ \<Rightarrow> True)"

lemma complete_of_simps [simp]: "\<not> complete_of (Inl r)" "complete_of (Inr r)"
  by (simp_all add: complete_of_def)

lemma sampled_loop_result:
  assumes "sampled_tokens_loop fo stops rows r = Inr outcome" and "sr_committed r = sr_accepted r"
    and "sr_committed r + length rows < length (sr_tokens r)"
  shows "\<exists>a last_token r'. outcome = (if last_token = [] \<and> complete_of outcome then Inr r' else Inl r') \<and>
    sr_accepted r' = sr_accepted r + a \<and> sr_committed r' = sr_committed r + a + length last_token \<and> length (sr_tokens r') = length (sr_tokens r) \<and>
    take (sr_committed r') (sr_tokens r') = take (sr_committed r) (sr_tokens r) @ map fst (take a rows) @ last_token \<and>
    loop_ends fo stops rows a last_token (complete_of outcome)"
  using assms
proof (induction rows arbitrary: r)
  case Nil
  then have "outcome = Inr r" by simp
  moreover have "loop_ends fo stops [] 0 [] True" by (simp add: loop_ends_def)
  ultimately have "outcome = (if [] = [] \<and> complete_of outcome then Inr r else Inl r) \<and>
    sr_accepted r = sr_accepted r + 0 \<and> sr_committed r = sr_committed r + 0 + length [] \<and> length (sr_tokens r) = length (sr_tokens r) \<and>
    take (sr_committed r) (sr_tokens r) = take (sr_committed r) (sr_tokens r) @ map fst (take 0 []) @ [] \<and>
    loop_ends fo stops [] 0 [] (complete_of outcome)" by simp
  then show ?case by blast
next
  case (Cons row rows)
  obtain t p q u v where row: "row = (t, p, q, u, v)" by (metis prod_cases5)
  obtain c where c: "speculative_decision fo t p q u v = Inr c"
    and rest: "(let r = round_push (sc_token_id c) r in
        if \<not> sc_accepted c then Inr (Inl r)
        else let r = r\<lparr>sr_accepted := sr_accepted r + 1\<rparr> in
          if sc_token_id c \<in> set stops then Inr (Inl r) else sampled_tokens_loop fo stops rows r) = Inr outcome"
    using Cons.prems(1) row by (auto simp: rbind_Inr_iff)
  note dec = decision_outcome [OF c]
  let ?r = "round_push (sc_token_id c) r"
  have push: "sr_committed ?r = Suc (sr_committed r)" "sr_accepted ?r = sr_accepted r" "length (sr_tokens ?r) = length (sr_tokens r)"
    "take (Suc (sr_committed r)) (sr_tokens ?r) = take (sr_committed r) (sr_tokens r) @ [sc_token_id c]"
    using Cons.prems(3) by (simp_all add: round_push_def take_Suc_conv_app_nth)
  show ?case
  proof (cases "sc_accepted c")
    case False
    then have "outcome = Inl ?r" using rest by (simp add: Let_def)
    moreover have "loop_ends fo stops (row # rows) 0 [sc_token_id c] False" using False dec row by (simp add: loop_ends_def)
    ultimately show ?thesis using push
      by (intro exI [of _ "0::nat"] exI [of _ "[sc_token_id c]"] exI [of _ ?r]) simp
  next
    case True
    let ?r2 = "?r\<lparr>sr_accepted := Suc (sr_accepted r)\<rparr>"
    have t: "sc_token_id c = t" "row_accepts fo row" using dec True row by simp_all
    show ?thesis
    proof (cases "t \<in> set stops")
      case stop: True
      then have "outcome = Inl ?r2" using rest True t push(2) by (simp add: Let_def)
      moreover have "loop_ends fo stops (row # rows) 1 [] False" using stop t row by (simp add: loop_ends_def)
      ultimately show ?thesis using push t row
        by (intro exI [of _ "1::nat"] exI [of _ "[]"] exI [of _ ?r2]) simp
    next
      case go: False
      then have loop: "sampled_tokens_loop fo stops rows ?r2 = Inr outcome" using rest True t push(2) by (simp add: Let_def)
      obtain a last_token r' where IH: "outcome = (if last_token = [] \<and> complete_of outcome then Inr r' else Inl r')"
        "sr_accepted r' = sr_accepted ?r2 + a" "sr_committed r' = sr_committed ?r2 + a + length last_token" "length (sr_tokens r') = length (sr_tokens ?r2)"
        "take (sr_committed r') (sr_tokens r') = take (sr_committed ?r2) (sr_tokens ?r2) @ map fst (take a rows) @ last_token"
        "loop_ends fo stops rows a last_token (complete_of outcome)"
        using Cons.IH [OF loop] push Cons.prems(2,3) by auto
      have "loop_ends fo stops (row # rows) (Suc a) last_token (complete_of outcome)"
        by (rule loop_ends_Suc [OF IH(6) t(2)]) (use go row in simp)
      then show ?thesis using IH(1-5) push t row
        by (intro exI [of _ "Suc a"] exI [of _ last_token] exI [of _ r'] conjI) simp_all
    qed
  qed
qed

text \<open>The end of the loop, by the index of the draft.\<close>

lemma loop_ends_zip:
  fixes drafts target_laws draft_laws us vs
  defines "rows \<equiv> zip drafts (zip target_laws (zip draft_laws (zip us vs)))"
  assumes ends: "loop_ends fo stops rows a last_token complete"
    and ext: "length target_laws = length drafts + 1" "length draft_laws = length drafts" "length us = length drafts" "length vs = length drafts"
  shows "a \<le> length drafts" and "map fst (take a rows) = take a drafts"
    and "i < a \<Longrightarrow> f64_lt (us ! i) (speculative_accept_probability fo (drafts ! i) (target_laws ! i) (draft_laws ! i))"
    and "i < a \<Longrightarrow> drafts ! i \<in> set stops \<Longrightarrow> i + 1 = a \<and> last_token = [] \<and> \<not> complete"
    and "if complete then a = length drafts \<and> last_token = []
      else if last_token = [] then 0 < a \<and> last (take a drafts) \<in> set stops
      else a < length drafts \<and> (\<exists>t. last_token = [t] \<and> t \<in> fst ` set (sd_masses (target_laws ! a))) \<and>
        \<not> f64_lt (us ! a) (speculative_accept_probability fo (drafts ! a) (target_laws ! a) (draft_laws ! a))"
proof -
  have len: "length rows = length drafts" using ext by (simp add: rows_def)
  have nth: "i < length drafts \<Longrightarrow> rows ! i = (drafts ! i, target_laws ! i, draft_laws ! i, us ! i, vs ! i)" for i
    using ext by (simp add: rows_def)
  show a: "a \<le> length drafts" using ends len by (simp add: loop_ends_def)
  show "map fst (take a rows) = take a drafts" using a ext by (simp add: rows_def list_eq_iff_nth_eq)
  show "i < a \<Longrightarrow> f64_lt (us ! i) (speculative_accept_probability fo (drafts ! i) (target_laws ! i) (draft_laws ! i))"
  proof -
    assume i: "i < a"
    then have "take a rows ! i \<in> set (take a rows)" using a len by (intro nth_mem) simp
    then have "row_accepts fo (rows ! i)" using ends i by (simp add: loop_ends_def)
    then show ?thesis using nth [of i] i a by simp
  qed
  show "i < a \<Longrightarrow> drafts ! i \<in> set stops \<Longrightarrow> i + 1 = a \<and> last_token = [] \<and> \<not> complete"
    using ends nth [of i] a by (auto simp: loop_ends_def)
  have final: "if complete then a = length rows \<and> last_token = []
     else if last_token = [] then 0 < a \<and> fst (rows ! (a - 1)) \<in> set stops
     else a < length rows \<and> \<not> row_accepts fo (rows ! a) \<and> (\<exists>t. last_token = [t] \<and> t \<in> fst ` set (sd_masses (fst (snd (rows ! a)))))"
    using ends unfolding loop_ends_def by blast
  have "last (take a drafts) = drafts ! (a - 1)" if "0 < a"
  proof -
    have "take a drafts \<noteq> []" "length (take a drafts) = a" using that a by auto
    then show ?thesis using last_conv_nth [of "take a drafts"] that by simp
  qed
  then show "if complete then a = length drafts \<and> last_token = []
      else if last_token = [] then 0 < a \<and> last (take a drafts) \<in> set stops
      else a < length drafts \<and> (\<exists>t. last_token = [t] \<and> t \<in> fst ` set (sd_masses (target_laws ! a))) \<and>
        \<not> f64_lt (us ! a) (speculative_accept_probability fo (drafts ! a) (target_laws ! a) (draft_laws ! a))"
    using final len nth [of a] nth [of "a - 1"] a by (auto split: if_splits)
qed

end
