(* ===== verification/MtpRun.thy ===== *)
theory MtpRun
  imports MtpLane
begin

text \<open>
  Sessions over a device that follows \<open>F\<close>: the calls of a speculative session, and of a single-slot session,
  are the calls of the reference.
\<close>

section \<open>The logit bank\<close>

lemma draft_write_ok:
  "draft_logits_write row l = Inr l' \<Longrightarrow> VERIFY_ROWS * VOCABULARY \<le> length l'"
  by (auto simp: draft_logits_write_def bank_write_def split: if_splits)

lemma length_concat_rows: "\<forall>r\<in>set rows. length r = n \<Longrightarrow> length (concat rows) = length rows * n"
  by (induction rows) auto

lemma concat_row:
  assumes "\<forall>r\<in>set rows. length r = n" and "i < length rows"
  shows "take n (drop (i * n) (concat rows @ rest)) = rows ! i"
  using assms
proof (induction rows arbitrary: i)
  case (Cons r rows)
  then show ?case by (cases i) simp_all
qed simp

lemma target_write_rows:
  assumes "target_logits_write (length rows) (concat rows) l = Inr l'" and "\<forall>r\<in>set rows. length r = VOCABULARY"
  shows "length l' = length l" and "i < length rows \<Longrightarrow> target_logits l' i = Inr (rows ! i)"
proof -
  have l': "l' = concat rows @ drop (length rows * VOCABULARY) l" and fits: "length rows * VOCABULARY \<le> length l"
    using assms(1) by (auto simp: target_logits_write_def bank_write_def split: if_splits)
  show "length l' = length l" using l' fits length_concat_rows [OF assms(2)] by simp
  assume i: "i < length rows"
  have "i * VOCABULARY + VOCABULARY \<le> length rows * VOCABULARY" using i by (metis mult_Suc mult_le_mono1 Suc_leI add.commute)
  then have "i * VOCABULARY + VOCABULARY \<le> length l'" using fits \<open>length l' = length l\<close> by simp
  moreover have "take VOCABULARY (drop (i * VOCABULARY) l') = rows ! i" unfolding l' by (rule concat_row [OF assms(2) i])
  ultimately show "target_logits l' i = Inr (rows ! i)" by (simp add: target_logits_def bank_slice_def)
qed

section \<open>What a round leaves alone\<close>

definition same_host :: "('d \<Rightarrow> device_view) \<Rightarrow> 'd mtp_session \<Rightarrow> 'd mtp_session \<Rightarrow> bool" where
  "same_host view s s' \<longleftrightarrow>
    ms_control s' = ms_control s \<and> ms_next_position s' = ms_next_position s \<and> ms_queued s' = ms_queued s \<and>
    ms_greedy s' = ms_greedy s \<and> ms_maximum_new_tokens s' = ms_maximum_new_tokens s \<and> ms_started s' = ms_started s \<and>
    ms_visible_generated s' = ms_visible_generated s \<and> ms_queue_len s' = ms_queue_len s \<and> ms_queue_start s' = ms_queue_start s \<and>
    ms_stop_ids s' = ms_stop_ids s \<and> view (ms_device s') = view (ms_device s) \<and>
    (VERIFY_ROWS * VOCABULARY \<le> length (ms_logits s) \<longrightarrow> VERIFY_ROWS * VOCABULARY \<le> length (ms_logits s'))"

lemma same_host_refl [simp]: "same_host view s s"
  by (simp add: same_host_def)

lemma same_host_trans: "same_host view s t \<Longrightarrow> same_host view t u \<Longrightarrow> same_host view s u"
  by (simp add: same_host_def)

lemma same_host_fields:
  assumes "same_host view s s'"
  shows "ms_control s' = ms_control s" "ms_next_position s' = ms_next_position s" "ms_queued s' = ms_queued s"
    "ms_greedy s' = ms_greedy s" "ms_maximum_new_tokens s' = ms_maximum_new_tokens s" "ms_started s' = ms_started s"
    "ms_visible_generated s' = ms_visible_generated s" "view (ms_device s') = view (ms_device s)"
    "ms_queue_len s' = ms_queue_len s" "ms_queue_start s' = ms_queue_start s"
    "VERIFY_ROWS * VOCABULARY \<le> length (ms_logits s) \<Longrightarrow> VERIFY_ROWS * VOCABULARY \<le> length (ms_logits s')"
  using assms by (simp_all add: same_host_def)

lemma same_host_device: "view d = view (ms_device s) \<Longrightarrow> same_host view s (s\<lparr>ms_device := d\<rparr>)"
  by (simp add: same_host_def)

lemma same_host_stats: "same_host view s (s\<lparr>ms_stats := st\<rparr>)"
  by (simp add: same_host_def)

lemma same_host_ready: "same_host view s t \<Longrightarrow> same_host view s (t\<lparr>ms_proposal_ready := p\<rparr>)"
  by (simp add: same_host_def)

lemma read_draft_ok:
  "mtp_read_draft prog row s = (Inr u, s') \<longleftrightarrow>
    (\<exists>bits l. read_draft prog row (ms_device s) = Inr bits \<and> draft_logits_write bits (ms_logits s) = Inr l \<and> s' = s\<lparr>ms_logits := l\<rparr>)"
proof (cases "read_draft prog row (ms_device s)")
  case (Inr bits)
  then show ?thesis by (cases "draft_logits_write bits (ms_logits s)") (auto simp: mtp_read_draft_def)
qed (simp add: mtp_read_draft_def)

lemma read_target_ok:
  "mtp_read_target prog n s = (Inr u, s') \<longleftrightarrow>
    (\<exists>bits l. read_target prog n (ms_device s) = Inr bits \<and> target_logits_write n bits (ms_logits s) = Inr l \<and> s' = s\<lparr>ms_logits := l\<rparr>)"
proof (cases "read_target prog n (ms_device s)")
  case (Inr bits)
  then show ?thesis by (cases "target_logits_write n bits (ms_logits s)") (auto simp: mtp_read_target_def)
qed (simp add: mtp_read_target_def)

lemma read_draft_host: "mtp_read_draft prog row s = (Inr u, s') \<Longrightarrow> same_host view s s'"
  by (auto simp: read_draft_ok same_host_def dest: draft_write_ok)

text \<open>A call on the draft model.\<close>

lemma draft_call_host:
  assumes "follows F prog view" and "mpart ms_device (\<lambda>d s. s\<lparr>ms_device := d\<rparr>) (exec_call prog call) s = (Inr u, s')"
    and "\<And>v. view_call F call v = Some v"
  shows "same_host view s s'"
  using assms(2) followsD(1) [OF assms(1) _ assms(3)] by (auto simp: method_ok intro: same_host_device)

lemma seed_host:
  assumes "follows F prog view" and "seed_proposal prog token pos s = (Inr u, s')"
  shows "same_host view s s'"
proof -
  obtain s1 s2 where 1: "mpart ms_device (\<lambda>d s. s\<lparr>ms_device := d\<rparr>) (exec_call prog (MtpDraft 0 pos token)) s = (Inr (), s1)"
    and 2: "mtp_read_draft prog 0 s1 = (Inr (), s2)" and 3: "s' = s2\<lparr>ms_proposal_ready := True\<rparr>"
    using assms(2) by (auto simp: seed_proposal_def mbind_ok mlift_ok mmodify_ok)
  show ?thesis
    unfolding 3 by (rule same_host_ready, rule same_host_trans [OF draft_call_host [OF assms(1) 1] read_draft_host [OF 2]]) simp
qed

lemma continue_host:
  assumes "follows F prog view" and "continue_proposal prog token pos s = (Inr u, s')"
  shows "same_host view s s'"
proof -
  obtain s1 where 1: "mpart ms_device (\<lambda>d s. s\<lparr>ms_device := d\<rparr>) (exec_call prog (MtpContinueDraft 0 pos token)) s = (Inr (), s1)"
    and 2: "mtp_read_draft prog 0 s1 = (Inr (), s')"
    using assms(2) by (auto simp: continue_proposal_def mbind_ok mlift_ok)
  show ?thesis using same_host_trans [OF draft_call_host [OF assms(1) 1] read_draft_host [OF 2]] by simp
qed

lemma realign_host:
  assumes "follows F prog view" and "realign prog outputs prime_only s = (Inr u, s')"
  shows "same_host view s s'"
proof (cases prime_only)
  case True
  then have "mpart ms_device (\<lambda>d s. s\<lparr>ms_device := d\<rparr>) (exec_call prog (MtpPrime (length outputs) 0 (ms_next_position s) outputs)) s = (Inr u, s')"
    using assms(2) by (auto simp: realign_def mbind_ok mlift_ok mget_ok)
  then show ?thesis by (rule draft_call_host [OF assms(1)]) simp
next
  case False
  then obtain s1 where 1: "mpart ms_device (\<lambda>d s. s\<lparr>ms_device := d\<rparr>) (exec_call prog (MtpRealign (length outputs) 0 (ms_next_position s) outputs)) s = (Inr (), s1)"
    and 2: "mtp_read_draft prog (length outputs - 1) s1 = (Inr u, s')"
    using assms(2) by (auto simp: realign_def mbind_ok mlift_ok mget_ok)
  show ?thesis using same_host_trans [OF draft_call_host [OF assms(1) 1] read_draft_host [OF 2]] by simp
qed

text \<open>On the greedy route the drafting leaves the control session as it was.\<close>

lemma propose_draft_host:
  assumes "propose_draft fo drafts s = (Inr p, s')" and "ms_greedy s" and "is_greedy (sa_options (gs_sampler (ms_control s)))"
  shows "s' = s"
proof -
  obtain row d g where "propose_logits fo row drafts (ms_control s) = (Inr d, g)" "s' = s\<lparr>ms_control := g\<rparr>"
    using assms(1,2) by (auto simp: propose_draft_def method_ok)
  then show ?thesis using propose_greedy [OF assms(3)] by simp
qed

lemma draft_loop_host:
  assumes "follows F prog view" and "draft_loop fo prog missing drafts laws s = (Inr (drafts', laws'), s')"
    and "ms_greedy s" and "is_greedy (sa_options (gs_sampler (ms_control s)))"
  shows "same_host view s s' \<and> length drafts' = length drafts + missing"
  using assms(2-4)
proof (induction missing arbitrary: drafts laws s)
  case (Suc n)
  obtain token law s1 s2 where 1: "propose_draft fo drafts s = (Inr (token, law), s1)"
    and 2: "(if 0 < n
           then mbind (mget ms_next_position) (\<lambda>first_position.
             mbind (mlift (ok_or (checked_add first_position (length drafts)) (generation_error ''resident MTP position overflows''))) (\<lambda>pos.
             continue_proposal prog token pos))
           else mreturn ()) (s1\<lparr>ms_stats := (ms_stats s1)\<lparr>mt_draft_proposals := mt_draft_proposals (ms_stats s1) + 1\<rparr>\<rparr>) = (Inr (), s2)"
    and 3: "draft_loop fo prog n (drafts @ [token]) (laws @ [law]) s2 = (Inr (drafts', laws'), s')"
    using Suc.prems(1) by (simp add: mbind_ok mmodify_ok del: mbind_return) blast
  have "s1 = s" by (rule propose_draft_host [OF 1 Suc.prems(2,3)])
  moreover have "same_host view (s1\<lparr>ms_stats := (ms_stats s1)\<lparr>mt_draft_proposals := mt_draft_proposals (ms_stats s1) + 1\<rparr>\<rparr>) s2"
    using 2 continue_host [OF assms(1)] by (cases "0 < n") (auto simp: mbind_ok mget_ok mlift_ok mreturn_ok)
  ultimately have host: "same_host view s s2" using same_host_trans [OF same_host_stats] by blast
  show ?case using Suc.IH [OF 3] same_host_trans [OF host] same_host_fields [OF host] Suc.prems(2,3) by simp
qed (simp add: mreturn_ok)

section \<open>Verification\<close>

lemma verify_view:
  assumes "follows F prog view" and "verify_target prog inputs s = (Inr route, s')"
    and "dv_processed (view (ms_device s)) = ctx" and "ms_next_position s = length ctx"
  shows "\<exists>d l. s' = s\<lparr>ms_device := d, ms_logits := l\<rparr> \<and> route = length inputs \<and> dv_processed (view d) = ctx \<and> dv_verified (view d) = inputs \<and>
    length l = length (ms_logits s) \<and> inputs \<noteq> [] \<and> (\<forall>i<length inputs. target_logits l i = Inr (F (ctx @ take (i + 1) inputs)))"
proof -
  let ?n = "length inputs" and ?rows = "map (\<lambda>i. F (ctx @ take (i + 1) inputs)) [0..<length inputs]"
  obtain d1 d2 bits l where 1: "exec_call prog (StageEmbeddings inputs) (ms_device s) = (Inr (), d1)"
    and rope: "round_rope (ms_next_position s) ?n = Inr ()" and 2: "exec_call prog (TargetVerify ?n 0 (ms_next_position s)) d1 = (Inr (), d2)"
    and 3: "read_target prog ?n d2 = Inr bits" "target_logits_write ?n bits (ms_logits s) = Inr l"
    and s': "s' = s\<lparr>ms_device := d2, ms_logits := l\<rparr>" "route = ?n"
    using assms(2) by (auto simp: verify_target_def mbind_ok mget_ok mlift_ok mreturn_ok mpart_ok read_target_ok)
  have "view d1 = (view (ms_device s))\<lparr>dv_staged := inputs\<rparr>" using followsD(1) [OF assms(1) 1] by simp
  then have d2: "view d2 = (view d1)\<lparr>dv_verified := inputs, dv_rows := ?rows\<rparr>" "dv_processed (view d2) = ctx"
    using followsD(1) [OF assms(1) 2] assms(3,4) by simp_all
  have "bits = concat (take ?n ?rows)" using followsD(2) [OF assms(1) 3(1)] d2(1) by simp
  then have "target_logits_write (length ?rows) (concat ?rows) (ms_logits s) = Inr l" using 3(2) by simp
  note bank = target_write_rows [OF this]
  have len: "\<forall>r\<in>set ?rows. length r = VOCABULARY" using followsD(3) [OF assms(1)] by simp
  have "inputs \<noteq> []" using rope by (auto simp: round_rope_def split: if_splits)
  then show ?thesis using s' d2 bank(1) [OF len] bank(2) [OF len]
    by (intro exI [of _ d2] exI [of _ l]) simp
qed

end
