(* ===== verification/MtpSequential.thy ===== *)
theory MtpSequential
  imports MtpRun
begin

text \<open>
  The simulation: a speculative session runs ahead of its caller by the queued steps, and everything it
  has done is what the reference does.
\<close>

section \<open>Invariant\<close>

text \<open>\<open>h\<close> is the reference session the caller has seen, \<open>q\<close> the queued steps.\<close>

definition mtp_aligned :: "(nat list \<Rightarrow> bf16 list) \<Rightarrow> ('d \<Rightarrow> device_view) \<Rightarrow> 'd mtp_session \<Rightarrow> bool" where
  "mtp_aligned F view s \<longleftrightarrow>
    (let ctx = session_context (ms_control s); consumed_tokens = dv_processed (view (ms_device s)) in
     if ms_started s
     then gs_generated (ms_control s) \<noteq> [] \<and> consumed_tokens = butlast ctx \<and> ms_next_position s = length ctx - 1
     else gs_generated (ms_control s) = [] \<and> consumed_tokens = ctx \<and> ms_next_position s = length ctx \<and> target_logits (ms_logits s) 0 = Inr (F ctx))"

definition mtp_related ::
  "float_ops \<Rightarrow> text_frontend \<Rightarrow> (nat list \<Rightarrow> bf16 list) \<Rightarrow> ('d \<Rightarrow> device_view) \<Rightarrow> 'd mtp_session \<Rightarrow> generation_step list \<Rightarrow> generation_session \<Rightarrow> bool" where
  "mtp_related fo tf F view s q h \<longleftrightarrow>
    mrepeat (length q) (ref_step fo tf F) h = (Inr q, ms_control s) \<and>
    ms_queue_len s = length q \<and> queued_from (ms_queued s) (ms_queue_start s) q \<and> (q \<noteq> [] \<longrightarrow> ms_started s) \<and>
    ms_visible_generated s = length (gs_generated h) \<and>
    length (ms_queued s) = VERIFY_ROWS \<and> VERIFY_ROWS * VOCABULARY \<le> length (ms_logits s) \<and>
    ms_greedy s \<and> is_greedy (sa_options (gs_sampler (ms_control s))) \<and>
    (gs_finish_reason (ms_control s) = None \<longrightarrow> mtp_aligned F view s)"

section \<open>The steps\<close>

lemma take_queued_related:
  assumes "mtp_related fo tf F view s q h" and "q \<noteq> []" and "take_queued s = (Inr step, s')"
  shows "\<exists>q' h'. ref_step fo tf F h = (Inr step, h') \<and> mtp_related fo tf F view s' q' h'"
proof -
  note rel = assms(1)[unfolded mtp_related_def]
  obtain x xs where q: "q = x # xs" using assms(2) by (cases q) auto
  have q0: "queued_from (ms_queued s) (ms_queue_start s) (x # xs)" using rel q by simp
  then have at: "ms_queue_start s < length (ms_queued s)" "ms_queued s ! ms_queue_start s = Some x"
    and rest: "queued_from (ms_queued s) (Suc (ms_queue_start s)) xs" by (simp_all add: queued_from_Cons)
  obtain h' where h': "ref_step fo tf F h = (Inr x, h')" "mrepeat (length xs) (ref_step fo tf F) h' = (Inr xs, ms_control s)"
    using rel q by (auto simp: mrepeat_split simp del: mrepeat.simps)
  have step: "step = x" and s': "s' = s\<lparr>ms_queued := (ms_queued s)[ms_queue_start s := None],
           ms_queue_start := (if ms_queue_len s = 1 then 0 else ms_queue_start s + 1),
           ms_queue_len := ms_queue_len s - 1, ms_visible_generated := ms_visible_generated s + 1\<rparr>"
    using assms(3) at by (simp_all add: take_queued_def)
  have "queued_from ((ms_queued s)[ms_queue_start s := None]) (Suc (ms_queue_start s)) xs" using rest by (simp add: queued_from_def)
  then have "queued_from (ms_queued s') (ms_queue_start s') xs" using rel q s' by (cases xs) (simp_all add: queued_from_def)
  moreover have "length (gs_generated h') = Suc (length (gs_generated h))"
    using accept_logits_fields [OF h'(1) [unfolded ref_step_def]] by simp
  moreover have "mtp_aligned F view s' = mtp_aligned F view s" by (simp add: mtp_aligned_def s')
  ultimately have "mtp_related fo tf F view s' xs h'" using rel q h'(2) s' unfolding mtp_related_def by simp
  then show ?thesis using h'(1) step by blast
qed

lemma accept_row_related:
  assumes "accept_logits fo tf (F (session_context g)) g = (Inr step, g')"
  shows "ref_step fo tf F g = (Inr step, g') \<and> gs_generated g' \<noteq> [] \<and> session_context g' = session_context g @ [st_token_id step] \<and>
    length (gs_generated g') = Suc (length (gs_generated g)) \<and> sa_options (gs_sampler g') = sa_options (gs_sampler g)"
  using accept_logits_fields [OF assms] accept_context [OF assms] assms by (simp add: ref_step_def)

lemma anchor_related:
  assumes "follows F prog view" and "mtp_related fo tf F view s [] h" and "\<not> ms_started s"
    and "gs_finish_reason (ms_control s) = None" and "start_anchor fo tf prog s = (Inr step, s')"
  shows "\<exists>h'. ref_step fo tf F h = (Inr step, h') \<and> mtp_related fo tf F view s' [] h'"
proof -
  note rel = assms(2)[unfolded mtp_related_def]
  have h: "h = ms_control s" using rel by (simp add: mreturn_ok)
  have al: "mtp_aligned F view s" using rel assms(4) by simp
  then have row: "target_logits (ms_logits s) 0 = Inr (F (session_context h))"
    and fresh: "gs_generated h = []" "dv_processed (view (ms_device s)) = session_context h" "ms_next_position s = length (session_context h)"
    using assms(3) h by (simp_all add: mtp_aligned_def Let_def)
  let ?after = "\<lambda>g. s\<lparr>ms_control := g, ms_started := True, ms_visible_generated := 1\<rparr>"
  obtain g where acc: "accept_logits fo tf (F (session_context h)) h = (Inr step, g)"
    and rest: "(if st_finish_reason step = None
           then if ms_next_position (?after g) = 0 then mfail (generation_error ''resident MTP anchor position underflows'')
                else seed_proposal prog (st_token_id step) (ms_next_position (?after g) - 1)
           else mreturn ()) (?after g) = (Inr (), s')"
    using assms(5) row h by (auto simp: start_anchor_def mbind_ok mget_ok mlift_ok mpart_ok mmodify_ok mreturn_ok simp del: One_nat_def)
  have "same_host view (s\<lparr>ms_control := g, ms_started := True, ms_visible_generated := 1\<rparr>) s'"
    using rest seed_host [OF assms(1)] by (auto simp: mfail_ok mreturn_ok split: if_splits)
  note host = same_host_fields [OF this, simplified]
  note now = accept_row_related [of fo tf F h step g, OF acc]
  have "mtp_aligned F view s'" using fresh host now by (simp add: mtp_aligned_def Let_def)
  then have "mtp_related fo tf F view s' [] g" using rel host now fresh h unfolding mtp_related_def by (simp add: mreturn_ok queued_from_def)
  then show ?thesis using now h by blast
qed

lemma context_last: "gs_generated g \<noteq> [] \<Longrightarrow> session_context g = butlast (session_context g) @ [last (gs_generated g)]"
  by (simp add: session_context_def butlast_append flip: append_butlast_last_id)

lemma advance_ok: "advance_position n s = (Inr u, s') \<longleftrightarrow> checked_add (ms_next_position s) n \<noteq> None \<and> s' = s\<lparr>ms_next_position := ms_next_position s + n\<rparr>"
  by (auto simp: advance_position_def mbind_ok mget_ok mlift_ok mmodify_ok ok_or_Inr_iff checked_add_Some_iff)

lemma last_generated_ok: "last_generated m s = (Inr t, s') \<longleftrightarrow> s' = s \<and> gs_generated (ms_control s) \<noteq> [] \<and> t = last (gs_generated (ms_control s))"
  by (auto simp: last_generated_def mbind_ok mget_ok mfail_ok mreturn_ok)

lemma commit_view:
  assumes "follows F prog view" and "mpart ms_device (\<lambda>d s. s\<lparr>ms_device := d\<rparr>) (exec_call prog (TargetCommit n c)) s = (Inr u, s')"
    and "length (dv_verified (view (ms_device s))) = n" and "c \<le> n"
  shows "\<exists>d. s' = s\<lparr>ms_device := d\<rparr> \<and> dv_processed (view d) = dv_processed (view (ms_device s)) @ take c (dv_verified (view (ms_device s)))"
proof -
  obtain d where d: "exec_call prog (TargetCommit n c) (ms_device s) = (Inr u, d)" "s' = s\<lparr>ms_device := d\<rparr>" using assms(2) by (auto simp: mpart_ok)
  then show ?thesis using followsD(1) [OF assms(1) d(1)] assms(3,4) by (intro exI [of _ d]) simp
qed

lemma final_related:
  assumes "follows F prog view" and "mtp_related fo tf F view s [] h" and "ms_started s"
    and "gs_finish_reason (ms_control s) = None" and "run_final_target_step fo tf prog s = (Inr step, s')"
  shows "\<exists>h'. ref_step fo tf F h = (Inr step, h') \<and> mtp_related fo tf F view s' [] h'"
proof -
  note rel = assms(2)[unfolded mtp_related_def]
  have h: "h = ms_control s" using rel by (simp add: mreturn_ok)
  let ?ctx = "session_context h" and ?anchor = "last (gs_generated h)"
  have al: "mtp_aligned F view s" using rel assms(4) by simp
  then have started: "gs_generated h \<noteq> []" "dv_processed (view (ms_device s)) = butlast ?ctx" "ms_next_position s = length (butlast ?ctx)"
    using assms(3) h by (simp_all add: mtp_aligned_def Let_def)
  have ctx: "?ctx = butlast ?ctx @ [?anchor]" by (rule context_last [OF started(1)])
  obtain route s1 g s2 s3 row where v: "verify_target prog [?anchor] s = (Inr route, s1)"
    and row: "target_logits (ms_logits s1) 0 = Inr row"
    and acc: "accept_logits fo tf row (ms_control s1) = (Inr step, g)"
    and commit: "mpart ms_device (\<lambda>d s. s\<lparr>ms_device := d\<rparr>) (exec_call prog (TargetCommit route 1)) (s1\<lparr>ms_control := g\<rparr>) = (Inr (), s2)"
    and re: "realign prog [st_token_id step] True s2 = (Inr (), s3)"
    and s': "s' = s3\<lparr>ms_next_position := ms_next_position s3 + 1, ms_stats := record_round 1 0 1 (ms_stats s3), ms_proposal_ready := False,
                          ms_visible_generated := ms_visible_generated s3 + 1\<rparr>"
    using assms(5) h by (auto simp: run_final_target_step_def mbind_ok mget_ok mlift_ok mpart_ok [of ms_control] mmodify_ok mreturn_ok last_generated_ok advance_ok)
  obtain d l where s1: "s1 = s\<lparr>ms_device := d, ms_logits := l\<rparr>" "route = 1" "dv_processed (view d) = butlast ?ctx" "dv_verified (view d) = [?anchor]"
    "length l = length (ms_logits s)" "target_logits l 0 = Inr (F (butlast ?ctx @ [?anchor]))"
    using verify_view [OF assms(1) v started(2,3)] by auto
  have "accept_logits fo tf (F ?ctx) h = (Inr step, g)" using acc row s1 ctx h by simp
  note now = accept_row_related [of fo tf F h step g, OF this]
  obtain d2 where s2: "s2 = s1\<lparr>ms_control := g, ms_device := d2\<rparr>" "dv_processed (view d2) = butlast ?ctx @ [?anchor]"
    using commit_view [OF assms(1) commit] s1 by auto
  note host = same_host_fields [OF realign_host [OF assms(1) re], unfolded s2(1) s1(1), simplified]
  have "length ?ctx = Suc (length (butlast ?ctx))" using ctx by (metis length_append_singleton)
  then have "mtp_aligned F view s'" using s' host started now s2(2) ctx assms(3) by (simp add: mtp_aligned_def Let_def)
  then have "mtp_related fo tf F view s' [] g" using rel s' host now s1(5) h unfolding mtp_related_def by (simp add: mreturn_ok queued_from_def)
  then show ?thesis using now h by blast
qed

lemma queued_steps_ok: "queued_steps n s = (Inr steps, s') \<longleftrightarrow> s' = s \<and> n \<le> length (ms_queued s) \<and> those (take n (ms_queued s)) = Some steps"
  by (auto simp: queued_steps_def mbind_ok mget_ok mfail_ok mlift_ok ok_or_Inr_iff)

lemma those_map_Some [simp]: "those (map Some xs) = Some xs"
  by (induction xs) simp_all

lemma queued_from_those: "queued_from queued 0 steps \<Longrightarrow> those (take (length steps) queued) = Some steps"
  by (simp add: queued_from_def)

lemma decide_round_ok:
  assumes "decide_round fo tf drafts laws s = (Inr (c, a), s')" and "ms_greedy s"
  shows "\<exists>r. decide_greedy_round fo tf (ms_logits s) VOCABULARY drafts \<lparr>rs_control = ms_control s, rs_queued = ms_queued s\<rparr> = (Inr (c, a), r) \<and>
    s' = s\<lparr>ms_control := rs_control r, ms_queued := rs_queued r\<rparr>"
  using assms by (auto simp: decide_round_def mbind_ok mget_ok mpart_ok)

lemma speculative_related:
  assumes "follows F prog view" and "mtp_related fo tf F view s [] h" and "ms_started s"
    and "gs_finish_reason (ms_control s) = None" and "run_speculative_round fo tf prog remaining s = (Inr u, s')"
  shows "\<exists>q. q \<noteq> [] \<and> mtp_related fo tf F view s' q h"
proof -
  note rel = assms(2)[unfolded mtp_related_def]
  have h: "h = ms_control s" using rel by (simp add: mreturn_ok)
  let ?ctx = "session_context h" and ?anchor = "last (gs_generated h)"
  have al: "mtp_aligned F view s" using rel assms(4) by simp
  then have started: "gs_generated h \<noteq> []" "dv_processed (view (ms_device s)) = butlast ?ctx" "ms_next_position s = length (butlast ?ctx)"
    using assms(3) h by (simp_all add: mtp_aligned_def Let_def)
  have ctx: "?ctx = butlast ?ctx @ [?anchor]" by (rule context_last [OF started(1)])
  obtain drafts laws s1 route s2 c a s3 s4 steps s5 where
    dr: "draft_loop fo prog (min DRAFT_WINDOW (remaining - 1)) [] [] s = (Inr (drafts, laws), s1)"
    and v: "verify_target prog (last (gs_generated (ms_control s1)) # drafts) s1 = (Inr route, s2)"
    and dec: "decide_round fo tf drafts laws s2 = (Inr (c, a), s3)" and c: "0 < c"
    and commit: "mpart ms_device (\<lambda>d s. s\<lparr>ms_device := d\<rparr>) (exec_call prog (TargetCommit route c)) s3 = (Inr (), s4)"
    and steps: "those (take c (ms_queued s4)) = Some steps"
    and re: "realign prog (map st_token_id steps) (st_finish_reason (last steps) \<noteq> None) s4 = (Inr (), s5)"
    and s': "s' = s5\<lparr>ms_next_position := ms_next_position s5 + c, ms_queue_start := 0, ms_queue_len := c,
                       ms_stats := record_round route a c (ms_stats s5), ms_proposal_ready := st_finish_reason (last steps) = None\<rparr>"
    using assms(5)
    by (auto simp: run_speculative_round_def mbind_ok mget_ok mfail_ok mmodify_ok last_generated_ok advance_ok queued_steps_ok Let_def split: if_splits)
  have "same_host view s s1" "length drafts \<le> DRAFT_WINDOW"
    using draft_loop_host [OF assms(1) dr] rel by simp_all
  note host1 = same_host_fields [OF this(1)] and extent = this(2)
  have v': "verify_target prog (?anchor # drafts) s1 = (Inr route, s2)" using v host1(1) h by simp
  have at1: "dv_processed (view (ms_device s1)) = butlast ?ctx" "ms_next_position s1 = length (butlast ?ctx)"
    using host1 started by simp_all
  obtain d l where s2: "s2 = s1\<lparr>ms_device := d, ms_logits := l\<rparr>" "route = Suc (length drafts)" "dv_processed (view d) = butlast ?ctx"
    "dv_verified (view d) = ?anchor # drafts" "length l = length (ms_logits s1)"
    and rows: "\<forall>i<Suc (length drafts). target_logits l i = Inr (F (butlast ?ctx @ take (i + 1) (?anchor # drafts)))"
    using verify_view [OF assms(1) v' at1] by auto
  obtain r where r: "decide_greedy_round fo tf l VOCABULARY drafts \<lparr>rs_control = h, rs_queued = ms_queued s\<rparr> = (Inr (c, a), r)"
    and s3: "s3 = s2\<lparr>ms_control := rs_control r, ms_queued := rs_queued r\<rparr>"
    using decide_round_ok [OF dec] s2(1) host1 rel h by auto
  have after: "rows_after F ?ctx (\<lambda>i. target_row l i VOCABULARY) drafts"
  proof -
    have "target_row l i VOCABULARY = Inr (F (?ctx @ take i drafts))" if "i \<le> length drafts" for i
    proof -
      have "butlast ?ctx @ take (i + 1) (?anchor # drafts) = ?ctx @ take i drafts" using ctx by (metis Suc_eq_plus1 append_Cons append_Nil append_assoc take_Suc_Cons)
      then show ?thesis using rows that by (metis less_Suc_eq_le target_logits_def target_row_def)
    qed
    then show ?thesis by (simp add: rows_after_def)
  qed
  obtain q where run: "mrepeat c (ref_step fo tf F) h = (Inr q, rs_control r)" and q: "queued_from (rs_queued r) 0 q"
    "length (rs_queued r) = length (ms_queued s)" and res: "round_result drafts q a (rs_control r)"
    using greedy_round_ref [OF r, of F] after assms(4) h by auto
  have len: "length q = c" by (rule mrepeat_length [OF run])
  have c_le: "c \<le> Suc (length drafts)" using res len by (auto simp: round_result_def)
  obtain d4 where s4: "s4 = s3\<lparr>ms_device := d4\<rparr>" "dv_processed (view d4) = butlast ?ctx @ take c (?anchor # drafts)"
    using commit_view [OF assms(1) commit] s2 s3 c_le by auto
  have "steps = q" using steps queued_from_those [OF q(1)] len s4(1) s3 by simp
  note host5 = same_host_fields [OF realign_host [OF assms(1) re]]
  have control: "ms_control s' = rs_control r" "ms_queued s' = rs_queued r" "ms_started s'" "ms_greedy s'"
    "ms_queue_len s' = c" "ms_queue_start s' = 0" "ms_visible_generated s' = ms_visible_generated s"
    using s' host5 s4(1) s3 s2(1) host1 assms(3) rel by simp_all
  have bank: "VERIFY_ROWS * VOCABULARY \<le> length (ms_logits s')"
    using s' host5(11) s4(1) s3 s2(1,5) host1(11) rel by simp
  note refc = ref_context [OF run]
  have "mtp_aligned F view s'"
  proof -
    have q0: "q \<noteq> []" using len c by auto
    have butlast_q: "map st_token_id (butlast q) = take (c - 1) drafts"
    proof -
      have "c - 1 \<le> a" using res len by (auto simp: round_result_def)
      then have "take (c - 1) (map st_token_id (take a q)) = take (c - 1) (take a drafts)" using res by (simp add: round_result_def)
      then have "map st_token_id (take (c - 1) q) = take (c - 1) drafts" using \<open>c - 1 \<le> a\<close> by (simp add: take_map min_absorb1)
      then show ?thesis by (simp add: butlast_conv_take len)
    qed
    have "take c (?anchor # drafts) = ?anchor # take (c - 1) drafts" using c by (cases c) simp_all
    then have "dv_processed (view d4) = ?ctx @ map st_token_id (butlast q)" using s4(2) butlast_q ctx by (metis append_Cons append_Nil append_assoc)
    moreover have "butlast (session_context (rs_control r)) = ?ctx @ map st_token_id (butlast q)"
      using refc q0 by (simp add: butlast_append map_butlast)
    moreover have "length (session_context (rs_control r)) - 1 = length (butlast ?ctx) + c"
    proof -
      have "length ?ctx = Suc (length (butlast ?ctx))" using ctx by (metis length_append_singleton)
      moreover have "length (session_context (rs_control r)) = length ?ctx + c" using refc len by simp
      ultimately show ?thesis by linarith
    qed
    moreover have "ms_next_position s' = length (butlast ?ctx) + c" "view (ms_device s') = view d4"
      using s' host5 s4(1) s3 s2(1) at1 by simp_all
    ultimately show ?thesis using refc started(1) control by (simp add: mtp_aligned_def Let_def)
  qed
  then have "mtp_related fo tf F view s' q h"
    using rel run len q control bank refc h unfolding mtp_related_def by simp
  then show ?thesis using len c by auto
qed

lemma mtp_step_related:
  assumes "follows F prog view" and "mtp_related fo tf F view s q h" and "mtp_step fo tf prog s = (Inr step, s')"
  shows "\<exists>q' h'. ref_step fo tf F h = (Inr step, h') \<and> mtp_related fo tf F view s' q' h'"
proof (cases "q = []")
  case False
  then have "take_queued s = (Inr step, s')" using assms(2,3) by (simp add: mtp_related_def mtp_step_def mbind_ok mget_ok)
  then show ?thesis by (rule take_queued_related [OF assms(2) False])
next
  case True
  then have rel: "mtp_related fo tf F view s [] h" and empty: "ms_queue_len s = 0" using assms(2) by (simp_all add: mtp_related_def)
  let ?remaining = "ms_maximum_new_tokens s - length (gs_generated (ms_control s))"
  have fin: "gs_finish_reason (ms_control s) = None"
    using assms(3) empty by (auto simp: mtp_step_def mbind_ok mget_ok mfail_ok split: if_splits)
  show ?thesis
  proof (cases "ms_started s")
    case False
    then have "start_anchor fo tf prog s = (Inr step, s')" using assms(3) empty fin by (simp add: mtp_step_def mbind_ok mget_ok)
    then show ?thesis using anchor_related [OF assms(1) rel False fin] by blast
  next
    case started: True
    show ?thesis
    proof (cases "?remaining = 1")
      case True
      then have "run_final_target_step fo tf prog s = (Inr step, s')"
        using assms(3) empty fin started by (simp add: mtp_step_def mbind_ok mget_ok mfail_ok Let_def split: if_splits)
      then show ?thesis using final_related [OF assms(1) rel started fin] by blast
    next
      case False
      then obtain s1 where 1: "run_speculative_round fo tf prog ?remaining s = (Inr (), s1)" and 2: "take_queued s1 = (Inr step, s')"
        using assms(3) empty fin started by (auto simp: mtp_step_def mbind_ok mget_ok mfail_ok Let_def split: if_splits)
      obtain q1 where q1: "q1 \<noteq> []" "mtp_related fo tf F view s1 q1 h" using speculative_related [OF assms(1) rel started fin 1] by blast
      show ?thesis by (rule take_queued_related [OF q1(2,1) 2])
    qed
  qed
qed

lemma mtp_steps_related:
  assumes "follows F prog view" and "mtp_related fo tf F view s q h" and "mrepeat n (mtp_step fo tf prog) s = (Inr steps, s')"
  shows "\<exists>q' h'. mrepeat n (ref_step fo tf F) h = (Inr steps, h') \<and> mtp_related fo tf F view s' q' h'"
  using assms(2,3)
proof (induction n arbitrary: s q h steps)
  case 0
  then show ?case by (auto simp: mreturn_ok)
next
  case (Suc n)
  obtain x s1 xs where one: "mtp_step fo tf prog s = (Inr x, s1)" and rest: "mrepeat n (mtp_step fo tf prog) s1 = (Inr xs, s')" and "steps = x # xs"
    using Suc.prems(2) by (auto simp: mrepeat_split simp del: mrepeat.simps)
  obtain q1 h1 where h1: "ref_step fo tf F h = (Inr x, h1)" "mtp_related fo tf F view s1 q1 h1"
    using mtp_step_related [OF assms(1) Suc.prems(1) one] by blast
  obtain q' h' where "mrepeat n (ref_step fo tf F) h1 = (Inr xs, h')" "mtp_related fo tf F view s' q' h'"
    using Suc.IH [OF h1(2) rest] by blast
  then show ?case using h1(1) \<open>steps = x # xs\<close> by (auto simp: mrepeat_split simp del: mrepeat.simps)
qed

section \<open>Start\<close>

lemma session_start_fresh: "session_start tf prompt request = Inr g \<Longrightarrow> gs_generated g = [] \<and> gs_prompt g = prompt \<and> sa_options (gs_sampler g) = rq_sampling request"
proof -
  assume start: "session_start tf prompt request = Inr g"
  obtain ti where "session_ok tf prompt request ti [] g" using session_start_ok [OF start] by blast
  then show ?thesis by (simp add: session_ok_def)
qed

lemma consumed_row: "consumed F v ctx \<Longrightarrow> ctx \<noteq> [] \<Longrightarrow> dv_rows v = [F ctx] \<and> dv_processed v = ctx"
  by (simp add: consumed_def)

lemma mtp_start_related:
  assumes "follows F prog view" and "length logits = LOGIT_ROWS * VOCABULARY" and "is_greedy (rq_sampling request)"
    and "mtp_start prog tf prompt request logits d = Inr s"
  shows "\<exists>g. session_start tf prompt request = Inr g \<and> mtp_related fo tf F view s [] g"
proof -
  let ?ids = "pe_token_ids prompt"
  obtain g positions where g: "session_start tf prompt request = Inr g"
    and cap: "require_mtp_capacity (length ?ids) (rq_max_new_tokens request) (capacity prog) = Inr positions"
    using assms(4) by (auto simp: mtp_start_def rbind_Inr_iff split: if_splits)
  note fresh = session_start_fresh [OF g]
  have ctx: "session_context g = ?ids" using fresh by (simp add: session_context_def)
  have big: "VERIFY_ROWS * VOCABULARY \<le> length logits" using assms(2) by (simp add: LOGIT_ROWS_def)
  have "ms_control s = g" and queue: "ms_queue_len s = 0" "ms_visible_generated s = 0" "length (ms_queued s) = VERIFY_ROWS" "ms_greedy s"
    "\<not> ms_started s" "ms_next_position s = length ?ids"
    using assms(3,4) g by (auto simp: mtp_start_def rbind_Inr_iff split: if_splits)
  moreover have "VERIFY_ROWS * VOCABULARY \<le> length (ms_logits s) \<and>
    (gs_finish_reason g = None \<longrightarrow> dv_processed (view (ms_device s)) = ?ids \<and> target_logits (ms_logits s) 0 = Inr (F ?ids))"
  proof (cases "gs_finish_reason g = None")
    case False
    then have "ms_logits s = logits" using assms(4) g cap by (auto simp: mtp_start_def split: if_splits)
    then show ?thesis using False big by auto
  next
    case True
    obtain d1 d2 d3 d4 d5 native d' row l where
      "exec_call prog (RecycleKvSlot 0) d = (Inr (), d1)" and d2: "exec_call prog (ResetSlot 0) d1 = (Inr (), d2)"
      and d3: "exec_call prog (ActivateKvSlot 0) d2 = (Inr (), d3)" and d4: "exec_call prog (ReserveKvSlot 0 positions) d3 = (Inr (), d4)"
      and d5: "exec_call prog (LoadSlotRoutes [0]) d4 = (Inr (), d5)" and prime: "mtp_prime_prompt prog ?ids 0 0 None d5 = (Inr native, d')"
      and row: "read_target prog 1 d' = Inr row" and l: "target_logits_write 1 row logits = Inr l" and s: "ms_device s = d'" "ms_logits s = l"
    proof -
      let ?prime = "mbind (exec_call prog (RecycleKvSlot 0)) (\<lambda>_.
                   mbind (exec_call prog (ResetSlot 0)) (\<lambda>_.
                   mbind (exec_call prog (ActivateKvSlot 0)) (\<lambda>_.
                   mbind (exec_call prog (ReserveKvSlot 0 positions)) (\<lambda>_.
                   mbind (exec_call prog (LoadSlotRoutes [0])) (\<lambda>_.
                   mtp_prime_prompt prog ?ids 0 0 None)))))"
      obtain native d' where ok: "?prime d = (Inr native, d')"
        using assms(4) g cap True by (cases "?prime d"; cases "fst (?prime d)") (auto simp: mtp_start_def split: if_splits)
      then have "\<exists>row l. read_target prog 1 d' = Inr row \<and> target_logits_write 1 row logits = Inr l \<and> ms_device s = d' \<and> ms_logits s = l"
        using assms(4) g cap True by (auto simp: mtp_start_def rbind_Inr_iff split: if_splits)
      then show ?thesis using ok that by (auto simp: mbind_ok)
    qed
    have "view d2 = (view d1)\<lparr>dv_processed := []\<rparr>" "view d3 = view d2" "view d4 = view d3" "view d5 = view d4"
      using followsD(1) [OF assms(1) d2] followsD(1) [OF assms(1) d3] followsD(1) [OF assms(1) d4] followsD(1) [OF assms(1) d5] by simp_all
    then have primed: "?ids \<noteq> []" "consumed F (view d') ?ids" using mtp_prime_prompt_view [OF assms(1) prime] by simp_all
    then have view: "dv_rows (view d') = [F ?ids]" "dv_processed (view d') = ?ids" using consumed_row by blast+
    then have "row = F ?ids" using followsD(2) [OF assms(1) row] by simp
    then have "target_logits_write (length [F ?ids]) (concat [F ?ids]) logits = Inr l" using l by simp
    note bank = target_write_rows [OF this]
    have "length l = length logits" "target_logits l 0 = Inr ([F ?ids] ! 0)" using bank followsD(3) [OF assms(1)] by simp_all
    then show ?thesis using s view big by simp
  qed
  ultimately have "mtp_related fo tf F view s [] g" using fresh ctx assms(3)
    unfolding mtp_related_def by (simp add: mreturn_ok queued_from_def mtp_aligned_def Let_def)
  then show ?thesis using g by blast
qed

end
