(* ===== verification/PlainModel.thy ===== *)
theory PlainModel
  imports MtpSequential GenerationProperties
begin

text \<open>
  The concrete model of the witnesses: every row is zero, so token 0 is always preferred, and every draft
  is accepted.
\<close>

text \<open>A frontend whose tokens are all special, and a model that always prefers token 0.\<close>

definition plain_frontend :: text_frontend where
  "plain_frontend = \<lparr>fe_special = (\<lambda>_. True), fe_id_to_token = (\<lambda>_. None), fe_byte_table = (\<lambda>_. None), fe_vocabulary = 0, fe_stop_ids = [6, 7]\<rparr>"

definition plain_request :: generation_request where
  "plain_request = \<lparr>rq_sampling = options_greedy, rq_max_new_tokens = 3, rq_tool_constraint = None\<rparr>"

definition plain_prompt :: prompt_encoding where
  "plain_prompt = \<lparr>pe_token_ids = [5], pe_message_boundary_tokens = 0, pe_reused_tokens = 0, pe_rendered_bytes = 0, pe_fresh_bytes = 0\<rparr>"

definition plain_model :: "nat list \<Rightarrow> bf16 list" where
  "plain_model ctx = zero_row"

abbreviation plain_program :: "device_view program" where
  "plain_program \<equiv> reference_program plain_model (\<lambda>_. zero_row) 100"

definition plain_sampler :: sampler where
  "plain_sampler = \<lparr>sa_options = options_greedy, sa_stop_ids = [6, 7], sa_stop_id_count = 2, sa_random = xorshift_new 0\<rparr>"

text \<open>The session after \<open>k\<close> tokens; it finishes with the third.\<close>

definition plain_session :: "nat \<Rightarrow> generation_session" where
  "plain_session k = \<lparr>gs_prompt = plain_prompt, gs_sampler = plain_sampler,
     gs_decoder = \<lparr>sd_text = [], sd_pending = [], sd_finished = (k = 3)\<rparr>, gs_generated = replicate k 0, gs_occurrences = [], gs_max_new_tokens = 3,
     gs_finish_reason = (if k = 3 then Some FinishLength else None), gs_tool_constraint = None\<rparr>"

definition plain_step :: "nat \<Rightarrow> generation_step" where
  "plain_step k = \<lparr>st_token_id = 0, st_delta = None, st_finish_reason = (if k = 2 then Some FinishLength else None)\<rparr>"

lemma plain_model_length: "length (plain_model ctx) = VOCABULARY"
  by (simp add: plain_model_def zero_row_def)

lemma plain_follows: "follows plain_model plain_program id"
  by (rule reference_follows [OF plain_model_length])

lemma plain_start: "session_start plain_frontend plain_prompt plain_request = Inr (plain_session 0)"
proof -
  have v: "validate_options options_greedy = Inr ()" "validate_stop_ids [6, 7] = Inr ()" by code_simp+
  show ?thesis
    by (simp add: session_start_def plain_frontend_def plain_request_def sampler_new_def v plain_session_def plain_sampler_def decoder_new_def list_write_def)
      (simp add: options_greedy_def)
qed

lemma plain_decision: "decision_for_token plain_sampler 0 = Inr \<lparr>dec_token_id = 0, dec_stopped = False\<rparr>"
  by (simp add: decision_for_token_def plain_sampler_def VOCABULARY_def)

lemma plain_propose: "propose_logits sample_ops zero_row prov (plain_session k) = (Inr \<lparr>dec_token_id = 0, dec_stopped = False\<rparr>, plain_session k)"
proof -
  have opts: "is_greedy options_greedy" "is_identity (so_penalties options_greedy)" by code_simp+
  have row: "require_vocabulary_row zero_row = Inr ()" by (simp add: require_vocabulary_row_def zero_row_def)
  have "sample_with_counts sample_ops zero_row [] prov plain_sampler = (Inr \<lparr>dec_token_id = 0, dec_stopped = False\<rparr>, plain_sampler)"
    using opts by (simp add: sample_with_counts_def row plain_sampler_def conditioned_greedy_index_def zero_row_first selected_token_def U32_BOUND_def)
      (use plain_decision in \<open>simp add: plain_sampler_def\<close>)
  then show ?thesis by (simp add: propose_logits_def constraint_state_def plain_session_def on_sampler_def)
qed

lemma plain_accept:
  assumes "k < 3"
  shows "accept_logits sample_ops plain_frontend zero_row (plain_session k) = (Inr (plain_step k), plain_session (Suc k))"
proof -
  have ident: "is_identity (so_penalties options_greedy)" by code_simp
  have open_session: "gs_finish_reason (plain_session k) = None" using assms by (simp add: plain_session_def)
  have dec: "accept_decision plain_frontend \<lparr>dec_token_id = 0, dec_stopped = False\<rparr> (plain_session k) = (Inr (plain_step k), plain_session (Suc k))"
    using assms ident
    by (auto simp: accept_decision_def session_commit_def session_push_token_def decoder_push_def plain_frontend_def plain_session_def record_token_def
        plain_sampler_def completion_reason_def plain_step_def decoder_finish_def finish_pending_def replicate_append_same Let_def)
  show ?thesis unfolding accept_logits_def plain_propose using open_session dec by simp
qed

text \<open>A bank of zero rows stays one.\<close>

definition zero_bank :: "bf16 list" where
  "zero_bank = replicate (LOGIT_ROWS * VOCABULARY) 0"

lemma replicate_slice: "b + v \<le> n \<Longrightarrow> bank_slice (replicate n 0) b v = Inr (replicate v 0)"
  by (simp add: bank_slice_def min_def)

lemma replicate_write: "b + v \<le> n \<Longrightarrow> bank_write b v (replicate v 0) (replicate n 0) = Inr (replicate n 0)"
  by (simp add: bank_write_def min_def flip: replicate_add)

lemma zero_bank_rows: "zero_bank = replicate (5 * VOCABULARY) 0"
  by (simp add: zero_bank_def LOGIT_ROWS_def VERIFY_ROWS_def)

lemma zero_bank_slice: "i < 5 \<Longrightarrow> bank_slice zero_bank (i * VOCABULARY) VOCABULARY = Inr zero_row"
  unfolding zero_bank_rows zero_row_def by (rule replicate_slice) simp

lemma zero_bank_target: "i < 5 \<Longrightarrow> target_logits zero_bank i = Inr zero_row" "i < 5 \<Longrightarrow> target_row zero_bank i VOCABULARY = Inr zero_row"
  by (simp_all add: target_logits_def target_row_def zero_bank_slice)

lemma zero_bank_draft: "draft_logits zero_bank = Inr zero_row"
  using zero_bank_slice [of 4] by (simp add: draft_logits_def VERIFY_ROWS_def)

lemma zero_bank_write: "b + n * VOCABULARY \<le> 5 * VOCABULARY \<Longrightarrow> bank_write b (n * VOCABULARY) (replicate (n * VOCABULARY) 0) zero_bank = Inr zero_bank"
  unfolding zero_bank_rows by (rule replicate_write)

lemma zero_bank_write_draft: "draft_logits_write zero_row zero_bank = Inr zero_bank"
  using zero_bank_write [of "4 * VOCABULARY" 1] by (simp add: draft_logits_write_def VERIFY_ROWS_def zero_row_def)

lemma concat_zero_rows: "concat (replicate n zero_row) = replicate (n * VOCABULARY) 0"
  by (induction n) (simp_all add: zero_row_def replicate_add)

lemma zero_bank_write_target: "n \<le> 5 \<Longrightarrow> target_logits_write n (concat (replicate n zero_row)) zero_bank = Inr zero_bank"
  unfolding target_logits_write_def concat_zero_rows by (rule zero_bank_write) (simp add: mult_le_mono1)

lemma zero_bank_write_one: "target_logits_write (Suc 0) zero_row zero_bank = Inr zero_bank"
  "target_logits_write (Suc (Suc 0)) (zero_row @ zero_row) zero_bank = Inr zero_bank"
  using zero_bank_write_target [of 1] zero_bank_write_target [of 2] by (simp_all add: numeral_2_eq_2)

lemmas method_eval = mbind_def mlift_def mget_def mmodify_def mreturn_def mpart_def mfail_def mwhen_def

definition plain_view :: "nat list \<Rightarrow> nat list \<Rightarrow> nat list \<Rightarrow> nat \<Rightarrow> device_view" where
  "plain_view processed staged verified rows = \<lparr>dv_processed = processed, dv_staged = staged, dv_verified = verified, dv_rows = replicate rows zero_row\<rparr>"

lemma plain_view_simps [simp]:
  "dv_processed (plain_view p s v r) = p" "dv_staged (plain_view p s v r) = s" "dv_verified (plain_view p s v r) = v"
  "dv_rows (plain_view p s v r) = replicate r zero_row"
  "(plain_view p s v r)\<lparr>dv_processed := q\<rparr> = plain_view q s v r" "(plain_view p s v r)\<lparr>dv_staged := q\<rparr> = plain_view p q v r"
  "(plain_view p s v r)\<lparr>dv_verified := q\<rparr> = plain_view p s q r" "(plain_view p s v r)\<lparr>dv_rows := [zero_row]\<rparr> = plain_view p s v 1"
  "(plain_view p s v r)\<lparr>dv_rows := [zero_row, zero_row]\<rparr> = plain_view p s v 2"
  by (simp_all add: plain_view_def numeral_2_eq_2)

lemma plain_calls:
  "exec_call plain_program call v = (case view_call plain_model call v of None \<Rightarrow> (Inl (route_error ''out of order''), v) | Some v \<Rightarrow> (Inr (), v))"
  "read_target plain_program n v = (if n \<le> length (dv_rows v) then Inr (concat (take n (dv_rows v))) else Inl (route_error ''no such row''))"
  "read_draft plain_program i v = Inr zero_row" "capacity plain_program = 100"
  by (simp_all add: reference_program_def)

definition plain_mtp :: "nat \<Rightarrow> device_view \<Rightarrow> device_view mtp_session" where
  "plain_mtp k v = \<lparr>ms_control = plain_session k, ms_device = v, ms_logits = zero_bank, ms_maximum_new_tokens = 3,
     ms_stop_ids = [6, 7], ms_next_position = 1, ms_started = (0 < k), ms_proposal_ready = (0 < k), ms_queued = replicate VERIFY_ROWS None,
     ms_queue_start = 0, ms_queue_len = 0, ms_visible_generated = k, ms_native_prefill_tokens = 0, ms_greedy = True, ms_stats = stats_default\<rparr>"

lemma plain_bounds: "position_u32 m 0 = Inr ()" "position_u32 m (Suc 0) = Inr ()" "1 < U32_BOUND" "2 < U32_BOUND" "\<not> U32_BOUND \<le> Suc (Suc 0)" "checked_add (Suc 0) 2 = Some 3"
  by (simp_all add: position_u32_def U32_BOUND_def checked_add_def U64_BOUND_def)

lemma plain_mtp_start:
  "mtp_start plain_program plain_frontend plain_prompt plain_request zero_bank (plain_view [] [] [] 0) = Inr (plain_mtp 0 (plain_view [5] [5] [] 1))"
proof -
  have greedy: "is_greedy options_greedy" by code_simp
  have ids: "pe_token_ids plain_prompt = [5]" by (simp add: plain_prompt_def)
  have cap: "require_mtp_capacity 1 3 100 = Inr 3" by (simp add: require_mtp_capacity_def plain_bounds)
  have stops: "length (fe_stop_ids plain_frontend) = 2" "fe_stop_ids plain_frontend = [6, 7]" by (simp_all add: plain_frontend_def)
  have req: "rq_max_new_tokens plain_request = 3" "rq_sampling plain_request = options_greedy" by (simp_all add: plain_request_def)
  have open_session: "gs_finish_reason (plain_session 0) = None" by (simp add: plain_session_def)
  have prime: "mtp_prime_prompt plain_program [5] 0 0 None (plain_view [] [] [] 0) = (Inr 0, plain_view [5] [5] [] 1)"
    by (simp add: mtp_prime_prompt_def mtp_prime_prompt_with_progress_def mtp_prime_tiles.simps mtp_prime_singles.simps next_native_prefill_tile_def
        replay_target_token_def replay_token_def method_eval plain_bounds plain_calls plain_model_def)
  have device: "(mbind (exec_call plain_program (RecycleKvSlot 0)) (\<lambda>_.
      mbind (exec_call plain_program (ResetSlot 0)) (\<lambda>_.
      mbind (exec_call plain_program (ActivateKvSlot 0)) (\<lambda>_.
      mbind (exec_call plain_program (ReserveKvSlot 0 3)) (\<lambda>_.
      mbind (exec_call plain_program (LoadSlotRoutes [0])) (\<lambda>_.
      mtp_prime_prompt plain_program [5] 0 0 None)))))) (plain_view [] [] [] 0) = (Inr 0, plain_view [5] [5] [] 1)"
    by (simp add: mbind_def plain_calls prime)
  have row: "read_target plain_program 1 (plain_view [5] [5] [] 1) = Inr zero_row" by (simp add: plain_calls)
  show ?thesis
    using stops cap open_session device row greedy
    by (simp add: mtp_start_def plain_start req plain_calls(4) ids zero_bank_write_one plain_mtp_def)
qed

lemma plain_step_one:
  "mtp_step sample_ops plain_frontend plain_program (plain_mtp 0 (plain_view [5] [5] [] 1)) = (Inr (plain_step 0), plain_mtp 1 (plain_view [5] [5] [] 1))"
proof -
  have open_session: "gs_finish_reason (plain_session 0) = None" by (simp add: plain_session_def)
  have row: "target_logits zero_bank 0 = Inr zero_row" by (rule zero_bank_target) simp
  show ?thesis
    by (simp add: mtp_step_def start_anchor_def seed_proposal_def mtp_read_draft_def method_eval plain_mtp_def open_session row
        plain_accept plain_step_def plain_bounds plain_calls zero_bank_write_draft)
qed

text \<open>The session after the round: both tokens are committed, one is visible.\<close>

definition plain_end :: "device_view mtp_session" where
  "plain_end = (plain_mtp 1 (plain_view [5, 0, 0] [0, 0] [] 2))\<lparr>ms_control := plain_session 3, ms_next_position := 3, ms_proposal_ready := False,
     ms_queued := [None, Some (plain_step 2), None, None], ms_queue_start := 1, ms_queue_len := 1, ms_visible_generated := 2,
     ms_stats := \<lparr>mt_verification_routes = [0, 1, 0, 0], mt_draft_proposals = 1, mt_accepted_drafts = 1, mt_verified_outputs = 2\<rparr>\<rparr>"

lemma plain_step_two:
  "mtp_step sample_ops plain_frontend plain_program (plain_mtp 1 (plain_view [5] [5] [] 1)) = (Inr (plain_step 1), plain_end)"
proof -
  have open_session: "gs_finish_reason (plain_session 1) = None" "length (gs_generated (plain_session 1)) = 1" "gs_generated (plain_session 1) = [0]"
    by (simp_all add: plain_session_def)
  have rows: "target_row zero_bank 0 VOCABULARY = Inr zero_row" "target_row zero_bank (Suc 0) VOCABULARY = Inr zero_row"
    using zero_bank_target(2) by simp_all
  have four: "replicate VERIFY_ROWS None = [None, None, None, None :: generation_step option]" "VERIFY_ROWS = 4" by (simp_all add: VERIFY_ROWS_def numeral_eq_Suc)
  let ?s0 = "plain_mtp 1 (plain_view [5] [5] [] 1)"
  let ?s1 = "?s0\<lparr>ms_stats := stats_default\<lparr>mt_draft_proposals := 1\<rparr>\<rparr>"
  have draft: "draft_loop sample_ops plain_program (Suc 0) [] [] ?s0 = (Inr ([0], [None]), ?s1)"
    by (simp add: propose_draft_def method_eval plain_mtp_def zero_bank_draft plain_propose stats_default_def)
  let ?s2 = "?s1\<lparr>ms_device := plain_view [5] [0, 0] [0, 0] 2\<rparr>"
  have verify: "verify_target plain_program [0, 0] ?s1 = (Inr 2, ?s2)"
    by (simp add: verify_target_def method_eval plain_mtp_def plain_calls round_rope_def MAX_NATIVE_PREFILL_TOKENS_def four(2) plain_bounds
        plain_model_def mtp_read_target_def zero_bank_write_one numeral_2_eq_2)
  let ?q = "[Some (plain_step 1), Some (plain_step 2), None, None]"
  let ?s3 = "?s2\<lparr>ms_control := plain_session 3, ms_queued := ?q\<rparr>"
  have decide: "decide_round sample_ops plain_frontend [0] [None] ?s2 = (Inr (2, 1), ?s3)"
    using plain_accept [of 1] plain_accept [of 2]
    by (simp add: decide_round_def decide_greedy_round_def accept_row_def queue_step_def method_eval four(1) rows plain_mtp_def plain_step_def numeral_2_eq_2)
      (simp add: plain_session_def numeral_3_eq_3)
  let ?s4 = "?s3\<lparr>ms_device := plain_view [5, 0, 0] [0, 0] [] 2\<rparr>"
  have realigned: "realign plain_program [0, 0] True ?s4 = (Inr (), ?s4)"
    by (simp add: realign_def method_eval plain_mtp_def plain_calls round_rope_def MAX_NATIVE_PREFILL_TOKENS_def four(2) plain_bounds)
  let ?s5 = "?s4\<lparr>ms_next_position := 3, ms_queue_start := 0, ms_queue_len := 2, ms_proposal_ready := False,
     ms_stats := \<lparr>mt_verification_routes = [0, 1, 0, 0], mt_draft_proposals = 1, mt_accepted_drafts = 1, mt_verified_outputs = 2\<rparr>\<rparr>"
  have commit: "mpart ms_device (\<lambda>d s. s\<lparr>ms_device := d\<rparr>) (exec_call plain_program (TargetCommit 2 2)) ?s3 = (Inr (), ?s4)"
    by (simp add: method_eval plain_mtp_def plain_calls)
  have steps: "queued_steps 2 ?s4 = (Inr [plain_step 1, plain_step 2], ?s4)" "map st_token_id [plain_step 1, plain_step 2] = [0, 0]"
    "st_finish_reason (last [plain_step 1, plain_step 2]) \<noteq> None"
    by (simp_all add: queued_steps_def method_eval plain_step_def ok_or_def numeral_2_eq_2)
  have anchor: "last_generated m ?s1 = (Inr 0, ?s1)" for m by (simp add: last_generated_def method_eval plain_mtp_def open_session [unfolded One_nat_def])
  have advance: "advance_position 2 ?s4 = (Inr (), ?s4\<lparr>ms_next_position := 3\<rparr>)"
    by (simp add: advance_position_def method_eval plain_mtp_def plain_bounds ok_or_def)
  have extent: "min DRAFT_WINDOW (2 - 1) = Suc 0" by (simp add: DRAFT_WINDOW_def)
  have ready: "ms_proposal_ready ?s0" by (simp add: plain_mtp_def)
  have stats: "record_round 2 1 2 (ms_stats ?s4) = \<lparr>mt_verification_routes = [0, 1, 0, 0], mt_draft_proposals = 1, mt_accepted_drafts = 1, mt_verified_outputs = 2\<rparr>"
    by (simp add: record_round_def stats_default_def plain_mtp_def four(2) numeral_eq_Suc)
  have round: "run_speculative_round sample_ops plain_frontend plain_program 2 ?s0 = (Inr (), ?s5)"
    unfolding run_speculative_round_def extent
    using ready draft anchor verify decide commit steps realigned advance stats
    by (simp add: mbind_def mget_def mmodify_def Let_def)
  have queue: "take_queued ?s5 = (Inr (plain_step 1), plain_end)"
    by (simp add: take_queued_def plain_end_def plain_mtp_def)
  have before: "ms_queue_len ?s0 = 0" "ms_control ?s0 = plain_session 1" "ms_started ?s0" "ms_maximum_new_tokens ?s0 = 3" by (simp_all add: plain_mtp_def)
  show ?thesis
    using before open_session [unfolded One_nat_def] round queue by (simp add: mtp_step_def mbind_def mget_def Let_def)
qed

text \<open>The single slot, two tokens.\<close>

definition plain_slot :: "nat \<Rightarrow> device_view \<Rightarrow> nat option \<Rightarrow> nat \<Rightarrow> device_view slot_session" where
  "plain_slot k v pending_token pos = \<lparr>ss_control = plain_session k, ss_device = v, ss_logits = zero_row, ss_pending_token = pending_token,
     ss_next_position = pos, ss_native_prefill_tokens = 0\<rparr>"

lemma plain_slot_start:
  "slot_start plain_program plain_frontend plain_prompt plain_request zero_row (plain_view [] [] [] 0) = Inr (plain_slot 0 (plain_view [5] [5] [] 1) None 1)"
proof -
  have ids: "pe_token_ids plain_prompt = [5]" by (simp add: plain_prompt_def)
  have cap: "require_generation_capacity 1 3 100 = Inr 3" by (simp add: require_generation_capacity_def plain_bounds)
  have req: "rq_max_new_tokens plain_request = 3" by (simp add: plain_request_def)
  have open_session: "gs_finish_reason (plain_session 0) = None" by (simp add: plain_session_def)
  have tiles: "prime_tiles plain_program [5] 0 0 = mreturn 0" by (simp add: prime_tiles.simps next_native_prefill_tile_def)
  have device: "prime_single_slot plain_program [5] 3 (plain_view [] [] [] 0) = (Inr 0, plain_view [5] [5] [] 1)"
    by (simp add: prime_single_slot_def prime_prompt_def tiles replay_token_def method_eval plain_bounds plain_calls plain_model_def)
  have row: "read_target plain_program 1 (plain_view [5] [5] [] 1) = Inr zero_row" by (simp add: plain_calls)
  show ?thesis
    using cap open_session device row plain_bounds(3)
    by (simp add: slot_start_def plain_start req plain_calls(4) ids plain_slot_def)
qed

lemma plain_slot_steps:
  "slot_step sample_ops plain_frontend plain_program (plain_slot 0 (plain_view [5] [5] [] 1) None 1) = (Inr (plain_step 0), plain_slot 1 (plain_view [5] [5] [] 1) (Some 0) 1)"
  "slot_step sample_ops plain_frontend plain_program (plain_slot 1 (plain_view [5] [5] [] 1) (Some 0) 1) = (Inr (plain_step 1), plain_slot 2 (plain_view [5, 0] [0] [] 1) (Some 0) 2)"
  using plain_accept [of 0] plain_accept [of 1]
  by (simp_all add: slot_step_def slot_replay_pending_def replay_token_def method_eval plain_slot_def plain_step_def plain_calls plain_model_def plain_bounds numeral_2_eq_2)

end
