(* ===== verification/PrimingPlan.thy ===== *)
theory PrimingPlan
  imports TargetProgram
begin

text \<open>
  Priming a prompt ends and leaves nothing out: on a device that refuses no call it performs exactly the
  calls of an independent plan, the largest native tiles first and then the remaining tokens one by one.
\<close>

definition accepts_all :: "'d program \<Rightarrow> bool" where
  "accepts_all prog \<longleftrightarrow> (\<forall>call d. \<exists>d'. exec_call prog call d = (Inr (), d'))"

text \<open>The device after a sequence of calls.\<close>

definition exec_all :: "'d program \<Rightarrow> program_call list \<Rightarrow> 'd \<Rightarrow> 'd" where
  "exec_all prog calls d = foldl (\<lambda>d call. snd (exec_call prog call d)) d calls"

lemma exec_all_simps [simp]:
  "exec_all prog [] d = d" "exec_all prog (c # cs) d = exec_all prog cs (snd (exec_call prog c d))"
  "exec_all prog (xs @ ys) d = exec_all prog ys (exec_all prog xs d)"
  by (simp_all add: exec_all_def)

section \<open>The plan of the calls\<close>

text \<open>The tile sizes: as many of each size as fit into what the larger ones leave.\<close>

definition prefill_plan :: "nat \<Rightarrow> nat list" where
  "prefill_plan n = replicate (n div 1024) 1024 @ replicate (n mod 1024 div 128) 128 @
    replicate (n mod 128 div 64) 64 @ replicate (n mod 64 div 32) 32"

text \<open>The calls of a list of tiles and of the tokens replayed one by one; with the draft model each is
  followed by the draft's own call, on the tokens one further.\<close>

fun tile_calls :: "bool \<Rightarrow> nat \<Rightarrow> nat list \<Rightarrow> nat \<Rightarrow> nat list \<Rightarrow> program_call list" where
  "tile_calls draft slot ids pos [] = []"
| "tile_calls draft slot ids pos (t # ts) =
    [StageEmbeddings (take t (drop pos ids)), TargetPrefill t slot pos] @
    (if draft then [MtpPrompt t slot pos (take t (drop (pos + 1) ids))] else []) @ tile_calls draft slot ids (pos + t) ts"

definition single_call :: "bool \<Rightarrow> nat \<Rightarrow> nat list \<Rightarrow> nat \<Rightarrow> program_call list" where
  "single_call draft slot ids pos = [StageEmbeddings [ids ! pos], TargetDecode pos] @
    (if draft then [MtpPrompt 1 slot pos [ids ! (pos + 1)]] else [])"

definition single_calls :: "bool \<Rightarrow> nat \<Rightarrow> nat list \<Rightarrow> nat \<Rightarrow> nat \<Rightarrow> program_call list" where
  "single_calls draft slot ids first upto_pos = concat (map (single_call draft slot ids) [first..<upto_pos])"

text \<open>The tokens from \<open>first\<close> to \<open>upto_pos\<close> in tiles, then singly.\<close>

definition stretch_calls :: "bool \<Rightarrow> nat \<Rightarrow> nat list \<Rightarrow> nat \<Rightarrow> nat \<Rightarrow> program_call list" where
  "stretch_calls draft slot ids first upto_pos = tile_calls draft slot ids first (prefill_plan (upto_pos - first)) @
    single_calls draft slot ids (first + 32 * ((upto_pos - first) div 32)) upto_pos"

definition mtp_priming_calls :: "nat \<Rightarrow> nat list \<Rightarrow> nat \<Rightarrow> bf16 list option \<Rightarrow> program_call list" where
  "mtp_priming_calls slot ids consumed hidden =
    (if consumed = 0 then [] else [MtpContinuation slot (consumed - 1) (ids ! consumed) (the hidden)]) @
    stretch_calls True slot ids consumed (length ids - 1) @ single_call False slot ids (length ids - 1)"

lemma prefill_plan_step:
  "prefill_plan n = (case next_native_prefill_tile n of None \<Rightarrow> [] | Some t \<Rightarrow> t # prefill_plan (n - t))"
proof -
  consider "1024 \<le> n" | "128 \<le> n" "n < 1024" | "64 \<le> n" "n < 128" | "32 \<le> n" "n < 64" | "n < 32"
    by linarith
  then show ?thesis
  proof cases
    case 1
    define m where "m = n - 1024"
    then have m: "n = m + 1024" using 1 by simp
    have "(m + 1024) div 1024 = Suc (m div 1024)" using div_add_self2 [of 1024 m] by simp
    moreover have "(m + 8 * 128) mod 128 = m mod 128" "(m + 16 * 64) mod 64 = m mod 64" by (rule mod_mult_self1)+
    ultimately show ?thesis using 1 m by (simp add: prefill_plan_def next_native_prefill_tile_def)
  next
    case 2
    define m where "m = n - 128"
    then have m: "n = m + 128" using 2 by simp
    have "(m + 128) div 128 = Suc (m div 128)" using div_add_self2 [of 128 m] by simp
    moreover have "(m + 2 * 64) mod 64 = m mod 64" by (rule mod_mult_self1)+
    ultimately show ?thesis using 2 m by (simp add: prefill_plan_def next_native_prefill_tile_def)
  next
    case 3
    define m where "m = n - 64"
    then have m: "n = m + 64" using 3 by simp
    have "(m + 64) div 64 = Suc (m div 64)" using div_add_self2 [of 64 m] by simp
    then show ?thesis using 3 m by (simp add: prefill_plan_def next_native_prefill_tile_def)
  next
    case 4
    define m where "m = n - 32"
    then have m: "n = m + 32" using 4 by simp
    have "(m + 32) div 32 = Suc (m div 32)" using div_add_self2 [of 32 m] by simp
    then show ?thesis using 4 m by (simp add: prefill_plan_def next_native_prefill_tile_def)
  qed (simp add: prefill_plan_def next_native_prefill_tile_def)
qed

section \<open>Priming performs the plan\<close>

definition performs :: "'d program \<Rightarrow> ('d, 'a) stateful \<Rightarrow> program_call list \<Rightarrow> 'a \<Rightarrow> bool" where
  "performs prog m calls a \<longleftrightarrow> (\<forall>d. m d = (Inr a, exec_all prog calls d))"

lemma performs_bind: "performs prog m xs a \<Longrightarrow> performs prog (k a) ys b \<Longrightarrow> performs prog (mbind m k) (xs @ ys) b"
  by (simp add: performs_def mbind_def)

lemma performs_return: "performs prog (mreturn a) [] a"
  by (simp add: performs_def mreturn_def)

lemma performs_lift: "r = Inr a \<Longrightarrow> performs prog (k a) ys b \<Longrightarrow> performs prog (mbind (mlift r) k) ys b"
  by (simp add: performs_def mbind_def mlift_def)

lemma performs_call: "accepts_all prog \<Longrightarrow> performs prog (exec_call prog call) [call] ()"
  unfolding performs_def accepts_all_def by (metis exec_all_simps(1,2) snd_conv)

lemma performs_then_call:
  "accepts_all prog \<Longrightarrow> performs prog (k ()) ys b \<Longrightarrow> performs prog (mbind (exec_call prog call) k) (call # ys) b"
  using performs_bind [OF performs_call] by fastforce

lemmas performs_intros = performs_lift performs_then_call performs_call performs_return

lemma tile_32: "next_native_prefill_tile n = Some t \<Longrightarrow> 32 dvd t"
  by (auto simp: next_native_prefill_tile_def split: if_splits)

lemma tiles_rest: "32 dvd t \<Longrightarrow> t \<le> n \<Longrightarrow> t + 32 * ((n - t) div 32) = 32 * (n div (32::nat))"
proof (elim dvdE)
  fix k assume "t = 32 * k" "t \<le> n"
  then obtain m where "n = 32 * k + m" using le_Suc_ex by blast
  then show ?thesis using \<open>t = 32 * k\<close> by simp
qed

lemma single_call_draft: "single_call True slot ids pos = single_call False slot ids pos @ [MtpPrompt 1 slot pos [ids ! (pos + 1)]]"
  by (simp add: single_call_def)

lemma single_calls_step:
  "first < upto_pos \<Longrightarrow> single_calls draft slot ids first upto_pos = single_call draft slot ids first @ single_calls draft slot ids (first + 1) upto_pos"
  by (simp add: single_calls_def upt_rec)

lemma replay_token_performs: "accepts_all prog \<Longrightarrow> performs prog (replay_token prog (ids ! pos) pos) (single_call False slot ids pos) ()"
  unfolding replay_token_def single_call_def by (simp, intro performs_intros)

lemma prefill_tile_performs:
  assumes "accepts_all prog" and "first + length ts \<le> U32_BOUND" and "ts \<noteq> []"
  shows "performs prog (replay_prefill_tile prog ts slot first) [StageEmbeddings ts, TargetPrefill (length ts) slot first] ()"
proof -
  have "position_u32 m (first + (length ts - 1)) = Inr ()" for m using assms(2,3) by (cases ts) (auto simp: position_u32_def)
  then show ?thesis unfolding replay_prefill_tile_def using assms(1,3) by (intro performs_intros) simp_all
qed

lemma prime_tiles_performs:
  assumes "accepts_all prog" and "length ids \<le> U32_BOUND" and "cursor \<le> length ids"
  shows "performs prog (prime_tiles prog ids slot cursor) (tile_calls False slot ids cursor (prefill_plan (length ids - cursor)))
    (cursor + 32 * ((length ids - cursor) div 32))"
  using assms(3)
proof (induction "length ids - cursor" arbitrary: cursor rule: less_induct)
  case less
  note plan = prefill_plan_step [of "length ids - cursor"]
  show ?case
  proof (cases "next_native_prefill_tile (length ids - cursor)")
    case None
    then have "(length ids - cursor) div 32 = 0" using next_tile_None by simp
    then show ?thesis using None plan by (subst prime_tiles.simps) (simp add: performs_return)
  next
    case (Some t)
    note b = next_tile_bounds [OF Some]
    have sum: "cursor + t + 32 * ((length ids - (cursor + t)) div 32) = cursor + 32 * ((length ids - cursor) div 32)"
      using tiles_rest [OF tile_32 [OF Some], of "length ids - cursor"] b by (simp add: diff_diff_left add.assoc)
    have "length ids - (cursor + t) < length ids - cursor" "cursor + t \<le> length ids" using b less.prems by linarith+
    note rest = less.hyps [OF this, unfolded sum]
    have len: "length (take t (drop cursor ids)) = t" using b by simp
    have "performs prog (replay_prefill_tile prog (take t (drop cursor ids)) slot cursor) [StageEmbeddings (take t (drop cursor ids)), TargetPrefill t slot cursor] ()"
      using prefill_tile_performs [OF assms(1), of cursor "take t (drop cursor ids)" slot, unfolded len] b less.prems assms(2) by auto
    note both = performs_bind [OF this, where k = "\<lambda>_. prime_tiles prog ids slot (cursor + t)", OF rest]
    show ?thesis using both plan by (subst prime_tiles.simps) (simp add: Some diff_diff_left)
  qed
qed

lemma prime_singles_performs:
  "accepts_all prog \<Longrightarrow> pos \<le> length ids \<Longrightarrow> length ids \<le> U32_BOUND \<Longrightarrow>
    performs prog (prime_singles prog (drop pos ids) pos) (single_calls False slot ids pos (length ids)) ()"
proof (induction "length ids - pos" arbitrary: pos)
  case 0
  then show ?case by (simp add: performs_return single_calls_def)
next
  case (Suc n)
  then have lt: "pos < length ids" by simp
  then have "position_u32 m pos = Inr ()" for m using Suc.prems(3) by (simp add: position_u32_def)
  moreover have "performs prog (prime_singles prog (drop (pos + 1) ids) (pos + 1)) (single_calls False slot ids (pos + 1) (length ids)) ()"
    by (rule Suc.hyps(1)) (use Suc lt in auto)
  note performs_bind [OF replay_token_performs [OF Suc.prems(1)], where k = "\<lambda>_. prime_singles prog (drop (pos + 1) ids) (pos + 1)", OF this]
  ultimately show ?case using Cons_nth_drop_Suc [OF lt, symmetric] single_calls_step [OF lt]
    by (simp add: performs_lift)
qed

lemma prime_prompt_performs:
  assumes "accepts_all prog" and "length ids \<le> U32_BOUND" and "start_at \<le> length ids"
  shows "performs prog (prime_prompt prog ids slot start_at) (stretch_calls False slot ids start_at (length ids))
    (32 * ((length ids - start_at) div 32))"
proof -
  let ?c = "start_at + 32 * ((length ids - start_at) div 32)"
  have le: "?c \<le> length ids" using assms(3) by (simp add: le_diff_conv2 [symmetric])
  have "performs prog (mbind (prime_tiles prog ids slot start_at) (\<lambda>cursor.
       mbind (prime_singles prog (drop cursor ids) cursor) (\<lambda>_. mreturn (cursor - start_at))))
     (tile_calls False slot ids start_at (prefill_plan (length ids - start_at)) @ single_calls False slot ids ?c (length ids) @ []) (?c - start_at)"
    by (intro performs_bind [OF prime_tiles_performs] performs_bind [OF prime_singles_performs] performs_return) (use assms le in auto)
  then show ?thesis using assms(3) by (simp add: prime_prompt_def stretch_calls_def)
qed

section \<open>Target and draft model\<close>

lemma contiguous_rope_ok: "0 < rows \<Longrightarrow> rows \<le> 1024 \<Longrightarrow> first + rows \<le> U32_BOUND \<Longrightarrow> contiguous_rope first rows = Inr ()"
  by (simp add: contiguous_rope_def MAX_NATIVE_PREFILL_TOKENS_def)

lemma replay_target_token_performs:
  "accepts_all prog \<Longrightarrow> pos < U32_BOUND \<Longrightarrow> performs prog (replay_target_token prog (ids ! pos) pos) (single_call False slot ids pos) ()"
  unfolding replay_target_token_def by (intro performs_lift replay_token_performs) (simp_all add: position_u32_def)

lemma mtp_prime_tiles_performs:
  assumes "accepts_all prog" and "primed \<le> U32_BOUND" and "cursor \<le> primed" and "primed \<le> length ids"
  shows "performs prog (mtp_prime_tiles prog (\<lambda>_. Inr ()) ids slot primed cursor native)
    (tile_calls True slot ids cursor (prefill_plan (primed - cursor)))
    (cursor + 32 * ((primed - cursor) div 32), native + 32 * ((primed - cursor) div 32))"
  using assms(3)
proof (induction "primed - cursor" arbitrary: cursor native rule: less_induct)
  case less
  note plan = prefill_plan_step [of "primed - cursor"]
  show ?case
  proof (cases "next_native_prefill_tile (primed - cursor)")
    case None
    then have "(primed - cursor) div 32 = 0" using next_tile_None by simp
    then show ?thesis using None plan by (subst mtp_prime_tiles.simps) (simp add: performs_return)
  next
    case (Some t)
    note b = next_tile_bounds [OF Some]
    have sum: "k + t + 32 * ((primed - (cursor + t)) div 32) = k + 32 * ((primed - cursor) div 32)" for k
      using tiles_rest [OF tile_32 [OF Some], of "primed - cursor"] b by (simp add: diff_diff_left add.assoc)
    have "primed - (cursor + t) < primed - cursor" "cursor + t \<le> primed" using b less.prems by linarith+
    note rest = less.hyps [OF this, of "native + t", unfolded sum]
    have rope: "contiguous_rope cursor t = Inr ()" by (rule contiguous_rope_ok) (use b less.prems assms(2) in auto)
    have len: "length (take t (drop cursor ids)) = t" using b less.prems assms(4) by auto
    have tile: "performs prog (mtp_prefill_tile prog (take t (drop cursor ids)) slot cursor t)
        [StageEmbeddings (take t (drop cursor ids)), TargetPrefill t slot cursor] ()"
      unfolding mtp_prefill_tile_def len using assms(1) rope by (intro performs_intros)
    let ?prompt = "MtpPrompt t slot cursor (take t (drop (cursor + 1) ids))"
    have "performs prog (mbind (exec_call prog ?prompt) (\<lambda>_. mbind (mlift (Inr ())) (\<lambda>_.
        mtp_prime_tiles prog (\<lambda>_. Inr ()) ids slot primed (cursor + t) (native + t))))
      (?prompt # tile_calls True slot ids (cursor + t) (prefill_plan (primed - (cursor + t))))
      (cursor + 32 * ((primed - cursor) div 32), native + 32 * ((primed - cursor) div 32))"
      by (intro performs_then_call [OF assms(1)] performs_lift [OF refl] rest)
    note both = performs_bind [OF tile, where k = "\<lambda>_. mbind (exec_call prog ?prompt) (\<lambda>_. mbind (mlift (Inr ())) (\<lambda>_.
        mtp_prime_tiles prog (\<lambda>_. Inr ()) ids slot primed (cursor + t) (native + t)))", OF this]
    from both show ?thesis using plan by (subst mtp_prime_tiles.simps) (simp add: Some diff_diff_left)
  qed
qed

lemma mtp_prime_singles_performs:
  assumes "accepts_all prog" and "primed \<le> U32_BOUND" and "cursor \<le> primed"
  shows "performs prog (mtp_prime_singles prog (\<lambda>_. Inr ()) ids slot primed cursor) (single_calls True slot ids cursor primed) primed"
  using assms(3)
proof (induction "primed - cursor" arbitrary: cursor rule: less_induct)
  case less
  show ?case
  proof (cases "cursor < primed")
    case True
    then have pos: "cursor < U32_BOUND" using assms(2) by simp
    have rest: "performs prog (mtp_prime_singles prog (\<lambda>_. Inr ()) ids slot primed (cursor + 1)) (single_calls True slot ids (cursor + 1) primed) primed"
      using less.hyps [of "cursor + 1"] True by simp
    have "performs prog (mtp_prime_singles prog (\<lambda>_. Inr ()) ids slot primed cursor)
      (single_call False slot ids cursor @ MtpPrompt 1 slot cursor [ids ! (cursor + 1)] # single_calls True slot ids (cursor + 1) primed) primed"
      using True by (subst mtp_prime_singles.simps, simp del: One_nat_def add: if_P)
        (intro performs_bind [OF replay_target_token_performs] performs_intros, use assms(1) pos rest in \<open>simp_all add: position_u32_def\<close>)
    then show ?thesis using single_calls_step [OF True] single_call_draft by simp
  next
    case False
    then have "cursor = primed" using less.prems by simp
    then show ?thesis by (subst mtp_prime_singles.simps) (simp add: performs_return single_calls_def)
  qed
qed

lemma mtp_prime_prompt_performs:
  assumes "accepts_all prog" and "length ids \<le> U32_BOUND" and "start_at < length ids" and "start_at \<noteq> 0 \<longrightarrow> hidden \<noteq> None"
  shows "performs prog (mtp_prime_prompt prog ids slot start_at hidden) (mtp_priming_calls slot ids start_at hidden)
    (32 * ((length ids - 1 - start_at) div 32))"
proof -
  let ?primed = "length ids - 1"
  have le: "start_at \<le> ?primed" "?primed \<le> U32_BOUND" "?primed < U32_BOUND" "?primed \<le> length ids" using assms(2,3) by auto
  let ?c = "start_at + 32 * ((?primed - start_at) div 32)"
  have c: "?c \<le> ?primed" using le(1) by (simp add: le_diff_conv2 [symmetric])
  have boundary: "performs prog (if start_at \<noteq> 0
              then
                mbind (mlift (ok_or hidden (generation_error ''resident MTP prefix reuse has no boundary hidden row''))) (\<lambda>hidden.
                mbind (mlift (position_u32 ''resident MTP prefix boundary exceeds u32'' (start_at - 1))) (\<lambda>_.
                exec_call prog (MtpContinuation slot (start_at - 1) (ids ! start_at) hidden)))
              else mreturn ()) (if start_at = 0 then [] else [MtpContinuation slot (start_at - 1) (ids ! start_at) (the hidden)]) ()"
  proof (cases "start_at = 0")
    case False
    then obtain row where "hidden = Some row" using assms(4) by blast
    moreover have "position_u32 m (start_at - 1) = Inr ()" for m using le by (simp add: position_u32_def)
    moreover note performs_call [OF assms(1), of "MtpContinuation slot (start_at - 1) (ids ! start_at) row"]
    ultimately show ?thesis using False by (simp add: ok_or_def performs_lift)
  qed (simp add: performs_return)
  have body: "performs prog (mbind (mtp_prime_tiles prog (\<lambda>_. Inr ()) ids slot ?primed start_at 0) (\<lambda>(cursor, native).
       mbind (mtp_prime_singles prog (\<lambda>_. Inr ()) ids slot ?primed cursor) (\<lambda>_.
       mbind (replay_target_token prog (ids ! ?primed) ?primed) (\<lambda>_. mreturn native))))
     (tile_calls True slot ids start_at (prefill_plan (?primed - start_at)) @ single_calls True slot ids ?c ?primed @ single_call False slot ids ?primed @ [])
     (32 * ((?primed - start_at) div 32))"
    by (rule performs_bind [OF mtp_prime_tiles_performs [OF assms(1) le(2,1,4)]], simp only: prod.case add_0,
        rule performs_bind [OF mtp_prime_singles_performs [OF assms(1) le(2) c]], rule performs_bind [OF replay_target_token_performs [OF assms(1) le(3)]], rule performs_return)
  show ?thesis unfolding mtp_prime_prompt_def mtp_prime_prompt_with_progress_def mtp_priming_calls_def stretch_calls_def
    using assms(3) performs_bind [where k = "\<lambda>_. _", OF boundary body] by (auto simp: Let_def)
qed

end
