(* ===== verification/MtpProperties.thy ===== *)
theory MtpProperties
  imports PlainModel PrimingPlan
begin

text \<open>
  The claims about the generators over the resident program: speculation and single-slot replay are
  sequential generation, the two decisions, and the priming plan.
\<close>

section \<open>The single slot\<close>

definition slot_related :: "(nat list \<Rightarrow> bf16 list) \<Rightarrow> ('d \<Rightarrow> device_view) \<Rightarrow> 'd slot_session \<Rightarrow> bool" where
  "slot_related F view s \<longleftrightarrow>
    (let ctx = session_context (ss_control s); consumed_tokens = dv_processed (view (ss_device s)) in
     case ss_pending_token s of
       None \<Rightarrow> gs_finish_reason (ss_control s) = None \<longrightarrow>
         consumed_tokens = ctx \<and> ss_next_position s = length ctx \<and> ss_logits s = F ctx
     | Some t \<Rightarrow> ctx = consumed_tokens @ [t] \<and> ss_next_position s = length consumed_tokens)"

lemma replay_pending_related:
  assumes "follows F prog view" and "slot_related F view s" and "slot_replay_pending prog s = (Inr u, s')"
    and "gs_finish_reason (ss_control s) = None"
  shows "slot_related F view s' \<and> ss_control s' = ss_control s \<and> ss_pending_token s' = None"
proof (cases "ss_pending_token s")
  case None
  then show ?thesis using assms(2,3) by (simp add: slot_replay_pending_def)
next
  case (Some t)
  let ?ctx = "session_context (ss_control s)" and ?p = "dv_processed (view (ss_device s))"
  have ctx: "?ctx = ?p @ [t]" "ss_next_position s = length ?p" using assms(2) Some by (simp_all add: slot_related_def Let_def)
  obtain d row where d: "replay_token prog t (ss_next_position s) (ss_device s) = (Inr (), d)" and row: "read_target prog 1 d = Inr row"
    and s': "s' = s\<lparr>ss_pending_token := None, ss_device := d, ss_logits := row, ss_next_position := ss_next_position s + 1\<rparr>"
    using assms(3) Some by (auto simp: slot_replay_pending_def mbind_ok mmodify_ok mpart_ok mfail_ok split: if_splits)
  have "consumed F (view d) ?ctx" unfolding ctx(1) by (rule replay_token_view [OF assms(1) d refl ctx(2)])
  then have v: "dv_rows (view d) = [F ?ctx]" "dv_processed (view d) = ?ctx" using consumed_row ctx(1) by fastforce+
  then have "row = F ?ctx" using followsD(2) [OF assms(1) row] by simp
  then show ?thesis using s' v ctx by (simp add: slot_related_def Let_def)
qed

lemma slot_step_taken:
  assumes "slot_step fo tf prog s = (Inr step, s')"
  shows "\<exists>s1 g. slot_replay_pending prog s = (Inr (), s1) \<and> accept_logits fo tf (ss_logits s1) (ss_control s1) = (Inr step, g) \<and>
    s' = s1\<lparr>ss_control := g, ss_pending_token := (if st_finish_reason step = None then Some (st_token_id step) else ss_pending_token s1)\<rparr>"
proof -
  obtain s1 g where s1: "slot_replay_pending prog s = (Inr (), s1)" and g: "accept_logits fo tf (ss_logits s1) (ss_control s1) = (Inr step, g)"
    and w: "mwhen (st_finish_reason step = None) (mmodify (\<lambda>s. s\<lparr>ss_pending_token := Some (st_token_id step)\<rparr>)) (s1\<lparr>ss_control := g\<rparr>) = (Inr (), s')"
    using assms by (auto simp: slot_step_def mbind_ok mget_ok mpart_ok mreturn_ok)
  show ?thesis using s1 g w by (cases "st_finish_reason step = None") (auto simp: mwhen_ok mmodify_ok)
qed

lemma slot_step_related:
  assumes "follows F prog view" and "slot_related F view s" and "slot_step fo tf prog s = (Inr step, s')"
  shows "ref_step fo tf F (ss_control s) = (Inr step, ss_control s') \<and> slot_related F view s'"
proof -
  obtain s1 g where 1: "slot_replay_pending prog s = (Inr (), s1)" and acc: "accept_logits fo tf (ss_logits s1) (ss_control s1) = (Inr step, g)"
    and s': "s' = s1\<lparr>ss_control := g, ss_pending_token := (if st_finish_reason step = None then Some (st_token_id step) else ss_pending_token s1)\<rparr>"
    using slot_step_taken [OF assms(3)] by blast
  have "ss_control s1 = ss_control s"
    using 1 by (auto simp: slot_replay_pending_def mbind_ok mmodify_ok mpart_ok mfail_ok split: if_splits option.splits)
  then have fin: "gs_finish_reason (ss_control s) = None" using accept_logits_fields [OF acc] by simp
  note r = replay_pending_related [OF assms(1,2) 1 fin]
  let ?ctx = "session_context (ss_control s)"
  have rel: "slot_related F view s1" and same: "ss_control s1 = ss_control s" and none: "ss_pending_token s1 = None" using r by simp_all
  then have at: "dv_processed (view (ss_device s1)) = ?ctx" "ss_next_position s1 = length ?ctx" "ss_logits s1 = F ?ctx"
    using rel unfolding slot_related_def Let_def none same by (simp_all add: fin)
  then have ref: "ref_step fo tf F (ss_control s) = (Inr step, g)" using acc r by (simp add: ref_step_def)
  note f = accept_logits_fields [OF ref [unfolded ref_step_def]] accept_context [OF ref [unfolded ref_step_def]]
  then have "slot_related F view s'" using s' at r by (simp add: slot_related_def Let_def)
  then show ?thesis using ref s' by simp
qed

lemma slot_steps_related:
  assumes "follows F prog view" and "slot_related F view s" and "mrepeat n (slot_step fo tf prog) s = (Inr steps, s')"
  shows "mrepeat n (ref_step fo tf F) (ss_control s) = (Inr steps, ss_control s') \<and> slot_related F view s'"
  using assms(2,3)
proof (induction n arbitrary: s steps)
  case (Suc n)
  obtain x s1 xs where one: "slot_step fo tf prog s = (Inr x, s1)" and rest: "mrepeat n (slot_step fo tf prog) s1 = (Inr xs, s')" and "steps = x # xs"
    using Suc.prems(2) by (auto simp: mrepeat_split simp del: mrepeat.simps)
  note r = slot_step_related [OF assms(1) Suc.prems(1) one]
  then show ?case using Suc.IH [OF _ rest] \<open>steps = x # xs\<close> by (simp add: mrepeat_split del: mrepeat.simps)
qed (simp add: mreturn_ok)

lemma slot_start_related:
  assumes "follows F prog view" and "slot_start prog tf prompt request logits d = Inr s"
  shows "session_start tf prompt request = Inr (ss_control s) \<and> slot_related F view s"
proof -
  let ?ids = "pe_token_ids prompt"
  obtain g positions where g: "session_start tf prompt request = Inr g"
    and cap: "require_generation_capacity (length ?ids) (rq_max_new_tokens request) (capacity prog) = Inr positions"
    using assms(2) by (auto simp: slot_start_def rbind_Inr_iff)
  have s: "ss_control s = g" "ss_pending_token s = None" "ss_next_position s = length ?ids"
    using assms(2) g by (auto simp: slot_start_def rbind_Inr_iff split: if_splits)
  have ctx: "session_context g = ?ids" using session_start_fresh [OF g] by (simp add: session_context_def)
  have "?ids \<noteq> []" using cap by (auto simp: require_generation_capacity_def)
  have "slot_related F view s"
  proof (cases "gs_finish_reason g = None")
    case True
    obtain native d' where prime: "prime_single_slot prog ?ids positions d = (Inr native, d')"
      using assms(2) g cap True by (cases "prime_single_slot prog ?ids positions d"; cases "fst (prime_single_slot prog ?ids positions d)") (auto simp: slot_start_def)
    then obtain row where row: "read_target prog 1 d' = Inr row" and dev: "ss_device s = d'" "ss_logits s = row"
      using assms(2) g cap True by (auto simp: slot_start_def rbind_Inr_iff split: if_splits)
    have "dv_rows (view d') = [F ?ids]" "dv_processed (view d') = ?ids"
      using prime_single_slot_view [OF assms(1) prime] consumed_row \<open>?ids \<noteq> []\<close> by blast+
    then show ?thesis using s dev ctx followsD(2) [OF assms(1) row] by (simp add: slot_related_def Let_def)
  qed (use s in \<open>auto simp: slot_related_def Let_def\<close>)
  then show ?thesis using g s by simp
qed

section \<open>Claims\<close>

text \<open>C8: Greedy speculation is sequential generation. On a device whose logit rows are a function of the
  tokens consumed where calls are in order, any number of successful steps of a greedy speculative session
  are, token, text and finish reason, the steps of the reference that accepts one row after the other,
  whatever the draft model proposes. What the session shows of itself (finish reason, visible tokens, final
  output) is the state of the reference after these steps, although its own control session runs ahead.\<close>

theorem greedy_speculation_is_sequential:
  assumes "follows F prog view" and "is_greedy (rq_sampling request)" and "length logits = LOGIT_ROWS * VOCABULARY"
    and "mtp_start prog tf prompt request logits d = Inr s0" and "mrepeat n (mtp_step fo tf prog) s0 = (Inr steps, s)"
  shows "\<exists>g0 g. session_start tf prompt request = Inr g0 \<and> mrepeat n (ref_step fo tf F) g0 = (Inr steps, g) \<and>
    mtp_finish_reason s = gs_finish_reason g \<and> mtp_generated_token_ids s = Some (gs_generated g) \<and>
    (if ms_queue_len s = 0 then mtp_output s = into_output g else is_ok (mtp_output s) = False \<and> gs_finish_reason g = None)"
proof -
  obtain g0 where g0: "session_start tf prompt request = Inr g0" and rel0: "mtp_related fo tf F view s0 [] g0"
    using mtp_start_related [OF assms(1,3,2,4)] by blast
  obtain q g where run: "mrepeat n (ref_step fo tf F) g0 = (Inr steps, g)" and rel: "mtp_related fo tf F view s q g"
    using mtp_steps_related [OF assms(1) rel0 assms(5)] by blast
  note r = rel[unfolded mtp_related_def]
  have ahead: "gs_generated (ms_control s) = gs_generated g @ map st_token_id q" using r ref_context by blast
  then have ids: "mtp_generated_token_ids s = Some (gs_generated g)" using r by (simp add: mtp_generated_token_ids_def)
  show ?thesis
  proof (cases q)
    case Nil
    then have "ms_control s = g" "ms_queue_len s = 0" using r by (simp_all add: mreturn_ok)
    then show ?thesis using g0 run ids by (intro exI [of _ g0] exI [of _ g]) (simp add: mtp_finish_reason_def mtp_output_def)
  next
    case (Cons x xs)
    then have "\<exists>g1. ref_step fo tf F g = (Inr x, g1)" using r by (auto simp: mrepeat_split simp del: mrepeat.simps)
    then have "gs_finish_reason g = None" using accept_logits_fields by (fastforce simp: ref_step_def)
    moreover have "ms_queue_len s \<noteq> 0" using r Cons by simp
    ultimately show ?thesis using g0 run ids
      by (intro exI [of _ g0] exI [of _ g]) (simp add: mtp_finish_reason_def mtp_output_def is_ok_def)
  qed
qed

text \<open>C11: A single-slot session is sequential generation, for greedy and sampled requests. On such a device the
  steps of the session are those of the reference, its output is the reference's, and the device has
  consumed the prompt and all generated tokens but the pending one, at the position the session holds.\<close>

theorem slot_session_is_sequential:
  assumes "follows F prog view" and "slot_start prog tf prompt request logits d = Inr s0"
    and "mrepeat n (slot_step fo tf prog) s0 = (Inr steps, s)"
  shows "\<exists>g0 g. session_start tf prompt request = Inr g0 \<and> mrepeat n (ref_step fo tf F) g0 = (Inr steps, g) \<and>
    slot_output s = into_output g \<and>
    (case ss_pending_token s of
       None \<Rightarrow> n = 0 \<or> gs_finish_reason g \<noteq> None
     | Some t \<Rightarrow> session_context g = dv_processed (view (ss_device s)) @ [t] \<and> ss_next_position s = length (dv_processed (view (ss_device s))))"
proof -
  note start = slot_start_related [OF assms(1,2)]
  note run = slot_steps_related [OF assms(1) _ assms(3)]
  have ref: "mrepeat n (ref_step fo tf F) (ss_control s0) = (Inr steps, ss_control s)" and rel: "slot_related F view s" using start run by simp_all
  have "gs_finish_reason (ss_control s) \<noteq> None" if none: "ss_pending_token s = None" and some_step: "n \<noteq> 0"
  proof -
    obtain m where m: "n = Suc m" using some_step by (cases n) auto
    obtain s1 x where "slot_step fo tf prog s1 = (Inr x, s)" using assms(3) unfolding m by (elim mrepeat_snocE)
    then obtain s2 g where "accept_logits fo tf (ss_logits s2) (ss_control s2) = (Inr x, g)"
      and s: "s = s2\<lparr>ss_control := g, ss_pending_token := (if st_finish_reason x = None then Some (st_token_id x) else ss_pending_token s2)\<rparr>"
      using slot_step_taken by blast
    then show ?thesis using accept_logits_fields [of fo tf "ss_logits s2" "ss_control s2" x g] none by (auto split: if_splits)
  qed
  then show ?thesis using start ref rel
    by (intro exI [of _ "ss_control s0"] exI [of _ "ss_control s"]) (auto simp: slot_output_def slot_related_def Let_def split: option.splits)
qed

text \<open>C9: A greedy round is the reference's next calls. When the bank holds the rows after the drafts, the
  round commits the steps of as many reference calls, between one and one more than the drafts; the
  accepted drafts are the tokens of the first of these, and the round ends at the first token that is
  not the draft, at a terminal token, or with the row after all drafts. The compact batch decides its lane
  alike: the same counts, the same control session and the same steps.\<close>

theorem greedy_round_is_sequential:
  assumes "rows_after F (session_context g) (\<lambda>i. target_row logits i V) drafts"
    and "length drafts \<le> DRAFT_WINDOW" and "gs_finish_reason g = None"
    and "decide_greedy_round fo tf logits V drafts \<lparr>rs_control = g, rs_queued = replicate VERIFY_ROWS None\<rparr> = (Inr (committed, accepted), s)"
  shows "\<exists>steps. mrepeat committed (ref_step fo tf F) g = (Inr steps, rs_control s) \<and> 1 \<le> committed \<and> committed \<le> length drafts + 1 \<and>
    take committed (rs_queued s) = map Some steps \<and>
    accepted \<le> committed \<and> committed \<le> accepted + 1 \<and> map st_token_id (take accepted steps) = take accepted drafts \<and>
    (committed = accepted + 1 \<and> accepted < length drafts \<longrightarrow> st_token_id (steps ! accepted) \<noteq> drafts ! accepted) \<and>
    (committed = accepted \<longrightarrow> gs_finish_reason (rs_control s) \<noteq> None) \<and>
    (\<forall>bank lane. (\<forall>i\<le>length drafts. download_row bank (lane * (length drafts + 1) + i) V = target_row logits i V) \<longrightarrow>
      decide_greedy_lane fo tf bank V lane drafts \<lparr>ls_control = g, ls_builder = builder_new\<rparr> =
        (Inr (committed, accepted), \<lparr>ls_control = rs_control s, ls_builder = \<lparr>eb_steps = rs_queued s, eb_len = committed\<rparr>\<rparr>))"
proof -
  let ?s = "\<lparr>rs_control = g, rs_queued = replicate VERIFY_ROWS None\<rparr>"
  obtain steps where run: "mrepeat committed (ref_step fo tf F) g = (Inr steps, rs_control s)"
    and q: "queued_from (rs_queued s) 0 steps" and res: "round_result drafts steps accepted (rs_control s)"
    using greedy_round_ref [OF assms(4), of F] assms(1,3) by auto
  have len: "length steps = committed" by (rule mrepeat_length [OF run])
  have "1 \<le> committed"
  proof (rule ccontr)
    assume "\<not> 1 \<le> committed"
    then have "committed = 0" by simp
    then have "rs_control s = g" "steps = []" using run by (simp_all add: mreturn_ok)
    then show False using res assms(3) by (auto simp: round_result_def)
  qed
  moreover have "decide_greedy_lane fo tf bank V lane drafts \<lparr>ls_control = g, ls_builder = builder_new\<rparr> =
        (Inr (committed, accepted), \<lparr>ls_control = rs_control s, ls_builder = \<lparr>eb_steps = rs_queued s, eb_len = committed\<rparr>\<rparr>)"
    if "\<forall>i\<le>length drafts. download_row bank (lane * (length drafts + 1) + i) V = target_row logits i V" for bank lane
  proof -
    have small: "length drafts < length (rs_queued ?s)" using assms(2) by (simp add: DRAFT_WINDOW_def VERIFY_ROWS_def)
    show ?thesis using greedy_lane_sim [OF small that assms(4)] by (auto simp: lane_of_def builder_new_def)
  qed
  ultimately show ?thesis using run q res len
    by (intro exI [of _ steps]) (simp add: round_result_def queued_from_def)
qed

text \<open>C10: What a sampled round commits. It is the accepted drafts, each accepted by its own variate, then at most
  one token that the target law of that row supports: the correction of the first rejected draft, or the
  bonus after all drafts. Without such a token the last accepted draft is a stop token, and no stop token is
  accepted before the end. A round commits between one and four tokens.\<close>

theorem sampled_round_commits:
  assumes "decide_sampled_tokens fo drafts target_laws draft_laws stop_ids acceptance_units residual_units bonus_unit = Inr r"
  shows "1 \<le> length (round_token_ids r) \<and> length (round_token_ids r) \<le> length drafts + 1 \<and> length (round_token_ids r) \<le> VERIFY_ROWS \<and>
    sr_accepted r \<le> length (round_token_ids r) \<and> length (round_token_ids r) \<le> sr_accepted r + 1 \<and>
    take (sr_accepted r) (round_token_ids r) = take (sr_accepted r) drafts \<and>
    (\<forall>i < sr_accepted r. f64_lt (acceptance_units ! i) (speculative_accept_probability fo (drafts ! i) (target_laws ! i) (draft_laws ! i)) \<and>
      (drafts ! i \<in> set stop_ids \<longrightarrow> i + 1 = length (round_token_ids r))) \<and>
    (if length (round_token_ids r) = sr_accepted r then last (round_token_ids r) \<in> set stop_ids
     else round_token_ids r ! sr_accepted r \<in> fst ` set (sd_masses (target_laws ! sr_accepted r)) \<and>
       (sr_accepted r < length drafts \<longrightarrow> \<not> f64_lt (acceptance_units ! sr_accepted r)
          (speculative_accept_probability fo (drafts ! sr_accepted r) (target_laws ! sr_accepted r) (draft_laws ! sr_accepted r))))"
proof -
  let ?n = "length drafts"
  let ?rows = "zip drafts (zip target_laws (zip draft_laws (zip acceptance_units residual_units)))"
  let ?r0 = "\<lparr>sr_tokens = replicate VERIFY_ROWS 0, sr_committed = 0, sr_accepted = 0\<rparr>"
  have ext: "1 \<le> ?n" "?n \<le> DRAFT_WINDOW" "length target_laws = ?n + 1" "length draft_laws = ?n" "length acceptance_units = ?n" "length residual_units = ?n"
    using assms by (auto simp: decide_sampled_tokens_def Let_def split: if_splits)
  obtain outcome where loop: "sampled_tokens_loop fo stop_ids ?rows ?r0 = Inr outcome"
    and out: "(case outcome of Inl r \<Rightarrow> Inr r | Inr r \<Rightarrow> rbind (draw_at fo (target_laws ! ?n) bonus_unit) (\<lambda>token. Inr (round_push token r))) = Inr r"
    using assms ext by (auto simp: decide_sampled_tokens_def Let_def rbind_Inr_iff)
  have rows: "length ?rows = ?n" using ext by simp
  have small: "?n < VERIFY_ROWS" using ext(2) by (simp add: DRAFT_WINDOW_def VERIFY_ROWS_def)
  obtain a last_token r' where oc: "outcome = (if last_token = [] \<and> complete_of outcome then Inr r' else Inl r')"
    and r': "sr_accepted r' = a" "sr_committed r' = a + length last_token" "length (sr_tokens r') = VERIFY_ROWS"
      "take (sr_committed r') (sr_tokens r') = map fst (take a ?rows) @ last_token"
    and ends: "loop_ends fo stop_ids ?rows a last_token (complete_of outcome)"
    using sampled_loop_result [OF loop] rows small by auto
  note index = loop_ends_zip [OF ends ext(3-6)]
  have ids': "take (sr_committed r') (sr_tokens r') = take a drafts @ last_token" using r'(4) index(2) by simp
  show ?thesis
  proof (cases "complete_of outcome")
    case True
    then have full: "a = ?n" "last_token = []" "outcome = Inr r'" using index(5) oc by auto
    then obtain token where token: "draw_at fo (target_laws ! ?n) bonus_unit = Inr token" and r: "r = round_push token r'"
      using out by (auto simp: rbind_Inr_iff)
    have ids: "round_token_ids r = drafts @ [token]"
      using r r' full ids' small by (simp add: round_token_ids_def round_push_def take_Suc_conv_app_nth)
    have "drafts ! i \<notin> set stop_ids" if "i < a" for i using index(4) that True by blast
    then show ?thesis using ids r r' full draw_at_in [OF token] index(3) small by (simp add: round_push_def nth_append)
  next
    case False
    then have r: "r = r'" using out oc by auto
    have ids: "round_token_ids r = take a drafts @ last_token" using r ids' by (simp add: round_token_ids_def)
    show ?thesis
    proof (cases "last_token = []")
      case True
      then show ?thesis using ids r r' index small False by auto
    next
      case corrected: False
      obtain t where t: "last_token = [t]" "t \<in> fst ` set (sd_masses (target_laws ! a))" "a < ?n"
        and no: "\<not> f64_lt (acceptance_units ! a) (speculative_accept_probability fo (drafts ! a) (target_laws ! a) (draft_laws ! a))"
        using index(5) False corrected by auto
      have "drafts ! i \<notin> set stop_ids" if "i < a" for i using index(4) that corrected by blast
      then show ?thesis using ids r r' index(3) t no small by (simp add: nth_append)
    qed
  qed
qed

text \<open>C12: Priming ends and performs exactly its plan. On a device that accepts every call a prompt of at most
  \<open>2^32\<close> tokens is primed from any consumed prefix by these calls and no others: as many native tiles of
  1024 tokens as fit, then those of 128, 64 and 32 that fit into the rest, each staged before its replay, in
  order and without gap; then the remaining tokens one by one. For the target alone at most 31 tokens remain.
  For target and draft model, given the hidden row that a nonempty prefix needs, the tiles cover all but the
  last token, each tile and each single token is followed by the draft's call on the tokens one further, and
  the last token is always replayed singly, on the target only. The result is the number of native tokens. A
  nonempty prompt that is consumed whole primes nothing.\<close>

theorem prompt_priming_terminates:
  assumes "accepts_all prog" and "length token_ids \<le> U32_BOUND" and "processed_prefix \<le> length token_ids"
  shows "prime_prompt prog token_ids slot processed_prefix d = (Inr (32 * ((length token_ids - processed_prefix) div 32)),
      exec_all prog (stretch_calls False slot token_ids processed_prefix (length token_ids)) d) \<and>
    (processed_prefix < length token_ids \<and> (processed_prefix \<noteq> 0 \<longrightarrow> boundary_hidden \<noteq> None) \<longrightarrow>
      mtp_prime_prompt prog token_ids slot processed_prefix boundary_hidden d =
        (Inr (32 * ((length token_ids - 1 - processed_prefix) div 32)),
         exec_all prog (mtp_priming_calls slot token_ids processed_prefix boundary_hidden) d)) \<and>
    (processed_prefix = length token_ids \<and> token_ids \<noteq> [] \<longrightarrow>
      mtp_prime_prompt prog token_ids slot processed_prefix boundary_hidden d = (Inr 0, d))"
  using prime_prompt_performs [OF assms, of slot] mtp_prime_prompt_performs [OF assms(1,2), of processed_prefix boundary_hidden slot]
  by (auto simp: performs_def mtp_prime_prompt_def mtp_prime_prompt_with_progress_def mreturn_def)

text \<open>A device that keeps the calls. A prompt of 1185 tokens takes a tile of each size but 64, and one single token.\<close>

abbreviation recording_program :: "program_call list program" where
  "recording_program \<equiv> \<lparr>exec_call = (\<lambda>call calls. (Inr (), calls @ [call])), read_target = (\<lambda>_ _. Inr []), read_draft = (\<lambda>_ _. Inr []), capacity = 0\<rparr>"

theorem prompt_priming_terminates_witness:
  "prime_prompt recording_program (replicate 1185 7) 0 0 [] = (Inr 1184,
    [StageEmbeddings (replicate 1024 7), TargetPrefill 1024 0 0, StageEmbeddings (replicate 128 7), TargetPrefill 128 0 1024,
     StageEmbeddings (replicate 32 7), TargetPrefill 32 0 1152, StageEmbeddings [7], TargetDecode 1184])"
proof -
  have accepts: "accepts_all recording_program" by (simp add: accepts_all_def)
  have log: "exec_all recording_program calls xs = xs @ calls" for calls xs by (induction calls arbitrary: xs) simp_all
  have "prefill_plan 1185 = [1024, 128, 32]" by (simp add: prefill_plan_def)
  moreover have "[1184..<1185] = [1184 :: nat]" by (simp add: upt_rec)
  ultimately have plan: "stretch_calls False 0 (replicate 1185 7) 0 1185 =
    [StageEmbeddings (replicate 1024 7), TargetPrefill 1024 0 0, StageEmbeddings (replicate 128 7), TargetPrefill 128 0 1024,
     StageEmbeddings (replicate 32 7), TargetPrefill 32 0 1152, StageEmbeddings [7], TargetDecode 1184]"
    by (simp add: stretch_calls_def single_calls_def single_call_def)
  have "length (replicate 1185 (7::nat)) \<le> U32_BOUND" by (simp add: U32_BOUND_def)
  from prompt_priming_terminates [OF accepts this, of 0 0 "[]" None] show ?thesis by (simp add: log plan)
qed

theorem greedy_round_is_sequential_witness:
  "\<exists>s. decide_greedy_round sample_ops plain_frontend zero_bank VOCABULARY [0] \<lparr>rs_control = plain_session 0, rs_queued = replicate VERIFY_ROWS None\<rparr> = (Inr (2, 1), s) \<and>
    mrepeat 2 (ref_step sample_ops plain_frontend plain_model) (plain_session 0) = (Inr [plain_step 0, plain_step 1], rs_control s)"
proof -
  let ?s = "\<lparr>rs_control = plain_session 2, rs_queued = [Some (plain_step 0), Some (plain_step 1), None, None]\<rparr>"
  have four: "replicate VERIFY_ROWS None = [None, None, None, None :: generation_step option]" by (simp add: VERIFY_ROWS_def numeral_eq_Suc)
  have rows: "target_row zero_bank 0 VOCABULARY = Inr zero_row" "target_row zero_bank (Suc 0) VOCABULARY = Inr zero_row"
    using zero_bank_target(2) by simp_all
  note acc = plain_accept [of 0] plain_accept [of 1]
  have run: "decide_greedy_round sample_ops plain_frontend zero_bank VOCABULARY [0] \<lparr>rs_control = plain_session 0, rs_queued = replicate VERIFY_ROWS None\<rparr> = (Inr (2, 1), ?s)"
    using acc by (simp add: decide_greedy_round_def accept_row_def queue_step_def method_eval four rows plain_step_def numeral_2_eq_2)
      (simp add: plain_session_def)
  have "rows_after plain_model (session_context (plain_session 0)) (\<lambda>i. target_row zero_bank i VOCABULARY) [0]"
    by (simp add: rows_after_def plain_model_def zero_bank_target(2))
  moreover have "length [0::nat] \<le> DRAFT_WINDOW" "gs_finish_reason (plain_session 0) = None" by (simp_all add: DRAFT_WINDOW_def plain_session_def)
  ultimately obtain steps where "mrepeat 2 (ref_step sample_ops plain_frontend plain_model) (plain_session 0) = (Inr steps, rs_control ?s)"
      "take 2 (rs_queued ?s) = map Some steps"
    using greedy_round_is_sequential [OF _ _ _ run] by blast
  then show ?thesis using run by (intro exI [of _ ?s]) (auto simp: numeral_2_eq_2)
qed

theorem sampled_round_commits_witness:
  "\<exists>r. decide_sampled_tokens order_ops [7] [sample_law [3, 5], sample_law [3, 5]] [sample_law [7]] [6] [0] [0] 0 = Inr r \<and>
    length (round_token_ids r) = 1 \<and> round_token_ids r ! 0 \<in> fst ` set (sd_masses (sample_law [3, 5]))"
proof -
  let ?r = "\<lparr>sr_tokens = [3, 0, 0, 0], sr_committed = 1, sr_accepted = 0\<rparr>"
  have four: "replicate 4 (0::nat) = [0, 0, 0, 0]" by (simp add: numeral_eq_Suc)
  have run: "decide_sampled_tokens order_ops [7] [sample_law [3, 5], sample_law [3, 5]] [sample_law [7]] [6] [0] [0] 0 = Inr ?r"
    by (simp add: decide_sampled_tokens_def DRAFT_WINDOW_def VERIFY_ROWS_def sample_decision_rejects(3) round_push_def four Let_def)
  have "length (round_token_ids ?r) = 1" by (simp add: round_token_ids_def)
  then show ?thesis using run sampled_round_commits [OF run] by auto
qed

theorem greedy_speculation_is_sequential_witness:
  "\<exists>s. mrepeat 2 (mtp_step sample_ops plain_frontend plain_program) (plain_mtp 0 (plain_view [5] [5] [] 1)) = (Inr [plain_step 0, plain_step 1], s) \<and>
    mtp_generated_token_ids s = Some [0, 0] \<and> mtp_finish_reason s = None \<and>
    (\<exists>g. mrepeat 2 (ref_step sample_ops plain_frontend plain_model) (plain_session 0) = (Inr [plain_step 0, plain_step 1], g))"
proof -
  have run: "mrepeat 2 (mtp_step sample_ops plain_frontend plain_program) (plain_mtp 0 (plain_view [5] [5] [] 1)) = (Inr [plain_step 0, plain_step 1], plain_end)"
    by (simp only: numeral_2_eq_2 mrepeat_split) (use plain_step_one plain_step_two in \<open>auto simp: mreturn_ok\<close>)
  have "is_greedy (rq_sampling plain_request)" unfolding plain_request_def by code_simp
  moreover have "length zero_bank = LOGIT_ROWS * VOCABULARY" by (simp add: zero_bank_def)
  ultimately obtain g where "mrepeat 2 (ref_step sample_ops plain_frontend plain_model) (plain_session 0) = (Inr [plain_step 0, plain_step 1], g)"
    using greedy_speculation_is_sequential [OF plain_follows _ _ plain_mtp_start run] plain_start by auto
  moreover have "mtp_generated_token_ids plain_end = Some [0, 0]" "mtp_finish_reason plain_end = None"
    by (simp_all add: mtp_generated_token_ids_def mtp_finish_reason_def plain_end_def plain_session_def numeral_eq_Suc)
  ultimately show ?thesis using run by blast
qed

theorem slot_session_is_sequential_witness:
  "\<exists>s g. mrepeat 2 (slot_step sample_ops plain_frontend plain_program) (plain_slot 0 (plain_view [5] [5] [] 1) None 1) = (Inr [plain_step 0, plain_step 1], s) \<and>
    mrepeat 2 (ref_step sample_ops plain_frontend plain_model) (plain_session 0) = (Inr [plain_step 0, plain_step 1], g) \<and>
    session_context g = [5, 0, 0]"
proof -
  let ?after_two = "plain_slot 2 (plain_view [5, 0] [0] [] 1) (Some 0) 2"
  have run: "mrepeat 2 (slot_step sample_ops plain_frontend plain_program) (plain_slot 0 (plain_view [5] [5] [] 1) None 1) = (Inr [plain_step 0, plain_step 1], ?after_two)"
    by (simp only: numeral_2_eq_2 mrepeat_split) (use plain_slot_steps in \<open>auto simp: mreturn_ok numeral_2_eq_2\<close>)
  obtain g where "mrepeat 2 (ref_step sample_ops plain_frontend plain_model) (plain_session 0) = (Inr [plain_step 0, plain_step 1], g)"
    and "session_context g = dv_processed (id (ss_device ?after_two)) @ [0]"
    using slot_session_is_sequential [OF plain_follows plain_slot_start run] plain_start by (auto simp: plain_slot_def)
  then show ?thesis using run by (auto simp: plain_slot_def)
qed

end
