(* ===== verification/Spec2Isabelle.thy ===== *)
theory Spec2Isabelle
  imports KvProperties FlashProperties StreamProperties ArenaProperties ArenaLoading VmmParking StreamPoolProperties ToolTokens AssistantProperties DecoderProperties GenerationProperties MtpProperties
begin

text \<open>
  Verification library of tuiskollm, an inference engine for a few pinned language models. The program
  renders a chat request to tokens, primes device-resident model state through captured GPU graphs, reads
  back one BF16 logit row per token, selects tokens on the host, decodes them to text and serves the
  result. The device arithmetic lives in GPU kernels; what decides whether a run is correct besides that
  arithmetic is the host side: who owns which page, slot and byte of device memory, what is uploaded when,
  which token is selected, what text comes out and how tool calls are written and read. That host logic is
  what is modelled here.

  \<^bold>\<open>Program parts and theories\<close>

  \<^item> \<open>Prelude\<close>: errors of the crates, results as sums, checked 64-bit arithmetic, list lemmas.
    \<open>EngineMath\<close>: \<open>crates/tuisko-engine/src/common/math.rs\<close>.

  \<^item> \<open>PagedRows\<close>: two locales for page tables, \<open>paged_rows\<close> (rows of physical pages over a tag array) and
    \<open>paged_allocator\<close> (allocation keeps rows disjoint); both are interpreted on the two pools below.

  \<^item> \<open>KvPool\<close>, \<open>KvSpec\<close>, \<open>KvProperties\<close>: \<open>KvSlotPool\<close> of \<open>crates/tuisko-engine/src/paged_kv_slots.rs\<close>. The
    record \<open>kv_pool\<close> has the struct's tables, tags, hint and slots; \<open>kv_*\<close> are its methods. The lemmas show
    that it refines an abstract pool of page sets, that no page is owned twice, that pages are conserved, and
    that a failed call changes nothing.

  \<^item> \<open>FlashPool\<close>, \<open>FlashSpec\<close>, \<open>FlashProperties\<close>: the Flash-Next slot life cycle
    (\<open>qwen38_flash_next/slot_lifecycle.rs\<close>) with its epochs, free stack and dirty ranges of the device table.

  \<^item> \<open>StreamCache\<close>, \<open>StreamLinks\<close>, \<open>StreamLru\<close>, \<open>StreamRound\<close>, \<open>StreamAdmit\<close>, \<open>StreamProperties\<close>: the streaming slot
    cache of \<open>common/streaming.rs\<close>. Its intrusive linked list is shown to be a list, a round to be
    least-recently-used replacement over its distinct requests (a repeated request counts as a hit and touches
    nothing), and a plan to be invisible until it is committed.

  \<^item> \<open>TransferStream\<close>, \<open>TransferTrace\<close>: copy stream, events, tickets, pinned and bounce buffers of
    \<open>crates/tuisko-gpu/src/streaming.rs\<close>; driver calls are a trace, and whether one fails is a parameter,
    for the constructors' calls too; the arena's zeroed constructor and fill stand here.
    \<open>StreamPool\<close>, \<open>StreamResidency\<close>, \<open>StreamPoolInvariant\<close>, \<open>StreamPoolProperties\<close>: the streaming weight pool on
    top of cache and transfers: what the cache says is resident has been uploaded, slots are overwritten only
    after their readers, host buffers are not reused while a copy reads them, a failed prefetch poisons, and a
    byte plan is built exactly unless the driver refuses a call.

  \<^item> \<open>Arena\<close>, \<open>ArenaProperties\<close>, \<open>ArenaLoading\<close>: the device arena of \<open>crates/tuisko-gpu/src/arena.rs\<close>: reserved
    regions are disjoint and addressable at the alignment of their element type, and an arena is sealed with
    every byte written exactly once.
    \<open>Vmm\<close>, \<open>VmmProperties\<close>, \<open>VmmParking\<close>: the segment manifest of \<open>vmm_manifest.rs\<close> and parking of segments.

  \<^item> \<open>ToolCall\<close>, \<open>ToolMarker\<close>, \<open>ToolGrammar\<close>, \<open>ToolLanguage\<close>, \<open>ToolProperties\<close>, \<open>ToolTokens\<close>: the tool-call constraint of
    \<open>crates/tuisko-frontend/src/tool_call.rs\<close>: a byte automaton over compiled tags, shown to accept exactly
    the starts of a declared grammar of calls, and the token-level constraint over it.

  \<^item> \<open>Decoder\<close>, \<open>DecoderText\<close>, \<open>DecoderProperties\<close>: \<open>StreamingDecoder\<close> and the byte-level alphabet of
    \<open>crates/tuisko-frontend/src/lib.rs\<close>, against lossy UTF-8 decoding of the whole byte sequence.

  \<^item> \<open>Assistant\<close>, \<open>AssistantStream\<close>, \<open>AssistantCalls\<close>, \<open>AssistantProperties\<close>: the response parser of
    \<open>crates/tuisko-serve/src/assistant.rs\<close>; streaming equals batch, and it reads back what the constraint admits.

  \<^item> \<open>Sampling\<close>, \<open>SamplingOrder\<close>, \<open>SamplingProperties\<close>: \<open>crates/tuisko-engine/src/sampling.rs\<close>. The top-k loops are
    the stable descending sort; constrained selection stays in the admitted tokens; the speculative decision
    never returns a proposal it rejected.

  \<^item> \<open>Generation\<close>, \<open>GenerationRun\<close>, \<open>GenerationProperties\<close>: \<open>GenerationSession\<close> of
    \<open>crates/tuisko-engine/src/generation.rs\<close>. \<open>session_run\<close> is the inductive relation of successful calls; its
    invariant \<open>session_ok\<close> ties tokens, text, history and constraint together. The claims join sampler,
    constraint, decoder and response parser.

  \<^item> \<open>EngineState\<close>: state-and-result methods. \<open>TargetProgram\<close>: the device of Qwen3.8 as its host code calls it, and the
    priming of a prompt (\<open>qwen38/text_generation.rs\<close>, \<open>qwen38/resident_mtp_generation.rs\<close>); \<open>PrimingPlan\<close> shows
    that priming ends having made exactly the calls of a plan: native tiles from 1024 tokens down to 32, then
    single tokens (at most 31 for the target alone; with the draft model also the last token, so at most 32).
    \<open>SingleSlot\<close>: the generator of
    \<open>common/text_generator.rs\<close>, one replay per token. \<open>Mtp\<close>: the speculative decisions of \<open>common/mtp.rs\<close>;
    \<open>MtpSession\<close>: the speculative session of \<open>qwen38/resident_mtp_generation.rs\<close>, drafts, verification, commit,
    realignment and the queue of steps.

  \<^item> \<open>DeviceView\<close>: what the host relies on about the device (\<open>follows\<close>): rows are a function of the tokens consumed, for
    calls in order. \<open>MtpRound\<close>, \<open>MtpLane\<close>, \<open>MtpRun\<close>, \<open>MtpSequential\<close>: under it a round is the next calls of a
    reference that accepts one row after the other (\<open>ref_step\<close>), and a session simulates that reference; the
    compact batch's lane decides alike. \<open>PlainModel\<close> is the concrete model of the witnesses, \<open>MtpProperties\<close> holds
    the claims.

  \<^bold>\<open>Conventions\<close>

  A \<open>usize\<close>, \<open>u64\<close> or \<open>u32\<close> is a \<open>nat\<close> with the bound of each checked operation written out; bit masks, float
  patterns and random states are words; a byte is a \<open>char\<close>, a \<open>str\<close> its UTF-8 bytes. \<open>Inl\<close> is \<open>Err\<close>. A method on
  \<open>&mut self\<close> returns its result with the new state, also on errors. A panic is a branch of its own. Error
  messages keep their constant text.

  \<^bold>\<open>Parameters\<close>

  Code that is not in the repository is an argument: which driver call fails, the virtual-memory driver, the
  tokenizer (\<open>id_to_token\<close>, special tokens), the JSON library, the rounding of float arithmetic and \<open>exp\<close>, and
  the forward pass of the model. Hypotheses on a parameter are named in the claim that uses them, and the
  claim's witness discharges them for a concrete function: what the tokenizer documents of its vocabulary size
  (\<open>vocabulary_counted\<close>), what the driver promises of an allocation (\<open>driver_base\<close>), what the device computes
  for calls in order (\<open>follows\<close>), IEEE order of the float operations.

  \<^bold>\<open>Bounds\<close>

  \<open>cache_walk\<close> has fuel \<open>slot_count + 1\<close>, enough because the links form a list without repetition. A prefix
  buffer holds \<open>PREFIX_CAPACITY\<close> = 80 bytes, more than the longest tag of 76 bytes. A UTF-8 character has at
  most four bytes. Other loops are structural or have a measure.

  \<^bold>\<open>Not modelled\<close>

  The GPU kernel crates and the layer programs and resident models that launch them: their content is device
  arithmetic and graph capture, for which the repository has no readable semantics on the host. The compact-
  batch schedulers that run several sessions over these models are host code left out for its size; of them
  only the decision of a lane is modelled. Checkpoint readers, the provisioning and remote tools, the Python
  binding, the request and response transport of the server, logging, and the qualification and build tools.
  Prompt rendering (a template engine and a tokenizer) is an argument of \<open>session_start\<close>.
\<close>

end
